(* ===== verification/Prelude.thy ===== *)
theory Prelude
  imports Main "HOL-Library.Word" "HOL-Library.Monad_Syntax"
begin

text \<open>
  The vocabulary every component shares: the C integer types at their width, byte buffers,
  the result of running C code that may kill the process, checked memory accesses, and the
  lemmas on flat buffers cut into blocks.

  A computation of type \<open>'a run\<close> is \<open>None\<close> when the process dies: a failed
  \<open>assert\<close>, an integer division by zero, an access outside a buffer, or a call of
  \<open>err\<close>. A theorem that a call returns \<open>Some\<close> therefore says, among other
  things, that no assertion fails and that no buffer is overrun.
\<close>

section \<open>C types\<close>

type_synonym u8 = "8 word"
type_synonym u16 = "16 word"
type_synonym u32 = "32 word"
type_synonym u64 = "64 word"
type_synonym bytes = "8 word list"
type_synonym 'a run = "'a option"

named_theorems run_simps \<open>unfolding rules for checked C operations that succeed\<close>
named_theorems c_arith \<open>readings of unsigned arithmetic that does not wrap around\<close>

declare Option.bind_cong [fundef_cong]

section \<open>Checked C operations\<close>

definition c_assert :: "bool \<Rightarrow> unit run" where
  "c_assert b = (if b then Some () else None)"

definition c_div :: "u64 \<Rightarrow> u64 \<Rightarrow> u64 run" where
  "c_div a b = (if b = 0 then None else Some (a div b))"

definition c_mod :: "u64 \<Rightarrow> u64 \<Rightarrow> u64 run" where
  "c_mod a b = (if b = 0 then None else Some (a mod b))"

text \<open>\<open>rd buf off n\<close> reads \<open>n\<close> bytes at \<open>buf + off\<close>; \<open>wr buf off src\<close> is
  \<open>memcpy\<close> of all of \<open>src\<close> to \<open>buf + off\<close>. Both die outside the buffer.\<close>

definition rd :: "bytes \<Rightarrow> nat \<Rightarrow> nat \<Rightarrow> bytes run" where
  "rd buf off n = (if off + n \<le> length buf then Some (take n (drop off buf)) else None)"

definition patch :: "nat \<Rightarrow> 'a list \<Rightarrow> 'a list \<Rightarrow> 'a list" where
  "patch off src buf = take off buf @ src @ drop (off + length src) buf"

definition wr :: "bytes \<Rightarrow> nat \<Rightarrow> bytes \<Rightarrow> bytes run" where
  "wr buf off src = (if off + length src \<le> length buf then Some (patch off src buf) else None)"

definition byte_at :: "bytes \<Rightarrow> nat \<Rightarrow> u8 run" where
  "byte_at buf i = (if i < length buf then Some (buf ! i) else None)"

definition byte_set :: "bytes \<Rightarrow> nat \<Rightarrow> u8 \<Rightarrow> bytes run" where
  "byte_set buf i b = (if i < length buf then Some (buf[i := b]) else None)"

text \<open>\<open>for (i = 0; i < n; i++) to[i] = g(i)\<close> for a pointer \<open>to\<close> at offset \<open>off\<close> of a
  buffer that \<open>g\<close> reads too; the list is that of the loop counter.\<close>

primrec byte_loop :: "(nat \<Rightarrow> bytes \<Rightarrow> u8 run) \<Rightarrow> nat \<Rightarrow> nat list \<Rightarrow> bytes \<Rightarrow> bytes run" where
  "byte_loop g off [] buf = Some buf"
| "byte_loop g off (i # is) buf = do {
     b \<leftarrow> g i buf;
     buf \<leftarrow> byte_set buf (off + i) b;
     byte_loop g off is buf }"

text \<open>C's \<open>int\<close> has 32 bits. An overflow, which the standard leaves undefined, wraps around here, as in
  the machine code. \<open>int_below n\<close> are the values of the counter in \<open>for (int i = 0; i < n; i++)\<close>
  for an unsigned \<open>n\<close> of 64 bits: when the counter has become negative it is above \<open>n\<close> in the
  comparison, and the loop ends early.\<close>

definition c_int :: "int \<Rightarrow> int" where
  "c_int x = sint (word_of_int x :: 32 word)"

definition int_below :: "u64 \<Rightarrow> nat list" where
  "int_below n = [0..<min (unat n) (2 ^ 31)]"

lemma c_int_id: "- (2 ^ 31) \<le> x \<Longrightarrow> x < 2 ^ 31 \<Longrightarrow> c_int x = x"
  by (simp add: c_int_def signed_of_int signed_take_bit_int_eq_self)

lemma int_below_all: "unat n < 2 ^ 31 \<Longrightarrow> int_below n = [0..<unat n]"
  by (simp add: int_below_def)

text \<open>\<open>a[i]\<close> on an array of devices or integers.\<close>

definition c_index :: "'a list \<Rightarrow> nat \<Rightarrow> 'a run" where
  "c_index xs i = (if i < length xs then Some (xs ! i) else None)"

definition memset :: "bytes \<Rightarrow> nat \<Rightarrow> u8 \<Rightarrow> nat \<Rightarrow> bytes run" where
  "memset buf off v n = wr buf off (replicate n v)"

text \<open>A store of structs that \<open>malloc\<close> gives and \<open>free\<close> takes back (\<open>None\<close>): an access to a
  struct that is freed kills the run.\<close>

type_synonym addr = nat

definition cell :: "'a option list \<Rightarrow> addr \<Rightarrow> 'a run" where
  "cell xs a = (if a < length xs then xs ! a else None)"

lemma cell_Some: "cell xs a = Some x \<longleftrightarrow> a < length xs \<and> xs ! a = Some x"
  by (simp add: cell_def)

text \<open>\<open>malloc\<close>: a block of the wanted size with arbitrary contents, or \<open>None\<close>
  for \<open>NULL\<close>. The allocator is a parameter of the model; this is what the code relies on.\<close>

type_synonym allocator = "nat \<Rightarrow> bytes option"

definition alloc_ok :: "allocator \<Rightarrow> bool" where
  "alloc_ok alloc \<longleftrightarrow> (\<forall>n b. alloc n = Some b \<longrightarrow> length b = n)"

definition calloc_alloc :: allocator where
  "calloc_alloc n = Some (replicate n 0)"

lemma alloc_okD: "alloc_ok alloc \<Longrightarrow> alloc n = Some b \<Longrightarrow> length b = n"
  by (simp add: alloc_ok_def)

lemma calloc_alloc_ok: "alloc_ok calloc_alloc"
  by (simp add: alloc_ok_def calloc_alloc_def)

lemma c_assert_Some [simp, run_simps]: "b \<Longrightarrow> c_assert b = Some ()"
  by (simp add: c_assert_def)

lemma c_assert_None [simp]: "\<not> b \<Longrightarrow> c_assert b = None"
  by (simp add: c_assert_def)

lemma c_assert_eq_Some [simp]: "c_assert b = Some u \<longleftrightarrow> b"
  by (simp add: c_assert_def)

lemma c_div_Some [simp, run_simps]: "b \<noteq> 0 \<Longrightarrow> c_div a b = Some (a div b)"
  by (simp add: c_div_def)

lemma c_mod_Some [simp, run_simps]: "b \<noteq> 0 \<Longrightarrow> c_mod a b = Some (a mod b)"
  by (simp add: c_mod_def)

lemma c_div_zero [simp]: "c_div a 0 = None" and c_mod_zero [simp]: "c_mod a 0 = None"
  by (simp_all add: c_div_def c_mod_def)

lemma byte_at_Some [simp, run_simps]: "i < length buf \<Longrightarrow> byte_at buf i = Some (buf ! i)"
  by (simp add: byte_at_def)

lemma byte_at_None [simp]: "length buf \<le> i \<Longrightarrow> byte_at buf i = None"
  by (simp add: byte_at_def)

lemma c_index_Some [simp, run_simps]: "i < length xs \<Longrightarrow> c_index xs i = Some (xs ! i)"
  by (simp add: c_index_def)

lemma c_index_None [simp]: "length xs \<le> i \<Longrightarrow> c_index xs i = None"
  by (simp add: c_index_def)

lemma rd_Some [run_simps]: "off + n \<le> length buf \<Longrightarrow> rd buf off n = Some (take n (drop off buf))"
  by (simp add: rd_def)

lemma rd_all [run_simps]: "n \<le> length buf \<Longrightarrow> rd buf 0 n = Some (take n buf)"
  by (simp add: rd_def)

lemma wr_Some [run_simps]:
  "off + length src \<le> length buf \<Longrightarrow> wr buf off src = Some (patch off src buf)"
  by (simp add: wr_def)

lemma memset_Some [run_simps]:
  "off + n \<le> length buf \<Longrightarrow> memset buf off v n = Some (patch off (replicate n v) buf)"
  by (simp add: memset_def wr_def)

section \<open>Buffers\<close>

lemma length_patch [simp]: "off + length src \<le> length buf \<Longrightarrow> length (patch off src buf) = length buf"
  by (simp add: patch_def)

lemma patch_0 [simp]: "patch 0 src buf = src @ drop (length src) buf"
  by (simp add: patch_def)

lemma patch_whole [simp]: "length src = length buf \<Longrightarrow> patch 0 src buf = src"
  by (simp add: patch_def)

lemma patch_Nil [simp]: "patch off [] buf = buf"
  by (simp add: patch_def)

lemma nth_patch:
  assumes "off + length src \<le> length buf" and "i < length buf"
  shows "patch off src buf ! i =
    (if off \<le> i \<and> i < off + length src then src ! (i - off) else buf ! i)"
  using assms by (auto simp: patch_def nth_append min_def)

lemma patch_patch:
  assumes "off + length a + length b \<le> length buf"
  shows "patch (off + length a) b (patch off a buf) = patch off (a @ b) buf"
  using assms by (intro nth_equalityI) (auto simp: nth_patch nth_append)

lemma take_drop_patch:
  assumes "off + length src \<le> length buf"
  shows "take (length src) (drop off (patch off src buf)) = src"
  using assms by (simp add: patch_def)

lemma take_drop_patch_disjoint:
  assumes "off + length src \<le> length buf" and "i + n \<le> length buf"
    and "i + n \<le> off \<or> off + length src \<le> i"
  shows "take n (drop i (patch off src buf)) = take n (drop i buf)"
  using assms by (intro nth_equalityI) (auto simp: nth_patch)

lemma byte_set_Some [simp]: "i < length buf \<Longrightarrow> byte_set buf i b = Some (buf[i := b])"
  by (simp add: byte_set_def)

lemma byte_loop_append:
  "byte_loop g off (is @ js) buf = do { buf \<leftarrow> byte_loop g off is buf; byte_loop g off js buf }"
proof (induction "is" arbitrary: buf)
  case (Cons i "is")
  then show ?case
    by (cases "g i buf"; simp; cases "byte_set buf (off + i) (the (g i buf))"; simp)
qed simp

lemma patch_snoc:
  assumes "off + length src < length buf"
  shows "(patch off src buf)[off + length src := b] = patch off (src @ [b]) buf"
  using assms by (intro nth_equalityI) (auto simp: nth_patch nth_list_update nth_append less_Suc_eq)

text \<open>When every byte is computed from bytes that the loop has not written yet, the loop is one
  \<open>memcpy\<close> of the computed bytes.\<close>

lemma byte_loop_patch:
  assumes "off + n \<le> length buf"
    and "\<And>i src. i < n \<Longrightarrow> length src = i \<Longrightarrow> g i (patch off src buf) = Some (v i)"
  shows "byte_loop g off [0..<n] buf = Some (patch off (map v [0..<n]) buf)"
  using assms
proof (induction n)
  case (Suc n)
  then have "byte_loop g off [0..<n] buf = Some (patch off (map v [0..<n]) buf)" by simp
  moreover have "g n (patch off (map v [0..<n]) buf) = Some (v n)" using Suc.prems(2) by simp
  moreover have "(patch off (map v [0..<n]) buf)[off + n := v n] = patch off (map v [0..<n] @ [v n]) buf"
    using patch_snoc [of off "map v [0..<n]" buf "v n"] Suc.prems(1) by simp
  moreover have "off + n < length (patch off (map v [0..<n]) buf)" using Suc.prems(1) by simp
  ultimately show ?case by (simp add: byte_loop_append)
qed simp

section \<open>Lists of equal-length blocks\<close>

definition blocked :: "nat \<Rightarrow> 'a list list \<Rightarrow> bool" where
  "blocked bs bl \<longleftrightarrow> (\<forall>b \<in> set bl. length b = bs)"

text \<open>Block \<open>i\<close> of a flat buffer, and the list of the first \<open>n\<close> blocks.\<close>

definition block_at :: "nat \<Rightarrow> 'a list \<Rightarrow> nat \<Rightarrow> 'a list" where
  "block_at bs buf i = take bs (drop (i * bs) buf)"

definition blocks_of :: "nat \<Rightarrow> nat \<Rightarrow> 'a list \<Rightarrow> 'a list list" where
  "blocks_of bs n buf = map (block_at bs buf) [0..<n]"

lemma length_blocks_of [simp]: "length (blocks_of bs n buf) = n"
  by (simp add: blocks_of_def)

lemma nth_blocks_of [simp]: "i < n \<Longrightarrow> blocks_of bs n buf ! i = block_at bs buf i"
  by (simp add: blocks_of_def)

lemma block_end_le: "i < n \<Longrightarrow> n * bs \<le> l \<Longrightarrow> i * bs + bs \<le> (l::nat)"
proof -
  assume "i < n" and l: "n * bs \<le> l"
  then have "Suc i * bs \<le> n * bs" by (intro mult_le_mono1) simp
  with l show ?thesis by simp
qed

lemma length_block_at [simp]: "i < n \<Longrightarrow> n * bs \<le> length buf \<Longrightarrow> length (block_at bs buf i) = bs"
  using block_end_le [of i n bs "length buf"] by (simp add: block_at_def)

lemma blocked_blocks_of: "n * bs \<le> length buf \<Longrightarrow> blocked bs (blocks_of bs n buf)"
  by (auto simp: blocked_def blocks_of_def)

lemma blocked_nth: "blocked bs bl \<Longrightarrow> i < length bl \<Longrightarrow> length (bl ! i) = bs"
  by (simp add: blocked_def)

lemma blocked_update: "blocked bs bl \<Longrightarrow> length b = bs \<Longrightarrow> blocked bs (bl[i := b])"
  by (cases "i < length bl") (auto simp: blocked_def list_update_beyond dest!: set_update_subset_insert [THEN subsetD])

lemma block_at_patch:
  assumes "i < n" and "j < n" and "n * bs \<le> length buf" and "length src = bs"
  shows "block_at bs (patch (i * bs) src buf) j = (if i = j then src else block_at bs buf j)"
proof (cases "i = j")
  case True
  with assms block_end_le [of i n bs "length buf"] show ?thesis
    using take_drop_patch [of "i * bs" src buf] by (simp add: block_at_def)
next
  case False
  then consider "i < j" | "j < i" by linarith
  then have "j * bs + bs \<le> i * bs \<or> i * bs + bs \<le> j * bs"
    by cases (metis mult_Suc add.commute mult_le_mono1 Suc_leI)+
  with False assms block_end_le [of i n bs "length buf"] block_end_le [of j n bs "length buf"]
  show ?thesis by (simp add: block_at_def take_drop_patch_disjoint)
qed

lemma blocks_of_patch:
  assumes "i < n" and "n * bs \<le> length buf" and "length src = bs"
  shows "blocks_of bs n (patch (i * bs) src buf) = (blocks_of bs n buf)[i := src]"
  using assms by (intro nth_equalityI) (auto simp: block_at_patch [where n = n] nth_list_update)

lemma block_at_prefix:
  assumes "j * bs + bs \<le> m" and "m \<le> length buf"
  shows "block_at bs (take m buf @ t) j = block_at bs buf j"
proof -
  have "min bs (m - j * bs) = bs" using assms(1) by simp
  with assms show ?thesis by (simp add: block_at_def drop_take)
qed

lemma length_concat_blocked: "blocked bs bl \<Longrightarrow> length (concat bl) = length bl * bs"
  by (induction bl) (auto simp: blocked_def)

lemma blocked_split:
  assumes "blocked bs bl" and "i < length bl"
  shows "concat bl = concat (take i bl) @ bl ! i @ concat (drop (Suc i) bl)"
    and "length (concat (take i bl)) = i * bs"
proof -
  show "concat bl = concat (take i bl) @ bl ! i @ concat (drop (Suc i) bl)"
    using assms(2) by (metis concat.simps(2) concat_append id_take_nth_drop)
  have "blocked bs (take i bl)"
    using assms(1) by (auto simp: blocked_def dest: in_set_takeD)
  from length_concat_blocked [OF this] assms(2)
  show "length (concat (take i bl)) = i * bs" by simp
qed

lemma block_at_concat:
  assumes "blocked bs bl" and "i < length bl"
  shows "block_at bs (concat bl) i = bl ! i"
  using blocked_split [OF assms] blocked_nth [OF assms] by (simp add: block_at_def)

lemma blocks_of_concat: "blocked bs bl \<Longrightarrow> blocks_of bs (length bl) (concat bl) = bl"
  by (intro nth_equalityI) (auto simp: block_at_concat)

lemma take_drop_concat:
  assumes "blocked bs bl" and "i < length bl" and "k + n \<le> bs"
  shows "take n (drop (i * bs + k) (concat bl)) = take n (drop k (bl ! i))"
  using blocked_split [OF assms(1,2)] blocked_nth [OF assms(1,2)] assms(3)
  by (simp add: add.commute [of "i * bs" k] flip: drop_drop)

lemma concat_update_patch:
  assumes "blocked bs bl" and "i < length bl" and "k + length d \<le> bs"
  shows "concat (bl[i := patch k d (bl ! i)]) = patch (i * bs + k) d (concat bl)"
proof -
  have s: "concat (bl[i := patch k d (bl ! i)]) =
      concat (take i bl) @ patch k d (bl ! i) @ concat (drop (Suc i) bl)"
    using assms(2) by (simp add: upd_conv_take_nth_drop)
  show ?thesis
    unfolding s using blocked_split [OF assms(1,2)] blocked_nth [OF assms(1,2)] assms(3)
    by (simp add: patch_def)
qed

lemma concat_update_block:
  assumes "blocked bs bl" and "i < length bl" and "length d = bs"
  shows "concat (bl[i := d]) = patch (i * bs) d (concat bl)"
  using concat_update_patch [OF assms(1,2), of 0 d] assms blocked_nth [OF assms(1,2)] by simp

section \<open>Lists of lists laid end to end\<close>

text \<open>Where list \<open>j\<close> starts in the concatenation.\<close>

definition offs :: "'a list list \<Rightarrow> nat \<Rightarrow> nat" where
  "offs xss j = sum_list (map length (take j xss))"

lemma concat_split_at:
  assumes "j < length xss"
  shows "concat xss = concat (take j xss) @ xss ! j @ concat (drop (Suc j) xss)"
    and "length (concat (take j xss)) = offs xss j"
  using assms by (metis concat.simps(2) concat_append id_take_nth_drop)
    (simp add: offs_def length_concat)

lemma nth_concat_offs:
  assumes "j < length xss" and "k < length (xss ! j)"
  shows "concat xss ! (offs xss j + k) = xss ! j ! k" "offs xss j + k < length (concat xss)"
proof -
  note s = concat_split_at [OF assms(1)]
  show "concat xss ! (offs xss j + k) = xss ! j ! k"
    by (subst s(1)) (simp add: nth_append s(2) assms(2))
  show "offs xss j + k < length (concat xss)"
    using assms(2) by (subst s(1)) (simp add: s(2) trans_less_add1)
qed

lemma update_concat_offs:
  assumes "j < length xss" and "k < length (xss ! j)"
  shows "concat (xss[j := (xss ! j)[k := b]]) = (concat xss)[offs xss j + k := b]"
proof -
  have "concat (xss[j := (xss ! j)[k := b]]) =
      concat (take j xss) @ (xss ! j)[k := b] @ concat (drop (Suc j) xss)"
    using assms(1) by (simp add: upd_conv_take_nth_drop)
  moreover have "(concat xss)[offs xss j + k := b] =
      concat (take j xss) @ (xss ! j)[k := b] @ concat (drop (Suc j) xss)"
    using concat_split_at [OF assms(1)] assms(2) by (simp add: list_update_append)
  ultimately show ?thesis by simp
qed

section \<open>Unsigned 64-bit arithmetic that does not wrap around\<close>

lemma unat_u64_bound: "unat (a::u64) < 2 ^ 64"
proof -
  have "unat a < 2 ^ LENGTH(64)" by (rule unsigned_less)
  then show ?thesis by simp
qed

lemma unat_add_u64 [c_arith]:
  "unat (a::u64) + unat b < 2 ^ 64 \<Longrightarrow> unat (a + b) = unat a + unat b"
  using unat_add_lem [of a b] by simp

lemma unat_mult_u64 [c_arith]:
  "unat (a::u64) * unat b < 2 ^ 64 \<Longrightarrow> unat (a * b) = unat a * unat b"
  using unat_mult_lem [of a b] by simp

lemma unat_sub_u64 [c_arith]: "b \<le> a \<Longrightarrow> unat (a - b :: u64) = unat a - unat b"
  by (simp add: unat_sub)

lemma unat_Suc_u64 [c_arith]: "(a::u64) < b \<Longrightarrow> unat (a + 1) = Suc (unat a)"
proof -
  assume "a < b"
  then have "unat a < unat b" by (simp add: word_less_nat_alt)
  moreover have "unat b < 2 ^ 64" by (rule unat_u64_bound)
  ultimately have "unat a + unat (1::u64) < 2 ^ 64" by simp
  then show ?thesis using unat_add_u64 [of a 1] by simp
qed

lemma unat_u32_u64: "unat (ucast h :: u64) = unat (h :: u32)"
  by (simp add: unsigned_ucast_eq take_bit_nat_eq_self_iff less_le_trans [OF unsigned_less])

lemmas u64_nat = word_less_nat_alt word_le_nat_alt unat_div unat_mod

lemma u64_eq_iff: "(a::u64) = b \<longleftrightarrow> unat a = unat b"
  by (rule word_unat_eq_iff)

lemma u64_less_not_max: "(a::u64) < b \<Longrightarrow> a \<noteq> - 1"
  using word_order.extremum [of b] by (metis leD)

lemma unat_drop_bit_div: "unat (drop_bit n (v :: 'a::len word)) = unat v div 2 ^ n"
  by (rule trans [OF unat_drop_bit_eq drop_bit_eq_div])

unbundle bit_operations_syntax

lemma xor_cancel_left: "a XOR x = a XOR y \<Longrightarrow> x = (y :: 'a::len word)"
proof -
  assume "a XOR x = a XOR y"
  then have "a XOR (a XOR x) = a XOR (a XOR y)" by simp
  then show ?thesis by (simp only: xor.assoc [symmetric] xor_self_eq xor.left_neutral)
qed

lemma xor_cancel_right: "x XOR a = y XOR a \<Longrightarrow> x = (y :: 'a::len word)"
  by (rule xor_cancel_left [of a]) (simp only: xor.commute [of a])

lemma nat_less_div_mult: "(q::nat) < n \<Longrightarrow> r < b \<Longrightarrow> q * b + r < n * b"
proof -
  assume "q < n" and "r < b"
  then have "q * b + r < Suc q * b" by simp
  also have "\<dots> \<le> n * b" using \<open>q < n\<close> by (intro mult_le_mono1) simp
  finally show ?thesis .
qed

lemma ceil_mult:
  assumes "0 < (B::nat)"
  shows "n \<le> (n + B - 1) div B * B" "(n + B - 1) div B * B \<le> n + B - 1"
proof -
  have "n + B - 1 = (n + B - 1) div B * B + (n + B - 1) mod B" by (metis div_mult_mod_eq)
  moreover have "(n + B - 1) mod B < B" using assms by simp
  ultimately show "n \<le> (n + B - 1) div B * B" "(n + B - 1) div B * B \<le> n + B - 1" by linarith+
qed

end
