(* ===== verification/Endian.thy ===== *)
theory Endian
  imports Prelude
begin

text \<open>
  \<open>src/src/endian-fns.h\<close>: big-endian packing and unpacking of unsigned integers in byte
  buffers. The on-disk headers, the CRC blocks and the NBD protocol all go through these six
  functions; the lemmas are their round trips and their effect on the rest of the buffer.
\<close>

unbundle bit_operations_syntax

section \<open>The operations\<close>

text \<open>The bytes a packer stores: each \<open>to[k] = from & 0xFF; from >>= 8\<close> in turn.\<close>

definition be64_bytes :: "u64 \<Rightarrow> bytes" where
  "be64_bytes from =
     (let to7 = ucast (from AND 0xFF); from = drop_bit 8 from;
          to6 = ucast (from AND 0xFF); from = drop_bit 8 from;
          to5 = ucast (from AND 0xFF); from = drop_bit 8 from;
          to4 = ucast (from AND 0xFF); from = drop_bit 8 from;
          to3 = ucast (from AND 0xFF); from = drop_bit 8 from;
          to2 = ucast (from AND 0xFF); from = drop_bit 8 from;
          to1 = ucast (from AND 0xFF); from = drop_bit 8 from;
          to0 = ucast (from AND 0xFF)
      in [to0, to1, to2, to3, to4, to5, to6, to7])"

definition be32_bytes :: "u32 \<Rightarrow> bytes" where
  "be32_bytes from =
     (let to3 = ucast (from AND 0xFF); from = drop_bit 8 from;
          to2 = ucast (from AND 0xFF); from = drop_bit 8 from;
          to1 = ucast (from AND 0xFF); from = drop_bit 8 from;
          to0 = ucast (from AND 0xFF)
      in [to0, to1, to2, to3])"

definition be16_bytes :: "u16 \<Rightarrow> bytes" where
  "be16_bytes from =
     (let to1 = ucast (from AND 0xFF); from = drop_bit 8 from;
          to0 = ucast (from AND 0xFF)
      in [to0, to1])"

definition pack_be64 :: "u64 \<Rightarrow> bytes \<Rightarrow> nat \<Rightarrow> bytes run" where
  "pack_be64 from buf off = wr buf off (be64_bytes from)"

definition pack_be32 :: "u32 \<Rightarrow> bytes \<Rightarrow> nat \<Rightarrow> bytes run" where
  "pack_be32 from buf off = wr buf off (be32_bytes from)"

definition pack_be16 :: "u16 \<Rightarrow> bytes \<Rightarrow> nat \<Rightarrow> bytes run" where
  "pack_be16 from buf off = wr buf off (be16_bytes from)"

definition unpack_be64 :: "bytes \<Rightarrow> nat \<Rightarrow> u64 run" where
  "unpack_be64 buf off = do {
     from \<leftarrow> rd buf off 8;
     Some (ucast (from ! 7)
         + push_bit 8 (ucast (from ! 6))
         + push_bit 16 (ucast (from ! 5))
         + push_bit 24 (ucast (from ! 4))
         + push_bit 32 (ucast (from ! 3))
         + push_bit 40 (ucast (from ! 2))
         + push_bit 48 (ucast (from ! 1))
         + push_bit 56 (ucast (from ! 0))) }"

definition unpack_be32 :: "bytes \<Rightarrow> nat \<Rightarrow> u32 run" where
  "unpack_be32 buf off = do {
     from \<leftarrow> rd buf off 4;
     Some (ucast (from ! 3)
         + push_bit 8 (ucast (from ! 2))
         + push_bit 16 (ucast (from ! 1))
         + push_bit 24 (ucast (from ! 0))) }"

definition unpack_be16 :: "bytes \<Rightarrow> nat \<Rightarrow> u16 run" where
  "unpack_be16 buf off = do {
     from \<leftarrow> rd buf off 2;
     Some (ucast (ucast (from ! 1) + push_bit 8 (ucast (from ! 0)) :: u32)) }"

section \<open>Values\<close>

text \<open>The number a big-endian byte list denotes.\<close>

definition be_val :: "bytes \<Rightarrow> nat" where
  "be_val bs = foldl (\<lambda>a b. a * 256 + unat b) 0 bs"

lemma length_be_bytes [simp]:
  "length (be64_bytes v) = 8" "length (be32_bytes w) = 4" "length (be16_bytes x) = 2"
  by (simp_all add: be64_bytes_def be32_bytes_def be16_bytes_def Let_def)

lemma unat_low_byte: "8 \<le> LENGTH('a) \<Longrightarrow> unat (ucast (v AND 0xFF) :: u8) = unat (v :: 'a::len word) mod 256"
proof -
  assume w: "8 \<le> LENGTH('a)"
  have "v AND 0xFF = take_bit 8 v"
    by (simp add: take_bit_eq_mask mask_eq_exp_minus_1)
  moreover have "ucast (take_bit 8 v) = (ucast v :: u8)"
    using w by (intro bit_word_eqI) (auto simp: bit_simps bit_ucast_iff)
  moreover have "unat (ucast v :: u8) = unat v mod 256"
    by (simp add: unsigned_ucast_eq take_bit_eq_mod)
  ultimately show ?thesis by simp
qed

lemma unat_byte: "unat (b :: u8) < 256"
proof -
  have "unat b < 2 ^ LENGTH(8)" by (rule unsigned_less)
  then show ?thesis by simp
qed

lemma unat_u32_bound: "unat (a::u32) < 2 ^ 32"
proof -
  have "unat a < 2 ^ LENGTH(32)" by (rule unsigned_less)
  then show ?thesis by simp
qed

text \<open>The base-256 digits of a number, most significant first.\<close>

fun be_digits :: "nat \<Rightarrow> nat \<Rightarrow> bytes" where
  "be_digits 0 x = []"
| "be_digits (Suc n) x = be_digits n (x div 256) @ [word_of_nat (x mod 256)]"

lemma be_val_snoc [simp]: "be_val (bs @ [b]) = be_val bs * 256 + unat b"
  by (simp add: be_val_def)

lemma be_val_Nil [simp]: "be_val [] = 0"
  by (simp add: be_val_def)

lemma be_val_digits: "be_val (be_digits n x) = x mod 256 ^ n"
  by (induction n arbitrary: x) (simp_all add: unat_of_nat mod_mult2_eq)

lemma length_be_digits [simp]: "length (be_digits n x) = n"
  by (induction n arbitrary: x) simp_all

lemma be_digits_val: "be_digits (length bs) (be_val bs) = bs"
proof (induction bs rule: rev_induct)
  case (snoc b bs)
  then show ?case using unat_byte [of b] by simp
qed simp

lemma low_byte_digit:
  "8 \<le> LENGTH('a) \<Longrightarrow> (ucast (v AND 0xFF) :: u8) = word_of_nat (unat (v :: 'a::len word) mod 256)"
  by (simp add: word_unat_eq_iff unat_low_byte unat_of_nat)

lemma be_digits_numeral:
  "be_digits (numeral k) x = be_digits (pred_numeral k) (x div 256) @ [word_of_nat (x mod 256)]"
  by (simp only: numeral_eq_Suc [of k] be_digits.simps)

lemma be64_bytes_digits: "be64_bytes v = be_digits 8 (unat v)"
  by (simp add: be64_bytes_def Let_def be_digits_numeral low_byte_digit unat_drop_bit_div
      flip: div_mult2_eq)

lemma be32_bytes_digits: "be32_bytes v = be_digits 4 (unat v)"
  by (simp add: be32_bytes_def Let_def be_digits_numeral low_byte_digit unat_drop_bit_div
      flip: div_mult2_eq)

lemma be16_bytes_digits: "be16_bytes v = be_digits 2 (unat v)"
  by (simp add: be16_bytes_def Let_def be_digits_numeral low_byte_digit unat_drop_bit_div
      flip: div_mult2_eq)

lemma be64_sum:
  "(ucast h + push_bit 8 (ucast g) + push_bit 16 (ucast f) + push_bit 24 (ucast e)
    + push_bit 32 (ucast d) + push_bit 40 (ucast c) + push_bit 48 (ucast b)
    + push_bit 56 (ucast a) :: u64) = word_of_nat (be_val [a, b, c, d, e, f, g, h])"
  by (simp add: be_val_def push_bit_eq_mult algebra_simps)

lemma be32_sum:
  "(ucast d + push_bit 8 (ucast c) + push_bit 16 (ucast b) + push_bit 24 (ucast a) :: u32)
    = word_of_nat (be_val [a, b, c, d])"
  by (simp add: be_val_def push_bit_eq_mult algebra_simps)

lemma ucast_of_nat_u16: "ucast (word_of_nat n :: u32) = (word_of_nat n :: u16)"
  by transfer (simp add: take_bit_of_nat)

lemma be16_sum:
  "ucast (ucast b + push_bit 8 (ucast a) :: u32) = (word_of_nat (be_val [a, b]) :: u16)"
proof -
  have "(ucast b + push_bit 8 (ucast a) :: u32) = word_of_nat (be_val [a, b])"
    by (simp add: be_val_def push_bit_eq_mult algebra_simps)
  then show ?thesis by (simp only: ucast_of_nat_u16)
qed

lemma list8_eq: "length bs = 8 \<Longrightarrow> [bs ! 0, bs ! 1, bs ! 2, bs ! 3, bs ! 4, bs ! 5, bs ! 6, bs ! 7] = bs"
  using map_nth [of bs] by (simp add: upt_conv_Cons eval_nat_numeral)

lemma list4_eq: "length bs = 4 \<Longrightarrow> [bs ! 0, bs ! 1, bs ! 2, bs ! 3] = bs"
  using map_nth [of bs] by (simp add: upt_conv_Cons eval_nat_numeral)

lemma list2_eq: "length bs = 2 \<Longrightarrow> [bs ! 0, bs ! 1] = bs"
  using map_nth [of bs] by (simp add: upt_conv_Cons eval_nat_numeral)

lemma unpack_be64_Some [run_simps]:
  "off + 8 \<le> length buf \<Longrightarrow>
    unpack_be64 buf off = Some (word_of_nat (be_val (take 8 (drop off buf))))"
  using be64_sum list8_eq [of "take 8 (drop off buf)"]
  by (simp add: unpack_be64_def rd_Some del: nth_take take_drop)

lemma unpack_be32_Some [run_simps]:
  "off + 4 \<le> length buf \<Longrightarrow>
    unpack_be32 buf off = Some (word_of_nat (be_val (take 4 (drop off buf))))"
  using be32_sum list4_eq [of "take 4 (drop off buf)"]
  by (simp add: unpack_be32_def rd_Some del: nth_take take_drop)

lemma unpack_be16_Some [run_simps]:
  "off + 2 \<le> length buf \<Longrightarrow>
    unpack_be16 buf off = Some (word_of_nat (be_val (take 2 (drop off buf))))"
  using be16_sum list2_eq [of "take 2 (drop off buf)"]
  by (simp add: unpack_be16_def rd_Some del: nth_take take_drop)

lemma pack_Some [run_simps]:
  "off + 8 \<le> length buf \<Longrightarrow> pack_be64 v buf off = Some (patch off (be64_bytes v) buf)"
  "off + 4 \<le> length buf \<Longrightarrow> pack_be32 w buf off = Some (patch off (be32_bytes w) buf)"
  "off + 2 \<le> length buf \<Longrightarrow> pack_be16 x buf off = Some (patch off (be16_bytes x) buf)"
  by (simp_all add: pack_be64_def pack_be32_def pack_be16_def wr_Some)

lemma be_val_be_bytes [simp]:
  "be_val (be64_bytes v) = unat v" "be_val (be32_bytes w) = unat w" "be_val (be16_bytes x) = unat x"
proof -
  have "unat x < 2 ^ LENGTH(16)" by (rule unsigned_less)
  then show "be_val (be64_bytes v) = unat v" "be_val (be32_bytes w) = unat w"
    "be_val (be16_bytes x) = unat x"
    using unat_u64_bound [of v] unat_u32_bound [of w]
    by (simp_all add: be64_bytes_digits be32_bytes_digits be16_bytes_digits be_val_digits)
qed

lemma be_bytes_val:
  "length bs = 8 \<Longrightarrow> be64_bytes (word_of_nat (be_val bs)) = bs"
  "length bs = 4 \<Longrightarrow> be32_bytes (word_of_nat (be_val bs)) = bs"
proof -
  have b: "be_val bs < 256 ^ length bs" for bs
    using be_val_digits [of "length bs" "be_val bs"] be_digits_val [of bs]
    by (metis mod_less_divisor zero_less_numeral zero_less_power)
  show "length bs = 8 \<Longrightarrow> be64_bytes (word_of_nat (be_val bs)) = bs"
    using b [of bs] be_digits_val [of bs] by (simp add: be64_bytes_digits unat_of_nat)
  show "length bs = 4 \<Longrightarrow> be32_bytes (word_of_nat (be_val bs)) = bs"
    using b [of bs] be_digits_val [of bs] by (simp add: be32_bytes_digits unat_of_nat)
qed

section \<open>Round trips\<close>

lemma unpack_pack_be64:
  "off + 8 \<le> length buf \<Longrightarrow> unpack_be64 (patch off (be64_bytes v) buf) off = Some v"
  using take_drop_patch [of off "be64_bytes v" buf] by (simp add: unpack_be64_Some)

lemma unpack_pack_be32:
  "off + 4 \<le> length buf \<Longrightarrow> unpack_be32 (patch off (be32_bytes v) buf) off = Some v"
  using take_drop_patch [of off "be32_bytes v" buf] by (simp add: unpack_be32_Some)

lemma unpack_pack_be16:
  "off + 2 \<le> length buf \<Longrightarrow> unpack_be16 (patch off (be16_bytes v) buf) off = Some v"
  using take_drop_patch [of off "be16_bytes v" buf] by (simp add: unpack_be16_Some)

lemma patch_same: "off + n \<le> length buf \<Longrightarrow> patch off (take n (drop off buf)) buf = buf"
  by (simp add: patch_def min_def) (metis append_take_drop_id drop_drop add.commute)

section \<open>Properties\<close>

text \<open>At every width, unpacking what a packer stored in a buffer gives the packed value,
  and the rest of the buffer is as it was.\<close>
theorem pack_unpack_round_trip:
  assumes "off + 8 \<le> length buf"
  shows "do { buf \<leftarrow> pack_be64 v buf off; unpack_be64 buf off } = Some v \<and>
    do { buf \<leftarrow> pack_be32 w buf off; unpack_be32 buf off } = Some w \<and>
    do { buf \<leftarrow> pack_be16 x buf off; unpack_be16 buf off } = Some x \<and>
    (\<exists>buf'. pack_be64 v buf off = Some buf' \<and> length buf' = length buf \<and>
      (\<forall>i < length buf. i < off \<or> off + 8 \<le> i \<longrightarrow> buf' ! i = buf ! i))"
  using assms by (auto simp: pack_Some unpack_pack_be64 unpack_pack_be32 unpack_pack_be16 nth_patch)

theorem pack_unpack_round_trip_witness:
  "do { buf \<leftarrow> pack_be64 0x0123456789abcdef (replicate 12 7) 3; unpack_be64 buf 3 } = Some 0x0123456789abcdef"
  using pack_unpack_round_trip [of 3 "replicate 12 7" "0x0123456789abcdef"] by simp

text \<open>Unpacking eight bytes of a buffer and packing the value back in the same place
  leaves the buffer as it was: no two byte patterns denote the same number.\<close>
theorem unpack_pack_round_trip:
  assumes "off + 8 \<le> length buf"
  shows "do { v \<leftarrow> unpack_be64 buf off; pack_be64 v buf off } = Some buf"
  using assms be_bytes_val(1) [of "take 8 (drop off buf)"] patch_same [of off 8 buf]
  by (simp add: unpack_be64_Some pack_Some)

theorem unpack_pack_round_trip_witness:
  "do { v \<leftarrow> unpack_be64 [1, 2, 3, 4, 5, 6, 7, 8, 9] 1; pack_be64 v [1, 2, 3, 4, 5, 6, 7, 8, 9] 1 } =
    Some [1, 2, 3, 4, 5, 6, 7, 8, 9]"
  by (rule unpack_pack_round_trip) simp

end
