(* ===== verification/Bitvector.thy ===== *)
theory Bitvector
  imports Prelude
begin

text \<open>
  \<open>src/src/bitvector.h\<close>: bit vectors packed in bytes, least significant bit first, and the
  population count. \<open>bits\<close> is the abstract view (the truth value of bit \<open>i\<close> of a
  buffer); the lemmas say how the three operations act on it.
\<close>

unbundle bit_operations_syntax

section \<open>The operations\<close>

definition bit_mask :: "u64 \<Rightarrow> u8" where
  "bit_mask which = ucast (push_bit (unat (which mod 8)) (1 :: 32 word))"

definition bit_set :: "bytes \<Rightarrow> u64 \<Rightarrow> bytes run" where
  "bit_set vec which =
     (let byte = unat (which div 8) in do {
        b \<leftarrow> byte_at vec byte;
        Some (vec[byte := b OR bit_mask which]) })"

definition bit_get :: "bytes \<Rightarrow> u64 \<Rightarrow> bool run" where
  "bit_get vec which =
     (let byte = unat (which div 8) in do {
        b \<leftarrow> byte_at vec byte;
        Some (b AND bit_mask which \<noteq> 0) })"

definition bit_clear :: "bytes \<Rightarrow> u64 \<Rightarrow> bytes run" where
  "bit_clear vec which =
     (let byte = unat (which div 8) in do {
        b \<leftarrow> byte_at vec byte;
        Some (vec[byte := b AND NOT (bit_mask which)]) })"

definition bit_count_in_u32 :: "u32 \<Rightarrow> u32" where
  "bit_count_in_u32 v =
     (let v = v - (drop_bit 1 v AND 0x55555555);
          v = (v AND 0x33333333) + (drop_bit 2 v AND 0x33333333)
      in drop_bit 24 ((v + (drop_bit 4 v AND 0xF0F0F0F0)) * 0x10101010))"

section \<open>The abstract view\<close>

definition bits :: "bytes \<Rightarrow> nat \<Rightarrow> bool" where
  "bits buf i = bit (buf ! (i div 8)) (i mod 8)"

lemma unat_div8 [simp]: "unat (w div 8 :: u64) = unat w div 8"
  and unat_mod8 [simp]: "unat (w mod 8 :: u64) = unat w mod 8"
  by (simp_all add: unat_div unat_mod)

lemma bit_bit_mask: "bit (bit_mask which) n \<longleftrightarrow> n = unat which mod 8"
  by (auto simp: bit_mask_def bit_simps bit_ucast_iff bit_1_iff)

lemma and_bit_mask: "(b AND bit_mask which \<noteq> 0) = bit b (unat which mod 8)"
proof -
  have "b AND bit_mask which \<noteq> 0 \<longleftrightarrow> (\<exists>n. bit (b AND bit_mask which) n)"
    by (metis bit_0_eq bot_apply bot_bool_def bit_eq_iff)
  then show ?thesis by (auto simp: bit_and_iff bit_bit_mask)
qed

lemma bit_get_Some:
  "unat which < 8 * length buf \<Longrightarrow> bit_get buf which = Some (bits buf (unat which))"
  by (simp add: bit_get_def and_bit_mask bits_def Let_def less_mult_imp_div_less mult.commute)

lemma same_bit: "i div 8 = j div 8 \<Longrightarrow> i mod 8 = j mod 8 \<Longrightarrow> i = (j::nat)"
  by (metis div_mult_mod_eq)

lemma bit_set_Some:
  assumes "unat which < 8 * length buf"
  shows "\<exists>buf'. bit_set buf which = Some buf' \<and> length buf' = length buf \<and>
    (\<forall>i < 8 * length buf. bits buf' i = (i = unat which \<or> bits buf i))"
proof -
  have "unat which div 8 < length buf" using assms by (simp add: less_mult_imp_div_less mult.commute)
  then show ?thesis
    by (auto simp: bit_set_def Let_def bits_def nth_list_update bit_or_iff bit_bit_mask
        dest: same_bit)
qed

lemma bit_clear_Some:
  assumes "unat which < 8 * length buf"
  shows "\<exists>buf'. bit_clear buf which = Some buf' \<and> length buf' = length buf \<and>
    (\<forall>i < 8 * length buf. bits buf' i = (i \<noteq> unat which \<and> bits buf i))"
proof -
  have "unat which div 8 < length buf" using assms by (simp add: less_mult_imp_div_less mult.commute)
  then show ?thesis
    by (auto simp: bit_clear_def Let_def bits_def nth_list_update bit_and_iff bit_not_iff
        bit_bit_mask dest: same_bit)
qed

lemma bit_ops_out_of_bounds:
  assumes "8 * length buf \<le> unat which"
  shows "bit_get buf which = None" "bit_set buf which = None" "bit_clear buf which = None"
proof -
  have "\<not> unat which div 8 < length buf" using assms by (simp add: div_less_iff_less_mult)
  then show "bit_get buf which = None" "bit_set buf which = None" "bit_clear buf which = None"
    by (simp_all add: bit_get_def bit_set_def bit_clear_def Let_def)
qed

section \<open>The population count\<close>

text \<open>The reference: the number of bits set.\<close>

definition popcount :: "u32 \<Rightarrow> nat" where
  "popcount v = length (filter (bit v) [0..<32])"

lemma bit_count_in_u32_one: "bit_count_in_u32 1 = 16"
  by (simp add: bit_count_in_u32_def Let_def)

section \<open>Properties\<close>

text \<open>On an index inside the vector, \<open>bit_get\<close> reads the bit, \<open>bit_set\<close> sets
  it and \<open>bit_clear\<close> clears it, and neither changes another bit or the length; outside the
  vector each of them accesses memory out of bounds.\<close>
theorem bit_vector_operations:
  "(unat which < 8 * length vec \<longrightarrow>
     bit_get vec which = Some (bits vec (unat which)) \<and>
     (\<exists>vec'. bit_set vec which = Some vec' \<and> length vec' = length vec \<and>
       (\<forall>i < 8 * length vec. bits vec' i = (i = unat which \<or> bits vec i))) \<and>
     (\<exists>vec'. bit_clear vec which = Some vec' \<and> length vec' = length vec \<and>
       (\<forall>i < 8 * length vec. bits vec' i = (i \<noteq> unat which \<and> bits vec i)))) \<and>
   (8 * length vec \<le> unat which \<longrightarrow>
     bit_get vec which = None \<and> bit_set vec which = None \<and> bit_clear vec which = None)"
  using bit_get_Some bit_set_Some bit_clear_Some bit_ops_out_of_bounds by simp

theorem bit_vector_operations_witness:
  "bit_get [0, 4] 10 = Some (bits [0, 4] 10) \<and> bit_get [0, 4] 16 = None"
  using bit_vector_operations [of 10 "[0, 4]"] bit_vector_operations [of 16 "[0, 4]"] by simp

text \<open>The population count does not count: its masks select the wrong nibbles.\<close>
theorem bit_count_in_u32_wrong: "bit_count_in_u32 1 \<noteq> word_of_nat (popcount 1)"
proof -
  have "popcount 1 = 1" by (simp add: popcount_def upt_conv_Cons bit_1_iff)
  then show ?thesis by (simp add: bit_count_in_u32_one)
qed

end
