(* ===== verification/Crc.thy ===== *)
theory Crc
  imports Prelude
begin

text \<open>
  \<open>src/src/crc.h\<close> and \<open>src/src/crc.c\<close>: the table-driven CRC-32 (Castagnoli
  polynomial) of the verification layer. The table is the source's table. The lemmas relate
  the table-driven update to the bit-at-a-time division it stands for, and show that the CRC
  detects every corruption confined to four consecutive bytes.
\<close>

unbundle bit_operations_syntax

section \<open>The operations\<close>

definition crc_table :: "u32 list" where
  "crc_table = [
    0x00000000, 0xf26b8303, 0xe13b70f7, 0x1350f3f4,
    0xc79a971f, 0x35f1141c, 0x26a1e7e8, 0xd4ca64eb,
    0x8ad958cf, 0x78b2dbcc, 0x6be22838, 0x9989ab3b,
    0x4d43cfd0, 0xbf284cd3, 0xac78bf27, 0x5e133c24,
    0x105ec76f, 0xe235446c, 0xf165b798, 0x030e349b,
    0xd7c45070, 0x25afd373, 0x36ff2087, 0xc494a384,
    0x9a879fa0, 0x68ec1ca3, 0x7bbcef57, 0x89d76c54,
    0x5d1d08bf, 0xaf768bbc, 0xbc267848, 0x4e4dfb4b,
    0x20bd8ede, 0xd2d60ddd, 0xc186fe29, 0x33ed7d2a,
    0xe72719c1, 0x154c9ac2, 0x061c6936, 0xf477ea35,
    0xaa64d611, 0x580f5512, 0x4b5fa6e6, 0xb93425e5,
    0x6dfe410e, 0x9f95c20d, 0x8cc531f9, 0x7eaeb2fa,
    0x30e349b1, 0xc288cab2, 0xd1d83946, 0x23b3ba45,
    0xf779deae, 0x05125dad, 0x1642ae59, 0xe4292d5a,
    0xba3a117e, 0x4851927d, 0x5b016189, 0xa96ae28a,
    0x7da08661, 0x8fcb0562, 0x9c9bf696, 0x6ef07595,
    0x417b1dbc, 0xb3109ebf, 0xa0406d4b, 0x522bee48,
    0x86e18aa3, 0x748a09a0, 0x67dafa54, 0x95b17957,
    0xcba24573, 0x39c9c670, 0x2a993584, 0xd8f2b687,
    0x0c38d26c, 0xfe53516f, 0xed03a29b, 0x1f682198,
    0x5125dad3, 0xa34e59d0, 0xb01eaa24, 0x42752927,
    0x96bf4dcc, 0x64d4cecf, 0x77843d3b, 0x85efbe38,
    0xdbfc821c, 0x2997011f, 0x3ac7f2eb, 0xc8ac71e8,
    0x1c661503, 0xee0d9600, 0xfd5d65f4, 0x0f36e6f7,
    0x61c69362, 0x93ad1061, 0x80fde395, 0x72966096,
    0xa65c047d, 0x5437877e, 0x4767748a, 0xb50cf789,
    0xeb1fcbad, 0x197448ae, 0x0a24bb5a, 0xf84f3859,
    0x2c855cb2, 0xdeeedfb1, 0xcdbe2c45, 0x3fd5af46,
    0x7198540d, 0x83f3d70e, 0x90a324fa, 0x62c8a7f9,
    0xb602c312, 0x44694011, 0x5739b3e5, 0xa55230e6,
    0xfb410cc2, 0x092a8fc1, 0x1a7a7c35, 0xe811ff36,
    0x3cdb9bdd, 0xceb018de, 0xdde0eb2a, 0x2f8b6829,
    0x82f63b78, 0x709db87b, 0x63cd4b8f, 0x91a6c88c,
    0x456cac67, 0xb7072f64, 0xa457dc90, 0x563c5f93,
    0x082f63b7, 0xfa44e0b4, 0xe9141340, 0x1b7f9043,
    0xcfb5f4a8, 0x3dde77ab, 0x2e8e845f, 0xdce5075c,
    0x92a8fc17, 0x60c37f14, 0x73938ce0, 0x81f80fe3,
    0x55326b08, 0xa759e80b, 0xb4091bff, 0x466298fc,
    0x1871a4d8, 0xea1a27db, 0xf94ad42f, 0x0b21572c,
    0xdfeb33c7, 0x2d80b0c4, 0x3ed04330, 0xccbbc033,
    0xa24bb5a6, 0x502036a5, 0x4370c551, 0xb11b4652,
    0x65d122b9, 0x97baa1ba, 0x84ea524e, 0x7681d14d,
    0x2892ed69, 0xdaf96e6a, 0xc9a99d9e, 0x3bc21e9d,
    0xef087a76, 0x1d63f975, 0x0e330a81, 0xfc588982,
    0xb21572c9, 0x407ef1ca, 0x532e023e, 0xa145813d,
    0x758fe5d6, 0x87e466d5, 0x94b49521, 0x66df1622,
    0x38cc2a06, 0xcaa7a905, 0xd9f75af1, 0x2b9cd9f2,
    0xff56bd19, 0x0d3d3e1a, 0x1e6dcdee, 0xec064eed,
    0xc38d26c4, 0x31e6a5c7, 0x22b65633, 0xd0ddd530,
    0x0417b1db, 0xf67c32d8, 0xe52cc12c, 0x1747422f,
    0x49547e0b, 0xbb3ffd08, 0xa86f0efc, 0x5a048dff,
    0x8ecee914, 0x7ca56a17, 0x6ff599e3, 0x9d9e1ae0,
    0xd3d3e1ab, 0x21b862a8, 0x32e8915c, 0xc083125f,
    0x144976b4, 0xe622f5b7, 0xf5720643, 0x07198540,
    0x590ab964, 0xab613a67, 0xb831c993, 0x4a5a4a90,
    0x9e902e7b, 0x6cfbad78, 0x7fab5e8c, 0x8dc0dd8f,
    0xe330a81a, 0x115b2b19, 0x020bd8ed, 0xf0605bee,
    0x24aa3f05, 0xd6c1bc06, 0xc5914ff2, 0x37faccf1,
    0x69e9f0d5, 0x9b8273d6, 0x88d28022, 0x7ab90321,
    0xae7367ca, 0x5c18e4c9, 0x4f48173d, 0xbd23943e,
    0xf36e6f75, 0x0105ec76, 0x12551f82, 0xe03e9c81,
    0x34f4f86a, 0xc69f7b69, 0xd5cf889d, 0x27a40b9e,
    0x79b737ba, 0x8bdcb4b9, 0x988c474d, 0x6ae7c44e,
    0xbe2da0a5, 0x4c4623a6, 0x5f16d052, 0xad7d5351]"

definition crc_init :: u32 where
  "crc_init = 0xffffffff"

text \<open>The loop \<open>while (data_len--)\<close> over the bytes of the buffer.\<close>

fun crc_update :: "u32 \<Rightarrow> bytes \<Rightarrow> u32" where
  "crc_update crc [] = crc AND 0xffffffff"
| "crc_update crc (d # data) =
     (let tbl_idx = (crc XOR ucast d) AND 0xff
      in crc_update ((crc_table ! unat tbl_idx XOR drop_bit 8 crc) AND 0xffffffff) data)"

definition crc_finalize :: "u32 \<Rightarrow> u32" where
  "crc_finalize crc = crc XOR 0xffffffff"

text \<open>\<open>calc_crc32(ram, len)\<close> reads \<open>len\<close> bytes at \<open>ram\<close>.\<close>

definition calc_crc32 :: "bytes \<Rightarrow> nat \<Rightarrow> u32 run" where
  "calc_crc32 ram len = do {
     data \<leftarrow> rd ram 0 len;
     Some (crc_finalize (crc_update crc_init data)) }"

text \<open>\<open>crc_reflect\<close>: the loop body, run \<open>data_len - 1\<close> times.\<close>

fun crc_reflect_loop :: "nat \<Rightarrow> u32 \<Rightarrow> u32 \<Rightarrow> u32" where
  "crc_reflect_loop 0 data ret = ret"
| "crc_reflect_loop (Suc k) data ret =
     (let data = drop_bit 1 data
      in crc_reflect_loop k data (push_bit 1 ret OR (data AND 0x01)))"

definition crc_reflect :: "u32 \<Rightarrow> nat \<Rightarrow> u32" where
  "crc_reflect data data_len = crc_reflect_loop (data_len - 1) data (data AND 0x01)"

section \<open>The reference: division one bit at a time\<close>

definition crc_poly :: u32 where
  "crc_poly = 0x82F63B78"

definition crc_bit :: "u32 \<Rightarrow> u32" where
  "crc_bit c = (if bit c 0 then drop_bit 1 c XOR crc_poly else drop_bit 1 c)"

definition crc_byte :: "u32 \<Rightarrow> u8 \<Rightarrow> u32" where
  "crc_byte c d = (crc_bit ^^ 8) (c XOR ucast d)"

lemma crc_poly_reflect: "crc_poly = crc_reflect 0x1edc6f41 32"
  by code_simp

text \<open>The table is checked one division step per entry: entry \<open>2 j\<close> divided once more is
  entry \<open>j\<close>, and entry \<open>2 j + 1\<close> is entry \<open>2 j\<close> plus entry 1.\<close>

fun table_ok :: "u32 \<Rightarrow> u32 list \<Rightarrow> u32 list \<Rightarrow> bool" where
  "table_ok t1 (t # ts) (a # b # rest) \<longleftrightarrow>
     crc_bit a = t \<and> a XOR t1 = b \<and> table_ok t1 ts rest"
| "table_ok t1 ts [] \<longleftrightarrow> True"
| "table_ok t1 ts us \<longleftrightarrow> False"

lemma crc_table_ok: "table_ok 0xf26b8303 crc_table crc_table"
  by (simp add: crc_table_def crc_bit_def crc_poly_def)

lemma length_crc_table: "length crc_table = 256"
  by (simp add: crc_table_def)

lemma table_ok_nth:
  "table_ok t1 ts us \<Longrightarrow> 2 * j + 1 < length us \<Longrightarrow>
    crc_bit (us ! (2 * j)) = ts ! j \<and> us ! (2 * j + 1) = us ! (2 * j) XOR t1"
proof (induction t1 ts us arbitrary: j rule: table_ok.induct)
  case (1 t1 t ts a b rest)
  then show ?case by (cases j) auto
qed auto

section \<open>The table step is eight division steps\<close>

lemma crc_bit_xor: "crc_bit (a XOR b) = crc_bit a XOR crc_bit b"
  by (simp add: crc_bit_def bit_xor_iff drop_bit_xor xor.left_commute xor.commute xor.assoc)

lemma crc_bits_xor: "(crc_bit ^^ n) (a XOR b) = (crc_bit ^^ n) a XOR (crc_bit ^^ n) b"
  by (induction n) (simp_all add: crc_bit_xor)

lemma bit_crc_poly_top: "bit crc_poly 31"
  by (simp add: crc_poly_def)

lemma bit_crc_bit_top: "bit (crc_bit c) 31 = bit c 0"
  using bit_crc_poly_top by (auto simp: crc_bit_def bit_simps dest: bit_imp_le_length)

lemma drop_bit_1_eqD: "drop_bit 1 a = drop_bit 1 (b :: u32) \<Longrightarrow> bit a 0 = bit b 0 \<Longrightarrow> a = b"
proof (rule bit_word_eqI)
  fix n assume d: "drop_bit 1 a = drop_bit 1 b" and z: "bit a 0 = bit b 0"
  show "bit a n = bit b n"
  proof (cases n)
    case (Suc k)
    from d have "bit (drop_bit 1 a) k = bit (drop_bit 1 b) k" by simp
    with Suc show ?thesis by (simp add: bit_drop_bit_eq)
  qed (simp add: z)
qed

lemma crc_bit_inj: "crc_bit a = crc_bit b \<Longrightarrow> a = b"
proof -
  assume e: "crc_bit a = crc_bit b"
  then have z: "bit a 0 = bit b 0" by (metis bit_crc_bit_top)
  have "drop_bit 1 a = drop_bit 1 b"
  proof (cases "bit a 0")
    case True
    with e z have "drop_bit 1 a XOR crc_poly = drop_bit 1 b XOR crc_poly" by (simp add: crc_bit_def)
    then show ?thesis by (rule xor_cancel_right)
  next
    case False
    with e z show ?thesis by (simp add: crc_bit_def)
  qed
  then show ?thesis using z by (rule drop_bit_1_eqD)
qed

lemma crc_bits_inj: "(crc_bit ^^ n) a = (crc_bit ^^ n) b \<Longrightarrow> a = b"
  by (induction n) (auto dest: crc_bit_inj)

lemma crc_bit_even: "\<not> bit a 0 \<Longrightarrow> crc_bit a = drop_bit 1 a"
  by (simp add: crc_bit_def)

lemma crc_bits_8:
  "(crc_bit ^^ 8) c =
    crc_bit (crc_bit (crc_bit (crc_bit (crc_bit (crc_bit (crc_bit (crc_bit c)))))))"
  by (simp add: numeral_eq_Suc)

lemma word_double:
  assumes "j < 128"
  shows "crc_bit (word_of_nat (2 * j)) = word_of_nat j"
    and "(word_of_nat (2 * j + 1) :: u32) = word_of_nat (2 * j) XOR 1"
proof -
  have "\<not> bit (word_of_nat (2 * j) :: u32) 0" by (simp add: bit_0)
  moreover have "drop_bit 1 (word_of_nat (2 * j) :: u32) = word_of_nat j"
  proof -
    have "unat (word_of_nat (2 * j) :: u32) = 2 * j" and "unat (word_of_nat j :: u32) = j"
      using assms by (subst unat_of_nat, simp)+
    moreover have "unat (drop_bit 1 (word_of_nat (2 * j) :: u32))
        = unat (word_of_nat (2 * j) :: u32) div 2 ^ 1"
      by (rule unat_drop_bit_div)
    ultimately show ?thesis by (simp only: word_unat_eq_iff) simp
  qed
  ultimately show "crc_bit (word_of_nat (2 * j)) = word_of_nat j"
    by (simp add: crc_bit_even)
  show "(word_of_nat (2 * j + 1) :: u32) = word_of_nat (2 * j) XOR 1"
    by (simp add: xor_one_eq)
qed

lemma crc_table_nth: "i < 256 \<Longrightarrow> crc_table ! i = (crc_bit ^^ 8) (word_of_nat i)"
proof (induction i rule: less_induct)
  case (less i)
  note ok = table_ok_nth [OF crc_table_ok, unfolded length_crc_table]
  have one: "(crc_bit ^^ 8) 1 = 0xf26b8303"
    by (simp add: crc_bits_8 crc_bit_def crc_poly_def)
  have even: "crc_table ! (2 * j) = (crc_bit ^^ 8) (word_of_nat (2 * j))" if "2 * j \<le> i" for j
  proof (cases "j = 0")
    case True
    then show ?thesis by (simp add: crc_table_def crc_bits_8 crc_bit_def)
  next
    case False
    with that less.prems have j: "j < 128" "j < i" by auto
    then have "crc_bit (crc_table ! (2 * j)) = (crc_bit ^^ 8) (word_of_nat j)"
      using ok [of j] less.IH [of j] by simp
    also have "\<dots> = (crc_bit ^^ 8) (crc_bit (word_of_nat (2 * j)))" using j by (simp only: word_double)
    also have "\<dots> = crc_bit ((crc_bit ^^ 8) (word_of_nat (2 * j)))" by (simp only: funpow_swap1)
    finally show ?thesis by (rule crc_bit_inj)
  qed
  show ?case
  proof (cases "even i")
    case True
    then show ?thesis using even [of "i div 2"] by auto
  next
    case False
    then obtain j where i: "i = 2 * j + 1" by (elim oddE)
    with less.prems ok [of j] even [of j]
    have "crc_table ! i = (crc_bit ^^ 8) (word_of_nat (2 * j)) XOR (crc_bit ^^ 8) 1" by (simp add: one)
    also have "\<dots> = (crc_bit ^^ 8) (word_of_nat i)"
      using less.prems i word_double(2) [of j] by (simp only: crc_bits_xor [symmetric])
    finally show ?thesis .
  qed
qed

lemma crc_bits_high: "\<forall>k < n. \<not> bit a k \<Longrightarrow> (crc_bit ^^ n) a = drop_bit n a"
proof (induction n)
  case (Suc n)
  then have "(crc_bit ^^ n) a = drop_bit n a" and "\<not> bit a n" by auto
  then show ?case by (simp add: crc_bit_even bit_drop_bit_eq)
qed simp

lemma bit_mask8: "m = mask 8 \<Longrightarrow> bit (m :: u32) n \<longleftrightarrow> n < 8"
  by (auto simp: bit_mask_iff)

lemma bit_ff: "bit (0xff :: u32) n \<longleftrightarrow> n < 8"
  by (rule bit_mask8) (simp add: mask_eq_exp_minus_1)

lemma split_mask: "c = (c AND m) XOR (c AND NOT m)" for c m :: u32
  by (intro bit_word_eqI) (auto simp: bit_and_iff bit_xor_iff bit_not_iff)

lemma unat_low_ff: "unat (c AND 0xff :: u32) < 256"
proof -
  have "c AND 0xff \<le> 0xff" by (rule word_and_le1)
  then show ?thesis by (simp add: word_le_nat_alt)
qed

lemma crc_table_step: "crc_table ! unat (c AND 0xff) XOR drop_bit 8 c = (crc_bit ^^ 8) c"
proof -
  have low: "crc_table ! unat (c AND 0xff) = (crc_bit ^^ 8) (c AND 0xff)"
    using crc_table_nth [OF unat_low_ff [of c]] by simp
  define m :: u32 where "m = 0xff"
  have m: "bit m n \<longleftrightarrow> n < 8" for n unfolding m_def by (rule bit_ff)
  have "\<forall>k < 8. \<not> bit (c AND NOT m) k"
    by (auto simp: bit_and_iff bit_not_iff m)
  then have "(crc_bit ^^ 8) (c AND NOT m) = drop_bit 8 (c AND NOT m)"
    by (rule crc_bits_high)
  also have "\<dots> = drop_bit 8 c"
    by (intro bit_word_eqI) (auto simp: bit_drop_bit_eq bit_and_iff bit_not_iff m dest: bit_imp_le_length)
  finally have "(crc_bit ^^ 8) c = (crc_bit ^^ 8) (c AND m) XOR drop_bit 8 c"
    by (subst split_mask [of c m]) (simp only: crc_bits_xor)
  with low have "(crc_bit ^^ 8) c = crc_table ! unat (c AND 0xff) XOR drop_bit 8 c"
    by (simp only: m_def)
  then show ?thesis by (simp only:)
qed

lemma drop_byte_ucast: "drop_bit 8 (ucast (d :: u8) :: u32) = 0"
  by (intro bit_word_eqI) (auto simp: bit_simps bit_ucast_iff dest: bit_imp_le_length)

lemma and_all_ones: "c AND 0xffffffff = (c :: u32)"
proof -
  have "(0xffffffff :: u32) = - 1" by simp
  then show ?thesis by (simp only: and.right_neutral)
qed

lemma crc_update_step: "crc_update crc (d # data) = crc_update (crc_byte crc d) data"
proof -
  have "crc_table ! unat ((crc XOR ucast d) AND 0xff) XOR drop_bit 8 crc = crc_byte crc d"
    using crc_table_step [of "crc XOR ucast d"]
    by (simp only: crc_byte_def drop_bit_xor drop_byte_ucast xor.right_neutral)
  then show ?thesis by (simp only: crc_update.simps Let_def and_all_ones)
qed

lemma crc_update_reference: "crc_update crc data = foldl crc_byte crc data"
  by (induction data arbitrary: crc)
    (simp_all add: crc_update_step and_all_ones del: crc_update.simps(2))

lemma crc_update_append: "crc_update crc (xs @ ys) = crc_update (crc_update crc xs) ys"
  by (simp add: crc_update_reference)

section \<open>What the CRC detects\<close>

lemma crc_byte_inj_state: "crc_byte a d = crc_byte b d \<Longrightarrow> a = b"
proof -
  assume "crc_byte a d = crc_byte b d"
  then have "a XOR ucast d = b XOR ucast d" unfolding crc_byte_def by (rule crc_bits_inj)
  then show ?thesis by (rule xor_cancel_right)
qed

lemma crc_update_inj_state: "crc_update a data = crc_update b data \<Longrightarrow> a = b"
  by (induction data arbitrary: a b)
    (auto simp: crc_update_step and_all_ones simp del: crc_update.simps(2) dest: crc_byte_inj_state)

lemma byte_bit: "bit (d :: u8) n \<longleftrightarrow> n < 8 \<and> bit d n"
  using bit_imp_le_length [of d n] by auto

lemma crc_byte_shifted: "crc_byte ((crc_bit ^^ n) a) d =
    (crc_bit ^^ (n + 8)) (a XOR push_bit n (ucast d))" if "n = 8 \<or> n = 16 \<or> n = 24"
proof -
  have "(crc_bit ^^ n) (push_bit n (ucast d)) = drop_bit n (push_bit n (ucast d))"
    by (rule crc_bits_high) (simp add: bit_push_bit_iff)
  also have "\<dots> = ucast d"
    using that by (intro bit_word_eqI) (auto simp: bit_simps bit_ucast_iff dest: bit_imp_le_length)
  finally have "crc_byte ((crc_bit ^^ n) a) d
      = (crc_bit ^^ 8) ((crc_bit ^^ n) (a XOR push_bit n (ucast d)))"
    by (simp only: crc_byte_def crc_bits_xor)
  also have "\<dots> = (crc_bit ^^ (n + 8)) (a XOR push_bit n (ucast d))"
    by (simp only: add.commute [of n 8] funpow_add o_apply)
  finally show ?thesis .
qed

lemma crc_four_bytes: "foldl crc_byte c [d0, d1, d2, d3] =
    (crc_bit ^^ 32) (c XOR (ucast d0 XOR push_bit 8 (ucast d1) XOR push_bit 16 (ucast d2)
      XOR push_bit 24 (ucast d3)))"
proof -
  have "crc_byte c d0 = (crc_bit ^^ 8) (c XOR ucast d0)" by (simp add: crc_byte_def)
  then have "foldl crc_byte c [d0, d1, d2, d3] =
    (crc_bit ^^ 32) ((((c XOR ucast d0) XOR push_bit 8 (ucast d1)) XOR push_bit 16 (ucast d2))
      XOR push_bit 24 (ucast d3))"
    by (simp add: crc_byte_shifted)
  then show ?thesis by (simp only: xor.assoc)
qed

text \<open>Four bytes as one little-endian word determine the bytes.\<close>

lemma le32_inj:
  assumes "(ucast a0 XOR push_bit 8 (ucast a1) XOR push_bit 16 (ucast a2) XOR push_bit 24 (ucast a3) :: u32)
    = ucast b0 XOR push_bit 8 (ucast b1) XOR push_bit 16 (ucast b2) XOR push_bit 24 (ucast b3)"
  shows "[a0, a1, a2, a3] = [b0, b1, b2, b3 :: u8]"
proof -
  have eq: "bit (ucast a0 XOR push_bit 8 (ucast a1) XOR push_bit 16 (ucast a2) XOR push_bit 24 (ucast a3) :: u32) n
    = bit (ucast b0 XOR push_bit 8 (ucast b1) XOR push_bit 16 (ucast b2) XOR push_bit 24 (ucast b3) :: u32) n"
    for n by (simp only: assms)
  have big: "\<not> bit (x :: u8) n" if "8 \<le> n" for x n
    using that bit_imp_le_length [of x n] by auto
  note bs = bit_xor_iff bit_push_bit_iff bit_ucast_iff big
  have "bit a0 n = bit b0 n" if "n < 8" for n using eq [of n] that by (simp add: bs)
  moreover have "bit a1 n = bit b1 n" if "n < 8" for n using eq [of "n + 8"] that by (simp add: bs)
  moreover have "bit a2 n = bit b2 n" if "n < 8" for n using eq [of "n + 16"] that by (simp add: bs)
  moreover have "bit a3 n = bit b3 n" if "n < 8" for n using eq [of "n + 24"] that by (simp add: bs)
  ultimately show ?thesis by (auto intro!: bit_word_eqI)
qed

lemma crc_burst_aligned:
  assumes "length xs = 4" and "length ys = 4" and "xs \<noteq> ys"
  shows "crc_update a (xs @ tail) \<noteq> crc_update a (ys @ tail)"
proof
  assume "crc_update a (xs @ tail) = crc_update a (ys @ tail)"
  then have eq: "foldl crc_byte a xs = foldl crc_byte a ys"
    using crc_update_inj_state by (simp add: crc_update_append) (simp add: crc_update_reference)
  obtain x0 x1 x2 x3 where xs: "xs = [x0, x1, x2, x3]"
    using assms(1) by (auto simp: eval_nat_numeral length_Suc_conv)
  obtain y0 y1 y2 y3 where ys: "ys = [y0, y1, y2, y3]"
    using assms(2) by (auto simp: eval_nat_numeral length_Suc_conv)
  define X :: u32 where "X = ucast x0 XOR push_bit 8 (ucast x1) XOR push_bit 16 (ucast x2) XOR push_bit 24 (ucast x3)"
  define Y :: u32 where "Y = ucast y0 XOR push_bit 8 (ucast y1) XOR push_bit 16 (ucast y2) XOR push_bit 24 (ucast y3)"
  have "(crc_bit ^^ 32) (a XOR X) = (crc_bit ^^ 32) (a XOR Y)"
    using eq unfolding xs ys crc_four_bytes X_def Y_def .
  then have "a XOR X = a XOR Y" by (rule crc_bits_inj)
  then have "X = Y" by (rule xor_cancel_left)
  then have "xs = ys" unfolding X_def Y_def xs ys by (rule le32_inj)
  with assms(3) show False by simp
qed

lemma calc_crc32_Some [run_simps]:
  "len \<le> length ram \<Longrightarrow> calc_crc32 ram len = Some (crc_finalize (crc_update crc_init (take len ram)))"
  by (simp add: calc_crc32_def rd_all)

text \<open>The CRC of a whole block, as a function.\<close>

definition crc_of :: "bytes \<Rightarrow> u32" where
  "crc_of data = crc_finalize (crc_update crc_init data)"

lemma calc_crc32_crc_of: "len \<le> length ram \<Longrightarrow> calc_crc32 ram len = Some (crc_of (take len ram))"
  by (simp add: calc_crc32_Some crc_of_def)

lemma crc_finalize_inj: "crc_finalize a = crc_finalize b \<Longrightarrow> a = b"
  unfolding crc_finalize_def by (rule xor_cancel_right)

lemma crc_of_burst:
  assumes "length xs = 4" and "length ys = 4" and "xs \<noteq> ys"
  shows "crc_of (pre @ xs @ post) \<noteq> crc_of (pre @ ys @ post)"
proof
  assume "crc_of (pre @ xs @ post) = crc_of (pre @ ys @ post)"
  then have "crc_update (crc_update crc_init pre) (xs @ post)
      = crc_update (crc_update crc_init pre) (ys @ post)"
    unfolding crc_of_def crc_update_append [of crc_init pre] by (rule crc_finalize_inj)
  then show False using crc_burst_aligned [OF assms] by blast
qed

text \<open>A change of one byte is a change inside a window of four, when the block has four
  bytes; a shorter tail is handled by injectivity in the state.\<close>

lemma crc_of_byte:
  assumes "x \<noteq> y"
  shows "crc_of (pre @ x # post) \<noteq> crc_of (pre @ y # post)"
proof
  assume "crc_of (pre @ x # post) = crc_of (pre @ y # post)"
  then have "crc_update (crc_update crc_init pre) (x # post)
      = crc_update (crc_update crc_init pre) (y # post)"
    unfolding crc_of_def crc_update_append [of crc_init pre] by (rule crc_finalize_inj)
  then have "crc_byte (crc_update crc_init pre) x = crc_byte (crc_update crc_init pre) y"
    unfolding crc_update_step by (rule crc_update_inj_state)
  then have "crc_update crc_init pre XOR ucast x = crc_update crc_init pre XOR ucast y"
    unfolding crc_byte_def by (rule crc_bits_inj)
  then have "ucast x = (ucast y :: u32)" by (rule xor_cancel_left)
  then have b: "bit (ucast x :: u32) n = bit (ucast y :: u32) n" for n by simp
  have "bit x n = bit y n" if "n < 8" for n using b [of n] that by (simp add: bit_ucast_iff)
  then have "x = y" by (intro bit_word_eqI) simp
  with assms show False by simp
qed

text \<open>The check value of CRC-32C, from its published parameters.\<close>

lemma crc_check_value:
  "crc_of [0x31, 0x32, 0x33, 0x34, 0x35, 0x36, 0x37, 0x38, 0x39] = 0xe3069283"
  by (simp add: crc_of_def crc_finalize_def crc_init_def crc_update_reference crc_byte_def
      crc_bits_8 crc_bit_def crc_poly_def)

section \<open>Properties\<close>

text \<open>C36: The table-driven update is polynomial division one bit at a time: the 256 table
  entries are right, and so is the way the loop uses them, for every register value and every
  input.\<close>
theorem crc_update_is_division: "crc_update crc data = foldl crc_byte crc data"
  by (rule crc_update_reference)

text \<open>The CRC of a buffer changes whenever a burst of damage changes at most four
  consecutive bytes of it.\<close>
theorem crc_detects_burst:
  assumes "length xs = 4" and "length ys = 4" and "xs \<noteq> ys"
    and "n = length pre + 4 + length post"
  shows "calc_crc32 (pre @ xs @ post) n \<noteq> calc_crc32 (pre @ ys @ post) n"
  using crc_of_burst [OF assms(1-3), of pre post] assms by (simp add: calc_crc32_crc_of)

theorem crc_detects_burst_witness:
  "calc_crc32 ([1] @ [0, 0, 0, 0] @ [2]) 6 \<noteq> calc_crc32 ([1] @ [0, 9, 0, 9] @ [2]) 6"
  by (rule crc_detects_burst) simp_all

end
