(* ===== verification/Bdev.thy ===== *)
theory Bdev
  imports Prelude
begin

text \<open>
  \<open>src/src/bdev.h\<close> and \<open>src/src/bdev.c\<close>: the block device object and the generic
  byte operations built from the block operations.

  A device of the code is a struct of function pointers with a private part. Here it is a
  record of functions over a state type \<open>'s\<close>: the state holds the mutable memory of
  the device and of everything below it. A layer's own mutable memory is an \<open>obj\<close> (the
  generic block buffer and the private struct), so a layer over devices with state \<open>'s\<close>
  has state \<open>'m obj \<times> 's\<close>. The pointers a layer never changes after it is opened
  (its base devices, its geometry) are arguments of its operations.

  A read takes the caller's buffer and returns it as the call leaves it, also when the read
  fails, because some callers look at a buffer after a failed read. The source of a write is
  either memory of the caller or the device's own generic block buffer (\<open>Own\<close>), which
  \<open>generic_write_bytes\<close> passes: a device that uses that buffer for something else
  before it reads the data sees the aliasing.
\<close>

section \<open>The device object\<close>

record 's bdev =
  block_size :: u64
  block_count :: u64
  read_bytes :: "'s \<Rightarrow> u64 \<Rightarrow> u64 \<Rightarrow> bytes \<Rightarrow> (bool \<times> bytes \<times> 's) run"
  write_bytes :: "'s \<Rightarrow> u64 \<Rightarrow> u64 \<Rightarrow> bytes \<Rightarrow> (bool \<times> 's) run"
  read_block :: "'s \<Rightarrow> u64 \<Rightarrow> bytes \<Rightarrow> (bool \<times> bytes \<times> 's) run"
  write_block :: "'s \<Rightarrow> u64 \<Rightarrow> bytes \<Rightarrow> (bool \<times> 's) run"
  clear_caches :: "'s \<Rightarrow> 's run"
  flush :: "'s \<Rightarrow> 's run"
  sync :: "'s \<Rightarrow> 's run"

record 'm obj =
  generic_block_buffer :: bytes
  obj_m :: 'm

datatype src = Own | Ext bytes

fun deref :: "'m obj \<Rightarrow> src \<Rightarrow> bytes" where
  "deref self Own = generic_block_buffer self"
| "deref self (Ext data) = data"

type_synonym 's block_read = "'s \<Rightarrow> u64 \<Rightarrow> bytes \<Rightarrow> (bool \<times> bytes \<times> 's) run"
type_synonym 's block_write = "'s \<Rightarrow> u64 \<Rightarrow> bytes \<Rightarrow> (bool \<times> 's) run"
type_synonym 's src_write = "'s \<Rightarrow> u64 \<Rightarrow> src \<Rightarrow> (bool \<times> 's) run"

section \<open>The generic operations\<close>

text \<open>\<open>self->read_block(self, which, self->generic_block_buffer)\<close>.\<close>

definition set_buffer :: "'m obj \<times> 's \<Rightarrow> bytes \<Rightarrow> 'm obj \<times> 's" where
  "set_buffer st g = ((fst st)\<lparr>generic_block_buffer := g\<rparr>, snd st)"

definition read_own ::
  "('m obj \<times> 's) block_read \<Rightarrow> 'm obj \<times> 's \<Rightarrow> u64 \<Rightarrow> (bool \<times> 'm obj \<times> 's) run" where
  "read_own rb st which = do {
     (ok, g, st) \<leftarrow> rb st which (generic_block_buffer (fst st));
     Some (ok, set_buffer st g) }"

text \<open>A read into the caller's buffer at offset \<open>at\<close> (the pointer \<open>into\<close> after
  \<open>into += \<dots>\<close>).\<close>

definition read_at ::
  "'s block_read \<Rightarrow> 's \<Rightarrow> u64 \<Rightarrow> bytes \<Rightarrow> nat \<Rightarrow> (bool \<times> bytes \<times> 's) run" where
  "read_at rb st which into at = do {
     (ok, t, st) \<leftarrow> rb st which (drop at into);
     Some (ok, take at into @ t, st) }"

function generic_read_loop ::
  "u64 \<Rightarrow> u64 \<Rightarrow> ('m obj \<times> 's) block_read \<Rightarrow> u64 \<Rightarrow> 'm obj \<times> 's \<Rightarrow> u64 \<Rightarrow> u64 \<Rightarrow> u64 \<Rightarrow>
   bytes \<Rightarrow> nat \<Rightarrow> (bool \<times> bytes \<times> 'm obj \<times> 's) run" where
  "generic_read_loop bs bc rb end_block st start_block skip len into at =
    (if len = 0 then Some (True, into, st)
     else do {
       c_assert (start_block < bc);
       if start_block = end_block then do {
         (ok, st) \<leftarrow> read_own rb st start_block;
         if \<not> ok then Some (False, into, st)
         else do {
           d \<leftarrow> rd (generic_block_buffer (fst st)) (unat skip) (unat len);
           into \<leftarrow> wr into at d;
           Some (True, into, st) } }
       else if skip \<noteq> 0 then do {
         (ok, st) \<leftarrow> read_own rb st start_block;
         if \<not> ok then Some (False, into, st)
         else do {
           let read_size = bs - skip;
           c_assert (read_size < len);
           d \<leftarrow> rd (generic_block_buffer (fst st)) (unat skip) (unat read_size);
           into \<leftarrow> wr into at d;
           generic_read_loop bs bc rb end_block st (start_block + 1) 0 (len - read_size)
             into (at + unat read_size) } }
       else do {
         c_assert (bs \<le> len);
         (ok, into, st) \<leftarrow> read_at rb st start_block into at;
         if \<not> ok then Some (False, into, st)
         else generic_read_loop bs bc rb end_block st (start_block + 1) skip (len - bs)
                into (at + unat bs) } })"
  by pat_completeness auto
termination
  by (relation "measure (\<lambda>(bs, bc, rb, end_block, st, start_block, skip, len, into, at).
        unat bc - unat start_block)")
    (auto simp: unat_Suc_u64 word_less_nat_alt)

definition generic_read_bytes ::
  "u64 \<Rightarrow> u64 \<Rightarrow> ('m obj \<times> 's) block_read \<Rightarrow> 'm obj \<times> 's \<Rightarrow> u64 \<Rightarrow> u64 \<Rightarrow> bytes \<Rightarrow>
   (bool \<times> bytes \<times> 'm obj \<times> 's) run" where
  "generic_read_bytes bs bc rb st start len into =
    (if len = 0 then Some (True, into, st)
     else do {
       start_block \<leftarrow> c_div start bs;
       end_block \<leftarrow> c_div (start + len - 1) bs;
       let skip = start - start_block * bs;
       c_assert (start_block < bc);
       c_assert (end_block < bc);
       generic_read_loop bs bc rb end_block st start_block skip len into 0 })"

function generic_write_loop ::
  "u64 \<Rightarrow> u64 \<Rightarrow> ('m obj \<times> 's) block_read \<Rightarrow> ('m obj \<times> 's) src_write \<Rightarrow> u64 \<Rightarrow>
   'm obj \<times> 's \<Rightarrow> u64 \<Rightarrow> u64 \<Rightarrow> u64 \<Rightarrow> bytes \<Rightarrow> nat \<Rightarrow> (bool \<times> 'm obj \<times> 's) run" where
  "generic_write_loop bs bc rb wb end_block st start_block skip len from at =
    (if len = 0 then Some (True, st)
     else do {
       c_assert (start_block < bc);
       if skip \<noteq> 0 \<or> start_block = end_block then do {
         (ok, st) \<leftarrow> read_own rb st start_block;
         if \<not> ok then Some (False, st)
         else do {
           let copy = (if len < bs - skip then len else bs - skip);
           d \<leftarrow> rd from at (unat copy);
           g \<leftarrow> wr (generic_block_buffer (fst st)) (unat skip) d;
           (ok, st) \<leftarrow> wb (set_buffer st g) start_block Own;
           if \<not> ok then Some (False, st)
           else generic_write_loop bs bc rb wb end_block st (start_block + 1) 0 (len - copy)
                  from (at + unat copy) } }
       else do {
         c_assert (bs \<le> len);
         (ok, st) \<leftarrow> wb st start_block (Ext (drop at from));
         if \<not> ok then Some (False, st)
         else generic_write_loop bs bc rb wb end_block st (start_block + 1) skip (len - bs)
                from (at + unat bs) } })"
  by pat_completeness auto
termination
  by (relation "measure (\<lambda>(bs, bc, rb, wb, end_block, st, start_block, skip, len, from, at).
        unat bc - unat start_block)")
    (auto simp: unat_Suc_u64 word_less_nat_alt)

definition generic_write_bytes ::
  "u64 \<Rightarrow> u64 \<Rightarrow> ('m obj \<times> 's) block_read \<Rightarrow> ('m obj \<times> 's) src_write \<Rightarrow> 'm obj \<times> 's \<Rightarrow>
   u64 \<Rightarrow> u64 \<Rightarrow> bytes \<Rightarrow> (bool \<times> 'm obj \<times> 's) run" where
  "generic_write_bytes bs bc rb wb st start len from =
    (if len = 0 then Some (True, st)
     else do {
       start_block \<leftarrow> c_div start bs;
       end_block \<leftarrow> c_div (start + len - 1) bs;
       let skip = start - start_block * bs;
       c_assert (start_block < bc);
       c_assert (end_block < bc);
       generic_write_loop bs bc rb wb end_block st start_block skip len from 0 })"

definition generic_flush :: "'s \<Rightarrow> 's run" where
  "generic_flush st = Some st"

definition generic_clear_caches :: "'s \<Rightarrow> 's run" where
  "generic_clear_caches st = Some st"

definition generic_sync :: "'s \<Rightarrow> 's run" where
  "generic_sync st = Some st"

declare generic_read_loop.simps [simp del] generic_write_loop.simps [simp del]

end
