(* ===== verification/Contract.thy ===== *)
theory Contract
  imports Bdev
begin

text \<open>
  What a block device promises to the layer above it. A device presents its contents as a
  list of \<open>block_count\<close> blocks of \<open>block_size\<close> bytes; the contract says what each
  operation returns and how it changes that list. A device need not be reliable: a read or a
  write may return false, and then the contract says what is still known. With
  \<open>rel = True\<close> the device promises that no operation fails.

  No operation of a device that keeps the contract kills the process: each law says that the
  call returns.

  \<^item> \<open>block_rw\<close>: the block operations;
  \<^item> \<open>generic_dev\<close>: a layer whose byte operations are the generic ones, with the laws
    about its own generic block buffer that these need;
  \<^item> \<open>block_device\<close>: a whole device object, byte operations and maintenance included.
\<close>

section \<open>Outcomes\<close>

text \<open>A read that should put \<open>data\<close> at offset \<open>at\<close> of the caller's buffer.\<close>

definition read_into_ok ::
  "('s \<Rightarrow> bool) \<Rightarrow> ('s \<Rightarrow> 'c) \<Rightarrow> bool \<Rightarrow> 's \<Rightarrow> bytes \<Rightarrow> nat \<Rightarrow> bytes \<Rightarrow>
   (bool \<times> bytes \<times> 's) run \<Rightarrow> bool" where
  "read_into_ok valid cont rel st into at data r \<longleftrightarrow>
    (\<exists>ok into' st'. r = Some (ok, into', st') \<and> valid st' \<and> cont st' = cont st \<and>
      length into' = length into \<and> (rel \<longrightarrow> ok) \<and> (ok \<longrightarrow> into' = patch at data into))"

abbreviation read_ok ::
  "('s \<Rightarrow> bool) \<Rightarrow> ('s \<Rightarrow> 'c) \<Rightarrow> bool \<Rightarrow> 's \<Rightarrow> bytes \<Rightarrow> bytes \<Rightarrow>
   (bool \<times> bytes \<times> 's) run \<Rightarrow> bool" where
  "read_ok valid cont rel st into data r \<equiv> read_into_ok valid cont rel st into 0 data r"

text \<open>Two contents that agree outside a set of block numbers.\<close>

definition same_except :: "nat set \<Rightarrow> bytes list \<Rightarrow> bytes list \<Rightarrow> bool" where
  "same_except A c c' \<longleftrightarrow> length c' = length c \<and> (\<forall>i < length c. i \<notin> A \<longrightarrow> c' ! i = c ! i)"

definition write_ok ::
  "('s \<Rightarrow> bool) \<Rightarrow> ('s \<Rightarrow> bytes list) \<Rightarrow> bool \<Rightarrow> 's \<Rightarrow> nat set \<Rightarrow> bytes list \<Rightarrow>
   (bool \<times> 's) run \<Rightarrow> bool" where
  "write_ok valid cont rel st A c r \<longleftrightarrow>
    (\<exists>ok st'. r = Some (ok, st') \<and> valid st' \<and> (rel \<longrightarrow> ok) \<and>
      same_except A (cont st) (cont st') \<and> (ok \<longrightarrow> cont st' = c))"

definition keeps :: "('s \<Rightarrow> bool) \<Rightarrow> ('s \<Rightarrow> 'c) \<Rightarrow> 's \<Rightarrow> 's run \<Rightarrow> bool" where
  "keeps valid cont st r \<longleftrightarrow> (\<exists>st'. r = Some st' \<and> valid st' \<and> cont st' = cont st)"

text \<open>The contents after bytes \<open>d\<close> are written at byte offset \<open>start\<close>.\<close>

definition write_at :: "nat \<Rightarrow> nat \<Rightarrow> bytes \<Rightarrow> bytes list \<Rightarrow> bytes list" where
  "write_at bs start d c = blocks_of bs (length c) (patch start d (concat c))"

text \<open>The blocks that bytes \<open>start .. start + len - 1\<close> touch.\<close>

definition touched :: "nat \<Rightarrow> nat \<Rightarrow> nat \<Rightarrow> nat set" where
  "touched bs start len = {i. start < Suc i * bs \<and> i * bs < start + len}"

lemma same_except_refl [simp, intro]: "same_except A c c"
  by (simp add: same_except_def)

lemma same_except_trans:
  "same_except A c c' \<Longrightarrow> same_except B c' c'' \<Longrightarrow> A \<subseteq> C \<Longrightarrow> B \<subseteq> C \<Longrightarrow> same_except C c c''"
  by (simp add: same_except_def) (metis subsetD)

lemma same_except_mono: "same_except A c c' \<Longrightarrow> A \<subseteq> B \<Longrightarrow> same_except B c c'"
  by (auto simp: same_except_def)

lemma same_except_update [intro]: "w \<in> A \<Longrightarrow> same_except A c (c[w := b])"
  by (auto simp: same_except_def) (metis nth_list_update_neq)

lemma read_okE:
  assumes "read_into_ok valid cont rel st into at data r"
  obtains ok into' st' where "r = Some (ok, into', st')" "valid st'" "cont st' = cont st"
    "length into' = length into" "rel \<Longrightarrow> ok" "ok \<Longrightarrow> into' = patch at data into"
  using assms by (auto simp: read_into_ok_def)

lemma read_okI:
  assumes "r = Some (ok, into', st')" "valid st'" "cont st' = cont st"
    "length into' = length into" "rel \<Longrightarrow> ok" "ok \<Longrightarrow> into' = patch at data into"
  shows "read_into_ok valid cont rel st into at data r"
  using assms by (auto simp: read_into_ok_def)

text \<open>A successful first part followed by a read of the rest.\<close>

lemma read_ok_then:
  assumes "read_into_ok valid cont rel st' into' at' data' r" and "cont st' = cont st"
    and "length into' = length into" and "patch at' data' into' = patch at data into"
  shows "read_into_ok valid cont rel st into at data r"
  using assms by (auto simp: read_into_ok_def)

lemma read_ok_fail:
  "valid st' \<Longrightarrow> cont st' = cont st \<Longrightarrow> length into' = length into \<Longrightarrow> \<not> rel \<Longrightarrow>
    read_into_ok valid cont rel st into at data (Some (False, into', st'))"
  by (auto simp: read_into_ok_def)

text \<open>The same outcome seen through another view of the state.\<close>

lemma read_ok_view:
  assumes "read_into_ok valid cont rel st into at data r"
    and "\<And>st'. valid st' \<Longrightarrow> cont st' = cont st \<Longrightarrow> valid' st' \<and> cont' st' = cont' st"
    and "data = data'"
  shows "read_into_ok valid' cont' rel st into at data' r"
  using assms by (auto simp: read_into_ok_def)

lemma keeps_view:
  assumes "keeps valid cont st r"
    and "\<And>st'. valid st' \<Longrightarrow> cont st' = cont st \<Longrightarrow> valid' st' \<and> cont' st' = cont' st"
  shows "keeps valid' cont' st r"
  using assms by (auto simp: keeps_def)

lemma write_okE:
  assumes "write_ok valid cont rel st A c r"
  obtains ok st' where "r = Some (ok, st')" "valid st'" "rel \<Longrightarrow> ok"
    "same_except A (cont st) (cont st')" "ok \<Longrightarrow> cont st' = c"
  using assms by (auto simp: write_ok_def)

lemma write_okI:
  assumes "r = Some (ok, st')" "valid st'" "rel \<Longrightarrow> ok"
    "same_except A (cont st) (cont st')" "ok \<Longrightarrow> cont st' = c"
  shows "write_ok valid cont rel st A c r"
  using assms by (auto simp: write_ok_def)

lemma keepsE:
  assumes "keeps valid cont st r"
  obtains st' where "r = Some st'" "valid st'" "cont st' = cont st"
  using assms by (auto simp: keeps_def)

lemma keepsI: "r = Some st' \<Longrightarrow> valid st' \<Longrightarrow> cont st' = cont st \<Longrightarrow> keeps valid cont st r"
  by (simp add: keeps_def)

lemma keeps_Some [simp]: "valid st \<Longrightarrow> keeps valid cont st (Some st)"
  by (simp add: keeps_def)

section \<open>The block operations\<close>

locale block_rw =
  fixes bs bc :: u64
    and rb :: "'s block_read"
    and wb :: "'s block_write"
    and valid :: "'s \<Rightarrow> bool"
    and cont :: "'s \<Rightarrow> bytes list"
    and rel :: bool
  assumes geometry: "valid st \<Longrightarrow> 0 < unat bs \<and> unat bs * unat bc < 2 ^ 64"
    and contents: "valid st \<Longrightarrow> length (cont st) = unat bc \<and> blocked (unat bs) (cont st)"
    and read_law: "valid st \<Longrightarrow> w < bc \<Longrightarrow> unat bs \<le> length into \<Longrightarrow>
      read_ok valid cont rel st into (cont st ! unat w) (rb st w into)"
    and write_law: "valid st \<Longrightarrow> w < bc \<Longrightarrow> unat bs \<le> length from \<Longrightarrow>
      write_ok valid cont rel st {unat w} ((cont st)[unat w := take (unat bs) from]) (wb st w from)"
begin

lemma length_cont: "valid st \<Longrightarrow> length (cont st) = unat bc"
  and blocked_cont: "valid st \<Longrightarrow> blocked (unat bs) (cont st)"
  using contents by blast+

lemma length_block: "valid st \<Longrightarrow> w < bc \<Longrightarrow> length (cont st ! unat w) = unat bs"
  using contents [of st] by (simp add: blocked_nth word_less_nat_alt)

lemma length_flat: "valid st \<Longrightarrow> length (concat (cont st)) = unat bs * unat bc"
  using contents [of st] length_concat_blocked by (metis mult.commute)

end

section \<open>Layers that use the generic byte operations\<close>

locale generic_dev =
  block_rw bs bc rb "\<lambda>st w from. wb st w (Ext from)" valid cont rel
  for bs bc :: u64
    and rb :: "('m obj \<times> 's) block_read"
    and wb :: "('m obj \<times> 's) src_write"
    and valid :: "'m obj \<times> 's \<Rightarrow> bool"
    and cont :: "'m obj \<times> 's \<Rightarrow> bytes list"
    and rel :: bool +
  assumes buffer_length: "valid st \<Longrightarrow> length (generic_block_buffer (fst st)) = unat bs"
    and valid_set_buffer: "valid st \<Longrightarrow> length g = unat bs \<Longrightarrow> valid (set_buffer st g)"
    and cont_set_buffer: "cont (set_buffer st g) = cont st"
    and write_own: "valid st \<Longrightarrow> w < bc \<Longrightarrow>
      write_ok valid cont rel st {unat w} ((cont st)[unat w := generic_block_buffer (fst st)])
        (wb st w Own)"
begin

lemma read_own_ok:
  assumes "valid st" and "w < bc"
  obtains ok st' where "read_own rb st w = Some (ok, st')" "valid st'" "cont st' = cont st"
    "rel \<Longrightarrow> ok" "ok \<Longrightarrow> generic_block_buffer (fst st') = cont st ! unat w"
proof -
  have "read_ok valid cont rel st (generic_block_buffer (fst st)) (cont st ! unat w)
      (rb st w (generic_block_buffer (fst st)))"
    using assms buffer_length [of st] by (intro read_law) auto
  then obtain ok g st' where r: "rb st w (generic_block_buffer (fst st)) = Some (ok, g, st')"
    "valid st'" "cont st' = cont st" "length g = length (generic_block_buffer (fst st))" "rel \<Longrightarrow> ok"
    "ok \<Longrightarrow> g = patch 0 (cont st ! unat w) (generic_block_buffer (fst st))"
    by (rule read_okE) blast
  show thesis
  proof (rule that)
    show "read_own rb st w = Some (ok, set_buffer st' g)" by (simp add: read_own_def r(1))
    show "valid (set_buffer st' g)" using r buffer_length [OF assms(1)] by (simp add: valid_set_buffer)
    show "cont (set_buffer st' g) = cont st" using r by (simp add: cont_set_buffer)
    show "rel \<Longrightarrow> ok" by (rule r)
    show "generic_block_buffer (fst (set_buffer st' g)) = cont st ! unat w" if ok
      using r(6) [OF that] length_block [OF assms] buffer_length [OF assms(1)]
      by (simp add: set_buffer_def)
  qed
qed

lemma read_at_ok:
  assumes "valid st" and "w < bc" and "at + unat bs \<le> length into"
  obtains ok into' st' where "read_at rb st w into at = Some (ok, into', st')" "valid st'"
    "cont st' = cont st" "length into' = length into" "rel \<Longrightarrow> ok"
    "ok \<Longrightarrow> into' = patch at (cont st ! unat w) into"
proof -
  have "read_ok valid cont rel st (drop at into) (cont st ! unat w) (rb st w (drop at into))"
    using assms by (intro read_law) auto
  then obtain ok t st' where r: "rb st w (drop at into) = Some (ok, t, st')" "valid st'"
    "cont st' = cont st" "length t = length (drop at into)" "rel \<Longrightarrow> ok"
    "ok \<Longrightarrow> t = patch 0 (cont st ! unat w) (drop at into)"
    by (rule read_okE) blast
  show thesis
  proof (rule that)
    show "read_at rb st w into at = Some (ok, take at into @ t, st')" by (simp add: read_at_def r(1))
    show "length (take at into @ t) = length into" using r(4) assms(3) by simp
    show "take at into @ t = patch at (cont st ! unat w) into" if ok
      using r(6) [OF that] assms(3) by (simp add: patch_def add.commute)
  qed (use r in auto)
qed

end

text \<open>One turn of each loop, for the three ways it can go.\<close>

lemma read_loop_last:
  assumes "len \<noteq> 0" "b < bc" "read_own rb st b = Some (ok, st')"
    "unat skip + unat len \<le> length (generic_block_buffer (fst st'))" "at + unat len \<le> length into"
  shows "generic_read_loop bs bc rb b st b skip len into at =
    Some (ok, if ok then patch at (take (unat len) (drop (unat skip) (generic_block_buffer (fst st')))) into
              else into, st')"
  using assms by (subst generic_read_loop.simps) (simp add: rd_Some wr_Some)

lemma read_loop_head:
  assumes "len \<noteq> 0" "b < bc" "b \<noteq> e" "skip \<noteq> 0" "read_own rb st b = Some (ok, st')" "bs - skip < len"
    "unat skip + unat (bs - skip) \<le> length (generic_block_buffer (fst st'))"
    "at + unat (bs - skip) \<le> length into"
  shows "generic_read_loop bs bc rb e st b skip len into at =
    (if ok then generic_read_loop bs bc rb e st' (b + 1) 0 (len - (bs - skip))
        (patch at (take (unat (bs - skip)) (drop (unat skip) (generic_block_buffer (fst st')))) into)
        (at + unat (bs - skip))
     else Some (False, into, st'))"
  using assms by (subst generic_read_loop.simps) (simp add: rd_Some wr_Some Let_def)

lemma read_loop_whole:
  assumes "len \<noteq> 0" "b < bc" "b \<noteq> e" "read_at rb st b into at = Some (ok, into', st')" "bs \<le> len"
  shows "generic_read_loop bs bc rb e st b 0 len into at =
    (if ok then generic_read_loop bs bc rb e st' (b + 1) 0 (len - bs) into' (at + unat bs)
     else Some (False, into', st'))"
  using assms by (subst generic_read_loop.simps) simp

lemma patch_take_step:
  assumes "c \<le> n" and "at + n \<le> length into" and "p + n \<le> length f"
  shows "patch (at + c) (take (n - c) (drop (p + c) f)) (patch at (take c (drop p f)) into) =
    patch at (take n (drop p f)) into"
proof -
  have l: "length (take c (drop p f)) = c" "length (take (n - c) (drop (p + c) f)) = n - c"
    using assms by simp_all
  have "take c (drop p f) @ take (n - c) (drop (p + c) f) = take n (drop p f)"
    using assms(1) by (metis add.commute drop_drop le_add_diff_inverse take_add)
  with patch_patch [of at "take c (drop p f)" "take (n - c) (drop (p + c) f)" into] assms
  show ?thesis unfolding l by simp
qed

context generic_dev
begin

lemma block_bytes:
  assumes "valid st" and "b < bc" and "k + n \<le> unat bs"
  shows "take n (drop k (cont st ! unat b)) = take n (drop (unat b * unat bs + k) (concat (cont st)))"
  using contents [OF assms(1)] assms(2,3)
  by (intro take_drop_concat [symmetric]) (auto simp: word_less_nat_alt)

lemma whole_block_bytes:
  assumes "valid st" and "b < bc"
  shows "cont st ! unat b = take (unat bs) (drop (unat b * unat bs) (concat (cont st)))"
  using block_bytes [OF assms, of 0 "unat bs"] length_block [OF assms] by simp

text \<open>The three turns of the read loop, given what the loop does afterwards.\<close>

lemma read_turn_last:
  assumes "valid st" and "b < bc" and "len \<noteq> 0" and "unat skip + unat len \<le> unat bs"
    and "at + unat len \<le> length into"
  shows "read_into_ok valid cont rel st into at
    (take (unat len) (drop (unat b * unat bs + unat skip) (concat (cont st))))
    (generic_read_loop bs bc rb b st b skip len into at)"
proof -
  obtain ok st' where r: "read_own rb st b = Some (ok, st')" "valid st'" "cont st' = cont st"
    "rel \<Longrightarrow> ok" "ok \<Longrightarrow> generic_block_buffer (fst st') = cont st ! unat b"
    using assms(1,2) by (rule read_own_ok) blast
  have l: "length (generic_block_buffer (fst st')) = unat bs" by (rule buffer_length [OF r(2)])
  have "generic_read_loop bs bc rb b st b skip len into at =
    Some (ok, if ok then patch at (take (unat len) (drop (unat skip) (generic_block_buffer (fst st')))) into
              else into, st')"
    using assms l by (intro read_loop_last r(1)) auto
  then show ?thesis
    by (rule read_okI) (use r l assms block_bytes [OF assms(1,2,4)] in auto)
qed

lemma read_turn_head:
  assumes "valid st" and "b < bc" and "b \<noteq> e" and "skip \<noteq> 0" and "unat skip < unat bs"
    and "unat bs < unat skip + unat len"
    and "at + unat len \<le> length into"
    and "unat b * unat bs + unat skip + unat len \<le> unat bs * unat bc"
    and rest: "\<And>st' into'. valid st' \<Longrightarrow> cont st' = cont st \<Longrightarrow> length into' = length into \<Longrightarrow>
      read_into_ok valid cont rel st' into' (at + (unat bs - unat skip))
        (take (unat len - (unat bs - unat skip)) (drop (unat b * unat bs + unat bs) (concat (cont st'))))
        (generic_read_loop bs bc rb e st' (b + 1) 0 (len - (bs - skip)) into' (at + (unat bs - unat skip)))"
  shows "read_into_ok valid cont rel st into at
    (take (unat len) (drop (unat b * unat bs + unat skip) (concat (cont st))))
    (generic_read_loop bs bc rb e st b skip len into at)"
proof -
  define c where "c = unat bs - unat skip"
  have c: "unat (bs - skip) = c" and "bs - skip < len" and cb: "unat skip + c = unat bs"
    using assms by (auto simp: c_def word_less_nat_alt unat_sub_u64 word_le_nat_alt)
  obtain ok st' where r: "read_own rb st b = Some (ok, st')" "valid st'" "cont st' = cont st"
    "rel \<Longrightarrow> ok" "ok \<Longrightarrow> generic_block_buffer (fst st') = cont st ! unat b"
    using assms(1,2) by (rule read_own_ok) blast
  have l: "length (generic_block_buffer (fst st')) = unat bs" by (rule buffer_length [OF r(2)])
  let ?d = "take c (drop (unat b * unat bs + unat skip) (concat (cont st)))"
  have step: "generic_read_loop bs bc rb e st b skip len into at =
    (if ok then generic_read_loop bs bc rb e st' (b + 1) 0 (len - (bs - skip))
        (patch at (take c (drop (unat skip) (generic_block_buffer (fst st')))) into) (at + c)
     else Some (False, into, st'))"
    unfolding c [symmetric] using l cb assms \<open>bs - skip < len\<close>
    by (intro read_loop_head r(1)) (auto simp: c)
  show ?thesis
  proof (cases ok)
    case True
    have eq: "generic_read_loop bs bc rb e st b skip len into at =
        generic_read_loop bs bc rb e st' (b + 1) 0 (len - (bs - skip)) (patch at ?d into) (at + c)"
      using step True r(5) block_bytes [OF assms(1,2), of "unat skip" c] cb by simp
    have fl: "length ?d = c" using length_flat [OF assms(1)] assms cb by simp
    then have il: "length (patch at ?d into) = length into" using assms cb by simp
    have "patch (at + c) (take (unat len - c) (drop (unat b * unat bs + unat skip + c) (concat (cont st))))
        (patch at ?d into)
      = patch at (take (unat len) (drop (unat b * unat bs + unat skip) (concat (cont st)))) into"
      using assms cb length_flat [OF assms(1)] by (intro patch_take_step) auto
    moreover have "unat b * unat bs + unat skip + c = unat b * unat bs + unat bs" using cb by simp
    ultimately show ?thesis
      unfolding eq
      by (intro read_ok_then [OF rest [OF r(2,3) il, folded c_def] r(3) il]) (simp add: r(3))
  next
    case False
    with r(4) have "\<not> rel" by blast
    with False step r show ?thesis by (simp add: read_ok_fail)
  qed
qed

lemma read_turn_whole:
  assumes "valid st" and "b < bc" and "b \<noteq> e" and "unat bs < unat len"
    and "at + unat len \<le> length into" and "unat b * unat bs + unat len \<le> unat bs * unat bc"
    and rest: "\<And>st' into'. valid st' \<Longrightarrow> cont st' = cont st \<Longrightarrow> length into' = length into \<Longrightarrow>
      read_into_ok valid cont rel st' into' (at + unat bs)
        (take (unat len - unat bs) (drop (unat b * unat bs + unat bs) (concat (cont st'))))
        (generic_read_loop bs bc rb e st' (b + 1) 0 (len - bs) into' (at + unat bs))"
  shows "read_into_ok valid cont rel st into at
    (take (unat len) (drop (unat b * unat bs) (concat (cont st))))
    (generic_read_loop bs bc rb e st b 0 len into at)"
proof -
  have "bs \<le> len" "len \<noteq> 0" using assms by (auto simp: word_le_nat_alt)
  obtain ok into' st' where r: "read_at rb st b into at = Some (ok, into', st')" "valid st'"
    "cont st' = cont st" "length into' = length into" "rel \<Longrightarrow> ok"
    "ok \<Longrightarrow> into' = patch at (cont st ! unat b) into"
    using assms(1,2) by (rule read_at_ok [of st b at into]) (use assms in auto)
  have step: "generic_read_loop bs bc rb e st b 0 len into at =
    (if ok then generic_read_loop bs bc rb e st' (b + 1) 0 (len - bs) into' (at + unat bs)
     else Some (False, into', st'))"
    by (rule read_loop_whole [OF \<open>len \<noteq> 0\<close> assms(2,3) r(1) \<open>bs \<le> len\<close>])
  show ?thesis
  proof (cases ok)
    case True
    have "patch (at + unat bs) (take (unat len - unat bs) (drop (unat b * unat bs + unat bs) (concat (cont st))))
        (patch at (take (unat bs) (drop (unat b * unat bs) (concat (cont st)))) into)
      = patch at (take (unat len) (drop (unat b * unat bs) (concat (cont st)))) into"
      using assms length_flat [OF assms(1)] by (intro patch_take_step) auto
    then have "patch (at + unat bs) (take (unat len - unat bs) (drop (unat b * unat bs + unat bs) (concat (cont st')))) into'
      = patch at (take (unat len) (drop (unat b * unat bs) (concat (cont st)))) into"
      using r(6) [OF True] whole_block_bytes [OF assms(1,2)] by (simp add: r(3))
    moreover have "generic_read_loop bs bc rb e st b 0 len into at =
        generic_read_loop bs bc rb e st' (b + 1) 0 (len - bs) into' (at + unat bs)"
      using step True by simp
    ultimately show ?thesis using read_ok_then [OF rest [OF r(2-4)] r(3,4)] by simp
  next
    case False
    with r(5) have "\<not> rel" by blast
    with False step r show ?thesis by (simp add: read_ok_fail)
  qed
qed

text \<open>The loop from block \<open>b\<close>, whose bytes sit at \<open>b * bs\<close>, by induction on the number
  of blocks that are left.\<close>

lemma generic_read_loop_ok:
  assumes "valid st" and "unat skip < unat bs" and "0 < unat len"
    and "unat b \<le> unat e" and "unat e < unat bc"
    and "unat e * unat bs < unat b * unat bs + unat skip + unat len"
    and "unat b * unat bs + unat skip + unat len \<le> unat e * unat bs + unat bs"
    and "at + unat len \<le> length into"
  shows "read_into_ok valid cont rel st into at
    (take (unat len) (drop (unat b * unat bs + unat skip) (concat (cont st))))
    (generic_read_loop bs bc rb e st b skip len into at)"
  using assms
proof (induction "unat e - unat b" arbitrary: st b skip len into at)
  case 0
  then have eq: "e = b" by (simp add: u64_eq_iff)
  with 0 show ?case by (simp only: eq) (rule read_turn_last, auto simp: word_less_nat_alt)
next
  case (Suc n)
  have le: "unat (b + 1) = Suc (unat b)" and be: "b \<noteq> e" and lt: "b < bc" and len: "len \<noteq> 0"
    using Suc.hyps(2) Suc.prems by (auto intro!: unat_Suc_u64 [of b e] simp: word_less_nat_alt)
  have "Suc (unat b) * unat bs \<le> unat e * unat bs" using Suc.hyps(2) by (intro mult_le_mono1) simp
  then have bkl: "unat bs < unat skip + unat len" using Suc.prems by simp
  have fits: "unat b * unat bs + unat skip + unat len \<le> unat bs * unat bc"
    using Suc.prems mult_le_mono1 [of "Suc (unat e)" "unat bc" "unat bs"] by (simp add: mult.commute)
  note IH = Suc.hyps(1) [of "b + 1" _ 0, unfolded le]
  show ?case
  proof (cases "skip = 0")
    case False
    have l: "unat (len - (bs - skip)) = unat len - (unat bs - unat skip)"
      using Suc.prems bkl by (simp add: word_le_nat_alt unat_sub_u64)
    show ?thesis
    proof (rule read_turn_head)
      fix st' :: "'m obj \<times> 's" and into' :: bytes
      assume st': "valid st'" "cont st' = cont st" "length into' = length into"
      show "read_into_ok valid cont rel st' into' (at + (unat bs - unat skip))
        (take (unat len - (unat bs - unat skip)) (drop (unat b * unat bs + unat bs) (concat (cont st'))))
        (generic_read_loop bs bc rb e st' (b + 1) 0 (len - (bs - skip)) into' (at + (unat bs - unat skip)))"
        using IH [of st' "len - (bs - skip)" "at + (unat bs - unat skip)" into'] Suc.hyps(2) Suc.prems bkl st'
        by (simp add: l add.commute)
    qed (use Suc.prems lt be False bkl fits in auto)
  next
    case True
    have l: "unat (len - bs) = unat len - unat bs"
      using True bkl by (simp add: word_le_nat_alt unat_sub_u64)
    have "read_into_ok valid cont rel st into at
      (take (unat len) (drop (unat b * unat bs) (concat (cont st))))
      (generic_read_loop bs bc rb e st b 0 len into at)"
    proof (rule read_turn_whole)
      fix st' :: "'m obj \<times> 's" and into' :: bytes
      assume st': "valid st'" "cont st' = cont st" "length into' = length into"
      show "read_into_ok valid cont rel st' into' (at + unat bs)
        (take (unat len - unat bs) (drop (unat b * unat bs + unat bs) (concat (cont st'))))
        (generic_read_loop bs bc rb e st' (b + 1) 0 (len - bs) into' (at + unat bs))"
        using IH [of st' "len - bs" "at + unat bs" into'] Suc.hyps(2) Suc.prems bkl st' True
        by (simp add: l add.commute)
    qed (use Suc.prems lt be True bkl fits in auto)
    with True show ?thesis by simp
  qed
qed

end

lemma div_span:
  assumes "0 < B" and "0 < (n::nat)" and "p + n \<le> B * k"
  shows "p div B \<le> (p + n - 1) div B" "(p + n - 1) div B < k"
    "(p + n - 1) div B * B < p + n" "p + n \<le> (p + n - 1) div B * B + B"
proof -
  show "p div B \<le> (p + n - 1) div B" using assms by (intro div_le_mono) auto
  have "p + n - 1 < k * B" using assms by (simp add: mult.commute)
  then show "(p + n - 1) div B < k" by (rule less_mult_imp_div_less)
  have "(p + n - 1) div B * B \<le> p + n - 1" by (rule div_times_less_eq_dividend)
  then show "(p + n - 1) div B * B < p + n" using assms by linarith
  have "p + n - 1 < Suc ((p + n - 1) div B) * B" using assms(1) by (metis dividend_less_div_times mult.commute mult_Suc_right add.commute)
  then show "p + n \<le> (p + n - 1) div B * B + B" by simp
qed

text \<open>The geometry a byte operation computes before its loop.\<close>

context block_rw
begin

lemma byte_geometry:
  assumes "valid st" and "len \<noteq> 0" and "unat start + unat len \<le> unat bs * unat bc"
  defines "b \<equiv> start div bs" and "e \<equiv> (start + len - 1) div bs"
  shows "bs \<noteq> 0" "b < bc" "e < bc" "unat b \<le> unat e"
    "unat b * unat bs + unat (start - b * bs) = unat start" "unat (start - b * bs) < unat bs"
    "unat e * unat bs < unat start + unat len" "unat start + unat len \<le> unat e * unat bs + unat bs"
proof -
  let ?B = "unat bs" and ?p = "unat start" and ?n = "unat len"
  have n: "0 < ?n" using assms(2) by (simp add: unat_gt_0)
  have B: "0 < ?B" and g: "?B * unat bc < 2 ^ 64" using geometry [OF assms(1)] by auto
  have ub: "unat b = ?p div ?B" by (simp add: b_def unat_div)
  have "unat (start + len) = ?p + ?n" using assms(3) g by (intro unat_add_u64) simp
  then have "unat (start + len - 1) = ?p + ?n - 1" using n by (subst unat_sub_u64) (auto simp: word_le_nat_alt)
  then have ue: "unat e = (?p + ?n - 1) div ?B" by (simp add: e_def unat_div)
  note sp = div_span [OF B n assms(3), folded ub ue]
  show "bs \<noteq> 0" using B by auto
  show "unat b \<le> unat e" by (rule sp(1))
  show "e < bc" using sp(2) by (simp add: word_less_nat_alt)
  then show "b < bc" using sp(1) by (simp add: word_less_nat_alt)
  show "unat e * ?B < ?p + ?n" "?p + ?n \<le> unat e * ?B + ?B" by (rule sp(3), rule sp(4))
  have le: "?p div ?B * ?B \<le> ?p" by (rule div_times_less_eq_dividend)
  have "?p div ?B * ?B < 2 ^ 64" by (rule le_less_trans [OF le unat_u64_bound])
  then have mul: "unat (b * bs) = ?p div ?B * ?B" by (simp add: unat_mult_u64 ub)
  have "unat (start - b * bs) = ?p mod ?B"
    by (subst unat_sub_u64) (simp_all add: word_le_nat_alt mul minus_div_mult_eq_mod)
  then show "unat b * ?B + unat (start - b * bs) = ?p" "unat (start - b * bs) < ?B"
    using B by (simp_all add: ub)
qed

end

context generic_dev
begin

lemma generic_read_bytes_ok:
  assumes "valid st" and "unat start + unat len \<le> unat bs * unat bc" and "unat len \<le> length into"
  shows "read_ok valid cont rel st into (take (unat len) (drop (unat start) (concat (cont st))))
    (generic_read_bytes bs bc rb st start len into)"
proof (cases "len = 0")
  case True
  with assms show ?thesis
    by (intro read_okI [where ok = True and into' = into and st' = st]) (simp_all add: generic_read_bytes_def)
next
  case False
  note g = byte_geometry [OF assms(1) False assms(2)]
  have "read_into_ok valid cont rel st into 0
    (take (unat len) (drop (unat (start div bs) * unat bs + unat (start - start div bs * bs)) (concat (cont st))))
    (generic_read_loop bs bc rb ((start + len - 1) div bs) st (start div bs) (start - start div bs * bs) len into 0)"
    by (rule generic_read_loop_ok) (use assms g False in \<open>auto simp: word_less_nat_alt unat_gt_0\<close>)
  then show ?thesis using False g by (simp add: generic_read_bytes_def Let_def)
qed

end

section \<open>Byte writes\<close>

lemma concat_blocks_of: "n * bs \<le> length buf \<Longrightarrow> concat (blocks_of bs n buf) = take (n * bs) buf"
proof (induction n)
  case (Suc n)
  then have "concat (blocks_of bs n buf) = take (n * bs) buf" by simp
  moreover have "blocks_of bs (Suc n) buf = blocks_of bs n buf @ [take bs (drop (n * bs) buf)]"
    by (simp add: blocks_of_def block_at_def)
  moreover have "take (Suc n * bs) buf = take (n * bs) buf @ take bs (drop (n * bs) buf)"
    using take_add [of "n * bs" bs buf] by (simp add: add.commute)
  ultimately show ?case by (simp only: concat_append) simp
qed (simp add: blocks_of_def)

lemma length_write_at [simp]: "length (write_at bs start d c) = length c"
  by (simp add: write_at_def)

lemma blocked_write_at:
  assumes "blocked bs c" and "start + length d \<le> length c * bs"
  shows "blocked bs (write_at bs start d c)"
  using assms by (simp add: write_at_def blocked_blocks_of length_concat_blocked)

lemma concat_write_at:
  assumes "blocked bs c" and "start + length d \<le> length c * bs"
  shows "concat (write_at bs start d c) = patch start d (concat c)"
  using assms by (simp add: write_at_def concat_blocks_of length_concat_blocked)

lemma write_at_Nil: "blocked bs c \<Longrightarrow> write_at bs start [] c = c"
  by (simp add: write_at_def blocks_of_concat)

lemma write_at_part:
  assumes "blocked bs c" and "i < length c" and "k + length d \<le> bs"
  shows "c[i := patch k d (c ! i)] = write_at bs (i * bs + k) d c"
proof -
  let ?c = "c[i := patch k d (c ! i)]"
  have "blocked bs ?c" using assms blocked_nth [OF assms(1,2)] by (intro blocked_update) auto
  from blocks_of_concat [OF this] show ?thesis
    by (simp add: write_at_def concat_update_patch [OF assms])
qed

lemma write_at_write_at:
  assumes "blocked bs c" and "p + length a + length b \<le> length c * bs"
  shows "write_at bs (p + length a) b (write_at bs p a c) = write_at bs p (a @ b) c"
proof -
  have "concat (write_at bs p a c) = patch p a (concat c)" using assms by (intro concat_write_at) auto
  then show ?thesis
    using patch_patch [of p a b "concat c"] assms by (simp add: write_at_def [of bs] length_concat_blocked)
qed

lemma write_at_take_step:
  assumes "blocked bs c" and "k \<le> n" and "p + n \<le> length c * bs" and "at + n \<le> length f"
  shows "write_at bs (p + k) (take (n - k) (drop (at + k) f)) (write_at bs p (take k (drop at f)) c) =
    write_at bs p (take n (drop at f)) c"
proof -
  have l: "length (take k (drop at f)) = k" using assms by simp
  have "take k (drop at f) @ take (n - k) (drop (at + k) f) = take n (drop at f)"
    using assms(2) by (metis add.commute drop_drop le_add_diff_inverse take_add)
  with write_at_write_at [of bs c p "take k (drop at f)" "take (n - k) (drop (at + k) f)"] assms
  show ?thesis unfolding l by simp
qed

lemma touched_first: "k < bs \<Longrightarrow> 0 < n \<Longrightarrow> {i} \<subseteq> touched bs (i * bs + k) n"
  by (simp add: touched_def)

lemma touched_rest: "k \<le> n \<Longrightarrow> touched bs (p + k) (n - k) \<subseteq> touched bs p n"
  by (auto simp: touched_def)

lemma write_ok_then:
  assumes "write_ok valid cont rel st' B c' r" and "same_except A (cont st) (cont st')"
    and "A \<subseteq> C" and "B \<subseteq> C" and "c' = c"
  shows "write_ok valid cont rel st C c r"
  using assms by (auto simp: write_ok_def intro: same_except_trans)

lemma write_ok_fail:
  "valid st' \<Longrightarrow> same_except A (cont st) (cont st') \<Longrightarrow> A \<subseteq> C \<Longrightarrow> \<not> rel \<Longrightarrow>
    write_ok valid cont rel st C c (Some (False, st'))"
  by (auto simp: write_ok_def intro: same_except_mono)

lemma write_ok_mono:
  "write_ok valid cont rel st A c r \<Longrightarrow> A \<subseteq> B \<Longrightarrow> write_ok valid cont rel st B c r"
  by (auto simp: write_ok_def intro: same_except_mono)

lemma write_loop_done: "generic_write_loop bs bc rb wb e st b skip 0 from at = Some (True, st)"
  by (subst generic_write_loop.simps) simp

lemma write_loop_part:
  assumes "len \<noteq> 0" "b < bc" "skip \<noteq> 0 \<or> b = e" "read_own rb st b = Some (ok, st')"
    and "copy = (if len < bs - skip then len else bs - skip)"
    and "at + unat copy \<le> length from"
    and "unat skip + unat copy \<le> length (generic_block_buffer (fst st'))"
    and "ok \<Longrightarrow> wb (set_buffer st' (patch (unat skip) (take (unat copy) (drop at from))
        (generic_block_buffer (fst st')))) b Own = Some (ok', st'')"
  shows "generic_write_loop bs bc rb wb e st b skip len from at =
    (if \<not> ok then Some (False, st') else if \<not> ok' then Some (False, st'')
     else generic_write_loop bs bc rb wb e st'' (b + 1) 0 (len - copy) from (at + unat copy))"
  using assms by (subst generic_write_loop.simps) (simp add: rd_Some wr_Some Let_def flip: assms(5))

lemma write_loop_whole:
  assumes "len \<noteq> 0" "b < bc" "b \<noteq> e" "bs \<le> len" "wb st b (Ext (drop at from)) = Some (ok, st')"
  shows "generic_write_loop bs bc rb wb e st b 0 len from at =
    (if \<not> ok then Some (False, st')
     else generic_write_loop bs bc rb wb e st' (b + 1) 0 (len - bs) from (at + unat bs))"
  using assms by (subst generic_write_loop.simps) simp

context generic_dev
begin

lemma write_turn_part:
  assumes "valid st" and "b < bc" and "skip \<noteq> 0 \<or> b = e" and "len \<noteq> 0" and "unat skip < unat bs"
    and "at + unat len \<le> length from"
    and "unat b * unat bs + unat skip + unat len \<le> unat bs * unat bc"
    and k: "k = (if unat len < unat bs - unat skip then unat len else unat bs - unat skip)"
    and copy: "copy = (if len < bs - skip then len else bs - skip)"
    and rest: "\<And>st'. valid st' \<Longrightarrow>
      write_ok valid cont rel st' (touched (unat bs) (unat b * unat bs + unat skip + k) (unat len - k))
        (write_at (unat bs) (unat b * unat bs + unat skip + k) (take (unat len - k) (drop (at + k) from)) (cont st'))
        (generic_write_loop bs bc rb wb e st' (b + 1) 0 (len - copy) from (at + k))"
  shows "write_ok valid cont rel st (touched (unat bs) (unat b * unat bs + unat skip) (unat len))
    (write_at (unat bs) (unat b * unat bs + unat skip) (take (unat len) (drop at from)) (cont st))
    (generic_write_loop bs bc rb wb e st b skip len from at)"
proof -
  let ?p = "unat b * unat bs + unat skip" and ?d = "take k (drop at from)"
  have sk: "unat (bs - skip) = unat bs - unat skip" using assms(5) by (simp add: word_le_nat_alt unat_sub_u64)
  then have uc: "unat copy = k" by (auto simp: copy k word_less_nat_alt)
  have kb: "unat skip + k \<le> unat bs" "k \<le> unat len" "length ?d = k" using assms by (auto simp: k)
  obtain ok st' where r: "read_own rb st b = Some (ok, st')" "valid st'" "cont st' = cont st"
    "rel \<Longrightarrow> ok" "ok \<Longrightarrow> generic_block_buffer (fst st') = cont st ! unat b"
    using assms(1,2) by (rule read_own_ok) blast
  let ?g = "patch (unat skip) ?d (generic_block_buffer (fst st'))"
  let ?s = "set_buffer st' ?g"
  have l: "length (generic_block_buffer (fst st')) = unat bs" by (rule buffer_length [OF r(2)])
  have gl: "length ?g = unat bs" using kb l by simp
  have s: "valid ?s" "cont ?s = cont st" "generic_block_buffer (fst ?s) = ?g"
    using valid_set_buffer [OF r(2) gl] r(3) by (simp_all add: cont_set_buffer) (simp add: set_buffer_def)
  obtain ok' st'' where w: "wb ?s b Own = Some (ok', st'')" "valid st''" "rel \<Longrightarrow> ok'"
    "same_except {unat b} (cont st) (cont st'')" "ok' \<Longrightarrow> cont st'' = (cont st)[unat b := ?g]"
    by (rule write_okE [OF write_own [OF s(1) assms(2)], unfolded s(2,3)]) blast
  have loop: "generic_write_loop bs bc rb wb e st b skip len from at =
    (if \<not> ok then Some (False, st') else if \<not> ok' then Some (False, st'')
     else generic_write_loop bs bc rb wb e st'' (b + 1) 0 (len - copy) from (at + unat copy))"
    by (rule write_loop_part [OF assms(4,2,3) r(1) copy]) (use kb l assms(6) w(1) in \<open>simp_all add: uc\<close>)
  note loop = loop [unfolded uc]
  have t: "{unat b} \<subseteq> touched (unat bs) ?p (unat len)"
    using assms by (intro touched_first) (auto simp: unat_gt_0)
  consider "\<not> ok" | "ok" "\<not> ok'" | "ok" "ok'" by blast
  then show ?thesis
  proof cases
    case 3
    have "cont st'' = write_at (unat bs) ?p ?d (cont st)"
      using w(5) [OF 3(2)] r(5) [OF 3(1)] contents [OF assms(1)] assms(2) kb
      by (simp add: write_at_part word_less_nat_alt)
    then have "write_at (unat bs) (?p + k) (take (unat len - k) (drop (at + k) from)) (cont st'')
        = write_at (unat bs) ?p (take (unat len) (drop at from)) (cont st)"
      using contents [OF assms(1)] kb assms by (simp add: write_at_take_step mult.commute)
    with rest [OF w(2)] w(4) t touched_rest [OF kb(2)] 3 loop show ?thesis
      by (simp add: write_ok_then)
  qed (use loop r w t in \<open>auto intro!: write_ok_fail\<close>)
qed

lemma write_turn_whole:
  assumes "valid st" and "b < bc" and "b \<noteq> e" and "unat bs < unat len" and "0 < unat bs"
    and "at + unat len \<le> length from" and "unat b * unat bs + unat len \<le> unat bs * unat bc"
    and rest: "\<And>st'. valid st' \<Longrightarrow>
      write_ok valid cont rel st' (touched (unat bs) (unat b * unat bs + unat bs) (unat len - unat bs))
        (write_at (unat bs) (unat b * unat bs + unat bs) (take (unat len - unat bs) (drop (at + unat bs) from)) (cont st'))
        (generic_write_loop bs bc rb wb e st' (b + 1) 0 (len - bs) from (at + unat bs))"
  shows "write_ok valid cont rel st (touched (unat bs) (unat b * unat bs) (unat len))
    (write_at (unat bs) (unat b * unat bs) (take (unat len) (drop at from)) (cont st))
    (generic_write_loop bs bc rb wb e st b 0 len from at)"
proof -
  let ?d = "take (unat bs) (drop at from)"
  have "bs \<le> len" "len \<noteq> 0" using assms by (auto simp: word_le_nat_alt)
  have "unat bs \<le> length (drop at from)" using assms by simp
  from write_law [OF assms(1,2) this]
  obtain ok st' where w: "wb st b (Ext (drop at from)) = Some (ok, st')" "valid st'" "rel \<Longrightarrow> ok"
    "same_except {unat b} (cont st) (cont st')" "ok \<Longrightarrow> cont st' = (cont st)[unat b := ?d]"
    by (rule write_okE) blast
  note loop = write_loop_whole [of len b bc e bs wb st at "from" ok st', OF \<open>len \<noteq> 0\<close> assms(2,3) \<open>bs \<le> len\<close> w(1)]
  have t: "{unat b} \<subseteq> touched (unat bs) (unat b * unat bs) (unat len)"
    using touched_first [of 0 "unat bs" "unat len" "unat b"] assms by simp
  show ?thesis
  proof (cases ok)
    case True
    have "patch 0 ?d (cont st ! unat b) = ?d"
      using assms length_block [OF assms(1,2)] by simp
    then have "cont st' = write_at (unat bs) (unat b * unat bs) ?d (cont st)"
      using w(5) [OF True] write_at_part [of "unat bs" "cont st" "unat b" 0 ?d] contents [OF assms(1)] assms(2)
      by (simp add: word_less_nat_alt del: patch_0)
    then have "write_at (unat bs) (unat b * unat bs + unat bs) (take (unat len - unat bs) (drop (at + unat bs) from)) (cont st')
        = write_at (unat bs) (unat b * unat bs) (take (unat len) (drop at from)) (cont st)"
      using contents [OF assms(1)] assms by (simp add: write_at_take_step mult.commute)
    with rest [OF w(2)] w(4) t touched_rest [of "unat bs" "unat len" "unat bs" "unat b * unat bs"] True loop assms(4)
    show ?thesis by (simp add: write_ok_then)
  qed (use loop w t in \<open>auto intro!: write_ok_fail\<close>)
qed

text \<open>The end of the write: nothing is left, and the loop returns true.\<close>

lemma write_loop_done_ok:
  assumes "valid st"
  shows "write_ok valid cont rel st A (write_at (unat bs) p [] (cont st))
    (generic_write_loop bs bc rb wb e st b 0 0 from at)"
  using assms contents [OF assms]
  by (intro write_okI [where ok = True and st' = st]) (simp_all add: write_loop_done write_at_Nil)

lemma generic_write_loop_ok:
  assumes "valid st" and "unat skip < unat bs" and "0 < unat len"
    and "unat b \<le> unat e" and "unat e < unat bc"
    and "unat e * unat bs < unat b * unat bs + unat skip + unat len"
    and "unat b * unat bs + unat skip + unat len \<le> unat e * unat bs + unat bs"
    and "at + unat len \<le> length from"
  shows "write_ok valid cont rel st (touched (unat bs) (unat b * unat bs + unat skip) (unat len))
    (write_at (unat bs) (unat b * unat bs + unat skip) (take (unat len) (drop at from)) (cont st))
    (generic_write_loop bs bc rb wb e st b skip len from at)"
  using assms
proof (induction "unat e - unat b" arbitrary: st b skip len at)
  case 0
  then have eq: "e = b" by (simp add: u64_eq_iff)
  have nlt: "\<not> unat bs - unat skip < unat len" using 0 eq by simp
  then have copy: "len = (if len < bs - skip then len else bs - skip)"
    using 0(3) by (auto simp: word_less_nat_alt unat_sub_u64 word_le_nat_alt u64_eq_iff)
  have fits: "unat b * unat bs + unat skip + unat len \<le> unat bs * unat bc"
    using 0 mult_le_mono1 [of "Suc (unat e)" "unat bc" "unat bs"] by (simp add: mult.commute)
  show ?case
    by (rule write_turn_part [where k = "unat len" and copy = len])
      (use 0 eq fits nlt copy write_loop_done_ok in \<open>auto simp: word_less_nat_alt\<close>)
next
  case (Suc n)
  have le: "unat (b + 1) = Suc (unat b)" and be: "b \<noteq> e" and lt: "b < bc" and len: "len \<noteq> 0"
    using Suc.hyps(2) Suc.prems by (auto intro!: unat_Suc_u64 [of b e] simp: word_less_nat_alt)
  have "Suc (unat b) * unat bs \<le> unat e * unat bs" using Suc.hyps(2) by (intro mult_le_mono1) simp
  then have bkl: "unat bs < unat skip + unat len" using Suc.prems by simp
  have fits: "unat b * unat bs + unat skip + unat len \<le> unat bs * unat bc"
    using Suc.prems mult_le_mono1 [of "Suc (unat e)" "unat bc" "unat bs"] by (simp add: mult.commute)
  note IH = Suc.hyps(1) [of "b + 1" _ 0, unfolded le]
  show ?case
  proof (cases "skip = 0")
    case False
    have s: "unat (bs - skip) = unat bs - unat skip"
      using Suc.prems by (simp add: word_le_nat_alt unat_sub_u64)
    have l: "unat (len - (bs - skip)) = unat len - (unat bs - unat skip)"
      using bkl by (simp add: s word_le_nat_alt unat_sub_u64)
    show ?thesis
    proof (rule write_turn_part [where k = "unat bs - unat skip" and copy = "bs - skip"])
      fix st' :: "'m obj \<times> 's"
      assume st': "valid st'"
      show "write_ok valid cont rel st'
        (touched (unat bs) (unat b * unat bs + unat skip + (unat bs - unat skip)) (unat len - (unat bs - unat skip)))
        (write_at (unat bs) (unat b * unat bs + unat skip + (unat bs - unat skip))
          (take (unat len - (unat bs - unat skip)) (drop (at + (unat bs - unat skip)) from)) (cont st'))
        (generic_write_loop bs bc rb wb e st' (b + 1) 0 (len - (bs - skip)) from (at + (unat bs - unat skip)))"
        using IH [of st' "len - (bs - skip)" "at + (unat bs - unat skip)"] Suc.hyps(2) Suc.prems bkl st'
        by (simp add: l add.commute)
    qed (use Suc.prems lt be len False bkl fits s in \<open>auto simp: word_less_nat_alt\<close>)
  next
    case True
    have l: "unat (len - bs) = unat len - unat bs"
      using True bkl by (simp add: word_le_nat_alt unat_sub_u64)
    have "write_ok valid cont rel st (touched (unat bs) (unat b * unat bs) (unat len))
      (write_at (unat bs) (unat b * unat bs) (take (unat len) (drop at from)) (cont st))
      (generic_write_loop bs bc rb wb e st b 0 len from at)"
    proof (rule write_turn_whole)
      fix st' :: "'m obj \<times> 's"
      assume st': "valid st'"
      show "write_ok valid cont rel st' (touched (unat bs) (unat b * unat bs + unat bs) (unat len - unat bs))
        (write_at (unat bs) (unat b * unat bs + unat bs) (take (unat len - unat bs) (drop (at + unat bs) from)) (cont st'))
        (generic_write_loop bs bc rb wb e st' (b + 1) 0 (len - bs) from (at + unat bs))"
        using IH [of st' "len - bs" "at + unat bs"] Suc.hyps(2) Suc.prems bkl st' True
        by (simp add: l add.commute)
    qed (use Suc.prems lt be True bkl fits in auto)
    with True show ?thesis by simp
  qed
qed

lemma generic_write_bytes_ok:
  assumes "valid st" and "unat start + unat len \<le> unat bs * unat bc" and "unat len \<le> length from"
  shows "write_ok valid cont rel st (touched (unat bs) (unat start) (unat len))
    (write_at (unat bs) (unat start) (take (unat len) from) (cont st))
    (generic_write_bytes bs bc rb wb st start len from)"
proof (cases "len = 0")
  case True
  with assms contents [OF assms(1)] show ?thesis
    by (intro write_okI [where ok = True and st' = st]) (simp_all add: generic_write_bytes_def write_at_Nil)
next
  case False
  note g = byte_geometry [OF assms(1) False assms(2)]
  have "write_ok valid cont rel st
    (touched (unat bs) (unat (start div bs) * unat bs + unat (start - start div bs * bs)) (unat len))
    (write_at (unat bs) (unat (start div bs) * unat bs + unat (start - start div bs * bs))
      (take (unat len) (drop 0 from)) (cont st))
    (generic_write_loop bs bc rb wb ((start + len - 1) div bs) st (start div bs) (start - start div bs * bs) len from 0)"
    by (rule generic_write_loop_ok) (use assms g False in \<open>auto simp: word_less_nat_alt unat_gt_0\<close>)
  then show ?thesis using False g by (simp add: generic_write_bytes_def Let_def)
qed

end

section \<open>A whole device\<close>

locale block_device =
  block_rw "block_size dev" "block_count dev" "read_block dev" "write_block dev" valid cont rel
  for dev :: "'s bdev"
    and valid :: "'s \<Rightarrow> bool"
    and cont :: "'s \<Rightarrow> bytes list"
    and rel :: bool +
  assumes read_bytes_law: "valid st \<Longrightarrow>
      unat start + unat len \<le> unat (block_size dev) * unat (block_count dev) \<Longrightarrow>
      unat len \<le> length into \<Longrightarrow>
      read_ok valid cont rel st into (take (unat len) (drop (unat start) (concat (cont st))))
        (read_bytes dev st start len into)"
    and write_bytes_law: "valid st \<Longrightarrow>
      unat start + unat len \<le> unat (block_size dev) * unat (block_count dev) \<Longrightarrow>
      unat len \<le> length from \<Longrightarrow>
      write_ok valid cont rel st (touched (unat (block_size dev)) (unat start) (unat len))
        (write_at (unat (block_size dev)) (unat start) (take (unat len) from) (cont st))
        (write_bytes dev st start len from)"
    and clear_caches_law: "valid st \<Longrightarrow> keeps valid cont st (clear_caches dev st)"
    and flush_law: "valid st \<Longrightarrow> keeps valid cont st (flush dev st)"
    and sync_law: "valid st \<Longrightarrow> keeps valid cont st (sync dev st)"

text \<open>A layer with the generic byte operations keeps the whole contract when its maintenance
  operations keep the contents.\<close>

context generic_dev
begin

lemma whole_device:
  assumes "block_size dev = bs" and "block_count dev = bc"
    and "read_block dev = rb" and "write_block dev = (\<lambda>st w from. wb st w (Ext from))"
    and "read_bytes dev = generic_read_bytes bs bc rb"
    and "write_bytes dev = generic_write_bytes bs bc rb wb"
    and "\<And>st. valid st \<Longrightarrow> keeps valid cont st (clear_caches dev st)"
    and "\<And>st. valid st \<Longrightarrow> keeps valid cont st (flush dev st)"
    and "\<And>st. valid st \<Longrightarrow> keeps valid cont st (sync dev st)"
  shows "block_device dev valid cont rel"
  unfolding block_device_def block_device_axioms_def assms(1-6)
  using assms(7-9) generic_read_bytes_ok generic_write_bytes_ok block_rw_axioms by blast

end

section \<open>A device that cannot be read\<close>

text \<open>A weaker promise, and the device that keeps only the weaker one: every read fails.\<close>

lemma read_ok_weaken: "read_into_ok valid cont rel st into at data r \<Longrightarrow> read_into_ok valid cont False st into at data r"
  by (auto simp: read_into_ok_def)

lemma write_ok_weaken: "write_ok valid cont rel st A c r \<Longrightarrow> write_ok valid cont False st A c r"
  by (auto simp: write_ok_def)

definition unreadable :: "'s bdev \<Rightarrow> 's bdev" where
  "unreadable dev = dev\<lparr>read_block := (\<lambda>st which into. Some (False, into, st)),
    read_bytes := (\<lambda>st start len into. Some (False, into, st))\<rparr>"

context block_device
begin

lemma unreadable_device: "block_device (unreadable dev) valid cont False"
proof (unfold_locales, goal_cases)
  case (1 st) then show ?case using geometry [of st] by (simp add: unreadable_def)
next
  case (2 st) then show ?case using contents [of st] by (simp add: unreadable_def)
next
  case (4 st w "from")
  then show ?case using write_ok_weaken [OF write_law [of st w "from"]] by (simp add: unreadable_def)
next
  case (6 st start len "from")
  then show ?case
    using write_ok_weaken [OF write_bytes_law [of st start len "from"]] by (simp add: unreadable_def)
qed (simp_all add: unreadable_def read_ok_fail clear_caches_law flush_law sync_law)

end

end
