(* ===== verification/BaseIO.thy ===== *)
theory BaseIO
  imports Contract
begin

text \<open>
  \<open>src/src/layers/baseio.c\<close>: the devices at the bottom of every stack. A malloc device and
  an mmap device keep their blocks in memory (\<open>mem_io\<close>), a posixfd device in a file.

  Memory of the process is a byte list. The operating system is a parameter: a record
  \<open>os\<close> of the system calls the code makes, over a state that holds the files. What the
  code relies on is stated as the locales \<open>posix_file\<close> and \<open>coherent_mapping\<close>. The
  small \<open>malloc\<close>s of the device structs, whose failure ends the process, are left out.
\<close>

section \<open>System calls\<close>

datatype msync_flags = MS_INVALIDATE | MS_ASYNC | MS_SYNC

text \<open>\<open>pread\<close> returns the count (or -1) and the bytes it put in the buffer; the offset is
  the bit pattern of an \<open>off_t\<close>. \<open>mmap\<close> returns the mapped memory or \<open>None\<close> for
  \<open>MAP_FAILED\<close>.\<close>

record 's os =
  os_pread :: "'s \<Rightarrow> int \<Rightarrow> nat \<Rightarrow> u64 \<Rightarrow> int \<times> bytes \<times> 's"
  os_pwrite :: "'s \<Rightarrow> int \<Rightarrow> bytes \<Rightarrow> u64 \<Rightarrow> int \<times> 's"
  os_fsync :: "'s \<Rightarrow> int \<Rightarrow> int \<times> 's"
  os_close :: "'s \<Rightarrow> int \<Rightarrow> int \<times> 's"
  os_mmap :: "'s \<Rightarrow> nat \<Rightarrow> int \<Rightarrow> u64 \<Rightarrow> bytes option \<times> 's"
  os_msync :: "'s \<Rightarrow> bytes \<Rightarrow> msync_flags \<Rightarrow> int \<times> bytes \<times> 's"
  os_munmap :: "'s \<Rightarrow> bytes \<Rightarrow> int \<times> 's"

section \<open>Memory devices\<close>

record mem_io =
  io_base :: bytes
  io_mmaplen :: u64
  io_inherit_fd :: bool
  io_fd :: int

type_synonym 's mem_state = "mem_io obj \<times> 's"

definition mem_base :: "'s mem_state \<Rightarrow> bytes" where
  "mem_base st = io_base (obj_m (fst st))"

definition set_mem_base :: "bytes \<Rightarrow> 's mem_state \<Rightarrow> 's mem_state" where
  "set_mem_base b st = ((fst st)\<lparr>obj_m := obj_m (fst st)\<lparr>io_base := b\<rparr>\<rparr>, snd st)"

definition mem_read_block :: "u64 \<Rightarrow> u64 \<Rightarrow> 's mem_state block_read" where
  "mem_read_block bs bc st which into = do {
     c_assert (which < bc);
     d \<leftarrow> rd (mem_base st) (unat (which * bs)) (unat bs);
     into \<leftarrow> wr into 0 d;
     Some (True, into, st) }"

definition mem_write_block :: "u64 \<Rightarrow> u64 \<Rightarrow> 's mem_state src_write" where
  "mem_write_block bs bc st which from = do {
     c_assert (which < bc);
     d \<leftarrow> rd (deref (fst st) from) 0 (unat bs);
     b \<leftarrow> wr (mem_base st) (unat (which * bs)) d;
     Some (True, set_mem_base b st) }"

definition mem_malloc_close :: "'s mem_state \<Rightarrow> 's run" where
  "mem_malloc_close st = Some (snd st)"

definition mem_mmap_close :: "'s os \<Rightarrow> 's mem_state \<Rightarrow> 's run" where
  "mem_mmap_close os st =
    (let io = obj_m (fst st); (r, s) = os_munmap os (snd st) (io_base io)
     in if r = -1 then None
        else if io_inherit_fd io then Some (snd (os_close os s (io_fd io))) else Some s)"

definition mem_mmap_msync :: "'s os \<Rightarrow> msync_flags \<Rightarrow> 's mem_state \<Rightarrow> 's mem_state run" where
  "mem_mmap_msync os flags st =
    (let (r, b, s) = os_msync os (snd st) (mem_base st) flags
     in if r \<noteq> 0 then None else Some (set_mem_base b (fst st, s)))"

definition mem_mmap_clear_caches :: "'s os \<Rightarrow> 's mem_state \<Rightarrow> 's mem_state run" where
  "mem_mmap_clear_caches os = mem_mmap_msync os MS_INVALIDATE"

definition mem_mmap_flush :: "'s os \<Rightarrow> 's mem_state \<Rightarrow> 's mem_state run" where
  "mem_mmap_flush os = mem_mmap_msync os MS_ASYNC"

definition mem_mmap_sync :: "'s os \<Rightarrow> 's mem_state \<Rightarrow> 's mem_state run" where
  "mem_mmap_sync os = mem_mmap_msync os MS_SYNC"

definition malloc_dev :: "u64 \<Rightarrow> u64 \<Rightarrow> 's mem_state bdev" where
  "malloc_dev bs bc =
    \<lparr>block_size = bs, block_count = bc,
     read_bytes = generic_read_bytes bs bc (mem_read_block bs bc),
     write_bytes = generic_write_bytes bs bc (mem_read_block bs bc) (mem_write_block bs bc),
     read_block = mem_read_block bs bc,
     write_block = (\<lambda>st which from. mem_write_block bs bc st which (Ext from)),
     clear_caches = generic_clear_caches, flush = generic_flush, sync = generic_sync\<rparr>"

definition mmap_dev :: "'s os \<Rightarrow> u64 \<Rightarrow> u64 \<Rightarrow> 's mem_state bdev" where
  "mmap_dev os bs bc =
    \<lparr>block_size = bs, block_count = bc,
     read_bytes = generic_read_bytes bs bc (mem_read_block bs bc),
     write_bytes = generic_write_bytes bs bc (mem_read_block bs bc) (mem_write_block bs bc),
     read_block = mem_read_block bs bc,
     write_block = (\<lambda>st which from. mem_write_block bs bc st which (Ext from)),
     clear_caches = mem_mmap_clear_caches os, flush = mem_mmap_flush os, sync = mem_mmap_sync os\<rparr>"

definition bio_create_malloc ::
  "allocator \<Rightarrow> 's \<Rightarrow> u64 \<Rightarrow> u64 \<Rightarrow> ('s mem_state bdev \<times> 's mem_state) option run" where
  "bio_create_malloc alloc s bs blocks = do {
     c_assert (bs \<noteq> 0);
     g \<leftarrow> alloc (unat bs);
     Some (case alloc (unat (bs * blocks)) of
         None \<Rightarrow> None
       | Some b \<Rightarrow> Some (malloc_dev bs blocks,
           (\<lparr>generic_block_buffer = g,
             obj_m = \<lparr>io_base = b, io_mmaplen = 0, io_inherit_fd = False, io_fd = -1\<rparr>\<rparr>, s))) }"

definition bio_create_mmap ::
  "allocator \<Rightarrow> 's os \<Rightarrow> 's \<Rightarrow> u64 \<Rightarrow> int \<Rightarrow> u64 \<Rightarrow> u64 \<Rightarrow> bool \<Rightarrow>
   (('s mem_state bdev \<times> mem_io obj) option \<times> 's) run" where
  "bio_create_mmap alloc os s bs f blocks off inherit = do {
     c_assert (bs \<noteq> 0);
     g \<leftarrow> alloc (unat bs);
     let (m, s) = os_mmap os s (unat (bs * blocks)) f off;
     Some (case m of
         None \<Rightarrow> (None, s)
       | Some b \<Rightarrow> (Some (mmap_dev os bs blocks,
           \<lparr>generic_block_buffer = g,
             obj_m = \<lparr>io_base = b, io_mmaplen = bs * blocks, io_inherit_fd = inherit, io_fd = f\<rparr>\<rparr>), s)) }"

section \<open>Memory devices keep the contract\<close>

definition mem_valid :: "u64 \<Rightarrow> u64 \<Rightarrow> 's mem_state \<Rightarrow> bool" where
  "mem_valid bs bc st \<longleftrightarrow> 0 < unat bs \<and> unat bs * unat bc < 2 ^ 64 \<and>
     length (generic_block_buffer (fst st)) = unat bs \<and> length (mem_base st) = unat bs * unat bc"

definition mem_cont :: "u64 \<Rightarrow> u64 \<Rightarrow> 's mem_state \<Rightarrow> bytes list" where
  "mem_cont bs bc st = blocks_of (unat bs) (unat bc) (mem_base st)"

lemma mem_base_set [simp]:
  "mem_base (set_mem_base b st) = b"
  "generic_block_buffer (fst (set_mem_base b st)) = generic_block_buffer (fst st)"
  "mem_base (set_buffer st g) = mem_base st"
  "generic_block_buffer (fst (set_buffer st g)) = g"
  by (simp_all add: mem_base_def set_mem_base_def set_buffer_def)

lemma block_end_u64:
  assumes "unat (bs :: u64) * unat bc < 2 ^ 64" and "w < bc"
  shows "unat (w * bs) = unat w * unat bs" "unat w * unat bs + unat bs \<le> unat bs * unat bc"
proof -
  show le: "unat w * unat bs + unat bs \<le> unat bs * unat bc"
    using assms(2) block_end_le [of "unat w" "unat bc" "unat bs" "unat bs * unat bc"]
    by (simp add: word_less_nat_alt mult.commute)
  from assms(1) le show "unat (w * bs) = unat w * unat bs" by (intro unat_mult_u64) simp
qed

lemma mem_read_block_ok:
  assumes "mem_valid bs bc st" and "w < bc" and "unat bs \<le> length into"
  shows "mem_read_block bs bc st w into =
    Some (True, patch 0 (mem_cont bs bc st ! unat w) into, st)"
  using assms block_end_u64 [of bs bc w]
  by (simp add: mem_read_block_def mem_valid_def mem_cont_def rd_Some wr_Some block_at_def
      word_less_nat_alt)

lemma mem_write_block_ok:
  assumes "mem_valid bs bc st" and "w < bc" and "unat bs \<le> length (deref (fst st) from)"
  obtains st' where "mem_write_block bs bc st w from = Some (True, st')" "mem_valid bs bc st'"
    "mem_cont bs bc st' = (mem_cont bs bc st)[unat w := take (unat bs) (deref (fst st) from)]"
proof
  let ?d = "take (unat bs) (deref (fst st) from)"
  let ?b = "patch (unat w * unat bs) ?d (mem_base st)"
  note e = block_end_u64 [of bs bc w]
  show "mem_write_block bs bc st w from = Some (True, set_mem_base ?b st)"
    using assms e by (simp add: mem_write_block_def mem_valid_def rd_Some wr_Some)
  show "mem_valid bs bc (set_mem_base ?b st)"
    using assms e by (simp add: mem_valid_def)
  show "mem_cont bs bc (set_mem_base ?b st) = (mem_cont bs bc st)[unat w := ?d]"
    using assms blocks_of_patch [of "unat w" "unat bc" "unat bs" "mem_base st" ?d]
    by (simp add: mem_cont_def mem_valid_def word_less_nat_alt mult.commute [of "unat bs" "unat bc"])
qed

interpretation mem: generic_dev bs bc "mem_read_block bs bc" "mem_write_block bs bc"
  "mem_valid bs bc" "mem_cont bs bc" True for bs bc
proof (unfold_locales, goal_cases)
  case (1 st) then show ?case by (simp add: mem_valid_def)
next
  case (2 st) then show ?case
    by (simp add: mem_valid_def mem_cont_def blocked_blocks_of mult.commute)
next
  case (3 st w into)
  then have "length (mem_cont bs bc st ! unat w) = unat bs"
    by (simp add: mem_cont_def mem_valid_def word_less_nat_alt mult.commute)
  with 3 show ?case by (intro read_okI [OF mem_read_block_ok]) simp_all
next
  case (4 st w "from")
  then obtain st' where "mem_write_block bs bc st w (Ext from) = Some (True, st')"
    "mem_valid bs bc st'" "mem_cont bs bc st' = (mem_cont bs bc st)[unat w := take (unat bs) from]"
    by (metis deref.simps(2) mem_write_block_ok)
  then show ?case by (intro write_okI) auto
next
  case (8 st w)
  then have l: "length (generic_block_buffer (fst st)) = unat bs" by (simp add: mem_valid_def)
  with 8 obtain st' where "mem_write_block bs bc st w Own = Some (True, st')"
    "mem_valid bs bc st'" "mem_cont bs bc st' = (mem_cont bs bc st)[unat w := generic_block_buffer (fst st)]"
    by (metis deref.simps(1) mem_write_block_ok order_refl take_all)
  then show ?case by (intro write_okI) auto
qed (simp_all add: mem_valid_def mem_cont_def)

interpretation malloc: block_device "malloc_dev bs bc" "mem_valid bs bc" "mem_cont bs bc" True for bs bc
  by (rule mem.whole_device)
    (simp_all add: malloc_dev_def generic_clear_caches_def generic_flush_def generic_sync_def)

text \<open>A mapping that nobody else writes: \<open>msync\<close> succeeds and leaves the pages as they are.\<close>

locale coherent_mapping =
  fixes os :: "'s os"
  assumes msync_law: "\<exists>s'. os_msync os s b flags = (0, b, s')"
begin

lemma mem_mmap_msync_keeps:
  "mem_valid bs bc st \<Longrightarrow> keeps (mem_valid bs bc) (mem_cont bs bc) st (mem_mmap_msync os flags st)"
  using msync_law [of "snd st" "mem_base st" flags]
  by (auto simp: mem_mmap_msync_def keeps_def mem_valid_def mem_cont_def set_mem_base_def mem_base_def)

lemma mmap_device: "block_device (mmap_dev os bs bc) (mem_valid bs bc) (mem_cont bs bc) True"
  by (rule mem.whole_device)
    (simp_all add: mmap_dev_def mem_mmap_clear_caches_def mem_mmap_flush_def mem_mmap_sync_def
      mem_mmap_msync_keeps)

end

lemma bio_create_malloc_valid:
  assumes "alloc_ok alloc" and "unat bs * unat blocks < 2 ^ 64"
    and "bio_create_malloc alloc s bs blocks = Some (Some (dev, st))"
  shows "dev = malloc_dev bs blocks" "mem_valid bs blocks st" "snd st = s"
  using assms unat_mult_u64 [of bs blocks]
  by (auto simp: bio_create_malloc_def mem_valid_def mem_base_def c_assert_def unat_gt_0
      split: option.splits if_splits bind_splits dest: alloc_okD)

section \<open>A device for evaluation\<close>

text \<open>A memory device in the state \<open>bio_create_malloc\<close> would leave it in, with given
  contents.\<close>

definition ram :: "u64 \<Rightarrow> bytes \<Rightarrow> unit mem_state" where
  "ram bs data =
    (\<lparr>generic_block_buffer = replicate (unat bs) 0,
      obj_m = \<lparr>io_base = data, io_mmaplen = 0, io_inherit_fd = False, io_fd = -1\<rparr>\<rparr>, ())"

lemma ram_valid:
  assumes "0 < unat bs" and "unat bs * unat bc < 2 ^ 64" and "length data = unat bs * unat bc"
  shows "mem_valid bs bc (ram bs data)"
  using assms by (simp add: mem_valid_def ram_def mem_base_def)

lemma mem_cont_ram: "mem_cont bs bc (ram bs data) = blocks_of (unat bs) (unat bc) data"
  by (simp add: mem_cont_def mem_base_def ram_def)

text \<open>A memory device with given blocks.\<close>

definition ram_of :: "u64 \<Rightarrow> bytes list \<Rightarrow> unit mem_state" where
  "ram_of bs c = ram bs (concat c)"

lemma ram_of_valid:
  assumes "0 < unat bs" and "unat bs * unat bc < 2 ^ 64" and "length c = unat bc" and "blocked (unat bs) c"
  shows "mem_valid bs bc (ram_of bs c)" "mem_cont bs bc (ram_of bs c) = c"
  using assms blocks_of_concat [OF assms(4)]
  by (simp_all add: ram_of_def ram_valid mem_cont_ram length_concat_blocked mult.commute)

lemma blocked_replicate [simp]: "length b = bs \<Longrightarrow> blocked bs (replicate n b)"
  by (simp add: blocked_def)

lemma mem_flat: "mem_valid bs bc st \<Longrightarrow> concat (mem_cont bs bc st) = mem_base st"
  by (simp add: mem_cont_def mem_valid_def concat_blocks_of mult.commute)

section \<open>Properties\<close>

text \<open>For every layer that keeps the contract of its block operations, a byte read inside
  the device returns the bytes of the flat contents, whatever the alignment of the range; it
  never fails an assertion or overruns a buffer, it fails only if a block read fails, and it
  changes no contents.\<close>
theorem generic_read_bytes_flat:
  assumes "generic_dev bs bc rb wb valid cont rel" and "valid st"
    and "unat start + unat len \<le> unat bs * unat bc" and "unat len \<le> length into"
  shows "\<exists>ok into' st'. generic_read_bytes bs bc rb st start len into = Some (ok, into', st') \<and>
    valid st' \<and> cont st' = cont st \<and> length into' = length into \<and> (rel \<longrightarrow> ok) \<and>
    (ok \<longrightarrow> into' = patch 0 (take (unat len) (drop (unat start) (concat (cont st)))) into)"
  using generic_dev.generic_read_bytes_ok [OF assms] by (simp only: read_into_ok_def)

theorem generic_read_bytes_flat_witness:
  "\<exists>st'. generic_read_bytes 4 3 (mem_read_block 4 3) (ram 4 [0, 1, 2, 3, 4, 5, 6, 7, 8, 9, 10, 11]) 3 6
      [0, 0, 0, 0, 0, 0] = Some (True, [3, 4, 5, 6, 7, 8], st')"
proof -
  let ?st = "ram 4 [0, 1, 2, 3, 4, 5, 6, 7, 8, 9, 10, 11]"
  have v: "mem_valid 4 3 ?st" by (rule ram_valid) simp_all
  have c: "concat (mem_cont 4 3 ?st) = [0, 1, 2, 3, 4, 5, 6, 7, 8, 9, 10, 11]"
    by (simp only: mem_flat [OF v]) (simp add: ram_def mem_base_def)
  have "unat (3 :: u64) + unat (6 :: u64) \<le> unat (4 :: u64) * unat (3 :: u64)"
    "unat (6 :: u64) \<le> length [0, 0, 0, 0, 0, 0 :: u8]" by simp_all
  from generic_read_bytes_flat [OF mem.generic_dev_axioms v this, unfolded c] show ?thesis by fastforce
qed

text \<open>C4: For every layer that keeps the contract of its block operations, a byte write inside
  the device replaces exactly those bytes of the flat contents, by reading and rewriting the
  partial blocks at its ends; it never fails an assertion or overruns a buffer, and when it
  fails, only blocks in its range can have changed.\<close>
theorem generic_write_bytes_flat:
  assumes "generic_dev bs bc rb wb valid cont rel" and "valid st"
    and "unat start + unat len \<le> unat bs * unat bc" and "unat len \<le> length from"
  shows "\<exists>ok st'. generic_write_bytes bs bc rb wb st start len from = Some (ok, st') \<and>
    valid st' \<and> (rel \<longrightarrow> ok) \<and>
    (\<forall>i < unat bc. i \<notin> touched (unat bs) (unat start) (unat len) \<longrightarrow> cont st' ! i = cont st ! i) \<and>
    (ok \<longrightarrow> concat (cont st') = patch (unat start) (take (unat len) from) (concat (cont st)))"
proof -
  obtain ok st' where r: "generic_write_bytes bs bc rb wb st start len from = Some (ok, st')" "valid st'"
    "rel \<Longrightarrow> ok" "same_except (touched (unat bs) (unat start) (unat len)) (cont st) (cont st')"
    "ok \<Longrightarrow> cont st' = write_at (unat bs) (unat start) (take (unat len) from) (cont st)"
    using generic_dev.generic_write_bytes_ok [OF assms] by (rule write_okE) blast
  have c: "length (cont st) = unat bc" "blocked (unat bs) (cont st)"
    using block_rw.contents [OF generic_dev.axioms(1) [OF assms(1)] assms(2)] by simp_all
  have "concat (write_at (unat bs) (unat start) (take (unat len) from) (cont st)) =
      patch (unat start) (take (unat len) from) (concat (cont st))"
    using c assms(3,4) by (intro concat_write_at) (simp_all add: mult.commute)
  with r c(1) show ?thesis by (auto simp: same_except_def)
qed

theorem generic_write_bytes_flat_witness:
  "\<exists>st'. generic_write_bytes 4 3 (mem_read_block 4 3) (mem_write_block 4 3)
      (ram 4 [0, 0, 0, 0, 0, 0, 0, 0, 0, 0, 0, 0]) 3 6 [1, 2, 3, 4, 5, 6] = Some (True, st') \<and>
    concat (mem_cont 4 3 st') = [0, 0, 0, 1, 2, 3, 4, 5, 6, 0, 0, 0]"
proof -
  let ?st = "ram 4 [0, 0, 0, 0, 0, 0, 0, 0, 0, 0, 0, 0]"
  have v: "mem_valid 4 3 ?st" by (rule ram_valid) simp_all
  have c: "concat (mem_cont 4 3 ?st) = [0, 0, 0, 0, 0, 0, 0, 0, 0, 0, 0, 0]"
    by (simp only: mem_flat [OF v]) (simp add: ram_def mem_base_def)
  have "unat (3 :: u64) + unat (6 :: u64) \<le> unat (4 :: u64) * unat (3 :: u64)"
    "unat (6 :: u64) \<le> length [1, 2, 3, 4, 5, 6 :: u8]" by simp_all
  from generic_write_bytes_flat [OF mem.generic_dev_axioms v this, unfolded c]
  obtain st' where "generic_write_bytes 4 3 (mem_read_block 4 3) (mem_write_block 4 3) ?st 3 6 [1, 2, 3, 4, 5, 6] = Some (True, st')"
    "concat (mem_cont 4 3 st') = patch 3 (take 6 [1, 2, 3, 4, 5, 6]) [0, 0, 0, 0, 0, 0, 0, 0, 0, 0, 0, 0]"
    by fastforce
  then show ?thesis by (simp add: patch_def)
qed

text \<open>\<open>bio_create_malloc\<close> returns a device that keeps the whole contract and never
  fails: blocks and bytes read back what was last written, and no call dies.\<close>
theorem bio_create_malloc_device:
  assumes "alloc_ok alloc" and "unat bs * unat blocks < 2 ^ 64"
    and "bio_create_malloc alloc s bs blocks = Some (Some (dev, st))"
  shows "block_device dev (mem_valid bs blocks) (mem_cont bs blocks) True \<and> mem_valid bs blocks st"
  using bio_create_malloc_valid [OF assms] malloc.block_device_axioms by simp

theorem bio_create_malloc_device_witness:
  "\<exists>dev st. bio_create_malloc calloc_alloc () 4 3 = Some (Some (dev, st)) \<and>
    block_device dev (mem_valid 4 3) (mem_cont 4 3) True \<and> mem_valid 4 3 st"
proof -
  obtain dev and st :: "unit mem_state"
    where r: "bio_create_malloc calloc_alloc () 4 3 = Some (Some (dev, st))"
    by (simp add: bio_create_malloc_def calloc_alloc_def)
  have "unat (4 :: u64) * unat (3 :: u64) < 2 ^ 64" by simp
  with bio_create_malloc_device [OF calloc_alloc_ok _ r] r show ?thesis by blast
qed

text \<open>Over a mapping that nobody else writes, the mmap device keeps the whole contract;
  its cache operations are the only ones that call the system.\<close>
theorem mmap_device_keeps_contract:
  assumes "coherent_mapping os"
  shows "block_device (mmap_dev os bs bc) (mem_valid bs bc) (mem_cont bs bc) True"
  by (rule coherent_mapping.mmap_device [OF assms])

theorem mmap_device_keeps_contract_witness:
  "block_device (mmap_dev \<lparr>os_pread = \<lambda>s f n off. (0, [], s), os_pwrite = \<lambda>s f d off. (0, s),
      os_fsync = \<lambda>s f. (0, s), os_close = \<lambda>s f. (0, s), os_mmap = \<lambda>s n f off. (None, s),
      os_msync = \<lambda>s b flags. (0, b, s), os_munmap = \<lambda>s b. (0, s)\<rparr> 4 3)
    (mem_valid 4 3 :: unit mem_state \<Rightarrow> bool) (mem_cont 4 3) True"
  by (rule mmap_device_keeps_contract) (unfold_locales, simp)

text \<open>The size of the memory is computed at 64 bits: a product that wraps around gives a device
  whose blocks lie outside its memory.\<close>
theorem bio_create_malloc_wraps:
  "\<exists>dev st. bio_create_malloc calloc_alloc () 0x100000 0x100000000000 = Some (Some (dev, st)) \<and>
    0 < block_count dev \<and> read_block dev st 0 into = None"
proof -
  have "unat ((0x100000 :: u64) * 0x100000000000) = 0" by simp
  then show ?thesis
    by (simp add: bio_create_malloc_def calloc_alloc_def malloc_dev_def mem_read_block_def mem_base_def rd_def)
qed

end
