(* ===== verification/PosixIO.thy ===== *)
theory PosixIO
  imports BaseIO
begin

text \<open>
  The posixfd device of \<open>src/src/layers/baseio.c\<close>: blocks in a file, read with
  \<open>pread\<close> and written with \<open>pwrite\<close>. The device shows the file as if it were padded
  with zeros; a short read is padded, a short write is a failure.
\<close>

record fd_io =
  fio_fd :: int
  fio_offset :: u64
  fio_inherit_fd :: bool

type_synonym 's fd_state = "unit obj \<times> 's"

definition fd_read_block :: "'s os \<Rightarrow> fd_io \<Rightarrow> u64 \<Rightarrow> u64 \<Rightarrow> 's fd_state block_read" where
  "fd_read_block os io bs bc st which into = do {
     c_assert (which < bc);
     let (ret, d, s) = os_pread os (snd st) (fio_fd io) (unat bs) (which * bs + fio_offset io);
     into \<leftarrow> wr into 0 d;
     if ret = -1 then Some (False, into, (fst st, s))
     else do {
       into \<leftarrow> (if word_of_int ret < bs then memset into (nat ret) 0 (unat (bs - word_of_int ret))
               else Some into);
       Some (True, into, (fst st, s)) } }"

definition fd_write_block :: "'s os \<Rightarrow> fd_io \<Rightarrow> u64 \<Rightarrow> u64 \<Rightarrow> 's fd_state src_write" where
  "fd_write_block os io bs bc st which from = do {
     c_assert (which < bc);
     d \<leftarrow> rd (deref (fst st) from) 0 (unat bs);
     let (ret, s) = os_pwrite os (snd st) (fio_fd io) d (which * bs + fio_offset io);
     if ret = -1 then Some (False, (fst st, s))
     else if word_of_int ret \<noteq> bs then Some (False, (fst st, s))
     else Some (True, (fst st, s)) }"

definition fd_close :: "'s os \<Rightarrow> fd_io \<Rightarrow> 's fd_state \<Rightarrow> 's run" where
  "fd_close os io st =
    (if fio_inherit_fd io then Some (snd (os_close os (snd st) (fio_fd io))) else Some (snd st))"

definition fd_sync :: "'s os \<Rightarrow> fd_io \<Rightarrow> 's fd_state \<Rightarrow> 's fd_state run" where
  "fd_sync os io st = Some (fst st, snd (os_fsync os (snd st) (fio_fd io)))"

definition posixfd_dev :: "'s os \<Rightarrow> fd_io \<Rightarrow> u64 \<Rightarrow> u64 \<Rightarrow> 's fd_state bdev" where
  "posixfd_dev os io bs bc =
    \<lparr>block_size = bs, block_count = bc,
     read_bytes = generic_read_bytes bs bc (fd_read_block os io bs bc),
     write_bytes = generic_write_bytes bs bc (fd_read_block os io bs bc) (fd_write_block os io bs bc),
     read_block = fd_read_block os io bs bc,
     write_block = (\<lambda>st which from. fd_write_block os io bs bc st which (Ext from)),
     clear_caches = generic_clear_caches, flush = generic_flush, sync = fd_sync os io\<rparr>"

definition bio_create_posixfd ::
  "allocator \<Rightarrow> 's os \<Rightarrow> u64 \<Rightarrow> int \<Rightarrow> u64 \<Rightarrow> u64 \<Rightarrow> bool \<Rightarrow> ('s fd_state bdev \<times> unit obj) run" where
  "bio_create_posixfd alloc os bs f blocks off inherit = do {
     c_assert (bs \<noteq> 0);
     g \<leftarrow> alloc (unat bs);
     Some (posixfd_dev os \<lparr>fio_fd = f, fio_offset = off, fio_inherit_fd = inherit\<rparr> bs blocks,
           \<lparr>generic_block_buffer = g, obj_m = ()\<rparr>) }"

section \<open>Files\<close>

text \<open>The first \<open>n\<close> bytes of a file as if it went on with zeros.\<close>

definition zpad :: "nat \<Rightarrow> bytes \<Rightarrow> bytes" where
  "zpad n f = take n (f @ replicate n 0)"

text \<open>What \<open>pwrite\<close> does to a file: a gap before the data reads as zeros.\<close>

definition file_write :: "nat \<Rightarrow> bytes \<Rightarrow> bytes \<Rightarrow> bytes" where
  "file_write off d f =
    (if d = [] then f else patch off d (f @ replicate (off + length d - length f) 0))"

lemma length_zpad [simp]: "length (zpad n f) = n"
  by (simp add: zpad_def)

lemma nth_zpad: "i < n \<Longrightarrow> zpad n f ! i = (if i < length f then f ! i else 0)"
  by (simp add: zpad_def nth_append)

lemma zpad_file_write:
  assumes "k + length d \<le> n"
  shows "zpad n (drop off (file_write (off + k) d f)) = patch k d (zpad n (drop off f))"
proof (cases "d = []")
  case False
  show ?thesis
    using False assms
    by (intro nth_equalityI) (auto simp: nth_zpad file_write_def nth_patch nth_append)
qed (simp add: file_write_def)

text \<open>Reading \<open>n\<close> bytes at \<open>off + k\<close> and padding the short read gives the padded view.\<close>

lemma zpad_read:
  assumes "k + m \<le> n" and "d = take m (drop (off + k) f)"
  shows "d @ replicate (m - length d) 0 = take m (drop k (zpad n (drop off f)))"
  using assms by (intro nth_equalityI) (auto simp: nth_zpad nth_append add.assoc)

text \<open>A regular file behind the descriptor: what POSIX says of the three calls, for offsets that
  are not negative. A read is short only at the end of the file; a write that fails or is short
  has written some prefix of the data.\<close>

locale posix_file =
  fixes os :: "'s os"
    and f :: int
    and content :: "'s \<Rightarrow> bytes"
    and rel :: bool
  assumes pread_law: "unat off + n < 2 ^ 63 \<Longrightarrow> os_pread os s f n off = (ret, d, s') \<Longrightarrow>
      content s' = content s \<and> length d \<le> n \<and>
      (ret \<noteq> -1 \<longrightarrow> ret = int (length d) \<and> d = take n (drop (unat off) (content s))) \<and>
      (rel \<longrightarrow> ret \<noteq> -1)"
    and pwrite_law: "unat off + length d < 2 ^ 63 \<Longrightarrow> os_pwrite os s f d off = (ret, s') \<Longrightarrow>
      \<exists>k \<le> length d. content s' = file_write (unat off) (take k d) (content s) \<and>
        (ret = -1 \<or> ret = int k) \<and> (rel \<longrightarrow> ret = int (length d))"
    and fsync_law: "os_fsync os s f = (ret, s') \<Longrightarrow> content s' = content s"

section \<open>The device keeps the contract\<close>

definition fd_valid :: "fd_io \<Rightarrow> u64 \<Rightarrow> u64 \<Rightarrow> 's fd_state \<Rightarrow> bool" where
  "fd_valid io bs bc st \<longleftrightarrow> 0 < unat bs \<and> unat (fio_offset io) + unat bs * unat bc < 2 ^ 63 \<and>
     length (generic_block_buffer (fst st)) = unat bs"

definition fd_cont :: "('s \<Rightarrow> bytes) \<Rightarrow> fd_io \<Rightarrow> u64 \<Rightarrow> u64 \<Rightarrow> 's fd_state \<Rightarrow> bytes list" where
  "fd_cont content io bs bc st = blocks_of (unat bs) (unat bc)
     (zpad (unat bs * unat bc) (drop (unat (fio_offset io)) (content (snd st))))"

lemma fd_offset:
  assumes "fd_valid io bs bc st" and "w < bc"
  shows "unat (w * bs + fio_offset io) = unat (fio_offset io) + unat w * unat bs"
    "unat w * unat bs + unat bs \<le> unat bs * unat bc"
    "unat (fio_offset io) + unat w * unat bs + unat bs < 2 ^ 63"
proof -
  have v: "unat (fio_offset io) + unat bs * unat bc < 2 ^ 63" using assms by (simp add: fd_valid_def)
  then have "unat bs * unat bc < 2 ^ 64" by simp
  note e = block_end_u64 [OF this assms(2)]
  show "unat w * unat bs + unat bs \<le> unat bs * unat bc" by (rule e(2))
  then show "unat (fio_offset io) + unat w * unat bs + unat bs < 2 ^ 63" using v by simp
  then show "unat (w * bs + fio_offset io) = unat (fio_offset io) + unat w * unat bs"
    using unat_add_u64 [of "w * bs" "fio_offset io"] by (simp add: e(1) add.commute)
qed

lemma word_of_int_length:
  assumes "n \<le> unat (bs :: u64)"
  shows "unat (word_of_int (int n) :: u64) = n"
proof -
  have "n < 2 ^ 64" using assms unat_u64_bound [of bs] by linarith
  then show ?thesis by (simp add: unsigned_of_nat take_bit_nat_eq_self_iff)
qed

lemma block_at_patch_part:
  assumes "i < n" and "j < n" and "i \<noteq> j" and "n * bs \<le> length buf" and "length src \<le> bs"
  shows "block_at bs (patch (i * bs) src buf) j = block_at bs buf j"
proof -
  have i: "i * bs + bs \<le> length buf" and j: "j * bs + bs \<le> length buf"
    using assms block_end_le by blast+
  consider "Suc i \<le> j" | "Suc j \<le> i" using assms(3) by linarith
  then have "j * bs + bs \<le> i * bs \<or> i * bs + length src \<le> j * bs"
    by cases (use assms(5) mult_le_mono1 [of "Suc i" j bs] mult_le_mono1 [of "Suc j" i bs] in auto)
  with i j assms(5) show ?thesis by (simp add: block_at_def take_drop_patch_disjoint)
qed

context posix_file
begin

lemma fd_read_block_ok:
  assumes v: "fd_valid io bs bc st" and w: "w < bc" and l: "unat bs \<le> length into"
    and "fio_fd io = f"
  shows "read_ok (fd_valid io bs bc) (fd_cont content io bs bc) rel st into
    (fd_cont content io bs bc st ! unat w) (fd_read_block os io bs bc st w into)"
proof -
  note o' = fd_offset [OF v w]
  obtain ret d s' where p: "os_pread os (snd st) f (unat bs) (w * bs + fio_offset io) = (ret, d, s')"
    by (metis prod_cases3)
  have law: "content s' = content (snd st)" "length d \<le> unat bs" "rel \<Longrightarrow> ret \<noteq> -1"
    "ret \<noteq> -1 \<Longrightarrow> ret = int (length d)"
    "ret \<noteq> -1 \<Longrightarrow> d = take (unat bs) (drop (unat (fio_offset io) + unat w * unat bs) (content (snd st)))"
    using pread_law [OF _ p] o' by auto
  let ?z = "d @ replicate (unat bs - length d) 0 @ drop (unat bs) into"
  have c: "fd_cont content io bs bc (fst st, s') = fd_cont content io bs bc st"
    by (simp add: fd_cont_def law(1))
  have "fd_valid io bs bc (fst st, s')" using v by (simp add: fd_valid_def)
  show ?thesis
  proof (cases "ret = -1")
    case True
    then have "fd_read_block os io bs bc st w into = Some (False, d @ drop (length d) into, (fst st, s'))"
      using w l p law(2) assms(4) by (simp add: fd_read_block_def wr_Some)
    moreover have "length (d @ drop (length d) into) = length into" using law(2) l by simp
    moreover have "\<not> rel" using True law(3) by blast
    ultimately show ?thesis using c \<open>fd_valid io bs bc (fst st, s')\<close> by (simp add: read_ok_fail)
  next
    case False
    note u = word_of_int_length [OF law(2)]
    have "fd_read_block os io bs bc st w into = Some (True, ?z, (fst st, s'))"
      using w l p law(2) assms(4) False law(4) u
      by (auto simp: fd_read_block_def wr_Some memset_Some word_less_nat_alt unat_sub_u64
          word_le_nat_alt patch_def)
    moreover have "d @ replicate (unat bs - length d) 0 = fd_cont content io bs bc st ! unat w"
      using zpad_read [OF o'(2) law(5) [OF False]] w
      by (simp add: fd_cont_def block_at_def word_less_nat_alt)
    moreover have "length (d @ replicate (unat bs - length d) 0) = unat bs" using law(2) by simp
    ultimately show ?thesis
      using c l law(2) \<open>fd_valid io bs bc (fst st, s')\<close>
      by (intro read_okI [where ok = True and st' = "(fst st, s')"]) (auto simp flip: append_assoc)
  qed
qed

lemma fd_write_block_ok:
  assumes v: "fd_valid io bs bc st" and w: "w < bc" and l: "unat bs \<le> length (deref (fst st) from)"
    and "fio_fd io = f"
  shows "write_ok (fd_valid io bs bc) (fd_cont content io bs bc) rel st {unat w}
    ((fd_cont content io bs bc st)[unat w := take (unat bs) (deref (fst st) from)])
    (fd_write_block os io bs bc st w from)"
proof -
  note o' = fd_offset [OF v w]
  let ?d = "take (unat bs) (deref (fst st) from)"
  let ?z = "zpad (unat bs * unat bc) (drop (unat (fio_offset io)) (content (snd st)))"
  have ld: "length ?d = unat bs" using l by simp
  obtain ret s' where p: "os_pwrite os (snd st) f ?d (w * bs + fio_offset io) = (ret, s')"
    by (metis surj_pair)
  have "unat (w * bs + fio_offset io) + length ?d < 2 ^ 63" using o'(1,3) ld by simp
  from pwrite_law [OF this p, unfolded o'(1) ld]
  obtain k where k: "k \<le> unat bs" "ret = -1 \<or> ret = int k" "rel \<Longrightarrow> ret = int (unat bs)"
    "content s' = file_write (unat (fio_offset io) + unat w * unat bs) (take k ?d) (content (snd st))"
    by blast
  have cz: "fd_cont content io bs bc (fst st, s') =
      blocks_of (unat bs) (unat bc) (patch (unat w * unat bs) (take k ?d) ?z)"
    using k(1,4) o'(2) ld by (simp add: fd_cont_def zpad_file_write)
  have se: "same_except {unat w} (fd_cont content io bs bc st) (fd_cont content io bs bc (fst st, s'))"
    unfolding cz using k(1) w ld
    by (auto simp: same_except_def fd_cont_def word_less_nat_alt mult.commute [of "unat bs" "unat bc"]
        intro!: block_at_patch_part [of "unat w" "unat bc"])
  have v': "fd_valid io bs bc (fst st, s')" using v by (simp add: fd_valid_def)
  show ?thesis
  proof (cases "ret = int (unat bs)")
    case True
    then have "ret \<noteq> -1" by linarith
    with k(2) True have "k = unat bs" by (metis of_nat_eq_iff)
    have "uint bs \<noteq> -1" using uint_ge_0 [of bs] by linarith
    then have "fd_write_block os io bs bc st w from = Some (True, (fst st, s'))"
      using w l p True assms(4) by (simp add: fd_write_block_def rd_Some)
    moreover have "fd_cont content io bs bc (fst st, s') = (fd_cont content io bs bc st)[unat w := ?d]"
      unfolding cz \<open>k = unat bs\<close> using w ld blocks_of_patch [of "unat w" "unat bc" "unat bs" ?z ?d]
      by (simp add: fd_cont_def word_less_nat_alt mult.commute [of "unat bs" "unat bc"])
    ultimately show ?thesis using se v' by (intro write_okI) auto
  next
    case False
    have "fd_write_block os io bs bc st w from = Some (False, (fst st, s'))"
      using w l p False assms(4) k(1,2) word_of_int_length [OF k(1)]
      by (auto simp: fd_write_block_def rd_Some u64_eq_iff)
    with False k(3) se v' show ?thesis by (auto intro: write_ok_fail)
  qed
qed

lemma fd_generic_dev:
  assumes "fio_fd io = f"
  shows "generic_dev bs bc (fd_read_block os io bs bc) (fd_write_block os io bs bc)
    (fd_valid io bs bc) (fd_cont content io bs bc) rel"
proof (unfold_locales, goal_cases)
  case (1 st) then show ?case by (auto simp: fd_valid_def)
next
  case (2 st) then show ?case
    by (simp add: fd_cont_def blocked_blocks_of mult.commute)
next
  case (3 st w into) then show ?case by (intro fd_read_block_ok assms)
next
  case (4 st w "from") then show ?case
    using fd_write_block_ok [of io bs bc st w "Ext from"] assms by simp
next
  case (8 st w) then show ?case
    using fd_write_block_ok [of io bs bc st w Own] assms by (simp add: fd_valid_def)
qed (simp_all add: fd_valid_def fd_cont_def set_buffer_def)

lemma posixfd_device:
  assumes "fio_fd io = f"
  shows "block_device (posixfd_dev os io bs bc) (fd_valid io bs bc) (fd_cont content io bs bc) rel"
proof -
  have "keeps (fd_valid io bs bc) (fd_cont content io bs bc) st (fd_sync os io st)"
    if "fd_valid io bs bc st" for st
    using that fsync_law [of "snd st" "fst (os_fsync os (snd st) f)" "snd (os_fsync os (snd st) f)"] assms
    by (simp add: fd_sync_def keeps_def fd_valid_def fd_cont_def)
  with generic_dev.whole_device [OF fd_generic_dev [OF assms], of "posixfd_dev os io bs bc"]
  show ?thesis
    by (simp add: posixfd_dev_def generic_clear_caches_def generic_flush_def)
qed

end

section \<open>An operating system for evaluation\<close>

text \<open>One file that never fails, used to run the devices on concrete inputs: the state is the
  file, and every call succeeds in full.\<close>

definition file_os :: "bytes os" where
  "file_os =
    \<lparr>os_pread = (\<lambda>s fd n off. let d = take n (drop (unat off) s) in (int (length d), d, s)),
     os_pwrite = (\<lambda>s fd d off. (int (length d), file_write (unat off) d s)),
     os_fsync = (\<lambda>s fd. (0, s)),
     os_close = (\<lambda>s fd. (0, s)),
     os_mmap = (\<lambda>s n fd off. (Some (take n (drop (unat off) s)), s)),
     os_msync = (\<lambda>s b flags. (0, b, s)),
     os_munmap = (\<lambda>s b. (0, s))\<rparr>"

interpretation file_os: posix_file file_os f "\<lambda>s. s" True for f
  by unfold_locales (auto simp: file_os_def Let_def)

interpretation file_os_map: coherent_mapping file_os
  by unfold_locales (simp add: file_os_def)

section \<open>Properties\<close>

text \<open>C12: Over a regular file, the posixfd device keeps the whole contract, with the zero-padded
  file from the offset on as its contents: a short read at the end of the file is padded, a short
  write is reported as a failure and touches only its block.\<close>
theorem posixfd_device_keeps_contract:
  assumes "posix_file os f content rel" and "fio_fd io = f"
  shows "block_device (posixfd_dev os io bs bc) (fd_valid io bs bc) (fd_cont content io bs bc) rel"
  by (rule posix_file.posixfd_device [OF assms])

theorem posixfd_device_keeps_contract_witness:
  "block_device (posixfd_dev file_os \<lparr>fio_fd = 3, fio_offset = 8, fio_inherit_fd = True\<rparr> 4 2)
    (fd_valid \<lparr>fio_fd = 3, fio_offset = 8, fio_inherit_fd = True\<rparr> 4 2)
    (fd_cont (\<lambda>s. s) \<lparr>fio_fd = 3, fio_offset = 8, fio_inherit_fd = True\<rparr> 4 2) True"
  by (rule posixfd_device_keeps_contract [OF file_os.posix_file_axioms]) simp

end
