(* ===== verification/Slice.thy ===== *)
theory Slice
  imports BaseIO
begin

text \<open>
  \<open>src/src/layers/slice.c\<close>: a device that shows \<open>len\<close> blocks of another device,
  from block \<open>start\<close>. It has no memory of its own, so its state is the base device's.

  The lemmas show that a slice keeps the block device contract when its base does, with the
  middle of the base's blocks as its contents, and that nothing done through the slice changes
  a block outside it.
\<close>

section \<open>The layer\<close>

definition slice_read_bytes ::
  "'s bdev \<Rightarrow> u64 \<Rightarrow> u64 \<Rightarrow> 's \<Rightarrow> u64 \<Rightarrow> u64 \<Rightarrow> bytes \<Rightarrow> (bool \<times> bytes \<times> 's) run" where
  "slice_read_bytes base io_start io_len st start len into = do {
     c_assert (start + len \<le> io_len * block_size base);
     read_bytes base st (start + block_size base * io_start) len into }"

definition slice_write_bytes ::
  "'s bdev \<Rightarrow> u64 \<Rightarrow> u64 \<Rightarrow> 's \<Rightarrow> u64 \<Rightarrow> u64 \<Rightarrow> bytes \<Rightarrow> (bool \<times> 's) run" where
  "slice_write_bytes base io_start io_len st start len from = do {
     c_assert (start + len \<le> io_len * block_size base);
     write_bytes base st (start + block_size base * io_start) len from }"

definition slice_read_block :: "'s bdev \<Rightarrow> u64 \<Rightarrow> u64 \<Rightarrow> 's block_read" where
  "slice_read_block base io_start io_len st which into = do {
     c_assert (which < io_len);
     read_block base st (which + io_start) into }"

definition slice_write_block :: "'s bdev \<Rightarrow> u64 \<Rightarrow> u64 \<Rightarrow> 's block_write" where
  "slice_write_block base io_start io_len st which from = do {
     c_assert (which < io_len);
     write_block base st (which + io_start) from }"

definition slice_close :: "'s \<Rightarrow> 's run" where
  "slice_close st = Some st"

definition slice_clear_caches :: "'s bdev \<Rightarrow> 's \<Rightarrow> 's run" where
  "slice_clear_caches base st = clear_caches base st"

definition slice_flush :: "'s bdev \<Rightarrow> 's \<Rightarrow> 's run" where
  "slice_flush base st = flush base st"

definition slice_sync :: "'s bdev \<Rightarrow> 's \<Rightarrow> 's run" where
  "slice_sync base st = sync base st"

definition slice_dev :: "'s bdev \<Rightarrow> u64 \<Rightarrow> u64 \<Rightarrow> 's bdev" where
  "slice_dev base start len =
    \<lparr>block_size = block_size base, block_count = len,
     read_bytes = slice_read_bytes base start len,
     write_bytes = slice_write_bytes base start len,
     read_block = slice_read_block base start len,
     write_block = slice_write_block base start len,
     clear_caches = slice_clear_caches base, flush = slice_flush base, sync = slice_sync base\<rparr>"

definition slice_open :: "'s bdev \<Rightarrow> u64 \<Rightarrow> u64 \<Rightarrow> 's bdev option run" where
  "slice_open base start len = do {
     c_assert (len > 0);
     if block_count base < start + len then Some None
     else Some (Some (slice_dev base start len)) }"

section \<open>A slice of the contents\<close>

text \<open>What the slice shows and what it leaves alone.\<close>

definition inside :: "nat \<Rightarrow> nat \<Rightarrow> 'a list \<Rightarrow> 'a list" where
  "inside s l c = take l (drop s c)"

definition outside :: "nat \<Rightarrow> nat \<Rightarrow> 'a list \<Rightarrow> 'a list \<times> 'a list" where
  "outside s l c = (take s c, drop (s + l) c)"

lemma split_slice: "c = take s c @ inside s l c @ drop (s + l) c"
  by (simp add: inside_def) (metis add.commute append_take_drop_id drop_drop)

lemma nth_inside: "i < l \<Longrightarrow> s + l \<le> length c \<Longrightarrow> inside s l c ! i = c ! (s + i)"
  by (simp add: inside_def)

lemma length_inside [simp]: "s + l \<le> length c \<Longrightarrow> length (inside s l c) = l"
  by (simp add: inside_def)

lemma blocked_inside: "blocked bs c \<Longrightarrow> blocked bs (inside s l c)"
  by (auto simp: blocked_def inside_def dest: in_set_takeD in_set_dropD)

lemma inside_update:
  "i < l \<Longrightarrow> s + l \<le> length c \<Longrightarrow> inside s l (c[s + i := b]) = (inside s l c)[i := b]"
  by (simp add: inside_def drop_update_swap take_update_swap)

lemma same_except_inside:
  assumes "same_except A c c'" and "s + l \<le> length c" and "\<And>i. i \<in> A \<Longrightarrow> s \<le> i \<and> i < s + l"
  shows "same_except {i. s + i \<in> A} (inside s l c) (inside s l c')"
    "outside s l c' = outside s l c"
proof -
  have l: "length c' = length c" and n: "\<And>i. i < length c \<Longrightarrow> i \<notin> A \<Longrightarrow> c' ! i = c ! i"
    using assms(1) by (simp_all add: same_except_def)
  show "same_except {i. s + i \<in> A} (inside s l c) (inside s l c')"
    using assms(2) l n by (simp add: same_except_def nth_inside)
  have out: "c' ! i = c ! i" if "i < length c" "\<not> (s \<le> i \<and> i < s + l)" for i
    using n that assms(3) by blast
  have "take s c' = take s c" by (rule nth_equalityI) (simp_all add: l out)
  moreover have "drop (s + l) c' = drop (s + l) c" by (rule nth_equalityI) (simp_all add: l out)
  ultimately show "outside s l c' = outside s l c" by (simp add: outside_def)
qed

lemma concat_inside:
  assumes "blocked bs c" and "s + l \<le> length c"
  shows "concat c = concat (take s c) @ concat (inside s l c) @ concat (drop (s + l) c)"
    and "length (concat (take s c)) = s * bs"
    and "length (concat (inside s l c)) = l * bs"
proof -
  show "concat c = concat (take s c) @ concat (inside s l c) @ concat (drop (s + l) c)"
    by (metis split_slice concat_append)
  have "blocked bs (take s c)" using assms(1) by (auto simp: blocked_def dest: in_set_takeD)
  from length_concat_blocked [OF this] show "length (concat (take s c)) = s * bs"
    using assms(2) by simp
  from length_concat_blocked [OF blocked_inside [OF assms(1)]] assms(2)
  show "length (concat (inside s l c)) = l * bs" by simp
qed

lemma inside_bytes:
  assumes "blocked bs c" and "s + l \<le> length c" and "p + n \<le> l * bs"
  shows "take n (drop (p + bs * s) (concat c)) = take n (drop p (concat (inside s l c)))"
  using concat_inside [OF assms(1,2)] assms(3) by (simp add: mult.commute)

lemma blocks_of_append:
  assumes "length a = n * bs"
  shows "blocks_of bs (n + m) (a @ b) = blocks_of bs n a @ blocks_of bs m b"
proof (rule nth_equalityI)
  fix i assume "i < length (blocks_of bs (n + m) (a @ b))"
  then have i: "i < n + m" by simp
  show "blocks_of bs (n + m) (a @ b) ! i = (blocks_of bs n a @ blocks_of bs m b) ! i"
  proof (cases "i < n")
    case True
    with block_end_le [of i n bs "length a"] assms i show ?thesis
      by (simp add: nth_append block_at_def)
  next
    case False
    then have "i * bs = n * bs + (i - n) * bs" by (simp flip: add_mult_distrib)
    with False i assms show ?thesis by (simp add: nth_append block_at_def)
  qed
qed simp

lemma write_at_inside:
  assumes "blocked bs c" and "s + l \<le> length c" and "p + length d \<le> l * bs"
  shows "write_at bs (p + bs * s) d c =
    take s c @ write_at bs p d (inside s l c) @ drop (s + l) c"
proof -
  let ?a = "concat (take s c)" and ?m = "concat (inside s l c)" and ?z = "concat (drop (s + l) c)"
  note cs = concat_inside [OF assms(1,2)]
  have p: "patch (p + bs * s) d (concat c) = ?a @ patch p d ?m @ ?z"
    unfolding cs(1) using cs(2,3) assms(3) by (simp add: patch_def mult.commute)
  have lm: "length (patch p d ?m) = l * bs" using cs(3) assms(3) by simp
  have n: "length c = s + (l + (length c - (s + l)))" using assms(2) by simp
  have bt: "blocked bs (take s c)" and bd: "blocked bs (drop (s + l) c)"
    using assms(1) by (auto simp: blocked_def dest: in_set_takeD in_set_dropD)
  have "write_at bs (p + bs * s) d c =
      blocks_of bs s ?a @ blocks_of bs l (patch p d ?m) @ blocks_of bs (length c - (s + l)) ?z"
    unfolding write_at_def p by (subst n) (simp only: blocks_of_append cs(2) lm)
  also have "blocks_of bs s ?a = take s c"
    using blocks_of_concat [OF bt] assms(2) by simp
  also have "blocks_of bs (length c - (s + l)) ?z = drop (s + l) c"
    using blocks_of_concat [OF bd] by simp
  finally show ?thesis using assms(2) by (simp add: write_at_def)
qed

lemma touched_inside:
  assumes "0 < bs" and "p + n \<le> l * bs"
  shows "i \<in> touched bs (p + bs * s) n \<Longrightarrow> s \<le> i \<and> i < s + l"
    and "{i. s + i \<in> touched bs (p + bs * s) n} = touched bs p n"
proof -
  assume "i \<in> touched bs (p + bs * s) n"
  then have a: "p + bs * s < Suc i * bs" and b: "i * bs < p + bs * s + n" by (simp_all add: touched_def)
  from a have "s * bs < Suc i * bs" by (simp add: mult.commute)
  moreover from b assms(2) have "i * bs < (s + l) * bs" by (simp add: algebra_simps)
  ultimately show "s \<le> i \<and> i < s + l" using assms(1) by (simp only: mult_less_cancel2) simp
next
  show "{i. s + i \<in> touched bs (p + bs * s) n} = touched bs p n"
    by (simp add: touched_def algebra_simps)
qed

section \<open>A slice keeps the contract\<close>

lemma write_ok_inside:
  assumes "write_ok valid cont rel st A c r" and "s + l \<le> length (cont st)"
    and "\<And>i. i \<in> A \<Longrightarrow> s \<le> i \<and> i < s + l" and "inside s l c = c'" and "{i. s + i \<in> A} = B"
    and "outside s l (cont st) = F"
  shows "write_ok (\<lambda>st. valid st \<and> outside s l (cont st) = F) (\<lambda>st. inside s l (cont st)) rel st B c' r"
proof -
  obtain ok st' where r: "r = Some (ok, st')" "valid st'" "rel \<Longrightarrow> ok"
    "same_except A (cont st) (cont st')" "ok \<Longrightarrow> cont st' = c"
    using assms(1) by (rule write_okE) blast
  note se = same_except_inside [OF r(4) assms(2) assms(3)]
  show ?thesis
    by (rule write_okI [OF r(1)]) (use r assms(4-6) se in auto)
qed

context block_device
begin

lemma slice_shift:
  assumes "unat start + unat len \<le> unat (block_count dev)" and "w < len"
  shows "unat (w + start) = unat start + unat w" "w + start < block_count dev"
proof -
  have lt: "unat w + unat start < unat (block_count dev)"
    using assms by (simp add: word_less_nat_alt)
  then have "unat w + unat start < 2 ^ 64" using unat_u64_bound [of "block_count dev"] by linarith
  then show e: "unat (w + start) = unat start + unat w" by (simp add: unat_add_u64)
  from lt e show "w + start < block_count dev" by (simp add: word_less_nat_alt)
qed

lemma slice_byte_shift:
  assumes v: "valid st" and s: "unat start + unat len \<le> unat (block_count dev)"
    and p: "unat p + unat n \<le> unat (block_size dev) * unat len"
  shows "unat (p + block_size dev * start) = unat p + unat (block_size dev) * unat start"
    "unat (p + block_size dev * start) + unat n \<le> unat (block_size dev) * unat (block_count dev)"
    "p + n \<le> len * block_size dev"
proof -
  let ?B = "unat (block_size dev)" and ?C = "unat (block_count dev)"
  have g: "?B * ?C < 2 ^ 64" using geometry [OF v] by simp
  have m: "?B * unat start + ?B * unat len \<le> ?B * ?C"
    using mult_le_mono2 [OF s, of ?B] by (simp add: distrib_left)
  have ms: "unat (block_size dev * start) = ?B * unat start" using m g by (intro unat_mult_u64) simp
  have ml: "unat (len * block_size dev) = unat len * ?B"
    using m g by (intro unat_mult_u64) (simp add: mult.commute)
  show e: "unat (p + block_size dev * start) = unat p + ?B * unat start"
    using m g p by (subst unat_add_u64) (simp_all add: ms)
  show "unat (p + block_size dev * start) + unat n \<le> ?B * ?C" using e m p by simp
  have "unat (p + n) = unat p + unat n" using m g p by (intro unat_add_u64) simp
  then show "p + n \<le> len * block_size dev" using p ml by (simp add: word_le_nat_alt mult.commute)
qed

lemma slice_device:
  assumes s: "unat start + unat len \<le> unat (block_count dev)"
  shows "block_device (slice_dev dev start len)
    (\<lambda>st. valid st \<and> outside (unat start) (unat len) (cont st) = F)
    (\<lambda>st. inside (unat start) (unat len) (cont st)) rel"
proof (unfold_locales, goal_cases)
  case (1 st)
  have le: "unat (block_size dev) * unat len \<le> unat (block_size dev) * unat (block_count dev)"
    using s by (intro mult_le_mono2) simp
  have g: "0 < unat (block_size dev)" "unat (block_size dev) * unat (block_count dev) < 2 ^ 64"
    using geometry 1 by blast+
  from g(1) le_less_trans [OF le g(2)] show ?case by (simp add: slice_dev_def)
next
  case (2 st)
  with contents [of st] s show ?case by (simp add: slice_dev_def blocked_inside)
next
  case (3 st w into)
  then have w: "w < len" by (simp add: slice_dev_def)
  note sh = slice_shift [OF s w]
  have "read_ok valid cont rel st into (cont st ! unat (w + start)) (read_block dev st (w + start) into)"
    using 3 sh by (intro read_law) (simp_all add: slice_dev_def)
  moreover have "cont st ! unat (w + start) = inside (unat start) (unat len) (cont st) ! unat w"
    using sh(1) w s length_cont [of st] 3 by (simp add: nth_inside word_less_nat_alt)
  ultimately show ?case
    using w 3 by (auto simp: slice_dev_def slice_read_block_def read_into_ok_def)
next
  case (4 st w "from")
  then have w: "w < len" by (simp add: slice_dev_def)
  note sh = slice_shift [OF s w]
  let ?d = "take (unat (block_size dev)) from"
  have "write_ok valid cont rel st {unat (w + start)} ((cont st)[unat (w + start) := ?d])
      (write_block dev st (w + start) from)"
    using 4 sh by (intro write_law) (simp_all add: slice_dev_def)
  moreover have "inside (unat start) (unat len) ((cont st)[unat (w + start) := ?d]) =
      (inside (unat start) (unat len) (cont st))[unat w := ?d]"
    unfolding sh(1) using w s length_cont [of st] 4 by (simp add: inside_update word_less_nat_alt)
  ultimately show ?case
    using w 4 s length_cont [of st] sh(1)
    by (auto simp: slice_dev_def slice_write_block_def word_less_nat_alt intro!: write_ok_inside)
next
  case (5 st p n into)
  note v = conjunct1 [OF 5(1)]
  have p: "unat p + unat n \<le> unat (block_size dev) * unat len" using 5 by (simp add: slice_dev_def)
  note sh = slice_byte_shift [OF v s p]
  have sl: "unat start + unat len \<le> length (cont st)" using s length_cont [OF v] by simp
  have eq: "take (unat n) (drop (unat (p + block_size dev * start)) (concat (cont st))) =
      take (unat n) (drop (unat p) (concat (inside (unat start) (unat len) (cont st))))"
    unfolding sh(1) using inside_bytes [OF blocked_cont [OF v] sl, of "unat p" "unat n"] p
    by (simp add: mult.commute)
  have "slice_read_bytes dev start len st p n into = read_bytes dev st (p + block_size dev * start) n into"
    using sh(3) by (simp add: slice_read_bytes_def)
  then have call: "read_bytes (slice_dev dev start len) st p n into = read_bytes dev st (p + block_size dev * start) n into"
    by (simp add: slice_dev_def)
  show ?case
    unfolding call by (rule read_ok_view [OF read_bytes_law [OF v sh(2) 5(3)] _ eq]) (use 5(1) in simp)
next
  case (6 st p n "from")
  note v = conjunct1 [OF 6(1)]
  have p: "unat p + unat n \<le> unat (block_size dev) * unat len" using 6 by (simp add: slice_dev_def)
  note sh = slice_byte_shift [OF v s p]
  let ?d = "take (unat n) from"
  have B: "0 < unat (block_size dev)" using geometry [OF v] by simp
  have p': "unat p + unat n \<le> unat len * unat (block_size dev)" using p by (simp add: mult.commute)
  have ld: "length ?d = unat n" using 6 by simp
  have sl: "unat start + unat len \<le> length (cont st)" using s length_cont [OF v] by simp
  have "inside (unat start) (unat len) (write_at (unat (block_size dev)) (unat p + unat (block_size dev) * unat start) ?d (cont st))
      = write_at (unat (block_size dev)) (unat p) ?d (inside (unat start) (unat len) (cont st))"
    using write_at_inside [OF blocked_cont [OF v] sl, of "unat p" ?d] p' ld sl
    by (simp add: inside_def)
  from write_ok_inside [OF write_bytes_law [OF v sh(2) 6(3), unfolded sh(1)] sl
      touched_inside(1) [OF B p'] this touched_inside(2) [OF B p'] conjunct2 [OF 6(1)]]
  show ?case using sh(3) by (simp add: slice_dev_def slice_write_bytes_def sh(1))
next
  case (7 st)
  with clear_caches_law [of st] show ?case by (auto simp: slice_dev_def slice_clear_caches_def keeps_def)
next
  case (8 st)
  with flush_law [of st] show ?case by (auto simp: slice_dev_def slice_flush_def keeps_def)
next
  case (9 st)
  with sync_law [of st] show ?case by (auto simp: slice_dev_def slice_sync_def keeps_def)
qed

end

lemma slice_open_Some:
  assumes "unat start + unat len < 2 ^ 64" and "slice_open base start len = Some (Some dev)"
  shows "dev = slice_dev base start len" "unat start + unat len \<le> unat (block_count base)"
  using assms unat_add_u64 [of start len]
  by (auto simp: slice_open_def c_assert_def not_less word_le_nat_alt split: if_splits)

section \<open>Properties\<close>

text \<open>C9: A slice that opens is a device of its own: it keeps the whole contract of its base
  device on its blocks, and no operation through it, whether it succeeds or fails, changes a block
  of the base outside the slice (\<open>F\<close> is what lies outside).\<close>
theorem slice_open_device:
  assumes "block_device base valid cont rel" and "unat start + unat len < 2 ^ 64"
    and "slice_open base start len = Some (Some dev)"
  shows "block_device dev
    (\<lambda>st. valid st \<and> outside (unat start) (unat len) (cont st) = F)
    (\<lambda>st. inside (unat start) (unat len) (cont st)) rel"
  using block_device.slice_device [OF assms(1) slice_open_Some(2) [OF assms(2,3)]]
  by (simp add: slice_open_Some(1) [OF assms(2,3)])

theorem slice_open_device_witness:
  "\<exists>dev. slice_open (malloc_dev 4 3) 1 2 = Some (Some dev) \<and>
    block_device dev (\<lambda>st. mem_valid 4 3 st \<and> outside 1 2 (mem_cont 4 3 st) = ([[1, 2, 3, 4]], []))
      (\<lambda>st :: unit mem_state. inside 1 2 (mem_cont 4 3 st)) True"
proof -
  have o: "slice_open (malloc_dev 4 3 :: unit mem_state bdev) 1 2 = Some (Some (slice_dev (malloc_dev 4 3) 1 2))"
    by (simp add: slice_open_def malloc_dev_def)
  have "unat (1 :: u64) + unat (2 :: u64) < 2 ^ 64" by simp
  from slice_open_device [OF malloc.block_device_axioms this o, of "([[1, 2, 3, 4]], [])"] o
  show ?thesis by simp
qed

text \<open>\<open>slice_open\<close> returns NULL for a range that ends beyond the device, when the end
  of the range can be computed without wrapping around, and it always returns.\<close>
theorem slice_open_rejects:
  assumes "0 < len" and "unat start + unat len < 2 ^ 64"
  shows "slice_open base start len =
    Some (if unat (block_count base) < unat start + unat len then None else Some (slice_dev base start len))"
  using assms unat_add_u64 [of start len] by (simp add: slice_open_def word_less_nat_alt)

theorem slice_open_rejects_witness:
  "slice_open (malloc_dev 4 3 :: unit mem_state bdev) 2 2 = Some None"
  using slice_open_rejects [of 2 2 "malloc_dev 4 3 :: unit mem_state bdev"] by (simp add: malloc_dev_def)

text \<open>A range whose end wraps around is accepted, and its blocks lie outside the device.\<close>
theorem slice_open_wraps:
  "\<exists>dev. slice_open (malloc_dev 4 3 :: unit mem_state bdev) 0x8000000000000000 0x8000000000000000 = Some (Some dev) \<and>
    0 < block_count dev \<and> read_block dev st 0 into = None"
  by (simp add: slice_open_def malloc_dev_def slice_dev_def slice_read_block_def mem_read_block_def)

end
