(* ===== verification/Devices.thy ===== *)
theory Devices
  imports BaseIO
begin

text \<open>
  Several devices over one state, as the layers with more than one base device use them
  (concat, stripe, xor): every device keeps its own contract and leaves the contents of the
  others alone. The devices may live in separate states (\<open>independent\<close>) or share one, as
  disjoint slices of one disk do.
\<close>

section \<open>An array of devices\<close>

text \<open>Everything but the contents of device \<open>i\<close>.\<close>

definition others :: "nat \<Rightarrow> bytes list list \<Rightarrow> bytes list list" where
  "others i cs = cs[i := []]"

lemma others_eq:
  assumes "others i cs' = others i cs" and "i < length cs"
  shows "cs' = cs[i := cs' ! i]"
proof -
  have "(others i cs')[i := cs' ! i] = (others i cs)[i := cs' ! i]" using assms(1) by simp
  then show ?thesis by (simp add: others_def)
qed

lemma others_nth: "others i cs' = others i cs \<Longrightarrow> j \<noteq> i \<Longrightarrow> cs' ! j = cs ! j"
  unfolding others_def by (metis nth_list_update_neq)

lemma same_except_single:
  assumes "same_except {w} c c'"
  shows "c' = c[w := c' ! w]"
proof (rule nth_equalityI)
  show "length c' = length (c[w := c' ! w])" using assms by (simp add: same_except_def)
  fix i assume "i < length c'"
  then show "c' ! i = c[w := c' ! w] ! i"
    using assms by (cases "i = w") (simp_all add: same_except_def)
qed

locale device_array =
  fixes devs :: "'s bdev list"
    and valid :: "'s \<Rightarrow> bool"
    and conts :: "'s \<Rightarrow> bytes list list"
    and rel :: "nat \<Rightarrow> bool"
  assumes conts_length: "valid st \<Longrightarrow> length (conts st) = length devs"
    and device: "i < length devs \<Longrightarrow>
      block_device (devs ! i) (\<lambda>st. valid st \<and> others i (conts st) = F) (\<lambda>st. conts st ! i) (rel i)"
begin

lemma frame_eq:
  assumes "valid st" and "i < length devs" and "others i (conts st') = others i (conts st)"
  shows "conts st' = (conts st)[i := conts st' ! i]"
  using others_eq [OF assms(3)] conts_length [OF assms(1)] assms(2) by simp

lemma dev_geometry:
  assumes "valid st" and "i < length devs"
  shows "0 < unat (block_size (devs ! i))"
    and "unat (block_size (devs ! i)) * unat (block_count (devs ! i)) < 2 ^ 64"
    and "length (conts st ! i) = unat (block_count (devs ! i))"
    and "blocked (unat (block_size (devs ! i))) (conts st ! i)"
  using block_rw.geometry [OF block_device.axioms(1) [OF device [OF assms(2), of "others i (conts st)"]], of st]
    block_rw.contents [OF block_device.axioms(1) [OF device [OF assms(2), of "others i (conts st)"]], of st]
    assms(1) by simp_all

lemma dev_read:
  assumes "valid st" and "i < length devs" and "w < block_count (devs ! i)"
    and "unat (block_size (devs ! i)) \<le> length into"
  shows "read_ok valid conts (rel i) st into (conts st ! i ! unat w) (read_block (devs ! i) st w into)"
proof -
  from device [OF assms(2), of "others i (conts st)"]
  have "read_ok (\<lambda>s. valid s \<and> others i (conts s) = others i (conts st)) (\<lambda>s. conts s ! i) (rel i) st into
      (conts st ! i ! unat w) (read_block (devs ! i) st w into)"
    by (intro block_rw.read_law [OF block_device.axioms(1)]) (use assms in auto)
  then show ?thesis
  proof (rule read_ok_view)
    fix st' assume "valid st' \<and> others i (conts st') = others i (conts st)" "conts st' ! i = conts st ! i"
    then show "valid st' \<and> conts st' = conts st"
      using frame_eq [OF assms(1,2), of st'] by simp
  qed simp
qed

lemma dev_write:
  assumes "valid st" and "i < length devs" and "w < block_count (devs ! i)"
    and "unat (block_size (devs ! i)) \<le> length from"
  obtains ok st' b where "write_block (devs ! i) st w from = Some (ok, st')" "valid st'" "rel i \<Longrightarrow> ok"
    "conts st' = (conts st)[i := (conts st ! i)[unat w := b]]"
    "length b = unat (block_size (devs ! i))"
    "ok \<Longrightarrow> b = take (unat (block_size (devs ! i))) from"
proof -
  let ?bs = "unat (block_size (devs ! i))"
  from device [OF assms(2), of "others i (conts st)"]
  have "write_ok (\<lambda>s. valid s \<and> others i (conts s) = others i (conts st)) (\<lambda>s. conts s ! i) (rel i) st
      {unat w} ((conts st ! i)[unat w := take ?bs from]) (write_block (devs ! i) st w from)"
    by (intro block_rw.write_law [OF block_device.axioms(1)]) (use assms in auto)
  then obtain ok st' where r: "write_block (devs ! i) st w from = Some (ok, st')"
    "valid st' \<and> others i (conts st') = others i (conts st)" "rel i \<Longrightarrow> ok"
    "same_except {unat w} (conts st ! i) (conts st' ! i)"
    "ok \<Longrightarrow> conts st' ! i = (conts st ! i)[unat w := take ?bs from]"
    by (rule write_okE) blast
  have v: "valid st'" using r(2) by blast
  have w: "unat w < length (conts st ! i)"
    using dev_geometry(3) [OF assms(1,2)] assms(3) by (simp add: word_less_nat_alt)
  have eq: "conts st' ! i = (conts st ! i)[unat w := conts st' ! i ! unat w]"
    using r(4) by (rule same_except_single)
  show thesis
  proof (rule that [OF r(1) v r(3)])
    show "conts st' = (conts st)[i := (conts st ! i)[unat w := conts st' ! i ! unat w]]"
      using frame_eq [OF assms(1,2) conjunct2 [OF r(2)]] eq by simp
    show "length (conts st' ! i ! unat w) = ?bs"
      using dev_geometry(3,4) [OF v assms(2)] assms(3) by (simp add: blocked_nth word_less_nat_alt)
    show "ok \<Longrightarrow> conts st' ! i ! unat w = take ?bs from"
      using r(5) w by simp
  qed
qed

lemma dev_keeps:
  assumes "valid st" and "i < length devs"
  shows "keeps valid conts st (clear_caches (devs ! i) st)"
    and "keeps valid conts st (flush (devs ! i) st)"
    and "keeps valid conts st (sync (devs ! i) st)"
proof -
  let ?F = "others i (conts st)"
  have view: "keeps valid conts st r"
    if "keeps (\<lambda>s. valid s \<and> others i (conts s) = ?F) (\<lambda>s. conts s ! i) st r" for r
  proof (rule keeps_view [OF that])
    fix st' assume "valid st' \<and> others i (conts st') = ?F" "conts st' ! i = conts st ! i"
    then show "valid st' \<and> conts st' = conts st" using frame_eq [OF assms, of st'] by simp
  qed
  note d = device [OF assms(2), of ?F]
  show "keeps valid conts st (clear_caches (devs ! i) st)"
    and "keeps valid conts st (flush (devs ! i) st)"
    and "keeps valid conts st (sync (devs ! i) st)"
    by (rule view; rule block_device.clear_caches_law [OF d] block_device.flush_law [OF d]
        block_device.sync_law [OF d]; simp add: assms(1))+
qed

end

text \<open>\<open>for (int i = 0; i < io->count; i++) op(io->devices[i])\<close>.\<close>

primrec each_device :: "('s bdev \<Rightarrow> 's \<Rightarrow> 's run) \<Rightarrow> 's bdev list \<Rightarrow> 's \<Rightarrow> 's run" where
  "each_device op [] st = Some st"
| "each_device op (d # ds) st = do { st \<leftarrow> op d st; each_device op ds st }"

lemma each_device_keeps:
  assumes "\<And>d st. d \<in> set ds \<Longrightarrow> valid st \<Longrightarrow> keeps valid cont st (op d st)" and "valid st"
  shows "keeps valid cont st (each_device op ds st)"
  using assms
proof (induction ds arbitrary: st)
  case (Cons d ds)
  from Cons.prems(1) [of d st] Cons.prems(2)
  obtain st' where st': "op d st = Some st'" "valid st'" "cont st' = cont st"
    by (auto elim: keepsE)
  have "keeps valid cont st' (each_device op ds st')"
    using Cons.prems(1) st'(2) by (intro Cons.IH) auto
  with st' show ?case by (simp add: keeps_def)
qed simp

context device_array
begin

lemma each_keeps:
  assumes "valid st"
  shows "keeps valid conts st (each_device clear_caches devs st)"
    and "keeps valid conts st (each_device flush devs st)"
    and "keeps valid conts st (each_device sync devs st)"
  by (rule each_device_keeps [where valid = valid, OF _ assms], metis dev_keeps in_set_conv_nth)+

end

section \<open>Devices with separate states\<close>

text \<open>A world of several devices is the list of their states; \<open>nth_dev i d\<close> is device \<open>d\<close>
  run on the \<open>i\<close>-th of them.\<close>

definition nth_read :: "nat \<Rightarrow> ('s \<Rightarrow> (bool \<times> bytes \<times> 's) run) \<Rightarrow> 's list \<Rightarrow> (bool \<times> bytes \<times> 's list) run" where
  "nth_read i f ws = do { (ok, into, s) \<leftarrow> f (ws ! i); Some (ok, into, ws[i := s]) }"

definition nth_write :: "nat \<Rightarrow> ('s \<Rightarrow> (bool \<times> 's) run) \<Rightarrow> 's list \<Rightarrow> (bool \<times> 's list) run" where
  "nth_write i f ws = do { (ok, s) \<leftarrow> f (ws ! i); Some (ok, ws[i := s]) }"

definition nth_run :: "nat \<Rightarrow> ('s \<Rightarrow> 's run) \<Rightarrow> 's list \<Rightarrow> 's list run" where
  "nth_run i f ws = do { s \<leftarrow> f (ws ! i); Some (ws[i := s]) }"

definition nth_dev :: "nat \<Rightarrow> 's bdev \<Rightarrow> 's list bdev" where
  "nth_dev i d =
    \<lparr>block_size = block_size d, block_count = block_count d,
     read_bytes = (\<lambda>ws start len into. nth_read i (\<lambda>s. read_bytes d s start len into) ws),
     write_bytes = (\<lambda>ws start len from. nth_write i (\<lambda>s. write_bytes d s start len from) ws),
     read_block = (\<lambda>ws which into. nth_read i (\<lambda>s. read_block d s which into) ws),
     write_block = (\<lambda>ws which from. nth_write i (\<lambda>s. write_block d s which from) ws),
     clear_caches = nth_run i (clear_caches d), flush = nth_run i (flush d), sync = nth_run i (sync d)\<rparr>"

definition independent :: "'s bdev list \<Rightarrow> 's list bdev list" where
  "independent ds = map (\<lambda>i. nth_dev i (ds ! i)) [0..<length ds]"

definition all_valid :: "nat \<Rightarrow> (nat \<Rightarrow> 's \<Rightarrow> bool) \<Rightarrow> 's list \<Rightarrow> bool" where
  "all_valid n v ws \<longleftrightarrow> length ws = n \<and> (\<forall>i < n. v i (ws ! i))"

definition all_conts :: "nat \<Rightarrow> (nat \<Rightarrow> 's \<Rightarrow> bytes list) \<Rightarrow> 's list \<Rightarrow> bytes list list" where
  "all_conts n c ws = map (\<lambda>i. c i (ws ! i)) [0..<n]"

lemma all_conts_update:
  assumes "i < n" and "length ws = n"
  shows "all_conts n c (ws[i := s]) = (all_conts n c ws)[i := c i s]"
  using assms by (intro nth_equalityI) (auto simp: all_conts_def nth_list_update)

lemma all_valid_update: "all_valid n v ws \<Longrightarrow> v i s \<Longrightarrow> all_valid n v (ws[i := s])"
  by (cases "i < n") (auto simp: all_valid_def nth_list_update list_update_beyond)

lemma nth_read_ok:
  assumes "read_ok (v i) (c i) rel (ws ! i) into data (f (ws ! i))"
    and "all_valid n v ws" and "others i (all_conts n c ws) = F" and "i < n"
  shows "read_ok (\<lambda>ws. all_valid n v ws \<and> others i (all_conts n c ws) = F)
    (\<lambda>ws. all_conts n c ws ! i) rel ws into data (nth_read i f ws)"
proof -
  obtain ok into' s where r: "f (ws ! i) = Some (ok, into', s)" "v i s" "c i s = c i (ws ! i)"
    "length into' = length into" "rel \<Longrightarrow> ok" "ok \<Longrightarrow> into' = patch 0 data into"
    using assms(1) by (rule read_okE) blast
  have l: "length ws = n" using assms(2) by (simp add: all_valid_def)
  show ?thesis
    by (rule read_okI [of _ ok into' "ws[i := s]"])
      (use r assms l in \<open>simp_all add: nth_read_def all_valid_update all_conts_update others_def,
        simp_all add: all_conts_def\<close>)
qed

lemma nth_write_ok:
  assumes "write_ok (v i) (c i) rel (ws ! i) A d (f (ws ! i))"
    and "all_valid n v ws" and "others i (all_conts n c ws) = F" and "i < n"
  shows "write_ok (\<lambda>ws. all_valid n v ws \<and> others i (all_conts n c ws) = F)
    (\<lambda>ws. all_conts n c ws ! i) rel ws A d (nth_write i f ws)"
proof -
  obtain ok s where r: "f (ws ! i) = Some (ok, s)" "v i s" "rel \<Longrightarrow> ok"
    "same_except A (c i (ws ! i)) (c i s)" "ok \<Longrightarrow> c i s = d"
    using assms(1) by (rule write_okE) blast
  have l: "length ws = n" using assms(2) by (simp add: all_valid_def)
  show ?thesis
    by (rule write_okI [of _ ok "ws[i := s]"])
      (use r assms l in \<open>simp_all add: nth_write_def all_valid_update all_conts_update others_def,
        simp_all add: all_conts_def\<close>)
qed

lemma nth_run_ok:
  assumes "keeps (v i) (c i) (ws ! i) (f (ws ! i))"
    and "all_valid n v ws" and "others i (all_conts n c ws) = F" and "i < n"
  shows "keeps (\<lambda>ws. all_valid n v ws \<and> others i (all_conts n c ws) = F)
    (\<lambda>ws. all_conts n c ws ! i) ws (nth_run i f ws)"
proof -
  obtain s where r: "f (ws ! i) = Some s" "v i s" "c i s = c i (ws ! i)"
    using assms(1) by (rule keepsE)
  have l: "length ws = n" using assms(2) by (simp add: all_valid_def)
  show ?thesis
    by (rule keepsI [of _ "ws[i := s]"])
      (use r assms l in \<open>simp_all add: nth_run_def all_valid_update all_conts_update others_def,
        simp_all add: all_conts_def\<close>)
qed

lemma all_conts_nth [simp]: "i < n \<Longrightarrow> all_conts n c ws ! i = c i (ws ! i)"
  by (simp add: all_conts_def)

lemma nth_device:
  assumes d: "block_device d (v i) (c i) rel" and "i < n"
  shows "block_device (nth_dev i d) (\<lambda>ws. all_valid n v ws \<and> others i (all_conts n c ws) = F)
    (\<lambda>ws. all_conts n c ws ! i) rel"
proof -
  note rw = block_device.axioms(1) [OF d]
  have v: "v i (ws ! i)" if "all_valid n v ws" for ws using that assms(2) by (simp add: all_valid_def)
  show ?thesis
  proof (unfold_locales, goal_cases)
    case (1 ws) then show ?case
      using block_rw.geometry [OF rw v, of ws] by (simp add: nth_dev_def)
  next
    case (2 ws) then show ?case
      using block_rw.contents [OF rw v, of ws] assms(2) by (simp add: nth_dev_def)
  next
    case (3 ws w into)
    then have "read_ok (v i) (c i) rel (ws ! i) into (c i (ws ! i) ! unat w) (read_block d (ws ! i) w into)"
      by (intro block_rw.read_law [OF rw]) (simp_all add: v nth_dev_def)
    from nth_read_ok [where f = "\<lambda>s. read_block d s w into" and v = v and c = c, OF this, of n F] 3 assms(2)
    show ?case by (simp add: nth_dev_def)
  next
    case (4 ws w "from")
    then have "write_ok (v i) (c i) rel (ws ! i) {unat w}
        ((c i (ws ! i))[unat w := take (unat (block_size d)) from]) (write_block d (ws ! i) w from)"
      by (intro block_rw.write_law [OF rw]) (simp_all add: v nth_dev_def)
    from nth_write_ok [where f = "\<lambda>s. write_block d s w from" and v = v and c = c, OF this, of n F] 4 assms(2)
    show ?case by (simp add: nth_dev_def)
  next
    case (5 ws start len into)
    then have "read_ok (v i) (c i) rel (ws ! i) into (take (unat len) (drop (unat start) (concat (c i (ws ! i)))))
        (read_bytes d (ws ! i) start len into)"
      by (intro block_device.read_bytes_law [OF d]) (simp_all add: v nth_dev_def)
    from nth_read_ok [where f = "\<lambda>s. read_bytes d s start len into" and v = v and c = c, OF this, of n F] 5 assms(2)
    show ?case by (simp add: nth_dev_def)
  next
    case (6 ws start len "from")
    then have "write_ok (v i) (c i) rel (ws ! i) (touched (unat (block_size d)) (unat start) (unat len))
        (write_at (unat (block_size d)) (unat start) (take (unat len) from) (c i (ws ! i)))
        (write_bytes d (ws ! i) start len from)"
      by (intro block_device.write_bytes_law [OF d]) (simp_all add: v nth_dev_def)
    from nth_write_ok [where f = "\<lambda>s. write_bytes d s start len from" and v = v and c = c, OF this, of n F] 6 assms(2)
    show ?case by (simp add: nth_dev_def)
  next
    case (7 ws)
    then have "keeps (v i) (c i) (ws ! i) (clear_caches d (ws ! i))"
      by (intro block_device.clear_caches_law [OF d]) (simp add: v)
    from nth_run_ok [where f = "clear_caches d" and v = v and c = c, OF this, of n F] 7 assms(2)
    show ?case by (simp add: nth_dev_def)
  next
    case (8 ws)
    then have "keeps (v i) (c i) (ws ! i) (flush d (ws ! i))"
      by (intro block_device.flush_law [OF d]) (simp add: v)
    from nth_run_ok [where f = "flush d" and v = v and c = c, OF this, of n F] 8 assms(2)
    show ?case by (simp add: nth_dev_def)
  next
    case (9 ws)
    then have "keeps (v i) (c i) (ws ! i) (sync d (ws ! i))"
      by (intro block_device.sync_law [OF d]) (simp add: v)
    from nth_run_ok [where f = "sync d" and v = v and c = c, OF this, of n F] 9 assms(2)
    show ?case by (simp add: nth_dev_def)
  qed
qed

lemma independent_array:
  assumes "\<And>i. i < length ds \<Longrightarrow> block_device (ds ! i) (v i) (c i) (rel i)"
  shows "device_array (independent ds) (all_valid (length ds) v) (all_conts (length ds) c) rel"
proof (rule device_array.intro)
  fix st assume "all_valid (length ds) v st"
  show "length (all_conts (length ds) c st) = length (independent ds)"
    by (simp add: all_conts_def independent_def)
next
  fix i F assume "i < length (independent ds)"
  then have i: "i < length ds" by (simp add: independent_def)
  have "independent ds ! i = nth_dev i (ds ! i)" using i by (simp add: independent_def)
  then show "block_device (independent ds ! i)
      (\<lambda>st. all_valid (length ds) v st \<and> others i (all_conts (length ds) c st) = F)
      (\<lambda>st. all_conts (length ds) c st ! i) (rel i)"
    using nth_device [where v = v and c = c, OF assms [OF i] i, of F] by simp
qed

interpretation ram_array: device_array "independent (replicate n (malloc_dev bs bc))"
  "all_valid n (\<lambda>_. mem_valid bs bc)" "all_conts n (\<lambda>_. mem_cont bs bc)" "\<lambda>_. True" for n bs bc
  using independent_array [of "replicate n (malloc_dev bs bc)" "\<lambda>_. mem_valid bs bc" "\<lambda>_. mem_cont bs bc" "\<lambda>_. True"]
    malloc.block_device_axioms [of bs bc] by simp

text \<open>Memory devices side by side, for evaluation.\<close>

definition ram_devs :: "nat \<Rightarrow> u64 \<Rightarrow> u64 \<Rightarrow> unit mem_state list bdev list" where
  "ram_devs n bs bc = independent (replicate n (malloc_dev bs bc))"

lemma ram_devs_nth: "i < n \<Longrightarrow> ram_devs n bs bc ! i = nth_dev i (malloc_dev bs bc)"
  by (simp add: ram_devs_def independent_def)

lemma length_ram_devs [simp]: "length (ram_devs n bs bc) = n"
  by (simp add: ram_devs_def independent_def)

lemma ram_devs_geometry [simp]:
  "i < n \<Longrightarrow> block_size (ram_devs n bs bc ! i) = bs"
  "i < n \<Longrightarrow> block_count (ram_devs n bs bc ! i) = bc"
  by (simp_all add: ram_devs_nth nth_dev_def malloc_dev_def)

abbreviation ram_valid_all :: "nat \<Rightarrow> u64 \<Rightarrow> u64 \<Rightarrow> unit mem_state list \<Rightarrow> bool" where
  "ram_valid_all n bs bc \<equiv> all_valid n (\<lambda>_. mem_valid bs bc)"

abbreviation ram_conts :: "nat \<Rightarrow> u64 \<Rightarrow> u64 \<Rightarrow> unit mem_state list \<Rightarrow> bytes list list" where
  "ram_conts n bs bc \<equiv> all_conts n (\<lambda>_. mem_cont bs bc)"

lemma ram_devs_array: "device_array (ram_devs n bs bc) (ram_valid_all n bs bc) (ram_conts n bs bc) (\<lambda>_. True)"
  unfolding ram_devs_def by (rule ram_array.device_array_axioms)

lemma ram_devs_valid:
  assumes "0 < unat bs" and "unat bs * unat bc < 2 ^ 64" and "length ds = n"
    and "\<And>d. d \<in> set ds \<Longrightarrow> length d = unat bs * unat bc"
  shows "ram_valid_all n bs bc (map (ram bs) ds)"
  using assms by (auto simp: all_valid_def intro!: ram_valid)

lemma block_at_whole: "bs * n = length buf \<Longrightarrow> n = 1 \<Longrightarrow> block_at bs buf 0 = buf"
  by (simp add: block_at_def)

end
