(* ===== verification/Concat.thy ===== *)
theory Concat
  imports Devices
begin

text \<open>
  \<open>src/src/layers/concat.c\<close>: the devices of a list laid end to end. The layer remembers
  which device served the last block (\<open>last\<close>, \<open>last_offset\<close>, \<open>last_len\<close>); the
  invariant is that this cache names a device and the range it covers. The contents are the
  concatenation of the contents.
\<close>

section \<open>The layer\<close>

record concat_io =
  io_last :: nat
  io_last_offset :: u64
  io_last_len :: u64

type_synonym 's concat_state = "concat_io obj \<times> 's"

primrec concat_find_loop ::
  "'s bdev list \<Rightarrow> nat \<Rightarrow> u64 \<Rightarrow> u64 \<Rightarrow> concat_io \<Rightarrow> bool \<times> concat_io" where
  "concat_find_loop [] i block offset io = (False, io)"
| "concat_find_loop (d # ds) i block offset io =
    (if block_count d > block
     then (True, \<lparr>io_last = i, io_last_offset = offset, io_last_len = block_count d\<rparr>)
     else concat_find_loop ds (Suc i) (block - block_count d) (offset + block_count d) io)"

definition concat_find :: "'s bdev list \<Rightarrow> concat_io \<Rightarrow> u64 \<Rightarrow> bool \<times> concat_io" where
  "concat_find devs io block =
    (if io_last_offset io \<le> block \<and> block < io_last_offset io + io_last_len io then (True, io)
     else concat_find_loop devs 0 block 0 io)"

definition concat_read_block :: "'s bdev list \<Rightarrow> u64 \<Rightarrow> 's concat_state block_read" where
  "concat_read_block devs bc st which into = do {
     c_assert (which < bc);
     let (found, io) = concat_find devs (obj_m (fst st)) which;
     c_assert found;
     d \<leftarrow> c_index devs (io_last io);
     (ok, into, s) \<leftarrow> read_block d (snd st) (which - io_last_offset io) into;
     Some (ok, into, ((fst st)\<lparr>obj_m := io\<rparr>, s)) }"

definition concat_write_block :: "'s bdev list \<Rightarrow> u64 \<Rightarrow> 's concat_state src_write" where
  "concat_write_block devs bc st which from = do {
     c_assert (which < bc);
     let (found, io) = concat_find devs (obj_m (fst st)) which;
     c_assert found;
     d \<leftarrow> c_index devs (io_last io);
     (ok, s) \<leftarrow> write_block d (snd st) (which - io_last_offset io) (deref (fst st) from);
     Some (ok, ((fst st)\<lparr>obj_m := io\<rparr>, s)) }"

definition concat_read_bytes ::
  "'s bdev list \<Rightarrow> u64 \<Rightarrow> u64 \<Rightarrow> 's concat_state \<Rightarrow> u64 \<Rightarrow> u64 \<Rightarrow> bytes \<Rightarrow>
   (bool \<times> bytes \<times> 's concat_state) run" where
  "concat_read_bytes devs bs bc = generic_read_bytes bs bc (concat_read_block devs bc)"

definition concat_write_bytes ::
  "'s bdev list \<Rightarrow> u64 \<Rightarrow> u64 \<Rightarrow> 's concat_state \<Rightarrow> u64 \<Rightarrow> u64 \<Rightarrow> bytes \<Rightarrow>
   (bool \<times> 's concat_state) run" where
  "concat_write_bytes devs bs bc =
    generic_write_bytes bs bc (concat_read_block devs bc) (concat_write_block devs bc)"

definition concat_close :: "'s concat_state \<Rightarrow> 's run" where
  "concat_close st = Some (snd st)"

text \<open>A maintenance operation on the devices below.\<close>

definition below :: "('s \<Rightarrow> 's run) \<Rightarrow> 'm obj \<times> 's \<Rightarrow> ('m obj \<times> 's) run" where
  "below op st = do { s \<leftarrow> op (snd st); Some (fst st, s) }"

definition concat_clear_caches :: "'s bdev list \<Rightarrow> 's concat_state \<Rightarrow> 's concat_state run" where
  "concat_clear_caches devs st = below (each_device clear_caches devs) st"

definition concat_flush :: "'s bdev list \<Rightarrow> 's concat_state \<Rightarrow> 's concat_state run" where
  "concat_flush devs st = below (each_device flush devs) st"

definition concat_sync :: "'s bdev list \<Rightarrow> 's concat_state \<Rightarrow> 's concat_state run" where
  "concat_sync devs st = do {
     st \<leftarrow> concat_flush devs st;
     below (each_device sync devs) st }"

definition concat_dev :: "'s bdev list \<Rightarrow> u64 \<Rightarrow> u64 \<Rightarrow> 's concat_state bdev" where
  "concat_dev devs bs bc =
    \<lparr>block_size = bs, block_count = bc,
     read_bytes = concat_read_bytes devs bs bc, write_bytes = concat_write_bytes devs bs bc,
     read_block = concat_read_block devs bc,
     write_block = (\<lambda>st which from. concat_write_block devs bc st which (Ext from)),
     clear_caches = concat_clear_caches devs, flush = concat_flush devs, sync = concat_sync devs\<rparr>"

definition concat_open ::
  "allocator \<Rightarrow> 's bdev list \<Rightarrow> ('s concat_state bdev \<times> concat_io obj) option run" where
  "concat_open alloc devices = do {
     c_assert (0 < length devices);
     let bs = block_size (devices ! 0);
     if \<not> list_all (\<lambda>d. block_size d = bs) (tl devices) then Some None
     else do {
       g \<leftarrow> alloc (unat bs);
       let bc = foldl (\<lambda>n d. n + block_count d) 0 devices;
       Some (Some (concat_dev devices bs bc,
         \<lparr>generic_block_buffer = g,
          obj_m = \<lparr>io_last = 0, io_last_offset = 0, io_last_len = block_count (devices ! 0)\<rparr>\<rparr>)) } }"

section \<open>Finding the device of a block\<close>

text \<open>The number of blocks before device \<open>j\<close>.\<close>

definition blocks_before :: "'s bdev list \<Rightarrow> nat \<Rightarrow> nat" where
  "blocks_before devs j = sum_list (map (\<lambda>d. unat (block_count d)) (take j devs))"

definition total_blocks :: "'s bdev list \<Rightarrow> nat" where
  "total_blocks devs = sum_list (map (\<lambda>d. unat (block_count d)) devs)"

text \<open>The cache names device \<open>last\<close> and the blocks it holds.\<close>

definition find_ok :: "'s bdev list \<Rightarrow> concat_io \<Rightarrow> bool" where
  "find_ok devs io \<longleftrightarrow> io_last io < length devs \<and>
     unat (io_last_offset io) = blocks_before devs (io_last io) \<and>
     io_last_len io = block_count (devs ! io_last io)"

lemma blocks_before_simps [simp]:
  "blocks_before devs 0 = 0"
  "blocks_before (d # ds) (Suc j) = unat (block_count d) + blocks_before ds j"
  by (simp_all add: blocks_before_def)

lemma blocks_before_le:
  "j < length devs \<Longrightarrow> blocks_before devs j + unat (block_count (devs ! j)) \<le> total_blocks devs"
proof (induction devs arbitrary: j)
  case (Cons d ds)
  then show ?case by (cases j) (auto simp: total_blocks_def)
qed simp

lemma concat_find_loop_ok:
  assumes "unat block < total_blocks ds" and "unat offset + total_blocks ds < 2 ^ 64"
  shows "\<exists>j off. concat_find_loop ds i block offset io =
      (True, \<lparr>io_last = i + j, io_last_offset = off, io_last_len = block_count (ds ! j)\<rparr>) \<and>
    j < length ds \<and> unat off = unat offset + blocks_before ds j \<and>
    blocks_before ds j \<le> unat block \<and>
    unat block < blocks_before ds j + unat (block_count (ds ! j))"
  using assms
proof (induction ds arbitrary: i block offset)
  case (Cons d ds)
  show ?case
  proof (cases "block_count d > block")
    case True
    then show ?thesis by (auto simp: word_less_nat_alt intro!: exI [of _ 0])
  next
    case False
    have o': "unat (offset + block_count d) = unat offset + unat (block_count d)"
      using Cons.prems(2) by (intro unat_add_u64) (simp add: total_blocks_def)
    have b': "unat (block - block_count d) = unat block - unat (block_count d)"
      using False by (simp add: unat_sub_u64 not_less)
    have le: "unat (block_count d) \<le> unat block" using False by (simp add: not_less word_le_nat_alt)
    have "unat (block - block_count d) < total_blocks ds"
      using Cons.prems(1) le by (simp add: b' total_blocks_def)
    moreover have "unat (offset + block_count d) + total_blocks ds < 2 ^ 64"
      using Cons.prems(2) by (simp add: o' total_blocks_def)
    ultimately obtain j off where j: "concat_find_loop ds (Suc i) (block - block_count d) (offset + block_count d) io =
        (True, \<lparr>io_last = Suc i + j, io_last_offset = off, io_last_len = block_count (ds ! j)\<rparr>)"
      "j < length ds" "unat off = unat (offset + block_count d) + blocks_before ds j"
      "blocks_before ds j \<le> unat (block - block_count d)"
      "unat (block - block_count d) < blocks_before ds j + unat (block_count (ds ! j))"
      using Cons.IH by blast
    then show ?thesis
      using False le by (intro exI [of _ "Suc j"] exI [of _ off]) (auto simp: o' b')
  qed
qed (simp add: total_blocks_def)

lemma concat_find_ok:
  assumes "find_ok devs io" and "total_blocks devs < 2 ^ 64" and "unat block < total_blocks devs"
  obtains io' where "concat_find devs io block = (True, io')" "find_ok devs io'"
    "io_last_offset io' \<le> block" "unat block < unat (io_last_offset io') + unat (io_last_len io')"
proof (cases "io_last_offset io \<le> block \<and> block < io_last_offset io + io_last_len io")
  case True
  have "unat (io_last_offset io) + unat (io_last_len io) < 2 ^ 64"
    using assms(1,2) blocks_before_le [of "io_last io" devs] by (simp add: find_ok_def)
  with True have "unat block < unat (io_last_offset io) + unat (io_last_len io)"
    by (simp add: word_less_nat_alt unat_add_u64)
  with True assms(1) show thesis by (intro that) (auto simp: concat_find_def)
next
  case False
  obtain j off where "concat_find_loop devs 0 block 0 io =
      (True, \<lparr>io_last = 0 + j, io_last_offset = off, io_last_len = block_count (devs ! j)\<rparr>)"
    "j < length devs" "unat off = unat (0 :: u64) + blocks_before devs j" "blocks_before devs j \<le> unat block"
    "unat block < blocks_before devs j + unat (block_count (devs ! j))"
    using concat_find_loop_ok [of block devs 0 0 io] assms(2,3) by auto
  then show thesis
    using False by (intro that) (auto simp: concat_find_def find_ok_def word_le_nat_alt)
qed

section \<open>The concatenation keeps the contract\<close>

definition concat_valid ::
  "'s bdev list \<Rightarrow> u64 \<Rightarrow> u64 \<Rightarrow> ('s \<Rightarrow> bool) \<Rightarrow> 's concat_state \<Rightarrow> bool" where
  "concat_valid devs bs bc valid st \<longleftrightarrow>
     0 < unat bs \<and> unat bs * unat bc < 2 ^ 64 \<and> total_blocks devs = unat bc \<and>
     list_all (\<lambda>d. block_size d = bs) devs \<and>
     length (generic_block_buffer (fst st)) = unat bs \<and>
     find_ok devs (obj_m (fst st)) \<and> valid (snd st)"

definition concat_cont :: "('s \<Rightarrow> bytes list list) \<Rightarrow> 's concat_state \<Rightarrow> bytes list" where
  "concat_cont conts st = concat (conts (snd st))"

context device_array
begin

lemma offs_blocks_before:
  assumes "valid st" and "j \<le> length devs"
  shows "offs (conts st) j = blocks_before devs j"
proof -
  have "map length (take j (conts st)) = map (\<lambda>d. unat (block_count d)) (take j devs)"
    using assms conts_length [OF assms(1)] dev_geometry(3) [OF assms(1)]
    by (intro nth_equalityI) auto
  then show ?thesis by (simp add: offs_def blocks_before_def)
qed

lemma concat_found:
  assumes "concat_valid devs bs bc valid st" and "w < bc"
  obtains io j k where "concat_find devs (obj_m (fst st)) w = (True, io)" "find_ok devs io"
    "io_last io = j" "j < length devs" "k < block_count (devs ! j)" "k = w - io_last_offset io"
    "unat w = offs (conts (snd st)) j + unat k"
    "j < length (conts (snd st))" "unat k < length (conts (snd st) ! j)"
proof -
  have v: "valid (snd st)" and f: "find_ok devs (obj_m (fst st))" and t: "total_blocks devs = unat bc"
    using assms(1) by (simp_all add: concat_valid_def)
  have "total_blocks devs < 2 ^ 64" using unat_u64_bound [of bc] t by simp
  moreover have "unat w < total_blocks devs" using assms(2) t by (simp add: word_less_nat_alt)
  ultimately obtain io where io: "concat_find devs (obj_m (fst st)) w = (True, io)" "find_ok devs io"
    "io_last_offset io \<le> w" "unat w < unat (io_last_offset io) + unat (io_last_len io)"
    using concat_find_ok [OF f] by blast
  define j where "j = io_last io"
  have j: "j < length devs" "unat (io_last_offset io) = blocks_before devs j"
    "io_last_len io = block_count (devs ! j)"
    using io(2) by (simp_all add: find_ok_def j_def)
  have k: "unat (w - io_last_offset io) = unat w - blocks_before devs j"
    "blocks_before devs j \<le> unat w"
    using io(3) j(2) by (simp_all add: unat_sub_u64 word_le_nat_alt)
  have kl: "w - io_last_offset io < block_count (devs ! j)"
    using io(4) j(2,3) k by (simp add: word_less_nat_alt)
  show thesis
  proof (rule that [OF io(1,2) _ j(1) kl refl])
    show "unat w = offs (conts (snd st)) j + unat (w - io_last_offset io)"
      using k offs_blocks_before [OF v, of j] j(1) by simp
  qed (use j kl conts_length [OF v] dev_geometry(3) [OF v j(1)] in \<open>simp_all add: j_def word_less_nat_alt\<close>)
qed

lemma concat_next:
  assumes "concat_valid devs bs bc valid st" and "find_ok devs io" and "valid s"
  shows "concat_valid devs bs bc valid ((fst st)\<lparr>obj_m := io\<rparr>, s)"
  using assms by (simp add: concat_valid_def)

lemma devs_block_size:
  "concat_valid devs bs bc valid st \<Longrightarrow> j < length devs \<Longrightarrow> block_size (devs ! j) = bs"
  by (simp add: concat_valid_def list_all_length)

lemma concat_read_block_ok:
  assumes v: "concat_valid devs bs bc valid st" and w: "w < bc" and l: "unat bs \<le> length into"
  shows "read_ok (concat_valid devs bs bc valid) (concat_cont conts) (\<forall>i < length devs. rel i) st into
    (concat_cont conts st ! unat w) (concat_read_block devs bc st w into)"
proof -
  obtain io j k where f: "concat_find devs (obj_m (fst st)) w = (True, io)" "find_ok devs io"
    "io_last io = j" "j < length devs" "k < block_count (devs ! j)" "k = w - io_last_offset io"
    "unat w = offs (conts (snd st)) j + unat k"
    "j < length (conts (snd st))" "unat k < length (conts (snd st) ! j)"
    by (rule concat_found [OF v w]) blast
  have vs: "valid (snd st)" using v by (simp add: concat_valid_def)
  have "read_ok valid conts (rel j) (snd st) into (conts (snd st) ! j ! unat k) (read_block (devs ! j) (snd st) k into)"
    using dev_read [OF vs f(4,5)] devs_block_size [OF v f(4)] l by simp
  then obtain ok into' s where r: "read_block (devs ! j) (snd st) k into = Some (ok, into', s)" "valid s"
    "conts s = conts (snd st)" "length into' = length into" "rel j \<Longrightarrow> ok"
    "ok \<Longrightarrow> into' = patch 0 (conts (snd st) ! j ! unat k) into"
    by (rule read_okE) blast
  show ?thesis
  proof (rule read_okI)
    show "concat_read_block devs bc st w into = Some (ok, into', ((fst st)\<lparr>obj_m := io\<rparr>, s))"
      using w f(1,3,4) r(1) by (simp add: concat_read_block_def f(6) [symmetric])
    show "ok \<Longrightarrow> into' = patch 0 (concat_cont conts st ! unat w) into"
      using r(6) nth_concat_offs(1) [OF f(8,9)] by (simp add: concat_cont_def f(7))
  qed (use r f v in \<open>simp_all add: concat_next concat_cont_def\<close>)
qed

lemma concat_write_block_ok:
  assumes v: "concat_valid devs bs bc valid st" and w: "w < bc"
    and l: "unat bs \<le> length (deref (fst st) from)"
  shows "write_ok (concat_valid devs bs bc valid) (concat_cont conts) (\<forall>i < length devs. rel i) st {unat w}
    ((concat_cont conts st)[unat w := take (unat bs) (deref (fst st) from)])
    (concat_write_block devs bc st w from)"
proof -
  obtain io j k where f: "concat_find devs (obj_m (fst st)) w = (True, io)" "find_ok devs io"
    "io_last io = j" "j < length devs" "k < block_count (devs ! j)" "k = w - io_last_offset io"
    "unat w = offs (conts (snd st)) j + unat k"
    "j < length (conts (snd st))" "unat k < length (conts (snd st) ! j)"
    by (rule concat_found [OF v w]) blast
  have vs: "valid (snd st)" using v by (simp add: concat_valid_def)
  obtain ok s b where r: "write_block (devs ! j) (snd st) k (deref (fst st) from) = Some (ok, s)" "valid s"
    "rel j \<Longrightarrow> ok" "conts s = (conts (snd st))[j := (conts (snd st) ! j)[unat k := b]]"
    "ok \<Longrightarrow> b = take (unat bs) (deref (fst st) from)"
    using dev_write [OF vs f(4,5), of "deref (fst st) from", unfolded devs_block_size [OF v f(4)], OF l]
    by blast
  have c: "concat_cont conts ((fst st)\<lparr>obj_m := io\<rparr>, s) = (concat_cont conts st)[unat w := b]"
    unfolding concat_cont_def f(7) using update_concat_offs [OF f(8,9), of b] r(4) by simp
  show ?thesis
  proof (rule write_okI)
    show "concat_write_block devs bc st w from = Some (ok, ((fst st)\<lparr>obj_m := io\<rparr>, s))"
      using w f(1,3,4) r(1) by (simp add: concat_write_block_def f(6) [symmetric])
    show "same_except {unat w} (concat_cont conts st) (concat_cont conts ((fst st)\<lparr>obj_m := io\<rparr>, s))"
      unfolding c by (rule same_except_update) simp
  qed (use r f v c in \<open>simp_all add: concat_next\<close>)
qed

lemma concat_generic:
  "generic_dev bs bc (concat_read_block devs bc) (concat_write_block devs bc)
    (concat_valid devs bs bc valid) (concat_cont conts) (\<forall>i < length devs. rel i)"
proof (unfold_locales, goal_cases)
  case (1 st) then show ?case by (simp add: concat_valid_def)
next
  case (2 st)
  then have v: "valid (snd st)" and t: "total_blocks devs = unat bc"
    and bs: "list_all (\<lambda>d. block_size d = bs) devs" by (simp_all add: concat_valid_def)
  have "map length (conts (snd st)) = map (\<lambda>d. unat (block_count d)) devs"
    using conts_length [OF v] dev_geometry(3) [OF v] by (intro nth_equalityI) auto
  then have "length (concat (conts (snd st))) = unat bc"
    by (simp add: length_concat total_blocks_def flip: t)
  moreover have "blocked (unat bs) c" if "c \<in> set (conts (snd st))" for c
    using that conts_length [OF v] dev_geometry(4) [OF v] bs
    by (auto simp: in_set_conv_nth list_all_length)
  then have "blocked (unat bs) (concat (conts (snd st)))" by (auto simp: blocked_def)
  ultimately show ?case by (simp add: concat_cont_def)
next
  case (3 st w into) then show ?case by (intro concat_read_block_ok)
next
  case (4 st w "from") then show ?case using concat_write_block_ok [of bs bc st w "Ext from"] by simp
next
  case (8 st w) then show ?case
    using concat_write_block_ok [of bs bc st w Own] by (simp add: concat_valid_def)
qed (simp_all add: concat_valid_def concat_cont_def set_buffer_def)

lemma below_keeps:
  assumes "keeps valid conts (snd st) (op (snd st))" and "concat_valid devs bs bc valid st"
  shows "keeps (concat_valid devs bs bc valid) (concat_cont conts) st (below op st)"
proof -
  obtain s where "op (snd st) = Some s" "valid s" "conts s = conts (snd st)"
    using assms(1) by (rule keepsE)
  then show ?thesis
    using assms(2) by (intro keepsI [of _ "(fst st, s)"]) (simp_all add: below_def concat_valid_def concat_cont_def)
qed

lemma concat_maintenance:
  assumes "concat_valid devs bs bc valid st"
  shows "keeps (concat_valid devs bs bc valid) (concat_cont conts) st (concat_clear_caches devs st)"
    "keeps (concat_valid devs bs bc valid) (concat_cont conts) st (concat_flush devs st)"
    "keeps (concat_valid devs bs bc valid) (concat_cont conts) st (concat_sync devs st)"
proof -
  have v: "valid (snd st)" using assms by (simp add: concat_valid_def)
  show "keeps (concat_valid devs bs bc valid) (concat_cont conts) st (concat_clear_caches devs st)"
    unfolding concat_clear_caches_def by (rule below_keeps [where op = "each_device clear_caches devs", OF each_keeps(1) [OF v] assms])
  show fl: "keeps (concat_valid devs bs bc valid) (concat_cont conts) st (concat_flush devs st)"
    unfolding concat_flush_def by (rule below_keeps [where op = "each_device flush devs", OF each_keeps(2) [OF v] assms])
  then obtain st' where st': "concat_flush devs st = Some st'" "concat_valid devs bs bc valid st'"
    "concat_cont conts st' = concat_cont conts st" by (rule keepsE)
  then have "valid (snd st')" by (simp add: concat_valid_def)
  from below_keeps [where op = "each_device sync devs", OF each_keeps(3) [OF this] st'(2)]
  show "keeps (concat_valid devs bs bc valid) (concat_cont conts) st (concat_sync devs st)"
    using st' by (simp add: concat_sync_def keeps_def)
qed

lemma concat_device:
  "block_device (concat_dev devs bs bc) (concat_valid devs bs bc valid) (concat_cont conts)
    (\<forall>i < length devs. rel i)"
  by (rule generic_dev.whole_device [OF concat_generic])
    (simp_all add: concat_dev_def concat_read_bytes_def concat_write_bytes_def concat_maintenance)

end

lemma concat_open_count:
  "unat (n :: u64) + total_blocks devs < 2 ^ 64 \<Longrightarrow>
    unat (foldl (\<lambda>n d. n + block_count d) n devs) = unat n + total_blocks devs"
proof (induction devs arbitrary: n)
  case (Cons d ds)
  have "unat (n + block_count d) = unat n + unat (block_count d)"
    using Cons.prems by (intro unat_add_u64) (simp add: total_blocks_def)
  with Cons show ?case by (simp add: total_blocks_def)
qed (simp add: total_blocks_def)

lemma concat_open_ok:
  assumes "alloc_ok alloc" and "concat_open alloc devs = Some (Some (dev, obj))"
    and "0 < unat (block_size (hd devs))"
    and "unat (block_size (hd devs)) * total_blocks devs < 2 ^ 64" and "valid s"
  shows "dev = concat_dev devs (block_size dev) (block_count dev)"
    "concat_valid devs (block_size dev) (block_count dev) valid (obj, s)"
    "unat (block_count dev) = total_blocks devs"
proof -
  obtain d ds where devs: "devs = d # ds" using assms(2) by (cases devs) (auto simp: concat_open_def)
  have B: "0 < unat (block_size d)" "unat (block_size d) * total_blocks devs < 2 ^ 64"
    using assms(3,4) devs by simp_all
  have "total_blocks devs \<le> unat (block_size d) * total_blocks devs" using B(1) by simp
  then have "total_blocks devs < 2 ^ 64" using B(2) by linarith
  then have t: "unat (foldl (\<lambda>n d. n + block_count d) 0 devs) = total_blocks devs"
    using concat_open_count [of 0 devs] by simp
  have bs: "list_all (\<lambda>e. block_size e = block_size d) ds"
    using assms(2) by (auto simp: concat_open_def devs Let_def split: if_splits)
  obtain g where g: "alloc (unat (block_size d)) = Some g"
    "dev = concat_dev devs (block_size d) (foldl (\<lambda>n d. n + block_count d) 0 devs)"
    "obj = \<lparr>generic_block_buffer = g,
      obj_m = \<lparr>io_last = 0, io_last_offset = 0, io_last_len = block_count d\<rparr>\<rparr>"
    using assms(2) bs by (cases "alloc (unat (block_size d))") (auto simp: concat_open_def devs Let_def)
  have geo: "block_size dev = block_size d" "block_count dev = foldl (\<lambda>n d. n + block_count d) 0 devs"
    using g(2) by (simp_all add: concat_dev_def)
  show "dev = concat_dev devs (block_size dev) (block_count dev)" unfolding geo by (rule g(2))
  show "unat (block_count dev) = total_blocks devs" unfolding geo by (rule t)
  show "concat_valid devs (block_size dev) (block_count dev) valid (obj, s)"
    unfolding geo concat_valid_def t
    using B bs assms(5) alloc_okD [OF assms(1) g(1)] by (simp add: g(3) devs find_ok_def)
qed

section \<open>Properties\<close>

text \<open>C3: A concatenation that opens keeps the whole contract, with the contents of the devices
  laid end to end as its contents; it is reliable when all of them are. In particular the
  assertions on \<open>concat_find\<close> never fail and the cached device is always the right one.\<close>
theorem concat_open_device:
  assumes "device_array devs valid conts rel" and "valid s" and "alloc_ok alloc"
    and "concat_open alloc devs = Some (Some (dev, obj))"
    and "0 < unat (block_size (hd devs))" and "unat (block_size (hd devs)) * total_blocks devs < 2 ^ 64"
  shows "block_device dev (concat_valid devs (block_size dev) (block_count dev) valid) (concat_cont conts)
      (\<forall>i < length devs. rel i) \<and>
    concat_valid devs (block_size dev) (block_count dev) valid (obj, s) \<and>
    unat (block_count dev) = total_blocks devs"
  using concat_open_ok [where valid = valid and s = s, OF assms(3,4,5,6,2)]
    device_array.concat_device [OF assms(1)] by metis

theorem concat_open_device_witness:
  "\<exists>dev obj. concat_open calloc_alloc (ram_devs 2 4 3) = Some (Some (dev, obj)) \<and>
    block_device dev (concat_valid (ram_devs 2 4 3) 4 6 (ram_valid_all 2 4 3)) (concat_cont (ram_conts 2 4 3)) True"
proof -
  let ?ds = "ram_devs 2 4 3" and ?z = "replicate 12 (0 :: u8)"
  have s: "ram_valid_all 2 4 3 (map (ram 4) [?z, ?z])"
    by (rule ram_devs_valid) auto
  have ds: "?ds = [nth_dev 0 (malloc_dev 4 3), nth_dev 1 (malloc_dev 4 3)]"
    by (simp add: ram_devs_def independent_def upt_rec)
  obtain dev obj where dev: "concat_open calloc_alloc ?ds = Some (Some (dev, obj))" "block_size dev = 4" "block_count dev = 6"
    unfolding ds by (simp add: concat_open_def calloc_alloc_def nth_dev_def malloc_dev_def Let_def concat_dev_def)
  have b: "0 < unat (block_size (hd ?ds))" "unat (block_size (hd ?ds)) * total_blocks ?ds < 2 ^ 64"
    unfolding ds by (simp_all add: nth_dev_def malloc_dev_def total_blocks_def)
  from concat_open_device [OF ram_devs_array s calloc_alloc_ok dev(1) b] dev show ?thesis by auto
qed

end
