(* ===== verification/Stripe.thy ===== *)
theory Stripe
  imports Concat
begin

text \<open>
  \<open>src/src/layers/stripe.c\<close>: blocks dealt out to the devices in turn, as in RAID 0. Block
  \<open>which\<close> is block \<open>which / count\<close> of device \<open>which % count\<close>; the longer devices
  are cut to the shortest. The contents interleave the contents of the devices.
\<close>

section \<open>The layer\<close>

type_synonym 's stripe_state = "unit obj \<times> 's"

definition stripe_read_block :: "'s bdev list \<Rightarrow> u64 \<Rightarrow> 's stripe_state block_read" where
  "stripe_read_block devs bc st which into = do {
     c_assert (which < bc);
     device \<leftarrow> c_mod which (of_nat (length devs));
     block \<leftarrow> c_div which (of_nat (length devs));
     d \<leftarrow> c_index devs (unat device);
     (ok, into, s) \<leftarrow> read_block d (snd st) block into;
     Some (ok, into, (fst st, s)) }"

definition stripe_write_block :: "'s bdev list \<Rightarrow> u64 \<Rightarrow> 's stripe_state src_write" where
  "stripe_write_block devs bc st which from = do {
     c_assert (which < bc);
     device \<leftarrow> c_mod which (of_nat (length devs));
     block \<leftarrow> c_div which (of_nat (length devs));
     d \<leftarrow> c_index devs (unat device);
     (ok, s) \<leftarrow> write_block d (snd st) block (deref (fst st) from);
     Some (ok, (fst st, s)) }"

definition stripe_close :: "'s stripe_state \<Rightarrow> 's run" where
  "stripe_close st = Some (snd st)"

definition stripe_clear_caches :: "'s bdev list \<Rightarrow> 's stripe_state \<Rightarrow> 's stripe_state run" where
  "stripe_clear_caches devs st = below (each_device clear_caches devs) st"

definition stripe_flush :: "'s bdev list \<Rightarrow> 's stripe_state \<Rightarrow> 's stripe_state run" where
  "stripe_flush devs st = below (each_device flush devs) st"

definition stripe_sync :: "'s bdev list \<Rightarrow> 's stripe_state \<Rightarrow> 's stripe_state run" where
  "stripe_sync devs st = do {
     st \<leftarrow> stripe_flush devs st;
     below (each_device sync devs) st }"

definition stripe_dev :: "'s bdev list \<Rightarrow> u64 \<Rightarrow> u64 \<Rightarrow> 's stripe_state bdev" where
  "stripe_dev devs bs bc =
    \<lparr>block_size = bs, block_count = bc,
     read_bytes = generic_read_bytes bs bc (stripe_read_block devs bc),
     write_bytes = generic_write_bytes bs bc (stripe_read_block devs bc) (stripe_write_block devs bc),
     read_block = stripe_read_block devs bc,
     write_block = (\<lambda>st which from. stripe_write_block devs bc st which (Ext from)),
     clear_caches = stripe_clear_caches devs, flush = stripe_flush devs, sync = stripe_sync devs\<rparr>"

lemma stripe_dev_geometry [simp]:
  "block_size (stripe_dev devs bs bc) = bs" "block_count (stripe_dev devs bs bc) = bc"
  by (simp_all add: stripe_dev_def)

text \<open>The loop over the drives that computes \<open>min_drive_size\<close>.\<close>

definition min_drive_size :: "'s bdev list \<Rightarrow> u64" where
  "min_drive_size devices =
    foldl (\<lambda>m d. if block_count d < m then block_count d else m) (block_count (devices ! 0)) (tl devices)"

definition stripe_open ::
  "allocator \<Rightarrow> 's bdev list \<Rightarrow> ('s stripe_state bdev \<times> unit obj) option run" where
  "stripe_open alloc devices = do {
     c_assert (0 < length devices);
     let bs = block_size (devices ! 0);
     if \<not> list_all (\<lambda>d. block_size d = bs) (tl devices) then Some None
     else do {
       g \<leftarrow> alloc (unat bs);
       let bc = min_drive_size devices * of_nat (length devices);
       Some (Some (stripe_dev devices bs bc, \<lparr>generic_block_buffer = g, obj_m = ()\<rparr>)) } }"

section \<open>The shortest drive\<close>

lemma min_fold_start:
  "foldl (\<lambda>m d. if block_count d < m then block_count d else m) m ds \<le> m"
proof (induction ds arbitrary: m)
  case (Cons e ds)
  have "(if block_count e < m then block_count e else m) \<le> m" by auto
  from order_trans [OF Cons.IH this] show ?case by (simp only: foldl_Cons)
qed simp

lemma min_fold_mem:
  "d \<in> set ds \<Longrightarrow> foldl (\<lambda>m d. if block_count d < m then block_count d else m) m ds \<le> block_count d"
proof (induction ds arbitrary: m)
  case (Cons e ds)
  show ?case
  proof (cases "d = e")
    case True
    have "(if block_count e < m then block_count e else m) \<le> block_count d" using True by (simp add: not_less)
    from order_trans [OF min_fold_start this] show ?thesis by (simp only: foldl_Cons)
  next
    case False
    with Cons.prems have "d \<in> set ds" by simp
    from Cons.IH [OF this] show ?thesis by (simp only: foldl_Cons)
  qed
qed simp

lemma min_drive_size_le:
  assumes "i < length devs"
  shows "min_drive_size devs \<le> block_count (devs ! i)"
proof (cases i)
  case 0
  with min_fold_start show ?thesis by (simp add: min_drive_size_def)
next
  case (Suc j)
  with assms have "devs ! i = tl devs ! j" "j < length (tl devs)" by (auto simp: nth_tl)
  then have "devs ! i \<in> set (tl devs)" by simp
  from min_fold_mem [OF this] show ?thesis by (simp add: min_drive_size_def)
qed

section \<open>The stripe keeps the contract\<close>

text \<open>Geometry: at least one and fewer than \<open>2 ^ 31\<close> devices (\<open>count\<close> is an
  \<open>int\<close>), all of one block size, and a product that does not wrap around.\<close>

definition array_geometry :: "'s bdev list \<Rightarrow> u64 \<Rightarrow> nat \<Rightarrow> u64 \<Rightarrow> bool" where
  "array_geometry devs bs k bc \<longleftrightarrow>
     devs \<noteq> [] \<and> length devs < 2 ^ 31 \<and> 0 < unat bs \<and> unat bs * unat bc < 2 ^ 64 \<and>
     unat (min_drive_size devs) * k = unat bc \<and> list_all (\<lambda>d. block_size d = bs) devs"

definition stripe_valid ::
  "'s bdev list \<Rightarrow> u64 \<Rightarrow> u64 \<Rightarrow> ('s \<Rightarrow> bool) \<Rightarrow> 's stripe_state \<Rightarrow> bool" where
  "stripe_valid devs bs bc valid st \<longleftrightarrow> array_geometry devs bs (length devs) bc \<and>
     length (generic_block_buffer (fst st)) = unat bs \<and> valid (snd st)"

definition interleave :: "nat \<Rightarrow> nat \<Rightarrow> bytes list list \<Rightarrow> bytes list" where
  "interleave n bc cs = map (\<lambda>w. cs ! (w mod n) ! (w div n)) [0..<bc]"

definition stripe_cont :: "'s bdev list \<Rightarrow> u64 \<Rightarrow> ('s \<Rightarrow> bytes list list) \<Rightarrow> 's stripe_state \<Rightarrow> bytes list" where
  "stripe_cont devs bc conts st = interleave (length devs) (unat bc) (conts (snd st))"

lemma interleave_update:
  assumes "w < bc" and "w mod n < length cs" and "w div n < length (cs ! (w mod n))"
  shows "interleave n bc (cs[w mod n := (cs ! (w mod n))[w div n := b]]) = (interleave n bc cs)[w := b]"
proof (rule nth_equalityI)
  fix v assume "v < length (interleave n bc (cs[w mod n := (cs ! (w mod n))[w div n := b]]))"
  then have v: "v < bc" by (simp add: interleave_def)
  have "v = w" if "v mod n = w mod n" "v div n = w div n"
    using that by (metis div_mult_mod_eq)
  then show "interleave n bc (cs[w mod n := (cs ! (w mod n))[w div n := b]]) ! v = (interleave n bc cs)[w := b] ! v"
    using v assms by (cases "v = w") (auto simp: interleave_def nth_list_update)
qed (simp add: interleave_def)

lemma unat_count: "length devs < 2 ^ 31 \<Longrightarrow> unat (of_nat (length devs) :: u64) = length devs"
  by (simp add: unsigned_of_nat take_bit_nat_eq_self_iff)

lemma stripe_place:
  assumes "array_geometry devs bs (length devs) bc" and "w < bc"
  shows "of_nat (length devs) \<noteq> (0 :: u64)"
    "unat (w mod of_nat (length devs)) = unat w mod length devs"
    "unat (w div of_nat (length devs)) = unat w div length devs"
    "unat w mod length devs < length devs"
    "w div of_nat (length devs) < block_count (devs ! (unat w mod length devs))"
proof -
  have n: "0 < length devs" "length devs < 2 ^ 31" and m: "unat (min_drive_size devs) * length devs = unat bc"
    using assms(1) by (simp_all add: array_geometry_def)
  note u = unat_count [OF n(2)]
  show "of_nat (length devs) \<noteq> (0 :: u64)" using n(1) u by (metis unat_0 less_numeral_extra(3))
  show d: "unat (w div of_nat (length devs)) = unat w div length devs"
    and "unat (w mod of_nat (length devs)) = unat w mod length devs" by (simp_all add: unat_div unat_mod u)
  show l: "unat w mod length devs < length devs" using n(1) by simp
  have "unat w < unat (min_drive_size devs) * length devs"
    using assms(2) m by (simp add: word_less_nat_alt)
  then have "unat w div length devs < unat (min_drive_size devs)" by (rule less_mult_imp_div_less)
  then have "w div of_nat (length devs) < min_drive_size devs" by (simp add: word_less_nat_alt d)
  then show "w div of_nat (length devs) < block_count (devs ! (unat w mod length devs))"
    using min_drive_size_le [OF l] by (rule less_le_trans)
qed

context device_array
begin

lemma geometry_block_size:
  "array_geometry devs bs k bc \<Longrightarrow> i < length devs \<Longrightarrow> block_size (devs ! i) = bs"
  by (simp add: array_geometry_def list_all_length)

lemma stripe_read_block_ok:
  assumes v: "stripe_valid devs bs bc valid st" and w: "w < bc" and l: "unat bs \<le> length into"
  shows "read_ok (stripe_valid devs bs bc valid) (stripe_cont devs bc conts) (\<forall>i < length devs. rel i) st into
    (stripe_cont devs bc conts st ! unat w) (stripe_read_block devs bc st w into)"
proof -
  have g: "array_geometry devs bs (length devs) bc" and vs: "valid (snd st)"
    using v by (simp_all add: stripe_valid_def)
  note p = stripe_place [OF g w]
  let ?j = "unat w mod length devs" and ?k = "w div of_nat (length devs)"
  have "read_ok valid conts (rel ?j) (snd st) into (conts (snd st) ! ?j ! unat ?k) (read_block (devs ! ?j) (snd st) ?k into)"
    using dev_read [OF vs p(4,5)] geometry_block_size [OF g p(4)] l by simp
  then obtain ok into' s where r: "read_block (devs ! ?j) (snd st) ?k into = Some (ok, into', s)" "valid s"
    "conts s = conts (snd st)" "length into' = length into" "rel ?j \<Longrightarrow> ok"
    "ok \<Longrightarrow> into' = patch 0 (conts (snd st) ! ?j ! unat ?k) into"
    by (rule read_okE) blast
  have c: "stripe_cont devs bc conts st ! unat w = conts (snd st) ! ?j ! unat ?k"
    using w p(3) by (simp add: stripe_cont_def interleave_def word_less_nat_alt)
  show ?thesis
  proof (rule read_okI)
    show "stripe_read_block devs bc st w into = Some (ok, into', (fst st, s))"
      using w p r(1) by (simp add: stripe_read_block_def)
  qed (use r p v c in \<open>simp_all add: stripe_valid_def stripe_cont_def\<close>)
qed

lemma stripe_write_block_ok:
  assumes v: "stripe_valid devs bs bc valid st" and w: "w < bc"
    and l: "unat bs \<le> length (deref (fst st) from)"
  shows "write_ok (stripe_valid devs bs bc valid) (stripe_cont devs bc conts) (\<forall>i < length devs. rel i) st {unat w}
    ((stripe_cont devs bc conts st)[unat w := take (unat bs) (deref (fst st) from)])
    (stripe_write_block devs bc st w from)"
proof -
  have g: "array_geometry devs bs (length devs) bc" and vs: "valid (snd st)"
    using v by (simp_all add: stripe_valid_def)
  note p = stripe_place [OF g w]
  let ?j = "unat w mod length devs" and ?k = "w div of_nat (length devs)"
  obtain ok s b where r: "write_block (devs ! ?j) (snd st) ?k (deref (fst st) from) = Some (ok, s)" "valid s"
    "rel ?j \<Longrightarrow> ok" "conts s = (conts (snd st))[?j := (conts (snd st) ! ?j)[unat ?k := b]]"
    "ok \<Longrightarrow> b = take (unat bs) (deref (fst st) from)"
    using dev_write [OF vs p(4,5), of "deref (fst st) from", unfolded geometry_block_size [OF g p(4)], OF l]
    by blast
  have "unat ?k < length (conts (snd st) ! ?j)"
    using p(5) dev_geometry(3) [OF vs p(4)] by (simp add: word_less_nat_alt)
  then have c: "stripe_cont devs bc conts (fst st, s) = (stripe_cont devs bc conts st)[unat w := b]"
    using interleave_update [of "unat w" "unat bc" "length devs" "conts (snd st)" b] w p conts_length [OF vs]
    by (simp add: stripe_cont_def r(4) word_less_nat_alt)
  show ?thesis
  proof (rule write_okI)
    show "stripe_write_block devs bc st w from = Some (ok, (fst st, s))"
      using w p r(1) by (simp add: stripe_write_block_def)
    show "same_except {unat w} (stripe_cont devs bc conts st) (stripe_cont devs bc conts (fst st, s))"
      unfolding c by (rule same_except_update) simp
  qed (use r p v c in \<open>simp_all add: stripe_valid_def\<close>)
qed

lemma stripe_generic:
  "generic_dev bs bc (stripe_read_block devs bc) (stripe_write_block devs bc)
    (stripe_valid devs bs bc valid) (stripe_cont devs bc conts) (\<forall>i < length devs. rel i)"
proof (unfold_locales, goal_cases)
  case (1 st) then show ?case by (simp add: stripe_valid_def array_geometry_def)
next
  case (2 st)
  then have vs: "valid (snd st)" and g: "array_geometry devs bs (length devs) bc"
    by (simp_all add: stripe_valid_def)
  have "length (conts (snd st) ! (w mod length devs) ! (w div length devs)) = unat bs" if "w < unat bc" for w
  proof -
    have "w < 2 ^ 64" using that unat_u64_bound [of bc] by linarith
    then have "unat (of_nat w :: u64) = w" by (simp add: unsigned_of_nat take_bit_nat_eq_self_iff)
    moreover from this that have "(of_nat w :: u64) < bc" by (simp only: word_less_nat_alt)
    ultimately show ?thesis using stripe_place [OF g, of "of_nat w"] dev_geometry(3,4) [OF vs, of "w mod length devs"]
      geometry_block_size [OF g, of "w mod length devs"]
      by (simp add: word_less_nat_alt blocked_nth)
  qed
  then show ?case by (auto simp: stripe_cont_def interleave_def blocked_def)
next
  case (3 st w into) then show ?case by (intro stripe_read_block_ok)
next
  case (4 st w "from") then show ?case using stripe_write_block_ok [of bs bc st w "Ext from"] by simp
next
  case (8 st w) then show ?case
    using stripe_write_block_ok [of bs bc st w Own] by (simp add: stripe_valid_def)
qed (simp_all add: stripe_valid_def stripe_cont_def set_buffer_def)

lemma stripe_below:
  assumes "keeps valid conts (snd st) (op (snd st))" and "stripe_valid devs bs bc valid st"
  shows "keeps (stripe_valid devs bs bc valid) (stripe_cont devs bc conts) st (below op st)"
proof -
  obtain s where "op (snd st) = Some s" "valid s" "conts s = conts (snd st)"
    using assms(1) by (rule keepsE)
  then show ?thesis
    using assms(2) by (intro keepsI [of _ "(fst st, s)"]) (simp_all add: below_def stripe_valid_def stripe_cont_def)
qed

lemma stripe_maintenance:
  assumes "stripe_valid devs bs bc valid st"
  shows "keeps (stripe_valid devs bs bc valid) (stripe_cont devs bc conts) st (stripe_clear_caches devs st)"
    "keeps (stripe_valid devs bs bc valid) (stripe_cont devs bc conts) st (stripe_flush devs st)"
    "keeps (stripe_valid devs bs bc valid) (stripe_cont devs bc conts) st (stripe_sync devs st)"
proof -
  have v: "valid (snd st)" using assms by (simp add: stripe_valid_def)
  show "keeps (stripe_valid devs bs bc valid) (stripe_cont devs bc conts) st (stripe_clear_caches devs st)"
    unfolding stripe_clear_caches_def
    by (rule stripe_below [where op = "each_device clear_caches devs", OF each_keeps(1) [OF v] assms])
  show fl: "keeps (stripe_valid devs bs bc valid) (stripe_cont devs bc conts) st (stripe_flush devs st)"
    unfolding stripe_flush_def
    by (rule stripe_below [where op = "each_device flush devs", OF each_keeps(2) [OF v] assms])
  then obtain st' where st': "stripe_flush devs st = Some st'" "stripe_valid devs bs bc valid st'"
    "stripe_cont devs bc conts st' = stripe_cont devs bc conts st" by (rule keepsE)
  then have "valid (snd st')" by (simp add: stripe_valid_def)
  from stripe_below [where op = "each_device sync devs", OF each_keeps(3) [OF this] st'(2)]
  show "keeps (stripe_valid devs bs bc valid) (stripe_cont devs bc conts) st (stripe_sync devs st)"
    using st' by (simp add: stripe_sync_def keeps_def)
qed

lemma stripe_device:
  "block_device (stripe_dev devs bs bc) (stripe_valid devs bs bc valid) (stripe_cont devs bc conts)
    (\<forall>i < length devs. rel i)"
  by (rule generic_dev.whole_device [OF stripe_generic])
    (simp_all add: stripe_dev_def stripe_maintenance)

end

text \<open>Opening an array: the geometry that the open functions of stripe and xor compute.\<close>

lemma array_geometryI:
  assumes "devs \<noteq> []" and "length devs < 2 ^ 31" and "k < 2 ^ 31" and "0 < unat bs"
    and "unat bs * (unat (min_drive_size devs) * k) < 2 ^ 64"
    and "list_all (\<lambda>d. block_size d = bs) devs"
  shows "array_geometry devs bs k (min_drive_size devs * of_nat k)"
proof -
  have "unat (min_drive_size devs) * k \<le> unat bs * (unat (min_drive_size devs) * k)" using assms(4) by simp
  then have lt: "unat (min_drive_size devs) * k < 2 ^ 64" using assms(5) by linarith
  have "unat (of_nat k :: u64) = k" using assms(3) by (simp add: unsigned_of_nat take_bit_nat_eq_self_iff)
  then have "unat (min_drive_size devs * of_nat k) = unat (min_drive_size devs) * k"
    using lt unat_mult_u64 [of "min_drive_size devs" "of_nat k"] by simp
  with assms show ?thesis by (simp add: array_geometry_def)
qed

lemma stripe_open_ok:
  assumes "alloc_ok alloc" and "stripe_open alloc devs = Some (Some (dev, obj))"
    and "length devs < 2 ^ 31" and "0 < unat (block_size (hd devs))"
    and "unat (block_size (hd devs)) * (unat (min_drive_size devs) * length devs) < 2 ^ 64" and "valid s"
  shows "dev = stripe_dev devs (block_size dev) (block_count dev)"
    "stripe_valid devs (block_size dev) (block_count dev) valid (obj, s)"
proof -
  obtain d ds where devs: "devs = d # ds" using assms(2) by (cases devs) (auto simp: stripe_open_def)
  have bs: "list_all (\<lambda>e. block_size e = block_size d) ds"
    using assms(2) by (auto simp: stripe_open_def devs Let_def split: if_splits)
  obtain g where g: "alloc (unat (block_size d)) = Some g"
    "dev = stripe_dev devs (block_size d) (min_drive_size devs * of_nat (length devs))"
    "obj = \<lparr>generic_block_buffer = g, obj_m = ()\<rparr>"
    using assms(2) bs by (cases "alloc (unat (block_size d))") (auto simp: stripe_open_def devs Let_def)
  have geo: "block_size dev = block_size d" "block_count dev = min_drive_size devs * of_nat (length devs)"
    using g(2) by (simp_all add: stripe_dev_def)
  have "array_geometry devs (block_size d) (length devs) (min_drive_size devs * of_nat (length devs))"
    using assms(3,4,5) bs by (intro array_geometryI) (simp_all add: devs)
  then show "dev = stripe_dev devs (block_size dev) (block_count dev)"
    "stripe_valid devs (block_size dev) (block_count dev) valid (obj, s)"
    using g assms(6) alloc_okD [OF assms(1) g(1)] by (simp_all add: geo stripe_valid_def)
qed

section \<open>Properties\<close>

text \<open>C8: A stripe that opens keeps the whole contract, with the contents of the devices
  interleaved block by block as its contents; every block is on one device at one place inside
  the shortest device, so no call fails an assertion.\<close>
theorem stripe_open_device:
  assumes "device_array devs valid conts rel" and "valid s" and "alloc_ok alloc"
    and "stripe_open alloc devs = Some (Some (dev, obj))" and "length devs < 2 ^ 31"
    and "0 < unat (block_size (hd devs))"
    and "unat (block_size (hd devs)) * (unat (min_drive_size devs) * length devs) < 2 ^ 64"
  shows "block_device dev (stripe_valid devs (block_size dev) (block_count dev) valid)
      (stripe_cont devs (block_count dev) conts) (\<forall>i < length devs. rel i) \<and>
    stripe_valid devs (block_size dev) (block_count dev) valid (obj, s)"
  using stripe_open_ok [where valid = valid and s = s, OF assms(3,4,5,6,7,2)]
    device_array.stripe_device [OF assms(1)] by metis

theorem stripe_open_device_witness:
  "\<exists>dev obj. stripe_open calloc_alloc (ram_devs 2 4 3) = Some (Some (dev, obj)) \<and>
    block_device dev (stripe_valid (ram_devs 2 4 3) 4 6 (ram_valid_all 2 4 3))
      (stripe_cont (ram_devs 2 4 3) 6 (ram_conts 2 4 3)) True"
proof -
  let ?ds = "ram_devs 2 4 3" and ?z = "replicate 12 (0 :: u8)"
  have s: "ram_valid_all 2 4 3 (map (ram 4) [?z, ?z])" by (rule ram_devs_valid) auto
  have ds: "?ds = [nth_dev 0 (malloc_dev 4 3), nth_dev 1 (malloc_dev 4 3)]"
    by (simp add: ram_devs_def independent_def upt_rec)
  obtain dev obj where dev: "stripe_open calloc_alloc ?ds = Some (Some (dev, obj))" "block_size dev = 4" "block_count dev = 6"
    unfolding ds by (simp add: stripe_open_def calloc_alloc_def nth_dev_def malloc_dev_def Let_def min_drive_size_def)
  have b: "length ?ds < 2 ^ 31" "0 < unat (block_size (hd ?ds))"
    "unat (block_size (hd ?ds)) * (unat (min_drive_size ?ds) * length ?ds) < 2 ^ 64"
    unfolding ds by (simp_all add: nth_dev_def malloc_dev_def min_drive_size_def)
  from stripe_open_device [OF ram_devs_array s calloc_alloc_ok dev(1) b] dev show ?thesis by auto
qed

end
