(* ===== verification/VerifyContract.thy ===== *)
theory VerifyContract
  imports Verify BaseIO
begin

text \<open>
  The verify layer keeps the block device contract, and what its CRCs detect. The contents it
  shows are the data blocks of the device below; the invariant says that every stored CRC
  matches its data block and that the cached hash block is the one on the device.
\<close>

unbundle bit_operations_syntax

section \<open>The view of the device below\<close>

text \<open>\<open>h\<close> hashes per block, \<open>n\<close> data blocks, \<open>cb\<close> the blocks of the device below.\<close>

definition vview :: "nat \<Rightarrow> nat \<Rightarrow> bytes list \<Rightarrow> bytes list" where
  "vview h n cb = map (\<lambda>w. cb ! dpos h w) [0..<n]"

text \<open>The CRC in slot \<open>w mod h\<close> of the hash block of \<open>w\<close>, as it is stored.\<close>

definition slot :: "nat \<Rightarrow> nat \<Rightarrow> bytes \<Rightarrow> u32" where
  "slot h w hb = word_of_nat (be_val (take 4 (drop (w mod h * 4) hb)))"

definition crcs_match :: "nat \<Rightarrow> u32 \<Rightarrow> nat \<Rightarrow> bytes list \<Rightarrow> bool" where
  "crcs_match h z n cb \<longleftrightarrow> (\<forall>w < n. slot h w (cb ! hpos h w) XOR z = crc_of (cb ! dpos h w))"

text \<open>The positions of the first \<open>n\<close> blocks are on the device.\<close>

definition place_ok :: "nat \<Rightarrow> nat \<Rightarrow> bytes list \<Rightarrow> bool" where
  "place_ok h n cb \<longleftrightarrow> 0 < h \<and> (\<forall>w < n. dpos h w < length cb \<and> hpos h w < length cb)"

lemma length_vview [simp]: "length (vview h n cb) = n"
  by (simp add: vview_def)

lemma nth_vview [simp]: "w < n \<Longrightarrow> vview h n cb ! w = cb ! dpos h w"
  by (simp add: vview_def)

lemma vview_hash:
  assumes "same_except {hpos h w} cb cb'" and "place_ok h n cb"
  shows "vview h n cb' = vview h n cb"
proof (rule nth_equalityI)
  fix x assume "x < length (vview h n cb')"
  then have x: "x < n" by simp
  then have "dpos h x < length cb" "dpos h x \<noteq> hpos h w"
    using assms(2) hpos_dpos [of h w x] by (auto simp: place_ok_def)
  then show "vview h n cb' ! x = vview h n cb ! x"
    using x assms(1) by (simp add: same_except_def)
qed simp

lemma vview_data_except:
  assumes "same_except {dpos h w} cb cb'" and "place_ok h n cb"
  shows "same_except {w} (vview h n cb) (vview h n cb')"
  using assms by (auto simp: same_except_def place_ok_def dpos_inj)

lemma vview_data:
  assumes "w < n" and "place_ok h n cb"
  shows "vview h n (cb[dpos h w := d]) = (vview h n cb)[w := d]"
  using assms by (intro nth_equalityI) (auto simp: vview_def nth_list_update place_ok_def dpos_inj)

lemma place_ok_update [simp]: "place_ok h n (cb[i := b]) = place_ok h n cb"
  by (simp add: place_ok_def)

lemma place_ok_same: "length cb' = length cb \<Longrightarrow> place_ok h n cb' = place_ok h n cb"
  by (simp add: place_ok_def)

text \<open>\<open>w mod h\<close> is opaque to the arithmetic below.\<close>

lemma slot_pack:
  assumes "w mod h * 4 + 4 \<le> length hb"
  shows "slot h w (patch (w mod h * 4) (be32_bytes c) hb) = c"
  using take_drop_patch [of "w mod h * 4" "be32_bytes c" hb] assms by (simp add: slot_def)

lemma slot_pack_other:
  assumes "w mod h * 4 + 4 \<le> length hb" and "v mod h * 4 + 4 \<le> length hb" and "v mod h \<noteq> w mod h"
  shows "slot h v (patch (w mod h * 4) (be32_bytes c) hb) = slot h v hb"
proof -
  have "v mod h * 4 + 4 \<le> w mod h * 4 \<or> w mod h * 4 + length (be32_bytes c) \<le> v mod h * 4"
    using assms(3) by simp linarith
  then have "take 4 (drop (v mod h * 4) (patch (w mod h * 4) (be32_bytes c) hb)) = take 4 (drop (v mod h * 4) hb)"
    using assms(1,2) by (intro take_drop_patch_disjoint) simp_all
  then show ?thesis by (simp add: slot_def)
qed

lemma mod_slot_bound:
  assumes "0 < h" and "h * 4 \<le> (l::nat)"
  shows "w mod h * 4 + 4 \<le> l"
proof -
  have "Suc (w mod h) * 4 \<le> h * 4" using assms(1) by (intro mult_le_mono1) (simp add: Suc_leI)
  with assms(2) show ?thesis by simp
qed

lemma crcs_match_write:
  assumes m: "crcs_match h z n cb" and p: "place_ok h n cb" and w: "w < n"
    and l: "h * 4 \<le> length (cb ! hpos h w)"
  shows "crcs_match h z n
    (cb[hpos h w := patch (w mod h * 4) (be32_bytes (crc_of d XOR z)) (cb ! hpos h w), dpos h w := d])"
    (is "crcs_match h z n ?cb")
  unfolding crcs_match_def
proof (intro allI impI)
  fix v assume v: "v < n"
  have h: "0 < h" using p by (simp add: place_ok_def)
  note b = mod_slot_bound [OF h l]
  have in_range: "hpos h w < length cb" "dpos h w < length cb" "hpos h v < length cb" "dpos h v < length cb"
    using p v w by (simp_all add: place_ok_def)
  have old: "slot h v (cb ! hpos h v) XOR z = crc_of (cb ! dpos h v)" using m v by (simp add: crcs_match_def)
  have hb: "?cb ! hpos h v = (if v div h = w div h then
      patch (w mod h * 4) (be32_bytes (crc_of d XOR z)) (cb ! hpos h w) else cb ! hpos h v)"
    using in_range hpos_dpos [OF h, of v w] by (auto simp: nth_list_update hpos_eq)
  have db: "?cb ! dpos h v = (if v = w then d else cb ! dpos h v)"
    using in_range hpos_dpos [OF h, of w v] by (auto simp: nth_list_update dpos_inj [OF h])
  show "slot h v (?cb ! hpos h v) XOR z = crc_of (?cb ! dpos h v)"
  proof (cases "v = w")
    case True
    have "slot h w (?cb ! hpos h v) = crc_of d XOR z"
      unfolding hb using True by (simp add: slot_pack [OF b])
    moreover have "?cb ! dpos h v = d" unfolding db using True by simp
    ultimately show ?thesis using True by (simp only: xor.assoc xor_self_eq xor.right_neutral)
  next
    case False
    show ?thesis
    proof (cases "v div h = w div h")
      case True
      then have "v mod h \<noteq> w mod h" using False by (metis div_mult_mod_eq)
      then have "slot h v (?cb ! hpos h v) = slot h v (cb ! hpos h w)"
        unfolding hb using True by (simp add: slot_pack_other [OF b b])
      moreover have "hpos h v = hpos h w" using True by (simp add: hpos_eq)
      moreover have "?cb ! dpos h v = cb ! dpos h v" unfolding db using False by simp
      ultimately show ?thesis using old by simp
    next
      case neq: False
      have "?cb ! hpos h v = cb ! hpos h v" unfolding hb using neq by simp
      moreover have "?cb ! dpos h v = cb ! dpos h v" unfolding db using False by simp
      ultimately show ?thesis using old by simp
    qed
  qed
qed

section \<open>The state of the layer\<close>

text \<open>What \<open>verify_create\<close> establishes about the geometry.\<close>

definition verify_geo_ok :: "u64 \<Rightarrow> u64 \<Rightarrow> verify_geo \<Rightarrow> bool" where
  "verify_geo_ok bs n io \<longleftrightarrow> 4 \<le> unat bs \<and> unat bs * unat n < 2 ^ 64 \<and>
     hashes_per_block io = bs div 4 \<and>
     unat (data_block_count io) = data_blocks (unat bs div 4) (unat n)"

text \<open>The cached hash block is none (-1) or the one on the device.\<close>

definition cache_ok :: "nat \<Rightarrow> verify_io \<Rightarrow> bytes list \<Rightarrow> bool" where
  "cache_ok h m cb \<longleftrightarrow> which_hash_block m = - 1 \<or>
     (unat (which_hash_block m) < length cb \<and> unat (which_hash_block m) mod (h + 1) = 0 \<and>
      hash_block m = cb ! unat (which_hash_block m))"

definition verify_valid ::
  "'s bdev \<Rightarrow> verify_geo \<Rightarrow> ('s \<Rightarrow> bool) \<Rightarrow> ('s \<Rightarrow> bytes list) \<Rightarrow> bool \<Rightarrow> 's verify_state \<Rightarrow> bool" where
  "verify_valid base io valid cont rel st \<longleftrightarrow>
     verify_geo_ok (block_size base) (block_count base) io \<and> valid (snd st) \<and>
     length (generic_block_buffer (fst st)) = unat (block_size base) \<and>
     length (hash_block (obj_m (fst st))) = unat (block_size base) \<and>
     (rel \<longrightarrow> cache_ok (unat (block_size base) div 4) (obj_m (fst st)) (cont (snd st)) \<and>
       crcs_match (unat (block_size base) div 4) (zero_crc io) (unat (data_block_count io)) (cont (snd st)))"

definition verify_cont ::
  "'s bdev \<Rightarrow> verify_geo \<Rightarrow> ('s \<Rightarrow> bytes list) \<Rightarrow> 's verify_state \<Rightarrow> bytes list" where
  "verify_cont base io cont st =
     vview (unat (block_size base) div 4) (unat (data_block_count io)) (cont (snd st))"

lemma hashes_pos: "4 \<le> unat (bs :: u64) \<Longrightarrow> 0 < unat bs div 4" "unat bs div 4 * 4 \<le> unat (bs :: u64)"
  by auto

lemma verify_place_ok:
  assumes g: "verify_geo_ok bs n io" and w: "w < data_block_count io"
  defines "h \<equiv> unat bs div 4"
  obtains hp dp int where "verify_place io w = Some (hp, dp, int)"
    "unat hp = hpos h (unat w)" "unat dp = dpos h (unat w)" "unat (int * 4) = unat w mod h * 4"
    "hp < n" "dp < n" "hp \<noteq> - 1"
proof -
  have bs: "4 \<le> unat bs" and lim: "unat bs * unat n < 2 ^ 64" and hpb: "hashes_per_block io = bs div 4"
    and dc: "unat (data_block_count io) = data_blocks h (unat n)"
    using g by (simp_all add: verify_geo_ok_def h_def)
  have h: "0 < h" "h * 4 \<le> unat bs" using hashes_pos(1) [OF bs] hashes_pos(2) [of bs] by (simp_all add: h_def)
  have uh: "unat (hashes_per_block io) = h" by (simp add: hpb h_def unat_div)
  have "unat w < data_blocks h (unat n)" using w dc by (simp add: word_less_nat_alt)
  note b = dpos_bound [OF h(1) this]
  have n64: "unat n < 2 ^ 64" by (rule unat_u64_bound)
  let ?c = "w div hashes_per_block io" and ?i = "w mod hashes_per_block io"
  have hz: "hashes_per_block io \<noteq> 0" using h(1) uh by auto
  have uc: "unat ?c = unat w div h" "unat ?i = unat w mod h" by (simp_all add: unat_div unat_mod uh)
  have hb: "h + 1 < 2 ^ 64" using h unat_u64_bound [of bs] by linarith
  then have uh1: "unat (hashes_per_block io + 1) = h + 1" using uh unat_add_u64 [of "hashes_per_block io" 1] by simp
  have "unat w div h * (h + 1) < 2 ^ 64" using b(2) n64 unfolding hpos_def by linarith
  then have e1: "unat (?c * (hashes_per_block io + 1)) = hpos h (unat w)"
    using unat_mult_u64 [of ?c "hashes_per_block io + 1"] by (simp add: uc uh1 hpos_def)
  have s: "unat w + unat w div h + 1 < 2 ^ 64" using b(1) n64 unfolding dpos_def by linarith
  then have "unat (w + ?c) = unat w + unat w div h" using unat_add_u64 [of w ?c] by (simp add: uc)
  then have e2: "unat (w + ?c + 1) = dpos h (unat w)" using unat_add_u64 [of "w + ?c" 1] s by (simp add: dpos_def)
  have "unat w mod h * 4 < 2 ^ 64" using mod_slot_bound [OF h, of "unat w"] unat_u64_bound [of bs] by linarith
  then have e3: "unat (?i * 4) = unat w mod h * 4" using unat_mult_u64 [of ?i 4] by (simp add: uc)
  show thesis
  proof (rule that [of "?c * (hashes_per_block io + 1)" "w + ?c + 1" ?i])
    have "?c * (hashes_per_block io + 1) < n" using e1 b(2) by (simp only: word_less_nat_alt)
    then show "?c * (hashes_per_block io + 1) \<noteq> - 1" by (rule u64_less_not_max)
  qed (use hz e1 e2 e3 b in \<open>simp_all add: verify_place_def word_less_nat_alt\<close>)
qed

section \<open>The operations\<close>

lemma set_hash_simps [simp]:
  "hash_block (obj_m (fst (set_hash hb st))) = hb"
  "which_hash_block (obj_m (fst (set_hash hb st))) = which_hash_block (obj_m (fst st))"
  "generic_block_buffer (fst (set_hash hb st)) = generic_block_buffer (fst st)"
  "snd (set_hash hb st) = snd st"
  "hash_block (obj_m (fst (set_which w st))) = hash_block (obj_m (fst st))"
  "which_hash_block (obj_m (fst (set_which w st))) = w"
  "generic_block_buffer (fst (set_which w st)) = generic_block_buffer (fst st)"
  "snd (set_which w st) = snd st"
  by (simp_all add: set_hash_def set_which_def)

text \<open>A read that returns true has checked its data against the stored CRC, whatever the device
  below does.\<close>

lemma verify_read_block_checks:
  assumes "verify_read_block base io bs st w into = Some (True, into', st')"
  shows "\<exists>hp dp int v. verify_place io w = Some (hp, dp, int) \<and>
    unpack_be32 (hash_block (obj_m (fst st'))) (unat (int * 4)) = Some v \<and>
    calc_crc32 into' (unat bs) = Some (v XOR zero_crc io)"
  using assms
  by (auto simp: verify_read_block_def split: bind_splits prod.splits if_splits)

context block_device
begin

lemma verify_place_on_device:
  assumes "verify_valid dev io valid cont r st"
  shows "place_ok (unat (block_size dev) div 4) (unat (data_block_count io)) (cont (snd st))"
proof -
  have g: "verify_geo_ok (block_size dev) (block_count dev) io" and v: "valid (snd st)"
    using assms by (simp_all add: verify_valid_def)
  have h: "0 < unat (block_size dev) div 4"
    and dc: "unat (data_block_count io) = data_blocks (unat (block_size dev) div 4) (unat (block_count dev))"
    using g hashes_pos(1) by (simp_all add: verify_geo_ok_def)
  show ?thesis
    using dpos_bound [OF h] length_cont [OF v] h by (simp add: place_ok_def dc)
qed

lemma verify_fetch_ok:
  assumes v: "verify_valid dev io valid cont rel st" and n: "needed < block_count dev"
    and m: "unat needed mod (unat (block_size dev) div 4 + 1) = 0"
  obtains ok st' where "verify_fetch dev st needed = Some (ok, st')"
    "verify_valid dev io valid cont rel st'" "cont (snd st') = cont (snd st)" "rel \<Longrightarrow> ok"
    "ok \<Longrightarrow> which_hash_block (obj_m (fst st')) = needed"
    "generic_block_buffer (fst st') = generic_block_buffer (fst st)"
    "rel \<Longrightarrow> hash_block (obj_m (fst st')) = cont (snd st) ! unat needed"
proof (cases "which_hash_block (obj_m (fst st)) = needed")
  case True
  show thesis
  proof (rule that)
    show "verify_fetch dev st needed = Some (True, st)" using True by (simp add: verify_fetch_def)
    show "hash_block (obj_m (fst st)) = cont (snd st) ! unat needed" if rel
    proof -
      have "cache_ok (unat (block_size dev) div 4) (obj_m (fst st)) (cont (snd st))"
        using v that by (simp add: verify_valid_def)
      moreover have "needed \<noteq> - 1" using n by (rule u64_less_not_max)
      ultimately show ?thesis using True by (simp add: cache_ok_def)
    qed
  qed (use True v in simp_all)
next
  case False
  have vs: "valid (snd st)" and hl: "length (hash_block (obj_m (fst st))) = unat (block_size dev)"
    using v by (simp_all add: verify_valid_def)
  have "unat (block_size dev) \<le> length (hash_block (obj_m (fst st)))" using hl by simp
  from read_law [OF vs n this]
  obtain ok hb s where r: "read_block dev (snd st) needed (hash_block (obj_m (fst st))) = Some (ok, hb, s)"
    "valid s" "cont s = cont (snd st)" "length hb = length (hash_block (obj_m (fst st)))" "rel \<Longrightarrow> ok"
    "ok \<Longrightarrow> hb = patch 0 (cont (snd st) ! unat needed) (hash_block (obj_m (fst st)))"
    by (rule read_okE) blast
  have hb: "ok \<Longrightarrow> hb = cont (snd st) ! unat needed"
    using r(6) hl length_block [OF vs n] by simp
  let ?st = "set_hash hb (fst st, s)"
  let ?st' = "if ok then set_which needed ?st else ?st"
  have lc: "unat needed < length (cont (snd st))" using n length_cont [OF vs] by (simp add: word_less_nat_alt)
  show thesis
  proof (rule that)
    show "verify_fetch dev st needed = Some (ok, ?st')" using False r(1) by (simp add: verify_fetch_def Let_def)
    show "verify_valid dev io valid cont rel ?st'"
      using v r(2-5) hl hb lc m by (auto simp: verify_valid_def cache_ok_def)
  qed (use r(3,5) hb in auto)
qed

lemma verify_read_block_ok:
  assumes v: "verify_valid dev io valid cont rel st" and w: "w < data_block_count io"
    and l: "unat (block_size dev) \<le> length into"
  shows "read_ok (verify_valid dev io valid cont rel) (verify_cont dev io cont) rel st into
    (verify_cont dev io cont st ! unat w) (verify_read_block dev io (block_size dev) st w into)"
proof -
  let ?bs = "block_size dev" and ?h = "unat (block_size dev) div 4"
  have g: "verify_geo_ok ?bs (block_count dev) io" using v by (simp add: verify_valid_def)
  obtain hp dp int where p: "verify_place io w = Some (hp, dp, int)"
    "unat hp = hpos ?h (unat w)" "unat dp = dpos ?h (unat w)" "unat (int * 4) = unat w mod ?h * 4"
    "hp < block_count dev" "dp < block_count dev" by (rule verify_place_ok [OF g w])
  have bs4: "4 \<le> unat ?bs" using g by (simp add: verify_geo_ok_def)
  have slot_in: "unat (int * 4) + 4 \<le> unat ?bs"
    unfolding p(4) using mod_slot_bound hashes_pos bs4 by blast
  obtain ok st1 where f: "verify_fetch dev st hp = Some (ok, st1)"
    "verify_valid dev io valid cont rel st1" "cont (snd st1) = cont (snd st)" "rel \<Longrightarrow> ok"
    "rel \<Longrightarrow> hash_block (obj_m (fst st1)) = cont (snd st) ! unat hp"
    by (rule verify_fetch_ok [OF v p(5)]) (simp_all only: p(2) hpos_div_mod)
  have vs1: "valid (snd st1)" and hl: "length (hash_block (obj_m (fst st1))) = unat ?bs"
    using f(2) by (simp_all add: verify_valid_def)
  have c1: "verify_cont dev io cont st1 = verify_cont dev io cont st" by (simp add: verify_cont_def f(3))
  have data: "verify_cont dev io cont st ! unat w = cont (snd st) ! unat dp"
    using w p(3) by (simp add: verify_cont_def word_less_nat_alt)
  show ?thesis
  proof (cases ok)
    case False
    then have "verify_read_block dev io ?bs st w into = Some (False, into, st1)"
      using w p(1) f(1) by (simp add: verify_read_block_def)
    moreover have "\<not> rel" using f(4) False by blast
    ultimately show ?thesis using f(2) c1 by (simp add: read_ok_fail)
  next
    case True
    let ?v = "slot ?h (unat w) (hash_block (obj_m (fst st1)))"
    have u: "unpack_be32 (hash_block (obj_m (fst st1))) (unat (int * 4)) = Some ?v"
      using slot_in hl by (simp add: unpack_be32_Some slot_def p(4))
    obtain ok2 into' s where r: "read_block dev (snd st1) dp into = Some (ok2, into', s)" "valid s"
      "cont s = cont (snd st1)" "length into' = length into" "rel \<Longrightarrow> ok2"
      "ok2 \<Longrightarrow> into' = patch 0 (cont (snd st1) ! unat dp) into"
      by (rule read_okE [OF read_law [OF vs1 p(6) l]]) blast
    have v2: "verify_valid dev io valid cont rel (fst st1, s)"
      using f(2) r(2,3) by (simp add: verify_valid_def)
    have c2: "verify_cont dev io cont (fst st1, s) = verify_cont dev io cont st"
      by (simp add: verify_cont_def r(3) f(3))
    have call: "verify_read_block dev io ?bs st w into =
      Some (ok2 \<and> ?v XOR zero_crc io = crc_of (take (unat ?bs) into'), into', (fst st1, s))"
      using w p(1) f(1) True u r(1,4) l by (simp add: verify_read_block_def Let_def calc_crc32_crc_of)
    show ?thesis unfolding call
    proof (rule read_okI [where st' = "(fst st1, s)", OF refl])
      assume rel
      have d: "into' = patch 0 (cont (snd st) ! unat dp) into" using r(5,6) \<open>rel\<close> f(3) by simp
      have "length (cont (snd st) ! unat dp) = unat ?bs" using length_block [OF vs1 p(6)] f(3) by simp
      with d l have t: "take (unat ?bs) into' = cont (snd st) ! unat dp" by simp
      have "crcs_match ?h (zero_crc io) (unat (data_block_count io)) (cont (snd st))"
        using v \<open>rel\<close> by (simp add: verify_valid_def)
      then have "slot ?h (unat w) (cont (snd st) ! unat hp) XOR zero_crc io = crc_of (cont (snd st) ! unat dp)"
        using w by (simp add: crcs_match_def word_less_nat_alt p(2,3))
      then show "ok2 \<and> ?v XOR zero_crc io = crc_of (take (unat ?bs) into')"
        using r(5) \<open>rel\<close> f(5) t by simp
    qed (use r(4,6) f(3) data v2 c2 in simp_all)
  qed
qed

text \<open>The two writes of a block: its hash block, then the data.\<close>

lemma verify_store:
  assumes vs: "valid s" and g: "verify_geo_ok (block_size dev) (block_count dev) io"
    and w: "w < data_block_count io" and p: "verify_place io w = Some (hp, dp, off)"
    and hl: "length hb = unat (block_size dev)" and dl: "unat (block_size dev) \<le> length d"
    and place: "place_ok (unat (block_size dev) div 4) (unat (data_block_count io)) (cont s)"
  defines "h \<equiv> unat (block_size dev) div 4" and "n \<equiv> unat (data_block_count io)"
    and "data \<equiv> take (unat (block_size dev)) d"
  defines "hb' \<equiv> patch (unat w mod h * 4) (be32_bytes (crc_of data XOR zero_crc io)) hb"
  obtains ok s' where
    "do { (ok, s) \<leftarrow> write_block dev s hp hb';
          if \<not> ok then Some (False, s) else write_block dev s dp d } = Some (ok, s')"
    "valid s'" "rel \<Longrightarrow> ok" "same_except {unat w} (vview h n (cont s)) (vview h n (cont s'))"
    "ok \<Longrightarrow> vview h n (cont s') = (vview h n (cont s))[unat w := data]"
    "rel \<Longrightarrow> cont s' = (cont s)[hpos h (unat w) := hb', dpos h (unat w) := data]"
proof -
  obtain hp' dp' int' where "verify_place io w = Some (hp', dp', int')"
    "unat hp' = hpos h (unat w)" "unat dp' = dpos h (unat w)" "unat (int' * 4) = unat w mod h * 4"
    "hp' < block_count dev" "dp' < block_count dev"
    unfolding h_def by (rule verify_place_ok [OF g w])
  then have q: "unat hp = hpos h (unat w)" "unat dp = dpos h (unat w)"
    "hp < block_count dev" "dp < block_count dev" using p by simp_all
  have bs4: "4 \<le> unat (block_size dev)" using g by (simp add: verify_geo_ok_def)
  have "unat w mod h * 4 + 4 \<le> unat (block_size dev)"
    using mod_slot_bound [OF hashes_pos(1) [OF bs4] hashes_pos(2)] by (simp add: h_def)
  then have l': "length hb' = unat (block_size dev)" using hl by (simp add: hb'_def)
  have wn: "unat w < n" using w by (simp add: n_def word_less_nat_alt)
  note place = place [folded h_def n_def]
  have "unat (block_size dev) \<le> length hb'" using l' by simp
  from write_law [OF vs q(3) this]
  obtain ok1 s1 where r1: "write_block dev s hp hb' = Some (ok1, s1)" "valid s1" "rel \<Longrightarrow> ok1"
    "same_except {hpos h (unat w)} (cont s) (cont s1)" "ok1 \<Longrightarrow> cont s1 = (cont s)[hpos h (unat w) := hb']"
    unfolding q l' [symmetric] take_all [OF order_refl] by (rule write_okE) blast
  have v1: "vview h n (cont s1) = vview h n (cont s)" by (rule vview_hash [OF r1(4) place])
  show thesis
  proof (cases ok1)
    case False
    then have "\<not> rel" using r1(3) by blast
    show thesis
    proof (rule that [of False s1])
      show "do { (ok, s) \<leftarrow> write_block dev s hp hb';
          if \<not> ok then Some (False, s) else write_block dev s dp d } = Some (False, s1)"
        using r1(1) False by simp
      show "valid s1" by (rule r1(2))
      show "same_except {unat w} (vview h n (cont s)) (vview h n (cont s1))" by (simp add: v1)
    qed (use \<open>\<not> rel\<close> in blast)+
  next
    case True
    have "length (cont s1) = length (cont s)" using r1(4) unfolding same_except_def by blast
    from place_ok_same [OF this] place have place1: "place_ok h n (cont s1)" by blast
    obtain ok2 s2 where r2: "write_block dev s1 dp d = Some (ok2, s2)" "valid s2" "rel \<Longrightarrow> ok2"
      "same_except {dpos h (unat w)} (cont s1) (cont s2)"
      "ok2 \<Longrightarrow> cont s2 = (cont s1)[dpos h (unat w) := data]"
      by (rule write_okE [OF write_law [OF r1(2) q(4) dl], unfolded q, folded data_def]) blast
    show thesis
    proof (rule that [of ok2 s2])
      show "same_except {unat w} (vview h n (cont s)) (vview h n (cont s2))"
        using vview_data_except [OF r2(4) place1] v1 by simp
      show "ok2 \<Longrightarrow> vview h n (cont s2) = (vview h n (cont s))[unat w := data]"
        using r2(5) vview_data [OF wn place1, of data] v1 by simp
      show "rel \<Longrightarrow> cont s2 = (cont s)[hpos h (unat w) := hb', dpos h (unat w) := data]"
        using r2(3,5) r1(5) True by simp
      show "do { (ok, s) \<leftarrow> write_block dev s hp hb';
          if \<not> ok then Some (False, s) else write_block dev s dp d } = Some (ok2, s2)"
        using r1(1) r2(1) True by simp
    qed (rule r2(2), rule r2(3))
  qed
qed

lemma verify_write_block_ok:
  assumes v: "verify_valid dev io valid cont rel st" and w: "w < data_block_count io"
    and l: "unat (block_size dev) \<le> length (deref (fst st) from)"
  shows "write_ok (verify_valid dev io valid cont rel) (verify_cont dev io cont) rel st {unat w}
    ((verify_cont dev io cont st)[unat w := take (unat (block_size dev)) (deref (fst st) from)])
    (verify_write_block dev io (block_size dev) st w from)"
proof -
  let ?bs = "block_size dev" and ?h = "unat (block_size dev) div 4" and ?n = "unat (data_block_count io)"
  have g: "verify_geo_ok ?bs (block_count dev) io" using v by (simp add: verify_valid_def)
  obtain hp dp int where p: "verify_place io w = Some (hp, dp, int)"
    "unat hp = hpos ?h (unat w)" "unat dp = dpos ?h (unat w)" "unat (int * 4) = unat w mod ?h * 4"
    "hp < block_count dev" "dp < block_count dev" by (rule verify_place_ok [OF g w])
  have bs4: "4 \<le> unat ?bs" using g by (simp add: verify_geo_ok_def)
  note slot_in = mod_slot_bound [OF hashes_pos(1) [OF bs4] hashes_pos(2), of "unat w"]
  obtain ok st1 where f: "verify_fetch dev st hp = Some (ok, st1)"
    "verify_valid dev io valid cont rel st1" "cont (snd st1) = cont (snd st)" "rel \<Longrightarrow> ok"
    "ok \<Longrightarrow> which_hash_block (obj_m (fst st1)) = hp"
    "generic_block_buffer (fst st1) = generic_block_buffer (fst st)"
    "rel \<Longrightarrow> hash_block (obj_m (fst st1)) = cont (snd st) ! unat hp"
    by (rule verify_fetch_ok [OF v p(5)]) (simp_all only: p(2) hpos_div_mod)
  define hb where "hb = (if ok then hash_block (obj_m (fst st1)) else replicate (unat ?bs) 0)"
  define st2 where "st2 = (if ok then st1 else set_which hp (set_hash hb st1))"
  have vs: "valid (snd st1)" and hl: "length hb = unat ?bs"
    using f(2) by (simp_all add: verify_valid_def hb_def)
  let ?d = "deref (fst st) from"
  have dref: "deref (fst st2) from = ?d" by (cases "from") (simp_all add: st2_def f(6))
  let ?hb' = "patch (unat w mod ?h * 4) (be32_bytes (crc_of (take (unat ?bs) ?d) XOR zero_crc io)) hb"
  have l': "length ?hb' = unat ?bs" using slot_in hl by simp
  obtain ok3 s' where r: "do { (ok, s) \<leftarrow> write_block dev (snd st1) hp ?hb';
        if \<not> ok then Some (False, s) else write_block dev s dp ?d } = Some (ok3, s')"
    "valid s'" "rel \<Longrightarrow> ok3" "same_except {unat w} (vview ?h ?n (cont (snd st1))) (vview ?h ?n (cont s'))"
    "ok3 \<Longrightarrow> vview ?h ?n (cont s') = (vview ?h ?n (cont (snd st1)))[unat w := take (unat ?bs) ?d]"
    "rel \<Longrightarrow> cont s' = (cont (snd st1))[hpos ?h (unat w) := ?hb', dpos ?h (unat w) := take (unat ?bs) ?d]"
    by (rule verify_store [OF vs g w p(1) hl l verify_place_on_device [OF f(2)]]) blast
  let ?st' = "(fst (set_hash ?hb' st2), s')"
  have prep: "(if ok then Some st1 else do {
             hb \<leftarrow> memset (hash_block (obj_m (fst st1))) 0 0 (unat ?bs);
             Some (set_which hp (set_hash hb st1)) }) = Some st2"
    using f(2) by (simp add: st2_def hb_def memset_Some verify_valid_def)
  have hb2: "hash_block (obj_m (fst st2)) = hb" "snd st2 = snd st1" by (simp_all add: st2_def hb_def)
  have pk: "pack_be32 c hb (unat (int * 4)) = Some (patch (unat w mod ?h * 4) (be32_bytes c) hb)" for c
    using slot_in hl by (simp add: pack_Some p(4))
  have crc: "calc_crc32 ?d (unat ?bs) = Some (crc_of (take (unat ?bs) ?d))" using l by (rule calc_crc32_crc_of)
  have d2: "deref (fst (set_hash x st2)) from = ?d" for x using dref by (cases "from") simp_all
  obtain o1 s1 where w1: "write_block dev (snd st1) hp ?hb' = Some (o1, s1)"
    "if o1 then write_block dev s1 dp ?d = Some (ok3, s') else \<not> ok3 \<and> s' = s1"
    using r(1) by (cases "write_block dev (snd st1) hp ?hb'") (auto split: if_splits)
  have "w < data_block_count io" by (rule w)
  then have call: "verify_write_block dev io ?bs st w from = Some (ok3, ?st')"
    using w1 by (simp add: verify_write_block_def p(1) f(1) prep crc dref d2 hb2 pk Let_def split: if_splits)
  show ?thesis unfolding call
  proof (rule write_okI [where ok = ok3 and st' = ?st', OF refl])
    show "same_except {unat w} (verify_cont dev io cont st) (verify_cont dev io cont ?st')"
      using r(4) by (simp add: verify_cont_def f(3))
    show "ok3 \<Longrightarrow> verify_cont dev io cont ?st' = (verify_cont dev io cont st)[unat w := take (unat ?bs) ?d]"
      using r(5) by (simp add: verify_cont_def f(3))
    have new: "cache_ok ?h (obj_m (fst ?st')) (cont s') \<and> crcs_match ?h (zero_crc io) ?n (cont s')" if rel
    proof -
      have ok using f(4) that by blast
      have hbc: "hb = cont (snd st1) ! hpos ?h (unat w)" using f(3,7) that \<open>ok\<close> by (simp add: hb_def p(2))
      have m: "crcs_match ?h (zero_crc io) ?n (cont (snd st1))"
        using f(2) that by (simp add: verify_valid_def)
      note pl = verify_place_on_device [OF f(2)]
      have wn: "unat w < ?n" using w by (simp add: word_less_nat_alt)
      have hlen: "?h * 4 \<le> length (cont (snd st1) ! hpos ?h (unat w))" using hl hashes_pos(2) by (simp flip: hbc)
      have c: "cont s' = (cont (snd st1))[hpos ?h (unat w) := ?hb', dpos ?h (unat w) := take (unat ?bs) ?d]"
        by (rule r(6) [OF that])
      have "crcs_match ?h (zero_crc io) ?n (cont s')"
        unfolding c hbc by (rule crcs_match_write [OF m pl wn hlen])
      moreover have "which_hash_block (obj_m (fst ?st')) = hp" using f(5) \<open>ok\<close> by (simp add: st2_def)
      moreover have "cont s' ! hpos ?h (unat w) = ?hb'" "hpos ?h (unat w) < length (cont s')"
        "0 < ?h"
        using pl wn hpos_dpos [of ?h "unat w" "unat w"] unfolding c by (auto simp: place_ok_def nth_list_update)
      ultimately show ?thesis
        using hpos_div_mod(1) [of ?h "unat w"] by (simp add: cache_ok_def p(2))
    qed
    show "verify_valid dev io valid cont rel ?st'"
      using f(2) r(2) l' new by (simp add: verify_valid_def st2_def)
  qed (rule r(3))
qed

lemma verify_generic:
  "generic_dev (block_size dev) (data_block_count io)
    (verify_read_block dev io (block_size dev)) (verify_write_block dev io (block_size dev))
    (verify_valid dev io valid cont rel) (verify_cont dev io cont) rel"
proof (unfold_locales, goal_cases)
  case (1 st)
  then have g: "verify_geo_ok (block_size dev) (block_count dev) io" by (simp add: verify_valid_def)
  then have "unat (data_block_count io) \<le> unat (block_count dev)"
    by (simp add: verify_geo_ok_def data_blocks_def)
  then have "unat (block_size dev) * unat (data_block_count io) \<le> unat (block_size dev) * unat (block_count dev)"
    by (rule mult_le_mono2)
  with g show ?case unfolding verify_geo_ok_def by linarith
next
  case (2 st)
  then have vs: "valid (snd st)" by (simp add: verify_valid_def)
  have "length (cont (snd st) ! dpos (unat (block_size dev) div 4) w) = unat (block_size dev)"
    if "w < unat (data_block_count io)" for w
    using verify_place_on_device [OF 2] that blocked_cont [OF vs]
    by (simp add: place_ok_def blocked_nth)
  then show ?case by (auto simp: verify_cont_def vview_def blocked_def)
next
  case (3 st w into) then show ?case by (intro verify_read_block_ok)
next
  case (4 st w "from") then show ?case using verify_write_block_ok [of io st w "Ext from"] by simp
next
  case (8 st w) then show ?case
    using verify_write_block_ok [of io st w Own] by (simp add: verify_valid_def)
qed (simp_all add: verify_valid_def verify_cont_def set_buffer_def)

lemma verify_below:
  assumes "keeps valid cont (snd st) (op (snd st))" and "verify_valid dev io valid cont rel st"
  shows "keeps (verify_valid dev io valid cont rel) (verify_cont dev io cont) st
    (do { s \<leftarrow> op (snd st); Some (fst st, s) })"
proof -
  obtain s where "op (snd st) = Some s" "valid s" "cont s = cont (snd st)"
    using assms(1) by (rule keepsE)
  then show ?thesis
    using assms(2) by (intro keepsI [of _ "(fst st, s)"]) (simp_all add: verify_valid_def verify_cont_def)
qed

lemma verify_device:
  "block_device (verify_dev dev io) (verify_valid dev io valid cont rel) (verify_cont dev io cont) rel"
proof (rule generic_dev.whole_device [OF verify_generic])
  fix st assume v: "verify_valid dev io valid cont rel st"
  then have vs: "valid (snd st)" by (simp add: verify_valid_def)
  let ?keeps = "keeps (verify_valid dev io valid cont rel) (verify_cont dev io cont) st"
  show "?keeps (flush (verify_dev dev io) st)"
    using verify_below [where op = "flush dev", OF flush_law [OF vs] v]
    by (simp add: verify_dev_def verify_flush_def Let_def)
  show "?keeps (sync (verify_dev dev io) st)"
    using verify_below [where op = "sync dev", OF sync_law [OF vs] v]
    by (simp add: verify_dev_def verify_sync_def Let_def)
  let ?st = "set_which (- 1) st"
  have v': "verify_valid dev io valid cont rel ?st" using v by (simp add: verify_valid_def cache_ok_def)
  have "valid (snd ?st)" using vs by simp
  from verify_below [where op = "clear_caches dev", OF clear_caches_law [OF this] v']
  show "?keeps (clear_caches (verify_dev dev io) st)"
    by (simp add: verify_dev_def verify_clear_caches_def Let_def keeps_def verify_cont_def)
qed (simp_all add: verify_dev_def Let_def)

text \<open>What reads need and keep when the data may be damaged: the cached hash block is the one on the
  device, or none.\<close>

definition verify_readable :: "verify_geo \<Rightarrow> 's verify_state \<Rightarrow> bool" where
  "verify_readable io st \<longleftrightarrow> verify_geo_ok (block_size dev) (block_count dev) io \<and> valid (snd st) \<and>
     length (hash_block (obj_m (fst st))) = unat (block_size dev) \<and>
     cache_ok (unat (block_size dev) div 4) (obj_m (fst st)) (cont (snd st))"

lemma verify_fetch_readable:
  assumes r: "verify_readable io st" and n: "needed < block_count dev"
    and m: "unat needed mod (unat (block_size dev) div 4 + 1) = 0" and rel
  obtains st' where "verify_fetch dev st needed = Some (True, st')" "verify_readable io st'"
    "cont (snd st') = cont (snd st)" "hash_block (obj_m (fst st')) = cont (snd st) ! unat needed"
proof (cases "which_hash_block (obj_m (fst st)) = needed")
  case True
  moreover have "needed \<noteq> - 1" using n by (rule u64_less_not_max)
  ultimately show thesis
    using r by (intro that [of st]) (auto simp: verify_fetch_def verify_readable_def cache_ok_def)
next
  case False
  have vs: "valid (snd st)" and hl: "length (hash_block (obj_m (fst st))) = unat (block_size dev)"
    using r by (simp_all add: verify_readable_def)
  have "unat (block_size dev) \<le> length (hash_block (obj_m (fst st)))" using hl by simp
  from read_law [OF vs n this] \<open>rel\<close> obtain s where
    s: "read_block dev (snd st) needed (hash_block (obj_m (fst st))) = Some (True, cont (snd st) ! unat needed, s)"
      "valid s" "cont s = cont (snd st)"
    using hl length_block [OF vs n] by (auto elim!: read_okE)
  have "unat needed < length (cont (snd st))" using n length_cont [OF vs] by (simp add: word_less_nat_alt)
  then show thesis
    using False s r m length_block [OF vs n]
    by (intro that [of "set_which needed (set_hash (cont (snd st) ! unat needed) (fst st, s))"])
      (simp_all add: verify_fetch_def Let_def verify_readable_def cache_ok_def)
qed

text \<open>Over a reliable device, a read succeeds exactly when the data it finds has the stored CRC.\<close>

lemma verify_read_block_iff:
  assumes r: "verify_readable io st" and w: "w < data_block_count io" and l: "unat (block_size dev) \<le> length into" and rel
  shows "\<exists>ok into' st'. verify_read_block dev io (block_size dev) st w into = Some (ok, into', st') \<and>
    (ok \<longleftrightarrow> slot (unat (block_size dev) div 4) (unat w) (cont (snd st) ! hpos (unat (block_size dev) div 4) (unat w))
        XOR zero_crc io = crc_of (cont (snd st) ! dpos (unat (block_size dev) div 4) (unat w))) \<and>
    verify_readable io st' \<and> cont (snd st') = cont (snd st)"
proof -
  let ?bs = "block_size dev" and ?h = "unat (block_size dev) div 4"
  have g: "verify_geo_ok ?bs (block_count dev) io" and vs: "valid (snd st)" using r by (simp_all add: verify_readable_def)
  obtain hp dp int where p: "verify_place io w = Some (hp, dp, int)"
    "unat hp = hpos ?h (unat w)" "unat dp = dpos ?h (unat w)" "unat (int * 4) = unat w mod ?h * 4"
    "hp < block_count dev" "dp < block_count dev" by (rule verify_place_ok [OF g w])
  have bs4: "4 \<le> unat ?bs" using g by (simp add: verify_geo_ok_def)
  note slot_in = mod_slot_bound [OF hashes_pos(1) [OF bs4] hashes_pos(2), of "unat w"]
  obtain st1 where f: "verify_fetch dev st hp = Some (True, st1)" "verify_readable io st1"
    "cont (snd st1) = cont (snd st)" "hash_block (obj_m (fst st1)) = cont (snd st) ! unat hp"
    by (rule verify_fetch_readable [OF r p(5) _ \<open>rel\<close>]) (simp_all only: p(2) hpos_div_mod)
  have vs1: "valid (snd st1)" using f(2) by (simp add: verify_readable_def)
  from read_law [OF vs1 p(6) l] \<open>rel\<close>
  obtain into' s where d: "read_block dev (snd st1) dp into = Some (True, into', s)" "valid s"
    "cont s = cont (snd st)" "length into' = length into" "into' = patch 0 (cont (snd st) ! unat dp) into"
    by (auto simp: f(3) elim!: read_okE)
  have hl: "length (cont (snd st) ! unat hp) = unat ?bs" using length_block [OF vs p(5)] by simp
  have t: "take (unat ?bs) into' = cont (snd st) ! unat dp"
    using d(5) length_block [OF vs p(6)] l by simp
  have u: "unpack_be32 (hash_block (obj_m (fst st1))) (unat (int * 4)) = Some (slot ?h (unat w) (cont (snd st) ! unat hp))"
    using slot_in hl by (simp add: f(4) unpack_be32_Some slot_def p(4))
  have "verify_read_block dev io ?bs st w into =
      Some (slot ?h (unat w) (cont (snd st) ! unat hp) XOR zero_crc io = crc_of (take (unat ?bs) into'), into', (fst st1, s))"
    using w l d(4) by (simp add: verify_read_block_def p(1) f(1) d(1) u Let_def calc_crc32_crc_of)
  moreover have "verify_readable io (fst st1, s)" using f(2,3) d(2,3) by (simp add: verify_readable_def)
  ultimately show ?thesis unfolding t p(2,3) using d(3) by auto
qed

end

section \<open>Creation\<close>

lemma sint_low_u32: assumes "unat (bs::u64) < 2 ^ 31"
  shows "sint (ucast bs :: 32 word) = int (unat bs)"
proof -
  have ui: "int (unat bs) = uint bs" by (rule of_nat_unat)
  have "int (unat bs) < int (2 ^ 31)" using assms by (simp only: of_nat_less_iff)
  then have u: "uint bs < 2 ^ 31" by (simp only: ui of_nat_power of_nat_numeral)
  have p: "0 \<le> uint bs" by (rule uint_ge_0)
  then have "- (2 ^ 31) \<le> uint bs" by (rule order_trans [rotated]) simp
  have "uint (ucast bs :: 32 word) = uint bs"
    using u p by (simp add: unsigned_ucast_eq take_bit_int_eq_self_iff)
  with \<open>- (2 ^ 31) \<le> uint bs\<close> show ?thesis unfolding ui using u by (simp add: sint_uint signed_take_bit_int_eq_self_iff)
qed
lemma zero_crc_loop_ok:
  "zero_crc_loop crc k = (c, n) \<Longrightarrow> n < 16 \<and> crc_update c (replicate n 0) = crc_update crc (replicate k 0)"
proof (induction crc k rule: zero_crc_loop.induct)
  case (1 crc k)
  show ?case
  proof (cases "16 \<le> k")
    case True
    have "replicate k (0::u8) = replicate 16 0 @ replicate (k - 16) 0" 
      using True by (simp only: replicate_add [symmetric]) simp
    then have "crc_update crc (replicate k 0) = crc_update (crc_update crc (replicate 16 0)) (replicate (k - 16) 0)"
      by (simp only: crc_update_append)
    with 1 True show ?thesis by (simp only: zero_crc_loop.simps [of crc k]) simp
  next
    case False
    with 1(2) show ?thesis by simp
  qed
qed

declare zero_crc_loop.simps [simp del]

lemma create_zero_crc_ok:
  assumes "unat bs < 2 ^ 31"
  shows "create_zero_crc bs = Some (crc_of (replicate (unat bs) 0))"
proof -
  obtain c n where z: "zero_crc_loop crc_init (unat bs) = (c, n)" by (metis surj_pair)
  have n: "n < 16" and e: "crc_update c (replicate n 0) = crc_update crc_init (replicate (unat bs) 0)"
    using zero_crc_loop_ok [OF z] by blast+
  have r: "rd (replicate 16 0) 0 n = Some (replicate n 0)" using n by (simp add: rd_def min_def)
  have "create_zero_crc bs = Some (crc_finalize (crc_update c (replicate n 0)))"
  proof (cases "n = 0")
    case True
    then have "crc_update c (replicate n 0) = c" by (simp only: replicate.simps crc_update.simps and_all_ones)
    with True show ?thesis by (simp only: create_zero_crc_def sint_low_u32 [OF assms] Let_def) (simp add: z)
  next
    case False
    then show ?thesis
      by (simp only: create_zero_crc_def sint_low_u32 [OF assms] Let_def) (simp add: z r)
  qed
  then show ?thesis by (simp only: e crc_of_def)
qed

lemma zero_device_crcs_match:
  assumes "place_ok h n (replicate N (replicate l 0))" and "h * 4 \<le> l"
  shows "crcs_match h (crc_of (replicate l 0)) n (replicate N (replicate l 0))"
  unfolding crcs_match_def
proof (intro allI impI)
  fix w assume "w < n"
  then have b: "dpos h w < N" "hpos h w < N" "0 < h" using assms(1) by (auto simp: place_ok_def)
  have "w mod h * 4 + 4 \<le> l" by (rule mod_slot_bound [OF b(3) assms(2)])
  then have "take 4 (drop (w mod h * 4) (replicate l (0::u8))) = replicate 4 0" by simp
  then have "slot h w (replicate l 0) = word_of_nat (be_val (replicate 4 0))" unfolding slot_def by (simp only:)
  also have "\<dots> = 0" by (simp add: be_val_def eval_nat_numeral)
  finally show "slot h w (replicate N (replicate l 0) ! hpos h w) XOR crc_of (replicate l 0) =
      crc_of (replicate N (replicate l 0) ! dpos h w)"
    using b by simp
qed

text \<open>What \<open>verify_create\<close> returns when it returns a device.\<close>

lemma verify_create_ok:
  assumes "alloc_ok alloc" and "verify_create alloc base = Some (Some (dev, io, obj))"
    and "unat (block_size base) < 2 ^ 31" and "unat (block_size base) * unat (block_count base) < 2 ^ 64"
  shows "dev = verify_dev base io" "verify_geo_ok (block_size base) (block_count base) io"
    "zero_crc io = crc_of (replicate (unat (block_size base)) 0)"
    "length (generic_block_buffer obj) = unat (block_size base)"
    "length (hash_block (obj_m obj)) = unat (block_size base)"
    "which_hash_block (obj_m obj) = - 1"
proof -
  let ?bs = "block_size base" and ?n = "block_count base"
  have bs4: "4 \<le> unat ?bs" using assms(2)
    by (auto simp: verify_create_def word_less_nat_alt not_less split: if_splits)
  obtain g hb where al: "alloc (unat ?bs) = Some g" "alloc (unat ?bs) = Some hb"
    using assms(2) by (auto simp: verify_create_def split: if_splits bind_splits)
  have le: "unat ?n * 4 \<le> unat ?bs * unat ?n" using bs4 by simp
  have "unat ?n * 4 < 2 ^ 64" by (rule le_less_trans [OF le assms(4)])
  then have "unat ?n + unat ?bs div 4 < 2 ^ 64" using assms(3) by simp
  then have a1: "unat (?n + ?bs div 4) = unat ?n + unat ?bs div 4"
    using unat_add_u64 [of ?n "?bs div 4"] by (simp add: unat_div)
  have a2: "unat (1 + ?bs div 4) = 1 + unat ?bs div 4"
    using unat_add_u64 [of 1 "?bs div 4"] assms(3) by (simp add: unat_div)
  then have nz: "1 + ?bs div 4 \<noteq> 0" by (metis One_nat_def add_Suc nat.distinct(1) unat_0)
  define hbc where "hbc = (?n + ?bs div 4) div (1 + ?bs div 4)"
  have uhbc: "unat hbc = (unat ?n + unat ?bs div 4) div (1 + unat ?bs div 4)"
    by (simp add: hbc_def unat_div a1 a2)
  obtain t where io: "io = \<lparr>hashes_per_block = ?bs div 4, hash_block_count = t,
      data_block_count = ?n - hbc, zero_crc = crc_of (replicate (unat ?bs) 0)\<rparr>"
    and pos: "?n - hbc > 0" and dev: "dev = verify_dev base io"
    and obj: "obj = \<lparr>generic_block_buffer = g, obj_m = \<lparr>hash_block = hb, which_hash_block = - 1\<rparr>\<rparr>"
    using assms(2) al nz create_zero_crc_ok [OF assms(3)]
    by (auto simp: verify_create_def verify_is_hblock_def Let_def hbc_def [symmetric] add.commute c_assert_def
        split: if_splits bind_splits)
  have "unat ?n + unat ?bs div 4 < Suc (unat ?n) * (1 + unat ?bs div 4)" by simp
  then have "unat hbc < Suc (unat ?n)" unfolding uhbc by (rule less_mult_imp_div_less)
  then have "unat hbc \<le> unat ?n" by simp
  then have "unat (data_block_count io) = data_blocks (unat ?bs div 4) (unat ?n)"
    by (simp add: io data_blocks_def uhbc unat_sub_u64 word_le_nat_alt)
  then show "verify_geo_ok ?bs ?n io" using bs4 assms(4) by (simp add: verify_geo_ok_def io)
  show "dev = verify_dev base io" by (rule dev)
  show "zero_crc io = crc_of (replicate (unat ?bs) 0)" "length (generic_block_buffer obj) = unat ?bs"
    "length (hash_block (obj_m obj)) = unat ?bs" "which_hash_block (obj_m obj) = - 1"
    using alloc_okD [OF assms(1) al(1)] alloc_okD [OF assms(1) al(2)] by (simp_all add: io obj)
qed

section \<open>Properties\<close>

text \<open>The block map of the verify layer is sound for every block size of at least four
  bytes: the hash block and the data block of every block are on the device below, no data block
  is a hash block, different blocks have different data blocks, and blocks share a hash block
  only with different slots in it.\<close>
theorem verify_block_map:
  assumes "verify_geo_ok bs n io" and "v < data_block_count io" and "w < data_block_count io"
  shows "\<exists>hv dv iv hw dw iw.
    verify_place io v = Some (hv, dv, iv) \<and> verify_place io w = Some (hw, dw, iw) \<and>
    hv < n \<and> dv < n \<and> unat (iv * 4) + 4 \<le> unat bs \<and> hv \<noteq> dw \<and>
    (v \<noteq> w \<longrightarrow> dv \<noteq> dw \<and> (hv = hw \<longrightarrow> unat (iv * 4) + 4 \<le> unat (iw * 4) \<or> unat (iw * 4) + 4 \<le> unat (iv * 4)))"
proof -
  let ?h = "unat bs div 4"
  have bs: "4 \<le> unat bs" using assms(1) by (simp add: verify_geo_ok_def)
  note h = hashes_pos(1) [OF bs]
  obtain hv dv iv where v: "verify_place io v = Some (hv, dv, iv)" "unat hv = hpos ?h (unat v)"
    "unat dv = dpos ?h (unat v)" "unat (iv * 4) = unat v mod ?h * 4" "hv < n" "dv < n"
    by (rule verify_place_ok [OF assms(1,2)])
  obtain hw dw iw where w: "verify_place io w = Some (hw, dw, iw)" "unat hw = hpos ?h (unat w)"
    "unat dw = dpos ?h (unat w)" "unat (iw * 4) = unat w mod ?h * 4"
    by (rule verify_place_ok [OF assms(1,3)])
  have "hv \<noteq> dw" using hpos_dpos [OF h, of "unat v" "unat w"] v(2) w(3) by auto
  moreover have "dv = dw \<longleftrightarrow> v = w" using dpos_inj [OF h, of "unat v" "unat w"] v(3) w(3) by (simp add: u64_eq_iff)
  moreover have "unat v mod ?h \<noteq> unat w mod ?h" if "v \<noteq> w" "hv = hw"
  proof -
    have "unat v div ?h = unat w div ?h" using that(2) v(2) w(2) by (simp flip: hpos_eq)
    then show ?thesis using that(1) div_mult_mod_eq by (metis u64_eq_iff)
  qed
  moreover have "unat (iv * 4) + 4 \<le> unat bs" unfolding v(4) by (rule mod_slot_bound [OF h hashes_pos(2)])
  ultimately show ?thesis using v w by (auto simp: neq_iff)
qed

theorem verify_block_map_witness:
  "\<exists>hv dv iv hw dw iw.
    verify_place \<lparr>hashes_per_block = 4, hash_block_count = 2, data_block_count = 7, zero_crc = 0\<rparr> 3 = Some (hv, dv, iv) \<and>
    verify_place \<lparr>hashes_per_block = 4, hash_block_count = 2, data_block_count = 7, zero_crc = 0\<rparr> 6 = Some (hw, dw, iw) \<and>
    hv < 9 \<and> dv < 9 \<and> dv \<noteq> dw"
proof -
  let ?io = "\<lparr>hashes_per_block = 4, hash_block_count = 2, data_block_count = 7, zero_crc = 0\<rparr>"
  have "verify_geo_ok 16 9 ?io" by (simp add: verify_geo_ok_def data_blocks_def)
  from verify_block_map [OF this, of 3 6] show ?thesis by auto
qed

text \<open>A read that returns true returns data that has the CRC stored for it, whatever the
  device below does: reads that fail, data that changed, or a hash block that changed.\<close>
theorem verify_read_is_checked:
  assumes "verify_read_block base io bs st w into = Some (True, into', st')"
  shows "\<exists>hp dp k v. verify_place io w = Some (hp, dp, k) \<and>
    unpack_be32 (hash_block (obj_m (fst st'))) (unat (k * 4)) = Some v \<and>
    calc_crc32 into' (unat bs) = Some (v XOR zero_crc io)"
  by (rule verify_read_block_checks [OF assms])

text \<open>C1: The device that \<open>verify_create\<close> returns over a reliable device whose CRCs match
  keeps the whole contract and stays reliable: every read succeeds and returns the block last
  written, every write keeps all CRCs matching, and the cached hash block is never stale.\<close>
theorem verify_create_device:
  assumes "block_device base valid cont True" and "valid s" and "alloc_ok alloc"
    and "verify_create alloc base = Some (Some (dev, io, obj))" and "unat (block_size base) < 2 ^ 31"
    and "crcs_match (unat (block_size base) div 4) (zero_crc io) (unat (data_block_count io)) (cont s)"
  shows "block_device dev (verify_valid base io valid cont True) (verify_cont base io cont) True \<and>
    verify_valid base io valid cont True (obj, s)"
proof -
  have "unat (block_size base) * unat (block_count base) < 2 ^ 64"
    using block_rw.geometry [OF block_device.axioms(1) [OF assms(1)] assms(2)] by simp
  note c = verify_create_ok [OF assms(3,4,5) this]
  show ?thesis
    using block_device.verify_device [OF assms(1)] c assms(2,6)
    by (simp add: verify_valid_def cache_ok_def)
qed

text \<open>C10: Over an unreliable device the layer still keeps the contract: a read that succeeds
  returns the block, a write changes no other block whatever fails on the way, and no call dies.\<close>
theorem verify_unreliable_device:
  assumes "block_device base valid cont False"
  shows "block_device (verify_dev base io) (verify_valid base io valid cont False) (verify_cont base io cont) False"
  by (rule block_device.verify_device [OF assms])

text \<open>Any sequence of reads; the results are whether they succeeded.\<close>

primrec verify_reads ::
  "'s bdev \<Rightarrow> verify_geo \<Rightarrow> (u64 \<times> bytes) list \<Rightarrow> 's verify_state \<Rightarrow> (bool list \<times> 's verify_state) run" where
  "verify_reads base io [] st = Some ([], st)"
| "verify_reads base io (r # rs) st = do {
     (ok, _, st) \<leftarrow> verify_read_block base io (block_size base) st (fst r) (snd r);
     (oks, st) \<leftarrow> verify_reads base io rs st;
     Some (ok # oks, st) }"

lemma verify_reads_ok:
  assumes "block_device base valid cont True"
    and "\<And>v. v < data_block_count io \<Longrightarrow> slot (unat (block_size base) div 4) (unat v) (c ! hpos (unat (block_size base) div 4) (unat v))
        XOR zero_crc io = crc_of (c ! dpos (unat (block_size base) div 4) (unat v)) \<longleftrightarrow> v \<noteq> w"
    and "block_device.verify_readable base valid cont io st" and "cont (snd st) = c"
    and "\<forall>(v, into) \<in> set rs. v < data_block_count io \<and> unat (block_size base) \<le> length into"
  shows "\<exists>st'. verify_reads base io rs st = Some (map (\<lambda>(v, _). v \<noteq> w) rs, st')"
  using assms(3-5)
proof (induction rs arbitrary: st)
  case (Cons r rs)
  obtain v into where r: "r = (v, into)" by fastforce
  have "v < data_block_count io" "unat (block_size base) \<le> length into" using Cons.prems(3) by (simp_all add: r)
  from block_device.verify_read_block_iff [OF assms(1) Cons.prems(1) this TrueI] assms(2) [OF this(1)] Cons.prems(2)
  obtain into' st1 where 1: "verify_read_block base io (block_size base) st v into = Some (v \<noteq> w, into', st1)"
    "block_device.verify_readable base valid cont io st1" "cont (snd st1) = c" by auto
  then obtain st' where "verify_reads base io rs st1 = Some (map (\<lambda>(v, _). v \<noteq> w) rs, st')"
    using Cons.IH [OF 1(2,3)] Cons.prems(3) by auto
  with 1(1) show ?case by (simp add: r)
qed simp

text \<open>C6: Damage is detected: when at most four consecutive bytes of a data block change behind the
  layer's back, on a device that was consistent, then in any sequence of later reads every read
  of that block returns false, and every read of another block returns true, whichever hash
  block was cached when the damage was done.\<close>
theorem verify_detects_damage:
  assumes "block_device base valid cont True" and "verify_valid base io valid cont True (obj, s)" and "valid s'"
    and "w < data_block_count io"
    and "cont s ! dpos (unat (block_size base) div 4) (unat w) = pre @ xs @ post"
    and "length xs = 4" and "length ys = 4" and "xs \<noteq> ys"
    and "cont s' = (cont s)[dpos (unat (block_size base) div 4) (unat w) := pre @ ys @ post]"
    and "\<forall>(v, into) \<in> set rs. v < data_block_count io \<and> unat (block_size base) \<le> length into"
  shows "\<exists>st'. verify_reads base io rs (obj, s') = Some (map (\<lambda>(v, _). v \<noteq> w) rs, st')"
proof -
  let ?h = "unat (block_size base) div 4"
  have vs: "verify_geo_ok (block_size base) (block_count base) io" "valid s"
    "length (hash_block (obj_m obj)) = unat (block_size base)" "cache_ok ?h (obj_m obj) (cont s)"
    "crcs_match ?h (zero_crc io) (unat (data_block_count io)) (cont s)"
    using assms(2) by (simp_all add: verify_valid_def)
  have h: "0 < ?h" using vs(1) by (simp add: verify_geo_ok_def hashes_pos(1))
  have on: "dpos ?h (unat w) < length (cont s)"
    using block_device.verify_place_on_device [OF assms(1,2)] assms(4) by (simp add: place_ok_def word_less_nat_alt)
  have detects: "slot ?h (unat v) (cont s' ! hpos ?h (unat v)) XOR zero_crc io = crc_of (cont s' ! dpos ?h (unat v)) \<longleftrightarrow> v \<noteq> w"
    if v: "v < data_block_count io" for v
  proof -
    have "cont s' ! hpos ?h (unat v) = cont s ! hpos ?h (unat v)"
      unfolding assms(9) using hpos_dpos [OF h, of "unat v" "unat w"] by (simp add: nth_list_update_neq)
    moreover have "slot ?h (unat v) (cont s ! hpos ?h (unat v)) XOR zero_crc io = crc_of (cont s ! dpos ?h (unat v))"
      using vs(5) v by (simp add: crcs_match_def word_less_nat_alt)
    moreover have "crc_of (cont s ! dpos ?h (unat v)) = crc_of (cont s' ! dpos ?h (unat v)) \<longleftrightarrow> v \<noteq> w"
    proof (cases "v = w")
      case True
      with crc_of_burst [OF assms(6-8), of pre post] on show ?thesis by (simp add: assms(5,9))
    next
      case False
      then have "dpos ?h (unat w) \<noteq> dpos ?h (unat v)" using dpos_inj [OF h] by (simp add: u64_eq_iff)
      then show ?thesis using False by (simp add: assms(9))
    qed
    ultimately show ?thesis by simp
  qed
  have "dpos ?h (unat w) \<noteq> k" if "k mod (?h + 1) = 0" for k
    using dpos_div_mod(2) [OF h, of "unat w"] that by (metis Suc_eq_plus1 nat.distinct(1))
  then have "cache_ok ?h (obj_m obj) (cont s')"
    using vs(4) unfolding cache_ok_def assms(9) by (metis length_list_update nth_list_update_neq)
  then have "block_device.verify_readable base valid cont io (obj, s')"
    using vs(1,3) assms(3) by (simp add: block_device.verify_readable_def [OF assms(1)])
  then show ?thesis using verify_reads_ok [OF assms(1) detects _ _ assms(10)] by simp
qed

text \<open>A small device: nine blocks of sixteen bytes, all zero.\<close>

definition small_geo :: verify_geo where
  "small_geo = \<lparr>hashes_per_block = 4, hash_block_count = 2, data_block_count = 7, zero_crc = crc_of (replicate 16 0)\<rparr>"

definition small_obj :: "verify_io obj" where
  "small_obj = \<lparr>generic_block_buffer = replicate 16 0, obj_m = \<lparr>hash_block = replicate 16 0, which_hash_block = - 1\<rparr>\<rparr>"

lemma small_create:
  "verify_create calloc_alloc (malloc_dev 16 9) = Some (Some (verify_dev (malloc_dev 16 9) small_geo, small_geo, small_obj))"
  by (simp add: verify_create_def malloc_dev_def calloc_alloc_def c_div_def c_mod_def verify_is_hblock_def
      create_zero_crc_ok Let_def small_geo_def small_obj_def)

definition small_ram :: "unit mem_state" where
  "small_ram = ram_of 16 (replicate 9 (replicate 16 0))"

definition small_damaged :: "unit mem_state" where
  "small_damaged = ram_of 16 ((replicate 9 (replicate 16 0))[1 := [0, 7, 0, 7] @ replicate 12 0])"

lemma small_contents:
  "mem_valid 16 9 small_ram" "mem_cont 16 9 small_ram = replicate 9 (replicate 16 0)"
  "mem_valid 16 9 small_damaged"
  "mem_cont 16 9 small_damaged = (replicate 9 (replicate 16 0))[1 := [0, 7, 0, 7] @ replicate 12 0]"
  unfolding small_ram_def small_damaged_def by (auto intro!: ram_of_valid blocked_update)

lemma small_crcs: "crcs_match 4 (crc_of (replicate 16 0)) 7 (replicate 9 (replicate 16 0))"
proof (rule zero_device_crcs_match)
  have "w < 7 \<Longrightarrow> w + w div 4 < 8" for w :: nat by linarith
  moreover have "w < 7 \<Longrightarrow> w div 4 * 5 < 9" for w :: nat by linarith
  ultimately show "place_ok 4 7 (replicate 9 (replicate 16 0))" by (simp add: place_ok_def dpos_def hpos_def)
qed simp

lemma small_valid:
  "verify_valid (malloc_dev 16 9) small_geo (mem_valid 16 9) (mem_cont 16 9) True (small_obj, small_ram)"
  using small_crcs
  by (simp add: verify_valid_def small_geo_def small_obj_def verify_geo_ok_def data_blocks_def cache_ok_def
      small_contents malloc_dev_def)

theorem verify_unreliable_device_witness:
  "block_device (verify_dev (unreadable (malloc_dev 16 9)) small_geo)
    (verify_valid (unreadable (malloc_dev 16 9)) small_geo (mem_valid 16 9 :: unit mem_state \<Rightarrow> bool) (mem_cont 16 9) False)
    (verify_cont (unreadable (malloc_dev 16 9)) small_geo (mem_cont 16 9)) False"
  by (rule verify_unreliable_device [OF malloc.unreadable_device])

theorem verify_create_device_witness:
  "\<exists>dev io obj. verify_create calloc_alloc (malloc_dev 16 9) = Some (Some (dev, io, obj)) \<and>
    block_device dev (verify_valid (malloc_dev 16 9) io (mem_valid 16 9 :: unit mem_state \<Rightarrow> bool) (mem_cont 16 9) True)
      (verify_cont (malloc_dev 16 9) io (mem_cont 16 9)) True \<and>
    verify_valid (malloc_dev 16 9) io (mem_valid 16 9) (mem_cont 16 9) True (obj, small_ram)"
proof -
  note v = small_contents(1)
  have "crcs_match (unat (block_size (malloc_dev 16 9 :: unit mem_state bdev)) div 4) (zero_crc small_geo)
      (unat (data_block_count small_geo)) (mem_cont 16 9 small_ram)"
    using small_crcs by (simp add: small_contents malloc_dev_def small_geo_def)
  moreover have "unat (block_size (malloc_dev 16 9 :: unit mem_state bdev)) < 2 ^ 31" by (simp add: malloc_dev_def)
  ultimately show ?thesis
    using verify_create_device [OF malloc.block_device_axioms v calloc_alloc_ok small_create] small_create by blast
qed

theorem verify_detects_damage_witness:
  "\<exists>st'. verify_reads (malloc_dev 16 9) small_geo [(1, replicate 16 1), (0, replicate 16 1), (5, replicate 16 1), (0, replicate 16 1)]
      (small_obj, small_damaged) = Some ([True, False, True, False], st')"
proof -
  let ?rs = "[(1, replicate 16 1), (0, replicate 16 1), (5, replicate 16 1), (0, replicate 16 1)] :: (u64 \<times> bytes) list"
  have "replicate 16 (0::u8) = replicate 4 0 @ replicate 12 0" by (simp flip: replicate_add)
  then have "replicate 16 (0::u8) = [] @ [0, 0, 0, 0] @ replicate 12 0" by (simp add: numeral_eq_Suc)
  then have "\<exists>st'. verify_reads (malloc_dev 16 9) small_geo ?rs (small_obj, small_damaged) = Some (map (\<lambda>(v, _). v \<noteq> 0) ?rs, st')"
    by (intro verify_detects_damage [where xs = "[0, 0, 0, 0]" and ys = "[0, 7, 0, 7]" and pre = "[]"
          and post = "replicate 12 0" and w = 0, OF malloc.block_device_axioms small_valid small_contents(3)])
      (simp_all add: small_geo_def small_obj_def malloc_dev_def small_contents dpos_def)
  then show ?thesis by simp
qed

text \<open>A read of the small device that returns true.\<close>

theorem verify_read_is_checked_witness:
  "\<exists>into' st' v. verify_read_block (malloc_dev 16 9) small_geo 16 (small_obj, small_ram) 6
      (replicate 16 1) = Some (True, into', st') \<and>
    calc_crc32 into' 16 = Some (v XOR crc_of (replicate 16 0))"
proof -
  let ?v = "verify_valid (malloc_dev 16 9) small_geo (mem_valid 16 9) (mem_cont 16 9) True"
  let ?st = "(small_obj, small_ram)"
  have "(6 :: u64) < data_block_count small_geo" by (simp add: small_geo_def)
  from block_device.verify_read_block_ok [OF malloc.block_device_axioms small_valid this, of "replicate 16 1"]
  obtain into' st' where r: "verify_read_block (malloc_dev 16 9) small_geo 16 ?st 6 (replicate 16 1) = Some (True, into', st')"
    by (auto simp: malloc_dev_def elim!: read_okE)
  from verify_read_is_checked [OF this] have "\<exists>v. calc_crc32 into' 16 = Some (v XOR crc_of (replicate 16 0))"
    by (auto simp: small_geo_def)
  with r show ?thesis by blast
qed

end
