(* ===== verification/Xor.thy ===== *)
theory Xor
  imports Stripe
begin

text \<open>
  \<open>src/src/layers/xor.c\<close>: parity over the devices of an array, as in RAID 5. Row (slice)
  \<open>r\<close> is block \<open>r\<close> of every device; one block of the row, on device \<open>r % count\<close>, is
  the parity of the others. One row is cached in memory, and written back when another row is
  needed.

  A byte of the row buffer that belongs to device \<open>j\<close> sits at \<open>j * block_size + i\<close>;
  \<open>part\<close> computes that offset as the code does, at 64 bits. The loops over the bytes of a block
  count in an \<open>int\<close> (\<open>int_below\<close>): from 2^31 bytes on they leave the rest of the block out.
\<close>

unbundle bit_operations_syntax

section \<open>The layer\<close>

record xor_io =
  row_buf :: bytes
  row_index :: u64
  row_dirty :: bool

type_synonym 's xor_state = "xor_io obj \<times> 's"

definition part :: "u64 \<Rightarrow> nat \<Rightarrow> nat" where
  "part bs i = unat (of_nat i * bs)"

definition xor_get :: "'s xor_state \<Rightarrow> xor_io" where
  "xor_get st = obj_m (fst st)"

definition xor_put :: "xor_io \<Rightarrow> 's \<Rightarrow> 's xor_state \<Rightarrow> 's xor_state" where
  "xor_put io s st = ((fst st)\<lparr>obj_m := io\<rparr>, s)"

text \<open>The loop of \<open>xor_flush_slice\<close>: one failed write is tolerated, a second one ends it.\<close>

primrec xor_flush_loop ::
  "'s bdev list \<Rightarrow> nat \<Rightarrow> nat \<Rightarrow> u64 \<Rightarrow> u64 \<Rightarrow> bytes \<Rightarrow> 's \<Rightarrow> (bool \<times> 's) run" where
  "xor_flush_loop [] i failed bs idx buf s = Some (True, s)"
| "xor_flush_loop (d # ds) i failed bs idx buf s = do {
     (ok, s) \<leftarrow> write_block d s idx (drop (part bs i) buf);
     if ok then xor_flush_loop ds (Suc i) failed bs idx buf s
     else if failed + 1 > 1 then Some (False, s)
     else xor_flush_loop ds (Suc i) (failed + 1) bs idx buf s }"

definition xor_flush_slice :: "'s bdev list \<Rightarrow> u64 \<Rightarrow> 's xor_state \<Rightarrow> (bool \<times> 's xor_state) run" where
  "xor_flush_slice devs bs st = do {
     let io = xor_get st;
     c_assert (row_index io \<noteq> - 1);
     (ok, s) \<leftarrow> xor_flush_loop devs 0 0 bs (row_index io) (row_buf io) (snd st);
     Some (ok, xor_put (if ok then io\<lparr>row_dirty := False\<rparr> else io) s st) }"

text \<open>\<open>b ^= slice[j*block_size + i]\<close> for every \<open>j\<close> but \<open>failed\<close>.\<close>

primrec xor_others :: "nat list \<Rightarrow> u64 \<Rightarrow> nat \<Rightarrow> nat \<Rightarrow> u8 \<Rightarrow> bytes \<Rightarrow> u8 run" where
  "xor_others [] bs failed i b buf = Some b"
| "xor_others (j # js) bs failed i b buf =
    (if j \<noteq> failed then do {
       x \<leftarrow> byte_at buf (part bs j + i);
       xor_others js bs failed i (b XOR x) buf }
     else xor_others js bs failed i b buf)"

definition xor_rebuild_slice_part :: "nat \<Rightarrow> u64 \<Rightarrow> nat \<Rightarrow> bytes \<Rightarrow> bytes run" where
  "xor_rebuild_slice_part count bs failed buf =
    byte_loop (\<lambda>i buf. xor_others [0..<count] bs failed i 0 buf) (part bs failed) (int_below bs) buf"

text \<open>The read loop of \<open>xor_switch_slice\<close>; \<open>which_failed\<close> is \<open>None\<close> for -1. The
  result is false when a second device fails.\<close>

primrec xor_load_loop ::
  "'s bdev list \<Rightarrow> nat \<Rightarrow> nat option \<Rightarrow> u64 \<Rightarrow> u64 \<Rightarrow> bytes \<Rightarrow> 's \<Rightarrow> (bool \<times> nat option \<times> bytes \<times> 's) run" where
  "xor_load_loop [] i which_failed bs idx buf s = Some (True, which_failed, buf, s)"
| "xor_load_loop (d # ds) i which_failed bs idx buf s = do {
     (ok, buf, s) \<leftarrow> read_at (read_block d) s idx buf (part bs i);
     if ok then xor_load_loop ds (Suc i) which_failed bs idx buf s
     else if which_failed \<noteq> None then Some (False, which_failed, buf, s)
     else xor_load_loop ds (Suc i) (Some i) bs idx buf s }"

text \<open>After the loop: rebuild the block of a failed device and try to write it back.\<close>

definition xor_repair ::
  "'s bdev list \<Rightarrow> u64 \<Rightarrow> u64 \<Rightarrow> nat option \<Rightarrow> bytes \<Rightarrow> 's \<Rightarrow> (bytes \<times> 's) run" where
  "xor_repair devs bs idx which_failed buf s =
    (case which_failed of
       None \<Rightarrow> Some (buf, s)
     | Some f \<Rightarrow> do {
         buf \<leftarrow> xor_rebuild_slice_part (length devs) bs f buf;
         d \<leftarrow> c_index devs f;
         (ok, s) \<leftarrow> write_block d s idx (drop (part bs f) buf);
         Some (buf, s) })"

definition xor_load_slice :: "'s bdev list \<Rightarrow> u64 \<Rightarrow> 's xor_state \<Rightarrow> u64 \<Rightarrow> (bool \<times> 's xor_state) run" where
  "xor_load_slice devs bs st idx = do {
     let io = (xor_get st)\<lparr>row_index := - 1\<rparr>;
     (ok, which_failed, buf, s) \<leftarrow> xor_load_loop devs 0 None bs idx (row_buf io) (snd st);
     if \<not> ok then Some (False, xor_put (io\<lparr>row_buf := buf\<rparr>) s st)
     else do {
       (buf, s) \<leftarrow> xor_repair devs bs idx which_failed buf s;
       Some (True, xor_put (io\<lparr>row_buf := buf, row_index := idx\<rparr>) s st) } }"

definition xor_switch_slice :: "'s bdev list \<Rightarrow> u64 \<Rightarrow> 's xor_state \<Rightarrow> u64 \<Rightarrow> (bool \<times> 's xor_state) run" where
  "xor_switch_slice devs bs st idx =
    (if row_index (xor_get st) = idx then Some (True, st)
     else do {
       (ok, st) \<leftarrow> (if row_dirty (xor_get st) then xor_flush_slice devs bs st else Some (True, st));
       if \<not> ok then Some (False, st) else xor_load_slice devs bs st idx })"

text \<open>\<open>slice\<close>, \<open>data_at\<close> and \<open>parity_at\<close>, with the assertions both block operations make.\<close>

definition xor_place :: "nat \<Rightarrow> u64 \<Rightarrow> (u64 \<times> u64 \<times> u64) run" where
  "xor_place count which = do {
     slice \<leftarrow> c_div which (of_nat count - 1);
     data_at \<leftarrow> c_mod which (of_nat count - 1);
     parity_at \<leftarrow> c_mod slice (of_nat count);
     let data_at = (if parity_at \<le> data_at then data_at + 1 else data_at);
     c_assert (parity_at \<noteq> data_at);
     c_assert (data_at < of_nat count);
     c_assert (parity_at < of_nat count);
     Some (slice, data_at, parity_at) }"

definition xor_read_block :: "'s bdev list \<Rightarrow> u64 \<Rightarrow> u64 \<Rightarrow> 's xor_state block_read" where
  "xor_read_block devs bs bc st which into = do {
     c_assert (which < bc);
     (slice, data_at, parity_at) \<leftarrow> xor_place (length devs) which;
     (ok, st) \<leftarrow> xor_switch_slice devs bs st slice;
     if \<not> ok then Some (False, into, st)
     else do {
       d \<leftarrow> rd (row_buf (xor_get st)) (part bs (unat data_at)) (unat bs);
       into \<leftarrow> wr into 0 d;
       Some (True, into, st) } }"

definition xor_write_block :: "'s bdev list \<Rightarrow> u64 \<Rightarrow> u64 \<Rightarrow> 's xor_state src_write" where
  "xor_write_block devs bs bc st which from = do {
     c_assert (which < bc);
     (slice, data_at, parity_at) \<leftarrow> xor_place (length devs) which;
     (ok, st) \<leftarrow> xor_switch_slice devs bs st slice;
     if \<not> ok then Some (False, st)
     else do {
       let io = xor_get st;
       buf \<leftarrow> byte_loop (\<lambda>i buf. do {
           p \<leftarrow> byte_at buf (part bs (unat parity_at) + i);
           x \<leftarrow> byte_at (deref (fst st) from) i;
           y \<leftarrow> byte_at buf (part bs (unat data_at) + i);
           Some (p XOR (x XOR y)) }) (part bs (unat parity_at)) (int_below bs) (row_buf io);
       d \<leftarrow> rd (deref (fst st) from) 0 (unat bs);
       buf \<leftarrow> wr buf (part bs (unat data_at)) d;
       Some (True, xor_put (io\<lparr>row_buf := buf, row_dirty := True\<rparr>) (snd st) st) } }"

definition xor_close :: "'s xor_state \<Rightarrow> 's run" where
  "xor_close st = Some (snd st)"

definition xor_clear_caches :: "'s bdev list \<Rightarrow> u64 \<Rightarrow> 's xor_state \<Rightarrow> 's xor_state run" where
  "xor_clear_caches devs bs st = do {
     (ok, st) \<leftarrow> xor_flush_slice devs bs st;
     let st = xor_put ((xor_get st)\<lparr>row_index := - 1\<rparr>) (snd st) st;
     below (each_device clear_caches devs) st }"

definition xor_flush :: "'s bdev list \<Rightarrow> u64 \<Rightarrow> 's xor_state \<Rightarrow> 's xor_state run" where
  "xor_flush devs bs st = do {
     (ok, st) \<leftarrow> xor_flush_slice devs bs st;
     below (each_device flush devs) st }"

definition xor_sync :: "'s bdev list \<Rightarrow> u64 \<Rightarrow> 's xor_state \<Rightarrow> 's xor_state run" where
  "xor_sync devs bs st = do {
     st \<leftarrow> xor_flush devs bs st;
     below (each_device sync devs) st }"

definition xor_dev :: "'s bdev list \<Rightarrow> u64 \<Rightarrow> u64 \<Rightarrow> 's xor_state bdev" where
  "xor_dev devs bs bc =
    \<lparr>block_size = bs, block_count = bc,
     read_bytes = generic_read_bytes bs bc (xor_read_block devs bs bc),
     write_bytes = generic_write_bytes bs bc (xor_read_block devs bs bc) (xor_write_block devs bs bc),
     read_block = xor_read_block devs bs bc,
     write_block = (\<lambda>st which from. xor_write_block devs bs bc st which (Ext from)),
     clear_caches = xor_clear_caches devs bs, flush = xor_flush devs bs, sync = xor_sync devs bs\<rparr>"

definition xor_open ::
  "allocator \<Rightarrow> 's bdev list \<Rightarrow> ('s xor_state bdev \<times> xor_io obj) option run" where
  "xor_open alloc devices =
    (if length devices < 3 then Some None
     else let bs = block_size (devices ! 0) in
       if \<not> list_all (\<lambda>d. block_size d = bs) (tl devices) then Some None
       else do {
         g \<leftarrow> alloc (unat bs);
         buf \<leftarrow> alloc (unat (bs * of_nat (length devices)));
         let bc = min_drive_size devices * (of_nat (length devices) - 1);
         Some (Some (xor_dev devices bs bc,
           \<lparr>generic_block_buffer = g,
            obj_m = \<lparr>row_buf = buf, row_index = - 1, row_dirty = False\<rparr>\<rparr>)) })"

lemma xor_state_simps [simp]:
  "xor_get (xor_put io s st) = io" "snd (xor_put io s st) = s"
  "generic_block_buffer (fst (xor_put io s st)) = generic_block_buffer (fst st)"
  "xor_get (set_buffer st g) = xor_get st" "snd (set_buffer st g) = snd st"
  "generic_block_buffer (fst (set_buffer st g)) = g"
  "fst (xor_put io s (xor_put io' s' st)) = fst (xor_put io s st)"
  by (simp_all add: xor_get_def xor_put_def set_buffer_def)

end
