(* ===== verification/XorRows.thy ===== *)
theory XorRows
  imports Prelude
begin

text \<open>
  The mathematics of the parity layer: rows of equal-length blocks whose bytewise exclusive or
  is zero, and where the blocks of the array sit in its rows. No program is modelled here; the
  lemmas are shared by the proofs about \<open>xor.c\<close>.
\<close>

unbundle bit_operations_syntax

section \<open>Sums by exclusive or\<close>

definition xor_sum :: "u8 list \<Rightarrow> u8" where
  "xor_sum xs = foldr (XOR) xs 0"

lemma xor_sum_simps [simp]: "xor_sum [] = 0" "xor_sum (x # xs) = x XOR xor_sum xs"
  by (simp_all add: xor_sum_def)

lemma xor_sum_append: "xor_sum (xs @ ys) = xor_sum xs XOR xor_sum ys"
  by (induction xs) (simp_all add: xor.assoc)

lemma xor_same_left: "x XOR (x XOR y) = (y :: u8)"
  by (simp only: xor.assoc [symmetric] xor_self_eq xor.left_neutral)

lemma xor_sum_update:
  assumes "k < length xs"
  shows "xor_sum (xs[k := v]) = xor_sum xs XOR (xs ! k XOR v)"
  using assms
proof (induction xs arbitrary: k)
  case (Cons x xs)
  show ?case
  proof (cases k)
    case 0
    have "v XOR xor_sum xs = (x XOR xor_sum xs) XOR (x XOR v)"
      by (simp add: xor.commute xor.left_commute xor_same_left)
    with 0 show ?thesis by simp
  next
    case (Suc j)
    with Cons show ?thesis by (simp add: xor.assoc)
  qed
qed simp

lemma xor_sum_others:
  assumes "k < n"
  shows "xor_sum (map f (filter (\<lambda>j. j \<noteq> k) [0..<n])) = xor_sum (map f [0..<n]) XOR f k"
proof -
  have split: "[0..<n] = [0..<k] @ k # [Suc k..<n]"
    using assms by (metis le_add1 less_imp_le_nat upt_conv_Cons upt_add_eq_append le_add_diff_inverse plus_nat.add_0)
  have "filter (\<lambda>j. j \<noteq> k) [0..<n] = [0..<k] @ [Suc k..<n]"
    unfolding split by (simp add: filter_empty_conv filter_id_conv)
  then have "xor_sum (map f (filter (\<lambda>j. j \<noteq> k) [0..<n])) = xor_sum (map f [0..<k]) XOR xor_sum (map f [Suc k..<n])"
    by (simp add: xor_sum_append)
  moreover have "xor_sum (map f [0..<n]) = xor_sum (map f [0..<k]) XOR (f k XOR xor_sum (map f [Suc k..<n]))"
    by (subst split) (simp add: xor_sum_append)
  ultimately show ?thesis
    by (simp add: xor.commute xor.left_commute xor_same_left)
qed

section \<open>Balanced rows\<close>

definition balanced :: "nat \<Rightarrow> bytes list \<Rightarrow> bool" where
  "balanced bs bl \<longleftrightarrow> (\<forall>i < bs. xor_sum (map (\<lambda>b. b ! i) bl) = 0)"

text \<open>The block that the others determine.\<close>

lemma balanced_block:
  assumes "balanced bs bl" and "k < length bl" and "i < bs"
  shows "xor_sum (map (\<lambda>j. bl ! j ! i) (filter (\<lambda>j. j \<noteq> k) [0..<length bl])) = bl ! k ! i"
proof -
  have "map (\<lambda>j. bl ! j ! i) [0..<length bl] = map (\<lambda>b. b ! i) bl"
    by (intro nth_equalityI) auto
  with assms xor_sum_others [OF assms(2), of "\<lambda>j. bl ! j ! i"] show ?thesis
    by (simp add: balanced_def)
qed

text \<open>Writing block \<open>d\<close> and moving the parity block by the difference keeps a row balanced.\<close>

lemma balanced_write:
  assumes b: "balanced bs bl" and p: "p < length bl" and d: "d < length bl" and "p \<noteq> d"
    and v: "\<And>i. i < bs \<Longrightarrow> v ! i = bl ! p ! i XOR (x ! i XOR bl ! d ! i)"
  shows "balanced bs (bl[p := v, d := x])"
  unfolding balanced_def
proof (intro allI impI)
  fix i assume i: "i < bs"
  let ?c = "map (\<lambda>b. b ! i) bl"
  have "map (\<lambda>b. b ! i) (bl[p := v, d := x]) = ?c[p := v ! i, d := x ! i]"
    by (simp add: map_update)
  then have "xor_sum (map (\<lambda>b. b ! i) (bl[p := v, d := x])) =
      xor_sum ?c XOR (bl ! p ! i XOR v ! i) XOR (bl ! d ! i XOR x ! i)"
    using p d \<open>p \<noteq> d\<close> by (simp add: xor_sum_update xor.assoc)
  also have "xor_sum ?c = 0" using b i by (simp add: balanced_def)
  also have "0 XOR (bl ! p ! i XOR v ! i) XOR (bl ! d ! i XOR x ! i) = 0"
    unfolding v [OF i] by (simp add: xor.commute xor.left_commute xor_same_left)
  finally show "xor_sum (map (\<lambda>b. b ! i) (bl[p := v, d := x])) = 0" .
qed

lemma balanced_zero: "balanced bs (replicate n (replicate bs 0))"
proof -
  have "xor_sum (replicate n 0) = 0" by (induction n) simp_all
  then show ?thesis by (simp add: balanced_def)
qed

section \<open>Where blocks go\<close>

text \<open>For an array of \<open>n\<close> devices: the row of block \<open>w\<close>, the device of its parity, and
  the device of the block.\<close>

definition xrow :: "nat \<Rightarrow> nat \<Rightarrow> nat" where
  "xrow n w = w div (n - 1)"

definition xpar :: "nat \<Rightarrow> nat \<Rightarrow> nat" where
  "xpar n w = xrow n w mod n"

definition xcol :: "nat \<Rightarrow> nat \<Rightarrow> nat" where
  "xcol n w = (if xpar n w \<le> w mod (n - 1) then w mod (n - 1) + 1 else w mod (n - 1))"

lemma xcol_bounds:
  assumes "2 \<le> n"
  shows "xcol n w < n" "xpar n w < n" "xcol n w \<noteq> xpar n w"
proof -
  have "w mod (n - 1) < n - 1" using assms by simp
  then show "xcol n w < n" unfolding xcol_def by (split if_split) linarith
  show "xpar n w < n" using assms by (simp add: xpar_def)
  show "xcol n w \<noteq> xpar n w" by (simp add: xcol_def)
qed

lemma xplace_inj:
  assumes "xrow n v = xrow n w" and "xcol n v = xcol n w"
  shows "v = w"
proof -
  have "xpar n v = xpar n w" using assms(1) by (simp add: xpar_def)
  then have "v mod (n - 1) = w mod (n - 1)"
    using assms(2) unfolding xcol_def by (auto split: if_splits)
  moreover have "v div (n - 1) = w div (n - 1)" using assms(1) by (simp add: xrow_def)
  ultimately show ?thesis by (metis div_mult_mod_eq)
qed

end
