(* ===== verification/XorContract.thy ===== *)
theory XorContract
  imports Xor XorRows
begin

text \<open>
  What the parity layer guarantees. Over reliable devices it keeps the contract of its block
  and byte operations, every row stays balanced, and the cached row is the row of the devices
  unless it is dirty. When one device cannot read its block of a row, the block is computed
  from the others, and a read returns the data that the lost block held.
\<close>

unbundle bit_operations_syntax

section \<open>Rows\<close>

text \<open>Row \<open>r\<close> of the devices, and the row a read sees: the cached one if it is cached.\<close>

definition row_of :: "bytes list list \<Rightarrow> nat \<Rightarrow> bytes list" where
  "row_of cs r = map (\<lambda>c. c ! r) cs"

definition buf_row :: "'s bdev list \<Rightarrow> u64 \<Rightarrow> xor_io \<Rightarrow> bytes list" where
  "buf_row devs bs io = blocks_of (unat bs) (length devs) (row_buf io)"

definition seen_row ::
  "'s bdev list \<Rightarrow> u64 \<Rightarrow> ('s \<Rightarrow> bytes list list) \<Rightarrow> 's xor_state \<Rightarrow> nat \<Rightarrow> bytes list" where
  "seen_row devs bs conts st r =
    (if unat (row_index (xor_get st)) = r then buf_row devs bs (xor_get st)
     else row_of (conts (snd st)) r)"

definition xor_cont ::
  "'s bdev list \<Rightarrow> u64 \<Rightarrow> u64 \<Rightarrow> ('s \<Rightarrow> bytes list list) \<Rightarrow> 's xor_state \<Rightarrow> bytes list" where
  "xor_cont devs bs bc conts st =
    map (\<lambda>w. seen_row devs bs conts st (xrow (length devs) w) ! xcol (length devs) w) [0..<unat bc]"

text \<open>The geometry \<open>xor_open\<close> establishes.\<close>

definition xor_geo :: "'s bdev list \<Rightarrow> u64 \<Rightarrow> u64 \<Rightarrow> bool" where
  "xor_geo devs bs bc \<longleftrightarrow> 3 \<le> length devs \<and> array_geometry devs bs (length devs - 1) bc \<and>
     length devs * unat bs < 2 ^ 64"

definition xor_shape ::
  "'s bdev list \<Rightarrow> u64 \<Rightarrow> u64 \<Rightarrow> ('s \<Rightarrow> bool) \<Rightarrow> 's xor_state \<Rightarrow> bool" where
  "xor_shape devs bs bc valid st \<longleftrightarrow> xor_geo devs bs bc \<and>
     length (generic_block_buffer (fst st)) = unat bs \<and>
     length (row_buf (xor_get st)) = length devs * unat bs \<and> valid (snd st)"

text \<open>The invariant over reliable devices.\<close>

definition xor_valid ::
  "'s bdev list \<Rightarrow> u64 \<Rightarrow> u64 \<Rightarrow> ('s \<Rightarrow> bool) \<Rightarrow> ('s \<Rightarrow> bytes list list) \<Rightarrow> 's xor_state \<Rightarrow> bool" where
  "xor_valid devs bs bc valid conts st \<longleftrightarrow> xor_shape devs bs bc valid st \<and>
     (\<forall>r < unat (min_drive_size devs). balanced (unat bs) (row_of (conts (snd st)) r)) \<and>
     (row_index (xor_get st) \<noteq> - 1 \<longrightarrow>
        row_index (xor_get st) < min_drive_size devs \<and>
        balanced (unat bs) (buf_row devs bs (xor_get st)) \<and>
        (\<not> row_dirty (xor_get st) \<longrightarrow>
           buf_row devs bs (xor_get st) = row_of (conts (snd st)) (unat (row_index (xor_get st))))) \<and>
     (row_dirty (xor_get st) \<longrightarrow> row_index (xor_get st) \<noteq> - 1)"

lemma length_buf_row [simp]: "length (buf_row devs bs io) = length devs"
  by (simp add: buf_row_def)

lemma length_row_of [simp]: "length (row_of cs r) = length cs"
  by (simp add: row_of_def)

lemma nth_row_of [simp]: "j < length cs \<Longrightarrow> row_of cs r ! j = cs ! j ! r"
  by (simp add: row_of_def)

lemma xor_geo_count:
  assumes "xor_geo devs bs bc"
  shows "2 \<le> length devs" "length devs < 2 ^ 31" "unat (of_nat (length devs) :: u64) = length devs"
    "unat (of_nat (length devs) - 1 :: u64) = length devs - 1" "0 < unat bs"
    "unat (min_drive_size devs) * (length devs - 1) = unat bc"
proof -
  show n: "length devs < 2 ^ 31" and "2 \<le> length devs" and "0 < unat bs"
    and "unat (min_drive_size devs) * (length devs - 1) = unat bc"
    using assms by (simp_all add: xor_geo_def array_geometry_def)
  show u: "unat (of_nat (length devs) :: u64) = length devs" by (rule unat_count [OF n])
  then show "unat (of_nat (length devs) - 1 :: u64) = length devs - 1"
    using \<open>2 \<le> length devs\<close> by (subst unat_sub_u64) (simp_all add: word_le_nat_alt)
qed

lemma part_eq:
  assumes "xor_geo devs bs bc" and "j < length devs"
  shows "part bs j = j * unat bs" "part bs j + unat bs \<le> length devs * unat bs"
proof -
  have "Suc j * unat bs \<le> length devs * unat bs" using assms(2) by (intro mult_le_mono1) simp
  then have le: "j * unat bs + unat bs \<le> length devs * unat bs" by simp
  have lim: "length devs * unat bs < 2 ^ 64" using assms(1) by (simp add: xor_geo_def)
  have "j < 2 ^ 31" using assms(2) xor_geo_count(2) [OF assms(1)] by simp
  then have u: "unat (of_nat j :: u64) = j" by (simp add: unsigned_of_nat take_bit_nat_eq_self_iff)
  then show p: "part bs j = j * unat bs"
    using le lim unat_mult_u64 [of "of_nat j" bs] by (simp add: part_def)
  show "part bs j + unat bs \<le> length devs * unat bs" unfolding p by (rule le)
qed

lemma xor_place_ok:
  assumes "xor_geo devs bs bc" and "w < bc"
  obtains r d p where "xor_place (length devs) w = Some (r, d, p)"
    "unat r = xrow (length devs) (unat w)" "unat d = xcol (length devs) (unat w)"
    "unat p = xpar (length devs) (unat w)" "r < min_drive_size devs" "r \<noteq> - 1"
proof -
  let ?n = "length devs"
  note c = xor_geo_count [OF assms(1)]
  let ?r = "w div (of_nat ?n - 1)" and ?e = "w mod (of_nat ?n - 1)"
  let ?p = "?r mod of_nat ?n"
  let ?d = "if ?p \<le> ?e then ?e + 1 else ?e"
  have nz: "of_nat ?n - 1 \<noteq> (0 :: u64)" "of_nat ?n \<noteq> (0 :: u64)"
    using c(1,3,4) by (metis unat_0 diff_is_0_eq not_less_eq_eq numeral_2_eq_2 One_nat_def le_zero_eq nat.distinct(1))+
  have ur: "unat ?r = xrow ?n (unat w)" and up: "unat ?p = xpar ?n (unat w)"
    and ud0: "unat ?e = unat w mod (?n - 1)"
    by (simp_all add: unat_div unat_mod c(3,4) xrow_def xpar_def)
  have "unat w mod (?n - 1) < ?n - 1" using c(1) by simp
  moreover have "(2 :: nat) ^ 31 + 1 < 2 ^ 64" by simp
  ultimately have "unat ?e + 1 < 2 ^ 64" unfolding ud0 using c(2) by linarith
  then have s: "unat (?e + 1) = unat ?e + 1" using unat_add_u64 [of ?e 1] by simp
  have cond: "?p \<le> ?e \<longleftrightarrow> xpar ?n (unat w) \<le> unat w mod (?n - 1)"
    by (simp only: word_le_nat_alt up ud0)
  have "unat ?d = (if ?p \<le> ?e then unat ?e + 1 else unat ?e)"
    using s by (cases "?p \<le> ?e") (simp_all only: if_True if_False)
  then have ud: "unat ?d = xcol ?n (unat w)" by (simp only: xcol_def cond ud0)
  note b = xcol_bounds [OF c(1), of "unat w"]
  have "unat w < unat (min_drive_size devs) * (?n - 1)"
    unfolding c(6) using assms(2) by (simp only: word_less_nat_alt)
  then have "xrow ?n (unat w) < unat (min_drive_size devs)"
    unfolding xrow_def by (rule less_mult_imp_div_less)
  then have lt: "?r < min_drive_size devs" by (simp add: word_less_nat_alt ur)
  show thesis
  proof (rule that [OF _ ur ud up lt u64_less_not_max [OF lt]])
    have "?p \<noteq> ?d"
    proof
      assume "?p = ?d"
      then have "unat ?p = unat ?d" by (rule arg_cong)
      with b(3) show False by (simp only: ud up)
    qed
    moreover have "?d < of_nat ?n" "?p < of_nat ?n"
      using b(1,2) by (simp_all only: word_less_nat_alt ud up c(3))
    ultimately show "xor_place ?n w = Some (?r, ?d, ?p)"
      using nz by (simp add: xor_place_def Let_def)
  qed
qed

section \<open>Loading and flushing a row\<close>

context device_array
begin

lemma xor_dev_facts:
  assumes "xor_geo devs bs bc" and "j < length devs" and "valid s" and "idx < min_drive_size devs"
  shows "block_size (devs ! j) = bs" "idx < block_count (devs ! j)"
    "length (conts s ! j ! unat idx) = unat bs" "unat idx < length (conts s ! j)"
proof -
  have "array_geometry devs bs (length devs - 1) bc" using assms(1) by (simp add: xor_geo_def)
  then show b: "block_size (devs ! j) = bs" by (rule geometry_block_size [OF _ assms(2)])
  show l: "idx < block_count (devs ! j)"
    using assms(4) min_drive_size_le [OF assms(2)] by (rule less_le_trans)
  show "unat idx < length (conts s ! j)" "length (conts s ! j ! unat idx) = unat bs"
    using dev_geometry(3,4) [OF assms(3,2)] l b by (simp_all add: word_less_nat_alt blocked_nth)
qed

lemma xor_flush_loop_ok:
  assumes g: "xor_geo devs bs bc" and idx: "idx < min_drive_size devs"
    and l: "length buf = length devs * unat bs" and all: "\<forall>j < length devs. rel j"
    and "valid s" and "i \<le> length devs"
  shows "\<exists>s'. xor_flush_loop (drop i devs) i failed bs idx buf s = Some (True, s') \<and> valid s' \<and>
    (\<forall>j < length devs. conts s' ! j =
      (if j < i then conts s ! j else (conts s ! j)[unat idx := block_at (unat bs) buf j]))"
  using assms(5,6)
proof (induction "length devs - i" arbitrary: i s)
  case 0
  then show ?case by (intro exI [of _ s]) auto
next
  case (Suc k)
  then have i: "i < length devs" by simp
  then have d: "drop i devs = devs ! i # drop (Suc i) devs" by (simp add: Cons_nth_drop_Suc)
  note f = xor_dev_facts [OF g i Suc.prems(1) idx]
  note p = part_eq [OF g i]
  have "unat (block_size (devs ! i)) \<le> length (drop (part bs i) buf)" using p(2) l f(1) by simp
  then obtain ok s1 b where r: "write_block (devs ! i) s idx (drop (part bs i) buf) = Some (ok, s1)" "valid s1"
    "rel i \<Longrightarrow> ok" "conts s1 = (conts s)[i := (conts s ! i)[unat idx := b]]"
    "ok \<Longrightarrow> b = take (unat (block_size (devs ! i))) (drop (part bs i) buf)"
    by (rule dev_write [OF Suc.prems(1) i f(2)]) blast
  have ok using r(3) all i by blast
  then have b: "b = block_at (unat bs) buf i" using r(5) f(1) p(1) by (simp add: block_at_def)
  have k: "k = length devs - Suc i" using Suc.hyps(2) by simp
  obtain s' where s': "xor_flush_loop (drop (Suc i) devs) (Suc i) failed bs idx buf s1 = Some (True, s')" "valid s'"
    "\<forall>j < length devs. conts s' ! j =
      (if j < Suc i then conts s1 ! j else (conts s1 ! j)[unat idx := block_at (unat bs) buf j])"
    using Suc.hyps(1) [OF k r(2) Suc_leI [OF i]] by blast
  have "conts s' ! j = (if j < i then conts s ! j else (conts s ! j)[unat idx := block_at (unat bs) buf j])"
    if "j < length devs" for j
    using s'(3) that i conts_length [OF Suc.prems(1)] unfolding r(4) b by (auto simp: nth_list_update less_Suc_eq)
  then show ?case using s'(1,2) r(1) \<open>ok\<close> d by (intro exI [of _ s']) auto
qed

text \<open>\<open>F\<close> names the one device that cannot read row \<open>idx\<close>, if there is one.\<close>

definition failed_before :: "nat option \<Rightarrow> nat \<Rightarrow> nat option" where
  "failed_before F i = (case F of None \<Rightarrow> None | Some f \<Rightarrow> if f < i then Some f else None)"

lemma xor_load_loop_ok:
  assumes g: "xor_geo devs bs bc" and idx: "idx < min_drive_size devs"
    and good: "\<And>j. j < length devs \<Longrightarrow> F \<noteq> Some j \<Longrightarrow> rel j"
    and bad: "\<And>j s into. F = Some j \<Longrightarrow> valid s \<Longrightarrow> conts s = C \<Longrightarrow> unat bs \<le> length into \<Longrightarrow>
      \<exists>into' s'. read_block (devs ! j) s idx into = Some (False, into', s')"
    and "valid s" "conts s = C" "length buf = length devs * unat bs" "i \<le> length devs"
  shows "\<exists>buf' s'. xor_load_loop (drop i devs) i (failed_before F i) bs idx buf s =
      Some (True, failed_before F (length devs), buf', s') \<and> valid s' \<and> conts s' = C \<and>
      length buf' = length buf \<and>
      (\<forall>j < length devs. F \<noteq> Some j \<longrightarrow>
        block_at (unat bs) buf' j = (if j < i then block_at (unat bs) buf j else C ! j ! unat idx))"
  using assms(5-8)
proof (induction "length devs - i" arbitrary: i s buf)
  case 0
  then show ?case by (intro exI [of _ buf] exI [of _ s]) auto
next
  case (Suc k)
  then have i: "i < length devs" by simp
  then have d: "drop i devs = devs ! i # drop (Suc i) devs" by (simp add: Cons_nth_drop_Suc)
  note f = xor_dev_facts [OF g i Suc.prems(1) idx]
  note p = part_eq [OF g i]
  have l: "unat bs \<le> length (drop (part bs i) buf)" using p(2) Suc.prems(3) by simp
  have "unat (block_size (devs ! i)) \<le> length (drop (part bs i) buf)" using l f(1) by simp
  from dev_read [OF Suc.prems(1) i f(2) this]
  obtain ok t s1 where r: "read_block (devs ! i) s idx (drop (part bs i) buf) = Some (ok, t, s1)" "valid s1"
    "conts s1 = conts s" "length t = length (drop (part bs i) buf)" "rel i \<Longrightarrow> ok"
    "ok \<Longrightarrow> t = patch 0 (conts s ! i ! unat idx) (drop (part bs i) buf)"
    by (rule read_okE) blast
  let ?buf = "take (part bs i) buf @ t"
  have ra: "read_at (read_block (devs ! i)) s idx buf (part bs i) = Some (ok, ?buf, s1)"
    using r(1) by (simp add: read_at_def)
  have lb: "length ?buf = length devs * unat bs" using r(4) p(2) Suc.prems(3) by simp
  have okF: "ok \<longleftrightarrow> F \<noteq> Some i" using r(1,5) good [OF i] bad [OF _ Suc.prems(1,2) l, of i] by auto
  have next_step: "xor_load_loop (drop i devs) i (failed_before F i) bs idx buf s =
      xor_load_loop (drop (Suc i) devs) (Suc i) (failed_before F (Suc i)) bs idx ?buf s1"
    unfolding d using okF by (auto simp: ra failed_before_def split: option.splits)
  have "k = length devs - Suc i" "Suc i \<le> length devs" using Suc.hyps(2) i by auto
  from Suc.hyps(1) [OF this(1) r(2) _ lb this(2)] r(3) Suc.prems(2)
  obtain buf' s' where s': "xor_load_loop (drop (Suc i) devs) (Suc i) (failed_before F (Suc i)) bs idx ?buf s1 =
      Some (True, failed_before F (length devs), buf', s')" "valid s'" "conts s' = C" "length buf' = length ?buf"
    "\<And>j. j < length devs \<Longrightarrow> F \<noteq> Some j \<Longrightarrow>
      block_at (unat bs) buf' j = (if j < Suc i then block_at (unat bs) ?buf j else C ! j ! unat idx)"
    by auto
  have old: "block_at (unat bs) ?buf j = block_at (unat bs) buf j" if "j < i" for j
  proof -
    have "Suc j * unat bs \<le> i * unat bs" using that by (intro mult_le_mono1) simp
    moreover have "i * unat bs \<le> length buf" using p(2) Suc.prems(3) unfolding p(1) by linarith
    ultimately show ?thesis unfolding p(1) by (intro block_at_prefix) simp_all
  qed
  have this_block: "block_at (unat bs) ?buf i = C ! i ! unat idx" if "F \<noteq> Some i"
  proof -
    have "i * unat bs \<le> length buf" using p(2) Suc.prems(3) unfolding p(1) by linarith
    with r(6) okF that p f(3) Suc.prems(2,3) show ?thesis by (simp add: block_at_def min_absorb2)
  qed
  show ?case
    using s'(1-4) lb Suc.prems(3) old this_block
    by (intro exI [of _ buf'] exI [of _ s']) (auto simp: next_step s'(5) less_Suc_eq)
qed

end

text \<open>The rebuilt block is the exclusive or of the others.\<close>

lemma xor_others_ok:
  assumes "\<And>j. j \<in> set js \<Longrightarrow> j \<noteq> f \<Longrightarrow> part bs j + i < length buf"
  shows "xor_others js bs f i b buf =
    Some (b XOR xor_sum (map (\<lambda>j. buf ! (part bs j + i)) (filter (\<lambda>j. j \<noteq> f) js)))"
  using assms by (induction js arbitrary: b) (simp_all add: xor.assoc)

lemma nth_block_at:
  assumes "i < bs" and "j * bs + bs \<le> length buf"
  shows "block_at bs buf j ! i = buf ! (j * bs + i)"
  using assms by (simp add: block_at_def)

lemma xor_rebuild_ok:
  assumes g: "xor_geo devs bs bc" and small: "unat bs < 2 ^ 31"
    and l: "length buf = length devs * unat bs" and f: "f < length devs"
    and A: "balanced (unat bs) A" "length A = length devs" "length (A ! f) = unat bs"
    and row: "\<And>j. j < length devs \<Longrightarrow> j \<noteq> f \<Longrightarrow> block_at (unat bs) buf j = A ! j"
  shows "xor_rebuild_slice_part (length devs) bs f buf = Some (patch (f * unat bs) (A ! f) buf)"
proof -
  let ?n = "length devs" and ?B = "unat bs"
  note p = part_eq [OF g]
  have pf: "f * ?B + ?B \<le> length buf" using p(2) [OF f] p(1) [OF f] l by simp
  have "byte_loop (\<lambda>i buf. xor_others [0..<?n] bs f i 0 buf) (f * ?B) [0..<?B] buf =
      Some (patch (f * ?B) (map (\<lambda>i. A ! f ! i) [0..<?B]) buf)"
  proof (rule byte_loop_patch [OF pf])
    fix i and src :: bytes assume i: "i < ?B" and s: "length src = i"
    let ?buf = "patch (f * ?B) src buf"
    have lb: "length ?buf = length buf" using pf i s by simp
    have in_buf: "j * ?B + ?B \<le> length buf" if "j < ?n" for j
      using p(2) [OF that] p(1) [OF that] l by simp
    have byte: "?buf ! (part bs j + i) = A ! j ! i" if "j < ?n" "j \<noteq> f" for j
    proof -
      have "Suc j \<le> f \<or> Suc f \<le> j" using that(2) by linarith
      then have "j * ?B + ?B \<le> f * ?B \<or> f * ?B + ?B \<le> j * ?B"
        using mult_le_mono1 [of "Suc j" f ?B] mult_le_mono1 [of "Suc f" j ?B] by auto
      then have "\<not> (f * ?B \<le> j * ?B + i \<and> j * ?B + i < f * ?B + length src)"
        using i s by linarith
      moreover have "j * ?B + i < length buf" using in_buf [OF that(1)] i by linarith
      moreover have "f * ?B + length src \<le> length buf" using pf i s by linarith
      ultimately have "?buf ! (j * ?B + i) = buf ! (j * ?B + i)" by (simp only: nth_patch if_False)
      then show ?thesis
        using row [OF that] nth_block_at [OF i in_buf [OF that(1)]] p(1) [OF that(1)] by simp
    qed
    have "part bs j + i < length ?buf" if "j \<in> set [0..<?n]" for j
      using that in_buf [of j] p(1) [of j] i lb by simp
    then have "xor_others [0..<?n] bs f i 0 ?buf =
        Some (xor_sum (map (\<lambda>j. ?buf ! (part bs j + i)) (filter (\<lambda>j. j \<noteq> f) [0..<?n])))"
      by (subst xor_others_ok) auto
    also have "map (\<lambda>j. ?buf ! (part bs j + i)) (filter (\<lambda>j. j \<noteq> f) [0..<?n]) =
        map (\<lambda>j. A ! j ! i) (filter (\<lambda>j. j \<noteq> f) [0..<?n])"
      using byte by simp
    also have "xor_sum \<dots> = A ! f ! i"
      using balanced_block [OF A(1) _ i, of f] f A(2) by simp
    finally show "xor_others [0..<?n] bs f i 0 ?buf = Some (A ! f ! i)" .
  qed
  moreover have "map (\<lambda>i. A ! f ! i) [0..<?B] = A ! f"
    using map_nth [of "A ! f"] A(3) by simp
  ultimately show ?thesis by (simp add: xor_rebuild_slice_part_def p(1) [OF f] int_below_all [OF small])
qed

text \<open>Writes of block \<open>w\<close> report success.\<close>

definition writable :: "'s bdev \<Rightarrow> ('s \<Rightarrow> bool) \<Rightarrow> u64 \<Rightarrow> bool" where
  "writable d valid w \<longleftrightarrow> (\<forall>s from. valid s \<and> unat (block_size d) \<le> length from \<longrightarrow>
     (\<exists>s'. write_block d s w from = Some (True, s')))"

context device_array
begin

text \<open>Loading a row that is balanced, when at most one device cannot read its block. The row
  \<open>A\<close> is what the devices hold; of the failing device it is what the device held.\<close>

lemma xor_load_slice_ok:
  assumes sh: "xor_shape devs bs bc valid st" and idx: "idx < min_drive_size devs"
    and A: "balanced (unat bs) A" "length A = length devs" "blocked (unat bs) A"
    and good: "\<And>j. j < length devs \<Longrightarrow> F \<noteq> Some j \<Longrightarrow> rel j \<and> conts (snd st) ! j ! unat idx = A ! j"
    and bad: "\<And>j s into. F = Some j \<Longrightarrow> valid s \<Longrightarrow> conts s = conts (snd st) \<Longrightarrow> unat bs \<le> length into \<Longrightarrow>
      \<exists>into' s'. read_block (devs ! j) s idx into = Some (False, into', s')"
    and F: "\<And>f. F = Some f \<Longrightarrow> f < length devs \<and> unat bs < 2 ^ 31"
  obtains buf s where
    "xor_load_slice devs bs st idx = Some (True, xor_put ((xor_get st)\<lparr>row_buf := buf, row_index := idx\<rparr>) s st)"
    "length buf = length devs * unat bs" "blocks_of (unat bs) (length devs) buf = A" "valid s"
    "F = None \<Longrightarrow> conts s = conts (snd st)"
    "\<And>f. F = Some f \<Longrightarrow> \<exists>b. conts s = (conts (snd st))[f := (conts (snd st) ! f)[unat idx := b]] \<and>
      (writable (devs ! f) valid idx \<longrightarrow> b = A ! f)"
proof -
  let ?n = "length devs" and ?B = "unat bs" and ?C = "conts (snd st)"
  have g: "xor_geo devs bs bc" and lb: "length (row_buf (xor_get st)) = ?n * ?B" and vs: "valid (snd st)"
    using sh by (simp_all add: xor_shape_def)
  obtain buf s where load: "xor_load_loop devs 0 None bs idx (row_buf (xor_get st)) (snd st) = Some (True, F, buf, s)"
    "valid s" "conts s = ?C" "length buf = ?n * ?B"
    "\<And>j. j < ?n \<Longrightarrow> F \<noteq> Some j \<Longrightarrow> block_at ?B buf j = ?C ! j ! unat idx"
    using xor_load_loop_ok [OF g idx, of F ?C "snd st" "row_buf (xor_get st)" 0] good bad vs lb F
    by (auto simp: failed_before_def split: option.splits)
  have blk: "block_at ?B buf j = A ! j" if "j < ?n" "F \<noteq> Some j" for j
    using load(5) [OF that] good [OF that] by simp
  show thesis
  proof (cases F)
    case None
    have "blocks_of ?B ?n buf = A" using blk None A(2) by (intro nth_equalityI) simp_all
    with None load show thesis
      by (intro that [of buf s]) (simp_all add: xor_load_slice_def xor_repair_def Let_def)
  next
    case (Some f)
    then have f: "f < ?n" and small: "?B < 2 ^ 31" using F by blast+
    have lf: "length (A ! f) = ?B" using A(2,3) f by (simp add: blocked_nth)
    have rb: "xor_rebuild_slice_part ?n bs f buf = Some (patch (f * ?B) (A ! f) buf)"
      using blk Some by (intro xor_rebuild_ok [OF g small load(4) f A(1,2) lf]) simp
    let ?buf = "patch (f * ?B) (A ! f) buf"
    have pf: "f * ?B + ?B \<le> length buf" using part_eq [OF g f] load(4) by simp
    have l2: "length ?buf = ?n * ?B" using pf lf load(4) by simp
    have bl: "blocks_of ?B ?n ?buf = A"
    proof (rule nth_equalityI)
      fix j assume "j < length (blocks_of ?B ?n ?buf)"
      then have "j < ?n" by simp
      then show "blocks_of ?B ?n ?buf ! j = A ! j"
        using block_at_patch [OF f, of j ?B buf "A ! f"] load(4) lf blk [of j] Some by simp
    qed (simp add: A(2))
    note df = xor_dev_facts [OF g f load(2) idx]
    have dl: "unat (block_size (devs ! f)) \<le> length (drop (part bs f) ?buf)"
      using part_eq [OF g f] l2 df(1) by simp
    obtain ok s2 b where w: "write_block (devs ! f) s idx (drop (part bs f) ?buf) = Some (ok, s2)" "valid s2"
      "rel f \<Longrightarrow> ok" "conts s2 = (conts s)[f := (conts s ! f)[unat idx := b]]"
      "ok \<Longrightarrow> b = take (unat (block_size (devs ! f))) (drop (part bs f) ?buf)"
      by (rule dev_write [OF load(2) f df(2) dl]) blast
    have "take ?B (drop (f * ?B) ?buf) = A ! f"
      using take_drop_patch [of "f * ?B" "A ! f" buf] pf lf by simp
    then have "ok \<Longrightarrow> b = A ! f" using w(5) df(1) part_eq(1) [OF g f] by simp
    moreover have "writable (devs ! f) valid idx \<Longrightarrow> ok"
      using w(1) load(2) dl unfolding writable_def by (metis option.inject prod.inject)
    ultimately have b: "writable (devs ! f) valid idx \<longrightarrow> b = A ! f" by blast
    show thesis
    proof (rule that [of ?buf s2])
      show "xor_load_slice devs bs st idx = Some (True, xor_put ((xor_get st)\<lparr>row_buf := ?buf, row_index := idx\<rparr>) s2 st)"
        using load(1) Some rb w(1) f by (simp add: xor_load_slice_def xor_repair_def Let_def)
      show "\<exists>b. conts s2 = ?C[f' := (?C ! f')[unat idx := b]] \<and> (writable (devs ! f') valid idx \<longrightarrow> b = A ! f')"
        if "F = Some f'" for f'
        using that Some b w(4) load(3) by (intro exI [of _ b]) simp
    qed (use l2 bl w(2) Some in simp_all)
  qed
qed

end

section \<open>The invariant over reliable devices\<close>

lemma xrow_bound:
  assumes "xor_geo devs bs bc" and "w < unat bc"
  shows "xrow (length devs) w < unat (min_drive_size devs)"
  using assms(2) unfolding xrow_def xor_geo_count(6) [OF assms(1), symmetric] by (rule less_mult_imp_div_less)

lemma xor_cont_eq:
  assumes "xor_geo devs bs bc"
    and "\<And>r. r < unat (min_drive_size devs) \<Longrightarrow> seen_row devs bs conts st' r = seen_row devs bs conts st r"
  shows "xor_cont devs bs bc conts st' = xor_cont devs bs bc conts st"
  using assms xrow_bound [OF assms(1)] by (simp add: xor_cont_def)

lemma nth_xor_cont:
  "w < unat bc \<Longrightarrow> xor_cont devs bs bc conts st ! w =
    seen_row devs bs conts st (xrow (length devs) w) ! xcol (length devs) w"
  by (simp add: xor_cont_def)

lemma row_not_max: "r < (m::u64) \<Longrightarrow> unat (- 1 :: u64) \<noteq> unat r"
  using u64_less_not_max [of r m] by (simp flip: u64_eq_iff)

text \<open>When the cached row is clean, what a read sees is what the devices hold.\<close>

lemma clean_row_seen:
  assumes "r < unat (min_drive_size devs)"
    and "row_index (xor_get st) \<noteq> - 1 \<longrightarrow>
      buf_row devs bs (xor_get st) = row_of (conts (snd st)) (unat (row_index (xor_get st)))"
  shows "seen_row devs bs conts st r = row_of (conts (snd st)) r"
proof (cases "unat (row_index (xor_get st)) = r")
  case True
  have "r < 2 ^ 64 - 1" using assms(1) unat_u64_bound [of "min_drive_size devs"] by linarith
  then have "row_index (xor_get st) \<noteq> - 1" using True row_not_max by (auto simp: unsigned_minus_1_eq_mask mask_eq_exp_minus_1)
  with assms(2) True show ?thesis by (simp add: seen_row_def)
qed (simp add: seen_row_def)

context device_array
begin

lemma xor_flush_slice_ok:
  assumes v: "xor_valid devs bs bc valid conts st" and i: "row_index (xor_get st) \<noteq> - 1"
    and all: "\<forall>j < length devs. rel j"
  obtains s where "xor_flush_slice devs bs st = Some (True, xor_put ((xor_get st)\<lparr>row_dirty := False\<rparr>) s st)"
    "xor_valid devs bs bc valid conts (xor_put ((xor_get st)\<lparr>row_dirty := False\<rparr>) s st)"
    "xor_cont devs bs bc conts (xor_put ((xor_get st)\<lparr>row_dirty := False\<rparr>) s st) = xor_cont devs bs bc conts st"
proof -
  let ?n = "length devs" and ?B = "unat bs" and ?i = "row_index (xor_get st)"
  have g: "xor_geo devs bs bc" and lb: "length (row_buf (xor_get st)) = ?n * ?B" and vs: "valid (snd st)"
    and idx: "?i < min_drive_size devs"
    using v i by (simp_all add: xor_valid_def xor_shape_def)
  obtain s where s: "xor_flush_loop devs 0 0 bs ?i (row_buf (xor_get st)) (snd st) = Some (True, s)" "valid s"
    "\<And>j. j < ?n \<Longrightarrow> conts s ! j = (conts (snd st) ! j)[unat ?i := block_at ?B (row_buf (xor_get st)) j]"
    using xor_flush_loop_ok [OF g idx lb all vs, of 0 0] by auto
  let ?st = "xor_put ((xor_get st)\<lparr>row_dirty := False\<rparr>) s st"
  have l: "length (conts s) = ?n" "length (conts (snd st)) = ?n" using conts_length vs s(2) by simp_all
  have this_row: "row_of (conts s) (unat ?i) = buf_row devs bs (xor_get st)"
    using s(3) xor_dev_facts(4) [OF g _ vs idx] l by (intro nth_equalityI) (simp_all add: buf_row_def)
  have other_rows: "row_of (conts s) r = row_of (conts (snd st)) r" if "r \<noteq> unat ?i" for r
    using s(3) that l by (intro nth_equalityI) simp_all
  have flush: "xor_flush_slice devs bs st = Some (True, ?st)"
    using i s(1) by (simp add: xor_flush_slice_def Let_def)
  have bal: "balanced ?B (row_of (conts s) r)" if "r < unat (min_drive_size devs)" for r
    using v that i this_row other_rows [of r] by (cases "r = unat ?i") (simp_all add: xor_valid_def)
  have v': "xor_valid devs bs bc valid conts ?st"
    using v i this_row s(2) bal by (simp add: xor_valid_def xor_shape_def buf_row_def)
  have c: "xor_cont devs bs bc conts ?st = xor_cont devs bs bc conts st"
    using other_rows by (intro xor_cont_eq [OF g]) (auto simp: seen_row_def buf_row_def)
  show thesis by (rule that [OF flush v' c])
qed

lemma xor_switch_slice_ok:
  assumes v: "xor_valid devs bs bc valid conts st" and idx: "idx < min_drive_size devs"
    and all: "\<forall>j < length devs. rel j"
  obtains st' where "xor_switch_slice devs bs st idx = Some (True, st')"
    "xor_valid devs bs bc valid conts st'" "xor_cont devs bs bc conts st' = xor_cont devs bs bc conts st"
    "row_index (xor_get st') = idx" "generic_block_buffer (fst st') = generic_block_buffer (fst st)"
proof (cases "row_index (xor_get st) = idx")
  case True
  then show thesis using v by (intro that [of st]) (simp_all add: xor_switch_slice_def)
next
  case False
  obtain st1 where st1: "(if row_dirty (xor_get st) then xor_flush_slice devs bs st else Some (True, st)) = Some (True, st1)"
    "xor_valid devs bs bc valid conts st1" "xor_cont devs bs bc conts st1 = xor_cont devs bs bc conts st"
    "\<not> row_dirty (xor_get st1)" "row_index (xor_get st1) \<noteq> idx"
    "generic_block_buffer (fst st1) = generic_block_buffer (fst st)"
  proof (cases "row_dirty (xor_get st)")
    case True
    then have "row_index (xor_get st) \<noteq> - 1" using v by (simp add: xor_valid_def)
    then obtain s where "xor_flush_slice devs bs st = Some (True, xor_put ((xor_get st)\<lparr>row_dirty := False\<rparr>) s st)"
      "xor_valid devs bs bc valid conts (xor_put ((xor_get st)\<lparr>row_dirty := False\<rparr>) s st)"
      "xor_cont devs bs bc conts (xor_put ((xor_get st)\<lparr>row_dirty := False\<rparr>) s st) = xor_cont devs bs bc conts st"
      by (rule xor_flush_slice_ok [OF v _ all])
    then show thesis using True False
      by (intro that [of "xor_put ((xor_get st)\<lparr>row_dirty := False\<rparr>) s st"]) simp_all
  qed (use v False in \<open>auto intro: that [of st]\<close>)
  let ?A = "row_of (conts (snd st1)) (unat idx)" and ?n = "length devs" and ?B = "unat bs"
  have sh: "xor_shape devs bs bc valid st1" and g: "xor_geo devs bs bc" and vs: "valid (snd st1)"
    using st1(2) by (simp_all add: xor_valid_def xor_shape_def)
  have lA: "length ?A = ?n" using conts_length [OF vs] by simp
  have bA: "balanced ?B ?A" using st1(2) idx by (simp add: xor_valid_def word_less_nat_alt)
  have blA: "blocked ?B ?A"
    using xor_dev_facts(3) [OF g _ vs idx] conts_length [OF vs] by (auto simp: blocked_def in_set_conv_nth)
  obtain buf s where ld: "xor_load_slice devs bs st1 idx =
      Some (True, xor_put ((xor_get st1)\<lparr>row_buf := buf, row_index := idx\<rparr>) s st1)"
    "length buf = ?n * ?B" "blocks_of ?B ?n buf = ?A" "valid s" "conts s = conts (snd st1)"
    using xor_load_slice_ok [OF sh idx bA lA blA, of None] all conts_length [OF vs] by auto
  let ?st = "xor_put ((xor_get st1)\<lparr>row_buf := buf, row_index := idx\<rparr>) s st1"
  have clean: "row_index (xor_get st1) \<noteq> - 1 \<longrightarrow>
      buf_row devs bs (xor_get st1) = row_of (conts (snd st1)) (unat (row_index (xor_get st1)))"
    using st1(2,4) by (simp add: xor_valid_def)
  have "seen_row devs bs conts ?st r = seen_row devs bs conts st1 r" if r: "r < unat (min_drive_size devs)" for r
  proof (cases "r = unat idx")
    case True
    then have "unat (row_index (xor_get st1)) \<noteq> r" using st1(5) by (simp add: u64_eq_iff)
    with True ld(3,5) show ?thesis by (simp add: seen_row_def buf_row_def)
  next
    case False
    with clean_row_seen [where conts = conts, OF r clean] ld(5) show ?thesis by (simp add: seen_row_def)
  qed
  then have "xor_cont devs bs bc conts ?st = xor_cont devs bs bc conts st1" by (rule xor_cont_eq [OF g])
  moreover have "xor_valid devs bs bc valid conts ?st"
    using st1(2,4) ld idx bA u64_less_not_max [OF idx] by (simp add: xor_valid_def xor_shape_def buf_row_def)
  ultimately show thesis
    using False st1(1,3,6) ld(1) by (intro that [of ?st]) (simp_all add: xor_switch_slice_def)
qed

lemma xor_read_block_ok:
  assumes v: "xor_valid devs bs bc valid conts st" and w: "w < bc" and l: "unat bs \<le> length into"
    and all: "\<forall>j < length devs. rel j"
  shows "read_ok (xor_valid devs bs bc valid conts) (xor_cont devs bs bc conts) True st into
    (xor_cont devs bs bc conts st ! unat w) (xor_read_block devs bs bc st w into)"
proof -
  have g: "xor_geo devs bs bc" using v by (simp add: xor_valid_def xor_shape_def)
  obtain r d p where pl: "xor_place (length devs) w = Some (r, d, p)"
    "unat r = xrow (length devs) (unat w)" "unat d = xcol (length devs) (unat w)"
    "r < min_drive_size devs" by (rule xor_place_ok [OF g w])
  obtain st' where sw: "xor_switch_slice devs bs st r = Some (True, st')"
    "xor_valid devs bs bc valid conts st'" "xor_cont devs bs bc conts st' = xor_cont devs bs bc conts st"
    "row_index (xor_get st') = r" by (rule xor_switch_slice_ok [OF v pl(4) all])
  have d: "unat d < length devs" using xcol_bounds(1) [OF xor_geo_count(1) [OF g]] pl(3) by simp
  have lb: "length (row_buf (xor_get st')) = length devs * unat bs"
    using sw(2) by (simp add: xor_valid_def xor_shape_def)
  have data: "take (unat bs) (drop (part bs (unat d)) (row_buf (xor_get st'))) = xor_cont devs bs bc conts st ! unat w"
    using w d by (simp add: sw(3) [symmetric] nth_xor_cont word_less_nat_alt seen_row_def sw(4) pl(2,3)
        buf_row_def block_at_def part_eq [OF g])
  then have ld: "length (xor_cont devs bs bc conts st ! unat w) = unat bs"
    unfolding data [symmetric] using part_eq(2) [OF g d] lb by simp
  have "xor_read_block devs bs bc st w into = Some (True, patch 0 (xor_cont devs bs bc conts st ! unat w) into, st')"
    using w pl(1) sw(1) part_eq(2) [OF g d] lb data ld l by (simp add: xor_read_block_def rd_Some wr_Some)
  then show ?thesis by (rule read_okI [where st' = st']) (use sw(2,3) l ld in auto)
qed

end

text \<open>The parity update of \<open>xor_write_block\<close>.\<close>

lemma xor_parity_loop_ok:
  assumes g: "xor_geo devs bs bc" and l: "length buf = length devs * unat bs"
    and p: "p < length devs" and d: "d < length devs" and "p \<noteq> d" and x: "unat bs \<le> length x"
  shows "byte_loop (\<lambda>i buf. do {
           a \<leftarrow> byte_at buf (part bs p + i);
           b \<leftarrow> byte_at x i;
           c \<leftarrow> byte_at buf (part bs d + i);
           Some (a XOR (b XOR c)) }) (part bs p) [0..<unat bs] buf =
    Some (patch (p * unat bs) (map (\<lambda>i. block_at (unat bs) buf p ! i XOR (x ! i XOR block_at (unat bs) buf d ! i)) [0..<unat bs]) buf)"
  unfolding part_eq(1) [OF g p] part_eq(1) [OF g d]
proof (rule byte_loop_patch)
  let ?B = "unat bs"
  have pf: "p * ?B + ?B \<le> length buf" and df: "d * ?B + ?B \<le> length buf"
    using part_eq [OF g p] part_eq [OF g d] l by simp_all
  then show "p * ?B + ?B \<le> length buf" by simp
  fix i and src :: bytes assume i: "i < ?B" and s: "length src = i"
  let ?buf = "patch (p * ?B) src buf"
  have lb: "length ?buf = length buf" and pfs: "p * ?B + length src \<le> length buf" using pf i s by simp_all
  have a: "?buf ! (p * ?B + i) = buf ! (p * ?B + i)"
    using pfs pf i s by (simp add: nth_patch)
  have "Suc d \<le> p \<or> Suc p \<le> d" using \<open>p \<noteq> d\<close> by linarith
  then have "d * ?B + ?B \<le> p * ?B \<or> p * ?B + ?B \<le> d * ?B"
    using mult_le_mono1 [of "Suc d" p ?B] mult_le_mono1 [of "Suc p" d ?B] by auto
  then have "\<not> (p * ?B \<le> d * ?B + i \<and> d * ?B + i < p * ?B + length src)" using i s by linarith
  moreover have "d * ?B + i < length buf" using df i by linarith
  ultimately have c: "?buf ! (d * ?B + i) = buf ! (d * ?B + i)" using pfs by (simp only: nth_patch if_False)
  have "p * ?B + i < length ?buf" "d * ?B + i < length ?buf" "i < length x" using pf df i lb x by linarith+
  then show "do {
       a \<leftarrow> byte_at ?buf (p * ?B + i);
       b \<leftarrow> byte_at x i;
       c \<leftarrow> byte_at ?buf (d * ?B + i);
       Some (a XOR (b XOR c)) } =
     Some (block_at ?B buf p ! i XOR (x ! i XOR block_at ?B buf d ! i))"
    using nth_block_at [OF i pf] nth_block_at [OF i df] by (simp add: a c)
qed

context device_array
begin

lemma xor_write_block_ok:
  assumes v: "xor_valid devs bs bc valid conts st" and small: "unat bs < 2 ^ 31" and w: "w < bc"
    and l: "unat bs \<le> length (deref (fst st) from)" and all: "\<forall>j < length devs. rel j"
  shows "write_ok (xor_valid devs bs bc valid conts) (xor_cont devs bs bc conts) True st {unat w}
    ((xor_cont devs bs bc conts st)[unat w := take (unat bs) (deref (fst st) from)])
    (xor_write_block devs bs bc st w from)"
proof -
  let ?n = "length devs" and ?B = "unat bs"
  have g: "xor_geo devs bs bc" using v by (simp add: xor_valid_def xor_shape_def)
  obtain r d p where pl: "xor_place ?n w = Some (r, d, p)" "unat r = xrow ?n (unat w)"
    "unat d = xcol ?n (unat w)" "unat p = xpar ?n (unat w)" "r < min_drive_size devs" "r \<noteq> - 1"
    by (rule xor_place_ok [OF g w])
  obtain st' where sw: "xor_switch_slice devs bs st r = Some (True, st')"
    "xor_valid devs bs bc valid conts st'" "xor_cont devs bs bc conts st' = xor_cont devs bs bc conts st"
    "row_index (xor_get st') = r" "generic_block_buffer (fst st') = generic_block_buffer (fst st)"
    by (rule xor_switch_slice_ok [OF v pl(5) all])
  note b = xcol_bounds [OF xor_geo_count(1) [OF g], of "unat w", folded pl(3,4)]
  let ?x = "deref (fst st) from"
  have x: "deref (fst st') from = ?x" by (cases "from") (simp_all add: sw(5))
  let ?buf = "row_buf (xor_get st')" and ?bl = "buf_row devs bs (xor_get st')"
  have lb: "length ?buf = ?n * ?B" using sw(2) by (simp add: xor_valid_def xor_shape_def)
  let ?v = "map (\<lambda>i. block_at ?B ?buf (unat p) ! i XOR (?x ! i XOR block_at ?B ?buf (unat d) ! i)) [0..<?B]"
  let ?buf1 = "patch (unat p * ?B) ?v ?buf" and ?d = "take ?B ?x"
  let ?buf2 = "patch (unat d * ?B) ?d ?buf1"
  have pf: "unat p * ?B + ?B \<le> length ?buf" and df: "unat d * ?B + ?B \<le> length ?buf"
    using part_eq [OF g b(2)] part_eq [OF g b(1)] lb by simp_all
  have l1: "length ?buf1 = length ?buf" using pf by simp
  have l2: "length ?buf2 = ?n * ?B" using df l l1 lb by simp
  let ?io = "(xor_get st')\<lparr>row_buf := ?buf2, row_dirty := True\<rparr>"
  let ?st = "xor_put ?io (snd st') st'"
  note loop = xor_parity_loop_ok [OF g lb b(2,1) _ l, OF b(3) [symmetric]]
  have wr2: "wr ?buf1 (part bs (unat d)) ?d = Some ?buf2"
    using df l l1 by (simp add: wr_Some part_eq(1) [OF g b(1)])
  have call: "xor_write_block devs bs bc st w from = Some (True, ?st)"
    using w l by (simp add: xor_write_block_def pl(1) sw(1) x int_below_all [OF small] loop wr2 rd_Some Let_def)
  have bl: "buf_row devs bs ?io = ?bl[unat p := ?v, unat d := ?d]"
    using blocks_of_patch [OF b(2), of ?B ?buf ?v] blocks_of_patch [OF b(1), of ?B ?buf1 ?d] lb l1 l
    by (simp add: buf_row_def)
  have "balanced ?B ?bl" using sw(2,4) pl(6) by (simp add: xor_valid_def)
  then have bal: "balanced ?B (buf_row devs bs ?io)"
    unfolding bl using b l by (intro balanced_write) (simp_all add: buf_row_def)
  have v': "xor_valid devs bs bc valid conts ?st"
    using sw(2,4) pl(5,6) l2 bal by (simp add: xor_valid_def xor_shape_def)
  have c: "xor_cont devs bs bc conts ?st = (xor_cont devs bs bc conts st')[unat w := ?d]"
  proof (rule nth_equalityI)
    fix u assume "u < length (xor_cont devs bs bc conts ?st)"
    then have u: "u < unat bc" by (simp add: xor_cont_def)
    have bu: "xcol ?n u < ?n" by (rule xcol_bounds(1) [OF xor_geo_count(1) [OF g]])
    show "xor_cont devs bs bc conts ?st ! u = (xor_cont devs bs bc conts st')[unat w := ?d] ! u"
    proof (cases "xrow ?n u = unat r")
      case True
      then have "xpar ?n u = unat p" using pl(2,4) by (simp add: xpar_def)
      then have np: "xcol ?n u \<noteq> unat p" using xcol_bounds(3) [OF xor_geo_count(1) [OF g], of u] by simp
      have du: "xcol ?n u = unat d \<longleftrightarrow> u = unat w" using xplace_inj [of ?n u "unat w"] True pl(2,3) by auto
      have "seen_row devs bs conts ?st (xrow ?n u) = buf_row devs bs ?io" by (simp add: seen_row_def sw(4) True)
      then have new: "xor_cont devs bs bc conts ?st ! u = ?bl[unat p := ?v, unat d := ?d] ! xcol ?n u"
        by (simp only: nth_xor_cont [OF u] bl)
      have "seen_row devs bs conts st' (xrow ?n u) = ?bl" by (simp add: seen_row_def sw(4) True)
      then have old: "xor_cont devs bs bc conts st' ! u = ?bl ! xcol ?n u" by (simp only: nth_xor_cont [OF u])
      have lc: "u < length (xor_cont devs bs bc conts st')" using u by (simp add: xor_cont_def)
      show ?thesis
      proof (cases "u = unat w")
        case True
        then have "xcol ?n u = unat d" using du by blast
        then have "?bl[unat p := ?v, unat d := ?d] ! xcol ?n u = ?d" using b(1) by simp
        with True new lc show ?thesis by simp
      next
        case False
        then have "xcol ?n u \<noteq> unat d" using du by blast
        then have "?bl[unat p := ?v, unat d := ?d] ! xcol ?n u = ?bl ! xcol ?n u" using np by simp
        with False new old show ?thesis by simp
      qed
    next
      case False
      then have "u \<noteq> unat w" using pl(2) by auto
      with False u show ?thesis by (auto simp: nth_xor_cont seen_row_def sw(4))
    qed
  qed (simp add: xor_cont_def)
  show ?thesis
    unfolding call using v' c sw(3) by (intro write_okI [where ok = True and st' = ?st]) auto
qed

lemma xor_generic:
  assumes small: "unat bs < 2 ^ 31" and all: "\<forall>j < length devs. rel j"
  shows "generic_dev bs bc (xor_read_block devs bs bc) (xor_write_block devs bs bc)
    (xor_valid devs bs bc valid conts) (xor_cont devs bs bc conts) True"
proof (unfold_locales, goal_cases)
  case (1 st) then show ?case by (simp add: xor_valid_def xor_shape_def xor_geo_def array_geometry_def)
next
  case (2 st)
  then have g: "xor_geo devs bs bc" and vs: "valid (snd st)" and lb: "length (row_buf (xor_get st)) = length devs * unat bs"
    by (simp_all add: xor_valid_def xor_shape_def)
  have "length (xor_cont devs bs bc conts st ! w) = unat bs" if w: "w < unat bc" for w
  proof -
    let ?n = "length devs"
    have c: "xcol ?n w < ?n" by (rule xcol_bounds(1) [OF xor_geo_count(1) [OF g]])
    have r: "xrow ?n w < unat (min_drive_size devs)" by (rule xrow_bound [OF g w])
    have "xrow ?n w < 2 ^ 64" using r unat_u64_bound [of "min_drive_size devs"] by linarith
    then have "unat (of_nat (xrow ?n w) :: u64) = xrow ?n w"
      by (simp add: unsigned_of_nat take_bit_nat_eq_self_iff)
    with xor_dev_facts(3) [OF g c vs, of "of_nat (xrow ?n w)"] r
    have "length (conts (snd st) ! xcol ?n w ! xrow ?n w) = unat bs" by (simp add: word_less_nat_alt)
    with c w lb conts_length [OF vs] show ?thesis
      by (simp add: nth_xor_cont seen_row_def buf_row_def)
  qed
  then show ?case by (auto simp: blocked_def in_set_conv_nth) (simp_all add: xor_cont_def)
next
  case (3 st w into) then show ?case by (intro xor_read_block_ok all)
next
  case (4 st w "from") then show ?case using xor_write_block_ok [of bs bc st w "Ext from"] small all by simp
next
  case (8 st w) then show ?case
    using xor_write_block_ok [of bs bc st w Own] small all by (simp add: xor_valid_def xor_shape_def)
qed (auto simp: xor_valid_def xor_shape_def xor_cont_def seen_row_def)

text \<open>A read of a row of which one device has lost its block.\<close>

lemma xor_read_recovers:
  assumes sh: "xor_shape devs bs bc valid st" and small: "unat bs < 2 ^ 31" and w: "w < bc" and l: "unat bs \<le> length into"
    and fresh: "\<not> row_dirty (xor_get st)" "unat (row_index (xor_get st)) \<noteq> xrow (length devs) (unat w)"
    and A: "balanced (unat bs) A" "length A = length devs" "blocked (unat bs) A"
    and f: "f < length devs"
    and good: "\<And>j. j < length devs \<Longrightarrow> j \<noteq> f \<Longrightarrow>
      rel j \<and> conts (snd st) ! j ! xrow (length devs) (unat w) = A ! j"
    and bad: "\<And>s r into. valid s \<Longrightarrow> unat r = xrow (length devs) (unat w) \<Longrightarrow> unat bs \<le> length into \<Longrightarrow>
      \<exists>into' s'. read_block (devs ! f) s r into = Some (False, into', s')"
  shows "\<exists>st' b. xor_read_block devs bs bc st w into =
      Some (True, patch 0 (A ! xcol (length devs) (unat w)) into, st') \<and>
    conts (snd st') = (conts (snd st))[f := (conts (snd st) ! f)[xrow (length devs) (unat w) := b]] \<and>
    (writable (devs ! f) valid (of_nat (xrow (length devs) (unat w))) \<longrightarrow> b = A ! f)"
proof -
  let ?n = "length devs"
  have g: "xor_geo devs bs bc" using sh by (simp add: xor_shape_def)
  obtain r d p where pl: "xor_place ?n w = Some (r, d, p)" "unat r = xrow ?n (unat w)"
    "unat d = xcol ?n (unat w)" "r < min_drive_size devs" by (rule xor_place_ok [OF g w])
  have r: "of_nat (xrow ?n (unat w)) = r" by (simp flip: pl(2))
  have d: "unat d < ?n" using xcol_bounds(1) [OF xor_geo_count(1) [OF g]] pl(3) by simp
  obtain buf s where ld: "xor_load_slice devs bs st r =
      Some (True, xor_put ((xor_get st)\<lparr>row_buf := buf, row_index := r\<rparr>) s st)"
    "length buf = ?n * unat bs" "blocks_of (unat bs) ?n buf = A"
    "\<exists>b. conts s = (conts (snd st))[f := (conts (snd st) ! f)[unat r := b]] \<and>
      (writable (devs ! f) valid r \<longrightarrow> b = A ! f)"
  proof (rule xor_load_slice_ok [OF sh pl(4) A, of "Some f"])
    show "rel j \<and> conts (snd st) ! j ! unat r = A ! j" if "j < ?n" "Some f \<noteq> Some j" for j
      using good [OF that(1)] that(2) pl(2) by simp
    show "\<exists>into' s'. read_block (devs ! j) s r into = Some (False, into', s')"
      if "Some f = Some j" "valid s" "unat bs \<le> length into" for j s into
      using bad [OF that(2) pl(2) that(3)] that(1) by simp
  qed (use f small that in blast)+
  then have "xor_switch_slice devs bs st r =
      Some (True, xor_put ((xor_get st)\<lparr>row_buf := buf, row_index := r\<rparr>) s st)"
    using fresh pl(2) by (auto simp: xor_switch_slice_def)
  moreover have "rd buf (part bs (unat d)) (unat bs) = Some (A ! xcol ?n (unat w))"
    using part_eq [OF g d] ld(2) d by (simp add: rd_Some block_at_def pl(3) flip: ld(3))
  moreover have "length (A ! xcol ?n (unat w)) = unat bs" using A(2,3) d pl(3) by (simp add: blocked_nth)
  ultimately have "xor_read_block devs bs bc st w into =
      Some (True, patch 0 (A ! xcol ?n (unat w)) into, xor_put ((xor_get st)\<lparr>row_buf := buf, row_index := r\<rparr>) s st)"
    using w l pl(1) by (simp add: xor_read_block_def wr_Some)
  then show ?thesis using ld(4) by (auto simp: r pl(2))
qed

section \<open>Maintenance\<close>

lemma xor_flush_ok:
  assumes v: "xor_valid devs bs bc valid conts st" and i: "row_index (xor_get st) \<noteq> - 1"
    and all: "\<forall>j < length devs. rel j"
  shows "keeps (xor_valid devs bs bc valid conts) (xor_cont devs bs bc conts) st (xor_flush devs bs st)"
    "keeps (xor_valid devs bs bc valid conts) (xor_cont devs bs bc conts) st (xor_clear_caches devs bs st)"
proof -
  obtain s where s: "xor_flush_slice devs bs st = Some (True, xor_put ((xor_get st)\<lparr>row_dirty := False\<rparr>) s st)"
    "xor_valid devs bs bc valid conts (xor_put ((xor_get st)\<lparr>row_dirty := False\<rparr>) s st)"
    "xor_cont devs bs bc conts (xor_put ((xor_get st)\<lparr>row_dirty := False\<rparr>) s st) = xor_cont devs bs bc conts st"
    by (rule xor_flush_slice_ok [OF v i all])
  let ?st = "xor_put ((xor_get st)\<lparr>row_dirty := False\<rparr>) s st"
  let ?st2 = "xor_put ((xor_get st)\<lparr>row_dirty := False, row_index := - 1\<rparr>) s st"
  have g: "xor_geo devs bs bc" and vs: "valid s" using s(2) by (simp_all add: xor_valid_def xor_shape_def)
  have same: "xor_valid devs bs bc valid conts (fst t, s') \<and>
      xor_cont devs bs bc conts (fst t, s') = xor_cont devs bs bc conts t"
    if "xor_valid devs bs bc valid conts t" "valid s'" "conts s' = conts (snd t)" for t s'
    using that by (simp add: xor_valid_def xor_shape_def xor_get_def xor_cont_def seen_row_def)
  obtain s1 where s1: "each_device flush devs s = Some s1" "valid s1" "conts s1 = conts s"
    by (rule keepsE [OF each_keeps(2) [OF vs]])
  show "keeps (xor_valid devs bs bc valid conts) (xor_cont devs bs bc conts) st (xor_flush devs bs st)"
    using s s1 same [OF s(2) s1(2)] by (intro keepsI [of _ "(fst ?st, s1)"]) (simp_all add: xor_flush_def below_def)
  have v2: "xor_valid devs bs bc valid conts ?st2"
    using s(2) by (simp add: xor_valid_def xor_shape_def)
  have clean: "row_index (xor_get ?st) \<noteq> - 1 \<longrightarrow>
      buf_row devs bs (xor_get ?st) = row_of (conts (snd ?st)) (unat (row_index (xor_get ?st)))"
    using s(2) by (simp add: xor_valid_def)
  have "seen_row devs bs conts ?st2 r = seen_row devs bs conts ?st r" if "r < unat (min_drive_size devs)" for r
    using clean_row_seen [where conts = conts, OF that clean]
      clean_row_seen [where conts = conts and st = ?st2, OF that] by simp
  then have c2: "xor_cont devs bs bc conts ?st2 = xor_cont devs bs bc conts st"
    using xor_cont_eq [OF g] s(3) by metis
  obtain s2 where s2: "each_device clear_caches devs s = Some s2" "valid s2" "conts s2 = conts s"
    by (rule keepsE [OF each_keeps(1) [OF vs]])
  show "keeps (xor_valid devs bs bc valid conts) (xor_cont devs bs bc conts) st (xor_clear_caches devs bs st)"
    using s(1) s2 same [OF v2 s2(2)] c2
    by (intro keepsI [of _ "(fst ?st2, s2)"]) (simp_all add: xor_clear_caches_def below_def Let_def)
qed

end

text \<open>With no row cached, which is how a device starts, every maintenance operation fails the
  assertion of \<open>xor_flush_slice\<close>.\<close>

lemma xor_maintenance_dies:
  assumes "row_index (xor_get st) = - 1"
  shows "xor_flush devs bs st = None" "xor_clear_caches devs bs st = None" "xor_sync devs bs st = None"
  using assms by (simp_all add: xor_flush_def xor_clear_caches_def xor_sync_def xor_flush_slice_def Let_def)

section \<open>Opening\<close>

lemma xor_open_ok:
  assumes "alloc_ok alloc" and "xor_open alloc devs = Some (Some (dev, obj))"
    and "length devs < 2 ^ 31" and "0 < unat (block_size (hd devs))"
    and "unat (block_size (hd devs)) * (unat (min_drive_size devs) * (length devs - 1)) < 2 ^ 64"
    and "length devs * unat (block_size (hd devs)) < 2 ^ 64" and "valid s"
  shows "dev = xor_dev devs (block_size dev) (block_count dev)"
    "xor_shape devs (block_size dev) (block_count dev) valid (obj, s)"
    "row_index (obj_m obj) = - 1" "\<not> row_dirty (obj_m obj)"
proof -
  have n: "3 \<le> length devs" using assms(2) by (simp add: xor_open_def split: if_splits)
  then obtain d ds where devs: "devs = d # ds" by (cases devs) auto
  have bs: "list_all (\<lambda>e. block_size e = block_size d) ds"
    using assms(2) n by (auto simp: xor_open_def devs Let_def split: if_splits)
  let ?bc = "min_drive_size devs * (of_nat (length devs) - 1)" and ?bs = "block_size d"
  obtain g buf where g: "alloc (unat ?bs) = Some g" "alloc (unat (?bs * of_nat (length devs))) = Some buf"
    "dev = xor_dev devs ?bs ?bc"
    "obj = \<lparr>generic_block_buffer = g, obj_m = \<lparr>row_buf = buf, row_index = - 1, row_dirty = False\<rparr>\<rparr>"
    using assms(2) bs n
    by (cases "alloc (unat ?bs)"; cases "alloc (unat (?bs * of_nat (length devs)))")
      (auto simp: xor_open_def devs Let_def)
  have un: "unat (of_nat (length devs) :: u64) = length devs" by (rule unat_count [OF assms(3)])
  then have mul: "unat (?bs * of_nat (length devs)) = length devs * unat ?bs"
    using assms(6) unat_mult_u64 [of ?bs "of_nat (length devs)"] by (simp add: devs mult.commute)
  have "(of_nat (length devs - 1) :: u64) = of_nat (length devs) - 1" using n by simp
  moreover have "array_geometry devs ?bs (length devs - 1) (min_drive_size devs * of_nat (length devs - 1))"
    using assms(3,4,5) bs n by (intro array_geometryI) (simp_all add: devs)
  ultimately have "xor_geo devs ?bs ?bc" using n assms(6) by (simp add: xor_geo_def devs)
  moreover have "block_size dev = ?bs" "block_count dev = ?bc" using g(3) by (simp_all add: xor_dev_def)
  ultimately show "dev = xor_dev devs (block_size dev) (block_count dev)"
    "xor_shape devs (block_size dev) (block_count dev) valid (obj, s)"
    using g alloc_okD [OF assms(1) g(1)] alloc_okD [OF assms(1) g(2)] mul assms(7)
    by (simp_all add: xor_shape_def xor_get_def)
  show "row_index (obj_m obj) = - 1" "\<not> row_dirty (obj_m obj)" by (simp_all add: g(4))
qed

section \<open>Properties\<close>

text \<open>Three memory devices of two blocks, with the given rows.\<close>

definition trio :: "unit mem_state list bdev list" where
  "trio = independent [malloc_dev 4 2, malloc_dev 4 2, malloc_dev 4 2]"

definition broken_trio :: "unit mem_state list bdev list" where
  "broken_trio = independent [malloc_dev 4 2, unreadable (malloc_dev 4 2), malloc_dev 4 2]"

definition trio_st :: "bytes \<Rightarrow> bytes \<Rightarrow> bytes \<Rightarrow> unit mem_state list" where
  "trio_st a b c = map (\<lambda>x. ram_of 4 [x, [0, 0, 0, 0]]) [a, b, c]"

lemma trio_simps:
  "length trio = 3" "length broken_trio = 3" "min_drive_size trio = 2" "min_drive_size broken_trio = 2"
  "j < 3 \<Longrightarrow> block_size (trio ! j) = 4" "j < 3 \<Longrightarrow> block_size (broken_trio ! j) = 4" 
  "block_size (hd trio) = 4"
  by (auto simp: trio_def broken_trio_def independent_def nth_dev_def malloc_dev_def unreadable_def
      min_drive_size_def less_Suc_eq numeral_3_eq_3)

lemma trio_arrays:
  "device_array trio (ram_valid_all 3 4 2) (ram_conts 3 4 2) (\<lambda>_. True)"
  "device_array broken_trio (ram_valid_all 3 4 2) (ram_conts 3 4 2) (\<lambda>j. j \<noteq> 1)"
proof -
  let ?m = "malloc_dev 4 2 :: unit mem_state bdev"
  have "block_device ([?m, ?m, ?m] ! j) (mem_valid 4 2) (mem_cont 4 2) True" if "j < length [?m, ?m, ?m]" for j
    using that malloc.block_device_axioms by (auto simp: less_Suc_eq)
  from independent_array [where v = "\<lambda>_. mem_valid 4 2" and c = "\<lambda>_. mem_cont 4 2" and rel = "\<lambda>_. True", OF this]
  show "device_array trio (ram_valid_all 3 4 2) (ram_conts 3 4 2) (\<lambda>_. True)"
    by (simp add: trio_def numeral_3_eq_3)
  have "block_device ([?m, unreadable ?m, ?m] ! j) (mem_valid 4 2) (mem_cont 4 2) (j \<noteq> 1)"
    if "j < length [?m, unreadable ?m, ?m]" for j
    using that malloc.block_device_axioms malloc.unreadable_device by (auto simp: less_Suc_eq)
  from independent_array [where v = "\<lambda>_. mem_valid 4 2" and c = "\<lambda>_. mem_cont 4 2" and rel = "\<lambda>j. j \<noteq> 1", OF this]
  show "device_array broken_trio (ram_valid_all 3 4 2) (ram_conts 3 4 2) (\<lambda>j. j \<noteq> 1)"
    by (simp add: broken_trio_def numeral_3_eq_3)
qed

lemma trio_st_ok:
  assumes "length a = 4" and "length b = 4" and "length c = 4"
  shows "ram_valid_all 3 4 2 (trio_st a b c)"
    "ram_conts 3 4 2 (trio_st a b c) = [[a, [0, 0, 0, 0]], [b, [0, 0, 0, 0]], [c, [0, 0, 0, 0]]]"
proof -
  have "mem_valid 4 2 (ram_of 4 [x, [0, 0, 0, 0]])" "mem_cont 4 2 (ram_of 4 [x, [0, 0, 0, 0]]) = [x, [0, 0, 0, 0]]"
    if "length x = 4" for x using that by (auto intro!: ram_of_valid simp: blocked_def)
  then show "ram_valid_all 3 4 2 (trio_st a b c)"
    "ram_conts 3 4 2 (trio_st a b c) = [[a, [0, 0, 0, 0]], [b, [0, 0, 0, 0]], [c, [0, 0, 0, 0]]]"
    using assms by (auto simp: all_valid_def all_conts_def trio_st_def less_Suc_eq numeral_3_eq_3)
qed

text \<open>C7: What \<open>xor_open\<close> returns over reliable devices whose rows are balanced, with blocks of less
  than 2^31 bytes (the counter of the parity loop is an \<open>int\<close>), keeps the
  contract of the block operations: every read returns the block last written, whichever rows
  are cached and written back in between, no write changes another block, and the rows stay
  balanced; nothing fails and no assertion fails.\<close>
theorem xor_open_device:
  assumes "device_array devs valid conts (\<lambda>_. True)" and "valid s" and "alloc_ok alloc"
    and "xor_open alloc devs = Some (Some (dev, obj))"
    and "length devs < 2 ^ 31" and "0 < unat (block_size (hd devs))"
    and "unat (block_size (hd devs)) * (unat (min_drive_size devs) * (length devs - 1)) < 2 ^ 64"
    and "length devs * unat (block_size (hd devs)) < 2 ^ 64" and "unat (block_size dev) < 2 ^ 31"
    and "\<forall>r < unat (min_drive_size devs). balanced (unat (block_size dev)) (row_of (conts s) r)"
  shows "generic_dev (block_size dev) (block_count dev) (read_block dev)
      (xor_write_block devs (block_size dev) (block_count dev))
      (xor_valid devs (block_size dev) (block_count dev) valid conts)
      (xor_cont devs (block_size dev) (block_count dev) conts) True \<and>
    xor_valid devs (block_size dev) (block_count dev) valid conts (obj, s)"
proof -
  note o = xor_open_ok [where valid = valid and s = s, OF assms(3,4,5,6,7,8,2)]
  have "read_block dev = xor_read_block devs (block_size dev) (block_count dev)"
    by (subst o(1)) (simp add: xor_dev_def)
  moreover have "xor_valid devs (block_size dev) (block_count dev) valid conts (obj, s)"
    using o(2-4) assms(10) by (simp add: xor_valid_def xor_get_def)
  ultimately show ?thesis using device_array.xor_generic [OF assms(1,9)] by simp
qed

theorem xor_open_device_witness:
  "\<exists>dev obj. xor_open calloc_alloc trio = Some (Some (dev, obj)) \<and>
    generic_dev 4 4 (read_block dev) (xor_write_block trio 4 4)
      (xor_valid trio 4 4 (ram_valid_all 3 4 2) (ram_conts 3 4 2)) (xor_cont trio 4 4 (ram_conts 3 4 2)) True"
proof -
  let ?s = "trio_st [0, 0, 0, 0] [0, 0, 0, 0] [0, 0, 0, 0]"
  have s: "ram_valid_all 3 4 2 ?s" and c: "ram_conts 3 4 2 ?s =
      [[[0, 0, 0, 0], [0, 0, 0, 0]], [[0, 0, 0, 0], [0, 0, 0, 0]], [[0, 0, 0, 0], [0, 0, 0, 0]]]"
    by (rule trio_st_ok; simp)+
  obtain dev obj where dev: "xor_open calloc_alloc trio = Some (Some (dev, obj))"
    "block_size dev = 4" "block_count dev = 4"
    using trio_simps by (auto simp: xor_open_def calloc_alloc_def Let_def xor_dev_def list_all_length nth_tl)
  have row: "row_of (ram_conts 3 4 2 ?s) r = replicate 3 (replicate 4 0)" if "r < 2" for r
    using that unfolding c row_of_def by (auto simp: less_Suc_eq numeral_eq_Suc)
  have b: "\<forall>r < unat (min_drive_size trio). balanced (unat (block_size dev)) (row_of (ram_conts 3 4 2 ?s) r)"
    using row balanced_zero by (simp add: trio_simps dev(2))
  have "length trio < 2 ^ 31" "0 < unat (block_size (hd trio))"
    "unat (block_size (hd trio)) * (unat (min_drive_size trio) * (length trio - 1)) < 2 ^ 64"
    "length trio * unat (block_size (hd trio)) < 2 ^ 64" by (simp_all add: trio_simps)
  moreover have "unat (block_size dev) < 2 ^ 31" by (simp add: dev(2))
  ultimately have "generic_dev (block_size dev) (block_count dev) (read_block dev)
      (xor_write_block trio (block_size dev) (block_count dev))
      (xor_valid trio (block_size dev) (block_count dev) (ram_valid_all 3 4 2) (ram_conts 3 4 2))
      (xor_cont trio (block_size dev) (block_count dev) (ram_conts 3 4 2)) True"
    using xor_open_device [OF trio_arrays(1) s calloc_alloc_ok dev(1) _ _ _ _ _ b] by blast
  with dev show ?thesis by auto
qed

text \<open>C2: The redundancy works: when one device cannot read its block of a row, and the other
  devices hold the blocks of a balanced row, a read returns the data of that row, the lost
  block's data included; no other row of any device changes, and the lost block is written back
  if the device accepts the write. This is for a row that is not the cached one, when the cached
  row has no writes pending, and for blocks of less than 2^31 bytes: the loop that computes the
  lost block counts in an \<open>int\<close>.\<close>
theorem xor_recovers_lost_device:
  assumes "device_array devs valid conts rel" and "xor_shape devs bs bc valid st" and "unat bs < 2 ^ 31" and "w < bc"
    and "unat bs \<le> length into" and "\<not> row_dirty (xor_get st)"
    and "unat (row_index (xor_get st)) \<noteq> xrow (length devs) (unat w)"
    and "balanced (unat bs) A" and "length A = length devs" and "blocked (unat bs) A" and "f < length devs"
    and "\<And>j. j < length devs \<Longrightarrow> j \<noteq> f \<Longrightarrow> rel j \<and> conts (snd st) ! j ! xrow (length devs) (unat w) = A ! j"
    and "\<And>s r into. valid s \<Longrightarrow> unat r = xrow (length devs) (unat w) \<Longrightarrow> unat bs \<le> length into \<Longrightarrow>
      \<exists>into' s'. read_block (devs ! f) s r into = Some (False, into', s')"
  shows "\<exists>st' b. xor_read_block devs bs bc st w into =
      Some (True, patch 0 (A ! xcol (length devs) (unat w)) into, st') \<and>
    conts (snd st') = (conts (snd st))[f := (conts (snd st) ! f)[xrow (length devs) (unat w) := b]] \<and>
    (writable (devs ! f) valid (of_nat (xrow (length devs) (unat w))) \<longrightarrow> b = A ! f)"
  by (rule device_array.xor_read_recovers [OF assms])

theorem xor_recovers_lost_device_witness:
  "\<exists>st'. xor_read_block broken_trio 4 4 (\<lparr>generic_block_buffer = [0, 0, 0, 0],
      obj_m = \<lparr>row_buf = replicate 12 0, row_index = - 1, row_dirty = False\<rparr>\<rparr>,
      trio_st [1, 2, 3, 4] [9, 9, 9, 9] [4, 4, 4, 12]) 0 [0, 0, 0, 0] = Some (True, [5, 6, 7, 8], st')"
proof -
  let ?s = "trio_st [1, 2, 3, 4] [9, 9, 9, 9] [4, 4, 4, 12]"
  let ?st = "(\<lparr>generic_block_buffer = [0, 0, 0, 0],
      obj_m = \<lparr>row_buf = replicate 12 0, row_index = - 1, row_dirty = False\<rparr>\<rparr>, ?s)"
  let ?A = "[[1, 2, 3, 4], [5, 6, 7, 8], [4, 4, 4, 12]] :: bytes list"
  have c: "ram_conts 3 4 2 ?s = [[[1, 2, 3, 4], [0, 0, 0, 0]], [[9, 9, 9, 9], [0, 0, 0, 0]], [[4, 4, 4, 12], [0, 0, 0, 0]]]"
    by (rule trio_st_ok) simp_all
  have sh: "xor_shape broken_trio 4 4 (ram_valid_all 3 4 2) ?st"
    using trio_st_ok(1) by (simp add: xor_shape_def xor_geo_def array_geometry_def trio_simps xor_get_def list_all_length)
      (use trio_simps(2) in auto)
  have "unat (4 :: u64) = 4" by simp
  then have A: "balanced (unat (4 :: u64)) ?A" "length ?A = length broken_trio" "blocked (unat (4 :: u64)) ?A"
    by (simp_all only:) (auto simp: balanced_def trio_simps blocked_def less_Suc_eq numeral_eq_Suc)
  have good: "j \<noteq> 1 \<and> ram_conts 3 4 2 (snd ?st) ! j ! xrow (length broken_trio) (unat (0 :: u64)) = ?A ! j"
    if "j < length broken_trio" "j \<noteq> 1" for j
    using that unfolding snd_conv c by (auto simp: trio_simps xrow_def less_Suc_eq numeral_eq_Suc)
  have "broken_trio ! 1 = nth_dev 1 (unreadable (malloc_dev 4 2))"
    by (simp add: broken_trio_def independent_def upt_rec)
  then have bad: "\<exists>into' s'. read_block (broken_trio ! 1) s r into = Some (False, into', s')" for s r into
    by (simp add: nth_dev_def unreadable_def nth_read_def)
  have x: "xcol (length broken_trio) (unat (0 :: u64)) = 1" by (simp add: trio_simps xcol_def xpar_def xrow_def)
  have m: "unat (row_index (xor_get ?st)) \<noteq> xrow (length broken_trio) (unat (0 :: u64))"
    using row_not_max [of 0 1] by (simp add: xor_get_def xrow_def)
  have "\<exists>st' b. xor_read_block broken_trio 4 4 ?st 0 [0, 0, 0, 0] =
      Some (True, patch 0 (?A ! xcol (length broken_trio) (unat (0 :: u64))) [0, 0, 0, 0], st') \<and>
    ram_conts 3 4 2 (snd st') = (ram_conts 3 4 2 (snd ?st))[1 := (ram_conts 3 4 2 (snd ?st) ! 1)
      [xrow (length broken_trio) (unat (0 :: u64)) := b]] \<and>
    (writable (broken_trio ! 1) (ram_valid_all 3 4 2) (of_nat (xrow (length broken_trio) (unat (0 :: u64)))) \<longrightarrow> b = ?A ! 1)"
    by (rule xor_recovers_lost_device [OF trio_arrays(2) sh _ _ _ _ m A _ good bad])
      (simp_all add: xor_get_def trio_simps)
  then show ?thesis unfolding x by (auto simp: patch_def)
qed

text \<open>C11: When a row is cached, \<open>flush\<close> and \<open>clear_caches\<close> write it back and keep the
  contents and the balance of all rows.\<close>
theorem xor_flush_keeps_contents:
  assumes "device_array devs valid conts (\<lambda>_. True)" and "xor_valid devs bs bc valid conts st"
    and "row_index (xor_get st) \<noteq> - 1"
  shows "keeps (xor_valid devs bs bc valid conts) (xor_cont devs bs bc conts) st (xor_flush devs bs st) \<and>
    keeps (xor_valid devs bs bc valid conts) (xor_cont devs bs bc conts) st (xor_clear_caches devs bs st)"
  using device_array.xor_flush_ok [OF assms] by simp

theorem xor_flush_keeps_contents_witness:
  "keeps (xor_valid trio 4 4 (ram_valid_all 3 4 2) (ram_conts 3 4 2)) (xor_cont trio 4 4 (ram_conts 3 4 2))
    (\<lparr>generic_block_buffer = [0, 0, 0, 0],
      obj_m = \<lparr>row_buf = [1, 2, 3, 4, 5, 6, 7, 8, 4, 4, 4, 12], row_index = 0, row_dirty = True\<rparr>\<rparr>,
      trio_st [0, 0, 0, 0] [0, 0, 0, 0] [0, 0, 0, 0])
    (xor_flush trio 4 (\<lparr>generic_block_buffer = [0, 0, 0, 0],
      obj_m = \<lparr>row_buf = [1, 2, 3, 4, 5, 6, 7, 8, 4, 4, 4, 12], row_index = 0, row_dirty = True\<rparr>\<rparr>,
      trio_st [0, 0, 0, 0] [0, 0, 0, 0] [0, 0, 0, 0]))"
proof -
  let ?s = "trio_st [0, 0, 0, 0] [0, 0, 0, 0] [0, 0, 0, 0]"
  let ?io = "\<lparr>row_buf = [1, 2, 3, 4, 5, 6, 7, 8, 4, 4, 4, 12], row_index = 0, row_dirty = True\<rparr>"
  let ?st = "(\<lparr>generic_block_buffer = [0, 0, 0, 0], obj_m = ?io\<rparr>, ?s)"
  have s: "ram_valid_all 3 4 2 ?s" and c: "ram_conts 3 4 2 ?s =
      [[[0, 0, 0, 0], [0, 0, 0, 0]], [[0, 0, 0, 0], [0, 0, 0, 0]], [[0, 0, 0, 0], [0, 0, 0, 0]]]"
    by (rule trio_st_ok; simp)+
  have u: "unat (4 :: u64) = 4" by simp
  have row: "row_of (ram_conts 3 4 2 ?s) r = replicate 3 (replicate 4 0)" if "r < 2" for r
    using that unfolding c row_of_def by (auto simp: less_Suc_eq numeral_eq_Suc)
  have buf: "buf_row trio 4 ?io = [[1, 2, 3, 4], [5, 6, 7, 8], [4, 4, 4, 12]]"
    by (simp add: buf_row_def trio_simps blocks_of_def block_at_def upt_rec)
  have b: "balanced 4 [[1, 2, 3, 4], [5, 6, 7, 8], [4, 4, 4, 12]]"
    by (auto simp: balanced_def less_Suc_eq numeral_eq_Suc)
  have sh: "xor_shape trio 4 4 (ram_valid_all 3 4 2) ?st"
    using s by (simp add: xor_shape_def xor_geo_def array_geometry_def trio_simps xor_get_def list_all_length)
      (use trio_simps(1) in auto)
  have "xor_valid trio 4 4 (ram_valid_all 3 4 2) (ram_conts 3 4 2) ?st"
    using sh row balanced_zero b buf by (simp add: xor_valid_def trio_simps xor_get_def)
  moreover have "row_index (xor_get ?st) \<noteq> - 1" by (simp add: xor_get_def)
  ultimately show ?thesis using xor_flush_keeps_contents [OF trio_arrays(1)] by blast
qed

text \<open>A device that was just opened cannot be flushed, synced or cleared: with no row
  cached the three operations abort the process on the assertion of \<open>xor_flush_slice\<close>.\<close>
theorem xor_fresh_device_aborts:
  assumes "xor_open alloc devs = Some (Some (dev, obj))"
  shows "flush dev (obj, s) = None \<and> clear_caches dev (obj, s) = None \<and> sync dev (obj, s) = None"
proof -
  have "dev = xor_dev devs (block_size dev) (block_count dev)" "row_index (obj_m obj) = - 1"
    using assms by (auto simp: xor_open_def Let_def xor_dev_def split: if_splits bind_splits)
  then show ?thesis
    using xor_maintenance_dies [of "(obj, s)" devs "block_size dev"]
    by (simp add: xor_get_def) (metis xor_dev_def bdev.select_convs(7-9))
qed

theorem xor_fresh_device_aborts_witness:
  "\<exists>dev obj. xor_open calloc_alloc trio = Some (Some (dev, obj)) \<and>
    flush dev (obj, trio_st [] [] []) = None"
proof -
  obtain dev obj where "xor_open calloc_alloc trio = Some (Some (dev, obj))"
    using trio_simps by (auto simp: xor_open_def calloc_alloc_def Let_def xor_dev_def list_all_length nth_tl)
  with xor_fresh_device_aborts [OF this, of "trio_st [] [] []"] show ?thesis by blast
qed

end
