(* ===== verification/Encrypt.thy ===== *)
theory Encrypt
  imports BaseIO Endian
begin

text \<open>
  \<open>src/src/layers/encrypt.c\<close>: a layer that encrypts every block with Blowfish in 64-bit output
  feedback mode, with an initialisation vector made of the block number and a random base
  vector. Block 0 of the device below holds a header: a magic number, a mode, a verification
  number of the key, and the encrypted base vector.

  SHA-1, MD5 and Blowfish are OpenSSL's and are parameters (\<open>crypto\<close>), as is \<open>random\<close>;
  \<open>crypto_ok\<close> is what the layer relies on: the sizes of the digests, that ECB decryption
  undoes ECB encryption, and that output feedback keeps the length and undoes itself.

  Proved: the layer keeps the whole contract, its contents are the decrypted blocks below, and
  the header block is never touched; blocks have different vectors; a device that was created
  opens with the same key and the same base vector, and an open succeeds exactly when the
  header is that of the key.
\<close>

unbundle bit_operations_syntax

section \<open>OpenSSL\<close>

record 'k crypto =
  SHA1 :: "bytes \<Rightarrow> bytes"
  MD5 :: "bytes \<Rightarrow> bytes"
  BF_set_key :: "bytes \<Rightarrow> 'k"
  BF_ecb_encrypt :: "'k \<Rightarrow> bytes \<Rightarrow> bytes"
  BF_ecb_decrypt :: "'k \<Rightarrow> bytes \<Rightarrow> bytes"
  BF_ofb64 :: "'k \<Rightarrow> bytes \<Rightarrow> bytes \<Rightarrow> bytes"

definition crypto_ok :: "'k crypto \<Rightarrow> bool" where
  "crypto_ok c \<longleftrightarrow> (\<forall>d. length (SHA1 c d) = 20) \<and> (\<forall>d. length (MD5 c d) = 16) \<and>
     (\<forall>k b. length b = 8 \<longrightarrow> length (BF_ecb_encrypt c k b) = 8 \<and> length (BF_ecb_decrypt c k b) = 8 \<and>
       BF_ecb_decrypt c k (BF_ecb_encrypt c k b) = b) \<and>
     (\<forall>k iv d. length iv = 8 \<longrightarrow> length (BF_ofb64 c k iv d) = length d \<and> BF_ofb64 c k iv (BF_ofb64 c k iv d) = d)"

lemma crypto_okD:
  assumes "crypto_ok c"
  shows "length (SHA1 c d) = 20" "length (MD5 c d) = 16"
    "length b = 8 \<Longrightarrow> length (BF_ecb_encrypt c k b) = 8"
    "length b = 8 \<Longrightarrow> BF_ecb_decrypt c k (BF_ecb_encrypt c k b) = b"
    "length b = 8 \<Longrightarrow> length (BF_ecb_decrypt c k b) = 8"
    "length iv = 8 \<Longrightarrow> length (BF_ofb64 c k iv d) = length d"
    "length iv = 8 \<Longrightarrow> BF_ofb64 c k iv (BF_ofb64 c k iv d) = d"
  using assms by (simp_all add: crypto_ok_def)

section \<open>Keys\<close>

text \<open>\<open>for (j = i % 56, ct = 0; ct < n; j = (j+1) % 56, ct++) out[j] ^= hash[ct]\<close>; the list is
  that of \<open>ct\<close>.\<close>

primrec xor_ring :: "nat list \<Rightarrow> nat \<Rightarrow> bytes \<Rightarrow> bytes \<Rightarrow> bytes run" where
  "xor_ring [] j hash out = Some out"
| "xor_ring (ct # cts) j hash out = do {
     a \<leftarrow> byte_at out j;
     h \<leftarrow> byte_at hash ct;
     out \<leftarrow> byte_set out j (a XOR h);
     xor_ring cts ((j + 1) mod 56) hash out }"

primrec strengthen_loop :: "'k crypto \<Rightarrow> nat list \<Rightarrow> bytes \<Rightarrow> bytes \<Rightarrow> bytes run" where
  "strengthen_loop c [] hash out = Some out"
| "strengthen_loop c (i # is) hash out = do {
     d \<leftarrow> rd out 0 56;
     hash \<leftarrow> wr hash 0 (SHA1 c d);
     out \<leftarrow> xor_ring [0..<20] (i mod 56) hash out;
     d \<leftarrow> rd out 0 56;
     hash \<leftarrow> wr hash 0 (MD5 c d);
     out \<leftarrow> xor_ring [0..<16] (i mod 56) hash out;
     strengthen_loop c is hash out }"

text \<open>\<open>out\<close> is the caller's \<open>uint8_t skey[56]\<close>; its bytes, and those of \<open>hash\<close>, are all
  written before they are read.\<close>

definition strengthen_key :: "'k crypto \<Rightarrow> bytes \<Rightarrow> int \<Rightarrow> bytes run" where
  "strengthen_key c key keylen =
    (let keylen = (if 56 < keylen then 56 else keylen) in
     if keylen < 0 then None
     else do {
       k \<leftarrow> rd key 0 (nat keylen);
       out \<leftarrow> wr (replicate 56 0) 0 k;
       strengthen_loop c [0..<10000] (replicate 20 0) out })"

primrec key_verification_loop :: "'k crypto \<Rightarrow> 'k \<Rightarrow> nat list \<Rightarrow> nat \<Rightarrow> bytes \<Rightarrow> bytes run" where
  "key_verification_loop c bf [] i into = Some into"
| "key_verification_loop c bf (j # js) i into = do {
     let i = i + j;
     inb \<leftarrow> pack_be64 (of_nat i) (replicate 8 0) 0;
     let out = BF_ecb_encrypt c bf inb;
     into \<leftarrow> byte_loop (\<lambda>n into. do {
         a \<leftarrow> byte_at into n;
         b \<leftarrow> byte_at out n;
         Some (a XOR b) }) 0 [0..<8] into;
     key_verification_loop c bf js i into }"

definition make_key_verification :: "'k crypto \<Rightarrow> 'k \<Rightarrow> bytes run" where
  "make_key_verification c bf = key_verification_loop c bf [0..<2000] 0 (replicate 8 0)"

section \<open>The layer\<close>

text \<open>What an open device keeps unchanged: the base vector and the key schedule. Its mutable
  part is \<open>cryptobuffer\<close>.\<close>

record 'k enc_io =
  baseiv :: bytes
  bf_key :: 'k

type_synonym 's enc_state = "bytes obj \<times> 's"

definition MAGIC :: bytes where
  "MAGIC = [0x45, 0x4E, 0x43, 0x52, 0x30, 0x30, 0x30, 0x30]"

definition set_crypto :: "bytes \<Rightarrow> 's \<Rightarrow> 's enc_state \<Rightarrow> 's enc_state" where
  "set_crypto cb s st = ((fst st)\<lparr>obj_m := cb\<rparr>, s)"

definition make_iv :: "bytes \<Rightarrow> u64 \<Rightarrow> bytes run" where
  "make_iv base which = do {
     iv \<leftarrow> pack_be64 which (replicate 8 0) 0;
     byte_loop (\<lambda>i iv. do {
         a \<leftarrow> byte_at iv i;
         b \<leftarrow> byte_at base i;
         Some (a XOR b) }) 0 [0..<8] iv }"

definition encrypt_read_block ::
  "'k crypto \<Rightarrow> 's bdev \<Rightarrow> 'k enc_io \<Rightarrow> u64 \<Rightarrow> u64 \<Rightarrow> 's enc_state block_read" where
  "encrypt_read_block c base io bs bc st which into = do {
     c_assert (which < bc);
     (ok, cb, s) \<leftarrow> read_block base (snd st) (which + 1) (obj_m (fst st));
     let st = set_crypto cb s st;
     if \<not> ok then Some (False, into, st)
     else do {
       iv \<leftarrow> make_iv (baseiv io) which;
       d \<leftarrow> rd cb 0 (unat bs);
       into \<leftarrow> wr into 0 (BF_ofb64 c (bf_key io) iv d);
       Some (True, into, st) } }"

definition encrypt_write_block ::
  "'k crypto \<Rightarrow> 's bdev \<Rightarrow> 'k enc_io \<Rightarrow> u64 \<Rightarrow> u64 \<Rightarrow> 's enc_state src_write" where
  "encrypt_write_block c base io bs bc st which from = do {
     c_assert (which < bc);
     iv \<leftarrow> make_iv (baseiv io) which;
     d \<leftarrow> rd (deref (fst st) from) 0 (unat bs);
     cb \<leftarrow> wr (obj_m (fst st)) 0 (BF_ofb64 c (bf_key io) iv d);
     (ok, s) \<leftarrow> write_block base (snd st) (which + 1) cb;
     Some (ok, set_crypto cb s st) }"

definition encrypt_close :: "'s enc_state \<Rightarrow> 's run" where
  "encrypt_close st = Some (snd st)"

definition encrypt_clear_caches :: "'s bdev \<Rightarrow> 's enc_state \<Rightarrow> 's enc_state run" where
  "encrypt_clear_caches base st = do { s \<leftarrow> clear_caches base (snd st); Some (fst st, s) }"

definition encrypt_flush :: "'s bdev \<Rightarrow> 's enc_state \<Rightarrow> 's enc_state run" where
  "encrypt_flush base st = do { s \<leftarrow> flush base (snd st); Some (fst st, s) }"

definition encrypt_sync :: "'s bdev \<Rightarrow> 's enc_state \<Rightarrow> 's enc_state run" where
  "encrypt_sync base st = do { s \<leftarrow> sync base (snd st); Some (fst st, s) }"

definition encrypt_dev :: "'k crypto \<Rightarrow> 's bdev \<Rightarrow> 'k enc_io \<Rightarrow> 's enc_state bdev" where
  "encrypt_dev c base io =
    (let bs = block_size base; bc = block_count base - 1;
         rb = encrypt_read_block c base io bs bc; wb = encrypt_write_block c base io bs bc in
     \<lparr>block_size = bs, block_count = bc,
      read_bytes = generic_read_bytes bs bc rb, write_bytes = generic_write_bytes bs bc rb wb,
      read_block = rb, write_block = (\<lambda>st which from. wb st which (Ext from)),
      clear_caches = encrypt_clear_caches base, flush = encrypt_flush base, sync = encrypt_sync base\<rparr>)"

text \<open>The results of \<open>random\<close>, in the order of its calls, are the argument \<open>rnd\<close>.\<close>

definition encrypt_create ::
  "'k crypto \<Rightarrow> allocator \<Rightarrow> (nat \<Rightarrow> u64) \<Rightarrow> 's bdev \<Rightarrow> 's \<Rightarrow> bytes \<Rightarrow> int \<Rightarrow> (bool \<times> 's) run" where
  "encrypt_create c alloc rnd dev s key keylen =
    (if block_size dev < 28 then Some (False, s)
     else do {
       skey \<leftarrow> strengthen_key c key keylen;
       let bf = BF_set_key c skey;
       let baseiv = map (\<lambda>i. ucast (rnd i AND 0xFF)) [0..<8];
       let baseiv_encrypted = BF_ecb_encrypt c bf baseiv;
       block \<leftarrow> alloc (unat (block_size dev));
       block \<leftarrow> memset block 0 0 (unat (block_size dev));
       block \<leftarrow> wr block 0 MAGIC;
       block \<leftarrow> pack_be32 0 block 8;
       kv \<leftarrow> make_key_verification c bf;
       block \<leftarrow> wr block 12 kv;
       block \<leftarrow> wr block 20 baseiv_encrypted;
       write_block dev s 0 block })"

definition encrypt_open ::
  "'k crypto \<Rightarrow> allocator \<Rightarrow> 's bdev \<Rightarrow> 's \<Rightarrow> bytes \<Rightarrow> int \<Rightarrow>
   (('s enc_state bdev \<times> 'k enc_io \<times> bytes obj) option \<times> 's) run" where
  "encrypt_open c alloc base s key keylen =
    (if block_size base < 28 then Some (None, s)
     else do {
       t \<leftarrow> alloc (unat (block_size base));
       cb \<leftarrow> alloc (unat (block_size base));
       skey \<leftarrow> strengthen_key c key keylen;
       let bf = BF_set_key c skey;
       (ok, t, s) \<leftarrow> read_block base s 0 t;
       if \<not> ok then Some (None, s)
       else do {
         magic \<leftarrow> rd t 0 8;
         if magic \<noteq> MAGIC then Some (None, s)
         else do {
           mode \<leftarrow> unpack_be32 t 8;
           if mode \<noteq> 0 then Some (None, s)
           else do {
             kv \<leftarrow> make_key_verification c bf;
             v \<leftarrow> rd t 12 8;
             if v \<noteq> kv then Some (None, s)
             else do {
               b \<leftarrow> rd t 20 8;
               let io = \<lparr>baseiv = BF_ecb_decrypt c bf b, bf_key = bf\<rparr>;
               Some (Some (encrypt_dev c base io, io, \<lparr>generic_block_buffer = t, obj_m = cb\<rparr>), s) } } } } })"

section \<open>Keys and vectors\<close>

lemma xor_ring_total:
  assumes "length out = 56" and "j < 56" and "\<forall>ct \<in> set cts. ct < length hash"
  shows "\<exists>out'. xor_ring cts j hash out = Some out' \<and> length out' = 56"
  using assms by (induction cts arbitrary: j out) simp_all

lemma strengthen_loop_total:
  assumes "crypto_ok c" and "length out = 56" and "length hash = 20"
  shows "\<exists>out'. strengthen_loop c is hash out = Some out' \<and> length out' = 56"
  using assms(2,3)
proof (induction "is" arbitrary: hash out)
  case (Cons i "is")
  let ?h1 = "SHA1 c out"
  have j: "i mod 56 < 56" by simp
  obtain out1 where o1: "xor_ring [0..<20] (i mod 56) ?h1 out = Some out1" "length out1 = 56"
    using xor_ring_total [OF Cons.prems(1) j, of "[0..<20]" ?h1] crypto_okD(1) [OF assms(1)] by auto
  let ?h2 = "patch 0 (MD5 c out1) ?h1"
  have l2: "length ?h2 = 20" using crypto_okD(1,2) [OF assms(1)] by (intro trans [OF length_patch]) simp_all
  obtain out2 where o2: "xor_ring [0..<16] (i mod 56) ?h2 out1 = Some out2" "length out2 = 56"
    using xor_ring_total [OF o1(2) j, of "[0..<16]" ?h2] l2 by auto
  have w: "wr hash 0 (SHA1 c out) = Some ?h1" "wr ?h1 0 (MD5 c out1) = Some ?h2"
    using crypto_okD(1,2) [OF assms(1)] Cons.prems(2) by (simp_all add: wr_def)
  show ?case
    using Cons.IH [OF o2(2) l2] Cons.prems(1) o1(2)
    by (simp only: strengthen_loop.simps) (simp add: rd_all w(1) o1(1) w(2) [simplified] o2(1) [simplified])
qed simp

lemma strengthen_key_ok:
  assumes "crypto_ok c" and "0 \<le> keylen" and "keylen \<le> int (length key)"
  obtains skey where "strengthen_key c key keylen = Some skey"
proof -
  define k where "k = (if 56 < keylen then 56 else keylen)"
  have k: "0 \<le> k" "nat k \<le> length key" "nat k \<le> 56" using assms(2,3) by (auto simp: k_def)
  let ?out = "patch 0 (take (nat k) key) (replicate 56 0)"
  have "length ?out = 56" using k by simp
  from strengthen_loop_total [OF assms(1) this, of "replicate 20 0" "[0..<10000]"]
  obtain skey where "strengthen_loop c [0..<10000] (replicate 20 0) ?out = Some skey" by auto
  moreover have "rd key 0 (nat k) = Some (take (nat k) key)" using k by (simp add: rd_all)
  moreover have "wr (replicate 56 0) 0 (take (nat k) key) = Some ?out" using k by (simp add: wr_def)
  ultimately have "strengthen_key c key keylen = Some skey"
    using k(1) by (simp only: strengthen_key_def k_def [symmetric] Let_def) simp
  then show thesis by (rule that)
qed

text \<open>The exclusive or of two eight-byte buffers, as both loops compute it.\<close>

definition xor8 :: "bytes \<Rightarrow> bytes \<Rightarrow> bytes" where
  "xor8 a b = map (\<lambda>i. a ! i XOR b ! i) [0..<8]"

lemma length_xor8 [simp]: "length (xor8 a b) = 8"
  by (simp add: xor8_def)

lemma xor8_loop:
  assumes "length a = 8" and "length b = 8"
  shows "byte_loop (\<lambda>i a. do { x \<leftarrow> byte_at a i; y \<leftarrow> byte_at b i; Some (x XOR y) }) 0 [0..<8] a = Some (xor8 a b)"
proof -
  have "byte_loop (\<lambda>i a. do { x \<leftarrow> byte_at a i; y \<leftarrow> byte_at b i; Some (x XOR y) }) 0 [0..<8] a =
      Some (patch 0 (map (\<lambda>i. a ! i XOR b ! i) [0..<8]) a)"
    using assms by (intro byte_loop_patch) (simp_all add: nth_append)
  then show ?thesis using assms by (simp add: xor8_def)
qed

lemma xor8_inj: "xor8 a b = xor8 a' b \<Longrightarrow> length a = 8 \<Longrightarrow> length a' = 8 \<Longrightarrow> a = a'"
  by (intro nth_equalityI) (auto simp: xor8_def list_eq_iff_nth_eq intro: xor_cancel_right)

definition iv_of :: "bytes \<Rightarrow> u64 \<Rightarrow> bytes" where
  "iv_of base which = xor8 (be64_bytes which) base"

lemma length_iv_of [simp]: "length (iv_of base which) = 8"
  by (simp add: iv_of_def)

lemma make_iv_ok: "length base = 8 \<Longrightarrow> make_iv base which = Some (iv_of base which)"
  by (simp add: make_iv_def pack_be64_def wr_def xor8_loop iv_of_def)

lemma iv_of_inj: "iv_of base v = iv_of base w \<longleftrightarrow> v = w"
  unfolding iv_of_def by (metis xor8_inj length_be_bytes(1) be_val_be_bytes(1) u64_eq_iff)

lemma key_verification_loop_total:
  assumes "crypto_ok c" and "length into = 8"
  shows "\<exists>kv. key_verification_loop c bf js i into = Some kv \<and> length kv = 8"
  using assms(2)
proof (induction js arbitrary: i into)
  case (Cons j js)
  have "length (BF_ecb_encrypt c bf (be64_bytes (of_nat (i + j)))) = 8"
    by (rule crypto_okD(3) [OF assms(1)]) simp
  then show ?case
    using Cons.IH [of "xor8 into (BF_ecb_encrypt c bf (be64_bytes (of_nat (i + j))))"] Cons.prems
    by (simp add: pack_be64_def wr_def xor8_loop Let_def)
qed simp

lemma make_key_verification_ok:
  assumes "crypto_ok c"
  obtains kv where "make_key_verification c bf = Some kv" "length kv = 8"
  using key_verification_loop_total [OF assms, of "replicate 8 0" bf "[0..<2000]" 0]
  unfolding make_key_verification_def by auto

section \<open>The contract\<close>

text \<open>The blocks a reader sees, given the blocks below; the header is block 0 below.\<close>

definition enc_view :: "'k crypto \<Rightarrow> 'k enc_io \<Rightarrow> nat \<Rightarrow> bytes list \<Rightarrow> bytes list" where
  "enc_view c io n cb = map (\<lambda>w. BF_ofb64 c (bf_key io) (iv_of (baseiv io) (of_nat w)) (cb ! Suc w)) [0..<n]"

definition enc_cont ::
  "'k crypto \<Rightarrow> 's bdev \<Rightarrow> 'k enc_io \<Rightarrow> ('s \<Rightarrow> bytes list) \<Rightarrow> 's enc_state \<Rightarrow> bytes list" where
  "enc_cont c base io cont st = enc_view c io (unat (block_count base) - 1) (cont (snd st))"

definition enc_valid ::
  "'s bdev \<Rightarrow> 'k enc_io \<Rightarrow> ('s \<Rightarrow> bool) \<Rightarrow> ('s \<Rightarrow> bytes list) \<Rightarrow> bytes \<Rightarrow> 's enc_state \<Rightarrow> bool" where
  "enc_valid base io valid cont header st \<longleftrightarrow>
     length (generic_block_buffer (fst st)) = unat (block_size base) \<and>
     length (obj_m (fst st)) = unat (block_size base) \<and> length (baseiv io) = 8 \<and>
     0 < unat (block_count base) \<and> valid (snd st) \<and> cont (snd st) ! 0 = header"

lemma enc_view_simps [simp]:
  "length (enc_view c io n cb) = n"
  "w < n \<Longrightarrow> enc_view c io n cb ! w = BF_ofb64 c (bf_key io) (iv_of (baseiv io) (of_nat w)) (cb ! Suc w)"
  by (simp_all add: enc_view_def)

lemma enc_view_same:
  "same_except {Suc w} cb cb' \<Longrightarrow> Suc n \<le> length cb \<Longrightarrow> same_except {w} (enc_view c io n cb) (enc_view c io n cb')"
  by (simp add: same_except_def)

lemma enc_view_update:
  assumes "crypto_ok c" and "w < n" and "Suc n \<le> length cb"
  shows "enc_view c io n (cb[Suc w := BF_ofb64 c (bf_key io) (iv_of (baseiv io) (of_nat w)) d]) =
    (enc_view c io n cb)[w := d]"
  using assms by (intro nth_equalityI) (auto simp: nth_list_update crypto_okD(7) [OF assms(1)])

lemma count_above_header:
  assumes "0 < unat (n :: u64)"
  shows "unat (n - 1) = unat n - 1" "w < n - 1 \<Longrightarrow> unat (w + 1) = Suc (unat w)" "w < n - 1 \<Longrightarrow> w + 1 < n"
proof -
  show m: "unat (n - 1) = unat n - 1" using assms by (subst unat_sub_u64) (simp_all add: word_le_nat_alt)
  assume "w < n - 1"
  then have l: "unat w < unat n - 1" using m by (simp add: word_less_nat_alt)
  moreover have "unat n < 2 ^ 64" by (rule unat_u64_bound)
  ultimately have "unat w + 1 < 2 ^ 64" by linarith
  then show s: "unat (w + 1) = Suc (unat w)" using unat_add_u64 [of w 1] by simp
  then show "w + 1 < n" using l by (simp add: word_less_nat_alt)
qed

context block_device
begin

lemma encrypt_read_block_ok:
  assumes c: "crypto_ok c" and v: "enc_valid dev io valid cont h st" and w: "w < block_count dev - 1"
    and l: "unat (block_size dev) \<le> length into"
  shows "read_ok (enc_valid dev io valid cont h) (enc_cont c dev io cont) rel st into
    (enc_cont c dev io cont st ! unat w)
    (encrypt_read_block c dev io (block_size dev) (block_count dev - 1) st w into)"
proof -
  have vs: "valid (snd st)" and n: "0 < unat (block_count dev)" and bl: "length (baseiv io) = 8"
    and cbl: "length (obj_m (fst st)) = unat (block_size dev)"
    using v by (simp_all add: enc_valid_def)
  note a = count_above_header [OF n] and iv = make_iv_ok [OF bl, of w]
  have "unat (block_size dev) \<le> length (obj_m (fst st))" using cbl by simp
  from read_law [OF vs a(3) [OF w] this]
  obtain ok cb s where r: "read_block dev (snd st) (w + 1) (obj_m (fst st)) = Some (ok, cb, s)" "valid s"
    "cont s = cont (snd st)" "length cb = unat (block_size dev)" "rel \<Longrightarrow> ok"
    "ok \<Longrightarrow> cb = patch 0 (cont (snd st) ! unat (w + 1)) (obj_m (fst st))"
    unfolding cbl by (rule read_okE) (simp only: cbl)
  have st': "enc_valid dev io valid cont h (set_crypto cb s st)"
    "enc_cont c dev io cont (set_crypto cb s st) = enc_cont c dev io cont st"
    using v r(2,3,4) by (simp_all add: enc_valid_def set_crypto_def enc_cont_def)
  show ?thesis
  proof (cases ok)
    case True
    have wn: "unat w < unat (block_count dev) - 1" using w a(1) by (simp add: word_less_nat_alt)
    have "cb = cont (snd st) ! Suc (unat w)"
      using r(6) [OF True] length_block [OF vs a(3) [OF w]] cbl a(2) [OF w] by simp
    then have d: "BF_ofb64 c (bf_key io) (iv_of (baseiv io) w) cb = enc_cont c dev io cont st ! unat w"
      using wn by (simp add: enc_cont_def)
    have "length (enc_cont c dev io cont st ! unat w) = unat (block_size dev)"
      by (simp only: d [symmetric] crypto_okD(6) [OF c] length_iv_of r(4))
    then have "encrypt_read_block c dev io (block_size dev) (block_count dev - 1) st w into =
        Some (True, patch 0 (enc_cont c dev io cont st ! unat w) into, set_crypto cb s st)"
      using w True r(1,4) iv l by (simp add: encrypt_read_block_def rd_all d wr_def Let_def)
    from read_okI [where valid = "enc_valid dev io valid cont h" and cont = "enc_cont c dev io cont", OF this st'] l \<open>length (enc_cont c dev io cont st ! unat w) = _\<close> show ?thesis by simp
  next
    case False
    then have "\<not> rel" using r(5) by blast
    with False w r(1) st' show ?thesis
      by (simp add: encrypt_read_block_def Let_def read_ok_fail)
  qed
qed

lemma encrypt_write_block_ok:
  assumes c: "crypto_ok c" and v: "enc_valid dev io valid cont h st" and w: "w < block_count dev - 1"
    and l: "unat (block_size dev) \<le> length (deref (fst st) from)"
  shows "write_ok (enc_valid dev io valid cont h) (enc_cont c dev io cont) rel st {unat w}
    ((enc_cont c dev io cont st)[unat w := take (unat (block_size dev)) (deref (fst st) from)])
    (encrypt_write_block c dev io (block_size dev) (block_count dev - 1) st w from)"
proof -
  let ?n = "unat (block_count dev) - 1"
  have vs: "valid (snd st)" and n: "0 < unat (block_count dev)" and bl: "length (baseiv io) = 8"
    and cbl: "length (obj_m (fst st)) = unat (block_size dev)"
    using v by (simp_all add: enc_valid_def)
  note a = count_above_header [OF n] and iv = make_iv_ok [OF bl, of w]
  define d where "d = take (unat (block_size dev)) (deref (fst st) from)"
  let ?e = "BF_ofb64 c (bf_key io) (iv_of (baseiv io) w) d"
  have el: "length ?e = unat (block_size dev)" using l crypto_okD(6) [OF c] by (simp add: d_def)
  then have "unat (block_size dev) \<le> length ?e" by simp
  from write_law [OF vs a(3) [OF w] this]
  obtain ok s where r: "write_block dev (snd st) (w + 1) ?e = Some (ok, s)" "valid s" "rel \<Longrightarrow> ok"
    "same_except {unat (w + 1)} (cont (snd st)) (cont s)"
    "ok \<Longrightarrow> cont s = (cont (snd st))[unat (w + 1) := take (unat (block_size dev)) ?e]"
    by (rule write_okE) blast
  have wn: "unat w < ?n" using w a(1) by (simp add: word_less_nat_alt)
  have ln: "Suc ?n \<le> length (cont (snd st))" using length_cont [OF vs] n by simp
  have "encrypt_write_block c dev io (block_size dev) (block_count dev - 1) st w from =
      Some (ok, set_crypto ?e s st)"
    using w iv l r(1) el cbl by (simp add: encrypt_write_block_def rd_all wr_def Let_def flip: d_def)
  moreover have "cont s ! 0 = cont (snd st) ! 0"
    using r(4) a(2) [OF w] length_cont [OF vs] n by (simp add: same_except_def)
  then have "enc_valid dev io valid cont h (set_crypto ?e s st)"
    using v r(2) el by (simp add: enc_valid_def set_crypto_def)
  moreover have "same_except {unat w} (enc_cont c dev io cont st) (enc_cont c dev io cont (set_crypto ?e s st))"
    using enc_view_same [OF r(4) [unfolded a(2) [OF w]] ln] by (simp add: enc_cont_def set_crypto_def)
  moreover have "enc_cont c dev io cont (set_crypto ?e s st) = (enc_cont c dev io cont st)[unat w := d]" if ok
    using r(5) [OF that] enc_view_update [OF c wn ln, of io d] el
    by (simp add: enc_cont_def set_crypto_def a(2) [OF w])
  ultimately show ?thesis using r(3) unfolding d_def by (intro write_okI) blast+
qed

lemma encrypt_generic:
  assumes c: "crypto_ok c"
  shows "generic_dev (block_size dev) (block_count dev - 1)
    (encrypt_read_block c dev io (block_size dev) (block_count dev - 1))
    (encrypt_write_block c dev io (block_size dev) (block_count dev - 1))
    (enc_valid dev io valid cont h) (enc_cont c dev io cont) rel"
proof (unfold_locales, goal_cases)
  case (1 st)
  then have vs: "valid (snd st)" and n: "0 < unat (block_count dev)" by (simp_all add: enc_valid_def)
  have "unat (block_size dev) * (unat (block_count dev) - 1) \<le> unat (block_size dev) * unat (block_count dev)"
    by (rule mult_le_mono2) simp
  also have "\<dots> < 2 ^ 64" using geometry [OF vs] by blast
  finally show ?case using geometry [OF vs] unfolding count_above_header(1) [OF n] by blast
next
  case (2 st)
  then have vs: "valid (snd st)" and n: "0 < unat (block_count dev)" by (simp_all add: enc_valid_def)
  have "length (cont (snd st) ! Suc w) = unat (block_size dev)" if "w < unat (block_count dev) - 1" for w
    using contents [OF vs] that by (simp add: blocked_nth)
  then show ?case
    by (auto simp: enc_cont_def count_above_header(1) [OF n] blocked_def enc_view_def crypto_okD(6) [OF c])
next
  case (3 st w into) then show ?case by (intro encrypt_read_block_ok [OF c])
next
  case (4 st w "from") then show ?case using encrypt_write_block_ok [OF c, of io h st w "Ext from"] by simp
next
  case (8 st w) then show ?case using encrypt_write_block_ok [OF c, of io h st w Own] by (simp add: enc_valid_def)
qed (simp_all add: enc_valid_def enc_cont_def set_buffer_def)

lemma encrypt_below:
  assumes "keeps valid cont (snd st) (op (snd st))" and "enc_valid dev io valid cont h st"
  shows "keeps (enc_valid dev io valid cont h) (enc_cont c dev io cont) st
    (do { s \<leftarrow> op (snd st); Some (fst st, s) })"
proof -
  obtain s where "op (snd st) = Some s" "valid s" "cont s = cont (snd st)"
    using assms(1) by (rule keepsE)
  then show ?thesis
    using assms(2) by (intro keepsI [of _ "(fst st, s)"]) (simp_all add: enc_valid_def enc_cont_def)
qed

lemma encrypt_device:
  assumes "crypto_ok c"
  shows "block_device (encrypt_dev c dev io) (enc_valid dev io valid cont h) (enc_cont c dev io cont) rel"
proof (rule generic_dev.whole_device [OF encrypt_generic [OF assms]])
  fix st assume v: "enc_valid dev io valid cont h st"
  then have vs: "valid (snd st)" by (simp add: enc_valid_def)
  let ?keeps = "keeps (enc_valid dev io valid cont h) (enc_cont c dev io cont) st"
  show "?keeps (flush (encrypt_dev c dev io) st)"
    using encrypt_below [where op = "flush dev", OF flush_law [OF vs] v]
    by (simp add: encrypt_dev_def encrypt_flush_def Let_def)
  show "?keeps (sync (encrypt_dev c dev io) st)"
    using encrypt_below [where op = "sync dev", OF sync_law [OF vs] v]
    by (simp add: encrypt_dev_def encrypt_sync_def Let_def)
  show "?keeps (clear_caches (encrypt_dev c dev io) st)"
    using encrypt_below [where op = "clear_caches dev", OF clear_caches_law [OF vs] v]
    by (simp add: encrypt_dev_def encrypt_clear_caches_def Let_def)
qed (simp_all add: encrypt_dev_def Let_def)

end

section \<open>Creating and opening\<close>

text \<open>The header that \<open>encrypt_create\<close> writes, and when \<open>encrypt_open\<close> accepts one.\<close>

definition enc_header :: "'k crypto \<Rightarrow> 'k \<Rightarrow> bytes \<Rightarrow> bytes \<Rightarrow> nat \<Rightarrow> bytes" where
  "enc_header c bf kv biv bs =
    MAGIC @ be32_bytes 0 @ kv @ BF_ecb_encrypt c bf biv @ replicate (bs - 28) 0"

definition header_matches :: "'k crypto \<Rightarrow> 'k \<Rightarrow> bytes \<Rightarrow> bool" where
  "header_matches c bf h \<longleftrightarrow> take 8 h = MAGIC \<and> take 4 (drop 8 h) = be32_bytes 0 \<and>
     make_key_verification c bf = Some (take 8 (drop 12 h))"

lemma length_MAGIC [simp]: "length MAGIC = 8"
  by (simp add: MAGIC_def)

lemma header_parts:
  assumes "length kv = 8" and "length e = 8" and "h = MAGIC @ be32_bytes 0 @ kv @ e @ z"
  shows "take 8 h = MAGIC" "take 4 (drop 8 h) = be32_bytes 0" "take 8 (drop 12 h) = kv" "take 8 (drop 20 h) = e"
  using assms by simp_all

lemma patch_after: "length a = off \<Longrightarrow> length src = n \<Longrightarrow> patch off src (a @ replicate (n + m) 0) = a @ src @ replicate m 0"
  by (simp add: patch_def)

lemma header_writes:
  assumes "28 \<le> bs" and "length kv = 8" and "length e = 8"
  shows "wr (replicate bs 0) 0 MAGIC = Some (MAGIC @ replicate (bs - 8) 0)"
    "pack_be32 0 (MAGIC @ replicate (bs - 8) 0) 8 = Some (MAGIC @ be32_bytes 0 @ replicate (bs - 12) 0)"
    "wr (MAGIC @ be32_bytes 0 @ replicate (bs - 12) 0) 12 kv = Some (MAGIC @ be32_bytes 0 @ kv @ replicate (bs - 20) 0)"
    "wr (MAGIC @ be32_bytes 0 @ kv @ replicate (bs - 20) 0) 20 e =
      Some (MAGIC @ be32_bytes 0 @ kv @ e @ replicate (bs - 28) 0)"
proof -
  obtain m where bs: "bs = 28 + m" using assms(1) le_Suc_ex by blast
  have r: "replicate (bs - 8) 0 = replicate (4 + (16 + m)) (0::u8)" "replicate (bs - 12) 0 = replicate (8 + (8 + m)) (0::u8)"
    "replicate (bs - 20) 0 = replicate (8 + m) (0::u8)" "replicate (bs - 28) 0 = replicate m (0::u8)"
    by (simp_all add: bs)
  show "wr (replicate bs 0) 0 MAGIC = Some (MAGIC @ replicate (bs - 8) 0)" using assms(1) by (simp add: wr_def)
  show "pack_be32 0 (MAGIC @ replicate (bs - 8) 0) 8 = Some (MAGIC @ be32_bytes 0 @ replicate (bs - 12) 0)"
    using patch_after [of MAGIC 8 "be32_bytes 0" 4 "16 + m"] assms(1) bs by (simp add: pack_Some r(1))
  show "wr (MAGIC @ be32_bytes 0 @ replicate (bs - 12) 0) 12 kv = Some (MAGIC @ be32_bytes 0 @ kv @ replicate (bs - 20) 0)"
    using patch_after [of "MAGIC @ be32_bytes 0" 12 kv 8 "8 + m"] assms(1,2) bs by (simp add: wr_def r(2))
  show "wr (MAGIC @ be32_bytes 0 @ kv @ replicate (bs - 20) 0) 20 e =
      Some (MAGIC @ be32_bytes 0 @ kv @ e @ replicate (bs - 28) 0)"
    using patch_after [of "MAGIC @ be32_bytes 0 @ kv" 20 e 8 m] assms bs by (simp add: wr_def r(3))
qed

lemma mode_zero: "length b = 4 \<Longrightarrow> word_of_nat (be_val b) = (0 :: u32) \<longleftrightarrow> b = be32_bytes 0"
  using be_bytes_val(2) [of b] by auto

context block_device
begin

lemma encrypt_create_ok:
  assumes c: "crypto_ok c" and k: "strengthen_key c key keylen = Some skey"
    and kv: "make_key_verification c (BF_set_key c skey) = Some kv" "length kv = 8"
    and al: "alloc_ok alloc" "alloc (unat (block_size dev)) = Some b"
    and bs: "28 \<le> block_size dev" and s: "valid s" "0 < block_count dev"
  shows "write_ok valid cont rel s {0} ((cont s)[0 := enc_header c (BF_set_key c skey) kv
    (map (\<lambda>i. ucast (rnd i AND 0xFF)) [0..<8]) (unat (block_size dev))])
    (encrypt_create c alloc rnd dev s key keylen)"
proof -
  let ?bs = "unat (block_size dev)" and ?e = "BF_ecb_encrypt c (BF_set_key c skey) (map (\<lambda>i. ucast (rnd i AND 0xFF)) [0..<8])"
  have b28: "28 \<le> ?bs" using bs by (simp add: word_le_nat_alt)
  have el: "length ?e = 8" by (rule crypto_okD(3) [OF c]) simp
  note h = header_writes [OF b28 kv(2) el]
  have "length b = ?bs" by (rule alloc_okD [OF al])
  then have m: "memset b 0 0 ?bs = Some (replicate ?bs 0)" by (simp add: memset_Some)
  define hd where "hd = enc_header c (BF_set_key c skey) kv (map (\<lambda>i. ucast (rnd i AND 0xFF)) [0..<8]) ?bs"
  have hl: "length hd = ?bs" using kv(2) el b28 by (simp add: hd_def enc_header_def)
  have "encrypt_create c alloc rnd dev s key keylen = write_block dev s 0 hd"
    using bs k al(2) m kv(1) h
    by (simp add: encrypt_create_def hd_def enc_header_def Let_def not_less [symmetric] del: upt_rec_numeral)
  with write_law [OF s(1,2), of hd] hl show ?thesis by (simp add: hd_def)
qed

lemma encrypt_open_ok:
  assumes c: "crypto_ok c" and k: "strengthen_key c key keylen = Some skey"
    and al: "alloc_ok alloc" "alloc (unat (block_size dev)) = Some b"
    and bs: "28 \<le> block_size dev" and s: "valid s" "0 < block_count dev"
  obtains r s' where "encrypt_open c alloc dev s key keylen = Some (r, s')" "valid s'" "cont s' = cont s"
    "r = None \<or> r = Some (encrypt_dev c dev \<lparr>baseiv = BF_ecb_decrypt c (BF_set_key c skey) (take 8 (drop 20 (cont s ! 0))),
        bf_key = BF_set_key c skey\<rparr>, \<lparr>baseiv = BF_ecb_decrypt c (BF_set_key c skey) (take 8 (drop 20 (cont s ! 0))),
        bf_key = BF_set_key c skey\<rparr>, \<lparr>generic_block_buffer = cont s ! 0, obj_m = b\<rparr>)"
    "r \<noteq> None \<Longrightarrow> header_matches c (BF_set_key c skey) (cont s ! 0)"
    "rel \<Longrightarrow> header_matches c (BF_set_key c skey) (cont s ! 0) \<Longrightarrow> r \<noteq> None"
proof -
  let ?bs = "unat (block_size dev)" and ?bf = "BF_set_key c skey" and ?h = "cont s ! 0"
  have b28: "28 \<le> ?bs" using bs by (simp add: word_le_nat_alt)
  have bl: "length b = ?bs" by (rule alloc_okD [OF al])
  then have "?bs \<le> length b" by simp
  from read_law [OF s this]
  obtain ok t s' where r: "read_block dev s 0 b = Some (ok, t, s')" "valid s'" "cont s' = cont s" "rel \<Longrightarrow> ok"
    "ok \<Longrightarrow> t = patch 0 ?h b"
    by (rule read_okE) simp
  have hl: "length ?h = ?bs" using length_block [OF s] by simp
  then have t: "ok \<Longrightarrow> t = ?h" using r(5) bl by simp
  obtain kv where kv: "make_key_verification c ?bf = Some kv" "length kv = 8"
    by (rule make_key_verification_ok [OF c])
  let ?io = "\<lparr>baseiv = BF_ecb_decrypt c ?bf (take 8 (drop 20 ?h)), bf_key = ?bf\<rparr>"
  have "encrypt_open c alloc dev s key keylen = Some (if ok \<and> header_matches c ?bf ?h
      then Some (encrypt_dev c dev ?io, ?io, \<lparr>generic_block_buffer = ?h, obj_m = b\<rparr>) else None, s')"
    using bs al(2) k r(1) t hl b28 kv
    by (auto simp: encrypt_open_def header_matches_def Let_def rd_Some unpack_be32_Some mode_zero not_less [symmetric])
  from that [OF this r(2,3)] r(4) show thesis by (cases "ok \<and> header_matches c ?bf ?h") simp_all
qed

end

section \<open>Properties\<close>

text \<open>C13: The encryption layer keeps the whole contract: reads give back what was written, for
  every alignment, through the encryption; and the header block below is never written.\<close>
theorem encrypt_device_keeps_contract:
  assumes "block_device base valid cont rel" and "crypto_ok c"
  shows "block_device (encrypt_dev c base io) (enc_valid base io valid cont header) (enc_cont c base io cont) rel"
  by (rule block_device.encrypt_device [OF assms])

text \<open>C14: A device that was created opens again: over a reliable device, \<open>encrypt_create\<close>
  returns true, and then \<open>encrypt_open\<close> with the same key returns the encryption device with
  the base vector that was drawn, in a valid state.\<close>
theorem encrypt_open_after_create:
  assumes "block_device base valid cont True" and "crypto_ok c" and "alloc_ok alloc" and "alloc (unat (block_size base)) \<noteq> None"
    and "28 \<le> block_size base" and "0 < block_count base" and "valid s"
    and "0 \<le> keylen" and "keylen \<le> int (length key)"
  shows "\<exists>s' s'' bf obj. let io = \<lparr>baseiv = map (\<lambda>i. ucast (rnd i AND 0xFF)) [0..<8], bf_key = bf\<rparr> in
    encrypt_create c alloc rnd base s key keylen = Some (True, s') \<and>
    encrypt_open c alloc base s' key keylen = Some (Some (encrypt_dev c base io, io, obj), s'') \<and>
    enc_valid base io valid cont (cont s' ! 0) (obj, s'') \<and> cont s'' = cont s' \<and>
    (\<forall>w. 0 < w \<longrightarrow> cont s' ! w = cont s ! w)"
proof -
  let ?biv = "map (\<lambda>i. ucast (rnd i AND 0xFF) :: u8) [0..<8]"
  obtain b where b: "alloc (unat (block_size base)) = Some b" using assms(4) by blast
  obtain skey where k: "strengthen_key c key keylen = Some skey"
    by (rule strengthen_key_ok [OF assms(2,8,9)])
  let ?bf = "BF_set_key c skey"
  let ?io = "\<lparr>baseiv = ?biv, bf_key = ?bf\<rparr>"
  obtain kv where kv: "make_key_verification c ?bf = Some kv" "length kv = 8"
    by (rule make_key_verification_ok [OF assms(2)])
  define hd where "hd = enc_header c ?bf kv ?biv (unat (block_size base))"
  obtain s' where s': "encrypt_create c alloc rnd base s key keylen = Some (True, s')" "valid s'" "cont s' = (cont s)[0 := hd]"
    using block_device.encrypt_create_ok [OF assms(1,2) k kv assms(3) b assms(5,7,6), of rnd]
    by (auto simp: hd_def elim!: write_okE)
  have "length (cont s) = unat (block_count base)"
    by (rule block_rw.length_cont [OF block_device.axioms(1) [OF assms(1)] assms(7)])
  then have hd: "cont s' ! 0 = hd" using s'(3) assms(6) by (simp add: word_less_nat_alt)
  have el: "length (BF_ecb_encrypt c ?bf ?biv) = 8" by (rule crypto_okD(3) [OF assms(2)]) simp
  note parts = header_parts [OF kv(2) el enc_header_def, of "unat (block_size base)", folded hd_def]
  have m: "header_matches c ?bf hd" using parts kv by (simp add: header_matches_def)
  have iv: "BF_ecb_decrypt c ?bf (take 8 (drop 20 hd)) = ?biv"
    unfolding parts(4) by (rule crypto_okD(4) [OF assms(2)]) simp
  obtain r s'' where o: "encrypt_open c alloc base s' key keylen = Some (r, s'')" "valid s''" "cont s'' = cont s'"
    "r = Some (encrypt_dev c base ?io, ?io, \<lparr>generic_block_buffer = hd, obj_m = b\<rparr>)"
    by (rule block_device.encrypt_open_ok [OF assms(1,2) k assms(3) b assms(5) s'(2) assms(6)]) (use m iv hd in auto)
  have "length hd = unat (block_size base)"
    using assms(5) kv(2) el by (simp add: hd_def enc_header_def word_le_nat_alt)
  then have "enc_valid base ?io valid cont (cont s' ! 0) (\<lparr>generic_block_buffer = hd, obj_m = b\<rparr>, s'')"
    using o(2,3) assms(6) alloc_okD [OF assms(3) b] by (simp add: enc_valid_def word_less_nat_alt)
  with s' o show ?thesis unfolding Let_def
    by (intro exI [of _ s'] exI [of _ s''] exI [of _ ?bf]
        exI [of _ "\<lparr>generic_block_buffer = hd, obj_m = b\<rparr>"]) (simp add: hd)
qed

text \<open>C15: \<open>encrypt_open\<close> over a reliable device returns a device exactly when block 0 is a
  header of the key: the magic number, mode 0, and the verification number of the key; else it
  returns \<open>NULL\<close>. It changes no block.\<close>
theorem encrypt_open_checks_header:
  assumes "block_device base valid cont True" and "crypto_ok c" and "alloc_ok alloc" and "alloc (unat (block_size base)) \<noteq> None"
    and "28 \<le> block_size base" and "0 < block_count base" and "valid s"
    and "strengthen_key c key keylen = Some skey"
  shows "\<exists>r s'. encrypt_open c alloc base s key keylen = Some (r, s') \<and> cont s' = cont s \<and>
    (r \<noteq> None \<longleftrightarrow> header_matches c (BF_set_key c skey) (cont s ! 0))"
proof -
  obtain b where "alloc (unat (block_size base)) = Some b" using assms(4) by blast
  from block_device.encrypt_open_ok [OF assms(1,2,8,3) this assms(5,7,6)] show ?thesis by metis
qed

text \<open>Different blocks are encrypted with different initialisation vectors, for every base
  vector.\<close>
theorem encrypt_vectors_differ:
  assumes "length base = 8"
  shows "make_iv base v \<noteq> None \<and> (make_iv base v = make_iv base w \<longleftrightarrow> v = w)"
  using make_iv_ok [OF assms] by (simp add: iv_of_inj)

theorem encrypt_vectors_differ_witness:
  "make_iv [1, 2, 3, 4, 5, 6, 7, 8] 3 \<noteq> None \<and> make_iv [1, 2, 3, 4, 5, 6, 7, 8] 3 \<noteq> make_iv [1, 2, 3, 4, 5, 6, 7, 8] 4"
  using encrypt_vectors_differ [of "[1, 2, 3, 4, 5, 6, 7, 8]" 3 4] by simp

text \<open>A cipher for evaluation: exclusive or with a key stream made of the key and the vector.\<close>

definition toy_crypto :: "bytes crypto" where
  "toy_crypto = \<lparr>SHA1 = (\<lambda>d. replicate 20 (foldr (XOR) d 1)), MD5 = (\<lambda>d. replicate 16 (foldr (XOR) d 2)),
     BF_set_key = (\<lambda>k. k), BF_ecb_encrypt = (\<lambda>k b. rotate1 b), BF_ecb_decrypt = (\<lambda>k b. rotate 7 b),
     BF_ofb64 = (\<lambda>k iv d. map (\<lambda>i. d ! i XOR iv ! (i mod 8)) [0..<length d])\<rparr>"

definition toy_io :: "bytes enc_io" where
  "toy_io = \<lparr>baseiv = [1, 2, 3, 4, 5, 6, 7, 8], bf_key = []\<rparr>"

lemma toy_crypto_ok: "crypto_ok toy_crypto"
proof -
  have "rotate 7 (rotate1 b) = b" if "length b = 8" for b :: bytes
  proof -
    have "rotate (Suc 7) b = b" using that by (intro rotate_id) simp
    then show ?thesis by (simp only: rotate_Suc rotate1_rotate_swap)
  qed
  moreover have "map (\<lambda>i. map (\<lambda>i. d ! i XOR iv ! (i mod 8)) [0..<length d] ! i XOR iv ! (i mod 8)) [0..<length d] = d"
    for d iv :: bytes by (intro nth_equalityI) (simp_all add: xor.assoc)
  ultimately show ?thesis by (simp add: crypto_ok_def toy_crypto_def)
qed

theorem encrypt_device_keeps_contract_witness:
  "block_device (encrypt_dev toy_crypto (malloc_dev 32 3) toy_io)
    (enc_valid (malloc_dev 32 3) toy_io
      (mem_valid 32 3 :: unit mem_state \<Rightarrow> bool) (mem_cont 32 3) (replicate 32 0))
    (enc_cont toy_crypto (malloc_dev 32 3) toy_io (mem_cont 32 3)) True"
  by (rule encrypt_device_keeps_contract [OF malloc.block_device_axioms toy_crypto_ok])

theorem encrypt_open_after_create_witness:
  "\<exists>s' s'' io obj. encrypt_create toy_crypto calloc_alloc of_nat (malloc_dev 32 3) (ram_of 32 (replicate 3 (replicate 32 0))) [7, 7] 2 =
      Some (True, s') \<and>
    encrypt_open toy_crypto calloc_alloc (malloc_dev 32 3) s' [7, 7] 2 =
      Some (Some (encrypt_dev toy_crypto (malloc_dev 32 3) io, io, obj), s'')"
proof -
  have v: "mem_valid 32 3 (ram_of 32 (replicate 3 (replicate 32 0)))" by (rule ram_of_valid) simp_all
  have g: "calloc_alloc (unat (block_size (malloc_dev 32 3 :: unit mem_state bdev))) \<noteq> None"
    "28 \<le> block_size (malloc_dev 32 3 :: unit mem_state bdev)" "0 < block_count (malloc_dev 32 3 :: unit mem_state bdev)"
    by (simp_all add: calloc_alloc_def malloc_dev_def)
  from encrypt_open_after_create [OF malloc.block_device_axioms toy_crypto_ok calloc_alloc_ok g v, of 2 "[7, 7]" of_nat]
  show ?thesis unfolding Let_def by auto
qed

theorem encrypt_open_checks_header_witness:
  "\<exists>r s'. encrypt_open toy_crypto calloc_alloc (malloc_dev 32 3) (ram_of 32 (replicate 3 (replicate 32 0))) [7, 7] 2 = Some (r, s') \<and>
    r = None"
proof -
  let ?c = "replicate 3 (replicate 32 0)" and ?m = "malloc_dev 32 3 :: unit mem_state bdev"
  have v: "mem_valid 32 3 (ram_of 32 ?c)" "mem_cont 32 3 (ram_of 32 ?c) = ?c" by (rule ram_of_valid; simp)+
  have g: "calloc_alloc (unat (block_size ?m)) \<noteq> None" "28 \<le> block_size ?m" "0 < block_count ?m"
    by (simp_all add: calloc_alloc_def malloc_dev_def)
  obtain skey where k: "strengthen_key toy_crypto [7, 7] 2 = Some skey"
    by (rule strengthen_key_ok [OF toy_crypto_ok, of 2 "[7, 7]"]) simp_all
  have "\<not> header_matches toy_crypto (BF_set_key toy_crypto skey) (mem_cont 32 3 (ram_of 32 ?c) ! 0)"
  proof -
    have "hd (replicate 8 (0 :: u8)) \<noteq> hd MAGIC" by (simp add: MAGIC_def)
    then have "replicate 8 0 \<noteq> MAGIC" by metis
    then show ?thesis unfolding v(2) by (simp add: header_matches_def)
  qed
  with encrypt_open_checks_header [OF malloc.block_device_axioms toy_crypto_ok calloc_alloc_ok g v(1) k]
  show ?thesis by metis
qed

end
