(* ===== verification/GaloisField.thy ===== *)
theory GaloisField
  imports Prelude
begin

text \<open>
  \<open>src/src/rs/galois_field.c\<close> and \<open>galois_field.h\<close>: arithmetic on bytes as polynomials over
  the two-element field modulo \<open>x^8 + x^4 + x^3 + x^2 + 1\<close>, by tables of logarithms.

  Proved: the tables that \<open>gf_initialize\<close> computes make \<open>gf_mult\<close> the product of
  polynomials for all pairs of bytes, and \<open>gf_div\<close> its inverse; with these operations the
  bytes are a field (\<open>gf\<close> is an instance of \<open>field\<close>).
\<close>

unbundle bit_operations_syntax

section \<open>The operations\<close>

text \<open>The two global arrays; both are static and start out zero.\<close>

record gf_tables =
  gf_log :: bytes
  gf_ilog :: bytes

definition gf_static :: gf_tables where
  "gf_static = \<lparr>gf_log = replicate 256 0, gf_ilog = replicate 256 0\<rparr>"

primrec gf_init_loop :: "nat list \<Rightarrow> int \<Rightarrow> gf_tables \<Rightarrow> gf_tables run" where
  "gf_init_loop [] b t = Some t"
| "gf_init_loop (log # logs) b t = do {
     l \<leftarrow> byte_set (gf_log t) (nat b) (of_nat log);
     e \<leftarrow> byte_set (gf_ilog t) log (of_int b);
     let b = push_bit 1 b;
     let b = (if b AND 256 \<noteq> 0 then b XOR 0x11D else b);
     gf_init_loop logs b \<lparr>gf_log = l, gf_ilog = e\<rparr> }"

definition gf_initialize :: "gf_tables \<Rightarrow> gf_tables run" where
  "gf_initialize t = gf_init_loop [0..<255] 1 t"

definition gf_add :: "u8 \<Rightarrow> u8 \<Rightarrow> u8" where
  "gf_add l r = l XOR r"

definition gf_mult :: "gf_tables \<Rightarrow> u8 \<Rightarrow> u8 \<Rightarrow> u8 run" where
  "gf_mult t l r =
    (if l = 0 \<or> r = 0 then Some 0
     else do {
       a \<leftarrow> byte_at (gf_log t) (unat l);
       b \<leftarrow> byte_at (gf_log t) (unat r);
       let sum_log = int (unat a) + int (unat b);
       let sum_log = (if 255 \<le> sum_log then sum_log - 255 else sum_log);
       byte_at (gf_ilog t) (nat sum_log) })"

definition gf_div :: "gf_tables \<Rightarrow> u8 \<Rightarrow> u8 \<Rightarrow> u8 run" where
  "gf_div t l r =
    (if l = 0 then Some 0
     else if r = 0 then Some 0
     else do {
       a \<leftarrow> byte_at (gf_log t) (unat l);
       b \<leftarrow> byte_at (gf_log t) (unat r);
       let diff_log = int (unat a) - int (unat b);
       let diff_log = (if diff_log < 0 then diff_log + 255 else diff_log);
       byte_at (gf_ilog t) (nat diff_log) })"

section \<open>Polynomials\<close>

text \<open>Multiplication by \<open>x\<close>, and the product as the sum of the shifts of one factor that the
  other one selects.\<close>

definition xtime :: "u8 \<Rightarrow> u8" where
  "xtime a = push_bit 1 a XOR (if bit a 7 then 0x1D else 0)"

definition pmul :: "u8 \<Rightarrow> u8 \<Rightarrow> u8" where
  "pmul a b = foldr (XOR) (map (\<lambda>k. if bit a k then (xtime ^^ k) b else 0) [0..<8]) 0"

lemma bit_xtime: "bit (xtime a) n \<longleftrightarrow> n < 8 \<and> ((0 < n \<and> bit a (n - 1)) \<noteq> (n \<in> {0, 2, 3, 4} \<and> bit a 7))"
proof -
  have c: "bit (0x1D :: u8) n \<longleftrightarrow> n \<in> {0, 2, 3, 4}"
  proof (cases "n < 8")
    case True
    then have "n = 0 \<or> n = 1 \<or> n = 2 \<or> n = 3 \<or> n = 4 \<or> n = 5 \<or> n = 6 \<or> n = 7" by linarith
    then show ?thesis by (elim disjE) simp_all
  next
    case False
    then have "\<not> bit (0x1D :: u8) n" using bit_imp_le_length [of "0x1D :: u8" n] by auto
    with False show ?thesis by auto
  qed
  have p: "bit (push_bit 1 a) n \<longleftrightarrow> n < 8 \<and> 0 < n \<and> bit a (n - 1)"
    by (simp only: bit_push_bit_iff possible_bit_word) auto
  show ?thesis
  proof (cases "bit a 7")
    case True
    then show ?thesis unfolding xtime_def bit_xor_iff p if_P [OF True] c by auto
  next
    case False
    then show ?thesis unfolding xtime_def bit_xor_iff p if_not_P [OF False] by simp
  qed
qed

lemma xtime_xor: "xtime (a XOR b) = xtime a XOR xtime b"
  by (rule bit_word_eqI) (auto simp: bit_xtime bit_xor_iff)

lemma xtime_0 [simp]: "xtime 0 = 0"
  by (simp add: xtime_def)

lemma xtime_pow_xor: "(xtime ^^ k) (a XOR b) = (xtime ^^ k) a XOR (xtime ^^ k) b"
  by (induction k) (simp_all add: xtime_xor)

lemma xtime_pow_0 [simp]: "(xtime ^^ k) 0 = 0"
  by (induction k) simp_all

text \<open>\<open>x^8\<close> is \<open>x^4 + x^3 + x^2 + 1\<close>.\<close>

lemma byte_cases_8: "n < 8 \<Longrightarrow> n = 0 \<or> n = 1 \<or> n = 2 \<or> n = 3 \<or> n = 4 \<or> n = 5 \<or> n = 6 \<or> n = (7::nat)"
  by linarith

lemma xtime_pow_8: "(xtime ^^ 8) a = a XOR (xtime ^^ 2) a XOR (xtime ^^ 3) a XOR (xtime ^^ 4) a"
proof (rule bit_word_eqI)
  fix n assume "n < LENGTH(8)"
  then have "n < 8" by simp
  from byte_cases_8 [OF this]
  show "bit ((xtime ^^ 8) a) n = bit (a XOR (xtime ^^ 2) a XOR (xtime ^^ 3) a XOR (xtime ^^ 4) a) n"
    by (elim disjE) (simp_all add: numeral_eq_Suc bit_xor_iff bit_xtime, argo+)
qed

text \<open>Powers of \<open>x\<close>.\<close>

definition xpow :: "nat \<Rightarrow> u8" where
  "xpow k = (xtime ^^ k) 1"

lemma xpow_add: "(xtime ^^ i) (xpow j) = xpow (i + j)"
  by (simp add: xpow_def funpow_add)

lemma xpow_Suc: "xpow (Suc k) = xtime (xpow k)"
  by (simp add: xpow_def)

text \<open>The step of \<open>gf_initialize\<close> on integers.\<close>

definition gf_step :: "int \<Rightarrow> int" where
  "gf_step b = (let b = push_bit 1 b in if b AND 256 \<noteq> 0 then b XOR 0x11D else b)"

lemma bit_11D: "bit (0x11D :: int) n \<longleftrightarrow> n \<in> {0, 2, 3, 4, 8}"
proof (cases "n < 9")
  case True
  then have "n = 0 \<or> n = 1 \<or> n = 2 \<or> n = 3 \<or> n = 4 \<or> n = 5 \<or> n = 6 \<or> n = 7 \<or> n = 8" by linarith
  then show ?thesis by (elim disjE) simp_all
next
  case False
  have "(0x11D :: int) = take_bit 9 0x11D" by simp
  then have "\<not> bit (0x11D :: int) n" using False by (metis bit_take_bit_iff)
  with False show ?thesis by auto
qed

lemma gf_step_uint: "gf_step (uint a) = uint (xtime a)"
proof -
  have b: "bit (uint a) n \<longleftrightarrow> bit a n" for n
    using bit_imp_le_length [of a n] by (auto simp: bit_uint_iff)
  have c: "push_bit 1 (uint a) AND 256 \<noteq> 0 \<longleftrightarrow> bit a 7"
  proof -
    have "push_bit 1 (uint a) AND 256 \<noteq> 0 \<longleftrightarrow> bit (push_bit 1 (uint a)) 8"
      using and_exp_eq_0_iff_not_bit [of "push_bit 1 (uint a)" 8] by (simp del: push_bit_of_Suc_0)
    then show ?thesis unfolding bit_push_bit_iff b by simp
  qed
  have "bit (gf_step (uint a)) n = bit (uint (xtime a)) n" for n
  proof (cases "bit a 7")
    case True
    then show ?thesis
      unfolding gf_step_def Let_def c if_P [OF True] bit_xor_iff bit_11D bit_push_bit_iff b bit_uint_iff bit_xtime
      using bit_imp_le_length [of a "n - 1"] by auto
  next
    case False
    moreover have "n - 1 \<noteq> 7" if "bit a (n - 1)" using False that by auto
    ultimately show ?thesis
      unfolding gf_step_def Let_def c if_not_P [OF False] bit_push_bit_iff b bit_uint_iff bit_xtime
      using bit_imp_le_length [of a "n - 1"] by auto
  qed
  then show ?thesis by (rule bit_eqI)
qed

text \<open>The order of \<open>x\<close> is 255: its powers at 85, 51 and 15 are not 1.\<close>

lemma xpow_0 [simp]: "xpow 0 = 1"
  by (simp add: xpow_def)

lemma uint_xpow: "uint (xpow k) = (gf_step ^^ k) 1"
  by (induction k) (simp_all add: xpow_Suc flip: gf_step_uint)

lemma gf_step_numeral:
  "(gf_step ^^ numeral k) 1 = gf_step ((gf_step ^^ pred_numeral k) 1)"
  by (simp add: numeral_eq_Suc)

lemma gf_step_values:
  "(gf_step ^^ 15) 1 = 0x26" "(gf_step ^^ 51) 1 = 0x0A" "(gf_step ^^ 85) 1 = 0xD6" "(gf_step ^^ 255) 1 = 1"
  by (simp_all add: gf_step_numeral gf_step_def)

lemma xpow_values: "xpow 15 \<noteq> 1" "xpow 51 \<noteq> 1" "xpow 85 \<noteq> 1" "xpow 255 = 1"
  using gf_step_values by (auto simp: word_uint_eq_iff uint_xpow)

lemma xpow_mult: "xpow d = 1 \<Longrightarrow> xpow (d * k) = 1"
  by (induction k) (simp_all add: flip: xpow_add xpow_def)

lemma xpow_gcd: "xpow d = 1 \<Longrightarrow> xpow e = 1 \<Longrightarrow> d \<noteq> 0 \<Longrightarrow> xpow (gcd d e) = 1"
proof -
  assume d: "xpow d = 1" and e: "xpow e = 1" and "d \<noteq> 0"
  then obtain x y where "d * x = e * y + gcd d e" using bezout_nat by blast
  then have "xpow (d * x) = (xtime ^^ gcd d e) (xpow (e * y))" by (simp add: xpow_add add.commute)
  with d e show ?thesis by (simp add: xpow_mult xpow_def [symmetric])
qed

lemma dvd_255: "g dvd (255 :: nat) \<Longrightarrow> g \<noteq> 255 \<Longrightarrow> g dvd 85 \<or> g dvd 51 \<or> g dvd 15"
proof -
  assume g: "g dvd 255" and n: "g \<noteq> 255"
  obtain k where k: "255 = g * k" using g by (rule dvdE)
  have small: "d = 1 \<or> d = 3 \<or> d = 5 \<or> d = 15" if "d dvd 255" "d < 16" for d :: nat
  proof -
    have "list_all (\<lambda>d. 255 mod d = 0 \<longrightarrow> d = 3 \<or> d = 5 \<or> d = (15 :: nat)) [2..<16]"
      by (simp add: upt_rec_numeral)
    moreover have "255 mod d = 0" using that(1) by (rule dvd_imp_mod_0)
    moreover have "d \<noteq> 0" using that(1) by (intro notI) simp
    then have "d = 1 \<or> d \<in> {2..<16}" using that(2) unfolding atLeastLessThan_iff by linarith
    ultimately show ?thesis unfolding list_all_iff set_upt by metis
  qed
  show ?thesis
  proof (cases "k < 16")
    case True
    have "k dvd 255" unfolding k by (rule dvd_triv_right)
    with small True have "k = 1 \<or> k = 3 \<or> k = 5 \<or> k = 15" by blast
    then have "g = 85 \<or> g = 51 \<or> g = 17" using k n by (elim disjE) simp_all
    then show ?thesis by (elim disjE) simp_all
  next
    case False
    have "g < 16"
    proof (rule ccontr)
      assume "\<not> g < 16"
      then have "16 * 16 \<le> g * k" using False by (intro mult_le_mono) simp_all
      with k show False by simp
    qed
    with small g have "g = 1 \<or> g = 3 \<or> g = 5 \<or> g = 15" by blast
    then show ?thesis by (elim disjE) simp_all
  qed
qed

lemma xpow_order: "0 < d \<Longrightarrow> d < 255 \<Longrightarrow> xpow d \<noteq> 1"
proof
  assume d: "0 < d" "d < 255" and "xpow d = 1"
  then have g: "xpow (gcd d 255) = 1" using xpow_gcd [of d 255] xpow_values by simp
  have "gcd d 255 \<le> d" using d by (intro gcd_le1_nat) simp
  then have "gcd d 255 \<noteq> 255" using d by linarith
  with dvd_255 [of "gcd d 255"] have "gcd d 255 dvd 85 \<or> gcd d 255 dvd 51 \<or> gcd d 255 dvd 15" by simp
  then have "xpow 85 = 1 \<or> xpow 51 = 1 \<or> xpow 15 = 1"
    by (elim disjE dvdE) (simp_all only: xpow_mult [OF g] simp_thms)
  with xpow_values show False by blast
qed

lemma xtime_inj: "xtime a = xtime b \<Longrightarrow> a = b"
proof (rule bit_word_eqI)
  fix n assume e: "xtime a = xtime b" and "n < LENGTH(8)"
  have b: "bit (xtime a) k = bit (xtime b) k" for k using e by simp
  have "bit a 7 = bit b 7" using b [of 0] by (simp add: bit_xtime)
  moreover have "n < 7 \<Longrightarrow> bit a n = bit b n" using b [of "Suc n"] calculation
    by (cases "bit b 7") (auto simp: bit_xtime)
  moreover have "n < 7 \<or> n = 7" using \<open>n < LENGTH(8)\<close> by auto
  ultimately show "bit a n = bit b n" by blast
qed

lemma xtime_pow_inj: "(xtime ^^ k) a = (xtime ^^ k) b \<Longrightarrow> a = b"
  by (induction k) (auto dest: xtime_inj)

lemma xpow_inj: "i < 255 \<Longrightarrow> j < 255 \<Longrightarrow> xpow i = xpow j \<Longrightarrow> i = j"
proof (induction i j rule: linorder_wlog)
  case (le i j)
  then have "(xtime ^^ i) 1 = (xtime ^^ i) (xpow (j - i))" by (simp add: xpow_add) (simp add: xpow_def)
  then have "xpow (j - i) = 1" using xtime_pow_inj by metis
  moreover have "j - i < 255" using le by linarith
  ultimately have "\<not> 0 < j - i" using xpow_order by blast
  with le show ?case by simp
next
  case (sym i j) then show ?case by metis
qed

lemma xpow_nonzero: "xpow k \<noteq> 0"
  unfolding xpow_def using xtime_pow_inj [of k 1 0] by auto

lemma xpow_mod: "xpow (k mod 255) = xpow k"
proof -
  have "xpow (255 * (k div 255) + k mod 255) = (xtime ^^ (k mod 255)) (xpow (255 * (k div 255)))"
    by (simp only: xpow_add add.commute)
  then show ?thesis using xpow_mult [OF xpow_values(4)] by (simp add: xpow_def)
qed

text \<open>Every byte but zero is a power of \<open>x\<close>.\<close>

lemma xpow_surj:
  assumes "a \<noteq> 0"
  obtains k where "k < 255" "a = xpow k"
proof -
  have "inj_on xpow {..<255}" using xpow_inj by (auto intro!: inj_onI)
  then have "card (xpow ` {..<255}) = 255" by (simp add: card_image)
  moreover have "card (UNIV - {0 :: u8}) = 255"
    using card_Diff_singleton [of 0 "UNIV :: u8 set"] card_word [where 'a = 8] by simp
  moreover have "xpow ` {..<255} \<subseteq> UNIV - {0}" by (auto simp: xpow_nonzero)
  ultimately have "xpow ` {..<255} = UNIV - {0}" by (intro card_subset_eq finite) (simp_all only:)
  then have "a \<in> xpow ` {..<255}" using assms by blast
  then show thesis using that by blast
qed

section \<open>The tables\<close>

definition tables_upto :: "nat \<Rightarrow> gf_tables \<Rightarrow> bool" where
  "tables_upto n t \<longleftrightarrow> length (gf_log t) = 256 \<and> length (gf_ilog t) = 256 \<and>
     (\<forall>k < n. gf_ilog t ! k = xpow k \<and> gf_log t ! unat (xpow k) = of_nat k)"

abbreviation tables_ok :: "gf_tables \<Rightarrow> bool" where
  "tables_ok t \<equiv> tables_upto 255 t"

lemma unat_u8_bound: "unat (a :: u8) < 256"
  using unsigned_less [of a] by simp

lemma gf_init_loop_ok:
  assumes "tables_upto k t" and "k + n \<le> 255"
  shows "\<exists>t'. gf_init_loop [k..<k + n] (uint (xpow k)) t = Some t' \<and> tables_upto (k + n) t'"
  using assms
proof (induction n arbitrary: k t)
  case (Suc n)
  let ?b = "unat (xpow k)"
  have l: "length (gf_log t) = 256" "length (gf_ilog t) = 256" using Suc.prems(1) by (simp_all add: tables_upto_def)
  let ?t = "\<lparr>gf_log = (gf_log t)[?b := of_nat k], gf_ilog = (gf_ilog t)[k := xpow k]\<rparr>"
  have "?b \<noteq> unat (xpow l)" if "l < k" for l
    using xpow_inj [of l k] that Suc.prems(2) by (auto simp: word_unat_eq_iff [symmetric])
  then have t: "tables_upto (Suc k) ?t"
    using Suc.prems unat_u8_bound [of "xpow k"] by (auto simp: tables_upto_def less_Suc_eq)
  have "[k..<k + Suc n] = k # [Suc k..<Suc k + n]" by (simp add: upt_rec)
  moreover have "byte_set (gf_log t) (nat (uint (xpow k))) (of_nat k) = Some ((gf_log t)[?b := of_nat k])"
    using l unat_u8_bound by simp
  moreover have "byte_set (gf_ilog t) k (of_int (uint (xpow k))) = Some ((gf_ilog t)[k := xpow k])"
    using l Suc.prems(2) by simp
  moreover have "(let b = push_bit 1 (uint (xpow k)) in if b AND 256 \<noteq> 0 then b XOR 0x11D else b) = uint (xpow (Suc k))"
    using gf_step_uint [of "xpow k"] by (simp only: gf_step_def xpow_Suc)
  ultimately have "gf_init_loop [k..<k + Suc n] (uint (xpow k)) t = gf_init_loop [Suc k..<Suc k + n] (uint (xpow (Suc k))) ?t"
    by (simp only: gf_init_loop.simps Option.bind.bind_lunit Let_def)
  with Suc.IH [OF t] Suc.prems(2) show ?case by simp
qed simp

lemma gf_initialize_ok:
  assumes "length (gf_log t) = 256" and "length (gf_ilog t) = 256"
  obtains t' where "gf_initialize t = Some t'" "tables_ok t'"
proof -
  have "tables_upto 0 t" using assms by (simp add: tables_upto_def)
  from gf_init_loop_ok [OF this, of 255] that show thesis by (auto simp: gf_initialize_def)
qed

section \<open>The product\<close>

lemma pmul_add: "pmul a (b XOR c) = pmul a b XOR pmul a c"
proof -
  have s: "foldr (XOR) (map (\<lambda>k. if bit a k then f k XOR g k else 0) ks) 0 =
      foldr (XOR) (map (\<lambda>k. if bit a k then f k else 0) ks) 0 XOR
      foldr (XOR) (map (\<lambda>k. if bit a k then g k else 0) ks) (0 :: u8)" for f g ks
    by (induction ks) (simp_all add: xor.assoc xor.left_commute)
  show ?thesis unfolding pmul_def xtime_pow_xor by (rule s)
qed

lemma pmul_unfold: "pmul a b = (if bit a 0 then b else 0) XOR (if bit a 1 then xtime b else 0) XOR
  (if bit a 2 then (xtime ^^ 2) b else 0) XOR (if bit a 3 then (xtime ^^ 3) b else 0) XOR
  (if bit a 4 then (xtime ^^ 4) b else 0) XOR (if bit a 5 then (xtime ^^ 5) b else 0) XOR
  (if bit a 6 then (xtime ^^ 6) b else 0) XOR (if bit a 7 then (xtime ^^ 7) b else 0)"
proof -
  have "[0..<8] = [0, 1, 2, 3, 4, 5, 6, 7]" by code_simp
  then show ?thesis by (simp add: pmul_def xor.assoc)
qed

lemma pmul_1: "pmul 1 b = b"
  by (simp add: pmul_unfold)

lemma pmul_0: "pmul 0 b = 0" "pmul a 0 = 0"
  by (simp_all add: pmul_unfold)

lemma if_xor: "(if c then a XOR b else 0) = (if c then a else 0) XOR (if c then b else (0 :: u8))"
  by simp

lemma xtime_if: "xtime (if c then a else 0) = (if c then xtime a else 0)"
  by simp

lemma if_neq: "(if p \<noteq> q then a else 0) = (if p then a else 0) XOR (if q then a else (0 :: u8))"
  by simp

lemma pmul_xtime: "pmul (xtime a) b = xtime (pmul a b)"
proof -
  have s: "xtime ((xtime ^^ k) b) = (xtime ^^ Suc k) b" for k by simp
  have bits: "bit (xtime a) 0 = bit a 7" "bit (xtime a) 1 = bit a 0" "bit (xtime a) 2 = (bit a 1 \<noteq> bit a 7)"
    "bit (xtime a) 3 = (bit a 2 \<noteq> bit a 7)" "bit (xtime a) 4 = (bit a 3 \<noteq> bit a 7)"
    "bit (xtime a) 5 = bit a 4" "bit (xtime a) 6 = bit a 5" "bit (xtime a) 7 = bit a 6"
    by (simp_all add: bit_xtime)
  have "xtime (pmul a b) = (if bit a 0 then xtime b else 0) XOR (if bit a 1 then (xtime ^^ 2) b else 0) XOR
    (if bit a 2 then (xtime ^^ 3) b else 0) XOR (if bit a 3 then (xtime ^^ 4) b else 0) XOR
    (if bit a 4 then (xtime ^^ 5) b else 0) XOR (if bit a 5 then (xtime ^^ 6) b else 0) XOR
    (if bit a 6 then (xtime ^^ 7) b else 0) XOR (if bit a 7 then (xtime ^^ 8) b else 0)"
    by (simp only: pmul_unfold xtime_xor xtime_if s) (simp add: numeral_eq_Suc)
  then show ?thesis
    by (simp only: pmul_unfold [of "xtime a"] bits if_neq xtime_pow_8 if_xor)
      (simp add: xor.assoc xor.left_commute xor.commute)
qed

lemma pmul_xpow: "pmul (xpow i) b = (xtime ^^ i) b"
  by (induction i) (simp_all add: pmul_1 xpow_Suc pmul_xtime)

lemma pmul_xpow_xpow: "pmul (xpow i) (xpow j) = xpow (i + j)"
  by (simp add: pmul_xpow xpow_add)

lemma pmul_commute: "pmul a b = pmul b a"
  by (metis add.commute pmul_0 pmul_xpow_xpow xpow_surj)

lemma pmul_assoc: "pmul (pmul a b) c = pmul a (pmul b c)"
  by (metis add.assoc pmul_0 pmul_xpow_xpow xpow_surj)

lemma pmul_eq_0: "pmul a b = 0 \<longleftrightarrow> a = 0 \<or> b = 0"
  by (metis pmul_0 pmul_xpow_xpow xpow_surj xpow_nonzero)

text \<open>The multiplicative inverse, as the power 254.\<close>

definition pinv :: "u8 \<Rightarrow> u8" where
  "pinv a = (pmul a ^^ 254) 1"

lemma pmul_pow: "(pmul (xpow i) ^^ n) 1 = xpow (i * n)"
  by (induction n) (simp_all add: pmul_xpow_xpow)

lemma pinv_xpow: "pinv (xpow i) = xpow (i * 254)"
  by (simp add: pinv_def pmul_pow)

lemma pmul_pinv: "a \<noteq> 0 \<Longrightarrow> pmul a (pinv a) = 1"
proof -
  assume "a \<noteq> 0"
  then obtain i where "a = xpow i" by (rule xpow_surj)
  moreover have "i + i * 254 = 255 * i" by simp
  ultimately show ?thesis using xpow_mult [OF xpow_values(4), of i] by (simp add: pinv_xpow pmul_xpow_xpow)
qed

lemma gf_mult_ok:
  assumes t: "tables_ok t"
  shows "gf_mult t l r = Some (pmul l r)"
proof (cases "l = 0 \<or> r = 0")
  case True
  then show ?thesis by (auto simp: gf_mult_def pmul_0)
next
  case False
  obtain i where i: "i < 255" "l = xpow i" using False xpow_surj by metis
  obtain j where j: "j < 255" "r = xpow j" using False xpow_surj by metis
  have len: "length (gf_log t) = 256" "length (gf_ilog t) = 256" and
    tab: "\<And>k. k < 255 \<Longrightarrow> gf_ilog t ! k = xpow k \<and> gf_log t ! unat (xpow k) = of_nat k"
    using t by (simp_all add: tables_upto_def)
  have "byte_at (gf_log t) (unat l) = Some (of_nat i)" "byte_at (gf_log t) (unat r) = Some (of_nat j)"
    using len tab i j unat_u8_bound by simp_all
  moreover have "unat (of_nat i :: u8) = i" "unat (of_nat j :: u8) = j"
    using i(1) j(1) by (simp_all add: unsigned_of_nat take_bit_nat_eq_self_iff)
  moreover have "(i + j) mod 255 = (if 255 \<le> i + j then i + j - 255 else i + j)"
    using i(1) j(1) by (simp add: mod_if)
  moreover have "xpow ((i + j) mod 255) = pmul l r" by (simp add: xpow_mod pmul_xpow_xpow i(2) j(2))
  moreover have "(i + j) mod 255 < 255" by simp
  moreover have "nat (if (255::int) \<le> int i + int j then int i + int j - 255 else int i + int j) = (i + j) mod 255"
    using calculation(5) by (simp add: nat_diff_distrib nat_add_distrib)
  moreover have "byte_at (gf_ilog t) ((i + j) mod 255) = Some (pmul l r)"
    using calculation tab [of "(i + j) mod 255"] len(2) by (simp only:) (simp add: byte_at_def)
  ultimately show ?thesis using False unfolding gf_mult_def Let_def
    by (simp only: Option.bind.bind_lunit if_False)
qed

text \<open>\<open>gf_div\<close> is the product with the inverse; \<open>gf_div(1, r)\<close> is how the callers invert.\<close>

lemma gf_div_ok:
  assumes t: "tables_ok t"
  shows "gf_div t l r = Some (if r = 0 then 0 else pmul l (pinv r))"
proof (cases "l = 0 \<or> r = 0")
  case True
  then show ?thesis by (auto simp: gf_div_def pmul_0)
next
  case False
  obtain i where i: "i < 255" "l = xpow i" using False xpow_surj by metis
  obtain j where j: "j < 255" "r = xpow j" using False xpow_surj by metis
  have len: "length (gf_log t) = 256" "length (gf_ilog t) = 256" and
    tab: "\<And>k. k < 255 \<Longrightarrow> gf_ilog t ! k = xpow k \<and> gf_log t ! unat (xpow k) = of_nat k"
    using t by (simp_all add: tables_upto_def)
  define k where "k = (if i < j then i + 255 - j else i - j)"
  have k: "k < 255" using i(1) j(1) by (auto simp: k_def)
  have "xpow (k + j) = xpow i"
  proof (cases "i < j")
    case True
    then have "k + j = i + 255" using j(1) by (simp add: k_def)
    then show ?thesis using xpow_mod [of "i + 255"] xpow_mod [of i] by simp
  qed (simp add: k_def)
  then have "pmul (xpow k) r = l" by (simp add: j(2) pmul_xpow_xpow i(2))
  then have res: "pmul l (pinv r) = xpow k"
    using pmul_pinv [of r] False by (metis pmul_assoc pmul_commute pmul_1)
  have "byte_at (gf_log t) (unat l) = Some (of_nat i)" "byte_at (gf_log t) (unat r) = Some (of_nat j)"
    using len tab i j unat_u8_bound by simp_all
  moreover have "unat (of_nat i :: u8) = i" "unat (of_nat j :: u8) = j"
    using i(1) j(1) by (simp_all add: unsigned_of_nat take_bit_nat_eq_self_iff)
  moreover have "nat (if int i - int j < 0 then int i - int j + 255 else int i - int j) = k"
    using j(1) by (auto simp: k_def nat_diff_distrib)
  moreover have "byte_at (gf_ilog t) k = Some (xpow k)" using tab [OF k] len(2) k by simp
  ultimately show ?thesis using False res unfolding gf_div_def Let_def
    by (simp only: Option.bind.bind_lunit if_False de_Morgan_disj simp_thms)
qed

section \<open>The field\<close>

typedef gf = "UNIV :: u8 set" morphisms byte_of gf_of
  by simp

setup_lifting type_definition_gf

instantiation gf :: field
begin

lift_definition zero_gf :: gf is 0 .
lift_definition one_gf :: gf is 1 .
lift_definition plus_gf :: "gf \<Rightarrow> gf \<Rightarrow> gf" is "(XOR)" .
lift_definition minus_gf :: "gf \<Rightarrow> gf \<Rightarrow> gf" is "(XOR)" .
lift_definition uminus_gf :: "gf \<Rightarrow> gf" is "\<lambda>a. a" .
lift_definition times_gf :: "gf \<Rightarrow> gf \<Rightarrow> gf" is pmul .
lift_definition inverse_gf :: "gf \<Rightarrow> gf" is pinv .
lift_definition divide_gf :: "gf \<Rightarrow> gf \<Rightarrow> gf" is "\<lambda>a b. pmul a (pinv b)" .

instance
proof
  fix a b c :: gf
  show "a + b + c = a + (b + c)" by transfer (rule xor.assoc)
  show "a + b = b + a" by transfer (rule xor.commute)
  show "0 + a = a" by transfer simp
  show "- a + a = 0" by transfer simp
  show "a - b = a + - b" by transfer simp
  show "a * b * c = a * (b * c)" by transfer (rule pmul_assoc)
  show "a * b = b * a" by transfer (rule pmul_commute)
  show "1 * a = a" by transfer (rule pmul_1)
  show "(a + b) * c = a * c + b * c" by transfer (metis pmul_add pmul_commute)
  show "(0 :: gf) \<noteq> 1" by transfer simp
  show "a \<noteq> 0 \<Longrightarrow> inverse a * a = 1" by transfer (metis pmul_pinv pmul_commute)
  show "a div b = a * inverse b" by transfer (rule refl)
  show "inverse (0 :: gf) = 0" by transfer (simp add: pinv_def numeral_eq_Suc pmul_0)
qed

end

instance gf :: finite
proof
  have "(UNIV :: gf set) = gf_of ` UNIV" by (metis byte_of_inverse surj_def)
  then show "finite (UNIV :: gf set)" by (metis finite finite_imageI)
qed

lemma gf_of_inject_u8 [simp]: "gf_of a = gf_of b \<longleftrightarrow> a = b"
  by (simp add: gf_of_inject)

lemma gf_of_eq [simp]: "byte_of (gf_of a) = a"
  by (simp add: gf_of_inverse)

lemma gf_of_simps:
  "gf_of 0 = 0" "gf_of 1 = 1" "gf_of (a XOR b) = gf_of a + gf_of b" "gf_of (pmul a b) = gf_of a * gf_of b"
  "gf_of (pinv a) = inverse (gf_of a)"
  by (simp_all add: zero_gf.abs_eq one_gf.abs_eq plus_gf.abs_eq times_gf.abs_eq inverse_gf.abs_eq)

lemma gf_of_0_iff [simp]: "gf_of a = 0 \<longleftrightarrow> a = 0" "gf_of a = 1 \<longleftrightarrow> a = 1"
  using gf_of_inject_u8 gf_of_simps(1,2) by metis+

lemma gf_double [simp]: "a + a = (0 :: gf)" "- a = (a :: gf)"
  by (transfer, simp)+

text \<open>The operations of the code on \<open>gf\<close>.\<close>

lemma gf_add_gf: "gf_add l r = byte_of (gf_of l + gf_of r)"
  by (simp add: gf_add_def flip: gf_of_simps)

lemma gf_mult_gf: "tables_ok t \<Longrightarrow> gf_mult t l r = Some (byte_of (gf_of l * gf_of r))"
  by (simp add: gf_mult_ok flip: gf_of_simps)

lemma gf_inverse_gf: "tables_ok t \<Longrightarrow> r \<noteq> 0 \<Longrightarrow> gf_div t 1 r = Some (byte_of (inverse (gf_of r)))"
  by (simp add: gf_div_ok pmul_1 flip: gf_of_simps)

section \<open>Properties\<close>

text \<open>C37: After \<open>gf_initialize\<close> the table-driven \<open>gf_mult\<close> is, for all pairs of bytes, the product
  of polynomials modulo \<open>x^8 + x^4 + x^3 + x^2 + 1\<close>; no access leaves the tables.\<close>
theorem gf_mult_is_polynomial_product:
  "\<exists>t. gf_initialize gf_static = Some t \<and> (\<forall>l r. gf_mult t l r = Some (pmul l r))"
proof -
  have "length (gf_log gf_static) = 256" "length (gf_ilog gf_static) = 256" by (simp_all add: gf_static_def)
  from gf_initialize_ok [OF this] show ?thesis using gf_mult_ok by metis
qed

text \<open>After \<open>gf_initialize\<close>, \<open>gf_div\<close> undoes \<open>gf_mult\<close> by every divisor that is not zero, the
  product is associative and commutative and distributes over \<open>gf_add\<close>.\<close>
theorem gf_arithmetic_is_a_field:
  "\<exists>t mul. gf_initialize gf_static = Some t \<and> (\<forall>l r. gf_mult t l r = Some (mul l r)) \<and>
    (\<forall>l r. gf_div t (mul l r) r = Some (if r = 0 then 0 else l)) \<and>
    (\<forall>a b c. mul (mul a b) c = mul a (mul b c) \<and> mul a b = mul b a \<and> mul 1 a = a \<and>
      mul a (gf_add b c) = gf_add (mul a b) (mul a c))"
proof -
  have "length (gf_log gf_static) = 256" "length (gf_ilog gf_static) = 256" by (simp_all add: gf_static_def)
  then obtain t where t: "gf_initialize gf_static = Some t" "tables_ok t" by (rule gf_initialize_ok)
  have "gf_div t (pmul l r) r = Some (if r = 0 then 0 else l)" for l r
  proof (cases "r = 0")
    case False
    have "pmul (pmul l r) (pinv r) = l"
      using pmul_pinv [OF False] by (metis pmul_assoc pmul_commute pmul_1)
    with False show ?thesis by (simp add: gf_div_ok [OF t(2)])
  qed (simp add: gf_div_ok [OF t(2)])
  moreover have "pmul (pmul a b) c = pmul a (pmul b c) \<and> pmul a b = pmul b a \<and> pmul 1 a = a \<and>
      pmul a (gf_add b c) = gf_add (pmul a b) (pmul a c)" for a b c
    unfolding gf_add_def by (intro conjI pmul_assoc pmul_commute pmul_1 pmul_add)
  ultimately show ?thesis
    by (intro exI [of _ t] exI [of _ pmul] conjI allI t(1) gf_mult_ok [OF t(2)]) blast+
qed

end
