(* ===== verification/Gauss.thy ===== *)
theory Gauss
  imports Complex_Main
begin

text \<open>
  The linear algebra behind \<open>reed_solomon.c\<close>: matrices over a field as functions of two
  indices, the row and column operations of the two elimination loops and what they preserve,
  why a pivot exists, and why every choice of rows of the code's starting matrix is regular.
  No program is modelled here.
\<close>

section \<open>Matrices\<close>

definition mv :: "nat \<Rightarrow> (nat \<Rightarrow> nat \<Rightarrow> 'a::field) \<Rightarrow> (nat \<Rightarrow> 'a) \<Rightarrow> nat \<Rightarrow> 'a" where
  "mv n A x i = (\<Sum>j < n. A i j * x j)"

definition regular :: "nat \<Rightarrow> (nat \<Rightarrow> nat \<Rightarrow> 'a::field) \<Rightarrow> bool" where
  "regular n A \<longleftrightarrow> (\<forall>x. (\<forall>i < n. mv n A x i = 0) \<longrightarrow> (\<forall>j < n. x j = 0))"

text \<open>Every choice of \<open>n\<close> of the \<open>N\<close> rows is regular.\<close>

definition mds :: "nat \<Rightarrow> nat \<Rightarrow> (nat \<Rightarrow> nat \<Rightarrow> 'a::field) \<Rightarrow> bool" where
  "mds n N M \<longleftrightarrow> (\<forall>sel. inj_on sel {..<n} \<longrightarrow> sel ` {..<n} \<subseteq> {..<N} \<longrightarrow> regular n (\<lambda>i. M (sel i)))"

definition unit_cols :: "nat \<Rightarrow> nat \<Rightarrow> (nat \<Rightarrow> nat \<Rightarrow> 'a::field) \<Rightarrow> bool" where
  "unit_cols n c A \<longleftrightarrow> (\<forall>b < c. \<forall>i < n. A i b = (if i = b then 1 else 0))"

definition unit_rows :: "nat \<Rightarrow> nat \<Rightarrow> (nat \<Rightarrow> nat \<Rightarrow> 'a::field) \<Rightarrow> bool" where
  "unit_rows n c M \<longleftrightarrow> (\<forall>a < c. \<forall>b < n. M a b = (if b = a then 1 else 0))"

text \<open>\<open>B\<close> times \<open>A0\<close> is \<open>A\<close>.\<close>

definition product_is :: "nat \<Rightarrow> (nat \<Rightarrow> nat \<Rightarrow> 'a::field) \<Rightarrow> (nat \<Rightarrow> nat \<Rightarrow> 'a) \<Rightarrow> (nat \<Rightarrow> nat \<Rightarrow> 'a) \<Rightarrow> bool" where
  "product_is n B A0 A \<longleftrightarrow> (\<forall>i < n. \<forall>j < n. (\<Sum>k < n. B i k * A0 k j) = A i j)"

definition swap_at :: "nat \<Rightarrow> nat \<Rightarrow> nat \<Rightarrow> nat" where
  "swap_at r f i = (if i = r then f else if i = f then r else i)"

definition row_swap :: "nat \<Rightarrow> nat \<Rightarrow> (nat \<Rightarrow> nat \<Rightarrow> 'a) \<Rightarrow> nat \<Rightarrow> nat \<Rightarrow> 'a::field" where
  "row_swap r f A = (\<lambda>i. A (swap_at r f i))"

definition row_scale :: "nat \<Rightarrow> 'a \<Rightarrow> (nat \<Rightarrow> nat \<Rightarrow> 'a) \<Rightarrow> nat \<Rightarrow> nat \<Rightarrow> 'a::field" where
  "row_scale r c A = (\<lambda>i j. if i = r then c * A i j else A i j)"

definition row_add :: "nat \<Rightarrow> nat \<Rightarrow> 'a \<Rightarrow> (nat \<Rightarrow> nat \<Rightarrow> 'a) \<Rightarrow> nat \<Rightarrow> nat \<Rightarrow> 'a::field" where
  "row_add q r c A = (\<lambda>i j. if i = q then A i j + c * A r j else A i j)"

definition col_swap :: "nat \<Rightarrow> nat \<Rightarrow> (nat \<Rightarrow> nat \<Rightarrow> 'a) \<Rightarrow> nat \<Rightarrow> nat \<Rightarrow> 'a::field" where
  "col_swap r f M = (\<lambda>a b. M a (swap_at r f b))"

definition col_scale :: "nat \<Rightarrow> 'a \<Rightarrow> (nat \<Rightarrow> nat \<Rightarrow> 'a) \<Rightarrow> nat \<Rightarrow> nat \<Rightarrow> 'a::field" where
  "col_scale r c M = (\<lambda>a b. if b = r then c * M a b else M a b)"

definition col_add :: "nat \<Rightarrow> nat \<Rightarrow> 'a \<Rightarrow> (nat \<Rightarrow> nat \<Rightarrow> 'a) \<Rightarrow> nat \<Rightarrow> nat \<Rightarrow> 'a::field" where
  "col_add q r c M = (\<lambda>a b. if b = q then M a b + c * M a r else M a b)"

lemma swap_at_simps [simp]: "swap_at r f (swap_at r f i) = i" "swap_at r f r = f" "swap_at r f f = r"
  by (auto simp: swap_at_def)

lemma swap_at_less: "r < n \<Longrightarrow> f < n \<Longrightarrow> i < n \<Longrightarrow> swap_at r f i < n"
  by (simp add: swap_at_def)

section \<open>Row operations\<close>

lemma regular_rows:
  assumes "\<And>x. \<forall>i < n. mv n A' x i = 0 \<Longrightarrow> \<forall>i < n. mv n A x i = 0" and "regular n A"
  shows "regular n A'"
  unfolding regular_def
proof (intro allI impI)
  fix x j assume "\<forall>i < n. mv n A' x i = 0" and j: "j < n"
  from assms(1) [OF this(1)] assms(2) j show "x j = 0" unfolding regular_def by blast
qed

lemma regular_row_swap:
  assumes "r < n" and "f < n" and "regular n A"
  shows "regular n (row_swap r f A)"
proof (rule regular_rows [OF _ assms(3)], intro allI impI)
  fix x i assume z: "\<forall>i < n. mv n (row_swap r f A) x i = 0" and "i < n"
  then have "mv n (row_swap r f A) x (swap_at r f i) = 0" using swap_at_less [OF assms(1,2)] by blast
  then show "mv n A x i = 0" by (simp add: mv_def row_swap_def)
qed

lemma regular_row_scale:
  assumes "c \<noteq> 0" and "regular n A"
  shows "regular n (row_scale r c A)"
proof (rule regular_rows [OF _ assms(2)], intro allI impI)
  fix x i assume z: "\<forall>i < n. mv n (row_scale r c A) x i = 0" and "i < n"
  then have "mv n (row_scale r c A) x i = 0" by blast
  then show "mv n A x i = 0"
    using assms(1) by (cases "i = r") (simp_all add: mv_def row_scale_def mult.assoc flip: sum_distrib_left)
qed

lemma regular_row_add:
  assumes "r < n" and "q \<noteq> r" and "regular n A"
  shows "regular n (row_add q r c A)"
proof (rule regular_rows [OF _ assms(3)], intro allI impI)
  fix x i assume z: "\<forall>i < n. mv n (row_add q r c A) x i = 0" and i: "i < n"
  have "mv n (row_add q r c A) x r = mv n A x r" using assms(2) by (simp add: mv_def row_add_def)
  then have r: "mv n A x r = 0" using z assms(1) by simp
  have "mv n (row_add q r c A) x i = mv n A x i + (if i = q then c * mv n A x r else 0)"
    by (simp add: mv_def row_add_def distrib_right sum.distrib sum_distrib_left mult.assoc)
  with z i r show "mv n A x i = 0" by (cases "i = q") simp_all
qed

lemma product_row_swap:
  assumes "r < n" and "f < n" and "product_is n B A0 A"
  shows "product_is n (row_swap r f B) A0 (row_swap r f A)"
  using assms swap_at_less [OF assms(1,2)] by (simp add: product_is_def row_swap_def)

lemma product_row_scale:
  assumes "product_is n B A0 A"
  shows "product_is n (row_scale r c B) A0 (row_scale r c A)"
  using assms by (auto simp: product_is_def row_scale_def mult.assoc simp flip: sum_distrib_left)

lemma product_row_add:
  assumes "r < n" and "product_is n B A0 A"
  shows "product_is n (row_add q r c B) A0 (row_add q r c A)"
  using assms
  by (auto simp: product_is_def row_add_def distrib_right sum.distrib mult.assoc simp flip: sum_distrib_left)

lemma row_pivot:
  assumes reg: "regular n A" and u: "unit_cols n c A" and c: "c < n"
  obtains i where "c \<le> i" "i < n" "A i c \<noteq> 0"
proof (rule ccontr)
  assume "\<not> thesis"
  then have z: "A i c = 0" if "c \<le> i" "i < n" for i using that(1,2) \<open>\<not> thesis\<close> \<open>\<And>i. c \<le> i \<Longrightarrow> i < n \<Longrightarrow> A i c \<noteq> 0 \<Longrightarrow> thesis\<close> by blast
  let ?x = "\<lambda>j. if j = c then 1 else if j < c then - A j c else 0"
  have "mv n A ?x i = 0" if i: "i < n" for i
  proof -
    have "mv n A ?x i = (\<Sum>j < n. (if j = c then A i c else 0) + (if j = i then if i < c then - A i c else 0 else 0))"
      unfolding mv_def using u i by (intro sum.cong) (auto simp: unit_cols_def)
    also have "\<dots> = A i c + (if i < c then - A i c else 0)"
      using c i by (simp add: sum.distrib)
    finally show ?thesis using z [of i] i by auto
  qed
  with reg have "\<forall>j < n. ?x j = 0" unfolding regular_def by blast
  with c show False by auto
qed

text \<open>At the end, the product with the inverse solves every system.\<close>

lemma product_identity_solves:
  assumes "product_is n B A0 A" and "unit_cols n n A" and "i < n"
  shows "mv n B (mv n A0 x) i = x i"
proof -
  have "mv n B (mv n A0 x) i = (\<Sum>j < n. (\<Sum>k < n. B i k * A0 k j) * x j)"
    unfolding mv_def sum_distrib_left sum_distrib_right by (subst sum.swap) (simp add: mult.assoc)
  also have "\<dots> = (\<Sum>j < n. if i = j then x j else 0)"
    using assms by (intro sum.cong) (auto simp: product_is_def unit_cols_def)
  also have "\<dots> = x i" using assms(3) by simp
  finally show ?thesis .
qed

section \<open>Column operations\<close>

lemma mds_columns:
  assumes "\<And>x a. mv n M' x a = mv n M (T x) a" and "\<And>x. \<forall>j < n. T x j = 0 \<Longrightarrow> \<forall>j < n. x j = 0"
    and "mds n N M"
  shows "mds n N M'"
  unfolding mds_def regular_def
proof (intro allI impI)
  fix sel x j
  assume sel: "inj_on sel {..<n}" "sel ` {..<n} \<subseteq> {..<N}" and z: "\<forall>i < n. mv n (\<lambda>i. M' (sel i)) x i = 0" and j: "j < n"
  have "mv n (\<lambda>i. M (sel i)) (T x) i = 0" if "i < n" for i
    using z that assms(1) [of x "sel i"] by (simp add: mv_def)
  with assms(3) sel have "\<forall>j < n. T x j = 0" unfolding mds_def regular_def by blast
  with assms(2) j show "x j = 0" by blast
qed

lemma mds_col_swap:
  assumes "r < n" and "f < n" and "mds n N M"
  shows "mds n N (col_swap r f M)"
proof (rule mds_columns [OF _ _ assms(3), where T = "\<lambda>x. x \<circ> swap_at r f"])
  show "mv n (col_swap r f M) x a = mv n M (x \<circ> swap_at r f) a" for x a
    unfolding mv_def
    by (rule sum.reindex_bij_witness [of _ "swap_at r f" "swap_at r f"])
      (use swap_at_less [OF assms(1,2)] in \<open>auto simp: col_swap_def\<close>)
  fix x :: "nat \<Rightarrow> 'a" assume "\<forall>j < n. (x \<circ> swap_at r f) j = 0"
  then have "x (swap_at r f (swap_at r f j)) = 0" if "j < n" for j
    using swap_at_less [OF assms(1,2) that] by (metis comp_apply)
  then show "\<forall>j < n. x j = 0" by simp
qed

lemma mds_col_scale:
  assumes "c \<noteq> 0" and "mds n N M"
  shows "mds n N (col_scale r c M)"
proof (rule mds_columns [OF _ _ assms(2), where T = "\<lambda>x j. if j = r then c * x j else x j"])
  show "mv n (col_scale r c M) x a = mv n M (\<lambda>j. if j = r then c * x j else x j) a" for x a
    unfolding mv_def by (intro sum.cong) (auto simp: col_scale_def)
qed (use assms(1) in \<open>metis mult_eq_0_iff\<close>)

lemma mds_col_add:
  assumes "q < n" and "r < n" and "q \<noteq> r" and "mds n N M"
  shows "mds n N (col_add q r c M)"
proof (rule mds_columns [OF _ _ assms(4), where T = "\<lambda>x j. if j = r then x r + c * x q else x j"])
  fix x a
  have "mv n (col_add q r c M) x a = (\<Sum>b < n. M a b * x b + (if b = q then c * M a r * x q else 0))"
    unfolding mv_def by (intro sum.cong) (auto simp: col_add_def algebra_simps)
  also have "\<dots> = (\<Sum>b < n. M a b * x b) + c * M a r * x q" using assms(1) by (simp add: sum.distrib)
  also have "\<dots> = (\<Sum>b < n. M a b * x b + (if b = r then c * M a r * x q else 0))"
    using assms(2) by (simp add: sum.distrib)
  also have "\<dots> = mv n M (\<lambda>j. if j = r then x r + c * x q else x j) a"
    unfolding mv_def by (intro sum.cong) (auto simp: algebra_simps)
  finally show "mv n (col_add q r c M) x a = mv n M (\<lambda>j. if j = r then x r + c * x q else x j) a" .
next
  fix x :: "nat \<Rightarrow> 'a" assume z: "\<forall>j < n. (if j = r then x r + c * x q else x j) = 0"
  then have q: "x q = 0" using assms(1,3) by metis
  have "x r + c * x q = 0" using z assms(2) by metis
  with q have "x r = 0" by simp
  with z show "\<forall>j < n. x j = 0" by metis
qed

text \<open>Over a finite field a regular matrix is onto, so that the next row has a pivot.\<close>

lemma regular_onto:
  fixes A :: "nat \<Rightarrow> nat \<Rightarrow> 'a::{field, finite}"
  assumes "regular n A"
  shows "\<exists>x. \<forall>i < n. mv n A x i = y i"
proof -
  let ?V = "{xs :: 'a list. set xs \<subseteq> UNIV \<and> length xs = n}"
  let ?f = "\<lambda>xs. map (mv n A (\<lambda>j. xs ! j)) [0..<n]"
  have "inj_on ?f ?V"
  proof (rule inj_onI)
    fix xs ys assume l: "xs \<in> ?V" "ys \<in> ?V" and e: "?f xs = ?f ys"
    have "mv n A (\<lambda>j. xs ! j - ys ! j) i = 0" if "i < n" for i
    proof -
      have "mv n A (\<lambda>j. xs ! j) i = mv n A (\<lambda>j. ys ! j) i" using e that by simp
      then show ?thesis by (simp add: mv_def right_diff_distrib sum_subtractf)
    qed
    with assms have "\<forall>j < n. xs ! j - ys ! j = 0" unfolding regular_def by blast
    then show "xs = ys" using l by (intro nth_equalityI) auto
  qed
  moreover have "finite ?V" by (rule finite_lists_length_eq) simp
  moreover have "?f ` ?V \<subseteq> ?V" by auto
  ultimately have "?f ` ?V = ?V" by (intro endo_inj_surj)
  then have "map y [0..<n] \<in> ?f ` ?V" by simp
  then obtain xs where "map y [0..<n] = ?f xs" by blast
  then have "mv n A (\<lambda>j. xs ! j) i = y i" if "i < n" for i
    using that by (metis (no_types, lifting) add_0 length_upt minus_nat.diff_0 nth_map nth_upt)
  then show ?thesis by blast
qed

lemma column_pivot:
  fixes M :: "nat \<Rightarrow> nat \<Rightarrow> 'a::{field, finite}"
  assumes m: "mds n N M" and u: "unit_rows n c M" and c: "c < n" and "n \<le> N"
  obtains b where "c \<le> b" "b < n" "M c b \<noteq> 0"
proof (rule ccontr)
  assume no: "\<not> thesis"
  have z: "M c b = 0" if "c \<le> b" "b < n" for b using no that \<open>\<And>b. c \<le> b \<Longrightarrow> b < n \<Longrightarrow> M c b \<noteq> 0 \<Longrightarrow> thesis\<close> by blast
  have "inj_on (\<lambda>i. i) {..<n}" "(\<lambda>i. i) ` {..<n} \<subseteq> {..<N}" using assms(4) by auto
  with m have "regular n M" unfolding mds_def by blast
  from regular_onto [OF this, of "\<lambda>i. if i = c then 1 else 0"]
  obtain x where x: "\<forall>i < n. mv n M x i = (if i = c then 1 else 0)" by blast
  have "x a = 0" if "a < c" for a
  proof -
    have "mv n M x a = (\<Sum>b < n. if a = b then x b else 0)"
      unfolding mv_def using u that by (intro sum.cong) (auto simp: unit_rows_def)
    also have "\<dots> = x a" using that c by simp
    finally have "mv n M x a = x a" .
    moreover have "a < n" "a \<noteq> c" using that c by simp_all
    ultimately show ?thesis using x by simp
  qed
  then have "M c b * x b = 0" if "b < n" for b using z [of b] that by (cases "b < c") simp_all
  then have "mv n M x c = 0" unfolding mv_def by (intro sum.neutral) simp
  with x c show False by simp
qed

section \<open>The starting matrix\<close>

lemma polynomial_roots:
  fixes x :: "nat \<Rightarrow> 'a::field"
  assumes "finite Z" and "card Z = n" and "\<And>z. z \<in> Z \<Longrightarrow> (\<Sum>j < n. x j * z ^ j) = 0"
  shows "\<forall>j < n. x j = 0"
  using assms
proof (induction n arbitrary: x Z)
  case (Suc n)
  then obtain z0 where z0: "z0 \<in> Z" by (metis card_eq_0_iff ex_in_conv nat.distinct(1))
  have s: "(\<Sum>j < Suc n. x j * z ^ j) = (\<Sum>j \<le> n. x j * z ^ j)" for z by (simp only: lessThan_Suc_atMost)
  have root: "(\<Sum>j \<le> n. x j * z ^ j) = 0" if "z \<in> Z" for z using Suc.prems(3) [OF that] by (simp only: s)
  define b where "b j = (\<Sum>i = Suc j..n. x i * z0 ^ (i - j - 1))" for j
  have b0: "\<forall>j < n. b j = 0"
  proof (cases "1 \<le> n")
    case True
    have "(\<Sum>j < n. b j * z ^ j) = 0" if z: "z \<in> Z - {z0}" for z
    proof -
      have "(z - z0) * (\<Sum>j < n. b j * z ^ j) = 0"
        using polyfun_diff [OF True, of x z z0] root [OF z0] root [of z] z by (simp add: b_def)
      with z show ?thesis by simp
    qed
    moreover have "card (Z - {z0}) = n" using Suc.prems(1,2) z0 by simp
    ultimately show ?thesis using Suc.IH [of "Z - {z0}" b] Suc.prems(1) by blast
  qed simp
  have hi: "x (Suc j) = 0" if j: "j < n" for j
  proof -
    have "b j = x (Suc j) + (\<Sum>i = Suc (Suc j)..n. x i * z0 ^ (i - j - 1))"
      unfolding b_def using j by (subst sum.atLeast_Suc_atMost) simp_all
    also have "(\<Sum>i = Suc (Suc j)..n. x i * z0 ^ (i - j - 1)) = z0 * b (Suc j)"
      unfolding b_def sum_distrib_left
    proof (rule sum.cong)
      fix i assume "i \<in> {Suc (Suc j)..n}"
      then have "i - j - 1 = Suc (i - Suc j - 1)" by auto
      then show "x i * z0 ^ (i - j - 1) = z0 * (x i * z0 ^ (i - Suc j - 1))" by simp
    qed simp
    also have "b (Suc j) = 0" using b0 by (cases "Suc j < n") (auto simp: b_def)
    finally show ?thesis using b0 j by simp
  qed
  have "(\<Sum>j \<le> n. x j * z0 ^ j) = x 0 + (\<Sum>j < n. x (Suc j) * z0 ^ Suc j)"
    by (simp only: lessThan_Suc_atMost [symmetric] sum.lessThan_Suc_shift) simp
  with hi root [OF z0] have "x 0 = 0" by simp
  with hi show ?case by (metis less_Suc_eq_0_disj)
qed simp

text \<open>The rows of the starting matrix: the first unit vector, and for every other row \<open>i\<close> the
  powers \<open>z i ^ 1, ..., z i ^ n\<close>.\<close>

definition start_matrix :: "(nat \<Rightarrow> 'a::field) \<Rightarrow> nat \<Rightarrow> nat \<Rightarrow> 'a" where
  "start_matrix z i j = (if i = 0 then (if j = 0 then 1 else 0) else z i ^ Suc j)"

lemma mds_start:
  assumes "inj_on z {..<N}" and "z 0 = 0"
  shows "mds n N (start_matrix z)"
  unfolding mds_def regular_def
proof (intro allI impI)
  fix sel x j
  assume sel: "inj_on sel {..<n}" "sel ` {..<n} \<subseteq> {..<N}"
    and m: "\<forall>i < n. mv n (\<lambda>i. start_matrix z (sel i)) x i = 0" and j: "j < n"
  have "(\<Sum>j < n. x j * z (sel i) ^ j) = 0" if i: "i < n" for i
  proof (cases "sel i = 0")
    case True
    have n: "0 < n" using j by simp
    have "mv n (\<lambda>i. start_matrix z (sel i)) x i = (\<Sum>j < n. if j = 0 then x j else 0)"
      unfolding mv_def by (intro sum.cong) (auto simp: start_matrix_def True)
    also have "\<dots> = (\<Sum>j < n. x j * z (sel i) ^ j)"
      using assms(2) by (intro sum.cong) (auto simp: True power_0_left)
    finally show ?thesis using m i by simp
  next
    case False
    have "mv n (\<lambda>i. start_matrix z (sel i)) x i = z (sel i) * (\<Sum>j < n. x j * z (sel i) ^ j)"
      unfolding mv_def sum_distrib_left by (intro sum.cong) (simp_all add: start_matrix_def False)
    moreover have "sel i \<in> {..<N}" using sel(2) i by blast
    then have "z (sel i) \<noteq> 0" using assms False inj_onD [OF assms(1), of "sel i" 0] by auto
    ultimately show ?thesis using m i by simp
  qed
  then have "(\<Sum>j < n. x j * w ^ j) = 0" if "w \<in> (z \<circ> sel) ` {..<n}" for w using that by auto
  moreover have "inj_on (z \<circ> sel) {..<n}"
    using sel assms(1) by (meson comp_inj_on inj_on_subset)
  then have "card ((z \<circ> sel) ` {..<n}) = n" by (simp only: card_image card_lessThan)
  ultimately show "x j = 0" using polynomial_roots [of "(z \<circ> sel) ` {..<n}" n x] j by blast
qed

end
