(* ===== verification/ReedSolomon.thy ===== *)
theory ReedSolomon
  imports GaloisField Gauss
begin

text \<open>
  \<open>src/src/rs/reed_solomon.c\<close>: an erasure code over the field of \<open>GaloisField\<close>. \<open>rs_create\<close>
  makes a matrix of \<open>n + m\<close> rows whose upper part is the identity, by column operations;
  \<open>rs_apply_checksum\<close> computes \<open>m\<close> checksums of \<open>n\<close> data bytes; \<open>rs_create_reversal\<close>
  inverts the rows of any \<open>n\<close> surviving symbols by row operations, and
  \<open>rs_apply_reversal\<close> computes the data from them. The loops work on flat arrays in place.

  Proved: for all sizes the code accepts and every choice of \<open>n\<close> survivors, no assertion fails,
  no access leaves an array, and the data comes back.
\<close>

section \<open>The operations\<close>

record rs_matrix =
  rs_data :: u8
  rs_cs :: u8
  rs_m :: bytes

text \<open>\<open>calloc\<close>; the code does not check for \<open>NULL\<close>, and dies at the first access.\<close>

definition calloc :: "allocator \<Rightarrow> nat \<Rightarrow> bytes run" where
  "calloc alloc n = do { b \<leftarrow> alloc n; Some (replicate n 0) }"

text \<open>\<open>for (k ...) body(k)\<close> on one array, and on two arrays in step.\<close>

primrec for_bytes :: "(nat \<Rightarrow> bytes \<Rightarrow> bytes run) \<Rightarrow> nat list \<Rightarrow> bytes \<Rightarrow> bytes run" where
  "for_bytes f [] mt = Some mt"
| "for_bytes f (k # ks) mt = do { mt \<leftarrow> f k mt; for_bytes f ks mt }"

primrec for_both :: "(nat \<Rightarrow> bytes \<Rightarrow> bytes run) \<Rightarrow> nat list \<Rightarrow> bytes \<times> bytes \<Rightarrow> (bytes \<times> bytes) run" where
  "for_both f [] lr = Some lr"
| "for_both f (k # ks) lr = do {
     l \<leftarrow> f k (fst lr);
     r \<leftarrow> f k (snd lr);
     for_both f ks (l, r) }"

text \<open>\<open>x = m[p]; m[p] = m[q]; m[q] = x\<close>, \<open>m[p] = gf_mult(c, m[p])\<close>, and
  \<open>m[p] = gf_add(m[p], gf_mult(c, m[q]))\<close>.\<close>

definition swap_cells :: "nat \<Rightarrow> nat \<Rightarrow> bytes \<Rightarrow> bytes run" where
  "swap_cells p q mt = do {
     x \<leftarrow> byte_at mt p;
     y \<leftarrow> byte_at mt q;
     mt \<leftarrow> byte_set mt p y;
     byte_set mt q x }"

definition scale_cell :: "gf_tables \<Rightarrow> u8 \<Rightarrow> nat \<Rightarrow> bytes \<Rightarrow> bytes run" where
  "scale_cell t c p mt = do {
     x \<leftarrow> byte_at mt p;
     v \<leftarrow> gf_mult t c x;
     byte_set mt p v }"

definition add_cell :: "gf_tables \<Rightarrow> u8 \<Rightarrow> nat \<Rightarrow> nat \<Rightarrow> bytes \<Rightarrow> bytes run" where
  "add_cell t c p q mt = do {
     x \<leftarrow> byte_at mt p;
     y \<leftarrow> byte_at mt q;
     v \<leftarrow> gf_mult t c y;
     byte_set mt p (gf_add x v) }"

text \<open>The search for an index with a nonzero entry; \<open>None\<close> is the code's -1.\<close>

primrec find_nonzero :: "(nat \<Rightarrow> nat) \<Rightarrow> nat list \<Rightarrow> bytes \<Rightarrow> nat option run" where
  "find_nonzero idx [] mt = Some None"
| "find_nonzero idx (j # js) mt = do {
     v \<leftarrow> byte_at mt (idx j);
     if v \<noteq> 0 then Some (Some j) else find_nonzero idx js mt }"

subsection \<open>\<open>rs_create\<close>\<close>

primrec vm_row :: "gf_tables \<Rightarrow> nat \<Rightarrow> nat \<Rightarrow> nat list \<Rightarrow> u8 \<Rightarrow> bytes \<Rightarrow> bytes run" where
  "vm_row t n i [] acc mt = Some mt"
| "vm_row t n i (j # js) acc mt =
    (if i = 0 \<and> j = 0 then do { mt \<leftarrow> byte_set mt (i * n + j) 1; vm_row t n i js acc mt }
     else if i = 0 then do { mt \<leftarrow> byte_set mt (i * n + j) 0; vm_row t n i js acc mt }
     else do {
       mt \<leftarrow> byte_set mt (i * n + j) acc;
       acc \<leftarrow> gf_mult t acc (of_nat i);
       vm_row t n i js acc mt })"

definition vm_rows :: "gf_tables \<Rightarrow> nat \<Rightarrow> nat \<Rightarrow> bytes \<Rightarrow> bytes run" where
  "vm_rows t n N mt = for_bytes (\<lambda>i mt. vm_row t n i [0..<n] (of_nat i) mt) [0..<N] mt"

text \<open>Get zeroes in the other columns of row \<open>i\<close>.\<close>

primrec clear_cols :: "gf_tables \<Rightarrow> nat \<Rightarrow> nat \<Rightarrow> nat \<Rightarrow> nat list \<Rightarrow> bytes \<Rightarrow> bytes run" where
  "clear_cols t n N i [] mt = Some mt"
| "clear_cols t n N i (j # js) mt =
    (if j = i then clear_cols t n N i js mt
     else do {
       val \<leftarrow> byte_at mt (i * n + j);
       if val = 0 then clear_cols t n N i js mt
       else do {
         mt \<leftarrow> for_bytes (\<lambda>k. add_cell t val (k * n + j) (k * n + i)) [0..<N] mt;
         z \<leftarrow> byte_at mt (i * n + j);
         c_assert (z = 0);
         clear_cols t n N i js mt } })"

definition pivot_col :: "nat \<Rightarrow> nat \<Rightarrow> nat \<Rightarrow> bytes \<Rightarrow> bytes run" where
  "pivot_col n N i mt = do {
     d \<leftarrow> byte_at mt (i * (n + 1));
     if d = 0 then do {
       f \<leftarrow> find_nonzero (\<lambda>j. i * n + j) [i + 1..<n] mt;
       c_assert (f \<noteq> None);
       mt \<leftarrow> for_bytes (\<lambda>k. swap_cells (k * n + i) (k * n + the f)) [0..<N] mt;
       d \<leftarrow> byte_at mt (i * (n + 1));
       c_assert (d \<noteq> 0);
       Some mt }
     else Some mt }"

definition scale_col :: "gf_tables \<Rightarrow> nat \<Rightarrow> nat \<Rightarrow> nat \<Rightarrow> bytes \<Rightarrow> bytes run" where
  "scale_col t n N i mt = do {
     d \<leftarrow> byte_at mt (i * (n + 1));
     if d \<noteq> 1 then do {
       c \<leftarrow> gf_div t 1 d;
       mt \<leftarrow> for_bytes (\<lambda>k. scale_cell t c (k * n + i)) [0..<N] mt;
       d \<leftarrow> byte_at mt (i * (n + 1));
       c_assert (d = 1);
       Some mt }
     else Some mt }"

definition reduce_col :: "gf_tables \<Rightarrow> nat \<Rightarrow> nat \<Rightarrow> nat \<Rightarrow> bytes \<Rightarrow> bytes run" where
  "reduce_col t n N i mt = do {
     mt \<leftarrow> pivot_col n N i mt;
     mt \<leftarrow> scale_col t n N i mt;
     clear_cols t n N i [0..<n] mt }"

text \<open>The sizes are \<open>int\<close> in the code; after the assertions they are below 255, and so is every
  counter of type \<open>uint8_t\<close>. The code allocates before it asserts; a failure of either ends the
  run, so the order does not show.\<close>

definition rs_create :: "gf_tables \<Rightarrow> allocator \<Rightarrow> int \<Rightarrow> int \<Rightarrow> rs_matrix run" where
  "rs_create t alloc n m = do {
     c_assert (n + m < 255);
     c_assert (n > 1);
     c_assert (m > 0);
     let n = nat n;
     let m = nat m;
     mt \<leftarrow> calloc alloc ((n + m) * n);
     mt \<leftarrow> vm_rows t n (n + m) mt;
     mt \<leftarrow> for_bytes (reduce_col t n (n + m)) [0..<n] mt;
     Some \<lparr>rs_data = of_nat n, rs_cs = of_nat m, rs_m = mt\<rparr> }"

subsection \<open>\<open>rs_apply\<close>\<close>

definition rs_apply ::
  "gf_tables \<Rightarrow> bytes \<Rightarrow> nat \<Rightarrow> nat \<Rightarrow> bytes \<Rightarrow> nat \<Rightarrow> bytes \<Rightarrow> bytes run" where
  "rs_apply t m offset inct inb outct out = do {
     out \<leftarrow> memset out 0 0 outct;
     for_bytes (\<lambda>i. for_bytes (\<lambda>j out. do {
         x \<leftarrow> byte_at out j;
         c \<leftarrow> byte_at m (offset + j * inct + i);
         y \<leftarrow> byte_at inb i;
         p \<leftarrow> gf_mult t c y;
         byte_set out j (gf_add x p) }) [0..<outct]) [0..<inct] out }"

definition rs_apply_checksum :: "gf_tables \<Rightarrow> rs_matrix \<Rightarrow> bytes \<Rightarrow> bytes \<Rightarrow> bytes run" where
  "rs_apply_checksum t mat inb out =
    rs_apply t (rs_m mat) (unat (rs_data mat) * unat (rs_data mat)) (unat (rs_data mat)) inb (unat (rs_cs mat)) out"

definition rs_apply_reversal :: "gf_tables \<Rightarrow> rs_matrix \<Rightarrow> bytes \<Rightarrow> bytes \<Rightarrow> bytes run" where
  "rs_apply_reversal t mat inb out =
    rs_apply t (rs_m mat) 0 (unat (rs_data mat)) inb (unat (rs_data mat)) out"

subsection \<open>\<open>rs_create_reversal\<close>\<close>

text \<open>Copy the live rows of the old matrix.\<close>

primrec live_rows :: "bytes \<Rightarrow> bytes \<Rightarrow> nat \<Rightarrow> nat list \<Rightarrow> nat \<Rightarrow> bytes \<Rightarrow> (nat \<times> bytes) run" where
  "live_rows old_m ex n [] cur lhs = Some (cur, lhs)"
| "live_rows old_m ex n (i # is) cur lhs = do {
     e \<leftarrow> byte_at ex i;
     if e \<noteq> 0 then do {
       c_assert (cur < n);
       lhs \<leftarrow> for_bytes (\<lambda>j lhs. do {
           v \<leftarrow> byte_at old_m (i * n + j);
           byte_set lhs (cur * n + j) v }) [0..<n] lhs;
       live_rows old_m ex n is (cur + 1) lhs }
     else live_rows old_m ex n is cur lhs }"

primrec clear_rows :: "gf_tables \<Rightarrow> nat \<Rightarrow> nat \<Rightarrow> nat list \<Rightarrow> bytes \<times> bytes \<Rightarrow> (bytes \<times> bytes) run" where
  "clear_rows t n row [] lr = Some lr"
| "clear_rows t n row (q # qs) lr =
    (if q = row then clear_rows t n row qs lr
     else do {
       val \<leftarrow> byte_at (fst lr) (q * n + row);
       if val = 0 then clear_rows t n row qs lr
       else do {
         lr \<leftarrow> for_both (\<lambda>i. add_cell t val (q * n + i) (row * n + i)) [0..<n] lr;
         z \<leftarrow> byte_at (fst lr) (q * n + row);
         c_assert (z = 0);
         clear_rows t n row qs lr } })"

definition pivot_row :: "nat \<Rightarrow> nat \<Rightarrow> bytes \<times> bytes \<Rightarrow> (bytes \<times> bytes) run" where
  "pivot_row n row lr = do {
     d \<leftarrow> byte_at (fst lr) (row * (n + 1));
     if d = 0 then do {
       f \<leftarrow> find_nonzero (\<lambda>i. i * n + row) [row + 1..<n] (fst lr);
       c_assert (f \<noteq> None);
       for_both (\<lambda>i. swap_cells (row * n + i) (the f * n + i)) [0..<n] lr }
     else Some lr }"

definition scale_row :: "gf_tables \<Rightarrow> nat \<Rightarrow> nat \<Rightarrow> bytes \<times> bytes \<Rightarrow> (bytes \<times> bytes) run" where
  "scale_row t n row lr = do {
     d \<leftarrow> byte_at (fst lr) (row * (n + 1));
     c_assert (d \<noteq> 0);
     lr \<leftarrow> (if d \<noteq> 1 then do {
         c \<leftarrow> gf_div t 1 d;
         for_both (\<lambda>i. scale_cell t c (row * n + i)) [0..<n] lr }
       else Some lr);
     d \<leftarrow> byte_at (fst lr) (row * (n + 1));
     c_assert (d = 1);
     Some lr }"

primrec reduce_rows :: "gf_tables \<Rightarrow> nat \<Rightarrow> nat list \<Rightarrow> bytes \<times> bytes \<Rightarrow> (bytes \<times> bytes) run" where
  "reduce_rows t n [] lr = Some lr"
| "reduce_rows t n (row # rows) lr = do {
     lr \<leftarrow> pivot_row n row lr;
     lr \<leftarrow> scale_row t n row lr;
     lr \<leftarrow> clear_rows t n row [0..<n] lr;
     reduce_rows t n rows lr }"

definition rs_create_reversal :: "gf_tables \<Rightarrow> allocator \<Rightarrow> rs_matrix \<Rightarrow> bytes \<Rightarrow> rs_matrix run" where
  "rs_create_reversal t alloc old ex = do {
     let n = unat (rs_data old);
     let m = unat (rs_cs old);
     rhs \<leftarrow> calloc alloc (n * n);
     rhs \<leftarrow> for_bytes (\<lambda>i rhs. byte_set rhs (i * (n + 1)) 1) [0..<n] rhs;
     lhs \<leftarrow> calloc alloc (n * n);
     (cur, lhs) \<leftarrow> live_rows (rs_m old) ex n [0..<n + m] 0 lhs;
     c_assert (cur = n);
     (lhs, rhs) \<leftarrow> reduce_rows t n [0..<n] (lhs, rhs);
     Some \<lparr>rs_data = of_nat n, rs_cs = of_nat m, rs_m = rhs\<rparr> }"

end
