(* ===== verification/Erasure.thy ===== *)
theory Erasure
  imports ReedSolomon
begin

text \<open>
  What the erasure code of \<open>ReedSolomon\<close> guarantees: the flat arrays hold matrices over \<open>gf\<close>, each
  loop is a row or column operation of \<open>Gauss\<close>, both eliminations run to the end, and any \<open>n\<close>
  symbols give the data back.
\<close>

section \<open>Arrays as matrices\<close>

definition is_mat :: "nat \<Rightarrow> nat \<Rightarrow> bytes \<Rightarrow> (nat \<Rightarrow> nat \<Rightarrow> gf) \<Rightarrow> bool" where
  "is_mat N n mt A \<longleftrightarrow> length mt = N * n \<and> (\<forall>a < N. \<forall>b < n. gf_of (mt ! (a * n + b)) = A a b)"

definition upd :: "(nat \<Rightarrow> nat \<Rightarrow> gf) \<Rightarrow> nat \<Rightarrow> nat \<Rightarrow> gf \<Rightarrow> nat \<Rightarrow> nat \<Rightarrow> gf" where
  "upd A a b v = (\<lambda>x y. if x = a \<and> y = b then v else A x y)"

lemma cell_less: "a < N \<Longrightarrow> b < n \<Longrightarrow> a * n + b < N * (n::nat)"
proof -
  assume "a < N" "b < n"
  then have "Suc a * n \<le> N * n" by (intro mult_le_mono1) simp
  with \<open>b < n\<close> show ?thesis by simp
qed

lemma cell_eq:
  assumes "b < n" and "d < n"
  shows "a * n + b = c * n + d \<longleftrightarrow> a = c \<and> b = (d::nat)"
proof -
  have "(a * n + b) div n = a" "(a * n + b) mod n = b" "(c * n + d) div n = c" "(c * n + d) mod n = d"
    using assms by simp_all
  then show ?thesis by metis
qed

lemma diag_cell: "i * (n + 1) = i * n + (i::nat)"
  by simp

lemma is_mat_get:
  assumes "is_mat N n mt A" and "a < N" and "b < n"
  shows "byte_at mt (a * n + b) = Some (byte_of (A a b))"
  using assms cell_less [OF assms(2,3)] by (simp add: is_mat_def) (metis gf_of_eq)

lemma is_mat_set:
  assumes "is_mat N n mt A" and "a < N" and "b < n"
  shows "\<exists>mt'. byte_set mt (a * n + b) v = Some mt' \<and> is_mat N n mt' (upd A a b (gf_of v))"
  using assms cell_less [OF assms(2,3)] cell_eq [OF assms(3)]
  by (auto simp: is_mat_def upd_def nth_list_update)

lemma is_mat_cong: "is_mat N n mt A \<Longrightarrow> (\<And>a b. a < N \<Longrightarrow> b < n \<Longrightarrow> A a b = B a b) \<Longrightarrow> is_mat N n mt B"
  by (simp add: is_mat_def)

lemma is_mat_calloc: "is_mat N n (replicate (N * n) 0) (\<lambda>a b. 0)"
  using cell_less by (simp add: is_mat_def gf_of_simps)

lemma byte_of_eq [simp]: "byte_of x = 0 \<longleftrightarrow> x = 0" "byte_of x = 1 \<longleftrightarrow> x = 1"
  by (metis gf_of_eq gf_of_0_iff(1) byte_of_inverse, metis gf_of_eq gf_of_0_iff(2) byte_of_inverse)

lemma gf_of_byte_of [simp]: "gf_of (byte_of x) = x"
  by (rule byte_of_inverse)

text \<open>A loop whose turn \<open>k\<close> is the matrix step \<open>F k\<close>.\<close>

lemma for_bytes_mat:
  assumes "\<And>k mt A. k \<in> set ks \<Longrightarrow> is_mat N n mt A \<Longrightarrow> \<exists>mt'. f k mt = Some mt' \<and> is_mat N n mt' (F k A)"
    and "is_mat N n mt A"
  shows "\<exists>mt'. for_bytes f ks mt = Some mt' \<and> is_mat N n mt' (fold F ks A)"
  using assms
proof (induction ks arbitrary: mt A)
  case (Cons k ks)
  obtain mt1 where "f k mt = Some mt1" "is_mat N n mt1 (F k A)"
    using Cons.prems(1) [of k mt A] Cons.prems(2) by auto
  with Cons.IH [of mt1 "F k A"] Cons.prems(1) show ?case by auto
qed simp

text \<open>Steps that change one row each, as a function of that row; and one column each.\<close>

lemma fold_rows:
  assumes "distinct ks"
  shows "fold (\<lambda>k A x y. if x = k then G k (A k) y else A x y) ks A a b =
    (if a \<in> set ks then G a (A a) b else A a b)"
  using assms
proof (induction ks arbitrary: A)
  case (Cons k ks)
  then show ?case by (cases "a = k") auto
qed simp

lemma fold_cols:
  assumes "distinct ks"
  shows "fold (\<lambda>k A x y. if y = k then G k (\<lambda>i. A i k) x else A x y) ks A a b =
    (if b \<in> set ks then G b (\<lambda>i. A i b) a else A a b)"
  using assms
proof (induction ks arbitrary: A)
  case (Cons k ks)
  then show ?case by (cases "b = k") auto
qed simp

section \<open>The cell operations\<close>

lemma swap_cells_mat:
  assumes m: "is_mat N n mt A" and "a < N" "b < n" "c < N" "d < n"
  shows "\<exists>mt'. swap_cells (a * n + b) (c * n + d) mt = Some mt' \<and>
    is_mat N n mt' (upd (upd A a b (A c d)) c d (A a b))"
proof -
  obtain m1 where m1: "byte_set mt (a * n + b) (byte_of (A c d)) = Some m1" "is_mat N n m1 (upd A a b (A c d))"
    using is_mat_set [OF m assms(2,3), of "byte_of (A c d)"] by auto
  obtain m2 where "byte_set m1 (c * n + d) (byte_of (A a b)) = Some m2"
    "is_mat N n m2 (upd (upd A a b (A c d)) c d (A a b))"
    using is_mat_set [OF m1(2) assms(4,5), of "byte_of (A a b)"] by auto
  then show ?thesis
    using m1(1) is_mat_get [OF m assms(2,3)] is_mat_get [OF m assms(4,5)] by (simp add: swap_cells_def)
qed

lemma scale_cell_mat:
  assumes t: "tables_ok t" and m: "is_mat N n mt A" and "a < N" "b < n"
  shows "\<exists>mt'. scale_cell t c (a * n + b) mt = Some mt' \<and> is_mat N n mt' (upd A a b (gf_of c * A a b))"
  using is_mat_get [OF m assms(3,4)] is_mat_set [OF m assms(3,4), of "byte_of (gf_of c * A a b)"]
  by (simp add: scale_cell_def gf_mult_gf [OF t])

lemma add_cell_mat:
  assumes t: "tables_ok t" and m: "is_mat N n mt A" and "a < N" "b < n" "c < N" "d < n"
  shows "\<exists>mt'. add_cell t v (a * n + b) (c * n + d) mt = Some mt' \<and>
    is_mat N n mt' (upd A a b (A a b + gf_of v * A c d))"
  using is_mat_get [OF m assms(3,4)] is_mat_get [OF m assms(5,6)]
    is_mat_set [OF m assms(3,4), of "byte_of (A a b + gf_of v * A c d)"]
  by (simp add: add_cell_def gf_mult_gf [OF t] gf_add_gf)

lemma find_nonzero_mat:
  assumes "\<And>j. j \<in> set js \<Longrightarrow> byte_at mt (idx j) = Some (byte_of (v j))"
  obtains r where "find_nonzero idx js mt = Some r" "r = None \<Longrightarrow> \<forall>j \<in> set js. v j = 0"
    "\<And>j. r = Some j \<Longrightarrow> j \<in> set js \<and> v j \<noteq> 0"
  using assms
proof (induction js arbitrary: thesis)
  case (Cons j js)
  show ?case
  proof (cases "v j = 0")
    case True
    obtain r where r: "find_nonzero idx js mt = Some r" "r = None \<Longrightarrow> \<forall>j \<in> set js. v j = 0"
      "\<And>j. r = Some j \<Longrightarrow> j \<in> set js \<and> v j \<noteq> 0"
      using Cons.IH Cons.prems(2) by (metis list.set_intros(2))
    with True show ?thesis using Cons.prems(2) [of j] by (intro Cons.prems(1) [of r]) auto
  next
    case False
    then show ?thesis using Cons.prems(2) [of j] by (intro Cons.prems(1) [of "Some j"]) auto
  qed
qed auto

section \<open>Column operations\<close>

lemma col_loop:
  assumes step: "\<And>k mt A. k < N \<Longrightarrow> is_mat N n mt A \<Longrightarrow> \<exists>mt'. f k mt = Some mt' \<and> is_mat N n mt' (F k A)"
    and F: "\<And>k A. F k A = (\<lambda>x y. if x = k then G (A k) y else A x y)"
    and m: "is_mat N n mt A" and B: "\<And>a b. a < N \<Longrightarrow> b < n \<Longrightarrow> G (A a) b = B a b"
  shows "\<exists>mt'. for_bytes f [0..<N] mt = Some mt' \<and> is_mat N n mt' B"
proof -
  obtain mt' where mt': "for_bytes f [0..<N] mt = Some mt'" "is_mat N n mt' (fold F [0..<N] A)"
    using for_bytes_mat [of "[0..<N]" N n f F mt A] step m by auto
  have "fold F [0..<N] A a b = B a b" if "a < N" "b < n" for a b
    using fold_rows [of "[0..<N]" "\<lambda>_. G" A a b] that B unfolding F by simp
  with mt' is_mat_cong show ?thesis by blast
qed

lemma swap_cols_mat:
  assumes m: "is_mat N n mt A" and "i < n" "f < n"
  shows "\<exists>mt'. for_bytes (\<lambda>k. swap_cells (k * n + i) (k * n + f)) [0..<N] mt = Some mt' \<and>
    is_mat N n mt' (col_swap i f A)"
proof (rule col_loop [OF _ _ m])
  show "\<exists>mt'. swap_cells (k * n + i) (k * n + f) mt = Some mt' \<and>
      is_mat N n mt' (upd (upd A k i (A k f)) k f (A k i))" if "k < N" "is_mat N n mt A" for k mt A
    by (rule swap_cells_mat [OF that(2,1) assms(2) that(1) assms(3)])
  show "upd (upd A k i (A k f)) k f (A k i) = (\<lambda>x y. if x = k then A k (swap_at i f y) else A x y)" for k A
    by (auto simp: upd_def swap_at_def fun_eq_iff)
qed (simp add: col_swap_def)

lemma scale_cols_mat:
  assumes t: "tables_ok t" and m: "is_mat N n mt A" and "i < n"
  shows "\<exists>mt'. for_bytes (\<lambda>k. scale_cell t c (k * n + i)) [0..<N] mt = Some mt' \<and>
    is_mat N n mt' (col_scale i (gf_of c) A)"
proof (rule col_loop [OF _ _ m])
  show "\<exists>mt'. scale_cell t c (k * n + i) mt = Some mt' \<and> is_mat N n mt' (upd A k i (gf_of c * A k i))"
    if "k < N" "is_mat N n mt A" for k mt A
    by (rule scale_cell_mat [OF t that(2,1) assms(3)])
  show "upd A k i (gf_of c * A k i) = (\<lambda>x y. if x = k then if y = i then gf_of c * A k y else A k y else A x y)" for k A
    by (auto simp: upd_def fun_eq_iff)
qed (simp add: col_scale_def)

lemma add_cols_mat:
  assumes t: "tables_ok t" and m: "is_mat N n mt A" and "j < n" "i < n"
  shows "\<exists>mt'. for_bytes (\<lambda>k. add_cell t c (k * n + j) (k * n + i)) [0..<N] mt = Some mt' \<and>
    is_mat N n mt' (col_add j i (gf_of c) A)"
proof (rule col_loop [OF _ _ m])
  show "\<exists>mt'. add_cell t c (k * n + j) (k * n + i) mt = Some mt' \<and>
      is_mat N n mt' (upd A k j (A k j + gf_of c * A k i))" if "k < N" "is_mat N n mt A" for k mt A
    by (rule add_cell_mat [OF t that(2,1) assms(3) that(1) assms(4)])
  show "upd A k j (A k j + gf_of c * A k i) =
      (\<lambda>x y. if x = k then if y = j then A k y + gf_of c * A k i else A k y else A x y)" for k A
    by (auto simp: upd_def fun_eq_iff)
qed (simp add: col_add_def)

text \<open>The invariant of the column elimination before row \<open>i\<close>.\<close>

definition cols_inv :: "nat \<Rightarrow> nat \<Rightarrow> nat \<Rightarrow> bytes \<Rightarrow> (nat \<Rightarrow> nat \<Rightarrow> gf) \<Rightarrow> bool" where
  "cols_inv N n i mt A \<longleftrightarrow> is_mat N n mt A \<and> mds n N A \<and> unit_rows n i A"

lemma pivot_col_ok:
  assumes v: "cols_inv N n i mt A" and i: "i < n" "n \<le> N"
  obtains mt' A' where "pivot_col n N i mt = Some mt'" "cols_inv N n i mt' A'" "A' i i \<noteq> 0"
proof -
  have m: "is_mat N n mt A" and reg: "mds n N A" and u: "unit_rows n i A" using v by (simp_all add: cols_inv_def)
  have iN: "i < N" using i by simp
  have d: "byte_at mt (i * (n + 1)) = Some (byte_of (A i i))"
    unfolding diag_cell by (rule is_mat_get [OF m iN i(1)])
  show thesis
  proof (cases "A i i = 0")
    case False
    with d v show thesis by (intro that [of mt A]) (simp_all add: pivot_col_def)
  next
    case True
    obtain r where r: "find_nonzero (\<lambda>j. i * n + j) [i + 1..<n] mt = Some r" "r = None \<Longrightarrow> \<forall>j \<in> set [i + 1..<n]. A i j = 0"
      "\<And>j. r = Some j \<Longrightarrow> j \<in> set [i + 1..<n] \<and> A i j \<noteq> 0"
      by (rule find_nonzero_mat [of "[i + 1..<n]" mt "\<lambda>j. i * n + j" "A i"]) (use is_mat_get [OF m iN] in auto)
    obtain b where "i \<le> b" "b < n" "A i b \<noteq> 0" by (rule column_pivot [OF reg u i])
    with True have "b \<in> set [i + 1..<n]" by (auto simp: le_less)
    with \<open>A i b \<noteq> 0\<close> r(2) obtain f where f: "r = Some f" by fastforce
    with r(3) have f': "i < f" "f < n" "A i f \<noteq> 0" by auto
    obtain mt' where mt': "for_bytes (\<lambda>k. swap_cells (k * n + i) (k * n + f)) [0..<N] mt = Some mt'"
      "is_mat N n mt' (col_swap i f A)" using swap_cols_mat [OF m i(1) f'(2)] by blast
    have p: "col_swap i f A i i = A i f" by (simp add: col_swap_def)
    have "byte_at mt' (i * (n + 1)) = Some (byte_of (A i f))"
      unfolding diag_cell using is_mat_get [OF mt'(2) iN i(1)] p by simp
    then have "pivot_col n N i mt = Some mt'"
      using d True r(1) f mt'(1) f'(3) by (simp add: pivot_col_def)
    moreover have "unit_rows n i (col_swap i f A)"
      using u i(1) f' by (auto simp: unit_rows_def col_swap_def swap_at_def)
    then have "cols_inv N n i mt' (col_swap i f A)"
      using mt'(2) mds_col_swap [OF i(1) f'(2) reg] by (simp add: cols_inv_def)
    ultimately show thesis using that p f'(3) by metis
  qed
qed

lemma scale_col_ok:
  assumes t: "tables_ok t" and v: "cols_inv N n i mt A" and i: "i < n" "n \<le> N" and p: "A i i \<noteq> 0"
  obtains mt' A' where "scale_col t n N i mt = Some mt'" "cols_inv N n i mt' A'" "A' i i = 1"
proof -
  have m: "is_mat N n mt A" and reg: "mds n N A" and u: "unit_rows n i A" using v by (simp_all add: cols_inv_def)
  have iN: "i < N" using i by simp
  have d: "byte_at mt (i * (n + 1)) = Some (byte_of (A i i))"
    unfolding diag_cell by (rule is_mat_get [OF m iN i(1)])
  show thesis
  proof (cases "A i i = 1")
    case True
    with d v show thesis by (intro that [of mt A]) (simp_all add: scale_col_def)
  next
    case False
    let ?c = "byte_of (inverse (A i i))"
    have inv: "gf_div t 1 (byte_of (A i i)) = Some ?c" using gf_inverse_gf [OF t, of "byte_of (A i i)"] p by simp
    obtain mt' where mt': "for_bytes (\<lambda>k. scale_cell t ?c (k * n + i)) [0..<N] mt = Some mt'"
      "is_mat N n mt' (col_scale i (inverse (A i i)) A)" using scale_cols_mat [OF t m i(1), of ?c] by auto
    have q: "col_scale i (inverse (A i i)) A i i = 1" using p by (simp add: col_scale_def)
    have "byte_at mt' (i * (n + 1)) = Some 1"
      unfolding diag_cell using is_mat_get [OF mt'(2) iN i(1)] unfolding q by (metis byte_of_eq(2))
    then have "scale_col t n N i mt = Some mt'"
      using d False inv mt'(1) by (simp add: scale_col_def)
    moreover have "unit_rows n i (col_scale i (inverse (A i i)) A)"
      using u by (auto simp: unit_rows_def col_scale_def)
    then have "cols_inv N n i mt' (col_scale i (inverse (A i i)) A)"
      using mt'(2) mds_col_scale [OF _ reg] p by (simp add: cols_inv_def)
    ultimately show thesis using that q by metis
  qed
qed

lemma clear_cols_ok:
  assumes t: "tables_ok t" and i: "i < n" "n \<le> N"
  shows "cols_inv N n i mt A \<Longrightarrow> A i i = 1 \<Longrightarrow> \<forall>j \<in> set js. j < n \<Longrightarrow>
    \<exists>mt' A'. clear_cols t n N i js mt = Some mt' \<and> cols_inv N n i mt' A' \<and> A' i i = 1 \<and>
      (\<forall>b < n. b \<noteq> i \<longrightarrow> A' i b = (if b \<in> set js then 0 else A i b))"
proof (induction js arbitrary: mt A)
  case Nil
  then show ?case by auto
next
  case (Cons j js)
  have m: "is_mat N n mt A" and reg: "mds n N A" and u: "unit_rows n i A"
    using Cons.prems(1) by (simp_all add: cols_inv_def)
  have iN: "i < N" using i by simp
  have j: "j < n" using Cons.prems(3) by simp
  have val: "byte_at mt (i * n + j) = Some (byte_of (A i j))" by (rule is_mat_get [OF m iN j])
  show ?case
  proof (cases "j = i \<or> A i j = 0")
    case True
    obtain mt' A' where "clear_cols t n N i js mt = Some mt'" "cols_inv N n i mt' A'" "A' i i = 1"
      "\<forall>b < n. b \<noteq> i \<longrightarrow> A' i b = (if b \<in> set js then 0 else A i b)"
      using Cons.IH [OF Cons.prems(1,2)] Cons.prems(3) by auto
    then show ?thesis using True val by (intro exI [of _ mt'] exI [of _ A']) auto
  next
    case False
    let ?A = "col_add j i (A i j) A"
    obtain mt1 where m1: "for_bytes (\<lambda>k. add_cell t (byte_of (A i j)) (k * n + j) (k * n + i)) [0..<N] mt = Some mt1"
      "is_mat N n mt1 ?A" using add_cols_mat [OF t m j i(1), of "byte_of (A i j)"] by auto
    have row: "?A i b = (if b = j then 0 else A i b)" for b using Cons.prems(2) by (simp add: col_add_def)
    have z: "byte_at mt1 (i * n + j) = Some 0"
      using is_mat_get [OF m1(2) iN j] row byte_of_eq(1) [of 0] by simp
    have "unit_rows n i ?A" using u i(1) by (auto simp: unit_rows_def col_add_def)
    then have v1: "cols_inv N n i mt1 ?A"
      using m1(2) mds_col_add [OF j i(1) _ reg] False by (simp add: cols_inv_def)
    have p1: "?A i i = 1" using row False Cons.prems(2) by simp
    obtain mt' A' where "clear_cols t n N i js mt1 = Some mt'" "cols_inv N n i mt' A'" "A' i i = 1"
      "\<forall>b < n. b \<noteq> i \<longrightarrow> A' i b = (if b \<in> set js then 0 else ?A i b)"
      using Cons.IH [OF v1 p1] Cons.prems(3) by auto
    then show ?thesis using False val m1(1) z row by (intro exI [of _ mt'] exI [of _ A']) auto
  qed
qed

lemma reduce_col_ok:
  assumes t: "tables_ok t" and v: "cols_inv N n i mt A" and i: "i < n" "n \<le> N"
  shows "\<exists>mt' A'. reduce_col t n N i mt = Some mt' \<and> cols_inv N n (Suc i) mt' A'"
proof -
  obtain m1 A1 where 1: "pivot_col n N i mt = Some m1" "cols_inv N n i m1 A1" "A1 i i \<noteq> 0"
    by (rule pivot_col_ok [OF v i])
  obtain m2 A2 where 2: "scale_col t n N i m1 = Some m2" "cols_inv N n i m2 A2" "A2 i i = 1"
    by (rule scale_col_ok [OF t 1(2) i 1(3)])
  obtain m3 A3 where 3: "clear_cols t n N i [0..<n] m2 = Some m3" "cols_inv N n i m3 A3" "A3 i i = 1"
    "\<forall>b < n. b \<noteq> i \<longrightarrow> A3 i b = (if b \<in> set [0..<n] then 0 else A2 i b)"
    using clear_cols_ok [OF t i 2(2,3), of "[0..<n]"] by auto
  have "unit_rows n (Suc i) A3" using 3(2,3,4) by (auto simp: cols_inv_def unit_rows_def less_Suc_eq)
  with 1 2 3 show ?thesis by (auto simp: reduce_col_def cols_inv_def)
qed

lemma reduce_cols_ok:
  assumes t: "tables_ok t" and "n \<le> N" and "cols_inv N n i mt A" and "i + k \<le> n"
  shows "\<exists>mt' A'. for_bytes (reduce_col t n N) [i..<i + k] mt = Some mt' \<and> cols_inv N n (i + k) mt' A'"
  using assms(3,4)
proof (induction k arbitrary: i mt A)
  case (Suc k)
  obtain m1 A1 where 1: "reduce_col t n N i mt = Some m1" "cols_inv N n (Suc i) m1 A1"
    using reduce_col_ok [OF t Suc.prems(1) _ assms(2)] Suc.prems(2) by auto
  have "[i..<i + Suc k] = i # [Suc i..<Suc i + k]" by (simp add: upt_rec)
  with 1 Suc.IH [OF 1(2)] Suc.prems(2) show ?case by simp
qed auto

section \<open>\<open>rs_create\<close>\<close>

abbreviation point :: "nat \<Rightarrow> gf" where
  "point i \<equiv> gf_of (of_nat i)"

lemma vm_row_ok:
  assumes t: "tables_ok t" and i: "i < N"
  shows "is_mat N n mt A \<Longrightarrow> j + k \<le> n \<Longrightarrow> (i \<noteq> 0 \<longrightarrow> gf_of acc = point i ^ Suc j) \<Longrightarrow>
    \<exists>mt'. vm_row t n i [j..<j + k] acc mt = Some mt' \<and>
      is_mat N n mt' (\<lambda>a b. if a = i \<and> j \<le> b \<and> b < j + k then start_matrix point i b else A a b)"
proof (induction k arbitrary: j acc mt A)
  case 0
  then show ?case by (auto elim!: is_mat_cong)
next
  case (Suc k)
  have j: "j < n" using Suc.prems(2) by simp
  let ?v = "if i = 0 then if j = 0 then 1 else 0 else acc"
  let ?acc = "if i = 0 then acc else byte_of (gf_of acc * point i)"
  have v: "gf_of ?v = start_matrix point i j" using Suc.prems(3) by (simp add: start_matrix_def gf_of_simps)
  obtain m1 where m1: "byte_set mt (i * n + j) ?v = Some m1" "is_mat N n m1 (upd A i j (start_matrix point i j))"
    using is_mat_set [OF Suc.prems(1) i j, of ?v] unfolding v by blast
  have a: "i \<noteq> 0 \<longrightarrow> gf_of ?acc = point i ^ Suc (Suc j)" using Suc.prems(3) by simp
  have "Suc j + k \<le> n" using Suc.prems(2) by simp
  from Suc.IH [OF m1(2) this a] obtain mt' where mt': "vm_row t n i [Suc j..<Suc j + k] ?acc m1 = Some mt'"
    "is_mat N n mt' (\<lambda>a b. if a = i \<and> Suc j \<le> b \<and> b < Suc j + k then start_matrix point i b
      else upd A i j (start_matrix point i j) a b)" by blast
  have "[j..<j + Suc k] = j # [Suc j..<Suc j + k]" by (simp add: upt_rec)
  then have "vm_row t n i [j..<j + Suc k] acc mt = Some mt'"
    using mt'(1) m1(1) by (cases "i = 0"; cases "j = 0") (simp_all add: gf_mult_gf [OF t])
  moreover have "is_mat N n mt' (\<lambda>a b. if a = i \<and> j \<le> b \<and> b < j + Suc k then start_matrix point i b else A a b)"
    using mt'(2) by (rule is_mat_cong) (auto simp: upd_def)
  ultimately show ?case by blast
qed

lemma vm_rows_ok:
  assumes t: "tables_ok t" and m: "is_mat N n mt A"
  shows "\<exists>mt'. vm_rows t n N mt = Some mt' \<and> is_mat N n mt' (start_matrix point)"
proof -
  let ?F = "\<lambda>k A x y. if x = k then (\<lambda>k row. start_matrix point k) k (A k) y else A x y"
  have "\<exists>mt'. vm_row t n k [0..<n] (of_nat k) mt = Some mt' \<and> is_mat N n mt' (?F k A)"
    if k: "k < N" and m: "is_mat N n mt A" for k mt A
  proof -
    have "k \<noteq> 0 \<longrightarrow> point k = point k ^ Suc 0" by simp
    from vm_row_ok [OF t k m _ this, of n] obtain mt' where "vm_row t n k [0..<n] (of_nat k) mt = Some mt'"
      "is_mat N n mt' (\<lambda>a b. if a = k \<and> 0 \<le> b \<and> b < 0 + n then start_matrix point k b else A a b)" by auto
    then show ?thesis by (intro exI [of _ mt'] conjI) (auto elim!: is_mat_cong)
  qed
  then obtain mt' where mt': "vm_rows t n N mt = Some mt'" "is_mat N n mt' (fold ?F [0..<N] A)"
    using for_bytes_mat [of "[0..<N]" N n "\<lambda>k mt. vm_row t n k [0..<n] (of_nat k) mt" ?F mt A] m
    unfolding vm_rows_def by auto
  have "fold ?F [0..<N] A a b = start_matrix point a b" if "a < N" for a b
    using fold_rows [of "[0..<N]" "\<lambda>k row. start_matrix point k" A a b] that by simp
  with mt' is_mat_cong show ?thesis by blast
qed

lemma unat_point: "i < 256 \<Longrightarrow> unat (of_nat i :: u8) = i"
  by (simp add: unsigned_of_nat take_bit_nat_eq_self_iff)

lemma point_inj: "N \<le> 256 \<Longrightarrow> inj_on point {..<N}"
proof (rule inj_onI)
  fix i j assume "N \<le> 256" and ij: "i \<in> {..<N}" "j \<in> {..<N}" and "point i = point j"
  then have "unat (of_nat i :: u8) = unat (of_nat j :: u8)" by simp
  moreover have "i < 256" "j < 256" using ij \<open>N \<le> 256\<close> by auto
  ultimately show "i = j" by (metis unat_point)
qed

lemma calloc_ok: "\<forall>k. alloc k \<noteq> None \<Longrightarrow> calloc alloc k = Some (replicate k 0)"
  unfolding calloc_def by (metis Option.bind.bind_lunit option.exhaust_sel)

text \<open>What \<open>rs_create\<close> returns: the identity on top, and every choice of \<open>n\<close> rows regular.\<close>

definition code_matrix :: "nat \<Rightarrow> nat \<Rightarrow> rs_matrix \<Rightarrow> (nat \<Rightarrow> nat \<Rightarrow> gf) \<Rightarrow> bool" where
  "code_matrix n m mat M \<longleftrightarrow> unat (rs_data mat) = n \<and> unat (rs_cs mat) = m \<and>
     is_mat (n + m) n (rs_m mat) M \<and> mds n (n + m) M \<and> unit_rows n n M"

lemma rs_create_ok:
  assumes t: "tables_ok t" and al: "\<forall>k. alloc k \<noteq> None" and s: "1 < n" "0 < m" "n + m < 255"
  obtains mat M where "rs_create t alloc (int n) (int m) = Some mat" "code_matrix n m mat M"
proof -
  let ?N = "n + m"
  have c: "calloc alloc (?N * n) = Some (replicate (?N * n) 0)" by (rule calloc_ok [OF al])
  obtain m1 where m1: "vm_rows t n ?N (replicate (?N * n) 0) = Some m1" "is_mat ?N n m1 (start_matrix point)"
    using vm_rows_ok [OF t is_mat_calloc [of ?N n]] by auto
  have "inj_on point {..<?N}" using point_inj s(3) by simp
  then have "mds n ?N (start_matrix point)" by (rule mds_start) (simp add: gf_of_simps)
  with m1(2) have "cols_inv ?N n 0 m1 (start_matrix point)" by (simp add: cols_inv_def unit_rows_def)
  from reduce_cols_ok [OF t _ this, of n] obtain m2 M where
    m2: "for_bytes (reduce_col t n ?N) [0..<n] m1 = Some m2" "cols_inv ?N n n m2 M" by auto
  have u: "unat (of_nat n :: u8) = n" "unat (of_nat m :: u8) = m"
    using s by (simp_all add: unsigned_of_nat take_bit_nat_eq_self_iff)
  have "rs_create t alloc (int n) (int m) = Some \<lparr>rs_data = of_nat n, rs_cs = of_nat m, rs_m = m2\<rparr>"
    using s c m1(1) m2(1) by (simp add: rs_create_def Let_def)
  moreover have "code_matrix n m \<lparr>rs_data = of_nat n, rs_cs = of_nat m, rs_m = m2\<rparr> M"
    using u m2(2) by (simp add: code_matrix_def cols_inv_def)
  ultimately show thesis by (rule that)
qed

section \<open>\<open>rs_apply\<close>\<close>

lemma for_bytes_append:
  "for_bytes f (ks @ ls) mt = do { mt \<leftarrow> for_bytes f ks mt; for_bytes f ls mt }"
proof (induction ks arbitrary: mt)
  case (Cons k ks)
  then show ?case by (cases "f k mt") simp_all
qed simp

lemma for_bytes_pointwise:
  assumes "\<And>j out. j < c \<Longrightarrow> length out = c \<Longrightarrow> f j out = Some (out[j := h j (out ! j)])"
    and "length out = c" and "k \<le> c"
  shows "for_bytes f [0..<k] out = Some (map (\<lambda>j. if j < k then h j (out ! j) else out ! j) [0..<c])"
  using assms(3)
proof (induction k)
  case 0
  then show ?case using assms(2) map_nth [of out] by simp
next
  case (Suc k)
  let ?w = "map (\<lambda>j. if j < k then h j (out ! j) else out ! j) [0..<c]"
  have "?w[k := h k (?w ! k)] = map (\<lambda>j. if j < Suc k then h j (out ! j) else out ! j) [0..<c]"
    using Suc.prems by (intro nth_equalityI) (auto simp: nth_list_update less_Suc_eq)
  then show ?case using Suc assms(1) [of k ?w] by (simp add: for_bytes_append)
qed

lemma rs_apply_ok:
  assumes t: "tables_ok t" and len: "length out = c" "n \<le> length inb" "offset + c * n \<le> length m"
    and A: "\<And>j i. j < c \<Longrightarrow> i < n \<Longrightarrow> gf_of (m ! (offset + j * n + i)) = A j i"
  shows "rs_apply t m offset n inb c out =
    Some (map (\<lambda>j. byte_of (mv n A (\<lambda>i. gf_of (inb ! i)) j)) [0..<c])"
proof -
  let ?x = "\<lambda>i. gf_of (inb ! i)"
  define body where "body i j out = do {
         x \<leftarrow> byte_at out j;
         c \<leftarrow> byte_at m (offset + j * n + i);
         y \<leftarrow> byte_at inb i;
         p \<leftarrow> gf_mult t c y;
         byte_set out j (gf_add x p) }" for i j :: nat and out
  have cell: "offset + j * n + i < length m" if "j < c" "i < n" for i j
    using cell_less [OF that] len(3) by simp
  have b: "body i j out = Some (out[j := byte_of (gf_of (out ! j) + A j i * ?x i)])"
    if "i < n" "j < c" "length out = c" for i j out
    using that len(2) cell [OF that(2,1)] A [OF that(2,1)] by (simp add: body_def gf_mult_gf [OF t] gf_add_gf)
  have turn: "for_bytes (body i) [0..<c] (map (\<lambda>j. byte_of (v j)) [0..<c]) =
      Some (map (\<lambda>j. byte_of (v j + A j i * ?x i)) [0..<c])" if i: "i < n" for i v
    using for_bytes_pointwise [where f = "body i" and h = "\<lambda>j w. byte_of (gf_of w + A j i * ?x i)"
        and c = c and out = "map (\<lambda>j. byte_of (v j)) [0..<c]" and k = c, OF b [OF i]] by simp
  have "for_bytes (\<lambda>i. for_bytes (body i) [0..<c]) [0..<k] (replicate c 0) =
      Some (map (\<lambda>j. byte_of (\<Sum>i < k. A j i * ?x i)) [0..<c])" if "k \<le> n" for k
    using that
  proof (induction k)
    case 0
    have "byte_of 0 = 0" by simp
    then show ?case by (simp add: map_replicate_const)
  next
    case (Suc k)
    then show ?case using turn [of k "\<lambda>j. \<Sum>i < k. A j i * ?x i"] by (simp add: for_bytes_append)
  qed
  from this [of n] show ?thesis
    using len(1) by (simp add: rs_apply_def memset_Some mv_def flip: body_def)
qed

text \<open>The code word of some data: the data and the checksums.\<close>

lemma rs_apply_checksum_ok:
  assumes t: "tables_ok t" and M: "code_matrix n m mat M" and len: "length xs = n" "length out = m"
  obtains cs where "rs_apply_checksum t mat xs out = Some cs" "length cs = m"
    "\<And>i. i < n + m \<Longrightarrow> gf_of ((xs @ cs) ! i) = mv n M (\<lambda>j. gf_of (xs ! j)) i"
proof -
  let ?x = "\<lambda>j. gf_of (xs ! j)"
  have d: "unat (rs_data mat) = n" "unat (rs_cs mat) = m" "length (rs_m mat) = (n + m) * n"
    and cells: "\<And>a b. a < n + m \<Longrightarrow> b < n \<Longrightarrow> gf_of (rs_m mat ! (a * n + b)) = M a b"
    and u: "unit_rows n n M"
    using M by (simp_all add: code_matrix_def is_mat_def)
  let ?cs = "map (\<lambda>j. byte_of (mv n (\<lambda>j. M (n + j)) ?x j)) [0..<m]"
  have "rs_apply t (rs_m mat) (n * n) n xs m out = Some ?cs"
  proof (rule rs_apply_ok [OF t len(2)])
    show "n * n + m * n \<le> length (rs_m mat)" by (simp add: d(3) algebra_simps)
    show "gf_of (rs_m mat ! (n * n + j * n + i)) = M (n + j) i" if "j < m" "i < n" for j i
      using cells [of "n + j" i] that by (simp add: algebra_simps)
  qed (simp add: len(1))
  then have "rs_apply_checksum t mat xs out = Some ?cs" by (simp add: rs_apply_checksum_def d)
  moreover have "gf_of ((xs @ ?cs) ! i) = mv n M ?x i" if i: "i < n + m" for i
  proof (cases "i < n")
    case True
    have "mv n M ?x i = (\<Sum>j < n. if i = j then ?x j else 0)"
      unfolding mv_def using u True by (intro sum.cong) (auto simp: unit_rows_def)
    also have "\<dots> = ?x i" using True by simp
    finally show ?thesis using True len(1) by (simp add: nth_append)
  next
    case False
    then show ?thesis using i len(1) by (simp add: nth_append mv_def)
  qed
  ultimately show thesis by (intro that [of ?cs]) simp_all
qed

section \<open>Row operations\<close>

lemma for_both_split:
  "for_bytes f ks l = Some l' \<Longrightarrow> for_bytes f ks r = Some r' \<Longrightarrow> for_both f ks (l, r) = Some (l', r')"
proof (induction ks arbitrary: l r)
  case (Cons k ks)
  then obtain l1 r1 where "f k l = Some l1" "for_bytes f ks l1 = Some l'" "f k r = Some r1" "for_bytes f ks r1 = Some r'"
    by (auto split: bind_splits)
  with Cons.IH show ?case by simp
qed simp

lemma row_loop:
  assumes step: "\<And>k mt A. k < n \<Longrightarrow> is_mat N n mt A \<Longrightarrow> \<exists>mt'. f k mt = Some mt' \<and> is_mat N n mt' (F k A)"
    and F: "\<And>k A. F k A = (\<lambda>x y. if y = k then G k (\<lambda>i. A i k) x else A x y)"
    and m: "is_mat N n mt A" and B: "\<And>a b. a < N \<Longrightarrow> b < n \<Longrightarrow> G b (\<lambda>i. A i b) a = B a b"
  shows "\<exists>mt'. for_bytes f [0..<n] mt = Some mt' \<and> is_mat N n mt' B"
proof -
  obtain mt' where mt': "for_bytes f [0..<n] mt = Some mt'" "is_mat N n mt' (fold F [0..<n] A)"
    using for_bytes_mat [of "[0..<n]" N n f F mt A] step m by auto
  have "fold F [0..<n] A a b = B a b" if "a < N" "b < n" for a b
    using fold_cols [of "[0..<n]" G A a b] that B unfolding F by simp
  with mt' is_mat_cong show ?thesis by blast
qed

lemma swap_rows_mat:
  assumes m: "is_mat N n mt A" and "r < N" "f < N"
  shows "\<exists>mt'. for_bytes (\<lambda>i. swap_cells (r * n + i) (f * n + i)) [0..<n] mt = Some mt' \<and>
    is_mat N n mt' (row_swap r f A)"
proof (rule row_loop [OF _ _ m])
  show "\<exists>mt'. swap_cells (r * n + k) (f * n + k) mt = Some mt' \<and>
      is_mat N n mt' (upd (upd A r k (A f k)) f k (A r k))" if "k < n" "is_mat N n mt A" for k mt A
    by (rule swap_cells_mat [OF that(2) assms(2) that(1) assms(3) that(1)])
  show "upd (upd A r k (A f k)) f k (A r k) = (\<lambda>x y. if y = k then A (swap_at r f x) k else A x y)" for k A
    by (auto simp: upd_def swap_at_def fun_eq_iff)
qed (simp add: row_swap_def)

lemma scale_rows_mat:
  assumes t: "tables_ok t" and m: "is_mat N n mt A" and "r < N"
  shows "\<exists>mt'. for_bytes (\<lambda>i. scale_cell t c (r * n + i)) [0..<n] mt = Some mt' \<and>
    is_mat N n mt' (row_scale r (gf_of c) A)"
proof (rule row_loop [OF _ _ m])
  show "\<exists>mt'. scale_cell t c (r * n + k) mt = Some mt' \<and> is_mat N n mt' (upd A r k (gf_of c * A r k))"
    if "k < n" "is_mat N n mt A" for k mt A
    by (rule scale_cell_mat [OF t that(2) assms(3) that(1)])
  show "upd A r k (gf_of c * A r k) = (\<lambda>x y. if y = k then if x = r then gf_of c * A x k else A x k else A x y)" for k A
    by (auto simp: upd_def fun_eq_iff)
qed (simp add: row_scale_def)

lemma add_rows_mat:
  assumes t: "tables_ok t" and m: "is_mat N n mt A" and "q < N" "r < N"
  shows "\<exists>mt'. for_bytes (\<lambda>i. add_cell t c (q * n + i) (r * n + i)) [0..<n] mt = Some mt' \<and>
    is_mat N n mt' (row_add q r (gf_of c) A)"
proof (rule row_loop [OF _ _ m])
  show "\<exists>mt'. add_cell t c (q * n + k) (r * n + k) mt = Some mt' \<and>
      is_mat N n mt' (upd A q k (A q k + gf_of c * A r k))" if "k < n" "is_mat N n mt A" for k mt A
    by (rule add_cell_mat [OF t that(2) assms(3) that(1) assms(4) that(1)])
  show "upd A q k (A q k + gf_of c * A r k) =
      (\<lambda>x y. if y = k then if x = q then A x k + gf_of c * A r k else A x k else A x y)" for k A
    by (auto simp: upd_def fun_eq_iff)
qed (simp add: row_add_def)

text \<open>The invariant of the row elimination before row \<open>r\<close>: the right-hand side times the matrix of
  the survivors is the left-hand side.\<close>

definition rows_inv ::
  "nat \<Rightarrow> (nat \<Rightarrow> nat \<Rightarrow> gf) \<Rightarrow> nat \<Rightarrow> bytes \<times> bytes \<Rightarrow> (nat \<Rightarrow> nat \<Rightarrow> gf) \<Rightarrow> (nat \<Rightarrow> nat \<Rightarrow> gf) \<Rightarrow> bool" where
  "rows_inv n A0 r lr A B \<longleftrightarrow> is_mat n n (fst lr) A \<and> is_mat n n (snd lr) B \<and>
     regular n A \<and> unit_cols n r A \<and> product_is n B A0 A"

lemma rows_invD:
  assumes "rows_inv n A0 r lr A B"
  shows "is_mat n n (fst lr) A" "is_mat n n (snd lr) B" "regular n A" "unit_cols n r A" "product_is n B A0 A"
  using assms by (simp_all add: rows_inv_def)

lemma pivot_row_ok:
  assumes v: "rows_inv n A0 r lr A B" and r: "r < n"
  obtains lr' A' B' where "pivot_row n r lr = Some lr'" "rows_inv n A0 r lr' A' B'" "A' r r \<noteq> 0"
proof -
  note I = rows_invD [OF v]
  have d: "byte_at (fst lr) (r * (n + 1)) = Some (byte_of (A r r))"
    unfolding diag_cell by (rule is_mat_get [OF I(1) r r])
  show thesis
  proof (cases "A r r = 0")
    case False
    with d v show thesis by (intro that [of lr A B]) (simp_all add: pivot_row_def)
  next
    case True
    obtain s where s: "find_nonzero (\<lambda>i. i * n + r) [r + 1..<n] (fst lr) = Some s" "s = None \<Longrightarrow> \<forall>i \<in> set [r + 1..<n]. A i r = 0"
      "\<And>i. s = Some i \<Longrightarrow> i \<in> set [r + 1..<n] \<and> A i r \<noteq> 0"
      by (rule find_nonzero_mat [of "[r + 1..<n]" "fst lr" "\<lambda>i. i * n + r" "\<lambda>i. A i r"]) (use is_mat_get [OF I(1) _ r] in auto)
    obtain b where "r \<le> b" "b < n" "A b r \<noteq> 0" by (rule row_pivot [OF I(3,4) r])
    with True have "b \<in> set [r + 1..<n]" by (auto simp: le_less)
    with \<open>A b r \<noteq> 0\<close> s(2) obtain f where f: "s = Some f" by fastforce
    with s(3) have f': "r < f" "f < n" "A f r \<noteq> 0" by auto
    obtain l' where l': "for_bytes (\<lambda>i. swap_cells (r * n + i) (f * n + i)) [0..<n] (fst lr) = Some l'"
      "is_mat n n l' (row_swap r f A)" using swap_rows_mat [OF I(1) r f'(2)] by blast
    obtain r' where r': "for_bytes (\<lambda>i. swap_cells (r * n + i) (f * n + i)) [0..<n] (snd lr) = Some r'"
      "is_mat n n r' (row_swap r f B)" using swap_rows_mat [OF I(2) r f'(2)] by blast
    have "for_both (\<lambda>i. swap_cells (r * n + i) (f * n + i)) [0..<n] lr = Some (l', r')"
      using for_both_split [OF l'(1) r'(1)] by simp
    then have "pivot_row n r lr = Some (l', r')"
      using d True s(1) f by (simp add: pivot_row_def)
    moreover have "unit_cols n r (row_swap r f A)"
      using I(4) r f' by (auto simp: unit_cols_def row_swap_def swap_at_def)
    then have "rows_inv n A0 r (l', r') (row_swap r f A) (row_swap r f B)"
      using l'(2) r'(2) regular_row_swap [OF r f'(2) I(3)] product_row_swap [OF r f'(2) I(5)] by (simp add: rows_inv_def)
    moreover have "row_swap r f A r r \<noteq> 0" using f'(3) by (simp add: row_swap_def)
    ultimately show thesis by (rule that)
  qed
qed

lemma scale_row_ok:
  assumes t: "tables_ok t" and v: "rows_inv n A0 r lr A B" and r: "r < n" and p: "A r r \<noteq> 0"
  obtains lr' A' B' where "scale_row t n r lr = Some lr'" "rows_inv n A0 r lr' A' B'" "A' r r = 1"
proof -
  note I = rows_invD [OF v]
  have d: "byte_at (fst lr) (r * (n + 1)) = Some (byte_of (A r r))"
    unfolding diag_cell by (rule is_mat_get [OF I(1) r r])
  show thesis
  proof (cases "A r r = 1")
    case True
    then have "byte_of (A r r) = 1" by simp
    with d v p True show thesis by (intro that [of lr A B]) (simp_all add: scale_row_def)
  next
    case False
    let ?c = "byte_of (inverse (A r r))"
    have inv: "gf_div t 1 (byte_of (A r r)) = Some ?c" using gf_inverse_gf [OF t, of "byte_of (A r r)"] p by simp
    obtain l' where l': "for_bytes (\<lambda>i. scale_cell t ?c (r * n + i)) [0..<n] (fst lr) = Some l'"
      "is_mat n n l' (row_scale r (inverse (A r r)) A)" using scale_rows_mat [OF t I(1) r, of ?c] by auto
    obtain r' where r': "for_bytes (\<lambda>i. scale_cell t ?c (r * n + i)) [0..<n] (snd lr) = Some r'"
      "is_mat n n r' (row_scale r (inverse (A r r)) B)" using scale_rows_mat [OF t I(2) r, of ?c] by auto
    have b: "for_both (\<lambda>i. scale_cell t ?c (r * n + i)) [0..<n] lr = Some (l', r')"
      using for_both_split [OF l'(1) r'(1)] by simp
    have q: "row_scale r (inverse (A r r)) A r r = 1" using p by (simp add: row_scale_def)
    have d': "byte_at l' (r * (n + 1)) = Some 1"
      unfolding diag_cell using is_mat_get [OF l'(2) r r] unfolding q by (metis byte_of_eq(2))
    have "scale_row t n r lr = Some (l', r')"
      using d False p inv b d' by (simp add: scale_row_def)
    moreover have "unit_cols n r (row_scale r (inverse (A r r)) A)"
      using I(4) r by (auto simp: unit_cols_def row_scale_def)
    then have "rows_inv n A0 r (l', r') (row_scale r (inverse (A r r)) A) (row_scale r (inverse (A r r)) B)"
      using l'(2) r'(2) regular_row_scale [OF _ I(3)] product_row_scale [OF I(5)] p by (simp add: rows_inv_def)
    ultimately show thesis using q by (rule that)
  qed
qed

lemma clear_rows_ok:
  assumes t: "tables_ok t" and r: "r < n"
  shows "rows_inv n A0 r lr A B \<Longrightarrow> A r r = 1 \<Longrightarrow> \<forall>q \<in> set qs. q < n \<Longrightarrow>
    \<exists>lr' A' B'. clear_rows t n r qs lr = Some lr' \<and> rows_inv n A0 r lr' A' B' \<and> A' r r = 1 \<and>
      (\<forall>q < n. q \<noteq> r \<longrightarrow> A' q r = (if q \<in> set qs then 0 else A q r))"
proof (induction qs arbitrary: lr A B)
  case Nil
  then show ?case by auto
next
  case (Cons q qs)
  note I = rows_invD [OF Cons.prems(1)]
  have q: "q < n" using Cons.prems(3) by simp
  have val: "byte_at (fst lr) (q * n + r) = Some (byte_of (A q r))" by (rule is_mat_get [OF I(1) q r])
  show ?case
  proof (cases "q = r \<or> A q r = 0")
    case True
    obtain lr' A' B' where "clear_rows t n r qs lr = Some lr'" "rows_inv n A0 r lr' A' B'" "A' r r = 1"
      "\<forall>q < n. q \<noteq> r \<longrightarrow> A' q r = (if q \<in> set qs then 0 else A q r)"
      using Cons.IH [OF Cons.prems(1,2)] Cons.prems(3) by auto
    then show ?thesis using True val by (intro exI [of _ lr'] exI [of _ A'] exI [of _ B']) auto
  next
    case False
    let ?f = "\<lambda>i. add_cell t (byte_of (A q r)) (q * n + i) (r * n + i)"
    let ?A = "row_add q r (A q r) A" and ?B = "row_add q r (A q r) B"
    obtain l' where l': "for_bytes ?f [0..<n] (fst lr) = Some l'" "is_mat n n l' ?A"
      using add_rows_mat [OF t I(1) q r, of "byte_of (A q r)"] by auto
    obtain r' where r': "for_bytes ?f [0..<n] (snd lr) = Some r'" "is_mat n n r' ?B"
      using add_rows_mat [OF t I(2) q r, of "byte_of (A q r)"] by auto
    have b: "for_both ?f [0..<n] lr = Some (l', r')" using for_both_split [OF l'(1) r'(1)] by simp
    have col: "?A i r = (if i = q then 0 else A i r)" for i using Cons.prems(2) by (simp add: row_add_def)
    have z: "byte_at l' (q * n + r) = Some 0"
      using is_mat_get [OF l'(2) q r] col byte_of_eq(1) [of 0] by simp
    have "unit_cols n r ?A" using I(4) r by (auto simp: unit_cols_def row_add_def)
    then have v1: "rows_inv n A0 r (l', r') ?A ?B"
      using l'(2) r'(2) regular_row_add [OF r _ I(3)] product_row_add [OF r I(5)] False by (simp add: rows_inv_def)
    have p1: "?A r r = 1" using col False Cons.prems(2) by simp
    obtain lr' A' B' where "clear_rows t n r qs (l', r') = Some lr'" "rows_inv n A0 r lr' A' B'" "A' r r = 1"
      "\<forall>i < n. i \<noteq> r \<longrightarrow> A' i r = (if i \<in> set qs then 0 else ?A i r)"
      using Cons.IH [OF v1 p1] Cons.prems(3) by auto
    then show ?thesis using False val b z col by (intro exI [of _ lr'] exI [of _ A'] exI [of _ B']) auto
  qed
qed

lemma reduce_rows_ok:
  assumes t: "tables_ok t" and "rows_inv n A0 r lr A B" and "r + k \<le> n"
  shows "\<exists>lr' A' B'. reduce_rows t n [r..<r + k] lr = Some lr' \<and> rows_inv n A0 (r + k) lr' A' B'"
  using assms(2,3)
proof (induction k arbitrary: r lr A B)
  case (Suc k)
  have r: "r < n" using Suc.prems(2) by simp
  obtain l1 A1 B1 where 1: "pivot_row n r lr = Some l1" "rows_inv n A0 r l1 A1 B1" "A1 r r \<noteq> 0"
    by (rule pivot_row_ok [OF Suc.prems(1) r])
  obtain l2 A2 B2 where 2: "scale_row t n r l1 = Some l2" "rows_inv n A0 r l2 A2 B2" "A2 r r = 1"
    by (rule scale_row_ok [OF t 1(2) r 1(3)])
  obtain l3 A3 B3 where 3: "clear_rows t n r [0..<n] l2 = Some l3" "rows_inv n A0 r l3 A3 B3" "A3 r r = 1"
    "\<forall>q < n. q \<noteq> r \<longrightarrow> A3 q r = (if q \<in> set [0..<n] then 0 else A2 q r)"
    using clear_rows_ok [OF t r 2(2,3), of "[0..<n]"] by auto
  have "unit_cols n (Suc r) A3" using 3(2,3,4) by (auto simp: rows_inv_def unit_cols_def less_Suc_eq)
  then have "rows_inv n A0 (Suc r) l3 A3 B3" using 3(2) by (simp add: rows_inv_def)
  moreover have "Suc r + k \<le> n" using Suc.prems(2) by simp
  ultimately obtain lr' A' B' where 4: "reduce_rows t n [Suc r..<Suc r + k] l3 = Some lr'" "rows_inv n A0 (Suc r + k) lr' A' B'"
    using Suc.IH by blast
  have "[r..<r + Suc k] = r # [Suc r..<Suc r + k]" by (simp add: upt_rec)
  then have "reduce_rows t n [r..<r + Suc k] lr = Some lr'"
    by (simp only: reduce_rows.simps 1(1) 2(1) 3(1) 4(1) Option.bind.bind_lunit)
  with 4(2) show ?case by auto
qed auto

section \<open>\<open>rs_create_reversal\<close>\<close>

lemma identity_ok:
  "\<exists>rhs. for_bytes (\<lambda>i rhs. byte_set rhs (i * (n + 1)) 1) [0..<n] (replicate (n * n) 0) = Some rhs \<and>
    is_mat n n rhs (\<lambda>a b. if a = b then 1 else 0)"
proof -
  let ?F = "\<lambda>k A x y. if x = k then (\<lambda>k row y. if y = k then 1 else row y) k (A k) y else A x y"
  have "\<exists>mt'. byte_set mt (k * (n + 1)) 1 = Some mt' \<and> is_mat n n mt' (?F k A)"
    if "k < n" "is_mat n n mt A" for k mt A
  proof -
    have "upd A k k 1 = ?F k A" by (auto simp: upd_def fun_eq_iff)
    with is_mat_set [OF that(2,1,1), of 1] show ?thesis unfolding diag_cell by (simp add: gf_of_simps)
  qed
  then have "\<exists>rhs. for_bytes (\<lambda>i rhs. byte_set rhs (i * (n + 1)) 1) [0..<n] (replicate (n * n) 0) = Some rhs \<and>
    is_mat n n rhs (fold ?F [0..<n] (\<lambda>a b. 0))"
    by (intro for_bytes_mat [of "[0..<n]" n n "\<lambda>i rhs. byte_set rhs (i * (n + 1)) 1" ?F] is_mat_calloc)
      (simp_all del: mult_Suc_right add_mult_distrib2)
  then obtain rhs where rhs: "for_bytes (\<lambda>i rhs. byte_set rhs (i * (n + 1)) 1) [0..<n] (replicate (n * n) 0) = Some rhs"
    "is_mat n n rhs (fold ?F [0..<n] (\<lambda>a b. 0))" by blast
  have "fold ?F [0..<n] (\<lambda>a b. 0) a b = (if a = b then 1 else 0)" if "a < n" for a b
    using fold_rows [of "[0..<n]" "\<lambda>k row y. if y = k then 1 else row y" "\<lambda>a b. 0" a b] that by auto
  then have "is_mat n n rhs (\<lambda>a b. if a = b then 1 else 0)" by (intro is_mat_cong [OF rhs(2)])
  with rhs(1) show ?thesis by blast
qed

lemma copy_row_ok:
  assumes old: "is_mat N n old_m M" and m: "is_mat n n lhs A" and "i < N" "cur < n"
  shows "\<exists>lhs'. for_bytes (\<lambda>j lhs. do { v \<leftarrow> byte_at old_m (i * n + j); byte_set lhs (cur * n + j) v }) [0..<n] lhs = Some lhs' \<and>
    is_mat n n lhs' (\<lambda>a b. if a = cur then M i b else A a b)"
proof (rule row_loop [OF _ _ m])
  show "\<exists>mt'. (do { v \<leftarrow> byte_at old_m (i * n + k); byte_set mt (cur * n + k) v }) = Some mt' \<and>
      is_mat n n mt' (upd A cur k (M i k))" if "k < n" "is_mat n n mt A" for k mt A
    using is_mat_get [OF old assms(3) that(1)] is_mat_set [OF that(2) assms(4) that(1), of "byte_of (M i k)"] by simp
  show "upd A cur k (M i k) = (\<lambda>x y. if y = k then (\<lambda>b col a. if a = cur then M i b else col a) k (\<lambda>i. A i k) x else A x y)" for k A
    by (auto simp: upd_def fun_eq_iff)
qed simp

lemma live_rows_ok:
  assumes old: "is_mat N n old_m M"
  shows "is_mat n n lhs A \<Longrightarrow> \<forall>i \<in> set is. i < N \<and> i < length ex \<Longrightarrow>
    cur + length (filter (\<lambda>i. ex ! i \<noteq> 0) is) \<le> n \<Longrightarrow>
    \<exists>lhs'. live_rows old_m ex n is cur lhs = Some (cur + length (filter (\<lambda>i. ex ! i \<noteq> 0) is), lhs') \<and>
      is_mat n n lhs' (\<lambda>a b. if cur \<le> a \<and> a < cur + length (filter (\<lambda>i. ex ! i \<noteq> 0) is)
        then M (filter (\<lambda>i. ex ! i \<noteq> 0) is ! (a - cur)) b else A a b)"
proof (induction "is" arbitrary: cur lhs A)
  case Nil
  then show ?case by (auto elim!: is_mat_cong)
next
  case (Cons i "is")
  let ?l = "filter (\<lambda>i. ex ! i \<noteq> 0) is"
  have i: "i < N" "byte_at ex i = Some (ex ! i)" using Cons.prems(2) by simp_all
  show ?case
  proof (cases "ex ! i = 0")
    case True
    then have l: "filter (\<lambda>i. ex ! i \<noteq> 0) (i # is) = ?l" by simp
    show ?thesis unfolding l using Cons.IH [OF Cons.prems(1)] Cons.prems(2,3) i True by simp
  next
    case False
    have c: "cur < n" "Suc cur + length ?l \<le> n" using Cons.prems(3) False by simp_all
    obtain l1 where l1: "for_bytes (\<lambda>j lhs. do { v \<leftarrow> byte_at old_m (i * n + j); byte_set lhs (cur * n + j) v }) [0..<n] lhs = Some l1"
      "is_mat n n l1 (\<lambda>a b. if a = cur then M i b else A a b)"
      using copy_row_ok [OF old Cons.prems(1) i(1) c(1)] by blast
    obtain l2 where l2: "live_rows old_m ex n is (Suc cur) l1 = Some (Suc cur + length ?l, l2)"
      "is_mat n n l2 (\<lambda>a b. if Suc cur \<le> a \<and> a < Suc cur + length ?l then M (?l ! (a - Suc cur)) b
        else if a = cur then M i b else A a b)"
      using Cons.IH [OF l1(2) _ c(2)] Cons.prems(2) by auto
    have "is_mat n n l2 (\<lambda>a b. if cur \<le> a \<and> a < cur + length (i # ?l) then M ((i # ?l) ! (a - cur)) b else A a b)"
      using l2(2) by (rule is_mat_cong) (auto simp: nth_Cons')
    moreover have l: "filter (\<lambda>i. ex ! i \<noteq> 0) (i # is) = i # ?l" using False by simp
    ultimately show ?thesis unfolding l using False i(2) c(1) l1(1) l2(1) by simp
  qed
qed

lemma rs_create_reversal_ok:
  assumes t: "tables_ok t" and al: "\<forall>k. alloc k \<noteq> None" and M: "code_matrix n m mat M"
    and ex: "n + m \<le> length ex" "length (filter (\<lambda>i. ex ! i \<noteq> 0) [0..<n + m]) = n"
  obtains rev B where "rs_create_reversal t alloc mat ex = Some rev" "unat (rs_data rev) = n"
    "is_mat n n (rs_m rev) B"
    "\<And>x i. i < n \<Longrightarrow> mv n B (mv n (\<lambda>i. M (filter (\<lambda>i. ex ! i \<noteq> 0) [0..<n + m] ! i)) x) i = x i"
proof -
  let ?l = "filter (\<lambda>i. ex ! i \<noteq> 0) [0..<n + m]"
  let ?A = "\<lambda>a. M (?l ! a)"
  have d: "unat (rs_data mat) = n" "unat (rs_cs mat) = m" "is_mat (n + m) n (rs_m mat) M" "mds n (n + m) M"
    using M by (simp_all add: code_matrix_def)
  obtain rhs where rhs: "for_bytes (\<lambda>i rhs. byte_set rhs (i * (n + 1)) 1) [0..<n] (replicate (n * n) 0) = Some rhs"
    "is_mat n n rhs (\<lambda>a b. if a = b then 1 else 0)" using identity_ok by blast
  obtain lhs where lhs: "live_rows (rs_m mat) ex n [0..<n + m] 0 (replicate (n * n) 0) = Some (n, lhs)"
    "is_mat n n lhs (\<lambda>a b. if a < n then M (?l ! (a - 0)) b else 0)"
    using live_rows_ok [OF d(3) is_mat_calloc, of "[0..<n + m]" ex 0] ex by auto
  have lA: "is_mat n n lhs ?A" using lhs(2) by (rule is_mat_cong) simp
  have "distinct ?l" by simp
  then have "inj_on ((!) ?l) {..<n}" using ex(2) inj_on_nth [of ?l "{..<n}"] by simp
  moreover have "(!) ?l ` {..<n} \<subseteq> {..<n + m}"
  proof
    fix a assume "a \<in> (!) ?l ` {..<n}"
    then have "a \<in> set ?l" using ex(2) nth_mem [of _ ?l] by auto
    then show "a \<in> {..<n + m}" by simp
  qed
  ultimately have "regular n ?A" using d(4) unfolding mds_def by blast
  moreover have "product_is n (\<lambda>a b. if a = b then 1 else 0) ?A ?A"
    unfolding product_is_def
  proof (intro allI impI)
    fix i j assume "i < n"
    have "(\<Sum>k < n. (if i = k then 1 else 0) * ?A k j) = (\<Sum>k < n. if i = k then ?A k j else 0)"
      by (intro sum.cong) auto
    then show "(\<Sum>k < n. (if i = k then 1 else 0) * ?A k j) = ?A i j" using \<open>i < n\<close> by simp
  qed
  ultimately have "rows_inv n ?A 0 (lhs, rhs) ?A (\<lambda>a b. if a = b then 1 else 0)"
    using lA rhs(2) by (simp add: rows_inv_def unit_cols_def)
  from reduce_rows_ok [OF t this, of n] obtain l' r' A' B' where
    lr: "reduce_rows t n [0..<n] (lhs, rhs) = Some (l', r')" "rows_inv n ?A n (l', r') A' B'" by auto
  have u: "unat (of_nat n :: u8) = n" using d(1) by (metis unat_point unat_u8_bound)
  have "rs_create_reversal t alloc mat ex = Some \<lparr>rs_data = of_nat n, rs_cs = of_nat m, rs_m = r'\<rparr>"
    using d(1,2) calloc_ok [OF al] rhs(1) lhs(1) lr(1) by (simp add: rs_create_reversal_def Let_def)
  moreover have "mv n B' (mv n ?A x) i = x i" if "i < n" for x i
    using lr(2) that by (intro product_identity_solves [of n B' ?A A']) (simp_all add: rows_inv_def)
  moreover have "is_mat n n r' B'" using lr(2) by (simp add: rows_inv_def)
  ultimately show thesis using u that by (metis rs_matrix.select_convs(1,3))
qed

section \<open>Properties\<close>

lemma gf_static_lengths: "length (gf_log gf_static) = 256" "length (gf_ilog gf_static) = 256"
  by (simp_all add: gf_static_def)

text \<open>C5: Any \<open>n\<close> of the \<open>n + m\<close> symbols give the data back. For all sizes that \<open>rs_create\<close>
  accepts, all data and all choices of survivors: the matrix is built, the checksums are
  computed, the reversal matrix of the survivors exists (no assertion fails, a pivot is always
  found), and applying it to the surviving symbols returns the data.\<close>
theorem rs_recovers_data:
  assumes "gf_initialize gf_static = Some t" and "\<forall>k. alloc k \<noteq> None"
    and "1 < n" and "0 < m" and "n + m < 255"
    and "length xs = n" and "length cs_buf = m" and "length out = n"
    and "n + m \<le> length ex" and "length (filter (\<lambda>i. ex ! i \<noteq> 0) [0..<n + m]) = n"
  shows "\<exists>mat cs rev. rs_create t alloc (int n) (int m) = Some mat \<and>
    rs_apply_checksum t mat xs cs_buf = Some cs \<and>
    rs_create_reversal t alloc mat ex = Some rev \<and>
    rs_apply_reversal t rev (map (\<lambda>i. (xs @ cs) ! i) (filter (\<lambda>i. ex ! i \<noteq> 0) [0..<n + m])) out = Some xs"
proof -
  let ?l = "filter (\<lambda>i. ex ! i \<noteq> 0) [0..<n + m]" and ?x = "\<lambda>j. gf_of (xs ! j)"
  have t: "tables_ok t" using assms(1) by (metis gf_initialize_ok gf_static_lengths option.inject)
  obtain mat M where mat: "rs_create t alloc (int n) (int m) = Some mat" "code_matrix n m mat M"
    by (rule rs_create_ok [OF t assms(2-5)])
  obtain cs where cs: "rs_apply_checksum t mat xs cs_buf = Some cs" "length cs = m"
    "\<And>i. i < n + m \<Longrightarrow> gf_of ((xs @ cs) ! i) = mv n M ?x i"
    using rs_apply_checksum_ok [OF t mat(2) assms(6,7)] by blast
  obtain rev B where rev: "rs_create_reversal t alloc mat ex = Some rev" "unat (rs_data rev) = n"
    "is_mat n n (rs_m rev) B" "\<And>x i. i < n \<Longrightarrow> mv n B (mv n (\<lambda>i. M (?l ! i)) x) i = x i"
    using rs_create_reversal_ok [OF t assms(2) mat(2) assms(9,10)] by blast
  let ?in = "map (\<lambda>i. (xs @ cs) ! i) ?l"
  have sym: "gf_of (?in ! i) = mv n (\<lambda>i. M (?l ! i)) ?x i" if i: "i < n" for i
  proof -
    have "?l ! i \<in> set ?l" using i assms(10) by (intro nth_mem) simp
    then have "?l ! i < n + m" by simp
    from cs(3) [OF this] show ?thesis using i assms(10) by (simp add: mv_def)
  qed
  have "rs_apply t (rs_m rev) 0 n ?in n out = Some (map (\<lambda>j. byte_of (mv n B (\<lambda>i. gf_of (?in ! i)) j)) [0..<n])"
    by (rule rs_apply_ok [OF t assms(8)]) (use rev(3) assms(10) in \<open>simp_all add: is_mat_def\<close>)
  moreover have "mv n B (\<lambda>i. gf_of (?in ! i)) j = ?x j" if "j < n" for j
  proof -
    have "mv n B (\<lambda>i. gf_of (?in ! i)) j = mv n B (mv n (\<lambda>i. M (?l ! i)) ?x) j"
      unfolding mv_def [of n B] by (intro sum.cong) (simp_all add: sym del: nth_map)
    with rev(4) [OF that] show ?thesis by simp
  qed
  ultimately have "rs_apply_reversal t rev ?in out = Some (map (\<lambda>j. xs ! j) [0..<n])"
    unfolding rs_apply_reversal_def rev(2) by (simp cong: map_cong del: nth_map)
  then have "rs_apply_reversal t rev ?in out = Some xs" using assms(6) map_nth [of xs] by simp
  with mat(1) cs(1) rev(1) show ?thesis by blast
qed

lemma rs_recovers_data_witness:
  "\<exists>t mat cs rev. gf_initialize gf_static = Some t \<and> rs_create t (\<lambda>k. Some (replicate k 0)) 2 1 = Some mat \<and>
    rs_apply_checksum t mat [7, 9] [0] = Some cs \<and>
    rs_create_reversal t (\<lambda>k. Some (replicate k 0)) mat [0, 1, 1] = Some rev \<and>
    rs_apply_reversal t rev (map (\<lambda>i. ([7, 9] @ cs) ! i) (filter (\<lambda>i. [0, 1, 1 :: u8] ! i \<noteq> 0) [0..<3])) [0, 0] =
      Some [7, 9]"
proof -
  obtain t where t: "gf_initialize gf_static = Some t"
    using gf_initialize_ok [of gf_static] by (metis gf_static_lengths)
  have live: "length (filter (\<lambda>i. [0, 1, 1 :: u8] ! i \<noteq> 0) [0..<2 + 1]) = 2" by (simp add: upt_rec nth_Cons')
  show ?thesis
    using rs_recovers_data [of t "\<lambda>k. Some (replicate k 0)" 2 1 "[7, 9]" "[0]" "[0, 0]" "[0, 1, 1]", OF t _ _ _ _ _ _ _ _ live] t
    by simp
qed

end
