(* ===== verification/BlockCache.thy ===== *)
theory BlockCache
  imports BaseIO Bitvector
begin

text \<open>
  \<open>src/src/block-cache.c\<close>: a direct-mapped write-back cache of the blocks of a device. A block
  can be in one slot only, chosen by a hash of its number; \<open>indexes\<close> holds the number of the
  block in each slot (all ones for an empty slot) and \<open>dirty\<close> one bit per slot.

  The pointer that \<open>bcache_read_block\<close> returns is an offset into the data of the cache, and
  the caller may change the block in place before it calls \<open>bcache_write_block\<close> with the same
  pointer. Proved for that use, over a reliable device: the view through the cache is not changed
  by eviction, reads, flushing and clearing, a write changes one block of it, and after a
  flush the device below holds the view. A write of a block that is not in the cache is a
  different matter: its number is never recorded, and the next eviction of the slot dies.
\<close>

unbundle bit_operations_syntax

section \<open>The operations\<close>

record bcache =
  bc_size :: u32
  bc_data :: bytes
  bc_indexes :: "u64 list"
  bc_dirty :: bytes

type_synonym 's cached = "bcache \<times> 's"

definition hash_u64 :: "u64 \<Rightarrow> u32" where
  "hash_u64 key =
    (let key = NOT key + push_bit 18 key;
         key = key XOR drop_bit 31 key;
         key = key * 21;
         key = key XOR drop_bit 11 key;
         key = key + push_bit 6 key;
         key = key XOR drop_bit 22 key
     in ucast key)"

definition index_set :: "u64 list \<Rightarrow> nat \<Rightarrow> u64 \<Rightarrow> u64 list run" where
  "index_set xs i v = (if i < length xs then Some (xs[i := v]) else None)"

text \<open>\<open>hash_u64(which) % bc->size\<close> and \<open>hv*bc->base->block_size\<close>. The source of a write is
  a pointer into the cache or memory of the caller.\<close>

definition bcache_slot :: "bcache \<Rightarrow> u64 \<Rightarrow> u32 run" where
  "bcache_slot bc which = (if bc_size bc = 0 then None else Some (hash_u64 which mod bc_size bc))"

definition bcache_offset :: "'s bdev \<Rightarrow> u32 \<Rightarrow> nat" where
  "bcache_offset base hv = unat (ucast hv * block_size base)"

datatype cache_src = Cached nat | Caller bytes

text \<open>The sizes of the three arrays are computed in \<open>uint32_t\<close> and \<open>uint64_t\<close> as written.\<close>

definition bcache_create :: "allocator \<Rightarrow> 's bdev \<Rightarrow> u32 \<Rightarrow> bcache run" where
  "bcache_create alloc base limit = do {
     c_assert (limit \<ge> 1);
     data \<leftarrow> alloc (unat (block_size base * ucast limit));
     ix \<leftarrow> alloc (unat (8 * limit));
     dirty \<leftarrow> alloc (unat ((limit + 7) div 8));
     dirty \<leftarrow> memset dirty 0 0 (unat ((limit + 7) div 8));
     Some \<lparr>bc_size = limit, bc_data = data,
       bc_indexes = replicate (unat (8 * limit) div 8) (- 1), bc_dirty = dirty\<rparr> }"

text \<open>A failed write is logged and forgotten.\<close>

definition bcache_evict :: "'s bdev \<Rightarrow> 's cached \<Rightarrow> u32 \<Rightarrow> 's cached run" where
  "bcache_evict base st hv = do {
     let offset = bcache_offset base hv;
     d \<leftarrow> bit_get (bc_dirty (fst st)) (ucast hv);
     s \<leftarrow> (if d then do {
         idx \<leftarrow> c_index (bc_indexes (fst st)) (unat hv);
         (ok, s) \<leftarrow> write_block base (snd st) idx (drop offset (bc_data (fst st)));
         Some s }
       else Some (snd st));
     dirty \<leftarrow> bit_clear (bc_dirty (fst st)) (ucast hv);
     ix \<leftarrow> index_set (bc_indexes (fst st)) (unat hv) (- 1);
     Some ((fst st)\<lparr>bc_dirty := dirty, bc_indexes := ix\<rparr>, s) }"

definition bcache_read_block :: "'s bdev \<Rightarrow> 's cached \<Rightarrow> u64 \<Rightarrow> (nat option \<times> 's cached) run" where
  "bcache_read_block base st which = do {
     hv \<leftarrow> bcache_slot (fst st) which;
     let offset = bcache_offset base hv;
     idx \<leftarrow> c_index (bc_indexes (fst st)) (unat hv);
     if idx = which then Some (Some offset, st)
     else do {
       st \<leftarrow> bcache_evict base st hv;
       (ok, data, s) \<leftarrow> read_at (read_block base) (snd st) which (bc_data (fst st)) offset;
       let bc = (fst st)\<lparr>bc_data := data\<rparr>;
       if \<not> ok then Some (None, (bc, s))
       else do {
         ix \<leftarrow> index_set (bc_indexes bc) (unat hv) which;
         Some (Some offset, (bc\<lparr>bc_indexes := ix\<rparr>, s)) } } }"

definition bcache_write_block :: "'s bdev \<Rightarrow> 's cached \<Rightarrow> u64 \<Rightarrow> cache_src \<Rightarrow> 's cached run" where
  "bcache_write_block base st which from = do {
     hv \<leftarrow> bcache_slot (fst st) which;
     let offset = bcache_offset base hv;
     idx \<leftarrow> c_index (bc_indexes (fst st)) (unat hv);
     st \<leftarrow> (if idx \<noteq> which then bcache_evict base st hv else Some st);
     data \<leftarrow> (if from \<noteq> Cached offset then do {
         d \<leftarrow> (case from of
             Cached p \<Rightarrow> rd (bc_data (fst st)) p (unat (block_size base))
           | Caller b \<Rightarrow> rd b 0 (unat (block_size base)));
         wr (bc_data (fst st)) offset d }
       else Some (bc_data (fst st)));
     dirty \<leftarrow> bit_set (bc_dirty (fst st)) (ucast hv);
     Some ((fst st)\<lparr>bc_data := data, bc_dirty := dirty\<rparr>, snd st) }"

text \<open>The counter is an \<open>int\<close>, compared and handed on as \<open>uint32_t\<close>: it comes to every slot.\<close>

primrec bcache_flush_loop :: "'s bdev \<Rightarrow> nat list \<Rightarrow> 's cached \<Rightarrow> 's cached run" where
  "bcache_flush_loop base [] st = Some st"
| "bcache_flush_loop base (i # is) st = do {
     st \<leftarrow> bcache_evict base st (of_nat i);
     bcache_flush_loop base is st }"

definition bcache_flush :: "'s bdev \<Rightarrow> 's cached \<Rightarrow> 's cached run" where
  "bcache_flush base st = bcache_flush_loop base [0..<unat (bc_size (fst st))] st"

definition bcache_clear :: "'s bdev \<Rightarrow> 's cached \<Rightarrow> 's cached run" where
  "bcache_clear base st = do {
     st \<leftarrow> bcache_flush base st;
     let n = unat (8 * bc_size (fst st)) div 8;
     c_assert (n \<le> length (bc_indexes (fst st)));
     Some ((fst st)\<lparr>bc_indexes := patch 0 (replicate n (- 1)) (bc_indexes (fst st))\<rparr>, snd st) }"

text \<open>The cache is freed; what remains is the device below.\<close>

definition bcache_destroy :: "'s bdev \<Rightarrow> 's cached \<Rightarrow> 's run" where
  "bcache_destroy base st = do {
     st \<leftarrow> bcache_flush base st;
     Some (snd st) }"

section \<open>The view through the cache\<close>

definition slot_of :: "u32 \<Rightarrow> nat \<Rightarrow> nat" where
  "slot_of n i = unat (hash_u64 (of_nat i) mod n)"

definition cache_view :: "nat \<Rightarrow> bcache \<Rightarrow> bytes list \<Rightarrow> bytes list" where
  "cache_view bs bc c = map (\<lambda>i. if bc_indexes bc ! slot_of (bc_size bc) i = of_nat i
     then block_at bs (bc_data bc) (slot_of (bc_size bc) i) else c ! i) [0..<length c]"

text \<open>Only blocks below \<open>K\<close> are cached, each in its slot; a slot that is not dirty holds what
  the device below holds.\<close>

definition cache_shape :: "nat \<Rightarrow> nat \<Rightarrow> bcache \<Rightarrow> bool" where
  "cache_shape bs K bc \<longleftrightarrow> bc_size bc \<noteq> 0 \<and> unat (bc_size bc) * bs < 2 ^ 64 \<and> unat (bc_size bc) < 2 ^ 29 \<and>
    length (bc_data bc) = unat (bc_size bc) * bs \<and> length (bc_indexes bc) = unat (bc_size bc) \<and>
    unat (bc_size bc) \<le> 8 * length (bc_dirty bc) \<and> K < 2 ^ 64 \<and>
    (\<forall>h < unat (bc_size bc). bc_indexes bc ! h \<noteq> - 1 \<longrightarrow>
      unat (bc_indexes bc ! h) < K \<and> slot_of (bc_size bc) (unat (bc_indexes bc ! h)) = h) \<and>
    (\<forall>h < unat (bc_size bc). bits (bc_dirty bc) h \<longrightarrow> bc_indexes bc ! h \<noteq> - 1)"

definition clean_slots :: "nat \<Rightarrow> bcache \<Rightarrow> bytes list \<Rightarrow> bool" where
  "clean_slots bs bc c \<longleftrightarrow> (\<forall>h < unat (bc_size bc). bc_indexes bc ! h \<noteq> - 1 \<and> \<not> bits (bc_dirty bc) h \<longrightarrow>
    block_at bs (bc_data bc) h = c ! unat (bc_indexes bc ! h))"

lemma length_cache_view [simp]: "length (cache_view bs bc c) = length c"
  by (simp add: cache_view_def)

lemma nth_cache_view: "i < length c \<Longrightarrow> cache_view bs bc c ! i =
  (if bc_indexes bc ! slot_of (bc_size bc) i = of_nat i then block_at bs (bc_data bc) (slot_of (bc_size bc) i) else c ! i)"
  by (simp add: cache_view_def)

lemma slot_of_less: "n \<noteq> 0 \<Longrightarrow> slot_of n i < unat n"
  by (simp add: slot_of_def unat_mod unat_gt_0)

lemma idx_of_nat: "i < K \<Longrightarrow> K < 2 ^ 64 \<Longrightarrow> unat (of_nat i :: u64) = i"
  by (simp add: unat_of_nat take_bit_nat_eq_self_iff)

lemma idx_not_empty: "i < K \<Longrightarrow> K < 2 ^ 64 \<Longrightarrow> (of_nat i :: u64) \<noteq> - 1"
proof
  assume i: "i < K" "K < 2 ^ 64" and "(of_nat i :: u64) = - 1"
  then have "(of_nat (Suc i) :: u64) = 0" by simp
  then have "(2 :: nat) ^ 64 dvd Suc i" by (simp only: word_of_nat_eq_0_iff len_of_numeral_defs) simp
  with i show False by (metis Suc_leI dvd_imp_le leD le_less_trans zero_less_Suc)
qed

lemma u64_idx:
  assumes "i < unat (n :: u64)"
  shows "unat (of_nat i :: u64) = i" "(of_nat i :: u64) \<noteq> - 1"
proof -
  have "unat n < 2 ^ LENGTH(64)" by (rule unsigned_less)
  then have "unat n < 2 ^ 64" by simp
  from idx_of_nat [OF assms this] idx_not_empty [OF assms this]
  show "unat (of_nat i :: u64) = i" "(of_nat i :: u64) \<noteq> - 1" .
qed

lemma shape_idx:
  assumes "cache_shape bs K bc" and "h < unat (bc_size bc)" and "bc_indexes bc ! h \<noteq> - 1"
  shows "unat (bc_indexes bc ! h) < K" "slot_of (bc_size bc) (unat (bc_indexes bc ! h)) = h"
  using assms by (simp_all add: cache_shape_def)

text \<open>A block is in its slot exactly when the slot holds its number.\<close>

lemma shape_holds:
  assumes "cache_shape bs K bc" and "h < unat (bc_size bc)" and "i < K" and "bc_indexes bc ! h = of_nat i"
  shows "h = slot_of (bc_size bc) i"
  using shape_idx(2) [OF assms(1,2)] idx_not_empty [OF assms(3)] idx_of_nat [OF assms(3)] assms
  by (simp add: cache_shape_def)

lemma offset_slot:
  assumes "cache_shape (unat (block_size base)) K bc" and "h < unat (bc_size bc)"
  shows "bcache_offset base (of_nat h) = h * unat (block_size base)" "unat (of_nat h :: u32) = h"
proof -
  have "unat (bc_size bc) < 2 ^ LENGTH(32)" by (rule unsigned_less)
  then have "h < 2 ^ 32" using assms(2) by simp
  then show h: "unat (of_nat h :: u32) = h" by (simp add: unat_of_nat take_bit_nat_eq_self_iff)
  have "h * unat (block_size base) \<le> unat (bc_size bc) * unat (block_size base)"
    using assms(2) by simp
  also have "\<dots> < 2 ^ 64" using assms(1) by (simp add: cache_shape_def)
  finally have "unat (ucast (of_nat h :: u32) :: u64) * unat (block_size base) < 2 ^ 64"
    by (simp only: unat_u32_u64 h)
  then show "bcache_offset base (of_nat h) = h * unat (block_size base)"
    unfolding bcache_offset_def using unat_mult_lem [of "ucast (of_nat h :: u32) :: u64" "block_size base"]
    by (simp add: unat_u32_u64 h)
qed

section \<open>Over a reliable device\<close>

context block_device
begin

abbreviation bsn :: nat where
  "bsn \<equiv> unat (block_size dev)"

definition cache_inv :: "nat \<Rightarrow> 's cached \<Rightarrow> bool" where
  "cache_inv K st \<longleftrightarrow> rel \<and> valid (snd st) \<and> K \<le> unat (block_count dev) \<and> cache_shape bsn K (fst st) \<and>
    clean_slots bsn (fst st) (cont (snd st))"

definition view :: "'s cached \<Rightarrow> bytes list" where
  "view st = cache_view bsn (fst st) (cont (snd st))"

lemma evict_ok:
  assumes inv: "cache_inv K (bc, s)" and h: "h < unat (bc_size bc)"
  obtains bc' s' where "bcache_evict dev (bc, s) (of_nat h) = Some (bc', s')" "cache_inv K (bc', s')"
    "view (bc', s') = view (bc, s)" "bc_indexes bc' = (bc_indexes bc)[h := - 1]"
    "bc_data bc' = bc_data bc" "bc_size bc' = bc_size bc" "\<not> bits (bc_dirty bc') h"
proof -
  have v: "valid s" and rel: rel and shape: "cache_shape bsn K bc" and clean: "clean_slots bsn bc (cont s)"
    and K: "K \<le> unat (block_count dev)"
    using inv by (simp_all add: cache_inv_def)
  let ?n = "unat (bc_size bc)" and ?ix = "bc_indexes bc"
  have sizes: "length ?ix = ?n" "?n \<le> 8 * length (bc_dirty bc)" "length (bc_data bc) = ?n * bsn" "K < 2 ^ 64"
    using shape by (simp_all add: cache_shape_def)
  have hv: "unat (of_nat h :: u32) = h" "unat (ucast (of_nat h :: u32) :: u64) = h"
    "bcache_offset dev (of_nat h) = h * bsn"
    using offset_slot [OF shape h] unat_u32_u64 [of "of_nat h"] by simp_all
  have "unat (ucast (of_nat h :: u32) :: u64) < 8 * length (bc_dirty bc)" using h sizes(2) hv(2) by simp
  from bit_get_Some [OF this] bit_clear_Some [OF this] obtain dirty' where
    d: "bit_get (bc_dirty bc) (ucast (of_nat h :: u32)) = Some (bits (bc_dirty bc) h)"
    "bit_clear (bc_dirty bc) (ucast (of_nat h :: u32)) = Some dirty'" "length dirty' = length (bc_dirty bc)"
    "\<forall>i < 8 * length (bc_dirty bc). bits dirty' i = (i \<noteq> h \<and> bits (bc_dirty bc) i)"
    unfolding hv(2) by blast
  obtain s' where w: "(if bits (bc_dirty bc) h then do {
         idx \<leftarrow> c_index ?ix h; (ok, s) \<leftarrow> write_block dev s idx (drop (h * bsn) (bc_data bc)); Some s }
       else Some s) = Some s'" "valid s'"
    "cont s' = (if bits (bc_dirty bc) h then (cont s)[unat (?ix ! h) := block_at bsn (bc_data bc) h] else cont s)"
  proof (cases "bits (bc_dirty bc) h")
    case True
    then have ne: "?ix ! h \<noteq> - 1" using shape h by (simp add: cache_shape_def)
    have "?ix ! h < block_count dev" using shape_idx(1) [OF shape h ne] K by (simp add: word_less_nat_alt)
    moreover have "bsn \<le> length (drop (h * bsn) (bc_data bc))"
      using sizes(3) block_end_le [OF h, of bsn "length (bc_data bc)"] by simp
    ultimately have "write_ok valid cont rel s {unat (?ix ! h)}
        ((cont s)[unat (?ix ! h) := take bsn (drop (h * bsn) (bc_data bc))])
        (write_block dev s (?ix ! h) (drop (h * bsn) (bc_data bc)))"
      by (rule write_law [OF v])
    then show thesis using that rel True h sizes(1) by (auto elim!: write_okE simp: block_at_def)
  qed (use that v in auto)
  let ?bc = "bc\<lparr>bc_dirty := dirty', bc_indexes := ?ix[h := - 1]\<rparr>"
  have len: "length (cont s) = unat (block_count dev)" by (rule length_cont [OF v])
  have run: "bcache_evict dev (bc, s) (of_nat h) = Some (?bc, s')"
    unfolding bcache_evict_def hv fst_conv snd_conv Let_def d(1,2) Option.bind.bind_lunit w(1)
    using h sizes(1) by (simp add: index_set_def)
  have shape': "cache_shape bsn K ?bc"
    using shape d(3,4) sizes(1,2) h by (auto simp: cache_shape_def nth_list_update split: if_splits)
  have other: "cont s' ! i = cont s ! i" if "?ix ! h \<noteq> of_nat i \<or> \<not> bits (bc_dirty bc) h" "i < length (cont s)" for i
  proof -
    have "unat (?ix ! h) \<noteq> i" if "?ix ! h \<noteq> of_nat i" using that by auto
    then show ?thesis using that w(3) by (auto simp: nth_list_update_neq)
  qed
  have "clean_slots bsn ?bc (cont s')"
    unfolding clean_slots_def
  proof (intro allI impI)
    fix g assume g: "g < unat (bc_size ?bc)" "bc_indexes ?bc ! g \<noteq> - 1 \<and> \<not> bits (bc_dirty ?bc) g"
    then have ne: "g \<noteq> h" "?ix ! g \<noteq> - 1" "\<not> bits (bc_dirty bc) g"
      using h sizes(1,2) d(4) by (auto simp: nth_list_update split: if_splits)
    have gK: "unat (?ix ! g) < K" "slot_of (bc_size bc) (unat (?ix ! g)) = g"
      using shape_idx [OF shape _ ne(2)] g(1) by simp_all
    have "?ix ! h \<noteq> of_nat (unat (?ix ! g))"
      using shape_holds [OF shape h gK(1)] gK(2) ne(1) by metis
    then have "cont s' ! unat (?ix ! g) = cont s ! unat (?ix ! g)" using other gK(1) K len by simp
    with clean g(1) ne show "block_at bsn (bc_data ?bc) g = cont s' ! unat (bc_indexes ?bc ! g)"
      by (simp add: clean_slots_def)
  qed
  with rel w(2) K shape' have "cache_inv K (?bc, s')" unfolding cache_inv_def by simp
  moreover have "view (?bc, s') = view (bc, s)"
    unfolding view_def
  proof (rule nth_equalityI)
    show "length (cache_view bsn (fst (?bc, s')) (cont (snd (?bc, s')))) = length (cache_view bsn (fst (bc, s)) (cont (snd (bc, s))))"
      by (simp add: w(3))
    fix i assume "i < length (cache_view bsn (fst (?bc, s')) (cont (snd (?bc, s'))))"
    then have i: "i < length (cont s)" "i < length (cont s')" by (simp_all add: w(3) split: if_splits)
    have ne: "(of_nat i :: u64) \<noteq> - 1" and un: "unat (of_nat i :: u64) = i"
      using u64_idx [of i "block_count dev"] i(1) len by simp_all
    have sl: "slot_of (bc_size bc) i < ?n" using shape by (intro slot_of_less) (simp add: cache_shape_def)
    show "cache_view bsn (fst (?bc, s')) (cont (snd (?bc, s'))) ! i = cache_view bsn (fst (bc, s)) (cont (snd (bc, s))) ! i"
    proof (cases "slot_of (bc_size bc) i = h \<and> ?ix ! h = of_nat i")
      case True
      have u: "unat (?ix ! h) = i" using True un by simp
      have "cont s' ! i = block_at bsn (bc_data bc) h"
        using True clean h ne u w(3) i(1) by (auto simp: clean_slots_def)
      then show ?thesis using True i ne h sizes(1) by (auto simp: nth_cache_view nth_list_update)
    next
      case False
      have "?ix ! h \<noteq> of_nat i \<or> \<not> bits (bc_dirty bc) h"
      proof (rule disjCI)
        assume "\<not> \<not> bits (bc_dirty bc) h"
        then have hn: "?ix ! h \<noteq> - 1" using shape h by (simp add: cache_shape_def)
        show "?ix ! h \<noteq> of_nat i"
        proof
          assume e: "?ix ! h = of_nat i"
          then have "unat (?ix ! h) = i" using un by simp
          with shape_idx(2) [OF shape h hn] e False show False by simp
        qed
      qed
      from other [OF this i(1)] False ne sl sizes(1) h show ?thesis
        by (auto simp: nth_cache_view i nth_list_update split: if_splits)
    qed
  qed
  moreover have "\<not> bits dirty' h" using d(4) h sizes(2) by simp
  ultimately show thesis by (intro that [OF run]) simp_all
qed

lemma view_base: "cont s' = cont s \<Longrightarrow> view (bc, s') = view (bc, s)"
  by (simp add: view_def)

lemma inv_base: "cache_inv K (bc, s) \<Longrightarrow> valid s' \<Longrightarrow> cont s' = cont s \<Longrightarrow> cache_inv K (bc, s')"
  unfolding cache_inv_def by simp

lemma inv_slot:
  assumes "cache_inv K (bc, s)" and "unat w < K"
  shows "bcache_slot bc w = Some (of_nat (slot_of (bc_size bc) (unat w)))"
    "slot_of (bc_size bc) (unat w) < unat (bc_size bc)"
    "slot_of (bc_size bc) (unat w) < length (bc_indexes bc)"
    "(slot_of (bc_size bc) (unat w) + 1) * bsn \<le> length (bc_data bc)"
    "unat w < length (cont s)" "w \<noteq> - 1"
proof -
  have shape: "cache_shape bsn K bc" and K: "K \<le> unat (block_count dev)" and v: "valid s"
    using assms(1) by (simp_all add: cache_inv_def)
  then have n: "bc_size bc \<noteq> 0" "length (bc_indexes bc) = unat (bc_size bc)"
    "length (bc_data bc) = unat (bc_size bc) * bsn" by (simp_all add: cache_shape_def)
  show "bcache_slot bc w = Some (of_nat (slot_of (bc_size bc) (unat w)))"
    using n(1) by (simp add: bcache_slot_def slot_of_def)
  show sl: "slot_of (bc_size bc) (unat w) < unat (bc_size bc)" using n(1) by (rule slot_of_less)
  with n(2) show "slot_of (bc_size bc) (unat w) < length (bc_indexes bc)" by simp
  from sl have "(slot_of (bc_size bc) (unat w) + 1) * bsn \<le> unat (bc_size bc) * bsn" by (intro mult_le_mono1) simp
  with n(3) show "(slot_of (bc_size bc) (unat w) + 1) * bsn \<le> length (bc_data bc)" by simp
  show "unat w < length (cont s)" using length_cont [OF v] assms(2) K by simp
  show "w \<noteq> - 1" using u64_idx(2) [of "unat w" "block_count dev"] assms(2) K by simp
qed

text \<open>What filling a slot and changing a cached block in place do to the invariant and the view.\<close>

lemma slot_changed:
  assumes inv: "cache_inv K (bc, s)" and w: "unat w < K" and h: "h = slot_of (bc_size bc) (unat w)"
    and b: "length b = bsn" and old: "bc_indexes bc ! h = - 1 \<and> b = cont s ! unat w \<or> bc_indexes bc ! h = w \<and> d = True"
    and dirty: "length dirty = length (bc_dirty bc)"
      "\<forall>i < 8 * length (bc_dirty bc). bits dirty i = (i = h \<and> d \<or> bits (bc_dirty bc) i)"
  shows "cache_inv K (bc\<lparr>bc_data := patch (h * bsn) b (bc_data bc), bc_indexes := (bc_indexes bc)[h := w], bc_dirty := dirty\<rparr>, s)"
    "view (bc\<lparr>bc_data := patch (h * bsn) b (bc_data bc), bc_indexes := (bc_indexes bc)[h := w], bc_dirty := dirty\<rparr>, s) =
      (view (bc, s))[unat w := b]"
proof -
  let ?bc = "bc\<lparr>bc_data := patch (h * bsn) b (bc_data bc), bc_indexes := (bc_indexes bc)[h := w], bc_dirty := dirty\<rparr>"
  let ?n = "unat (bc_size bc)"
  have v: "valid s" and rel: rel and shape: "cache_shape bsn K bc" and clean: "clean_slots bsn bc (cont s)"
    and K: "K \<le> unat (block_count dev)"
    using inv by (simp_all add: cache_inv_def)
  note slot = inv_slot [OF inv w, folded h]
  have sizes: "length (bc_indexes bc) = ?n" "?n \<le> 8 * length (bc_dirty bc)" "length (bc_data bc) = ?n * bsn" "K < 2 ^ 64"
    "h * bsn + bsn \<le> length (bc_data bc)"
    using shape slot(4) by (simp_all add: cache_shape_def)
  have blk: "block_at bsn (patch (h * bsn) b (bc_data bc)) j = (if h = j then b else block_at bsn (bc_data bc) j)"
    if "j < ?n" for j
    using block_at_patch [OF slot(2) that, of bsn "bc_data bc" b] sizes(3) b by simp
  have sl: "slot_of (bc_size bc) i < ?n" for i using shape by (intro slot_of_less) (simp add: cache_shape_def)
  have dh: "d \<or> b = cont s ! unat w" using old by blast
  have nodirty: "\<not> bits (bc_dirty bc) h" if "bc_indexes bc ! h = - 1"
    using that shape slot(2) by (auto simp: cache_shape_def)
  have ix: "bc_indexes ?bc ! g = (if g = h then w else bc_indexes bc ! g)" if "g < ?n" for g
    using that sizes(1) by (simp add: nth_list_update)
  have "cache_shape bsn K ?bc"
    unfolding cache_shape_def
  proof (intro conjI allI impI)
    fix g assume g: "g < unat (bc_size ?bc)"
    { assume "bc_indexes ?bc ! g \<noteq> - 1"
      with g ix w h shape_idx [OF shape, of g]
      show "unat (bc_indexes ?bc ! g) < K" "slot_of (bc_size ?bc) (unat (bc_indexes ?bc ! g)) = g"
        by (cases "g = h"; simp)+ }
    { assume "bits (bc_dirty ?bc) g"
      with g ix slot(6) dirty(2) sizes(2) shape show "bc_indexes ?bc ! g \<noteq> - 1"
        by (cases "g = h") (simp_all add: cache_shape_def) }
  qed (use shape dirty(1) sizes b in \<open>simp_all add: cache_shape_def\<close>)
  moreover have "clean_slots bsn ?bc (cont s)"
    unfolding clean_slots_def
  proof (intro allI impI)
    fix g assume g: "g < unat (bc_size ?bc)" "bc_indexes ?bc ! g \<noteq> - 1 \<and> \<not> bits (bc_dirty ?bc) g"
    then have d: "\<not> (g = h \<and> d)" "\<not> bits (bc_dirty bc) g" using dirty(2) sizes(2) by auto
    show "block_at bsn (bc_data ?bc) g = cont s ! unat (bc_indexes ?bc ! g)"
    proof (cases "g = h")
      case True
      with d(1) dh have "b = cont s ! unat w" by blast
      with True g(1) blk slot(3) show ?thesis by simp
    next
      case False
      then show ?thesis using g blk d(2) clean by (simp add: clean_slots_def)
    qed
  qed
  ultimately show "cache_inv K (?bc, s)" using rel v K unfolding cache_inv_def by simp
  show "view (?bc, s) = (view (bc, s))[unat w := b]"
    unfolding view_def
  proof (rule nth_equalityI)
    fix i assume "i < length (cache_view bsn (fst (?bc, s)) (cont (snd (?bc, s))))"
    then have i: "i < length (cont s)" by simp
    have wi: "w = of_nat i \<longleftrightarrow> i = unat w" "(of_nat i :: u64) \<noteq> - 1"
      using u64_idx [of i "block_count dev"] i length_cont [OF v] by auto
    show "cache_view bsn (fst (?bc, s)) (cont (snd (?bc, s))) ! i = (cache_view bsn (fst (bc, s)) (cont (snd (bc, s))))[unat w := b] ! i"
    proof (cases "slot_of (bc_size bc) i = h")
      case True
      then have new: "cache_view bsn (fst (?bc, s)) (cont (snd (?bc, s))) ! i = (if i = unat w then b else cont s ! i)"
        using i wi(1) blk [OF slot(2)] slot(3) by (auto simp: nth_cache_view)
      have "bc_indexes bc ! h \<noteq> of_nat i" if "i \<noteq> unat w" using that wi old by metis
      then show ?thesis using True i new by (cases "i = unat w") (simp_all add: nth_cache_view)
    next
      case False
      then have "i \<noteq> unat w" using h by auto
      then show ?thesis using False i blk [OF sl] by (simp add: nth_cache_view)
    qed
  qed simp
qed

lemma patch_read_at:
  assumes "valid s" and "w < block_count dev" and "at + bsn \<le> length into" and rel
  obtains s' where "read_at (read_block dev) s w into at = Some (True, patch at (cont s ! unat w) into, s')"
    "valid s'" "cont s' = cont s"
proof -
  have "read_ok valid cont rel s (drop at into) (cont s ! unat w) (read_block dev s w (drop at into))"
    using assms by (intro read_law) auto
  then obtain t s' where r: "read_block dev s w (drop at into) = Some (True, t, s')" "valid s'" "cont s' = cont s"
    "t = patch 0 (cont s ! unat w) (drop at into)"
    using assms(4) by (auto simp: read_into_ok_def)
  then have "take at into @ t = patch at (cont s ! unat w) into"
    using assms(3) by (simp add: patch_def add.commute)
  moreover have "read_at (read_block dev) s w into at = Some (True, take at into @ t, s')"
    using r(1) by (simp add: read_at_def)
  ultimately show thesis using r(2,3) that by simp
qed

lemma bcache_read_ok:
  assumes inv: "cache_inv K (bc, s)" and w: "unat w < K"
  obtains bc' s' where
    "bcache_read_block dev (bc, s) w = Some (Some (slot_of (bc_size bc') (unat w) * bsn), bc', s')"
    "cache_inv K (bc', s')" "view (bc', s') = view (bc, s)"
    "bc_indexes bc' ! slot_of (bc_size bc') (unat w) = w"
proof -
  let ?h = "slot_of (bc_size bc) (unat w)"
  note slot = inv_slot [OF inv w]
  have shape: "cache_shape bsn K bc" using inv by (simp add: cache_inv_def)
  note off = offset_slot [OF shape slot(2)]
  show thesis
  proof (cases "bc_indexes bc ! ?h = w")
    case True
    then have "bcache_read_block dev (bc, s) w = Some (Some (?h * bsn), bc, s)"
      using slot(1,3) off by (simp add: bcache_read_block_def)
    from that [OF this inv] True show thesis by simp
  next
    case False
    obtain bc1 s1 where e: "bcache_evict dev (bc, s) (of_nat ?h) = Some (bc1, s1)" "cache_inv K (bc1, s1)"
      "view (bc1, s1) = view (bc, s)" "bc_indexes bc1 = (bc_indexes bc)[?h := - 1]"
      "bc_data bc1 = bc_data bc" "bc_size bc1 = bc_size bc"
      by (rule evict_ok [OF inv slot(2)])
    note slot1 = inv_slot [OF e(2) w, unfolded e(6)]
    have base1: "valid s1" "w < block_count dev" rel
      using e(2) w by (simp_all add: cache_inv_def word_less_nat_alt)
    have fits: "?h * bsn + bsn \<le> length (bc_data bc1)" using slot1(4) by (metis mult_Suc Suc_eq_plus1 add.commute)
    obtain s2 where r: "read_at (read_block dev) s1 w (bc_data bc1) (?h * bsn) =
        Some (True, patch (?h * bsn) (cont s1 ! unat w) (bc_data bc1), s2)" "valid s2" "cont s2 = cont s1"
      by (rule patch_read_at [OF base1(1,2) fits base1(3)])
    let ?bc2 = "bc1\<lparr>bc_data := patch (?h * bsn) (cont s1 ! unat w) (bc_data bc1), bc_indexes := (bc_indexes bc1)[?h := w]\<rparr>"
    have run: "bcache_read_block dev (bc, s) w = Some (Some (?h * bsn), ?bc2, s2)"
      using slot(1,3) slot1(3) off False e(1) r(1) by (simp add: bcache_read_block_def index_set_def Let_def)
    have ix: "bc_indexes bc1 ! ?h = - 1" using e(4) slot(3) by simp
    have len: "length (cont s1 ! unat w) = bsn" by (rule length_block [OF base1(1,2)])
    have "cache_inv K (?bc2, s1)" "view (?bc2, s1) = (view (bc1, s1))[unat w := cont s1 ! unat w]"
      using slot_changed [OF e(2) w refl len, of False "bc_dirty bc1"] ix e(6) by simp_all
    moreover have "(view (bc1, s1))[unat w := cont s1 ! unat w] = view (bc1, s1)"
      using slot1(5,6) ix e(6) by (auto simp: view_def nth_cache_view intro!: list_update_same_conv [THEN iffD2])
    ultimately show thesis
      using that [OF _ inv_base view_base [THEN trans]] run r e(3,6) slot1(3) by simp
  qed
qed

text \<open>The block that a read returned is the block of the view.\<close>

lemma view_cached:
  assumes "cache_inv K (bc, s)" and "unat w < K" and "bc_indexes bc ! slot_of (bc_size bc) (unat w) = w"
  shows "view (bc, s) ! unat w = block_at bsn (bc_data bc) (slot_of (bc_size bc) (unat w))"
  using inv_slot [OF assms(1,2)] assms(3) by (simp add: view_def nth_cache_view)

lemma view_uncached:
  assumes "cache_inv K (bc, s)" and "K \<le> i" and "i < unat (block_count dev)"
  shows "view (bc, s) ! i = cont s ! i"
proof -
  have v: "valid s" and shape: "cache_shape bsn K bc" using assms(1) by (simp_all add: cache_inv_def)
  then have "slot_of (bc_size bc) i < unat (bc_size bc)" by (intro slot_of_less) (simp add: cache_shape_def)
  then have "bc_indexes bc ! slot_of (bc_size bc) i \<noteq> of_nat i"
    using shape_idx(1) [OF shape] u64_idx [OF assms(3)] assms(2) by (metis not_le)
  then show ?thesis using assms(3) length_cont [OF v] by (simp add: view_def nth_cache_view)
qed

lemma blocked_view:
  assumes "cache_inv K (bc, s)"
  shows "blocked bsn (view (bc, s))"
proof -
  have v: "valid s" and shape: "cache_shape bsn K bc" using assms by (simp_all add: cache_inv_def)
  then have "length (block_at bsn (bc_data bc) (slot_of (bc_size bc) i)) = bsn" for i
    using slot_of_less [of "bc_size bc" i] by (simp add: cache_shape_def)
  then show ?thesis
    using contents [OF v] by (auto simp: view_def cache_view_def blocked_def)
qed

lemma bcache_write_ok:
  assumes inv: "cache_inv K (bc, s)" and w: "unat w < K"
    and h: "h = slot_of (bc_size bc) (unat w)" and ix: "bc_indexes bc ! h = w" and b: "length b = bsn"
  obtains bc' where
    "bcache_write_block dev (bc\<lparr>bc_data := patch (h * bsn) b (bc_data bc)\<rparr>, s) w (Cached (h * bsn)) = Some (bc', s)"
    "cache_inv K (bc', s)" "view (bc', s) = (view (bc, s))[unat w := b]"
proof -
  note slot = inv_slot [OF inv w, folded h]
  have shape: "cache_shape bsn K bc" using inv by (simp add: cache_inv_def)
  note off = offset_slot [OF shape slot(2)]
  have hv: "unat (ucast (of_nat h :: u32) :: u64) = h" using off(2) unat_u32_u64 [of "of_nat h"] by simp
  have "h < 8 * length (bc_dirty bc)" using shape slot(2) by (simp add: cache_shape_def)
  then obtain dirty where d: "bit_set (bc_dirty bc) (ucast (of_nat h :: u32)) = Some dirty" "length dirty = length (bc_dirty bc)"
    "\<forall>i < 8 * length (bc_dirty bc). bits dirty i = (i = h \<or> bits (bc_dirty bc) i)"
    using bit_set_Some [of "ucast (of_nat h :: u32)" "bc_dirty bc"] unfolding hv by blast
  let ?bc = "bc\<lparr>bc_data := patch (h * bsn) b (bc_data bc), bc_indexes := (bc_indexes bc)[h := w], bc_dirty := dirty\<rparr>"
  have "bcache_slot (bc\<lparr>bc_data := patch (h * bsn) b (bc_data bc)\<rparr>) w = bcache_slot bc w" by (simp add: bcache_slot_def)
  moreover have "(bc_indexes bc)[h := w] = bc_indexes bc" using ix by (metis list_update_id)
  ultimately have "bcache_write_block dev (bc\<lparr>bc_data := patch (h * bsn) b (bc_data bc)\<rparr>, s) w (Cached (h * bsn)) = Some (?bc, s)"
    using slot(1,3) off d(1) ix by (simp add: bcache_write_block_def)
  then show thesis using slot_changed [OF inv w h b, of True dirty] ix d by (intro that) simp_all
qed

lemma flush_loop_ok:
  "cache_inv K (bc, s) \<Longrightarrow> set hs \<subseteq> {..<unat (bc_size bc)} \<Longrightarrow>
    \<exists>bc' s'. bcache_flush_loop dev hs (bc, s) = Some (bc', s') \<and> cache_inv K (bc', s') \<and> view (bc', s') = view (bc, s) \<and>
      bc_size bc' = bc_size bc \<and>
      (\<forall>h < unat (bc_size bc). h \<in> set hs \<or> bc_indexes bc ! h = - 1 \<longrightarrow> bc_indexes bc' ! h = - 1)"
proof (induction hs arbitrary: bc s)
  case (Cons h hs)
  obtain bc1 s1 where e: "bcache_evict dev (bc, s) (of_nat h) = Some (bc1, s1)" "cache_inv K (bc1, s1)"
    "view (bc1, s1) = view (bc, s)" "bc_indexes bc1 = (bc_indexes bc)[h := - 1]" "bc_size bc1 = bc_size bc"
    using evict_ok [OF Cons.prems(1), of h] Cons.prems(2) by (metis insert_subset lessThan_iff list.simps(15))
  obtain bc2 s2 where r: "bcache_flush_loop dev hs (bc1, s1) = Some (bc2, s2)" "cache_inv K (bc2, s2)"
    "view (bc2, s2) = view (bc1, s1)" "bc_size bc2 = bc_size bc1"
    "\<forall>h < unat (bc_size bc1). h \<in> set hs \<or> bc_indexes bc1 ! h = - 1 \<longrightarrow> bc_indexes bc2 ! h = - 1"
    using Cons.IH [OF e(2)] Cons.prems(2) e(5) by auto
  have "length (bc_indexes bc) = unat (bc_size bc)" using Cons.prems(1) by (simp add: cache_inv_def cache_shape_def)
  then have "\<forall>g < unat (bc_size bc). g \<in> set (h # hs) \<or> bc_indexes bc ! g = - 1 \<longrightarrow> bc_indexes bc2 ! g = - 1"
    using r(5) e(4,5) Cons.prems(2) by (auto simp: nth_list_update)
  with e r show ?case by auto
qed auto

lemma bcache_flush_ok:
  assumes inv: "cache_inv K (bc, s)"
  obtains bc' s' where "bcache_flush dev (bc, s) = Some (bc', s')" "cache_inv K (bc', s')"
    "view (bc', s') = view (bc, s)" "cont s' = view (bc, s)" "bc_size bc' = bc_size bc"
    "\<forall>h < unat (bc_size bc). bc_indexes bc' ! h = - 1"
proof -
  obtain bc' s' where r: "bcache_flush_loop dev [0..<unat (bc_size bc)] (bc, s) = Some (bc', s')" "cache_inv K (bc', s')"
    "view (bc', s') = view (bc, s)" "bc_size bc' = bc_size bc" "\<forall>h < unat (bc_size bc). bc_indexes bc' ! h = - 1"
    using flush_loop_ok [OF inv, of "[0..<unat (bc_size bc)]"] by (auto simp: lessThan_atLeast0)
  have v: "valid s'" and n: "bc_size bc' \<noteq> 0" using r(2) by (simp_all add: cache_inv_def cache_shape_def)
  have "cont s' = view (bc', s')"
  proof (rule nth_equalityI)
    fix i assume i: "i < length (cont s')"
    then have "(of_nat i :: u64) \<noteq> - 1" using u64_idx(2) [of i "block_count dev"] length_cont [OF v] by simp
    then show "cont s' ! i = view (bc', s') ! i"
      using i r(4,5) slot_of_less [OF n, of i] by (simp add: view_def nth_cache_view)
  qed (simp add: view_def)
  with r show thesis by (intro that) (simp_all add: bcache_flush_def)
qed

lemma bcache_clear_ok:
  assumes inv: "cache_inv K (bc, s)"
  obtains bc' s' where "bcache_clear dev (bc, s) = Some (bc', s')" "cache_inv K (bc', s')"
    "view (bc', s') = view (bc, s)" "cont s' = view (bc, s)"
proof -
  obtain bc' s' where r: "bcache_flush dev (bc, s) = Some (bc', s')" "cache_inv K (bc', s')"
    "view (bc', s') = view (bc, s)" "cont s' = view (bc, s)" "bc_size bc' = bc_size bc"
    "\<forall>h < unat (bc_size bc). bc_indexes bc' ! h = - 1"
    by (rule bcache_flush_ok [OF inv])
  have n: "unat (bc_size bc') < 2 ^ 29" "length (bc_indexes bc') = unat (bc_size bc')"
    using r(2) by (simp_all add: cache_inv_def cache_shape_def)
  have "unat (8 * bc_size bc') = 8 * unat (bc_size bc')"
    using unat_mult_lem [of "8 :: u32" "bc_size bc'"] n(1) by simp
  moreover have "bc_indexes bc' = replicate (unat (bc_size bc')) (- 1)"
    using r(5,6) n(2) by (intro nth_equalityI) simp_all
  ultimately have "bcache_clear dev (bc, s) = Some (bc', s')"
    using r(1) n(2) by (simp add: bcache_clear_def)
  with r show thesis by (intro that)
qed

text \<open>A write below the cache, of a block that is not cached.\<close>

lemma write_below:
  assumes inv: "cache_inv K (bc, s)" and w: "K \<le> unat w" "w < block_count dev" and len: "bsn \<le> length data"
  obtains s' where "write_block dev s w data = Some (True, s')" "cache_inv K (bc, s')"
    "view (bc, s') = (view (bc, s))[unat w := take bsn data]"
proof -
  have v: "valid s" and rel: rel and shape: "cache_shape bsn K bc" and clean: "clean_slots bsn bc (cont s)"
    using inv by (simp_all add: cache_inv_def)
  obtain s' where r: "write_block dev s w data = Some (True, s')" "valid s'" "cont s' = (cont s)[unat w := take bsn data]"
    using write_law [OF v w(2) len] rel by (auto simp: write_ok_def)
  have low: "unat (bc_indexes bc ! h) \<noteq> unat w" if "h < unat (bc_size bc)" "bc_indexes bc ! h \<noteq> - 1" for h
    using shape_idx(1) [OF shape that] w(1) by simp
  have "clean_slots bsn bc (cont s')"
    unfolding clean_slots_def r(3)
  proof (intro allI impI)
    fix h assume h: "h < unat (bc_size bc)" "bc_indexes bc ! h \<noteq> - 1 \<and> \<not> bits (bc_dirty bc) h"
    then show "block_at bsn (bc_data bc) h = (cont s)[unat w := take bsn data] ! unat (bc_indexes bc ! h)"
      using clean low [of h] by (simp add: clean_slots_def nth_list_update_neq)
  qed
  then have inv': "cache_inv K (bc, s')" using inv r(2) unfolding cache_inv_def by simp
  have n: "bc_size bc \<noteq> 0" using shape by (simp add: cache_shape_def)
  have "view (bc, s') = (view (bc, s))[unat w := take bsn data]"
    unfolding view_def
  proof (rule nth_equalityI)
    fix i assume "i < length (cache_view bsn (fst (bc, s')) (cont (snd (bc, s'))))"
    then have i: "i < length (cont s)" using r(3) by simp
    have u: "unat (of_nat i :: u64) = i" "(of_nat i :: u64) \<noteq> - 1"
      using u64_idx [of i "block_count dev"] i length_cont [OF v] by simp_all
    show "cache_view bsn (fst (bc, s')) (cont (snd (bc, s'))) ! i =
        (cache_view bsn (fst (bc, s)) (cont (snd (bc, s))))[unat w := take bsn data] ! i"
    proof (cases "i = unat w")
      case True
      have "bc_indexes bc ! slot_of (bc_size bc) i \<noteq> of_nat i"
        using low [OF slot_of_less [OF n]] u True by metis
      then show ?thesis using True i r(3) by (simp add: nth_cache_view)
    next
      case False
      then show ?thesis using i r(3) by (simp add: nth_cache_view)
    qed
  qed (simp add: r(3))
  with r(1) inv' show thesis by (rule that)
qed

lemma bcache_create_ok:
  assumes "alloc_ok alloc" and rel and v: "valid s" and K: "K \<le> unat (block_count dev)"
    and n: "limit \<noteq> 0" "unat limit < 2 ^ 29" "unat limit * bsn < 2 ^ 64"
    and r: "bcache_create alloc dev limit = Some bc"
  shows "cache_inv K (bc, s)" "view (bc, s) = cont s" "bc_size bc = limit"
proof -
  have u: "unat (block_size dev * ucast limit) = bsn * unat limit" "unat (8 * limit) = 8 * unat limit"
    using unat_mult_lem [of "block_size dev" "ucast limit :: u64"] unat_mult_lem [of "8 :: u32" limit] n
    by (simp_all add: unat_u32_u64 mult.commute)
  have "unat (limit + 7) = unat limit + 7" using unat_add_lem [of limit "7 :: u32"] n(2) by simp
  then have u8: "unat ((limit + 7) div 8) = (unat limit + 7) div 8" by (simp add: unat_div)
  obtain data dirty where bc: "bc = \<lparr>bc_size = limit, bc_data = data, bc_indexes = replicate (unat limit) (- 1), bc_dirty = dirty\<rparr>"
    "length data = bsn * unat limit" "dirty = replicate ((unat limit + 7) div 8) 0"
    using r assms(1) u u8
    by (auto simp: bcache_create_def c_assert_def memset_def wr_def dest!: alloc_okD [OF assms(1)] split: bind_splits if_splits)
  have "\<not> bits dirty h" if "h < unat limit" for h
    using that bc(3) by (simp add: bits_def)
  moreover have "unat (block_count dev) < 2 ^ LENGTH(64)" by (rule unsigned_less)
  ultimately have "cache_shape bsn K bc" using bc n K by (simp add: cache_shape_def mult.commute)
  moreover have "clean_slots bsn bc (cont s)" using bc by (simp add: clean_slots_def)
  ultimately show "cache_inv K (bc, s)" using assms(2) v K unfolding cache_inv_def by simp
  show "view (bc, s) = cont s"
    unfolding view_def
  proof (rule nth_equalityI)
    fix i assume "i < length (cache_view bsn (fst (bc, s)) (cont (snd (bc, s))))"
    then have "i < length (cont s)" "(of_nat i :: u64) \<noteq> - 1"
      using u64_idx(2) [of i "block_count dev"] length_cont [OF v] by simp_all
    then show "cache_view bsn (fst (bc, s)) (cont (snd (bc, s))) ! i = cont s ! i"
      using bc(1) slot_of_less [OF n(1), of i] by (simp add: nth_cache_view)
  qed simp
  show "bc_size bc = limit" using bc(1) by simp
qed

end

lemma bcache_create_total:
  assumes "alloc_ok alloc" and "\<forall>k. alloc k \<noteq> None" and "1 \<le> limit"
  obtains bc where "bcache_create alloc base limit = Some bc"
proof -
  obtain d i b where "alloc (unat (block_size base * ucast limit)) = Some d" "alloc (unat (8 * limit)) = Some i"
    "alloc (unat ((limit + 7) div 8)) = Some b"
    using assms(2) by (metis not_None_eq)
  moreover from this(3) have "length b = unat ((limit + 7) div 8)" by (rule alloc_okD [OF assms(1)])
  ultimately show thesis using that assms(3) by (simp add: bcache_create_def memset_Some)
qed

section \<open>A client of the cache\<close>

text \<open>The way the cache is meant to be used: read the block, change it in place, and write it back
  through the same pointer.\<close>

definition cache_get :: "'s bdev \<Rightarrow> 's cached \<Rightarrow> u64 \<Rightarrow> (bytes option \<times> 's cached) run" where
  "cache_get base st which = do {
     (p, st) \<leftarrow> bcache_read_block base st which;
     case p of None \<Rightarrow> Some (None, st)
     | Some offset \<Rightarrow> do {
         d \<leftarrow> rd (bc_data (fst st)) offset (unat (block_size base));
         Some (Some d, st) } }"

definition cache_put :: "'s bdev \<Rightarrow> 's cached \<Rightarrow> u64 \<Rightarrow> bytes \<Rightarrow> (bool \<times> 's cached) run" where
  "cache_put base st which b = do {
     (p, st) \<leftarrow> bcache_read_block base st which;
     case p of None \<Rightarrow> Some (False, st)
     | Some offset \<Rightarrow> do {
         data \<leftarrow> wr (bc_data (fst st)) offset b;
         st \<leftarrow> bcache_write_block base ((fst st)\<lparr>bc_data := data\<rparr>, snd st) which (Cached offset);
         Some (True, st) } }"

datatype cache_op = Get u64 | Put u64 bytes | Flush | Clear

primrec cache_run :: "'s bdev \<Rightarrow> cache_op list \<Rightarrow> 's cached \<Rightarrow> (bytes list \<times> 's cached) run" where
  "cache_run base [] st = Some ([], st)"
| "cache_run base (p # ops) st =
    (case p of
       Get w \<Rightarrow> do {
         (d, st) \<leftarrow> cache_get base st w;
         c_assert (d \<noteq> None);
         (ds, st) \<leftarrow> cache_run base ops st;
         Some (the d # ds, st) }
     | Put w b \<Rightarrow> do {
         (ok, st) \<leftarrow> cache_put base st w b;
         c_assert ok;
         cache_run base ops st }
     | Flush \<Rightarrow> do { st \<leftarrow> bcache_flush base st; cache_run base ops st }
     | Clear \<Rightarrow> do { st \<leftarrow> bcache_clear base st; cache_run base ops st })"

text \<open>The same operations on the blocks themselves.\<close>

primrec plain_run :: "cache_op list \<Rightarrow> bytes list \<Rightarrow> bytes list \<times> bytes list" where
  "plain_run [] c = ([], c)"
| "plain_run (p # ops) c =
    (case p of
       Get w \<Rightarrow> let (ds, c') = plain_run ops c in (c ! unat w # ds, c')
     | Put w b \<Rightarrow> plain_run ops (c[unat w := b])
     | Flush \<Rightarrow> plain_run ops c
     | Clear \<Rightarrow> plain_run ops c)"

fun op_ok :: "u64 \<Rightarrow> u64 \<Rightarrow> cache_op \<Rightarrow> bool" where
  "op_ok bs bc (Get w) = (w < bc)"
| "op_ok bs bc (Put w b) = (w < bc \<and> length b = unat bs)"
| "op_ok bs bc _ = True"

context block_device
begin

lemma cache_get_ok:
  assumes inv: "cache_inv K (bc, s)" and w: "unat w < K"
  obtains bc' s' where "cache_get dev (bc, s) w = Some (Some (view (bc, s) ! unat w), bc', s')"
    "cache_inv K (bc', s')" "view (bc', s') = view (bc, s)"
proof -
  obtain bc' s' where r: "bcache_read_block dev (bc, s) w = Some (Some (slot_of (bc_size bc') (unat w) * bsn), bc', s')"
    "cache_inv K (bc', s')" "view (bc', s') = view (bc, s)" "bc_indexes bc' ! slot_of (bc_size bc') (unat w) = w"
    by (rule bcache_read_ok [OF inv w])
  have "rd (bc_data bc') (slot_of (bc_size bc') (unat w) * bsn) bsn = Some (view (bc, s) ! unat w)"
    using inv_slot(4) [OF r(2) w] view_cached [OF r(2) w r(4)] r(3) by (simp add: rd_def block_at_def add.commute)
  then have "cache_get dev (bc, s) w = Some (Some (view (bc, s) ! unat w), bc', s')"
    using r(1) by (simp add: cache_get_def)
  from that [OF this r(2,3)] show thesis .
qed

lemma cache_put_ok:
  assumes inv: "cache_inv K (bc, s)" and w: "unat w < K" and b: "length b = bsn"
  obtains bc' s' where "cache_put dev (bc, s) w b = Some (True, bc', s')"
    "cache_inv K (bc', s')" "view (bc', s') = (view (bc, s))[unat w := b]"
proof -
  obtain bc1 s1 where r: "bcache_read_block dev (bc, s) w = Some (Some (slot_of (bc_size bc1) (unat w) * bsn), bc1, s1)"
    "cache_inv K (bc1, s1)" "view (bc1, s1) = view (bc, s)" "bc_indexes bc1 ! slot_of (bc_size bc1) (unat w) = w"
    by (rule bcache_read_ok [OF inv w])
  let ?h = "slot_of (bc_size bc1) (unat w)"
  obtain bc' where "bcache_write_block dev (bc1\<lparr>bc_data := patch (?h * bsn) b (bc_data bc1)\<rparr>, s1) w (Cached (?h * bsn)) = Some (bc', s1)"
    "cache_inv K (bc', s1)" "view (bc', s1) = (view (bc1, s1))[unat w := b]"
    by (rule bcache_write_ok [OF r(2) w refl r(4) b])
  moreover have "wr (bc_data bc1) (?h * bsn) b = Some (patch (?h * bsn) b (bc_data bc1))"
    using inv_slot(4) [OF r(2) w] b by (simp add: wr_def add.commute)
  ultimately show thesis using r(1,3) that by (simp add: cache_put_def)
qed

lemma cache_run_ok:
  assumes "cache_inv (unat (block_count dev)) (bc, s)" and "list_all (op_ok (block_size dev) (block_count dev)) ops"
  shows "\<exists>bc' s'. cache_run dev ops (bc, s) = Some (fst (plain_run ops (view (bc, s))), bc', s') \<and>
    cache_inv (unat (block_count dev)) (bc', s') \<and> view (bc', s') = snd (plain_run ops (view (bc, s)))"
  using assms
proof (induction ops arbitrary: bc s)
  case (Cons p ops)
  let ?K = "unat (block_count dev)"
  note inv = Cons.prems(1)
  have rest: "\<exists>bc' s'. cache_run dev ops (bc1, s1) = Some (fst (plain_run ops (view (bc1, s1))), bc', s') \<and>
      cache_inv ?K (bc', s') \<and> view (bc', s') = snd (plain_run ops (view (bc1, s1)))" if "cache_inv ?K (bc1, s1)" for bc1 s1
    using Cons.IH [OF that] Cons.prems(2) by simp
  show ?case
  proof (cases p)
    case (Get w)
    then have "unat w < ?K" using Cons.prems(2) by (simp add: word_less_nat_alt)
    then obtain bc1 s1 where "cache_get dev (bc, s) w = Some (Some (view (bc, s) ! unat w), bc1, s1)"
      "cache_inv ?K (bc1, s1)" "view (bc1, s1) = view (bc, s)" by (rule cache_get_ok [OF inv])
    with rest [OF this(2)] Get show ?thesis by (auto simp: split_beta Let_def)
  next
    case (Put w b)
    then have "unat w < ?K" "length b = bsn" using Cons.prems(2) by (simp_all add: word_less_nat_alt)
    then obtain bc1 s1 where "cache_put dev (bc, s) w b = Some (True, bc1, s1)"
      "cache_inv ?K (bc1, s1)" "view (bc1, s1) = (view (bc, s))[unat w := b]" by (rule cache_put_ok [OF inv])
    with rest [OF this(2)] Put show ?thesis by auto
  next
    case Flush
    obtain bc1 s1 where "bcache_flush dev (bc, s) = Some (bc1, s1)" "cache_inv ?K (bc1, s1)"
      "view (bc1, s1) = view (bc, s)" by (rule bcache_flush_ok [OF inv])
    with rest [OF this(2)] Flush show ?thesis by auto
  next
    case Clear
    obtain bc1 s1 where "bcache_clear dev (bc, s) = Some (bc1, s1)" "cache_inv ?K (bc1, s1)"
      "view (bc1, s1) = view (bc, s)" by (rule bcache_clear_ok [OF inv])
    with rest [OF this(2)] Clear show ?thesis by auto
  qed
qed simp

lemma bcache_destroy_ok:
  assumes "cache_inv K (bc, s)"
  obtains s' where "bcache_destroy dev (bc, s) = Some s'" "valid s'" "cont s' = view (bc, s)"
proof -
  obtain bc' s' where "bcache_flush dev (bc, s) = Some (bc', s')" "cache_inv K (bc', s')" "cont s' = view (bc, s)"
    by (rule bcache_flush_ok [OF assms])
  then show thesis by (intro that) (simp_all add: bcache_destroy_def cache_inv_def)
qed

lemma cache_transparent:
  assumes rel and "valid s" and "alloc_ok alloc"
    and "0 < unat limit" and "unat limit < 2 ^ 29" and "unat limit * bsn < 2 ^ 64"
    and "bcache_create alloc dev limit = Some bc"
    and "list_all (op_ok (block_size dev) (block_count dev)) ops"
  shows "\<exists>st' s'. cache_run dev ops (bc, s) = Some (fst (plain_run ops (cont s)), st') \<and>
    bcache_destroy dev st' = Some s' \<and> valid s' \<and> cont s' = snd (plain_run ops (cont s))"
proof -
  have "limit \<noteq> 0" using assms(4) by auto
  note new = bcache_create_ok [OF assms(3,1,2) order_refl this assms(5-7)]
  from cache_run_ok [OF new(1) assms(8), unfolded new(2)] obtain bc' s' where r:
    "cache_run dev ops (bc, s) = Some (fst (plain_run ops (cont s)), bc', s')"
    "cache_inv (unat (block_count dev)) (bc', s')" "view (bc', s') = snd (plain_run ops (cont s))" by blast
  then show ?thesis using bcache_destroy_ok [OF r(2)] by metis
qed

end

section \<open>Dirty slots without a number\<close>

definition empty_slots :: "bcache \<Rightarrow> bool" where
  "empty_slots bc \<longleftrightarrow> bc_size bc \<noteq> 0 \<and> length (bc_indexes bc) = unat (bc_size bc) \<and>
    unat (bc_size bc) \<le> 8 * length (bc_dirty bc) \<and> (\<forall>h < unat (bc_size bc). bc_indexes bc ! h = - 1)"

lemma u32_idx:
  assumes "h < unat (n :: u32)"
  shows "unat (of_nat h :: u32) = h" "unat (ucast (of_nat h :: u32) :: u64) = h"
proof -
  have "unat n < 2 ^ LENGTH(32)" by (rule unsigned_less)
  then show h: "unat (of_nat h :: u32) = h" using assms by (simp add: unat_of_nat take_bit_nat_eq_self_iff)
  then show "unat (ucast (of_nat h :: u32) :: u64) = h" by (simp only: unat_u32_u64)
qed

lemma evict_empty:
  assumes "empty_slots bc" and g: "g < unat (bc_size bc)" and "\<not> bits (bc_dirty bc) g"
  obtains bc' where "bcache_evict base (bc, s) (of_nat g) = Some (bc', s)" "empty_slots bc'"
    "bc_size bc' = bc_size bc" "\<forall>i < unat (bc_size bc). bits (bc_dirty bc') i = bits (bc_dirty bc) i"
proof -
  have b: "unat (ucast (of_nat g :: u32) :: u64) < 8 * length (bc_dirty bc)"
    using assms by (simp add: empty_slots_def u32_idx)
  from bit_clear_Some [OF b] bit_get_Some [OF b] obtain dirty' where d:
    "bit_clear (bc_dirty bc) (ucast (of_nat g :: u32)) = Some dirty'" "length dirty' = length (bc_dirty bc)"
    "\<forall>i < 8 * length (bc_dirty bc). bits dirty' i = (i \<noteq> g \<and> bits (bc_dirty bc) i)"
    "bit_get (bc_dirty bc) (ucast (of_nat g :: u32)) = Some False"
    unfolding u32_idx [OF g] using assms(3) by auto
  have "(bc_indexes bc)[g := - 1] = bc_indexes bc" using assms(1) g by (metis empty_slots_def list_update_id)
  then have "bcache_evict base (bc, s) (of_nat g) = Some (bc\<lparr>bc_dirty := dirty'\<rparr>, s)"
    using d u32_idx [OF g] assms(1) g by (simp add: bcache_evict_def index_set_def Let_def empty_slots_def)
  from that [OF this] show thesis using d assms(1,3) by (auto simp: empty_slots_def)
qed

lemma evict_empty_dirty:
  assumes "empty_slots bc" and g: "g < unat (bc_size bc)" and "bits (bc_dirty bc) g"
  shows "bcache_evict (malloc_dev bs n) (bc, s) (of_nat g) = None"
proof -
  have "bit_get (bc_dirty bc) (ucast (of_nat g :: u32)) = Some True"
    using assms bit_get_Some [of "ucast (of_nat g :: u32)" "bc_dirty bc"] by (simp add: empty_slots_def u32_idx)
  then show ?thesis
    using assms by (simp add: bcache_evict_def empty_slots_def Let_def malloc_dev_def mem_write_block_def u32_idx)
qed

lemma flush_empty_dirty:
  "empty_slots bc \<Longrightarrow> h \<in> set hs \<Longrightarrow> set hs \<subseteq> {..<unat (bc_size bc)} \<Longrightarrow> bits (bc_dirty bc) h \<Longrightarrow>
    bcache_flush_loop (malloc_dev bs n) hs (bc, s) = None"
proof (induction hs arbitrary: bc)
  case (Cons g hs)
  have g: "g < unat (bc_size bc)" "h < unat (bc_size bc)" using Cons.prems(2,3) by auto
  show ?case
  proof (cases "bits (bc_dirty bc) g")
    case True
    with evict_empty_dirty [OF Cons.prems(1) g(1), of bs n s] show ?thesis by simp
  next
    case False
    obtain bc' where e: "bcache_evict (malloc_dev bs n) (bc, s) (of_nat g) = Some (bc', s)" "empty_slots bc'"
      "bc_size bc' = bc_size bc" "\<forall>i < unat (bc_size bc). bits (bc_dirty bc') i = bits (bc_dirty bc) i"
      by (rule evict_empty [OF Cons.prems(1) g(1) False])
    have "h \<in> set hs" using Cons.prems(2,4) False by auto
    then have "bcache_flush_loop (malloc_dev bs n) hs (bc', s) = None"
      using Cons.IH [OF e(2)] Cons.prems(3,4) e(3,4) g(2) by simp
    with e(1) show ?thesis by simp
  qed
qed simp

section \<open>Properties\<close>

text \<open>C16: The write-back cache is transparent. Over a reliable device, any sequence of reads, writes
  in place, flushes and clears through a new cache returns what the same operations on the
  device's blocks return, whatever collisions the hash has, and destroying the cache leaves
  the device with the final contents.\<close>
theorem cache_is_transparent:
  assumes "block_device dev valid cont True" and "valid s" and "alloc_ok alloc"
    and "0 < unat limit" and "unat limit < 2 ^ 29" and "unat limit * unat (block_size dev) < 2 ^ 64"
    and "bcache_create alloc dev limit = Some bc"
    and "list_all (op_ok (block_size dev) (block_count dev)) ops"
  shows "\<exists>st' s'. cache_run dev ops (bc, s) = Some (fst (plain_run ops (cont s)), st') \<and>
    bcache_destroy dev st' = Some s' \<and> valid s' \<and> cont s' = snd (plain_run ops (cont s))"
  by (rule block_device.cache_transparent [OF assms(1) TrueI assms(2-8)])

lemma cache_is_transparent_witness:
  "\<exists>bc st' s'. bcache_create calloc_alloc (malloc_dev 4 3 :: unit mem_state bdev) 1 = Some bc \<and>
    cache_run (malloc_dev 4 3) [Put 0 [1, 2, 3, 4], Put 2 [5, 6, 7, 8], Get 0] (bc, ram_of 4 (replicate 3 [0, 0, 0, 0])) =
      Some ([[1, 2, 3, 4]], st') \<and>
    bcache_destroy (malloc_dev 4 3) st' = Some s' \<and> mem_cont 4 3 s' = [[1, 2, 3, 4], [0, 0, 0, 0], [5, 6, 7, 8]]"
proof -
  let ?s = "ram_of 4 (replicate 3 [0, 0, 0, 0])" and ?ops = "[Put 0 [1, 2, 3, 4], Put 2 [5, 6, 7, 8], Get 0]"
  have v: "mem_valid 4 3 ?s" "mem_cont 4 3 ?s = replicate 3 [0, 0, 0, 0]" by (rule ram_of_valid; simp)+
  obtain bc where bc: "bcache_create calloc_alloc (malloc_dev 4 3 :: unit mem_state bdev) 1 = Some bc"
    by (simp add: bcache_create_def calloc_alloc_def memset_def wr_def)
  have "\<exists>st' s'. cache_run (malloc_dev 4 3) ?ops (bc, ?s) = Some (fst (plain_run ?ops (mem_cont 4 3 ?s)), st') \<and>
    bcache_destroy (malloc_dev 4 3) st' = Some s' \<and> mem_valid 4 3 s' \<and> mem_cont 4 3 s' = snd (plain_run ?ops (mem_cont 4 3 ?s))"
    by (rule cache_is_transparent [OF malloc.block_device_axioms v(1) calloc_alloc_ok _ _ _ bc]; simp add: malloc_dev_def)
  moreover have "plain_run ?ops (mem_cont 4 3 ?s) = ([[1, 2, 3, 4]], [[1, 2, 3, 4], [0, 0, 0, 0], [5, 6, 7, 8]])"
    unfolding v(2) by (simp add: numeral_3_eq_3)
  ultimately show ?thesis using bc by (metis fst_conv snd_conv)
qed

text \<open>A write of a block that is not cached is never recorded: \<open>bcache_write_block\<close> leaves the
  slot's number at all ones with its dirty bit set, and the next flush passes that number to the
  device, whose assertion fails.\<close>
theorem bcache_blind_write_dies:
  assumes "empty_slots bc" and "w \<noteq> - 1"
    and "bcache_write_block (malloc_dev bs n) (bc, s) w from = Some st"
  shows "bcache_flush (malloc_dev bs n) st = None"
proof -
  let ?h = "slot_of (bc_size bc) (unat w)" and ?d = "malloc_dev bs n"
  have sz: "bc_size bc \<noteq> 0" "length (bc_indexes bc) = unat (bc_size bc)" using assms(1) by (simp_all add: empty_slots_def)
  then have h: "?h < unat (bc_size bc)" by (intro slot_of_less)
  have sl: "bcache_slot bc w = Some (of_nat ?h)" using sz(1) by (simp add: bcache_slot_def slot_of_def)
  have ix: "bc_indexes bc ! ?h = - 1" using assms(1) h by (simp add: empty_slots_def)
  obtain bc1 s1 where e: "bcache_evict ?d (bc, s) (of_nat ?h) = Some (bc1, s1)"
    using assms(2,3) sl ix u32_idx [OF h] h sz(2)
    by (cases "bcache_evict ?d (bc, s) (of_nat ?h)") (auto simp: bcache_write_block_def)
  then have clean: "\<not> bits (bc_dirty bc) ?h" using evict_empty_dirty [OF assms(1) h, of bs n s] by auto
  have e1: "empty_slots bc1" "bc_size bc1 = bc_size bc" using evict_empty [OF assms(1) h clean, of ?d s] e by auto
  have "?h < 8 * length (bc_dirty bc1)" using e1 h by (simp add: empty_slots_def)
  then obtain dirty where d: "bit_set (bc_dirty bc1) (ucast (of_nat ?h :: u32)) = Some dirty"
    "length dirty = length (bc_dirty bc1)" "bits dirty ?h"
    using bit_set_Some [of "ucast (of_nat ?h :: u32)" "bc_dirty bc1"] u32_idx [OF h] by auto
  obtain data where st: "st = (bc1\<lparr>bc_data := data, bc_dirty := dirty\<rparr>, s1)"
    using assms(2,3) sl ix h sz(2) u32_idx [OF h] e d(1)
    by (auto simp: bcache_write_block_def Let_def split: bind_splits if_splits)
  have "empty_slots (bc1\<lparr>bc_data := data, bc_dirty := dirty\<rparr>)" using e1(1) d(2) by (simp add: empty_slots_def)
  from flush_empty_dirty [OF this, of ?h "[0..<unat (bc_size bc)]" bs n s1] d(3) h e1(2) st
  show ?thesis by (simp add: bcache_flush_def lessThan_atLeast0)
qed

lemma bcache_blind_write_dies_witness:
  "\<exists>bc st. bcache_create calloc_alloc (malloc_dev 4 3 :: unit mem_state bdev) 1 = Some bc \<and>
    bcache_write_block (malloc_dev 4 3) (bc, ram 4 (replicate 12 0)) 2 (Caller [1, 2, 3, 4]) = Some st \<and>
    bcache_flush (malloc_dev 4 3) st = None"
proof -
  let ?bc = "\<lparr>bc_size = 1, bc_data = replicate 4 0, bc_indexes = [- 1], bc_dirty = [0]\<rparr>"
  have bc: "bcache_create calloc_alloc (malloc_dev 4 3 :: unit mem_state bdev) 1 = Some ?bc"
    by (simp add: bcache_create_def calloc_alloc_def memset_def wr_def malloc_dev_def)
  have sh: "empty_slots ?bc" by (simp add: empty_slots_def)
  obtain st where st: "bcache_write_block (malloc_dev 4 3) (?bc, ram 4 (replicate 12 0)) 2 (Caller [1, 2, 3, 4]) = Some st"
    by (simp add: bcache_write_block_def bcache_slot_def bcache_evict_def bcache_offset_def bit_get_def bit_clear_def
        bit_set_def index_set_def malloc_dev_def rd_def wr_def Let_def)
  from bcache_blind_write_dies [OF sh _ st] have "bcache_flush (malloc_dev 4 3) st = None" by simp
  with bc st show ?thesis by blast
qed

end
