(* ===== verification/Lazyzero.thy ===== *)
theory Lazyzero
  imports BlockCache Endian
begin

text \<open>
  \<open>src/src/layers/lazyzero.c\<close>: a layer that reads as zeros what has not been written since the
  device was created. The device below has a header block, a bitmap with one bit per chunk of
  \<open>chunk_size\<close> blocks, and the data. The bitmap is reached through a block cache; a chunk is
  zeroed when it is first written to.

  The code looks for the bitmap one block too low: the bit of chunk 0 is bit 0 of the header.
  The layer still keeps the contract of its block operations while it is open, because the
  blocks it takes for the bitmap do not overlap the data; what goes wrong shows in the
  properties: the first write to the device destroys the header, chunks that were never written
  show old data, and a write of part of a block to a new chunk is lost.
\<close>

unbundle bit_operations_syntax

section \<open>The layer\<close>

record lazy_io =
  bits_per_block :: u64
  bitmap_blocks :: u64
  chunk_size :: u64

type_synonym 's lazy_state = "bcache obj \<times> 's"

definition LAZY_MAGIC :: bytes where
  "LAZY_MAGIC = [0x4C, 0x41, 0x5A, 0x59, 0x30, 0x30, 0x30, 0x30]"

text \<open>The cache and the device below it, as one state; the layer's buffer stays.\<close>

definition cached :: "'s lazy_state \<Rightarrow> 's cached" where
  "cached st = (obj_m (fst st), snd st)"

definition set_cached :: "'s cached \<Rightarrow> 's lazy_state \<Rightarrow> 's lazy_state" where
  "set_cached cst st = ((fst st)\<lparr>obj_m := fst cst\<rparr>, snd cst)"

text \<open>\<open>(self->block_count + io->chunk_size - 1)/io->chunk_size\<close>.\<close>

definition lazy_chunks :: "lazy_io \<Rightarrow> u64 \<Rightarrow> u64 run" where
  "lazy_chunks io n = c_div (n + chunk_size io - 1) (chunk_size io)"

definition lazyzero_chunk_usable ::
  "'s bdev \<Rightarrow> lazy_io \<Rightarrow> u64 \<Rightarrow> 's lazy_state \<Rightarrow> u64 \<Rightarrow> (bool \<times> 's lazy_state) run" where
  "lazyzero_chunk_usable base io n st chunk = do {
     chunks \<leftarrow> lazy_chunks io n;
     c_assert (chunk < chunks);
     bitmap_block \<leftarrow> c_div chunk (bits_per_block io);
     interior \<leftarrow> c_mod chunk (bits_per_block io);
     (bl, cst) \<leftarrow> bcache_read_block base (cached st) bitmap_block;
     case bl of
       None \<Rightarrow> Some (False, set_cached cst st)
     | Some p \<Rightarrow> do {
         b \<leftarrow> bit_get (drop p (bc_data (fst cst))) interior;
         Some (b, set_cached cst st) } }"

definition lazyzero_set_chunk_usable ::
  "'s bdev \<Rightarrow> lazy_io \<Rightarrow> u64 \<Rightarrow> 's lazy_state \<Rightarrow> u64 \<Rightarrow> (bool \<times> 's lazy_state) run" where
  "lazyzero_set_chunk_usable base io n st chunk = do {
     chunks \<leftarrow> lazy_chunks io n;
     c_assert (chunk < chunks);
     bitmap_block \<leftarrow> c_div chunk (bits_per_block io);
     interior \<leftarrow> c_mod chunk (bits_per_block io);
     (bl, cst) \<leftarrow> bcache_read_block base (cached st) bitmap_block;
     case bl of
       None \<Rightarrow> Some (False, set_cached cst st)
     | Some p \<Rightarrow> do {
         d \<leftarrow> bit_set (drop p (bc_data (fst cst))) interior;
         let cst = ((fst cst)\<lparr>bc_data := take p (bc_data (fst cst)) @ d\<rparr>, snd cst);
         cst \<leftarrow> bcache_write_block base cst bitmap_block (Cached p);
         Some (True, set_cached cst st) } }"

text \<open>The loop of \<open>lazyzero_clear_chunk\<close>; \<open>buf\<close> is the zeroed generic block buffer.\<close>

primrec lazyzero_clear_loop :: "'s bdev \<Rightarrow> u64 \<Rightarrow> bytes \<Rightarrow> nat list \<Rightarrow> 's \<Rightarrow> (bool \<times> 's) run" where
  "lazyzero_clear_loop base base_block buf [] s = Some (True, s)"
| "lazyzero_clear_loop base base_block buf (i # is) s =
    (if base_block + of_nat i < block_count base then do {
       (ok, s) \<leftarrow> write_block base s (base_block + of_nat i) buf;
       if \<not> ok then Some (False, s) else lazyzero_clear_loop base base_block buf is s }
     else lazyzero_clear_loop base base_block buf is s)"

definition lazyzero_clear_chunk ::
  "'s bdev \<Rightarrow> lazy_io \<Rightarrow> 's lazy_state \<Rightarrow> u64 \<Rightarrow> (bool \<times> 's lazy_state) run" where
  "lazyzero_clear_chunk base io st chunk = do {
     g \<leftarrow> memset (generic_block_buffer (fst st)) 0 0 (unat (block_size base));
     let st = set_buffer st g;
     let base_block = chunk * chunk_size io + bitmap_blocks io + 1;
     (ok, s) \<leftarrow> lazyzero_clear_loop base base_block g [0..<unat (chunk_size io)] (snd st);
     Some (ok, (fst st, s)) }"

definition lazyzero_read_block :: "'s bdev \<Rightarrow> lazy_io \<Rightarrow> u64 \<Rightarrow> 's lazy_state block_read" where
  "lazyzero_read_block base io n st which into = do {
     c_assert (which < n);
     chunk \<leftarrow> c_div which (chunk_size io);
     (usable, st) \<leftarrow> lazyzero_chunk_usable base io n st chunk;
     if \<not> usable then do {
       into \<leftarrow> memset into 0 0 (unat (block_size base));
       Some (True, into, st) }
     else do {
       (ok, into, s) \<leftarrow> read_block base (snd st) (which + 1 + bitmap_blocks io) into;
       Some (ok, into, (fst st, s)) } }"

text \<open>The source is read at the very end, when the buffer may have been zeroed.\<close>

definition lazyzero_write_block :: "'s bdev \<Rightarrow> lazy_io \<Rightarrow> u64 \<Rightarrow> 's lazy_state src_write" where
  "lazyzero_write_block base io n st which from = do {
     c_assert (which < n);
     chunk \<leftarrow> c_div which (chunk_size io);
     (usable, st) \<leftarrow> lazyzero_chunk_usable base io n st chunk;
     (ok, st) \<leftarrow> (if \<not> usable then do {
         (ok, st) \<leftarrow> lazyzero_clear_chunk base io st chunk;
         if \<not> ok then Some (False, st)
         else lazyzero_set_chunk_usable base io n st chunk }
       else Some (True, st));
     if \<not> ok then Some (False, st)
     else do {
       (ok, s) \<leftarrow> write_block base (snd st) (which + 1 + bitmap_blocks io) (deref (fst st) from);
       Some (ok, (fst st, s)) } }"

definition lazyzero_close :: "'s bdev \<Rightarrow> 's lazy_state \<Rightarrow> 's run" where
  "lazyzero_close base st = bcache_destroy base (cached st)"

definition lazyzero_clear_caches :: "'s bdev \<Rightarrow> 's lazy_state \<Rightarrow> 's lazy_state run" where
  "lazyzero_clear_caches base st = do {
     cst \<leftarrow> bcache_clear base (cached st);
     s \<leftarrow> clear_caches base (snd cst);
     Some (set_cached (fst cst, s) st) }"

definition lazyzero_flush :: "'s bdev \<Rightarrow> 's lazy_state \<Rightarrow> 's lazy_state run" where
  "lazyzero_flush base st = do {
     cst \<leftarrow> bcache_flush base (cached st);
     s \<leftarrow> flush base (snd cst);
     Some (set_cached (fst cst, s) st) }"

definition lazyzero_sync :: "'s bdev \<Rightarrow> 's lazy_state \<Rightarrow> 's lazy_state run" where
  "lazyzero_sync base st = do {
     cst \<leftarrow> bcache_flush base (cached st);
     s \<leftarrow> sync base (snd cst);
     Some (set_cached (fst cst, s) st) }"

definition lazyzero_dev :: "'s bdev \<Rightarrow> lazy_io \<Rightarrow> 's lazy_state bdev" where
  "lazyzero_dev base io =
    (let bs = block_size base; n = block_count base - 1 - bitmap_blocks io;
         rb = lazyzero_read_block base io n; wb = lazyzero_write_block base io n in
     \<lparr>block_size = bs, block_count = n,
      read_bytes = generic_read_bytes bs n rb, write_bytes = generic_write_bytes bs n rb wb,
      read_block = rb, write_block = (\<lambda>st which from. wb st which (Ext from)),
      clear_caches = lazyzero_clear_caches base, flush = lazyzero_flush base, sync = lazyzero_sync base\<rparr>)"

section \<open>Creating and opening\<close>

text \<open>The loop that clears the bitmap writes block \<open>i + 1\<close> for the bitmap block \<open>i\<close>.\<close>

primrec lazyzero_bitmap_loop :: "'s bdev \<Rightarrow> bytes \<Rightarrow> nat list \<Rightarrow> 's \<Rightarrow> (bool \<times> 's) run" where
  "lazyzero_bitmap_loop base header [] s = Some (True, s)"
| "lazyzero_bitmap_loop base header (i # is) s = do {
     (ok, s) \<leftarrow> write_block base s (of_nat i + 1) header;
     if \<not> ok then Some (False, s) else lazyzero_bitmap_loop base header is s }"

definition lazyzero_create :: "allocator \<Rightarrow> 's bdev \<Rightarrow> 's \<Rightarrow> (bool \<times> 's) run" where
  "lazyzero_create alloc base s =
    (if block_size base < 32 then Some (False, s)
     else if block_count base < 3 then Some (False, s)
     else do {
       let bits_per_block = block_size base * 8;
       let chunk_size = 1024;
       let bitmap_bits = ((block_count base - 1) + chunk_size - 1) div chunk_size;
       bitmap_blocks \<leftarrow> c_div (bitmap_bits + bits_per_block - 1) bits_per_block;
       c_assert (bitmap_blocks * bits_per_block \<ge>
         (block_count base - 1 - bitmap_blocks + chunk_size - 1) div chunk_size);
       header \<leftarrow> alloc (unat (block_size base));
       header \<leftarrow> memset header 0 0 (unat (block_size base));
       header \<leftarrow> wr header 0 LAZY_MAGIC;
       header \<leftarrow> pack_be64 (block_count base) header 8;
       header \<leftarrow> pack_be64 bitmap_blocks header 16;
       header \<leftarrow> pack_be64 chunk_size header 24;
       (ok, s) \<leftarrow> write_block base s 0 header;
       if \<not> ok then Some (False, s)
       else do {
         header \<leftarrow> memset header 0 0 (unat (block_size base));
         lazyzero_bitmap_loop base header [1..<unat (bitmap_blocks + 1)] s } })"

definition lazyzero_open ::
  "allocator \<Rightarrow> 's bdev \<Rightarrow> 's \<Rightarrow> (('s lazy_state bdev \<times> lazy_io \<times> bcache obj) option \<times> 's) run" where
  "lazyzero_open alloc base s =
    (if block_size base < 32 then Some (None, s)
     else if block_count base < 3 then Some (None, s)
     else do {
       buf \<leftarrow> alloc (unat (block_size base));
       (ok, buf, s) \<leftarrow> read_block base s 0 buf;
       if \<not> ok then Some (None, s)
       else do {
         magic \<leftarrow> rd buf 0 8;
         if magic \<noteq> LAZY_MAGIC then Some (None, s)
         else do {
           header_block_count \<leftarrow> unpack_be64 buf 8;
           bb \<leftarrow> unpack_be64 buf 16;
           cs \<leftarrow> unpack_be64 buf 24;
           let io = \<lparr>bits_per_block = block_size base * 8, bitmap_blocks = bb, chunk_size = cs\<rparr>;
           if header_block_count \<noteq> block_count base then Some (None, s)
           else do {
             needed \<leftarrow> c_div (block_count base - 1 - bb + cs - 1) cs;
             if bb * bits_per_block io < needed then Some (None, s)
             else do {
               bc \<leftarrow> bcache_create alloc base 16;
               Some (Some (lazyzero_dev base io, io, \<lparr>generic_block_buffer = buf, obj_m = bc\<rparr>), s) } } } } })"

section \<open>What the layer shows\<close>

text \<open>The geometry the layer works with: at least one data block, whole chunks, enough blocks for
  the bits, and no sum that wraps around.\<close>

definition lazy_geo :: "'s bdev \<Rightarrow> lazy_io \<Rightarrow> bool" where
  "lazy_geo base io \<longleftrightarrow> unat (bitmap_blocks io) + 1 < unat (block_count base) \<and>
    0 < unat (chunk_size io) \<and> unat (block_count base) + unat (chunk_size io) < 2 ^ 64 \<and>
    bits_per_block io = block_size base * 8 \<and> unat (block_size base) * 8 < 2 ^ 64 \<and>
    unat (block_count base) - 1 - unat (bitmap_blocks io) \<le>
      unat (bitmap_blocks io) * (unat (block_size base) * 8) * unat (chunk_size io)"

definition chunk_bit :: "nat \<Rightarrow> bytes list \<Rightarrow> nat \<Rightarrow> bool" where
  "chunk_bit bs v c = bits (v ! (c div (8 * bs))) (c mod (8 * bs))"

text \<open>The contents, as a function of the blocks below seen through the cache.\<close>

definition lazy_blocks :: "nat \<Rightarrow> lazy_io \<Rightarrow> bytes list \<Rightarrow> bytes list" where
  "lazy_blocks bs io v = map (\<lambda>w. if chunk_bit bs v (w div unat (chunk_size io))
     then v ! (w + 1 + unat (bitmap_blocks io)) else replicate bs 0)
     [0..<length v - 1 - unat (bitmap_blocks io)]"

lemma length_lazy_blocks [simp]: "length (lazy_blocks bs io v) = length v - 1 - unat (bitmap_blocks io)"
  by (simp add: lazy_blocks_def)

lemma nth_lazy_blocks: "w < length v - 1 - unat (bitmap_blocks io) \<Longrightarrow> lazy_blocks bs io v ! w =
  (if chunk_bit bs v (w div unat (chunk_size io)) then v ! (w + 1 + unat (bitmap_blocks io)) else replicate bs 0)"
  by (simp add: lazy_blocks_def)

lemma same_chunk: "0 < (C::nat) \<Longrightarrow> c * C \<le> x \<and> x < c * C + C \<longleftrightarrow> x div C = c"
proof
  assume "0 < C" and "c * C \<le> x \<and> x < c * C + C"
  then show "x div C = c" by (intro div_nat_eqI) (simp_all add: mult.commute)
next
  assume C: "0 < C" and "x div C = c"
  then have "x = c * C + x mod C" by (metis div_mult_mod_eq)
  moreover have "x mod C < C" using C by simp
  ultimately show "c * C \<le> x \<and> x < c * C + C" by linarith
qed

text \<open>The bit of every block's chunk is in a bitmap block.\<close>

definition bits_fit :: "nat \<Rightarrow> lazy_io \<Rightarrow> nat \<Rightarrow> bool" where
  "bits_fit bs io N \<longleftrightarrow> 0 < unat (chunk_size io) \<and> N \<le> unat (bitmap_blocks io) * (8 * bs) * unat (chunk_size io)"

lemma bit_block_less:
  assumes "bits_fit bs io N" and "x < N"
  shows "x div unat (chunk_size io) div (8 * bs) < unat (bitmap_blocks io)"
proof -
  have "x < unat (bitmap_blocks io) * (8 * bs) * unat (chunk_size io)" using assms by (simp add: bits_fit_def)
  then have "x div unat (chunk_size io) < unat (bitmap_blocks io) * (8 * bs)" by (rule less_mult_imp_div_less)
  then show ?thesis by (rule less_mult_imp_div_less)
qed

text \<open>Writing a block of a chunk whose bit is set; zeroing a chunk and setting its bit.\<close>

lemma lazy_blocks_store:
  assumes fit: "bits_fit bs io (length v - 1 - unat (bitmap_blocks io))"
    and w: "w < length v - 1 - unat (bitmap_blocks io)" and b: "chunk_bit bs v (w div unat (chunk_size io))"
  shows "lazy_blocks bs io (v[w + 1 + unat (bitmap_blocks io) := d]) = (lazy_blocks bs io v)[w := d]"
proof (rule nth_equalityI)
  fix x assume "x < length (lazy_blocks bs io (v[w + 1 + unat (bitmap_blocks io) := d]))"
  then have x: "x < length v - 1 - unat (bitmap_blocks io)" by simp
  have "chunk_bit bs (v[w + 1 + unat (bitmap_blocks io) := d]) (x div unat (chunk_size io)) =
      chunk_bit bs v (x div unat (chunk_size io))"
    using bit_block_less [OF fit x] by (simp add: chunk_bit_def)
  then show "lazy_blocks bs io (v[w + 1 + unat (bitmap_blocks io) := d]) ! x = (lazy_blocks bs io v)[w := d] ! x"
    using x w b by (cases "x = w") (simp_all add: nth_lazy_blocks)
qed simp

lemma chunk_bit_set:
  assumes "length v' = length v" and "0 < bs" and "c div (8 * bs) < length v"
    and "\<forall>j < length v. j \<noteq> c div (8 * bs) \<longrightarrow> v' ! j = v ! j"
    and "\<forall>i < 8 * bs. bits (v' ! (c div (8 * bs))) i = (i = c mod (8 * bs) \<or> bits (v ! (c div (8 * bs))) i)"
    and "c' div (8 * bs) < length v"
  shows "chunk_bit bs v' c' = (c' = c \<or> chunk_bit bs v c')"
proof (cases "c' div (8 * bs) = c div (8 * bs)")
  case True
  have "c' mod (8 * bs) = c mod (8 * bs) \<longleftrightarrow> c' = c" using True by (metis div_mult_mod_eq)
  moreover have "c' mod (8 * bs) < 8 * bs" using assms(2) by (intro mod_less_divisor) simp
  ultimately show ?thesis using assms(5) True by (simp add: chunk_bit_def)
next
  case False
  then have "c' \<noteq> c" by auto
  with False assms(4,6) show ?thesis by (simp add: chunk_bit_def)
qed

lemma lazy_blocks_fresh:
  assumes fit: "bits_fit bs io (length v - 1 - unat (bitmap_blocks io))" and "0 < bs"
    and w: "w < length v - 1 - unat (bitmap_blocks io)" and c: "c = w div unat (chunk_size io)"
    and b: "\<not> chunk_bit bs v c" and len: "length v' = length v"
    and clear: "\<forall>j < length v. j \<noteq> c div (8 * bs) \<longrightarrow>
      v' ! j = (if c * unat (chunk_size io) + unat (bitmap_blocks io) + 1 \<le> j \<and>
        j < c * unat (chunk_size io) + unat (bitmap_blocks io) + 1 + unat (chunk_size io) then replicate bs 0 else v ! j)"
    and new: "\<forall>i < 8 * bs. bits (v' ! (c div (8 * bs))) i = (i = c mod (8 * bs) \<or> bits (v ! (c div (8 * bs))) i)"
  shows "lazy_blocks bs io v' = lazy_blocks bs io v" "chunk_bit bs v' c"
proof -
  let ?K = "unat (bitmap_blocks io)" and ?C = "unat (chunk_size io)"
  have C: "0 < ?C" using fit by (simp add: bits_fit_def)
  have cK: "c div (8 * bs) < ?K" using bit_block_less [OF fit w] c by simp
  let ?v1 = "v[c div (8 * bs) := v' ! (c div (8 * bs))]"
  have bit: "chunk_bit bs v' x = (x = c \<or> chunk_bit bs v x)" if "x div (8 * bs) < ?K" for x
  proof -
    have "chunk_bit bs ?v1 x = (x = c \<or> chunk_bit bs v x)"
      using chunk_bit_set [of ?v1 v bs c x] assms(2) new cK that w by simp
    moreover have "v' ! (x div (8 * bs)) = ?v1 ! (x div (8 * bs))"
      using clear that w by (cases "x div (8 * bs) = c div (8 * bs)") simp_all
    ultimately show ?thesis by (simp add: chunk_bit_def)
  qed
  show "chunk_bit bs v' c" using bit [OF cK] by simp
  show "lazy_blocks bs io v' = lazy_blocks bs io v"
  proof (rule nth_equalityI)
    fix x assume "x < length (lazy_blocks bs io v')"
    then have x: "x < length v - 1 - ?K" using len by simp
    have "v' ! (x + 1 + ?K) = (if x div ?C = c then replicate bs 0 else v ! (x + 1 + ?K))"
      using clear x cK same_chunk [OF C, of c x] by auto
    then show "lazy_blocks bs io v' ! x = lazy_blocks bs io v ! x"
      using x len bit [OF bit_block_less [OF fit x]] b by (auto simp: nth_lazy_blocks)
  qed (simp add: len)
qed

section \<open>Each operation\<close>

definition lazy_valid :: "'s bdev \<Rightarrow> lazy_io \<Rightarrow> ('s \<Rightarrow> bool) \<Rightarrow> ('s \<Rightarrow> bytes list) \<Rightarrow> 's lazy_state \<Rightarrow> bool" where
  "lazy_valid base io valid cont st \<longleftrightarrow> lazy_geo base io \<and> valid (snd st) \<and>
    cache_shape (unat (block_size base)) (unat (bitmap_blocks io)) (obj_m (fst st)) \<and>
    clean_slots (unat (block_size base)) (obj_m (fst st)) (cont (snd st)) \<and>
    length (generic_block_buffer (fst st)) = unat (block_size base)"

text \<open>The blocks below as they are seen through the cache.\<close>

definition lazy_view :: "'s bdev \<Rightarrow> ('s \<Rightarrow> bytes list) \<Rightarrow> 's lazy_state \<Rightarrow> bytes list" where
  "lazy_view base cont st = cache_view (unat (block_size base)) (obj_m (fst st)) (cont (snd st))"

definition lazy_cont :: "'s bdev \<Rightarrow> lazy_io \<Rightarrow> ('s \<Rightarrow> bytes list) \<Rightarrow> 's lazy_state \<Rightarrow> bytes list" where
  "lazy_cont base io cont st = lazy_blocks (unat (block_size base)) io (lazy_view base cont st)"

definition lazy_count :: "'s bdev \<Rightarrow> lazy_io \<Rightarrow> u64" where
  "lazy_count base io = block_count base - 1 - bitmap_blocks io"

lemma lazy_count_ok:
  "lazy_geo base io \<Longrightarrow> unat (lazy_count base io) = unat (block_count base) - 1 - unat (bitmap_blocks io)"
  "lazy_geo base io \<Longrightarrow> bits_fit (unat (block_size base)) io (unat (lazy_count base io))"
proof -
  assume g: "lazy_geo base io"
  have "unat (block_count base - 1) = unat (block_count base) - 1"
    using g by (intro trans [OF unat_sub_u64]) (simp_all add: lazy_geo_def word_le_nat_alt)
  then show u: "unat (lazy_count base io) = unat (block_count base) - 1 - unat (bitmap_blocks io)"
    unfolding lazy_count_def using g by (subst unat_sub_u64) (auto simp: lazy_geo_def word_le_nat_alt)
  show "bits_fit (unat (block_size base)) io (unat (lazy_count base io))"
    using g by (simp add: u bits_fit_def lazy_geo_def mult.commute mult.left_commute)
qed

context block_device
begin

abbreviation lzv :: "lazy_io \<Rightarrow> bcache obj \<times> 's \<Rightarrow> bool" where
  "lzv io st \<equiv> lazy_valid dev io valid cont st"

lemma lazy_valid_iff:
  "rel \<Longrightarrow> lzv io st \<longleftrightarrow> lazy_geo dev io \<and> cache_inv (unat (bitmap_blocks io)) (cached st) \<and>
    length (generic_block_buffer (fst st)) = bsn"
  unfolding lazy_valid_def cached_def cache_inv_def lazy_geo_def by auto

lemma lazy_view_iff: "lazy_view dev cont st = view (cached st)"
  by (simp add: lazy_view_def view_def cached_def)

lemma cached_set_cached [simp]: "cached (set_cached cst st) = cst"
  "generic_block_buffer (fst (set_cached cst st)) = generic_block_buffer (fst st)"
  by (simp_all add: cached_def set_cached_def)

text \<open>The chunk of a block is in range, its bit is in a bitmap block, and that block is cached.\<close>

lemma chunk_ok:
  assumes g: "lazy_geo dev io" and w: "w < lazy_count dev io"
  obtains q where "lazy_chunks io (lazy_count dev io) = Some q" "w div chunk_size io < q"
    "c_div w (chunk_size io) = Some (w div chunk_size io)"
    "c_div (w div chunk_size io) (bits_per_block io) = Some (w div chunk_size io div bits_per_block io)"
    "c_mod (w div chunk_size io) (bits_per_block io) = Some (w div chunk_size io mod bits_per_block io)"
    "unat (w div chunk_size io div bits_per_block io) = unat w div unat (chunk_size io) div (8 * bsn)"
    "unat (w div chunk_size io mod bits_per_block io) = unat w div unat (chunk_size io) mod (8 * bsn)"
    "unat w div unat (chunk_size io) div (8 * bsn) < unat (bitmap_blocks io)"
    "unat w < unat (block_count dev) - 1 - unat (bitmap_blocks io)" "0 < bsn"
proof -
  let ?n = "lazy_count dev io" and ?cs = "chunk_size io"
  note n = lazy_count_ok [OF g]
  have wn: "unat w < unat ?n" using w by (simp add: word_less_nat_alt)
  have C: "0 < unat ?cs" "?cs \<noteq> 0" using g by (auto simp: lazy_geo_def)
  have K: "unat w div unat ?cs div (8 * bsn) < unat (bitmap_blocks io)" by (rule bit_block_less [OF n(2) wn])
  have bpb: "unat (bits_per_block io) = 8 * bsn"
    using g unat_mult_u64 [of "block_size dev" 8] by (simp add: lazy_geo_def mult.commute)
  have bs: "0 < bsn" using n(2) wn by (cases "bsn = 0") (simp_all add: bits_fit_def)
  then have b0: "bits_per_block io \<noteq> 0" using bpb by auto
  have sum: "unat ?n + unat ?cs < 2 ^ 64" using g n(1) unfolding lazy_geo_def by linarith
  have "unat (?n + ?cs - 1) = unat ?n + unat ?cs - 1"
    using unat_add_u64 [OF sum] C(1) by (subst unat_sub_u64) (simp_all add: word_le_nat_alt)
  then have q: "unat ((?n + ?cs - 1) div ?cs) = (unat ?n + unat ?cs - 1) div unat ?cs" by (simp add: unat_div)
  have "unat w div unat ?cs \<le> (unat ?n - 1) div unat ?cs" using wn by (intro div_le_mono) simp
  also have "\<dots> < (unat ?n - 1 + unat ?cs) div unat ?cs" using C(1) by (subst div_add_self2) auto
  also have "unat ?n - 1 + unat ?cs = unat ?n + unat ?cs - 1" using wn by simp
  finally have "w div ?cs < (?n + ?cs - 1) div ?cs" by (simp only: word_less_nat_alt q unat_div [of w])
  with that show thesis
    using C b0 K wn n(1) bs bpb by (simp add: lazy_chunks_def unat_div unat_mod)
qed

lemma bits_block:
  assumes "i < 8 * bsn" and "h * bsn + bsn \<le> length data"
  shows "bits (drop (h * bsn) data) i = bits (block_at bsn data h) i"
  using assms by (simp add: bits_def block_at_def less_mult_imp_div_less mult.commute)

lemma usable_ok:
  assumes rel and v: "lzv io st" and w: "w < lazy_count dev io"
  obtains st' where "lazyzero_chunk_usable dev io (lazy_count dev io) st (w div chunk_size io) =
      Some (chunk_bit bsn (lazy_view dev cont st) (unat w div unat (chunk_size io)), st')"
    "lzv io st'" "lazy_view dev cont st' = lazy_view dev cont st"
    "generic_block_buffer (fst st') = generic_block_buffer (fst st)"
proof -
  have g: "lazy_geo dev io" and inv: "cache_inv (unat (bitmap_blocks io)) (cached st)"
    using v lazy_valid_iff [OF assms(1)] by simp_all
  obtain q where c: "lazy_chunks io (lazy_count dev io) = Some q" "w div chunk_size io < q"
    "c_div (w div chunk_size io) (bits_per_block io) = Some (w div chunk_size io div bits_per_block io)"
    "c_mod (w div chunk_size io) (bits_per_block io) = Some (w div chunk_size io mod bits_per_block io)"
    "unat (w div chunk_size io div bits_per_block io) = unat w div unat (chunk_size io) div (8 * bsn)"
    "unat (w div chunk_size io mod bits_per_block io) = unat w div unat (chunk_size io) mod (8 * bsn)"
    "unat w div unat (chunk_size io) div (8 * bsn) < unat (bitmap_blocks io)" "0 < bsn"
    by (rule chunk_ok [OF g w])
  let ?b = "w div chunk_size io div bits_per_block io" and ?i = "w div chunk_size io mod bits_per_block io"
  have b: "unat ?b < unat (bitmap_blocks io)" using c(5,7) by simp
  obtain bc s where st: "cached st = (bc, s)" by (cases "cached st")
  obtain bc' s' where r: "bcache_read_block dev (bc, s) ?b = Some (Some (slot_of (bc_size bc') (unat ?b) * bsn), bc', s')"
    "cache_inv (unat (bitmap_blocks io)) (bc', s')" "view (bc', s') = view (bc, s)"
    "bc_indexes bc' ! slot_of (bc_size bc') (unat ?b) = ?b"
    by (rule bcache_read_ok [OF inv [unfolded st] b])
  let ?h = "slot_of (bc_size bc') (unat ?b)"
  have fits: "?h * bsn + bsn \<le> length (bc_data bc')" using inv_slot(4) [OF r(2) b] by (simp add: add.commute)
  have i: "unat ?i < 8 * bsn" using c(6,8) by simp
  have "bit_get (drop (?h * bsn) (bc_data bc')) ?i = Some (bits (drop (?h * bsn) (bc_data bc')) (unat ?i))"
    using i fits by (intro bit_get_Some) simp
  also have "bits (drop (?h * bsn) (bc_data bc')) (unat ?i) = bits (view (bc, s) ! unat ?b) (unat ?i)"
    using bits_block [OF i fits] view_cached [OF r(2) b r(4)] r(3) by simp
  finally have "lazyzero_chunk_usable dev io (lazy_count dev io) st (w div chunk_size io) =
      Some (chunk_bit bsn (lazy_view dev cont st) (unat w div unat (chunk_size io)), set_cached (bc', s') st)"
    using c(1-4) r(1) st c(5,6)
    by (simp add: lazyzero_chunk_usable_def lazy_view_iff chunk_bit_def)
  from that [OF this] show thesis
    using r(2,3) v st by (simp add: lazy_valid_iff [OF assms(1)] lazy_view_iff)
qed

lemma set_usable_ok:
  assumes rel and v: "lzv io st" and w: "w < lazy_count dev io"
  obtains st' blk where "lazyzero_set_chunk_usable dev io (lazy_count dev io) st (w div chunk_size io) = Some (True, st')"
    "lzv io st'" "generic_block_buffer (fst st') = generic_block_buffer (fst st)"
    "lazy_view dev cont st' = (lazy_view dev cont st)[unat w div unat (chunk_size io) div (8 * bsn) := blk]"
    "\<forall>i < 8 * bsn. bits blk i = (i = unat w div unat (chunk_size io) mod (8 * bsn) \<or>
      bits (lazy_view dev cont st ! (unat w div unat (chunk_size io) div (8 * bsn))) i)"
proof -
  have g: "lazy_geo dev io" and inv: "cache_inv (unat (bitmap_blocks io)) (cached st)"
    using v lazy_valid_iff [OF assms(1)] by simp_all
  obtain q where c: "lazy_chunks io (lazy_count dev io) = Some q" "w div chunk_size io < q"
    "c_div (w div chunk_size io) (bits_per_block io) = Some (w div chunk_size io div bits_per_block io)"
    "c_mod (w div chunk_size io) (bits_per_block io) = Some (w div chunk_size io mod bits_per_block io)"
    "unat (w div chunk_size io div bits_per_block io) = unat w div unat (chunk_size io) div (8 * bsn)"
    "unat (w div chunk_size io mod bits_per_block io) = unat w div unat (chunk_size io) mod (8 * bsn)"
    "unat w div unat (chunk_size io) div (8 * bsn) < unat (bitmap_blocks io)" "0 < bsn"
    by (rule chunk_ok [OF g w])
  let ?b = "w div chunk_size io div bits_per_block io" and ?i = "w div chunk_size io mod bits_per_block io"
  have b: "unat ?b < unat (bitmap_blocks io)" using c(5,7) by simp
  obtain bc s where st: "cached st = (bc, s)" by (cases "cached st")
  obtain bc' s' where r: "bcache_read_block dev (bc, s) ?b = Some (Some (slot_of (bc_size bc') (unat ?b) * bsn), bc', s')"
    "cache_inv (unat (bitmap_blocks io)) (bc', s')" "view (bc', s') = view (bc, s)"
    "bc_indexes bc' ! slot_of (bc_size bc') (unat ?b) = ?b"
    by (rule bcache_read_ok [OF inv [unfolded st] b])
  let ?h = "slot_of (bc_size bc') (unat ?b)" and ?data = "bc_data bc'"
  have fits: "?h * bsn + bsn \<le> length ?data" using inv_slot(4) [OF r(2) b] by (simp add: add.commute)
  have i: "unat ?i < 8 * bsn" using c(6,8) by simp
  then have "unat ?i < 8 * length (drop (?h * bsn) ?data)" using fits by simp
  from bit_set_Some [OF this] obtain d where d: "bit_set (drop (?h * bsn) ?data) ?i = Some d"
    "length d = length (drop (?h * bsn) ?data)"
    "\<forall>j < 8 * length (drop (?h * bsn) ?data). bits d j = (j = unat ?i \<or> bits (drop (?h * bsn) ?data) j)" by blast
  have drest: "drop bsn d = drop (bsn + ?h * bsn) ?data"
  proof -
    have byte: "unat ?i div 8 < bsn" using i by (simp add: less_mult_imp_div_less mult.commute)
    obtain x where "d = (drop (?h * bsn) ?data)[unat ?i div 8 := x]"
      using d(1) by (auto simp: bit_set_def Let_def split: bind_splits)
    then show ?thesis using byte by (simp add: drop_update_cancel)
  qed
  have patch: "take (?h * bsn) ?data @ d = patch (?h * bsn) (take bsn d) ?data"
    using d(2) drest fits by (simp add: patch_def add.commute min_def) (metis append_take_drop_id)
  have bl: "bits (take bsn d) j = (j = unat ?i \<or> bits (view (bc, s) ! unat ?b) j)" if j: "j < 8 * bsn" for j
  proof -
    have "bits (take bsn d) j = bits d j" using j by (simp add: bits_def less_mult_imp_div_less mult.commute)
    then show ?thesis
      using d(3) j fits bits_block [OF j fits] view_cached [OF r(2) b r(4)] r(3) by simp
  qed
  have "length (take bsn d) = bsn" using d(2) fits by simp
  from bcache_write_ok [OF r(2) b refl r(4) this] obtain bc2 where w2:
    "bcache_write_block dev (bc'\<lparr>bc_data := patch (?h * bsn) (take bsn d) ?data\<rparr>, s') ?b (Cached (?h * bsn)) = Some (bc2, s')"
    "cache_inv (unat (bitmap_blocks io)) (bc2, s')" "view (bc2, s') = (view (bc', s'))[unat ?b := take bsn d]" by blast
  have "lazyzero_set_chunk_usable dev io (lazy_count dev io) st (w div chunk_size io) =
      Some (True, set_cached (bc2, s') st)"
    using c(1-4) r(1) st d(1) w2(1) patch by (simp add: lazyzero_set_chunk_usable_def Let_def)
  from that [OF this, of "take bsn d"] show thesis
    using w2(2,3) r(3) v st bl c(5,6) by (simp add: lazy_valid_iff [OF assms(1)] lazy_view_iff)
qed

lemma length_view: "cache_inv K (bc, s) \<Longrightarrow> length (view (bc, s)) = unat (block_count dev)"
  using length_cont [of s] by (simp add: view_def cache_inv_def)

lemma clear_loop_ok:
  assumes "length z = bsn" and "K \<le> unat b"
  shows "cache_inv K (bc, s) \<Longrightarrow> \<forall>i \<in> set is. unat b + i < 2 ^ 64 \<Longrightarrow>
    \<exists>s'. lazyzero_clear_loop dev b z is s = Some (True, s') \<and> cache_inv K (bc, s') \<and>
      (\<forall>j < unat (block_count dev). view (bc, s') ! j = (if \<exists>i \<in> set is. j = unat b + i then z else view (bc, s) ! j))"
proof (induction "is" arbitrary: s)
  case (Cons i "is")
  have i: "unat b + i < 2 ^ 64" using Cons.prems(2) by simp
  then have "unat (of_nat i :: u64) = i" by (simp add: unat_of_nat take_bit_nat_eq_self_iff)
  then have u: "unat (b + of_nat i) = unat b + i" using i by (subst unat_add_u64) simp_all
  show ?case
  proof (cases "b + of_nat i < block_count dev")
    case True
    obtain s1 where w: "write_block dev s (b + of_nat i) z = Some (True, s1)" "cache_inv K (bc, s1)"
      "view (bc, s1) = (view (bc, s))[unat b + i := take bsn z]"
      using write_below [OF Cons.prems(1) _ True, of z] assms u by auto
    obtain s2 where r: "lazyzero_clear_loop dev b z is s1 = Some (True, s2)" "cache_inv K (bc, s2)"
      "\<forall>j < unat (block_count dev). view (bc, s2) ! j = (if \<exists>i \<in> set is. j = unat b + i then z else view (bc, s1) ! j)"
      using Cons.IH [OF w(2)] Cons.prems(2) by auto
    have "view (bc, s2) ! j = (if \<exists>k \<in> set (i # is). j = unat b + k then z else view (bc, s) ! j)"
      if "j < unat (block_count dev)" for j
      using that r(3) w(3) assms(1) length_view [OF Cons.prems(1)] by (cases "j = unat b + i") auto
    with w r True show ?thesis by simp
  next
    case False
    then have "unat (block_count dev) \<le> unat b + i" using u by (simp add: word_less_nat_alt)
    moreover obtain s2 where r: "lazyzero_clear_loop dev b z is s = Some (True, s2)" "cache_inv K (bc, s2)"
      "\<forall>j < unat (block_count dev). view (bc, s2) ! j = (if \<exists>i \<in> set is. j = unat b + i then z else view (bc, s) ! j)"
      using Cons.IH [OF Cons.prems(1)] Cons.prems(2) by auto
    ultimately show ?thesis using False by auto
  qed
qed auto

lemma clear_chunk_ok:
  assumes rel and v: "lzv io st" and w: "w < lazy_count dev io"
  obtains st' where "lazyzero_clear_chunk dev io st (w div chunk_size io) = Some (True, st')" "lzv io st'"
    "generic_block_buffer (fst st') = replicate bsn 0"
    "length (lazy_view dev cont st') = length (lazy_view dev cont st)"
    "\<forall>j < length (lazy_view dev cont st). lazy_view dev cont st' ! j =
      (if unat w div unat (chunk_size io) * unat (chunk_size io) + unat (bitmap_blocks io) + 1 \<le> j \<and>
        j < unat w div unat (chunk_size io) * unat (chunk_size io) + unat (bitmap_blocks io) + 1 + unat (chunk_size io)
       then replicate bsn 0 else lazy_view dev cont st ! j)"
proof -
  let ?C = "unat (chunk_size io)" and ?K = "unat (bitmap_blocks io)" and ?z = "replicate bsn (0 :: u8)"
  let ?b = "w div chunk_size io * chunk_size io + bitmap_blocks io + 1"
  have g: "lazy_geo dev io" and inv: "cache_inv ?K (cached st)" and len: "length (generic_block_buffer (fst st)) = bsn"
    using v lazy_valid_iff [OF assms(1)] by simp_all
  have wn: "unat w < unat (block_count dev) - 1 - ?K" by (rule chunk_ok [OF g w])
  have sum: "unat (block_count dev) + ?C < 2 ^ 64" using g by (simp add: lazy_geo_def)
  let ?c = "unat w div ?C * ?C"
  have le: "?c \<le> unat w" by simp
  then have fits: "?c + ?K + 1 < 2 ^ 64" using wn sum by linarith
  have m: "unat (w div chunk_size io * chunk_size io) = ?c"
    using fits unat_mult_u64 [of "w div chunk_size io" "chunk_size io"] by (simp add: unat_div)
  then have "unat (w div chunk_size io * chunk_size io + bitmap_blocks io) = ?c + ?K"
    using fits unat_add_u64 [of "w div chunk_size io * chunk_size io" "bitmap_blocks io"] by simp
  then have b: "unat ?b = ?c + ?K + 1"
    using fits unat_add_u64 [of "w div chunk_size io * chunk_size io + bitmap_blocks io" 1] by simp
  have mem: "memset (generic_block_buffer (fst st)) 0 0 bsn = Some ?z" using len by (simp add: memset_Some)
  obtain bc s where st: "cached st = (bc, s)" by (cases "cached st")
  have Kb: "?K \<le> unat ?b" using b by simp
  have lz: "length ?z = bsn" by simp
  have "\<forall>i \<in> set [0..<?C]. unat ?b + i < 2 ^ 64"
  proof
    fix i assume "i \<in> set [0..<?C]"
    then have "i < ?C" by simp
    then show "unat ?b + i < 2 ^ 64" unfolding b using le wn sum by linarith
  qed
  from clear_loop_ok [OF lz Kb inv [unfolded st] this] obtain s' where
    r: "lazyzero_clear_loop dev ?b ?z [0..<?C] s = Some (True, s')" "cache_inv ?K (bc, s')"
    "\<forall>j < unat (block_count dev). view (bc, s') ! j = (if \<exists>i \<in> set [0..<?C]. j = unat ?b + i then ?z else view (bc, s) ! j)"
    by blast
  let ?st = "(fst (set_buffer st ?z), s')"
  have run: "lazyzero_clear_chunk dev io st (w div chunk_size io) = Some (True, ?st)"
    using mem r(1) st by (simp add: lazyzero_clear_chunk_def Let_def set_buffer_def cached_def)
  have cst: "cached ?st = (bc, s')" using st by (simp add: cached_def set_buffer_def)
  have "(\<exists>i \<in> set [0..<?C]. j = unat ?b + i) \<longleftrightarrow> ?c + ?K + 1 \<le> j \<and> j < ?c + ?K + 1 + ?C" for j
    unfolding b using le_Suc_ex [of "?c + ?K + 1" j] by fastforce
  with r(3) have cells: "\<forall>j < unat (block_count dev). view (bc, s') ! j =
      (if ?c + ?K + 1 \<le> j \<and> j < ?c + ?K + 1 + ?C then ?z else view (bc, s) ! j)" by simp
  show thesis
    using that [OF run] g r(2) cst cells length_view [OF r(2)] length_view [OF inv [unfolded st]] st
    by (simp add: lazy_valid_iff [OF assms(1)] lazy_view_iff set_buffer_def)
qed

lemma lazy_read_ok:
  assumes rel and v: "lzv io st" and w: "w < lazy_count dev io" and len: "bsn \<le> length into"
  obtains st' where "lazyzero_read_block dev io (lazy_count dev io) st w into =
      Some (True, patch 0 (lazy_cont dev io cont st ! unat w) into, st')"
    "lzv io st'" "lazy_cont dev io cont st' = lazy_cont dev io cont st"
    "generic_block_buffer (fst st') = generic_block_buffer (fst st)"
    "lazy_view dev cont st' = lazy_view dev cont st"
proof -
  let ?n = "lazy_count dev io" and ?K = "unat (bitmap_blocks io)"
  have g: "lazy_geo dev io" using v by (simp add: lazy_valid_def)
  have wn: "unat w < unat (block_count dev) - 1 - ?K" by (rule chunk_ok [OF g w])
  have dv: "c_div w (chunk_size io) = Some (w div chunk_size io)" by (rule chunk_ok [OF g w])
  obtain st1 where u: "lazyzero_chunk_usable dev io ?n st (w div chunk_size io) =
      Some (chunk_bit bsn (lazy_view dev cont st) (unat w div unat (chunk_size io)), st1)"
    "lzv io st1" "lazy_view dev cont st1 = lazy_view dev cont st"
    "generic_block_buffer (fst st1) = generic_block_buffer (fst st)"
    by (rule usable_ok [OF assms(1) v w])
  have inv: "cache_inv ?K (cached st1)" using u(2) lazy_valid_iff [OF assms(1)] by simp
  obtain bc s where st1: "cached st1 = (bc, s)" by (cases "cached st1")
  have lv: "length (lazy_view dev cont st) = unat (block_count dev)"
    using length_view [OF inv [unfolded st1]] st1 lazy_view_iff [of st1] by (simp add: u(3))
  have cnt: "lazy_cont dev io cont st ! unat w =
      (if chunk_bit bsn (lazy_view dev cont st) (unat w div unat (chunk_size io))
       then lazy_view dev cont st ! (unat w + 1 + ?K) else replicate bsn 0)"
    using wn lv by (simp add: lazy_cont_def nth_lazy_blocks)
  show thesis
  proof (cases "chunk_bit bsn (lazy_view dev cont st) (unat w div unat (chunk_size io))")
    case False
    then have "lazyzero_read_block dev io ?n st w into = Some (True, patch 0 (lazy_cont dev io cont st ! unat w) into, st1)"
      using w dv u(1) cnt len by (simp add: lazyzero_read_block_def memset_Some)
    from that [OF this] u show thesis by (simp add: lazy_cont_def)
  next
    case True
    have s1: "snd st1 = s" "obj_m (fst st1) = bc" using st1 by (simp_all add: cached_def)
    have "unat (w + 1) = unat w + 1" using w by (subst unat_Suc_u64) simp_all
    then have p: "unat (w + 1 + bitmap_blocks io) = unat w + 1 + ?K"
      using wn unat_u64_bound [of "block_count dev"] by (subst unat_add_u64) simp_all
    then have pl: "w + 1 + bitmap_blocks io < block_count dev" using wn by (simp add: word_less_nat_alt)
    have vs: "valid s" using inv st1 by (simp add: cache_inv_def)
    have "read_ok valid cont rel s into (cont s ! (unat w + 1 + ?K)) (read_block dev s (w + 1 + bitmap_blocks io) into)"
      using read_law [OF vs pl len] p by simp
    then obtain s' where r: "read_block dev s (w + 1 + bitmap_blocks io) into = Some (True, patch 0 (cont s ! (unat w + 1 + ?K)) into, s')"
      "valid s'" "cont s' = cont s" using assms(1) by (auto simp: read_into_ok_def)
    have high: "view (bc, s) ! (unat w + 1 + ?K) = cont s ! (unat w + 1 + ?K)"
      by (rule view_uncached [OF inv [unfolded st1]]) (use wn in auto)
    let ?st = "(fst st1, s')"
    have cst: "cached ?st = (bc, s')" using s1 by (simp add: cached_def)
    have "lazyzero_read_block dev io ?n st w into = Some (True, patch 0 (lazy_cont dev io cont st ! unat w) into, ?st)"
      using w dv u(1,3) r(1) s1 True cnt high st1 by (simp add: lazyzero_read_block_def lazy_view_iff)
    moreover have "lazy_view dev cont ?st = lazy_view dev cont st"
      using u(3) cst st1 view_base [OF r(3), of bc] by (simp add: lazy_view_iff)
    moreover have "lzv io ?st"
      using u(2) cst inv_base [OF inv [unfolded st1] r(2,3)] by (simp add: lazy_valid_iff [OF assms(1)])
    ultimately show thesis using that [of ?st] u(4) by (simp add: lazy_cont_def)
  qed
qed

lemma length_lazy_view: "rel \<Longrightarrow> lzv io st \<Longrightarrow> length (lazy_view dev cont st) = unat (block_count dev)"
  using length_view [of "unat (bitmap_blocks io)" "fst (cached st)" "snd (cached st)"]
  by (simp add: lazy_valid_iff lazy_view_iff)

text \<open>Zeroing a chunk and setting its bit changes no contents.\<close>

lemma init_chunk_ok:
  assumes rel and v: "lzv io st" and w: "w < lazy_count dev io"
    and fresh: "\<not> chunk_bit bsn (lazy_view dev cont st) (unat w div unat (chunk_size io))"
  obtains st1 st2 where "lazyzero_clear_chunk dev io st (w div chunk_size io) = Some (True, st1)"
    "lazyzero_set_chunk_usable dev io (lazy_count dev io) st1 (w div chunk_size io) = Some (True, st2)"
    "lzv io st2" "lazy_cont dev io cont st2 = lazy_cont dev io cont st"
    "chunk_bit bsn (lazy_view dev cont st2) (unat w div unat (chunk_size io))"
    "generic_block_buffer (fst st2) = replicate bsn 0"
proof -
  let ?C = "unat (chunk_size io)" and ?K = "unat (bitmap_blocks io)" and ?v = "lazy_view dev cont st"
  let ?c = "unat w div ?C"
  have g: "lazy_geo dev io" using v by (simp add: lazy_valid_def)
  have wn: "unat w < unat (block_count dev) - 1 - ?K" by (rule chunk_ok [OF g w])
  have cK: "?c div (8 * bsn) < ?K" by (rule chunk_ok [OF g w])
  have bs: "0 < bsn" by (rule chunk_ok [OF g w])
  note lv = length_lazy_view [OF assms(1) v]
  have fit: "bits_fit bsn io (length ?v - 1 - ?K)"
    using lazy_count_ok [OF g] lv by simp
  obtain st1 where c: "lazyzero_clear_chunk dev io st (w div chunk_size io) = Some (True, st1)" "lzv io st1"
    "generic_block_buffer (fst st1) = replicate bsn 0" "length (lazy_view dev cont st1) = length ?v"
    "\<forall>j < length ?v. lazy_view dev cont st1 ! j =
      (if ?c * ?C + ?K + 1 \<le> j \<and> j < ?c * ?C + ?K + 1 + ?C then replicate bsn 0 else ?v ! j)"
    by (rule clear_chunk_ok [OF assms(1) v w])
  obtain st2 blk where d: "lazyzero_set_chunk_usable dev io (lazy_count dev io) st1 (w div chunk_size io) = Some (True, st2)"
    "lzv io st2" "generic_block_buffer (fst st2) = generic_block_buffer (fst st1)"
    "lazy_view dev cont st2 = (lazy_view dev cont st1)[?c div (8 * bsn) := blk]"
    "\<forall>i < 8 * bsn. bits blk i = (i = ?c mod (8 * bsn) \<or> bits (lazy_view dev cont st1 ! (?c div (8 * bsn))) i)"
    by (rule set_usable_ok [OF assms(1) c(2) w])
  have "lazy_view dev cont st1 ! (?c div (8 * bsn)) = ?v ! (?c div (8 * bsn))" using c(5) cK wn lv by auto
  then have new: "\<forall>i < 8 * bsn. bits (lazy_view dev cont st2 ! (?c div (8 * bsn))) i =
      (i = ?c mod (8 * bsn) \<or> bits (?v ! (?c div (8 * bsn))) i)"
    using d(4,5) c(4) cK wn lv by simp
  have old: "\<forall>j < length ?v. j \<noteq> ?c div (8 * bsn) \<longrightarrow> lazy_view dev cont st2 ! j =
      (if ?c * ?C + ?K + 1 \<le> j \<and> j < ?c * ?C + ?K + 1 + ?C then replicate bsn 0 else ?v ! j)"
    using c(5) d(4) by simp
  have "length (lazy_view dev cont st2) = length ?v" using c(4) d(4) by simp
  from lazy_blocks_fresh [OF fit bs _ refl fresh this old new] wn lv that [OF c(1) d(1,2)] c(3) d(3)
  show thesis by (simp add: lazy_cont_def)
qed

lemma lazy_write_ok:
  assumes rel and v: "lzv io st" and w: "w < lazy_count dev io"
    and data: "data = (if from = Own \<and> \<not> chunk_bit bsn (lazy_view dev cont st) (unat w div unat (chunk_size io))
      then replicate bsn 0 else deref (fst st) from)" and len: "bsn \<le> length data"
  obtains st' where "lazyzero_write_block dev io (lazy_count dev io) st w from = Some (True, st')" "lzv io st'"
    "lazy_cont dev io cont st' = (lazy_cont dev io cont st)[unat w := take bsn data]"
    "chunk_bit bsn (lazy_view dev cont st') (unat w div unat (chunk_size io))"
proof -
  let ?n = "lazy_count dev io" and ?K = "unat (bitmap_blocks io)" and ?c = "unat w div unat (chunk_size io)"
  have g: "lazy_geo dev io" using v by (simp add: lazy_valid_def)
  have wn: "unat w < unat (block_count dev) - 1 - ?K" by (rule chunk_ok [OF g w])
  have cK: "?c div (8 * bsn) < ?K" by (rule chunk_ok [OF g w])
  have dv: "c_div w (chunk_size io) = Some (w div chunk_size io)" by (rule chunk_ok [OF g w])
  obtain st1 where u: "lazyzero_chunk_usable dev io ?n st (w div chunk_size io) =
      Some (chunk_bit bsn (lazy_view dev cont st) ?c, st1)"
    "lzv io st1" "lazy_view dev cont st1 = lazy_view dev cont st"
    "generic_block_buffer (fst st1) = generic_block_buffer (fst st)"
    by (rule usable_ok [OF assms(1) v w])
  let ?init = "\<lambda>usable st. if \<not> usable then do {
         (ok, st) \<leftarrow> lazyzero_clear_chunk dev io st (w div chunk_size io);
         if \<not> ok then Some (False, st)
         else lazyzero_set_chunk_usable dev io ?n st (w div chunk_size io) }
       else Some (True, st)"
  obtain st2 where i: "?init (chunk_bit bsn (lazy_view dev cont st) ?c) st1 = Some (True, st2)" "lzv io st2"
    "lazy_cont dev io cont st2 = lazy_cont dev io cont st" "chunk_bit bsn (lazy_view dev cont st2) ?c"
    "deref (fst st2) from = data"
  proof (cases "chunk_bit bsn (lazy_view dev cont st) ?c")
    case True
    then show thesis using u data by (intro that [of st1]) (cases "from"; simp add: lazy_cont_def)+
  next
    case False
    with u(3) have "\<not> chunk_bit bsn (lazy_view dev cont st1) ?c" by simp
    from init_chunk_ok [OF assms(1) u(2) w this] obtain st1' st2 where
      "lazyzero_clear_chunk dev io st1 (w div chunk_size io) = Some (True, st1')"
      "lazyzero_set_chunk_usable dev io ?n st1' (w div chunk_size io) = Some (True, st2)"
      "lzv io st2" "lazy_cont dev io cont st2 = lazy_cont dev io cont st1"
      "chunk_bit bsn (lazy_view dev cont st2) ?c" "generic_block_buffer (fst st2) = replicate bsn 0" by blast
    then show thesis using that [of st2] False u(3) data by (cases "from") (simp_all add: lazy_cont_def)
  qed
  obtain bc s where st2: "cached st2 = (bc, s)" by (cases "cached st2")
  have inv: "cache_inv ?K (bc, s)" using i(2) st2 by (simp add: lazy_valid_iff [OF assms(1)])
  have s2: "snd st2 = s" "obj_m (fst st2) = bc" using st2 by (simp_all add: cached_def)
  have "unat (w + 1) = unat w + 1" using w by (subst unat_Suc_u64) simp_all
  then have p: "unat (w + 1 + bitmap_blocks io) = unat w + 1 + ?K"
    using wn unat_u64_bound [of "block_count dev"] by (subst unat_add_u64) simp_all
  then have pl: "w + 1 + bitmap_blocks io < block_count dev" "?K \<le> unat (w + 1 + bitmap_blocks io)"
    using wn by (simp_all add: word_less_nat_alt)
  obtain s' where r: "write_block dev s (w + 1 + bitmap_blocks io) data = Some (True, s')" "cache_inv ?K (bc, s')"
    "view (bc, s') = (view (bc, s))[unat w + 1 + ?K := take bsn data]"
    using write_below [OF inv pl(2,1) len] p by auto
  let ?st = "(fst st2, s')"
  have cst: "cached ?st = (bc, s')" using s2 by (simp add: cached_def)
  have view': "lazy_view dev cont ?st = (lazy_view dev cont st2)[unat w + 1 + ?K := take bsn data]"
    using r(3) cst st2 by (simp add: lazy_view_iff)
  have lv: "length (lazy_view dev cont st2) = unat (block_count dev)" by (rule length_lazy_view [OF assms(1) i(2)])
  have "lazyzero_write_block dev io ?n st w from = Some (True, ?st)"
    unfolding lazyzero_write_block_def dv Option.bind.bind_lunit u(1) prod.case i(1)
    using w i(5) r(1) s2 by simp
  moreover have "lzv io ?st" using i(2) r(2) cst by (simp add: lazy_valid_iff [OF assms(1)])
  moreover have "lazy_cont dev io cont ?st = (lazy_cont dev io cont st)[unat w := take bsn data]"
    unfolding i(3) [symmetric] unfolding lazy_cont_def view'
    using lazy_count_ok [OF g] lv wn i(4) by (intro lazy_blocks_store) simp_all
  moreover have "chunk_bit bsn (lazy_view dev cont ?st) ?c" using i(4) cK by (simp add: view' chunk_bit_def)
  ultimately show thesis by (rule that)
qed

lemma lazy_maintenance:
  assumes rel and v: "lzv io st"
  shows "\<exists>st'. lazyzero_flush dev st = Some st' \<and> lzv io st' \<and> lazy_view dev cont st' = lazy_view dev cont st \<and>
      cont (snd st') = lazy_view dev cont st"
    "\<exists>st'. lazyzero_sync dev st = Some st' \<and> lzv io st' \<and> lazy_view dev cont st' = lazy_view dev cont st \<and>
      cont (snd st') = lazy_view dev cont st"
    "\<exists>st'. lazyzero_clear_caches dev st = Some st' \<and> lzv io st' \<and> lazy_view dev cont st' = lazy_view dev cont st \<and>
      cont (snd st') = lazy_view dev cont st"
proof -
  let ?K = "unat (bitmap_blocks io)"
  obtain bc s where st: "cached st = (bc, s)" by (cases "cached st")
  have inv: "cache_inv ?K (bc, s)" using v st by (simp add: lazy_valid_iff [OF assms(1)])
  have after: "lzv io (set_cached (bc', s'') st) \<and> lazy_view dev cont (set_cached (bc', s'') st) = lazy_view dev cont st \<and>
      cont (snd (set_cached (bc', s'') st)) = lazy_view dev cont st"
    if "cache_inv ?K (bc', s')" "view (bc', s') = view (bc, s)" "cont s' = view (bc, s)" "valid s''" "cont s'' = cont s'" for bc' s' s''
    using v st that inv_base [OF that(1,4,5)] view_base [OF that(5), of bc']
    by (simp add: lazy_valid_iff [OF assms(1)] lazy_view_iff) (simp add: set_cached_def)
  have vs: "valid s'" if "cache_inv ?K (bc', s')" for bc' s' using that by (simp add: cache_inv_def)
  obtain bc1 s1 where f: "bcache_flush dev (bc, s) = Some (bc1, s1)" "cache_inv ?K (bc1, s1)"
    "view (bc1, s1) = view (bc, s)" "cont s1 = view (bc, s)" by (rule bcache_flush_ok [OF inv])
  obtain bc2 s2 where c: "bcache_clear dev (bc, s) = Some (bc2, s2)" "cache_inv ?K (bc2, s2)"
    "view (bc2, s2) = view (bc, s)" "cont s2 = view (bc, s)" by (rule bcache_clear_ok [OF inv])
  show "\<exists>st'. lazyzero_flush dev st = Some st' \<and> lzv io st' \<and> lazy_view dev cont st' = lazy_view dev cont st \<and>
      cont (snd st') = lazy_view dev cont st"
  proof -
    obtain s' where s': "flush dev s1 = Some s'" "valid s'" "cont s' = cont s1"
      by (rule keepsE [OF flush_law [OF vs [OF f(2)]]])
    have "lazyzero_flush dev st = Some (set_cached (bc1, s') st)"
      using f(1) st s'(1) by (simp add: lazyzero_flush_def)
    with after [OF f(2-4) s'(2,3)] show ?thesis by blast
  qed
  show "\<exists>st'. lazyzero_sync dev st = Some st' \<and> lzv io st' \<and> lazy_view dev cont st' = lazy_view dev cont st \<and>
      cont (snd st') = lazy_view dev cont st"
  proof -
    obtain s' where s': "sync dev s1 = Some s'" "valid s'" "cont s' = cont s1"
      by (rule keepsE [OF sync_law [OF vs [OF f(2)]]])
    have "lazyzero_sync dev st = Some (set_cached (bc1, s') st)"
      using f(1) st s'(1) by (simp add: lazyzero_sync_def)
    with after [OF f(2-4) s'(2,3)] show ?thesis by blast
  qed
  show "\<exists>st'. lazyzero_clear_caches dev st = Some st' \<and> lzv io st' \<and> lazy_view dev cont st' = lazy_view dev cont st \<and>
      cont (snd st') = lazy_view dev cont st"
  proof -
    obtain s' where s': "clear_caches dev s2 = Some s'" "valid s'" "cont s' = cont s2"
      by (rule keepsE [OF clear_caches_law [OF vs [OF c(2)]]])
    have "lazyzero_clear_caches dev st = Some (set_cached (bc2, s') st)"
      using c(1) st s'(1) by (simp add: lazyzero_clear_caches_def)
    with after [OF c(2-4) s'(2,3)] show ?thesis by blast
  qed
qed

end

end
