(* ===== verification/LazyContract.thy ===== *)
theory LazyContract
  imports Lazyzero
begin

text \<open>
  What the lazy zeroing layer promises and what it breaks. Over a reliable device its block
  operations keep the contract while it is open, and a device that was created opens. But the
  first write sets a bit of the header, so the device never opens again; the chunks whose bits
  are set in the magic number show what was on the device before; and a write through the
  generic byte operations into a chunk that is not initialised yet is lost, because zeroing the
  chunk uses the buffer that holds the data.
\<close>

section \<open>The block contract\<close>

context block_device
begin

lemma contents_lazy:
  assumes rel and v: "lzv io st"
  shows "length (lazy_cont dev io cont st) = unat (lazy_count dev io)" "blocked bsn (lazy_cont dev io cont st)"
proof -
  have g: "lazy_geo dev io" using v by (simp add: lazy_valid_def)
  note lv = length_lazy_view [OF assms]
  obtain bc s where st: "cached st = (bc, s)" by (cases "cached st")
  have inv: "cache_inv (unat (bitmap_blocks io)) (bc, s)" using v st by (simp add: lazy_valid_iff [OF assms(1)])
  have "blocked bsn (lazy_view dev cont st)" using blocked_view [OF inv] st by (simp add: lazy_view_iff)
  with lv show "blocked bsn (lazy_cont dev io cont st)"
    by (auto simp: lazy_cont_def lazy_blocks_def blocked_def)
  show "length (lazy_cont dev io cont st) = unat (lazy_count dev io)"
    using lv lazy_count_ok(1) [OF g] by (simp add: lazy_cont_def)
qed

lemma lazy_block_rw:
  assumes rel
  shows "block_rw (block_size dev) (lazy_count dev io) (lazyzero_read_block dev io (lazy_count dev io))
    (\<lambda>st w from. lazyzero_write_block dev io (lazy_count dev io) st w (Ext from))
    (lzv io) (lazy_cont dev io cont) True"
proof (unfold_locales, goal_cases)
  case (1 st)
  then have g: "lazy_geo dev io" and v: "valid (snd st)" by (simp_all add: lazy_valid_def)
  have "unat (lazy_count dev io) \<le> unat (block_count dev)" using lazy_count_ok(1) [OF g] by simp
  then have "bsn * unat (lazy_count dev io) \<le> bsn * unat (block_count dev)" by simp
  with geometry [OF v] show ?case by linarith
next
  case (2 st)
  then show ?case using contents_lazy [OF assms] by blast
next
  case (3 st w into)
  then have "length (lazy_cont dev io cont st ! unat w) = bsn"
    using contents_lazy [OF assms 3(1)] by (simp add: blocked_nth word_less_nat_alt)
  with 3 show ?case using lazy_read_ok [OF assms 3] by (metis add_0 length_patch read_okI)
next
  case (4 st w "from")
  obtain st' where "lazyzero_write_block dev io (lazy_count dev io) st w (Ext from) = Some (True, st')" "lzv io st'"
    "lazy_cont dev io cont st' = (lazy_cont dev io cont st)[unat w := take bsn from]"
    by (rule lazy_write_ok [OF assms 4(1,2), of "from" "Ext from"]) (use 4(3) in simp_all)
  then show ?case by (intro write_okI) auto
qed

section \<open>Byte writes through the buffer\<close>

lemma lazy_set_buffer [simp]: "lazy_view dev cont (set_buffer st g) = lazy_view dev cont st"
  by (simp add: lazy_view_def set_buffer_def)

lemma lazy_valid_set_buffer: "lzv io st \<Longrightarrow> length g = bsn \<Longrightarrow> lzv io (set_buffer st g)"
  by (simp add: lazy_valid_def set_buffer_def)

lemma partial_write_lost:
  assumes rel and v: "lzv io st" and len: "len \<noteq> 0" "unat len \<le> length from"
    and range: "unat start + unat len \<le> bsn * unat (lazy_count dev io)"
    and one: "(start + len - 1) div block_size dev = start div block_size dev"
    and fresh: "\<not> chunk_bit bsn (lazy_view dev cont st) (unat (start div block_size dev) div unat (chunk_size io))"
  shows "\<exists>st'. write_bytes (lazyzero_dev dev io) st start len from = Some (True, st') \<and> lzv io st' \<and>
    lazy_cont dev io cont st' = lazy_cont dev io cont st"
proof -
  let ?n = "lazy_count dev io" and ?b = "start div block_size dev"
  let ?skip = "start - ?b * block_size dev"
  note geo = block_rw.byte_geometry [OF lazy_block_rw [OF assms(1)] v len(1) range]
  have b: "?b < ?n" and bs0: "block_size dev \<noteq> 0" by (rule geo(2), rule geo(1))
  have skip: "unat ?b * bsn + unat ?skip = unat start" "unat ?skip < bsn" "unat start + unat len \<le> unat ?b * bsn + bsn"
    using geo(5,6,8) by (simp_all add: one)
  then have fits: "unat ?skip + unat len \<le> bsn" by linarith
  have buf: "length (generic_block_buffer (fst st)) = bsn" using v by (simp add: lazy_valid_def)
  have bl: "bsn \<le> length (generic_block_buffer (fst st))" using buf by simp
  obtain st1 where r: "lazyzero_read_block dev io ?n st ?b (generic_block_buffer (fst st)) =
      Some (True, patch 0 (lazy_cont dev io cont st ! unat ?b) (generic_block_buffer (fst st)), st1)" "lzv io st1"
    "lazy_cont dev io cont st1 = lazy_cont dev io cont st" "lazy_view dev cont st1 = lazy_view dev cont st"
    using lazy_read_ok [OF assms(1) v b bl] by blast
  have cnt: "lazy_cont dev io cont st ! unat ?b = replicate bsn 0"
    using fresh b contents_lazy(1) [OF assms(1) v]
    by (simp add: lazy_cont_def nth_lazy_blocks word_less_nat_alt)
  let ?st1 = "set_buffer st1 (replicate bsn 0)"
  have own: "read_own (lazyzero_read_block dev io ?n) st ?b = Some (True, ?st1)"
    using r(1) cnt buf by (simp add: read_own_def)
  let ?g = "patch (unat ?skip) (take (unat len) (drop 0 from)) (generic_block_buffer (fst ?st1))"
  let ?st2 = "set_buffer ?st1 ?g"
  have gl: "length ?g = bsn" using fits len(2) by (simp add: set_buffer_def)
  have v2: "lzv io ?st2" using r(2) gl by (intro lazy_valid_set_buffer) simp_all
  have zeros: "replicate bsn 0 = (if Own = Own \<and> \<not> chunk_bit bsn (lazy_view dev cont ?st2)
      (unat ?b div unat (chunk_size io)) then replicate bsn 0 else deref (fst ?st2) Own)"
    using fresh r(4) by simp
  obtain st3 where w: "lazyzero_write_block dev io ?n ?st2 ?b Own = Some (True, st3)" "lzv io st3"
    "lazy_cont dev io cont st3 = (lazy_cont dev io cont ?st2)[unat ?b := replicate bsn 0]"
    using lazy_write_ok [OF assms(1) v2 b zeros] by (metis length_replicate order_refl take_all)
  have same: "lazy_cont dev io cont ?st2 = lazy_cont dev io cont st" using r(4) by (simp add: lazy_cont_def)
  then have "lazy_cont dev io cont st3 = lazy_cont dev io cont st" using w(3) cnt by (metis list_update_id)
  moreover have copy: "len = (if len < block_size dev - ?skip then len else block_size dev - ?skip)"
  proof -
    have "unat (block_size dev - ?skip) = bsn - unat ?skip"
      using skip(2) by (intro unat_sub_u64) (simp add: word_le_nat_alt)
    then have "len \<le> block_size dev - ?skip" using fits by (simp add: word_le_nat_alt)
    then show ?thesis by auto
  qed
  have "generic_write_loop (block_size dev) ?n (lazyzero_read_block dev io ?n) (lazyzero_write_block dev io ?n) ?b st ?b ?skip len from 0 =
      Some (True, st3)"
    using write_loop_part [OF len(1) b disjI2 [OF refl] own copy, of 0 "from" "lazyzero_write_block dev io ?n" True st3]
      len(2) fits w(1) write_loop_done by (simp add: set_buffer_def)
  then have "write_bytes (lazyzero_dev dev io) st start len from = Some (True, st3)"
    using len(1) bs0 b one
    by (simp add: lazyzero_dev_def generic_write_bytes_def Let_def flip: lazy_count_def)
  with w(2) \<open>lazy_cont dev io cont st3 = lazy_cont dev io cont st\<close> show ?thesis by blast
qed

section \<open>The header\<close>

lemma open_needs_magic:
  assumes "alloc_ok alloc" and "alloc bsn \<noteq> None" and v: "valid s" and "take 8 (cont s ! 0) \<noteq> LAZY_MAGIC"
  shows "\<exists>s'. lazyzero_open alloc dev s = Some (None, s')"
proof (cases "block_size dev < 32 \<or> block_count dev < 3")
  case True
  then show ?thesis by (auto simp: lazyzero_open_def)
next
  case False
  then have big: "32 \<le> bsn" "3 \<le> unat (block_count dev)" by (simp_all add: word_less_nat_alt)
  obtain buf where buf: "alloc bsn = Some buf" "length buf = bsn" using assms(1,2) by (auto dest: alloc_okD)
  have 0: "(0 :: u64) < block_count dev" using big by (simp add: word_less_nat_alt)
  obtain ok buf' s' where r: "read_block dev s 0 buf = Some (ok, buf', s')" "ok \<Longrightarrow> buf' = patch 0 (cont s ! 0) buf"
    using read_law [OF v 0, of buf] buf(2) by (auto elim!: read_okE)
  have "length (cont s ! 0) = bsn" using length_block [OF v 0] by simp
  then have "rd buf' 0 8 = Some (take 8 (cont s ! 0))" if ok using r(2) [OF that] big buf(2) by (simp add: rd_def)
  with assms(4) False buf r show ?thesis by (cases ok) (auto simp: lazyzero_open_def)
qed

lemma first_write_breaks_header:
  assumes rel and v: "lzv io st" and w: "w < lazy_count dev io" "unat w < unat (chunk_size io)" and len: "bsn \<le> length data"
  shows "\<exists>st' st''. lazyzero_write_block dev io (lazy_count dev io) st w (Ext data) = Some (True, st') \<and>
    lazyzero_flush dev st' = Some st'' \<and> valid (snd st'') \<and> take 8 (cont (snd st'') ! 0) \<noteq> LAZY_MAGIC"
proof -
  have g: "lazy_geo dev io" using v by (simp add: lazy_valid_def)
  obtain st' where wr: "lazyzero_write_block dev io (lazy_count dev io) st w (Ext data) = Some (True, st')" "lzv io st'"
    "chunk_bit bsn (lazy_view dev cont st') (unat w div unat (chunk_size io))"
    by (rule lazy_write_ok [OF assms(1) v w(1), of data "Ext data"]) (use len in simp_all)
  obtain st'' where f: "lazyzero_flush dev st' = Some st''" "lzv io st''" "cont (snd st'') = lazy_view dev cont st'"
    using lazy_maintenance(1) [OF assms(1) wr(2)] by blast
  have vs: "valid (snd st'')" using f(2) by (simp add: lazy_valid_def)
  have "0 < bsn" by (rule chunk_ok [OF g w(1)])
  then have "bit (cont (snd st'') ! 0 ! 0) 0" using wr(3) w(2) f(3) by (simp add: chunk_bit_def bits_def)
  moreover have "\<not> bit (LAZY_MAGIC ! 0) 0" by (simp add: LAZY_MAGIC_def)
  ultimately have "take 8 (cont (snd st'') ! 0) \<noteq> LAZY_MAGIC" by (metis nth_take zero_less_numeral)
  with wr(1) f(1) vs show ?thesis by blast
qed

end

section \<open>Creating and opening\<close>

text \<open>The number of bitmap blocks of a device with \<open>a + 1\<close> blocks and \<open>B\<close> bits in a block.\<close>

lemma bitmap_size:
  assumes "2 \<le> (a :: nat)" and "256 \<le> B" and q: "q = (a + 1023) div 1024" and b: "b = (q + B - 1) div B"
  shows "b < a" "a \<le> b * B * 1024" "(a - b + 1023) div 1024 \<le> b * B" "b * B \<le> q + B - 1" "q \<le> a"
proof -
  have q2: "a \<le> q * 1024" "q * 1024 \<le> a + 1023" using ceil_mult [of 1024 a] q by simp_all
  then show qa: "q \<le> a" using assms(1) by linarith
  have b2: "q \<le> b * B" "b * B \<le> q + B - 1" using ceil_mult [of B q] b assms(2) by simp_all
  show "b * B \<le> q + B - 1" by (rule b2(2))
  have "q * 1024 \<le> b * B * 1024" using b2(1) by (intro mult_le_mono1)
  with q2(1) show "a \<le> b * B * 1024" by linarith
  have "(a - b + 1023) div 1024 \<le> q" unfolding q by (intro div_le_mono) simp
  with b2(1) show "(a - b + 1023) div 1024 \<le> b * B" by linarith
  show "b < a"
  proof (rule ccontr)
    assume "\<not> b < a"
    then have "a * B \<le> b * B" by (intro mult_le_mono1) simp
    then have "a * B \<le> a + B - 1" using b2(2) qa by linarith
    moreover have "(a - 1) * B \<le> a * B - B" by (simp add: diff_mult_distrib)
    moreover have "(a - 1) * 256 \<le> (a - 1) * B" using assms(2) by (rule mult_le_mono2)
    ultimately show False using assms(1,2) by linarith
  qed
qed

definition header_ok :: "bytes \<Rightarrow> u64 \<Rightarrow> u64 \<Rightarrow> u64 \<Rightarrow> bool" where
  "header_ok h n bb cs \<longleftrightarrow> take 8 h = LAZY_MAGIC \<and> unpack_be64 h 8 = Some n \<and> unpack_be64 h 16 = Some bb \<and>
    unpack_be64 h 24 = Some cs"

text \<open>The header that \<open>lazyzero_create\<close> writes.\<close>

definition lazy_header :: "nat \<Rightarrow> u64 \<Rightarrow> u64 \<Rightarrow> bytes" where
  "lazy_header bs n bb = LAZY_MAGIC @ be64_bytes n @ be64_bytes bb @ be64_bytes 1024 @ replicate (bs - 32) 0"

text \<open>The bits of the first \<open>8 * bs\<close> chunks are taken from the header, those of the next ones from block 1,
  which is not written; chunk \<open>c\<close> is taken as initialised when its bit is set there.\<close>

definition stale_chunk :: "nat \<Rightarrow> u64 \<Rightarrow> u64 \<Rightarrow> bytes \<Rightarrow> nat \<Rightarrow> bool" where
  "stale_chunk bs n bb block1 c \<longleftrightarrow> c < 8 * bs \<and> bits (lazy_header bs n bb) c \<or>
     8 * bs \<le> c \<and> c < 16 * bs \<and> bits block1 (c - 8 * bs)"

lemma lazy_header_patches:
  assumes "32 \<le> n"
  shows "patch 24 (be64_bytes 1024) (patch 16 (be64_bytes bb) (patch 8 (be64_bytes c) (patch 0 LAZY_MAGIC (replicate n 0)))) =
    lazy_header n c bb"
proof -
  have lm: "length LAZY_MAGIC = 8" by (simp add: LAZY_MAGIC_def)
  have "patch 8 (be64_bytes c) (patch 0 LAZY_MAGIC (replicate n 0)) = LAZY_MAGIC @ be64_bytes c @ replicate (n - 16) 0"
    using assms by (simp add: patch_def lm)
  moreover have "patch 16 (be64_bytes bb) (LAZY_MAGIC @ be64_bytes c @ replicate (n - 16) 0) =
      LAZY_MAGIC @ be64_bytes c @ be64_bytes bb @ replicate (n - 24) 0"
    using assms by (simp add: patch_def lm)
  moreover have "patch 24 (be64_bytes 1024) (LAZY_MAGIC @ be64_bytes c @ be64_bytes bb @ replicate (n - 24) 0) = lazy_header n c bb"
    using assms by (simp add: patch_def lm lazy_header_def)
  ultimately show ?thesis by simp
qed

lemma header_made:
  assumes "32 \<le> n"
  obtains h1 h2 h3 h where "wr (replicate n 0) 0 LAZY_MAGIC = Some h1" "pack_be64 c h1 8 = Some h2"
    "pack_be64 bb h2 16 = Some h3" "pack_be64 cs h3 24 = Some h" "length h = n" "header_ok h c bb cs"
    "cs = 1024 \<longrightarrow> h = lazy_header n c bb"
proof -
  let ?z = "replicate n (0 :: u8)"
  let ?a = "patch 0 LAZY_MAGIC ?z"
  let ?b = "patch 8 (be64_bytes c) ?a"
  let ?c = "patch 16 (be64_bytes bb) ?b"
  let ?d = "patch 24 (be64_bytes cs) ?c"
  have lm: "length LAZY_MAGIC = 8" by (simp add: LAZY_MAGIC_def)
  have la: "length ?a = n" using assms lm by (intro trans [OF length_patch]) simp_all
  have lb: "length ?b = n" using assms la by (intro trans [OF length_patch]) simp_all
  have lc: "length ?c = n" using assms lb by (intro trans [OF length_patch]) simp_all
  have ld: "length ?d = n" using assms lc by (intro trans [OF length_patch]) simp_all
  have run: "wr ?z 0 LAZY_MAGIC = Some ?a" "pack_be64 c ?a 8 = Some ?b" "pack_be64 bb ?b 16 = Some ?c"
    "pack_be64 cs ?c 24 = Some ?d"
    using assms lm la lb lc by (simp_all only: wr_Some pack_Some length_replicate)
  have keep: "take 8 (drop i (patch off (be64_bytes x) buf)) = take 8 (drop i buf)"
    if "i + 8 \<le> off" "off + 8 \<le> length buf" for i off x buf
    using that by (intro take_drop_patch_disjoint) simp_all
  have m: "take 8 (drop 0 ?d) = LAZY_MAGIC"
    using assms la lb lc lm keep [of 0 24 ?c cs] keep [of 0 16 ?b bb] keep [of 0 8 ?a c] by simp
  have d8: "take 8 (drop 8 ?d) = be64_bytes c"
    using assms la lb lc keep [of 8 24 ?c cs] keep [of 8 16 ?b bb] take_drop_patch [of 8 "be64_bytes c" ?a] by simp
  have d16: "take 8 (drop 16 ?d) = be64_bytes bb"
    using assms lb lc keep [of 16 24 ?c cs] take_drop_patch [of 16 "be64_bytes bb" ?b] by simp
  have d24: "take 8 (drop 24 ?d) = be64_bytes cs"
    using assms lc take_drop_patch [of 24 "be64_bytes cs" ?c] by simp
  have "header_ok ?d c bb cs"
    using m d8 d16 d24 ld assms by (simp add: header_ok_def unpack_be64_Some)
  moreover have "cs = 1024 \<longrightarrow> ?d = lazy_header n c bb" using lazy_header_patches [OF assms, of bb c] by blast
  ultimately show thesis by (rule that [OF run ld])
qed

context block_device
begin

lemma bitmap_loop_ok:
  assumes rel and z: "length z = bsn"
  shows "valid s \<Longrightarrow> \<forall>i \<in> set is. i + 1 < unat (block_count dev) \<Longrightarrow>
    \<exists>s'. lazyzero_bitmap_loop dev z is s = Some (True, s') \<and> valid s' \<and>
      (\<forall>j < unat (block_count dev). cont s' ! j = (if j \<in> (\<lambda>i. i + 1) ` set is then z else cont s ! j))"
proof (induction "is" arbitrary: s)
  case (Cons i "is")
  have i: "i + 1 < unat (block_count dev)" using Cons.prems(2) by simp
  then have "unat (of_nat (i + 1) :: u64) = i + 1" by (rule u64_idx)
  then have u: "unat (of_nat i + 1 :: u64) = i + 1" by (simp add: add.commute)
  then have "of_nat i + 1 < block_count dev" using i by (simp add: word_less_nat_alt)
  then obtain s1 where w: "write_block dev s (of_nat i + 1) z = Some (True, s1)" "valid s1"
    "cont s1 = (cont s)[i + 1 := z]"
    using write_law [OF Cons.prems(1), of "of_nat i + 1" z] assms u by (auto simp: write_ok_def)
  obtain s2 where "lazyzero_bitmap_loop dev z is s1 = Some (True, s2)" "valid s2"
    "\<forall>j < unat (block_count dev). cont s2 ! j = (if j \<in> (\<lambda>i. i + 1) ` set is then z else cont s1 ! j)"
    using Cons.IH [OF w(2)] Cons.prems(2) by auto
  with w length_cont [OF Cons.prems(1)] show ?case by (auto simp: nth_list_update)
qed auto

lemma lazyzero_create_ok:
  assumes rel and v: "valid s" and al: "alloc_ok alloc" "alloc bsn \<noteq> None"
    and big: "32 \<le> bsn" "3 \<le> unat (block_count dev)" "16 * bsn < 2 ^ 64"
  obtains s' bb where "lazyzero_create alloc dev s = Some (True, s')" "valid s'"
    "header_ok (cont s' ! 0) (block_count dev) bb 1024"
    "unat bb + 1 < unat (block_count dev)" "unat (block_count dev) - 1 \<le> unat bb * (bsn * 8) * 1024"
    "unat bb * (bsn * 8) < 2 ^ 64" "cont s' ! 0 = lazy_header bsn (block_count dev) bb"
    "\<forall>j < unat (block_count dev). 0 < j \<longrightarrow>
      cont s' ! j = (if 2 \<le> j \<and> j \<le> unat bb + 1 then replicate bsn 0 else cont s ! j)"
proof -
  define a B q b where "a = unat (block_count dev) - 1" and "B = bsn * 8" and "q = (a + 1023) div 1024" and "b = (q + B - 1) div B"
  have small: "a < 2 ^ 59"
  proof -
    have "32 * unat (block_count dev) \<le> bsn * unat (block_count dev)" using big(1) by (rule mult_le_mono1)
    then have "32 * unat (block_count dev) < 2 ^ 64" using geometry [OF v] by linarith
    then show ?thesis using big(2) by (simp add: a_def)
  qed
  have aB: "2 \<le> a" "256 \<le> B" "B < 2 ^ 63" using big by (simp_all add: a_def B_def)
  note size = bitmap_size [OF aB(1,2) q_def b_def]
  have u1: "unat (block_count dev - 1) = a"
    unfolding a_def using big(2) by (subst unat_sub_u64) (simp_all add: word_le_nat_alt)
  have u2: "unat (block_count dev - 1 + 1024 - 1) = a + 1023"
    using u1 small unat_add_u64 [of "block_count dev - 1" 1024] by (subst unat_sub_u64) (simp_all add: word_le_nat_alt)
  let ?bits = "(block_count dev - 1 + 1024 - 1) div 1024" and ?bpb = "block_size dev * 8"
  have u3: "unat ?bits = q" "unat ?bpb = B"
    using u2 unat_mult_u64 [of "block_size dev" 8] aB by (simp_all add: unat_div q_def B_def)
  have "unat (?bits + ?bpb) = q + B" using u3 small size(5) aB by (subst unat_add_u64) simp_all
  then have u4: "unat (?bits + ?bpb - 1) = q + B - 1" using aB by (subst unat_sub_u64) (simp_all add: word_le_nat_alt)
  let ?bb = "(?bits + ?bpb - 1) div ?bpb"
  have u5: "unat ?bb = b" using u3 u4 by (simp add: unat_div b_def)
  have nz: "?bpb \<noteq> 0" using u3(2) aB(2) by auto
  have u6: "unat (?bb * ?bpb) = b * B"
    using u5 u3 size(4,5) small aB by (subst unat_mult_u64) simp_all
  have ub: "unat (block_count dev - 1 - ?bb) = a - b" using u1 u5 size(1) by (subst unat_sub_u64) (simp_all add: word_le_nat_alt)
  have "unat (block_count dev - 1 - ?bb + 1024) = a - b + 1024"
    using ub small by (subst unat_add_u64) simp_all
  then have "unat (block_count dev - 1 - ?bb + 1024 - 1) = a - b + 1023" by (subst unat_sub_u64) (simp_all add: word_le_nat_alt)
  then have asrt: "?bb * ?bpb \<ge> (block_count dev - 1 - ?bb + 1024 - 1) div 1024"
    using u6 size(3) by (simp add: word_le_nat_alt unat_div)
  obtain buf where buf: "alloc bsn = Some buf" "length buf = bsn" using al by (auto dest: alloc_okD)
  have mz: "memset x 0 0 bsn = Some (replicate bsn 0)" if "length x = bsn" for x
    using that by (simp add: memset_Some)
  obtain h1 h2 h3 h where h: "wr (replicate bsn 0) 0 LAZY_MAGIC = Some h1"
    "pack_be64 (block_count dev) h1 8 = Some h2" "pack_be64 ?bb h2 16 = Some h3" "pack_be64 1024 h3 24 = Some h"
    "length h = bsn" "header_ok h (block_count dev) ?bb 1024" "h = lazy_header bsn (block_count dev) ?bb"
    by (rule header_made [OF big(1), of "block_count dev" ?bb 1024]) simp
  have z0: "(0 :: u64) < block_count dev" using big(2) by (simp add: word_less_nat_alt)
  obtain s1 where w: "write_block dev s 0 h = Some (True, s1)" "valid s1" "cont s1 = (cont s)[0 := h]"
    using write_law [OF v z0, of h] h(5) assms(1) by (auto simp: write_ok_def)
  have ub1: "unat (?bb + 1) = b + 1" using u5 size(1) small by (subst unat_add_u64) simp_all
  have rng: "\<forall>i \<in> set [1..<b + 1]. i + 1 < unat (block_count dev)" using size(1) by (auto simp: a_def)
  obtain s2 where l: "lazyzero_bitmap_loop dev (replicate bsn 0) [1..<b + 1] s1 = Some (True, s2)" "valid s2"
    "\<forall>j < unat (block_count dev). cont s2 ! j =
      (if j \<in> (\<lambda>i. i + 1) ` set [1..<b + 1] then replicate bsn 0 else cont s1 ! j)"
    using bitmap_loop_ok [OF assms(1) length_replicate w(2) rng] by blast
  have len: "length (cont s) = unat (block_count dev)" by (rule length_cont [OF v])
  have ge: "\<not> block_size dev < 32" "\<not> block_count dev < 3" using big(1,2) by (simp_all add: word_less_nat_alt)
  have run: "lazyzero_create alloc dev s = Some (True, s2)"
    by (simp only: lazyzero_create_def Let_def ge if_False c_div_Some [OF nz] c_assert_Some [OF asrt] buf(1)
        mz [OF buf(2)] mz [OF h(5)] h(1-4) w(1) l(1) ub1 Option.bind.bind_lunit prod.case simp_thms)
  show thesis
  proof (rule that [OF run l(2)])
    have written: "j \<in> (\<lambda>i. i + 1) ` set [1..<b + 1] \<longleftrightarrow> 2 \<le> j \<and> j \<le> b + 1" for j
      by (cases j) (auto simp: image_iff)
    have h0: "cont s2 ! 0 = h" using l(3) w(3) big(2) len by auto
    then show "header_ok (cont s2 ! 0) (block_count dev) ?bb 1024" using h(6) by simp
    show "cont s2 ! 0 = lazy_header bsn (block_count dev) ?bb" using h0 h(7) by simp
    show "unat ?bb + 1 < unat (block_count dev)" using u5 size(1) by (simp add: a_def)
    show "unat (block_count dev) - 1 \<le> unat ?bb * (bsn * 8) * 1024" using u5 size(2) by (simp add: a_def B_def)
    show "unat ?bb * (bsn * 8) < 2 ^ 64" using u5 size(4,5) small aB(3) by (simp add: B_def)
    show "\<forall>j < unat (block_count dev). 0 < j \<longrightarrow>
        cont s2 ! j = (if 2 \<le> j \<and> j \<le> unat ?bb + 1 then replicate bsn 0 else cont s ! j)"
      using l(3) w(3) unfolding u5 written by (auto simp: nth_list_update)
  qed
qed

lemma lazyzero_open_ok:
  assumes rel and v: "valid s" and al: "alloc_ok alloc" "\<forall>k. alloc k \<noteq> None"
    and big: "32 \<le> bsn" "3 \<le> unat (block_count dev)" "16 * bsn < 2 ^ 64"
    and hd: "header_ok (cont s ! 0) (block_count dev) bb 1024"
    and geo: "unat bb + 1 < unat (block_count dev)" "unat (block_count dev) - 1 \<le> unat bb * (bsn * 8) * 1024"
      "unat bb * (bsn * 8) < 2 ^ 64"
  obtains obj s' where
    "lazyzero_open alloc dev s = Some (Some (lazyzero_dev dev \<lparr>bits_per_block = block_size dev * 8, bitmap_blocks = bb, chunk_size = 1024\<rparr>,
        \<lparr>bits_per_block = block_size dev * 8, bitmap_blocks = bb, chunk_size = 1024\<rparr>, obj), s')"
    "lzv \<lparr>bits_per_block = block_size dev * 8, bitmap_blocks = bb, chunk_size = 1024\<rparr> (obj, s')"
    "lazy_view dev cont (obj, s') = cont s"
proof -
  let ?io = "\<lparr>bits_per_block = block_size dev * 8, bitmap_blocks = bb, chunk_size = 1024\<rparr>"
  have ge: "\<not> block_size dev < 32" "\<not> block_count dev < 3" using big(1,2) by (simp_all add: word_less_nat_alt)
  have small: "unat (block_count dev) < 2 ^ 59"
  proof -
    have "32 * unat (block_count dev) \<le> bsn * unat (block_count dev)" using big(1) by (rule mult_le_mono1)
    then have "32 * unat (block_count dev) < 2 ^ 64" using geometry [OF v] by linarith
    then show ?thesis by simp
  qed
  obtain buf where buf: "alloc bsn = Some buf" "length buf = bsn" using al(2) alloc_okD [OF al(1)] by (metis not_None_eq)
  have 0: "(0 :: u64) < block_count dev" using big by (simp add: word_less_nat_alt)
  have len: "length (cont s ! 0) = bsn" using length_block [OF v 0] by simp
  obtain s' where r: "read_block dev s 0 buf = Some (True, cont s ! 0, s')" "valid s'" "cont s' = cont s"
    using read_law [OF v 0, of buf] buf(2) assms(1) len by (auto simp: read_into_ok_def)
  obtain bc where bc: "bcache_create alloc dev 16 = Some bc" using bcache_create_total [OF al, of 16 dev] by auto
  have K: "unat bb \<le> unat (block_count dev)" using geo(1) by simp
  note new = bcache_create_ok [OF al(1) assms(1) r(2) K _ _ _ bc]
  have u1: "unat (block_count dev - 1) = unat (block_count dev) - 1"
    using big(2) by (subst unat_sub_u64) (simp_all add: word_le_nat_alt)
  then have "unat (block_count dev - 1 - bb) = unat (block_count dev) - 1 - unat bb"
    using geo(1) by (subst unat_sub_u64) (auto simp: word_le_nat_alt)
  then have "unat (block_count dev - 1 - bb + 1024) = unat (block_count dev) - 1 - unat bb + 1024"
    using small by (subst unat_add_u64) simp_all
  then have "unat (block_count dev - 1 - bb + 1024 - 1) = unat (block_count dev) - 1 - unat bb + 1023"
    by (subst unat_sub_u64) (simp_all add: word_le_nat_alt)
  then have need: "unat ((block_count dev - 1 - bb + 1024 - 1) div 1024) = (unat (block_count dev) - 1 - unat bb + 1023) div 1024"
    by (simp add: unat_div)
  have u8: "unat (block_size dev * 8) = bsn * 8" using big(3) by (subst unat_mult_u64) simp_all
  have "(unat (block_count dev) - 1 - unat bb + 1023) div 1024 \<le> unat bb * (bsn * 8)"
  proof -
    have "(unat (block_count dev) - 1 - unat bb + 1023) div 1024 \<le> (unat bb * (bsn * 8) * 1024 + 1023) div 1024"
      using geo(2) by (intro div_le_mono) linarith
    also have "\<dots> = unat bb * (bsn * 8)" by simp
    finally show ?thesis .
  qed
  moreover have "unat (bb * (block_size dev * 8)) = unat bb * (bsn * 8)" using u8 geo(3) by (subst unat_mult_u64) simp_all
  ultimately have fits: "\<not> bb * (block_size dev * 8) < (block_count dev - 1 - bb + 1024 - 1) div 1024"
    by (simp only: word_less_nat_alt need not_less)
  have fields: "rd (cont s ! 0) 0 8 = Some LAZY_MAGIC" "unpack_be64 (cont s ! 0) 8 = Some (block_count dev)"
    "unpack_be64 (cont s ! 0) 16 = Some bb" "unpack_be64 (cont s ! 0) 24 = Some 1024"
    using hd len big(1) by (simp_all add: header_ok_def rd_def)
  let ?obj = "\<lparr>generic_block_buffer = cont s ! 0, obj_m = bc\<rparr>"
  have nz: "(1024 :: u64) \<noteq> 0" by simp
  have run: "lazyzero_open alloc dev s = Some (Some (lazyzero_dev dev ?io, ?io, ?obj), s')"
    by (simp only: lazyzero_open_def Let_def ge if_False buf(1) r(1) fields fits bc c_div_Some [OF nz] lazy_io.simps
        Option.bind.bind_lunit prod.case simp_thms)
  have inv: "cache_inv (unat bb) (bc, s')" and vw: "view (bc, s') = cont s'"
    using new(1,2) big(3) by simp_all
  have "lazy_geo dev ?io" using geo(1,2) small big u8 by (simp add: lazy_geo_def mult.commute)
  then have "lzv ?io (?obj, s')" using inv len by (simp add: lazy_valid_iff [OF assms(1)] cached_def)
  moreover have "lazy_view dev cont (?obj, s') = cont s" using vw r(3) by (simp add: lazy_view_iff cached_def)
  ultimately show thesis by (rule that [OF run])
qed

lemma open_after_create:
  assumes rel and v: "valid s" and al: "alloc_ok alloc" "\<forall>k. alloc k \<noteq> None"
    and big: "32 \<le> bsn" "3 \<le> unat (block_count dev)" "16 * bsn < 2 ^ 64"
  shows "\<exists>s1 io obj s2. lazyzero_create alloc dev s = Some (True, s1) \<and>
    lazyzero_open alloc dev s1 = Some (Some (lazyzero_dev dev io, io, obj), s2) \<and> lzv io (obj, s2) \<and>
    (\<forall>w < unat (lazy_count dev io). lazy_cont dev io cont (obj, s2) ! w =
      (if stale_chunk bsn (block_count dev) (bitmap_blocks io) (cont s ! 1) (w div 1024)
       then cont s ! (w + 1 + unat (bitmap_blocks io)) else replicate bsn 0))"
proof -
  have "alloc bsn \<noteq> None" using al(2) by blast
  from lazyzero_create_ok [OF assms(1) v al(1) this big] obtain s1 bb where
    c: "lazyzero_create alloc dev s = Some (True, s1)" "valid s1"
    "header_ok (cont s1 ! 0) (block_count dev) bb 1024"
    "unat bb + 1 < unat (block_count dev)" "unat (block_count dev) - 1 \<le> unat bb * (bsn * 8) * 1024"
    "unat bb * (bsn * 8) < 2 ^ 64" "cont s1 ! 0 = lazy_header bsn (block_count dev) bb"
    "\<forall>j < unat (block_count dev). 0 < j \<longrightarrow>
      cont s1 ! j = (if 2 \<le> j \<and> j \<le> unat bb + 1 then replicate bsn 0 else cont s ! j)" by blast
  let ?io = "\<lparr>bits_per_block = block_size dev * 8, bitmap_blocks = bb, chunk_size = 1024\<rparr>"
  let ?stale = "stale_chunk bsn (block_count dev) bb (cont s ! 1)"
  obtain obj s2 where o: "lazyzero_open alloc dev s1 = Some (Some (lazyzero_dev dev ?io, ?io, obj), s2)"
    "lzv ?io (obj, s2)" "lazy_view dev cont (obj, s2) = cont s1"
    by (rule lazyzero_open_ok [OF assms(1) c(2) al big c(3-6)])
  have geo: "lazy_geo dev ?io" using o(2) by (simp add: lazy_valid_def)
  have n: "unat (lazy_count dev ?io) = unat (block_count dev) - 1 - unat bb"
    using lazy_count_ok(1) [OF geo] by simp
  have len: "length (cont s1) = unat (block_count dev)" by (rule length_cont [OF c(2)])
  have bit: "chunk_bit bsn (cont s1) (w div 1024) = ?stale (w div 1024)" if w: "w < unat (lazy_count dev ?io)" for w
  proof -
    let ?c = "w div 1024"
    let ?b = "?c div (8 * bsn)"
    have b: "?b < unat bb" using bit_block_less [OF lazy_count_ok(2) [OF geo] w] by simp
    have B: "0 < 8 * bsn" using big(1) by simp
    consider "?b = 0" | "?b = 1" | "2 \<le> ?b" by linarith
    then show ?thesis
    proof cases
      case 1
      then have "?c < 8 * bsn" using B by (simp only: div_eq_0_iff) auto
      then show ?thesis using 1 by (simp add: chunk_bit_def stale_chunk_def c(7))
    next
      case 2
      have r: "8 * bsn \<le> ?c" "?c < 16 * bsn" "?c mod (8 * bsn) = ?c - 8 * bsn"
        using 2 B div_mult_mod_eq [of ?c "8 * bsn"] mod_less_divisor [OF B, of ?c] unfolding 2 by linarith+
      have "cont s1 ! 1 = cont s ! 1" using c(8) big(2) by simp
      then show ?thesis using r by (simp add: chunk_bit_def stale_chunk_def 2)
    next
      case 3
      have "?b * (8 * bsn) \<le> ?c" by simp
      moreover have "2 * (8 * bsn) \<le> ?b * (8 * bsn)" using 3 by (rule mult_le_mono1)
      ultimately have "16 * bsn \<le> ?c" by linarith
      then have "\<not> ?stale ?c" by (auto simp: stale_chunk_def)
      moreover have "?c mod (8 * bsn) div 8 < bsn"
        using mod_less_divisor [OF B, of ?c] by (simp only: less_mult_imp_div_less mult.commute)
      moreover have "cont s1 ! ?b = replicate bsn 0" using c(4,8) b 3 by simp
      ultimately show ?thesis by (simp add: chunk_bit_def bits_def)
    qed
  qed
  have "lazy_cont dev ?io cont (obj, s2) ! w =
      (if ?stale (w div 1024) then cont s ! (w + 1 + unat bb) else replicate bsn 0)"
    if w: "w < unat (lazy_count dev ?io)" for w
  proof -
    have "\<not> ?stale 0" using big(1) by (simp add: stale_chunk_def lazy_header_def bits_def LAZY_MAGIC_def)
    then have "cont s1 ! (w + 1 + unat bb) = cont s ! (w + 1 + unat bb)" if "?stale (w div 1024)"
      using that w n c(8) by (cases "w = 0") simp_all
    then show ?thesis using w n len bit [OF w] o(3) by (simp add: lazy_cont_def nth_lazy_blocks)
  qed
  with c(1) o show ?thesis by (intro exI [of _ s1] exI [of _ ?io] exI [of _ obj] exI [of _ s2]) simp
qed

end

section \<open>Properties\<close>

text \<open>C19: Over a reliable device, an open lazy zeroing layer keeps the contract of the block
  operations: it never dies, a block reads as what was last written to it, or as zeros while
  its chunk's bit is clear, and flush, sync and clear_caches keep the contents and bring the
  bitmap to the device below.\<close>
theorem lazyzero_keeps_block_contract:
  assumes "block_device base valid cont True"
  shows "block_rw (block_size base) (lazy_count base io) (lazyzero_read_block base io (lazy_count base io))
      (\<lambda>st w from. lazyzero_write_block base io (lazy_count base io) st w (Ext from))
      (lazy_valid base io valid cont) (lazy_cont base io cont) True \<and>
    (\<forall>st. lazy_valid base io valid cont st \<longrightarrow>
      keeps (lazy_valid base io valid cont) (lazy_cont base io cont) st (lazyzero_flush base st) \<and>
      keeps (lazy_valid base io valid cont) (lazy_cont base io cont) st (lazyzero_sync base st) \<and>
      keeps (lazy_valid base io valid cont) (lazy_cont base io cont) st (lazyzero_clear_caches base st))"
proof -
  note m = block_device.lazy_maintenance [OF assms TrueI]
  have "keeps (lazy_valid base io valid cont) (lazy_cont base io cont) st r"
    if "\<exists>st'. r = Some st' \<and> lazy_valid base io valid cont st' \<and> lazy_view base cont st' = lazy_view base cont st \<and>
      cont (snd st') = lazy_view base cont st" for st r
    using that by (auto simp: keeps_def lazy_cont_def)
  with m block_device.lazy_block_rw [OF assms TrueI] show ?thesis by blast
qed

text \<open>C20: A device that \<open>lazyzero_create\<close> has prepared opens again in a valid state, and a block reads as
  zeros, except in the chunks whose bit happens to be set: the bits of the first chunks, one for
  each bit of a block, are read from the header, and those of as many chunks after them from block
  1, which \<open>lazyzero_create\<close> does not write. The blocks of such a chunk show what was on the device before.\<close>
theorem lazyzero_open_after_create:
  assumes "block_device base valid cont True" and "valid s" and "alloc_ok alloc" and "\<forall>k. alloc k \<noteq> None"
    and "32 \<le> unat (block_size base)" and "3 \<le> unat (block_count base)" and "16 * unat (block_size base) < 2 ^ 64"
  shows "\<exists>s1 io obj s2. lazyzero_create alloc base s = Some (True, s1) \<and>
    lazyzero_open alloc base s1 = Some (Some (lazyzero_dev base io, io, obj), s2) \<and>
    lazy_valid base io valid cont (obj, s2) \<and>
    (\<forall>w < unat (lazy_count base io). lazy_cont base io cont (obj, s2) ! w =
      (if stale_chunk (unat (block_size base)) (block_count base) (bitmap_blocks io) (cont s ! 1) (w div 1024)
       then cont s ! (w + 1 + unat (bitmap_blocks io)) else replicate (unat (block_size base)) 0))"
  by (rule block_device.open_after_create [OF assms(1) TrueI assms(2-7)])

text \<open>The first write to the device destroys it: after a write to a block of the first chunk and a
  flush, the header has lost its magic number and \<open>lazyzero_open\<close> refuses the device.\<close>
theorem lazyzero_first_write_destroys_header:
  assumes "block_device base valid cont True" and "lazy_valid base io valid cont st"
    and "w < lazy_count base io" and "unat w < unat (chunk_size io)" and "unat (block_size base) \<le> length data"
    and "alloc_ok alloc" and "alloc (unat (block_size base)) \<noteq> None"
  shows "\<exists>st' st'' s. write_block (lazyzero_dev base io) st w data = Some (True, st') \<and>
    lazyzero_flush base st' = Some st'' \<and> lazyzero_open alloc base (snd st'') = Some (None, s)"
proof -
  from block_device.first_write_breaks_header [OF assms(1) TrueI assms(2-5)] obtain st' st'' where
    r: "lazyzero_write_block base io (lazy_count base io) st w (Ext data) = Some (True, st')"
    "lazyzero_flush base st' = Some st''" "valid (snd st'')" "take 8 (cont (snd st'') ! 0) \<noteq> LAZY_MAGIC" by blast
  moreover have "write_block (lazyzero_dev base io) st w data = Some (True, st')"
    using r(1) by (simp add: lazyzero_dev_def Let_def flip: lazy_count_def)
  ultimately show ?thesis using block_device.open_needs_magic [OF assms(1,6,7) r(3,4)] by blast
qed

text \<open>A device for evaluation: one header block and two data blocks of 32 bytes, with an empty
  cache of one slot.\<close>

definition lazy_small :: lazy_io where
  "lazy_small = \<lparr>bits_per_block = 256, bitmap_blocks = 1, chunk_size = 1024\<rparr>"

definition lazy_start :: "unit mem_state lazy_state" where
  "lazy_start = (\<lparr>generic_block_buffer = replicate 32 0, obj_m =
    \<lparr>bc_size = 1, bc_data = replicate 32 0, bc_indexes = [- 1], bc_dirty = [0]\<rparr>\<rparr>, ram_of 32 (replicate 4 (replicate 32 0)))"

lemma lazy_start_valid:
  "lazy_valid (malloc_dev 32 4) lazy_small (mem_valid 32 4) (mem_cont 32 4) lazy_start"
  "lazy_count (malloc_dev 32 4) lazy_small = 2"
  "\<not> chunk_bit 32 (lazy_view (malloc_dev 32 4) (mem_cont 32 4) lazy_start) 0"
proof -
  have r: "mem_valid 32 4 (ram_of 32 (replicate 4 (replicate 32 0)))"
    "mem_cont 32 4 (ram_of 32 (replicate 4 (replicate 32 0))) = replicate 4 (replicate 32 0)"
    by (rule ram_of_valid; simp)+
  show "lazy_count (malloc_dev 32 4) lazy_small = 2" by (simp add: lazy_count_def malloc_dev_def lazy_small_def)
  show "lazy_valid (malloc_dev 32 4) lazy_small (mem_valid 32 4) (mem_cont 32 4) lazy_start"
    using r(1) by (simp add: lazy_valid_def lazy_geo_def malloc_dev_def lazy_small_def lazy_start_def cache_shape_def
        clean_slots_def bits_def)
  have "slot_of 1 0 = 0" using slot_of_less [of 1 0] by simp
  then show "\<not> chunk_bit 32 (lazy_view (malloc_dev 32 4) (mem_cont 32 4) lazy_start) 0"
    by (simp add: chunk_bit_def lazy_view_def lazy_start_def r(2) nth_cache_view malloc_dev_def bits_def)
qed

text \<open>A byte write inside one block of a chunk that is not initialised returns true and changes
  nothing: the block still reads as zeros.\<close>
theorem lazyzero_partial_write_lost:
  assumes "block_device base valid cont True" and "lazy_valid base io valid cont st" and "len \<noteq> 0"
    and "unat len \<le> length from" and "unat start + unat len \<le> unat (block_size base) * unat (lazy_count base io)"
    and "(start + len - 1) div block_size base = start div block_size base"
    and "\<not> chunk_bit (unat (block_size base)) (lazy_view base cont st) (unat (start div block_size base) div unat (chunk_size io))"
  shows "\<exists>st'. write_bytes (lazyzero_dev base io) st start len from = Some (True, st') \<and>
    lazy_valid base io valid cont st' \<and> lazy_cont base io cont st' = lazy_cont base io cont st"
  by (rule block_device.partial_write_lost [OF assms(1) TrueI assms(2-7)])

text \<open>The witnesses of the four properties.\<close>

lemma lazyzero_keeps_block_contract_witness:
  "lazy_valid (malloc_dev 32 4) lazy_small (mem_valid 32 4) (mem_cont 32 4) lazy_start \<and>
    keeps (lazy_valid (malloc_dev 32 4) lazy_small (mem_valid 32 4) (mem_cont 32 4))
      (lazy_cont (malloc_dev 32 4) lazy_small (mem_cont 32 4)) lazy_start (lazyzero_flush (malloc_dev 32 4) lazy_start)"
  using lazyzero_keeps_block_contract [OF malloc.block_device_axioms [of 32 4], of lazy_small] lazy_start_valid(1) by blast

lemma lazyzero_open_after_create_witness:
  "\<exists>s1 io obj s2. lazyzero_create calloc_alloc (malloc_dev 32 4) (ram_of 32 (replicate 4 (replicate 32 7))) = Some (True, s1) \<and>
    lazyzero_open calloc_alloc (malloc_dev 32 4) s1 = Some (Some (lazyzero_dev (malloc_dev 32 4) io, io, obj), s2) \<and>
    lazy_cont (malloc_dev 32 4) io (mem_cont 32 4) (obj, s2) ! 0 = replicate 32 0"
proof -
  let ?d = "malloc_dev 32 4 :: unit mem_state bdev" and ?s = "ram_of 32 (replicate 4 (replicate 32 7)) :: unit mem_state"
  have v: "mem_valid 32 4 ?s" by (rule ram_of_valid; simp)
  have al: "\<forall>k. calloc_alloc k \<noteq> None" by (simp add: calloc_alloc_def)
  have d: "unat (block_size ?d) = 32" "unat (block_count ?d) = 4" by (simp_all add: malloc_dev_def)
  have bounds: "32 \<le> unat (block_size ?d)" "3 \<le> unat (block_count ?d)" "16 * unat (block_size ?d) < 2 ^ 64" by (simp_all add: d)
  from lazyzero_open_after_create [OF malloc.block_device_axioms v calloc_alloc_ok al bounds]
  obtain s1 io obj s2 where o: "lazyzero_create calloc_alloc ?d ?s = Some (True, s1)"
    "lazyzero_open calloc_alloc ?d s1 = Some (Some (lazyzero_dev ?d io, io, obj), s2)"
    "lazy_valid ?d io (mem_valid 32 4) (mem_cont 32 4) (obj, s2)"
    "\<forall>w < unat (lazy_count ?d io). lazy_cont ?d io (mem_cont 32 4) (obj, s2) ! w =
      (if stale_chunk (unat (block_size ?d)) (block_count ?d) (bitmap_blocks io) (mem_cont 32 4 ?s ! 1) (w div 1024)
       then mem_cont 32 4 ?s ! (w + 1 + unat (bitmap_blocks io)) else replicate (unat (block_size ?d)) 0)" by blast
  have g: "lazy_geo ?d io" using o(3) by (simp add: lazy_valid_def)
  then have "0 < unat (lazy_count ?d io)" unfolding lazy_count_ok(1) [OF g] by (simp add: lazy_geo_def)
  moreover have "\<not> stale_chunk 32 n bb b (0 div 1024)" for n bb b
    by (simp add: stale_chunk_def lazy_header_def bits_def LAZY_MAGIC_def)
  ultimately have "lazy_cont ?d io (mem_cont 32 4) (obj, s2) ! 0 = replicate 32 0" using o(4) unfolding d by metis
  with o(1,2) show ?thesis by blast
qed

lemma lazyzero_first_write_destroys_header_witness:
  "\<exists>st' st'' s. write_block (lazyzero_dev (malloc_dev 32 4) lazy_small) lazy_start 1 (replicate 32 9) = Some (True, st') \<and>
    lazyzero_flush (malloc_dev 32 4) st' = Some st'' \<and> lazyzero_open calloc_alloc (malloc_dev 32 4) (snd st'') = Some (None, s)"
  by (rule lazyzero_first_write_destroys_header [OF malloc.block_device_axioms lazy_start_valid(1) _ _ _ calloc_alloc_ok])
    (simp_all add: lazy_start_valid(2) calloc_alloc_def, simp_all add: lazy_small_def malloc_dev_def)

lemma lazyzero_partial_write_lost_witness:
  "\<exists>st'. write_bytes (lazyzero_dev (malloc_dev 32 4) lazy_small) lazy_start 3 2 [5, 6] = Some (True, st') \<and>
    lazy_cont (malloc_dev 32 4) lazy_small (mem_cont 32 4) st' = lazy_cont (malloc_dev 32 4) lazy_small (mem_cont 32 4) lazy_start"
proof -
  have "block_size (malloc_dev 32 4 :: unit mem_state bdev) = 32" by (simp add: malloc_dev_def)
  with lazyzero_partial_write_lost [OF malloc.block_device_axioms lazy_start_valid(1), of 2 "[5, 6]" 3]
  show ?thesis by (auto simp: lazy_start_valid(2,3))
qed

end
