(* ===== verification/Nbd.thy ===== *)
theory Nbd
  imports BaseIO Endian
begin

text \<open>
  \<open>src/src/layers/nbd.c\<close>: a server for the network block device protocol, for one client at a
  time. The socket calls are parameters over a world state; a connection's state is the world,
  the device's state, and the three buffers of the code. The request loop runs as long as the
  client wishes, so it takes fuel and says whether it came to its end.

  Proved, over a TCP connection that delivers its bytes in pieces of any size: the server
  answers every well-formed stream of requests in range as a flat array of bytes would; for any
  bytes a client sends the loop ends within a number of turns given by their length; and a
  request outside the device kills the server.
\<close>

section \<open>The server\<close>

definition NBD_PASSWD :: bytes where
  "NBD_PASSWD = [0x4E, 0x42, 0x44, 0x4D, 0x41, 0x47, 0x49, 0x43]"

definition NBD_INITMAGIC :: bytes where
  "NBD_INITMAGIC = [0x00, 0x00, 0x42, 0x02, 0x81, 0x86, 0x12, 0x53]"

definition NBD_REQUEST_MAGIC :: bytes where
  "NBD_REQUEST_MAGIC = [0x25, 0x60, 0x95, 0x13]"

definition NBD_RESPONSE_MAGIC :: bytes where
  "NBD_RESPONSE_MAGIC = [0x67, 0x44, 0x66, 0x98]"

text \<open>The system calls, over a state of the world: the result, what \<open>recv\<close> stored, the new state.\<close>

record 'w net =
  net_send :: "'w \<Rightarrow> int \<Rightarrow> bytes \<Rightarrow> int \<times> 'w"
  net_recv :: "'w \<Rightarrow> int \<Rightarrow> nat \<Rightarrow> int \<times> bytes \<times> 'w"
  net_getaddrinfo :: "'w \<Rightarrow> u16 \<Rightarrow> int \<times> 'w"
  net_socket :: "'w \<Rightarrow> int \<times> 'w"
  net_reuseaddr :: "'w \<Rightarrow> int \<Rightarrow> int \<times> 'w"
  net_bind :: "'w \<Rightarrow> int \<Rightarrow> int \<times> 'w"
  net_listen :: "'w \<Rightarrow> int \<Rightarrow> int \<times> 'w"
  net_accept :: "'w \<Rightarrow> int \<Rightarrow> int \<times> 'w"
  net_close :: "'w \<Rightarrow> int \<Rightarrow> 'w"

record 's nbd_server =
  nbd_dev :: "'s bdev"
  nbd_port :: u16

definition nbd_create :: "u16 \<Rightarrow> 's bdev \<Rightarrow> 's nbd_server" where
  "nbd_create port dev = \<lparr>nbd_dev = dev, nbd_port = port\<rparr>"

text \<open>The loops move the pointer \<open>msg\<close>; here it is an offset \<open>at\<close> into the buffer.\<close>

function nbd_sendall :: "'w net \<Rightarrow> int \<Rightarrow> 'w \<Rightarrow> bytes \<Rightarrow> nat \<Rightarrow> int \<Rightarrow> (bool \<times> 'w) run" where
  "nbd_sendall net fd w msg at len =
    (if len > 0 then do {
       d \<leftarrow> rd msg at (nat len);
       let (ret, w) = net_send net w fd d;
       if ret \<le> 0 then Some (False, w)
       else nbd_sendall net fd w msg (at + nat ret) (len - ret) }
     else Some (True, w))"
  by pat_completeness auto
termination
  by (relation "measure (\<lambda>(net, fd, w, msg, at, len). nat len)") auto

function nbd_recvall :: "'w net \<Rightarrow> int \<Rightarrow> 'w \<Rightarrow> bytes \<Rightarrow> nat \<Rightarrow> int \<Rightarrow> (bool \<times> bytes \<times> 'w) run" where
  "nbd_recvall net fd w msg at len =
    (if len > 0 then do {
       let (ret, d, w) = net_recv net w fd (nat len);
       if ret \<le> 0 then Some (False, msg, w)
       else do {
         msg \<leftarrow> wr msg at d;
         nbd_recvall net fd w msg (at + nat ret) (len - ret) } }
     else Some (True, msg, w))"
  by pat_completeness auto
termination
  by (relation "measure (\<lambda>(net, fd, w, msg, at, len). nat len)") auto

declare nbd_sendall.simps [simp del] nbd_recvall.simps [simp del]

text \<open>A connection: the world, the device, the static \<open>databuffer\<close>, and the two local buffers,
  which are always filled before they are read.\<close>

record ('w, 's) nbd_conn =
  conn_w :: 'w
  conn_dev :: 's
  databuffer :: bytes
  req_buffer :: bytes
  req_handle :: bytes

definition recv_buffer :: "'w net \<Rightarrow> int \<Rightarrow> int \<Rightarrow> ('w, 's) nbd_conn \<Rightarrow> (bool \<times> ('w, 's) nbd_conn) run" where
  "recv_buffer net fd len c = do {
     (ok, b, w) \<leftarrow> nbd_recvall net fd (conn_w c) (req_buffer c) 0 len;
     Some (ok, c\<lparr>req_buffer := b, conn_w := w\<rparr>) }"

definition recv_handle :: "'w net \<Rightarrow> int \<Rightarrow> ('w, 's) nbd_conn \<Rightarrow> (bool \<times> ('w, 's) nbd_conn) run" where
  "recv_handle net fd c = do {
     (ok, b, w) \<leftarrow> nbd_recvall net fd (conn_w c) (req_handle c) 0 8;
     Some (ok, c\<lparr>req_handle := b, conn_w := w\<rparr>) }"

definition recv_data :: "'w net \<Rightarrow> int \<Rightarrow> int \<Rightarrow> ('w, 's) nbd_conn \<Rightarrow> (bool \<times> ('w, 's) nbd_conn) run" where
  "recv_data net fd len c = do {
     (ok, b, w) \<leftarrow> nbd_recvall net fd (conn_w c) (databuffer c) 0 len;
     Some (ok, c\<lparr>databuffer := b, conn_w := w\<rparr>) }"

definition send_from :: "'w net \<Rightarrow> int \<Rightarrow> bytes \<Rightarrow> int \<Rightarrow> ('w, 's) nbd_conn \<Rightarrow> (bool \<times> ('w, 's) nbd_conn) run" where
  "send_from net fd msg len c = do {
     (ok, w) \<leftarrow> nbd_sendall net fd (conn_w c) msg 0 len;
     Some (ok, c\<lparr>conn_w := w\<rparr>) }"

text \<open>The response header and the handle, as both commands send them.\<close>

definition nbd_respond :: "'w net \<Rightarrow> int \<Rightarrow> bool \<Rightarrow> ('w, 's) nbd_conn \<Rightarrow> (bool \<times> ('w, 's) nbd_conn) run" where
  "nbd_respond net fd res c = do {
     b \<leftarrow> wr (req_buffer c) 0 NBD_RESPONSE_MAGIC;
     b \<leftarrow> pack_be32 (if res then 0 else 1) b 4;
     let c = c\<lparr>req_buffer := b\<rparr>;
     (ok, c) \<leftarrow> send_from net fd (req_buffer c) 8 c;
     if \<not> ok then Some (False, c)
     else send_from net fd (req_handle c) 8 c }"

definition nbd_cmd_read ::
  "'w net \<Rightarrow> 's bdev \<Rightarrow> int \<Rightarrow> u64 \<Rightarrow> u32 \<Rightarrow> ('w, 's) nbd_conn \<Rightarrow> (bool \<times> ('w, 's) nbd_conn) run" where
  "nbd_cmd_read net dev fd from len c = do {
     (res, db, s) \<leftarrow> read_bytes dev (conn_dev c) from (ucast len) (databuffer c);
     let c = c\<lparr>databuffer := db, conn_dev := s\<rparr>;
     (ok, c) \<leftarrow> nbd_respond net fd res c;
     if \<not> ok then Some (False, c)
     else if res then send_from net fd (databuffer c) (uint len) c
     else Some (True, c) }"

definition nbd_cmd_write ::
  "'w net \<Rightarrow> 's bdev \<Rightarrow> int \<Rightarrow> u64 \<Rightarrow> u32 \<Rightarrow> ('w, 's) nbd_conn \<Rightarrow> (bool \<times> ('w, 's) nbd_conn) run" where
  "nbd_cmd_write net dev fd from len c = do {
     (ok, c) \<leftarrow> recv_data net fd (uint len) c;
     if \<not> ok then Some (False, c)
     else do {
       (res, s) \<leftarrow> write_bytes dev (conn_dev c) from (ucast len) (databuffer c);
       nbd_respond net fd res (c\<lparr>conn_dev := s\<rparr>) } }"

text \<open>One turn of the request loop; false means that the handler returns.\<close>

definition nbd_turn :: "'w net \<Rightarrow> 's bdev \<Rightarrow> int \<Rightarrow> ('w, 's) nbd_conn \<Rightarrow> (bool \<times> ('w, 's) nbd_conn) run" where
  "nbd_turn net dev fd c = do {
     (ok, c) \<leftarrow> recv_buffer net fd 8 c;
     if \<not> ok then Some (False, c)
     else do {
       magic \<leftarrow> rd (req_buffer c) 0 4;
       if magic \<noteq> NBD_REQUEST_MAGIC then Some (False, c)
       else do {
         cmd \<leftarrow> unpack_be32 (req_buffer c) 4;
         if cmd = 2 then Some (False, c)
         else do {
           (ok, c) \<leftarrow> recv_handle net fd c;
           if \<not> ok then Some (False, c)
           else do {
             (ok, c) \<leftarrow> recv_buffer net fd 8 c;
             if \<not> ok then Some (False, c)
             else do {
               from \<leftarrow> unpack_be64 (req_buffer c) 0;
               (ok, c) \<leftarrow> recv_buffer net fd 4 c;
               if \<not> ok then Some (False, c)
               else do {
                 len \<leftarrow> unpack_be32 (req_buffer c) 0;
                 if len > 131072 then Some (False, c)
                 else if cmd = 0 then nbd_cmd_read net dev fd from len c
                 else if cmd = 1 then nbd_cmd_write net dev fd from len c
                 else Some (False, c) } } } } } } }"

primrec nbd_loop :: "nat \<Rightarrow> 'w net \<Rightarrow> 's bdev \<Rightarrow> int \<Rightarrow> ('w, 's) nbd_conn \<Rightarrow> (bool \<times> ('w, 's) nbd_conn) run" where
  "nbd_loop 0 net dev fd c = Some (False, c)"
| "nbd_loop (Suc fuel) net dev fd c = do {
     (go, c) \<leftarrow> nbd_turn net dev fd c;
     if go then nbd_loop fuel net dev fd c else Some (True, c) }"

definition nbd_handle_client_socket ::
  "nat \<Rightarrow> 'w net \<Rightarrow> 's bdev \<Rightarrow> int \<Rightarrow> ('w, 's) nbd_conn \<Rightarrow> (bool \<times> ('w, 's) nbd_conn) run" where
  "nbd_handle_client_socket fuel net dev fd c = do {
     db \<leftarrow> wr (databuffer c) 0 NBD_PASSWD;
     db \<leftarrow> wr db 8 NBD_INITMAGIC;
     db \<leftarrow> pack_be64 (block_size dev * block_count dev) db 16;
     db \<leftarrow> memset db 24 0 128;
     (ok, c) \<leftarrow> send_from net fd db (24 + 128) (c\<lparr>databuffer := db\<rparr>);
     if \<not> ok then Some (True, c)
     else nbd_loop fuel net dev fd c }"

text \<open>\<open>accept\<close> returns a descriptor for each client; a negative result ends the server. The
  fuel bounds the clients and the requests of each.\<close>

primrec nbd_accept_loop :: "nat \<Rightarrow> 'w net \<Rightarrow> 's bdev \<Rightarrow> int \<Rightarrow> ('w, 's) nbd_conn \<Rightarrow> (bool \<times> ('w, 's) nbd_conn) run" where
  "nbd_accept_loop 0 net dev servfd c = Some (False, c)"
| "nbd_accept_loop (Suc fuel) net dev servfd c = (
     let (fd, w) = net_accept net (conn_w c) servfd; c = c\<lparr>conn_w := w\<rparr> in
     if fd < 0 then Some (True, c)
     else do {
       (fin, c) \<leftarrow> nbd_handle_client_socket fuel net dev fd c;
       if \<not> fin then Some (False, c)
       else do {
         let c = c\<lparr>conn_w := net_close net (conn_w c) fd\<rparr>;
         s \<leftarrow> flush dev (conn_dev c);
         s \<leftarrow> clear_caches dev s;
         nbd_accept_loop fuel net dev servfd (c\<lparr>conn_dev := s\<rparr>) } })"

text \<open>Each failing call ends the process (\<open>err\<close>).\<close>

definition nbd_listenloop :: "nat \<Rightarrow> 'w net \<Rightarrow> 's nbd_server \<Rightarrow> ('w, 's) nbd_conn \<Rightarrow> (bool \<times> ('w, 's) nbd_conn) run" where
  "nbd_listenloop fuel net nbd c = do {
     let (status, w) = net_getaddrinfo net (conn_w c) (nbd_port nbd);
     c_assert (\<not> status < 0);
     let (servfd, w) = net_socket net w;
     c_assert (\<not> servfd < 0);
     let (r, w) = net_reuseaddr net w servfd;
     c_assert (\<not> r < 0);
     let (r, w) = net_bind net w servfd;
     c_assert (\<not> r < 0);
     let (r, w) = net_listen net w servfd;
     c_assert (\<not> r < 0);
     nbd_accept_loop fuel net (nbd_dev nbd) servfd (c\<lparr>conn_w := w\<rparr>) }"

section \<open>The connection\<close>

text \<open>A TCP connection: \<open>pending w\<close> is what the client has sent and the server has not read,
  \<open>sent w\<close> what the server has sent. A call moves some prefix. When \<open>live\<close>, the connection
  works: a send sends something, and a receive receives something when there is something.\<close>

locale tcp_conn =
  fixes net :: "'w net"
    and fd :: int
    and pending :: "'w \<Rightarrow> bytes"
    and sent :: "'w \<Rightarrow> bytes"
    and live :: bool
  assumes send_law: "net_send net w fd d = (r, w') \<Longrightarrow> r \<le> int (length d) \<and> pending w' = pending w \<and>
      sent w' = sent w @ take (nat r) d \<and> (live \<and> d \<noteq> [] \<longrightarrow> 0 < r)"
    and recv_law: "net_recv net w fd n = (r, d, w') \<Longrightarrow> r \<le> int n \<and> length d = nat r \<and> pending w = d @ pending w' \<and>
      sent w' = sent w \<and> (live \<and> 0 < n \<and> pending w \<noteq> [] \<longrightarrow> 0 < r)"
begin

lemma sendall_ok:
  "at + nat n \<le> length msg \<Longrightarrow> \<exists>ok w'. nbd_sendall net fd w msg at n = Some (ok, w') \<and> pending w' = pending w \<and>
    (live \<longrightarrow> ok \<and> sent w' = sent w @ take (nat n) (drop at msg))"
proof (induction "nat n" arbitrary: w at n rule: less_induct)
  case less
  show ?case
  proof (cases "n > 0")
    case True
    let ?d = "take (nat n) (drop at msg)"
    obtain r w1 where r: "net_send net w fd ?d = (r, w1)" by (cases "net_send net w fd ?d")
    have d: "rd msg at (nat n) = Some ?d" "length ?d = nat n" using less.prems by (simp_all add: rd_Some)
    note l = send_law [OF r]
    show ?thesis
    proof (cases "r \<le> 0")
      case True
      then have "\<not> live" using l d(2) \<open>n > 0\<close> by auto
      then show ?thesis using d(1) r True \<open>n > 0\<close> l
        by (intro exI [of _ False] exI [of _ w1]) (simp add: nbd_sendall.simps [of net fd w msg at n])
    next
      case False
      have "nat (n - r) < nat n" "at + nat r + nat (n - r) \<le> length msg"
        using False l d(2) less.prems True by auto
      from less.hyps [OF this(1,2), of w1] obtain ok w2 where
        i: "nbd_sendall net fd w1 msg (at + nat r) (n - r) = Some (ok, w2)" "pending w2 = pending w1"
        "live \<longrightarrow> ok \<and> sent w2 = sent w1 @ take (nat (n - r)) (drop (at + nat r) msg)" by blast
      have "take (nat r) ?d @ take (nat (n - r)) (drop (at + nat r) msg) = ?d"
      proof -
        have nr: "nat n = nat r + nat (n - r)" using False l d(2) True by auto
        have "take (nat r) ?d = take (nat r) (drop at msg)" using nr by (simp add: min_def)
        moreover have "?d = take (nat r) (drop at msg) @ take (nat (n - r)) (drop (at + nat r) msg)"
          unfolding nr take_add by (simp add: add.commute)
        ultimately show ?thesis by simp
      qed
      then have "live \<longrightarrow> ok \<and> sent w2 = sent w @ ?d" using i(3) l by (metis append.assoc)
      moreover have "nbd_sendall net fd w msg at n = Some (ok, w2)"
        using d(1) r False True i(1) by (subst nbd_sendall.simps) simp
      ultimately show ?thesis using i(2) l by simp
    qed
  next
    case False
    then show ?thesis by (intro exI [of _ True] exI [of _ w]) (simp add: nbd_sendall.simps [of net fd w msg at n])
  qed
qed

text \<open>A receive of \<open>n\<close> bytes takes them off the stream, or fails, having taken some.\<close>

lemma recvall_ok:
  "at + nat n \<le> length msg \<Longrightarrow> \<exists>ok msg' d w'. nbd_recvall net fd w msg at n = Some (ok, msg', w') \<and>
    pending w = d @ pending w' \<and> sent w' = sent w \<and> length msg' = length msg \<and> length d \<le> nat n \<and>
    (ok \<longrightarrow> length d = nat n \<and> msg' = patch at d msg) \<and> (live \<and> nat n \<le> length (pending w) \<longrightarrow> ok)"
proof (induction "nat n" arbitrary: w msg at n rule: less_induct)
  case less
  show ?case
  proof (cases "n > 0")
    case True
    obtain r d w1 where r: "net_recv net w fd (nat n) = (r, d, w1)" by (cases "net_recv net w fd (nat n)") auto
    note l = recv_law [OF r]
    show ?thesis
    proof (cases "r \<le> 0")
      case True
      then have "live \<longrightarrow> pending w = []" using l \<open>n > 0\<close> by auto
      moreover have "nbd_recvall net fd w msg at n = Some (False, msg, w1)"
        using r True \<open>n > 0\<close> by (subst nbd_recvall.simps) simp
      ultimately show ?thesis using l True \<open>n > 0\<close> by (intro exI [of _ False] exI [of _ msg] exI [of _ d] exI [of _ w1]) auto
    next
      case False
      have ld: "length d = nat r" "nat r \<le> nat n" using l False True by auto
      have fits: "at + length d \<le> length msg" using less.prems ld by linarith
      let ?msg = "patch at d msg"
      have lm: "length ?msg = length msg" using fits by simp
      have "nat (n - r) < nat n" "at + nat r + nat (n - r) \<le> length ?msg"
        using False ld less.prems True lm by auto
      from less.hyps [OF this(1,2), of w1] obtain ok msg' e w2 where
        i: "nbd_recvall net fd w1 ?msg (at + nat r) (n - r) = Some (ok, msg', w2)" "pending w1 = e @ pending w2"
        "sent w2 = sent w1" "length msg' = length ?msg" "length e \<le> nat (n - r)"
        "ok \<longrightarrow> length e = nat (n - r) \<and> msg' = patch (at + nat r) e ?msg"
        "live \<and> nat (n - r) \<le> length (pending w1) \<longrightarrow> ok" by blast
      have nr: "nat r + nat (n - r) = nat n" using False l True by auto
      have "nbd_recvall net fd w msg at n = Some (ok, msg', w2)"
        using r False True i(1) fits by (subst nbd_recvall.simps) (simp add: wr_Some)
      moreover have "ok \<longrightarrow> length (d @ e) = nat n \<and> msg' = patch at (d @ e) msg"
        using i(6) ld(1) nr patch_patch [of at d e msg] less.prems by auto
      moreover have "live \<and> nat n \<le> length (pending w) \<longrightarrow> ok" using i(7) l ld(1) nr by auto
      moreover have "pending w = (d @ e) @ pending w2" "sent w2 = sent w" using i(2,3) l by simp_all
      moreover have "length msg' = length msg" "length (d @ e) \<le> nat n" using i(4,5) lm ld nr by simp_all
      ultimately show ?thesis by blast
    qed
  next
    case False
    then have "nbd_recvall net fd w msg at n = Some (True, msg, w)" by (subst nbd_recvall.simps) simp
    with False show ?thesis by (intro exI [of _ True] exI [of _ msg] exI [of _ "[]"] exI [of _ w]) simp
  qed
qed

text \<open>On a working connection, what a receive does when the bytes are there, and at the end of the
  stream.\<close>

lemma recvall_prefix:
  assumes live and "pending w = d @ rest" and "length d = nat n" and "nat n \<le> length msg"
  obtains w' where "nbd_recvall net fd w msg 0 n = Some (True, patch 0 d msg, w')" "pending w' = rest" "sent w' = sent w"
proof -
  have "0 + nat n \<le> length msg" using assms(4) by simp
  from recvall_ok [OF this, of w] assms(1,2,3) obtain msg' e w' where
    r: "nbd_recvall net fd w msg 0 n = Some (True, msg', w')" "pending w = e @ pending w'" "sent w' = sent w"
    "length e = nat n" "msg' = patch 0 e msg" by auto
  have "e = d" "pending w' = rest" using r(2,4) assms(2,3) by simp_all
  with that r show thesis by blast
qed

lemma sendall_live:
  assumes live and "nat n \<le> length msg"
  obtains w' where "nbd_sendall net fd w msg 0 n = Some (True, w')" "pending w' = pending w" "sent w' = sent w @ take (nat n) msg"
  using sendall_ok [of 0 n msg w] assms by auto

end

section \<open>Requests\<close>

text \<open>The requests of a well-behaved client, as bytes and as operations on a flat array.\<close>

datatype nbd_req = NRead bytes u64 u32 | NWrite bytes u64 bytes

fun encode_req :: "nbd_req \<Rightarrow> bytes" where
  "encode_req (NRead h from len) = (NBD_REQUEST_MAGIC @ be32_bytes 0) @ h @ be64_bytes from @ be32_bytes len"
| "encode_req (NWrite h from d) =
    (NBD_REQUEST_MAGIC @ be32_bytes 1) @ h @ be64_bytes from @ be32_bytes (of_nat (length d)) @ d"

fun req_ok :: "nat \<Rightarrow> nbd_req \<Rightarrow> bool" where
  "req_ok n (NRead h from len) = (length h = 8 \<and> unat len \<le> 131072 \<and> unat from + unat len \<le> n)"
| "req_ok n (NWrite h from d) = (length h = 8 \<and> length d \<le> 131072 \<and> unat from + length d \<le> n)"

fun reply :: "bytes \<Rightarrow> nbd_req \<Rightarrow> bytes" where
  "reply flat (NRead h from len) = (NBD_RESPONSE_MAGIC @ be32_bytes 0) @ h @ take (unat len) (drop (unat from) flat)"
| "reply flat (NWrite h from d) = (NBD_RESPONSE_MAGIC @ be32_bytes 0) @ h"

fun apply_req :: "bytes \<Rightarrow> nbd_req \<Rightarrow> bytes" where
  "apply_req flat (NRead h from len) = flat"
| "apply_req flat (NWrite h from d) = patch (unat from) d flat"

fun replies :: "bytes \<Rightarrow> nbd_req list \<Rightarrow> bytes" where
  "replies flat [] = []"
| "replies flat (r # rs) = reply flat r @ replies (apply_req flat r) rs"

text \<open>The end of a stream of requests, and the greeting.\<close>

definition hangs_up :: "bytes \<Rightarrow> bool" where
  "hangs_up bye \<longleftrightarrow> length bye < 8 \<or> take 8 bye = NBD_REQUEST_MAGIC @ be32_bytes 2"

definition preamble :: "'s bdev \<Rightarrow> bytes" where
  "preamble dev = NBD_PASSWD @ NBD_INITMAGIC @ be64_bytes (block_size dev * block_count dev) @ replicate 128 0"

text \<open>A connection between requests.\<close>

definition conn_ok :: "('s \<Rightarrow> bool) \<Rightarrow> ('w, 's) nbd_conn \<Rightarrow> bool" where
  "conn_ok valid c \<longleftrightarrow> valid (conn_dev c) \<and> length (databuffer c) = 131072 \<and>
    length (req_buffer c) = 8 \<and> length (req_handle c) = 8"

lemma be32_bytes_inj: "be32_bytes a = be32_bytes b \<longleftrightarrow> a = b"
  by (metis be_val_be_bytes(2) word_unat_eq_iff)

lemma length_magic [simp]: "length NBD_REQUEST_MAGIC = 4" "length NBD_RESPONSE_MAGIC = 4"
  "length NBD_PASSWD = 8" "length NBD_INITMAGIC = 8"
  by (simp_all add: NBD_REQUEST_MAGIC_def NBD_RESPONSE_MAGIC_def NBD_PASSWD_def NBD_INITMAGIC_def)

lemma unpack_be32_bytes:
  assumes "take 4 (drop off buf) = be32_bytes x" and "off + 4 \<le> length buf"
  shows "unpack_be32 buf off = Some x"
  using assms by (simp add: unpack_be32_Some)

lemma unpack_be64_bytes:
  assumes "take 8 (drop off buf) = be64_bytes x" and "off + 8 \<le> length buf"
  shows "unpack_be64 buf off = Some x"
  using assms by (simp add: unpack_be64_Some)

context tcp_conn
begin

lemma recv_buffer_ok:
  assumes live and "pending (conn_w c) = d @ rest" and "length d = nat n" and "nat n \<le> length (req_buffer c)"
  obtains w where "recv_buffer net fd n c = Some (True, c\<lparr>req_buffer := patch 0 d (req_buffer c), conn_w := w\<rparr>)"
    "pending w = rest" "sent w = sent (conn_w c)"
proof -
  obtain w where "nbd_recvall net fd (conn_w c) (req_buffer c) 0 n = Some (True, patch 0 d (req_buffer c), w)"
    "pending w = rest" "sent w = sent (conn_w c)" by (rule recvall_prefix [OF assms])
  then show thesis by (intro that [of w]) (simp_all add: recv_buffer_def)
qed

lemma recv_handle_ok:
  assumes live and "pending (conn_w c) = d @ rest" and "length d = 8" and "length (req_handle c) = 8"
  obtains w where "recv_handle net fd c = Some (True, c\<lparr>req_handle := d, conn_w := w\<rparr>)"
    "pending w = rest" "sent w = sent (conn_w c)"
proof -
  have "length d = nat 8" "nat 8 \<le> length (req_handle c)" using assms by simp_all
  from recvall_prefix [OF assms(1,2) this] obtain w where
    "nbd_recvall net fd (conn_w c) (req_handle c) 0 8 = Some (True, patch 0 d (req_handle c), w)"
    "pending w = rest" "sent w = sent (conn_w c)" by blast
  then show thesis using assms(3,4) by (intro that [of w]) (simp_all add: recv_handle_def)
qed

lemma recv_data_ok:
  assumes live and "pending (conn_w c) = d @ rest" and "length d = nat n" and "nat n \<le> length (databuffer c)"
  obtains w where "recv_data net fd n c = Some (True, c\<lparr>databuffer := patch 0 d (databuffer c), conn_w := w\<rparr>)"
    "pending w = rest" "sent w = sent (conn_w c)"
proof -
  obtain w where "nbd_recvall net fd (conn_w c) (databuffer c) 0 n = Some (True, patch 0 d (databuffer c), w)"
    "pending w = rest" "sent w = sent (conn_w c)" by (rule recvall_prefix [OF assms])
  then show thesis by (intro that [of w]) (simp_all add: recv_data_def)
qed

lemma send_from_ok:
  assumes live and "nat n \<le> length msg"
  obtains w where "send_from net fd msg n c = Some (True, c\<lparr>conn_w := w\<rparr>)" "pending w = pending (conn_w c)"
    "sent w = sent (conn_w c) @ take (nat n) msg"
proof -
  obtain w where "nbd_sendall net fd (conn_w c) msg 0 n = Some (True, w)" "pending w = pending (conn_w c)"
    "sent w = sent (conn_w c) @ take (nat n) msg" by (rule sendall_live [OF assms])
  then show thesis by (intro that [of w]) (simp_all add: send_from_def)
qed

lemma respond_ok:
  assumes live and "length (req_buffer c) = 8" and "length (req_handle c) = 8"
  obtains w b where "nbd_respond net fd True c = Some (True, c\<lparr>req_buffer := b, conn_w := w\<rparr>)" "length b = 8"
    "pending w = pending (conn_w c)" "sent w = sent (conn_w c) @ (NBD_RESPONSE_MAGIC @ be32_bytes 0) @ req_handle c"
proof -
  let ?b1 = "patch 0 NBD_RESPONSE_MAGIC (req_buffer c)"
  let ?b = "patch 4 (be32_bytes 0) ?b1"
  have b: "?b = NBD_RESPONSE_MAGIC @ be32_bytes 0" using assms(2) by (simp add: patch_def)
  have run: "wr (req_buffer c) 0 NBD_RESPONSE_MAGIC = Some ?b1" "pack_be32 0 ?b1 4 = Some ?b"
    using assms(2) by (simp_all add: wr_Some pack_Some del: patch_0)
  have l: "nat 8 \<le> length ?b" "nat 8 \<le> length (req_handle c)" unfolding b using assms(3) by simp_all
  obtain w1 where s1: "send_from net fd ?b 8 (c\<lparr>req_buffer := ?b\<rparr>) = Some (True, c\<lparr>req_buffer := ?b, conn_w := w1\<rparr>)"
    "pending w1 = pending (conn_w c)" "sent w1 = sent (conn_w c) @ ?b"
    using send_from_ok [OF assms(1) l(1), of "c\<lparr>req_buffer := ?b\<rparr>"] b by auto
  obtain w2 where s2: "send_from net fd (req_handle c) 8 (c\<lparr>req_buffer := ?b, conn_w := w1\<rparr>) = Some (True, c\<lparr>req_buffer := ?b, conn_w := w2\<rparr>)"
    "pending w2 = pending w1" "sent w2 = sent w1 @ req_handle c"
    using send_from_ok [OF assms(1) l(2), of "c\<lparr>req_buffer := ?b, conn_w := w1\<rparr>"] assms(3) by auto
  have "nbd_respond net fd True c = Some (True, c\<lparr>req_buffer := ?b, conn_w := w2\<rparr>)"
    using run s1(1) s2(1) by (simp add: nbd_respond_def Let_def del: patch_0)
  then show thesis by (rule that) (use b s1 s2 in simp_all)
qed

text \<open>The fixed part of a request: magic and command, handle, offset, length.\<close>

lemma turn_header:
  assumes live and "length (req_buffer c) = 8" and "length (req_handle c) = 8" and "length h = 8"
    and "pending (conn_w c) = (NBD_REQUEST_MAGIC @ be32_bytes cmd) @ h @ be64_bytes from @ be32_bytes len @ rest"
    and "cmd \<noteq> 2" and "len \<le> 131072"
  obtains c' where "length (req_buffer c') = 8" "req_handle c' = h" "databuffer c' = databuffer c" "conn_dev c' = conn_dev c"
    "pending (conn_w c') = rest" "sent (conn_w c') = sent (conn_w c)"
    "nbd_turn net dev fd c = (if cmd = 0 then nbd_cmd_read net dev fd from len c'
       else if cmd = 1 then nbd_cmd_write net dev fd from len c' else Some (False, c'))"
proof -
  let ?m = "NBD_REQUEST_MAGIC @ be32_bytes cmd"
  obtain w1 where r1: "recv_buffer net fd 8 c = Some (True, c\<lparr>req_buffer := patch 0 ?m (req_buffer c), conn_w := w1\<rparr>)"
    "pending w1 = h @ be64_bytes from @ be32_bytes len @ rest" "sent w1 = sent (conn_w c)"
    by (rule recv_buffer_ok [OF assms(1) assms(5), of 8]) (use assms(2) in simp_all)
  have b1: "patch 0 ?m (req_buffer c) = ?m" using assms(2) by simp
  let ?c1 = "c\<lparr>req_buffer := ?m, conn_w := w1\<rparr>"
  obtain w2 where r2: "recv_handle net fd ?c1 = Some (True, ?c1\<lparr>req_handle := h, conn_w := w2\<rparr>)"
    "pending w2 = be64_bytes from @ be32_bytes len @ rest" "sent w2 = sent (conn_w ?c1)"
  proof -
    have "pending (conn_w ?c1) = h @ be64_bytes from @ be32_bytes len @ rest" "length (req_handle ?c1) = 8"
      using assms(3) r1(2) by simp_all
    from recv_handle_ok [OF assms(1) this(1) assms(4) this(2)] that show thesis by blast
  qed
  let ?c2 = "?c1\<lparr>req_handle := h, conn_w := w2\<rparr>"
  obtain w3 where r3: "recv_buffer net fd 8 ?c2 = Some (True, ?c2\<lparr>req_buffer := patch 0 (be64_bytes from) ?m, conn_w := w3\<rparr>)"
    "pending w3 = be32_bytes len @ rest" "sent w3 = sent (conn_w ?c2)"
    using recv_buffer_ok [OF assms(1), of ?c2 "be64_bytes from" "be32_bytes len @ rest" 8] r2(2) by auto
  have b3: "patch 0 (be64_bytes from) ?m = be64_bytes from" by simp
  let ?c3 = "?c2\<lparr>req_buffer := be64_bytes from, conn_w := w3\<rparr>"
  obtain w4 where r4: "recv_buffer net fd 4 ?c3 = Some (True, ?c3\<lparr>req_buffer := patch 0 (be32_bytes len) (be64_bytes from), conn_w := w4\<rparr>)"
    "pending w4 = rest" "sent w4 = sent (conn_w ?c3)"
    using recv_buffer_ok [OF assms(1), of ?c3 "be32_bytes len" rest 4] r3(2) by auto
  let ?b = "patch 0 (be32_bytes len) (be64_bytes from)"
  have magic: "rd ?m 0 4 = Some NBD_REQUEST_MAGIC" by (simp add: rd_def)
  have cmd: "unpack_be32 ?m 4 = Some cmd" by (rule unpack_be32_bytes) simp_all
  have off: "unpack_be64 (be64_bytes from) 0 = Some from" by (rule unpack_be64_bytes) simp_all
  have len: "unpack_be32 ?b 0 = Some len" by (rule unpack_be32_bytes) simp_all
  have nl: "\<not> 131072 < len" using assms(7) by (simp add: not_less)
  let ?c4 = "?c3\<lparr>req_buffer := ?b, conn_w := w4\<rparr>"
  have tail: "(do {
       (ok, c) \<leftarrow> recv_buffer net fd 4 ?c3;
       if \<not> ok then Some (False, c)
       else do {
         len \<leftarrow> unpack_be32 (req_buffer c) 0;
         if len > 131072 then Some (False, c)
         else if cmd = 0 then nbd_cmd_read net dev fd from len c
         else if cmd = 1 then nbd_cmd_write net dev fd from len c
         else Some (False, c) } }) = (if cmd = 0 then nbd_cmd_read net dev fd from len ?c4
       else if cmd = 1 then nbd_cmd_write net dev fd from len ?c4 else Some (False, ?c4))"
    unfolding r4(1) using len nl by (simp del: patch_0)
  have "nbd_turn net dev fd c = (if cmd = 0 then nbd_cmd_read net dev fd from len ?c4
       else if cmd = 1 then nbd_cmd_write net dev fd from len ?c4 else Some (False, ?c4))"
    unfolding nbd_turn_def r1(1) b1 tail [symmetric] using magic cmd off assms(6) r2(1) r3(1) 
    by (simp add: b3 del: patch_0)
  then show thesis by (rule that [of ?c4, rotated -1]) (use r1 r2 r3 r4 in simp_all)
qed

lemma nbd_read_ok:
  assumes d: "block_device dev valid cont True" and live and c: "conn_ok valid c" and h: "length h = 8"
    and "unat len \<le> 131072" and "unat from + unat len \<le> unat (block_size dev) * unat (block_count dev)"
    and "req_handle c = h"
  obtains c' where "nbd_cmd_read net dev fd from len c = Some (True, c')" "conn_ok valid c'"
    "cont (conn_dev c') = cont (conn_dev c)" "pending (conn_w c') = pending (conn_w c)"
    "sent (conn_w c') = sent (conn_w c) @ reply (concat (cont (conn_dev c))) (NRead h from len)"
proof -
  let ?d = "take (unat len) (drop (unat from) (concat (cont (conn_dev c))))"
  have v: "valid (conn_dev c)" and db: "length (databuffer c) = 131072" and b: "length (req_buffer c) = 8"
    using c by (simp_all add: conn_ok_def)
  have flat: "length (concat (cont (conn_dev c))) = unat (block_size dev) * unat (block_count dev)"
    by (rule block_rw.length_flat [OF block_device.axioms(1) [OF d] v])
  then have ld: "length ?d = unat len" using assms(6) by simp
  have "read_ok valid cont True (conn_dev c) (databuffer c) ?d (read_bytes dev (conn_dev c) from (ucast len) (databuffer c))"
    using block_device.read_bytes_law [OF d v, of "from" "ucast len" "databuffer c"] assms(5,6) db
    by (simp add: unat_u32_u64)
  then obtain s where r: "read_bytes dev (conn_dev c) from (ucast len) (databuffer c) = Some (True, patch 0 ?d (databuffer c), s)"
    "valid s" "cont s = cont (conn_dev c)" by (auto simp: read_into_ok_def)
  let ?db = "patch 0 ?d (databuffer c)"
  let ?c1 = "c\<lparr>databuffer := ?db, conn_dev := s\<rparr>"
  have ldb: "length ?db = 131072" using db ld assms(5) by (intro trans [OF length_patch]) simp_all
  obtain w b' where p: "nbd_respond net fd True ?c1 = Some (True, ?c1\<lparr>req_buffer := b', conn_w := w\<rparr>)" "length b' = 8"
    "pending w = pending (conn_w c)" "sent w = sent (conn_w c) @ (NBD_RESPONSE_MAGIC @ be32_bytes 0) @ h"
    using respond_ok [OF assms(2), of ?c1] b assms(4,7) by auto
  let ?c2 = "?c1\<lparr>req_buffer := b', conn_w := w\<rparr>"
  have ul: "nat (uint len) = unat len" by simp
  have lle: "nat (uint len) \<le> length ?db" using ldb assms(5) by (simp only: ul)
  obtain w2 where q: "send_from net fd ?db (uint len) ?c2 = Some (True, ?c2\<lparr>conn_w := w2\<rparr>)"
    "pending w2 = pending w" "sent w2 = sent w @ take (nat (uint len)) ?db"
    using send_from_ok [OF assms(2) lle, of ?c2] by auto
  have tk: "take (nat (uint len)) ?db = ?d" unfolding ul using ld by (simp add: patch_def)
  have "nbd_cmd_read net dev fd from len c = Some (True, ?c2\<lparr>conn_w := w2\<rparr>)"
    using r(1) p(1) q(1) by (simp add: nbd_cmd_read_def Let_def del: patch_0)
  then show thesis
    by (rule that) (use r p q tk ldb assms(4,7) in \<open>simp_all add: conn_ok_def\<close>)
qed

lemma nbd_write_ok:
  assumes d: "block_device dev valid cont True" and live and c: "conn_ok valid c" and h: "length h = 8"
    and "length data \<le> 131072" and "unat from + length data \<le> unat (block_size dev) * unat (block_count dev)"
    and "req_handle c = h" and "pending (conn_w c) = data @ rest"
  obtains c' where "nbd_cmd_write net dev fd from (of_nat (length data)) c = Some (True, c')" "conn_ok valid c'"
    "concat (cont (conn_dev c')) = patch (unat from) data (concat (cont (conn_dev c)))" "pending (conn_w c') = rest"
    "sent (conn_w c') = sent (conn_w c) @ reply (concat (cont (conn_dev c))) (NWrite h from data)"
proof -
  let ?len = "of_nat (length data) :: u32"
  have v: "valid (conn_dev c)" and db: "length (databuffer c) = 131072" and b: "length (req_buffer c) = 8"
    using c by (simp_all add: conn_ok_def)
  have u: "unat ?len = length data" using assms(5) by (simp add: unat_of_nat take_bit_nat_eq_self_iff)
  have ul: "nat (uint ?len) = length data" using u by simp
  let ?db = "patch 0 data (databuffer c)"
  have ldb: "length ?db = 131072" using db assms(5) by (intro trans [OF length_patch]) simp_all
  have n: "length data = nat (uint ?len)" "nat (uint ?len) \<le> length (databuffer c)" using ul db assms(5) by simp_all
  obtain w where r: "recv_data net fd (uint ?len) c = Some (True, c\<lparr>databuffer := ?db, conn_w := w\<rparr>)"
    "pending w = rest" "sent w = sent (conn_w c)"
    by (rule recv_data_ok [OF assms(2,8) n])
  have "write_ok valid cont True (conn_dev c) (touched (unat (block_size dev)) (unat from) (unat (ucast ?len :: u64)))
      (write_at (unat (block_size dev)) (unat from) (take (unat (ucast ?len :: u64)) ?db) (cont (conn_dev c)))
      (write_bytes dev (conn_dev c) from (ucast ?len) ?db)"
    by (rule block_device.write_bytes_law [OF d v]) (use assms(5,6) ldb u in \<open>simp_all add: unat_u32_u64\<close>)
  moreover have "take (unat (ucast ?len :: u64)) ?db = data" using u by (simp add: unat_u32_u64 patch_def)
  ultimately obtain s where s: "write_bytes dev (conn_dev c) from (ucast ?len) ?db = Some (True, s)" "valid s"
    "cont s = write_at (unat (block_size dev)) (unat from) data (cont (conn_dev c))"
    by (auto simp: write_ok_def)
  have "concat (cont s) = patch (unat from) data (concat (cont (conn_dev c)))"
    using block_rw.contents [OF block_device.axioms(1) [OF d] v] s(3) assms(6)
    by (simp add: concat_write_at mult.commute)
  let ?c1 = "c\<lparr>databuffer := ?db, conn_w := w, conn_dev := s\<rparr>"
  obtain w2 b' where p: "nbd_respond net fd True ?c1 = Some (True, ?c1\<lparr>req_buffer := b', conn_w := w2\<rparr>)" "length b' = 8"
    "pending w2 = pending w" "sent w2 = sent w @ (NBD_RESPONSE_MAGIC @ be32_bytes 0) @ h"
    using respond_ok [OF assms(2), of ?c1] b assms(4,7) by auto
  have "nbd_cmd_write net dev fd from ?len c = Some (True, ?c1\<lparr>req_buffer := b', conn_w := w2\<rparr>)"
    using r(1) s(1) p(1) by (simp add: nbd_cmd_write_def Let_def del: patch_0)
  then show thesis
    by (rule that) (use r s p ldb assms(4,7) \<open>concat (cont s) = _\<close> in \<open>simp_all add: conn_ok_def\<close>)
qed

lemma turn_ok:
  assumes d: "block_device dev valid cont True" and live and c: "conn_ok valid c"
    and ok: "req_ok (unat (block_size dev) * unat (block_count dev)) r" and p: "pending (conn_w c) = encode_req r @ rest"
  obtains c' where "nbd_turn net dev fd c = Some (True, c')" "conn_ok valid c'"
    "concat (cont (conn_dev c')) = apply_req (concat (cont (conn_dev c))) r" "pending (conn_w c') = rest"
    "sent (conn_w c') = sent (conn_w c) @ reply (concat (cont (conn_dev c))) r"
proof -
  have b: "length (req_buffer c) = 8" "length (req_handle c) = 8" using c by (simp_all add: conn_ok_def)
  show thesis
  proof (cases r)
    case (NRead h "from" len)
    have h: "length h = 8" "unat len \<le> 131072" "unat from + unat len \<le> unat (block_size dev) * unat (block_count dev)"
      using ok NRead by simp_all
    have l: "(0 :: u32) \<noteq> 2" "len \<le> 131072" using h(2) by (simp_all add: word_le_nat_alt)
    have "pending (conn_w c) = (NBD_REQUEST_MAGIC @ be32_bytes 0) @ h @ be64_bytes from @ be32_bytes len @ rest"
      using p NRead by simp
    from turn_header [OF assms(2) b h(1) this l, of dev] obtain c1 where t: "length (req_buffer c1) = 8" "req_handle c1 = h"
      "databuffer c1 = databuffer c" "conn_dev c1 = conn_dev c" "pending (conn_w c1) = rest" "sent (conn_w c1) = sent (conn_w c)"
      "nbd_turn net dev fd c = nbd_cmd_read net dev fd from len c1" by auto
    have "conn_ok valid c1" using c t(1-4) h(1) by (simp add: conn_ok_def)
    from nbd_read_ok [OF d assms(2) this h t(2)] obtain c' where "nbd_cmd_read net dev fd from len c1 = Some (True, c')"
      "conn_ok valid c'" "cont (conn_dev c') = cont (conn_dev c1)" "pending (conn_w c') = pending (conn_w c1)"
      "sent (conn_w c') = sent (conn_w c1) @ reply (concat (cont (conn_dev c1))) (NRead h from len)" by blast
    then show thesis using t NRead by (intro that [of c']) simp_all
  next
    case (NWrite h "from" data)
    have h: "length h = 8" "length data \<le> 131072" "unat from + length data \<le> unat (block_size dev) * unat (block_count dev)"
      using ok NWrite by simp_all
    have u: "unat (of_nat (length data) :: u32) = length data" using h(2) by (simp add: unat_of_nat take_bit_nat_eq_self_iff)
    have l: "(1 :: u32) \<noteq> 2" "(1 :: u32) \<noteq> 0" "(of_nat (length data) :: u32) \<le> 131072"
      using h(2) u by (simp_all add: word_le_nat_alt)
    have "pending (conn_w c) = (NBD_REQUEST_MAGIC @ be32_bytes 1) @ h @ be64_bytes from @ be32_bytes (of_nat (length data)) @ data @ rest"
      using p NWrite by simp
    from turn_header [OF assms(2) b h(1) this l(1,3), of dev] l(2) obtain c1 where t: "length (req_buffer c1) = 8" "req_handle c1 = h"
      "databuffer c1 = databuffer c" "conn_dev c1 = conn_dev c" "pending (conn_w c1) = data @ rest" "sent (conn_w c1) = sent (conn_w c)"
      "nbd_turn net dev fd c = nbd_cmd_write net dev fd from (of_nat (length data)) c1" by auto
    have "conn_ok valid c1" using c t(1-4) h(1) by (simp add: conn_ok_def)
    from nbd_write_ok [OF d assms(2) this h t(2,5)] obtain c' where
      "nbd_cmd_write net dev fd from (of_nat (length data)) c1 = Some (True, c')" "conn_ok valid c'"
      "concat (cont (conn_dev c')) = patch (unat from) data (concat (cont (conn_dev c1)))" "pending (conn_w c') = rest"
      "sent (conn_w c') = sent (conn_w c1) @ reply (concat (cont (conn_dev c1))) (NWrite h from data)" by blast
    then show thesis using t NWrite by (intro that [of c']) simp_all
  qed
qed

text \<open>The client hangs up: it closes the connection, possibly in the middle of a header, or it
  disconnects.\<close>

lemma turn_ends:
  assumes live and c: "conn_ok valid c" and "hangs_up (pending (conn_w c))"
  obtains c' where "nbd_turn net dev fd c = Some (False, c')" "conn_ok valid c'" "conn_dev c' = conn_dev c"
    "sent (conn_w c') = sent (conn_w c)"
proof -
  have b: "length (req_buffer c) = 8" using c by (simp add: conn_ok_def)
  then have "0 + nat 8 \<le> length (req_buffer c)" by simp
  from recvall_ok [OF this, of "conn_w c"] obtain ok b' d w where
    r: "nbd_recvall net fd (conn_w c) (req_buffer c) 0 8 = Some (ok, b', w)" "pending (conn_w c) = d @ pending w"
    "sent w = sent (conn_w c)" "length b' = 8" "ok \<longrightarrow> length d = 8 \<and> b' = patch 0 d (req_buffer c)"
    using b by auto
  let ?c = "c\<lparr>req_buffer := b', conn_w := w\<rparr>"
  have buf: "recv_buffer net fd 8 c = Some (ok, ?c)" using r(1) by (simp add: recv_buffer_def)
  have "nbd_turn net dev fd c = Some (False, ?c)"
  proof (cases ok)
    case True
    then have d: "length d = 8" "b' = d" using r(5) b by simp_all
    then have "d = NBD_REQUEST_MAGIC @ be32_bytes 2" using assms(3) r(2) by (simp add: hangs_up_def)
    then have "rd b' 0 4 = Some NBD_REQUEST_MAGIC" "unpack_be32 b' 4 = Some 2"
      using d(2) by (auto simp: rd_def intro: unpack_be32_bytes)
    then show ?thesis using buf True by (simp add: nbd_turn_def)
  next
    case False
    then show ?thesis using buf by (simp add: nbd_turn_def)
  qed
  then show thesis by (rule that) (use c r in \<open>simp_all add: conn_ok_def\<close>)
qed

lemma loop_ok:
  assumes d: "block_device dev valid cont True" and live
  shows "conn_ok valid c \<Longrightarrow> \<forall>r \<in> set rs. req_ok (unat (block_size dev) * unat (block_count dev)) r \<Longrightarrow>
    pending (conn_w c) = concat (map encode_req rs) @ bye \<Longrightarrow> hangs_up bye \<Longrightarrow> length rs < fuel \<Longrightarrow>
    \<exists>c'. nbd_loop fuel net dev fd c = Some (True, c') \<and> conn_ok valid c' \<and>
      concat (cont (conn_dev c')) = fold (\<lambda>r flat. apply_req flat r) rs (concat (cont (conn_dev c))) \<and>
      sent (conn_w c') = sent (conn_w c) @ replies (concat (cont (conn_dev c))) rs"
proof (induction rs arbitrary: c fuel)
  case Nil
  then have "hangs_up (pending (conn_w c))" by simp
  from turn_ends [OF assms(2) Nil.prems(1) this, of dev] obtain c' where "nbd_turn net dev fd c = Some (False, c')"
    "conn_ok valid c'" "conn_dev c' = conn_dev c" "sent (conn_w c') = sent (conn_w c)" by blast
  then show ?case using Nil.prems(5) by (cases fuel) simp_all
next
  case (Cons r rs)
  obtain n where n: "fuel = Suc n" "length rs < n" using Cons.prems(5) by (cases fuel) simp_all
  have r: "req_ok (unat (block_size dev) * unat (block_count dev)) r"
    and p: "pending (conn_w c) = encode_req r @ concat (map encode_req rs) @ bye" using Cons.prems(2,3) by simp_all
  from turn_ok [OF d assms(2) Cons.prems(1) r p] obtain c1 where
    t: "nbd_turn net dev fd c = Some (True, c1)" "conn_ok valid c1"
    "concat (cont (conn_dev c1)) = apply_req (concat (cont (conn_dev c))) r" "pending (conn_w c1) = concat (map encode_req rs) @ bye"
    "sent (conn_w c1) = sent (conn_w c) @ reply (concat (cont (conn_dev c))) r" by blast
  have "\<forall>r \<in> set rs. req_ok (unat (block_size dev) * unat (block_count dev)) r" using Cons.prems(2) by simp
  from Cons.IH [OF t(2) this t(4) Cons.prems(4) n(2)] obtain c' where
    "nbd_loop n net dev fd c1 = Some (True, c')" "conn_ok valid c'"
    "concat (cont (conn_dev c')) = fold (\<lambda>r flat. apply_req flat r) rs (concat (cont (conn_dev c1)))"
    "sent (conn_w c') = sent (conn_w c1) @ replies (concat (cont (conn_dev c1))) rs" by blast
  then show ?case using t n(1) by simp
qed

text \<open>The greeting, then the loop.\<close>

lemma greeting:
  assumes "length (databuffer c) = 131072"
  obtains ok c1 where "send_from net fd (patch 0 (preamble dev) (databuffer c)) (24 + 128)
      (c\<lparr>databuffer := patch 0 (preamble dev) (databuffer c)\<rparr>) = Some (ok, c1)"
    "\<forall>fuel. nbd_handle_client_socket fuel net dev fd c = (if ok then nbd_loop fuel net dev fd c1 else Some (True, c1))"
    "pending (conn_w c1) = pending (conn_w c)" "conn_dev c1 = conn_dev c" "length (databuffer c1) = 131072"
    "req_buffer c1 = req_buffer c" "req_handle c1 = req_handle c"
    "live \<longrightarrow> ok \<and> sent (conn_w c1) = sent (conn_w c) @ preamble dev"
proof -
  let ?b1 = "patch 0 NBD_PASSWD (databuffer c)"
  let ?b2 = "patch 0 (NBD_PASSWD @ NBD_INITMAGIC) (databuffer c)"
  let ?b3 = "patch 0 (NBD_PASSWD @ NBD_INITMAGIC @ be64_bytes (block_size dev * block_count dev)) (databuffer c)"
  let ?b4 = "patch 0 (preamble dev) (databuffer c)"
  have l: "length ?b1 = 131072" "length ?b2 = 131072" "length ?b3 = 131072" "length ?b4 = 131072"
    using assms by (subst length_patch; simp add: preamble_def)+
  have p: "patch 8 NBD_INITMAGIC ?b1 = ?b2" "patch 16 (be64_bytes (block_size dev * block_count dev)) ?b2 = ?b3"
    "patch 24 (replicate 128 0) ?b3 = ?b4"
    using assms by (simp_all add: patch_def preamble_def)
  have run: "wr (databuffer c) 0 NBD_PASSWD = Some ?b1" "wr ?b1 8 NBD_INITMAGIC = Some ?b2"
    "pack_be64 (block_size dev * block_count dev) ?b2 16 = Some ?b3" "memset ?b3 24 0 128 = Some ?b4"
    using l assms by (simp_all only: wr_Some pack_Some memset_Some length_magic p)
  have lp: "length (preamble dev) = 152" by (simp add: preamble_def)
  have n: "0 + nat (24 + 128) \<le> length ?b4" using l(4) by simp
  from sendall_ok [OF n, of "conn_w c"] obtain ok w where s: "nbd_sendall net fd (conn_w c) ?b4 0 (24 + 128) = Some (ok, w)"
    "pending w = pending (conn_w c)" "live \<longrightarrow> ok \<and> sent w = sent (conn_w c) @ take (nat (24 + 128)) (drop 0 ?b4)" by auto
  have tk: "take (nat (24 + 128)) (drop 0 ?b4) = preamble dev" using lp by simp
  let ?c = "c\<lparr>databuffer := ?b4, conn_w := w\<rparr>"
  have f: "send_from net fd ?b4 (24 + 128) (c\<lparr>databuffer := ?b4\<rparr>) = Some (ok, ?c)"
    unfolding send_from_def using s(1) by simp
  show thesis
    by (rule that [OF f]) (use run f s l(4) tk in \<open>simp_all add: nbd_handle_client_socket_def del: patch_0\<close>)
qed

end

section \<open>Termination\<close>

context tcp_conn
begin

lemma recvall_consumes:
  "nbd_recvall net fd w msg at n = Some (ok, msg', w') \<Longrightarrow>
    length (pending w') \<le> length (pending w) \<and> (ok \<longrightarrow> length (pending w) = nat n + length (pending w'))"
proof (induction "nat n" arbitrary: w msg at n rule: less_induct)
  case less
  obtain r d w1 where r: "net_recv net w fd (nat n) = (r, d, w1)" by (cases "net_recv net w fd (nat n)") auto
  note l = recv_law [OF r]
  show ?case
  proof (cases "n > 0 \<and> r > 0")
    case True
    have e: "nbd_recvall net fd w msg at n = (do { msg \<leftarrow> wr msg at d; nbd_recvall net fd w1 msg (at + nat r) (n - r) })"
      using r True by (subst nbd_recvall.simps) simp
    have "\<exists>m. nbd_recvall net fd w1 m (at + nat r) (n - r) = Some (ok, msg', w')"
      using less.prems unfolding e by (auto simp: bind_eq_Some_conv)
    then obtain m where m: "nbd_recvall net fd w1 m (at + nat r) (n - r) = Some (ok, msg', w')" by blast
    have "nat (n - r) < nat n" using True l by auto
    from less.hyps [OF this m] l True show ?thesis by auto
  next
    case False
    with less.prems r l show ?thesis by (subst (asm) nbd_recvall.simps) (auto split: if_splits)
  qed
qed

lemma sendall_keeps: "nbd_sendall net fd w msg at n = Some (ok, w') \<Longrightarrow> pending w' = pending w"
proof (induction "nat n" arbitrary: w at n rule: less_induct)
  case less
  show ?case
  proof (cases "n > 0")
    case True
    then obtain d where d: "rd msg at (nat n) = Some d" using less.prems
      by (subst (asm) nbd_sendall.simps) (auto simp: bind_eq_Some_conv)
    obtain r w1 where r: "net_send net w fd d = (r, w1)" by (cases "net_send net w fd d")
    note l = send_law [OF r]
    show ?thesis
    proof (cases "r \<le> 0")
      case False
      have m: "nbd_sendall net fd w1 msg (at + nat r) (n - r) = Some (ok, w')"
        using less.prems d r True False by (subst (asm) nbd_sendall.simps) simp
      have "nat (n - r) < nat n" using True False by auto
      from less.hyps [OF this m] l show ?thesis by simp
    qed (use less.prems d r True l in \<open>subst (asm) nbd_sendall.simps, simp\<close>)
  qed (use less.prems in \<open>subst (asm) nbd_sendall.simps, simp\<close>)
qed

text \<open>The bytes left to read after a step of the handler.\<close>

abbreviation left :: "('w, 's) nbd_conn \<Rightarrow> nat" where
  "left c \<equiv> length (pending (conn_w c))"

lemma recv_consumes:
  "recv_buffer net fd n c = Some (ok, c') \<Longrightarrow> left c' \<le> left c \<and> (ok \<longrightarrow> left c = nat n + left c')"
  "recv_handle net fd c = Some (ok, c') \<Longrightarrow> left c' \<le> left c \<and> (ok \<longrightarrow> left c = 8 + left c')"
  "recv_data net fd n c = Some (ok, c') \<Longrightarrow> left c' \<le> left c"
  using recvall_consumes [of "conn_w c"]
  by (fastforce simp: recv_buffer_def recv_handle_def recv_data_def bind_eq_Some_conv)+

lemma send_from_keeps: "send_from net fd msg n c = Some (ok, c') \<Longrightarrow> left c' = left c"
  using sendall_keeps by (fastforce simp: send_from_def bind_eq_Some_conv)

lemma respond_keeps: "nbd_respond net fd res c = Some (ok, c') \<Longrightarrow> left c' = left c"
  by (auto simp: nbd_respond_def bind_eq_Some_conv Let_def split: if_splits dest!: send_from_keeps)

lemma cmd_consumes:
  "nbd_cmd_read net dev fd from len c = Some (ok, c') \<Longrightarrow> left c' = left c"
  "nbd_cmd_write net dev fd from len c = Some (ok, c') \<Longrightarrow> left c' \<le> left c"
  by (fastforce simp: nbd_cmd_read_def nbd_cmd_write_def bind_eq_Some_conv Let_def
      split: if_splits dest: send_from_keeps respond_keeps recv_consumes(3))+

lemma turn_consumes:
  assumes "nbd_turn net dev fd c = Some (True, c')"
  shows "left c' + 28 \<le> left c"
  using assms
  by (auto simp: nbd_turn_def bind_eq_Some_conv split: if_splits dest!: recv_consumes cmd_consumes)

lemma loop_ends:
  "left c < 28 * n \<Longrightarrow> n \<le> m \<Longrightarrow>
    nbd_loop m net dev fd c = nbd_loop n net dev fd c \<and> (\<forall>c'. nbd_loop n net dev fd c \<noteq> Some (False, c'))"
proof (induction n arbitrary: c m)
  case (Suc n)
  obtain k where k: "m = Suc k" "n \<le> k" using Suc.prems(2) by (cases m) simp_all
  show ?case
  proof (cases "nbd_turn net dev fd c")
    case (Some p)
    obtain go c1 where p: "p = (go, c1)" by (cases p)
    show ?thesis
    proof (cases go)
      case True
      then have "left c1 + 28 \<le> left c" using turn_consumes [of dev c c1] Some p by simp
      then have "left c1 < 28 * n" using Suc.prems(1) by simp
      from Suc.IH [OF this k(2)] Some p True k(1) show ?thesis by simp
    qed (use Some p k(1) in simp)
  qed (use k(1) in simp)
qed simp

lemma handle_ends:
  assumes "left c < 28 * n" and "n \<le> m" and "length (databuffer c) = 131072"
  shows "nbd_handle_client_socket m net dev fd c = nbd_handle_client_socket n net dev fd c"
    and "nbd_handle_client_socket n net dev fd c \<noteq> Some (False, c')"
proof -
  obtain ok c1 where g: "\<forall>fuel. nbd_handle_client_socket fuel net dev fd c = (if ok then nbd_loop fuel net dev fd c1 else Some (True, c1))"
    "pending (conn_w c1) = pending (conn_w c)" by (rule greeting [OF assms(3), of dev]) (rule that; assumption)
  have "left c1 < 28 * n" using assms(1) g(2) by simp
  note e = loop_ends [OF this assms(2), of dev]
  show "nbd_handle_client_socket m net dev fd c = nbd_handle_client_socket n net dev fd c"
    "nbd_handle_client_socket n net dev fd c \<noteq> Some (False, c')"
    using e by (simp_all add: g(1))
qed

end

section \<open>Properties\<close>

text \<open>A connection for the witnesses: at most three bytes a call are received, five sent.\<close>

definition pipe_net :: "(bytes \<times> bytes) net" where
  "pipe_net = \<lparr>
     net_send = (\<lambda>w fd d. (int (min 5 (length d)), (fst w, snd w @ take 5 d))),
     net_recv = (\<lambda>w fd n. (let d = take (min 3 n) (fst w) in (int (length d), d, (drop (length d) (fst w), snd w)))),
     net_getaddrinfo = (\<lambda>w port. (0, w)), net_socket = (\<lambda>w. (3, w)), net_reuseaddr = (\<lambda>w fd. (0, w)),
     net_bind = (\<lambda>w fd. (0, w)), net_listen = (\<lambda>w fd. (0, w)), net_accept = (\<lambda>w fd. (4, w)), net_close = (\<lambda>w fd. w)\<rparr>"

interpretation pipe: tcp_conn pipe_net fd fst snd True for fd
proof
  show "net_send pipe_net w fd d = (r, w') \<Longrightarrow> r \<le> int (length d) \<and> fst w' = fst w \<and>
      snd w' = snd w @ take (nat r) d \<and> (True \<and> d \<noteq> [] \<longrightarrow> 0 < r)" for w d r w'
    by (auto simp: pipe_net_def min_def)
  show "net_recv pipe_net w fd n = (r, d, w') \<Longrightarrow> r \<le> int n \<and> length d = nat r \<and> fst w = d @ fst w' \<and>
      snd w' = snd w \<and> (True \<and> 0 < n \<and> fst w \<noteq> [] \<longrightarrow> 0 < r)" for w n r d w'
    by (auto simp: pipe_net_def Let_def min_def)
qed

definition pipe_conn :: "bytes \<Rightarrow> 's \<Rightarrow> (bytes \<times> bytes, 's) nbd_conn" where
  "pipe_conn input s = \<lparr>conn_w = (input, []), conn_dev = s, databuffer = replicate 131072 0,
     req_buffer = replicate 8 0, req_handle = replicate 8 0\<rparr>"

text \<open>C17: Over a connection that delivers bytes in pieces of any size, the server greets its client
  with the magic words and the size of the device, answers a stream of reads and writes that lie
  inside the device as a flat array of bytes would, in order and each with its own handle, leaves
  that array on the device, and returns when the client hangs up or disconnects.\<close>

theorem nbd_serves_requests:
  assumes "tcp_conn net fd pending sent True" and "block_device dev valid cont True" and "conn_ok valid c"
    and "\<forall>r \<in> set rs. req_ok (unat (block_size dev) * unat (block_count dev)) r"
    and "pending (conn_w c) = concat (map encode_req rs) @ bye" and "hangs_up bye" and "length rs < fuel"
  shows "\<exists>c'. nbd_handle_client_socket fuel net dev fd c = Some (True, c') \<and> conn_ok valid c' \<and>
    concat (cont (conn_dev c')) = fold (\<lambda>r flat. apply_req flat r) rs (concat (cont (conn_dev c))) \<and>
    sent (conn_w c') = sent (conn_w c) @
      (NBD_PASSWD @ NBD_INITMAGIC @ be64_bytes (block_size dev * block_count dev) @ replicate 128 0) @
      replies (concat (cont (conn_dev c))) rs"
proof -
  have db: "length (databuffer c) = 131072" using assms(3) by (simp add: conn_ok_def)
  obtain ok c1 where g: "\<forall>fuel. nbd_handle_client_socket fuel net dev fd c = (if ok then nbd_loop fuel net dev fd c1 else Some (True, c1))"
    "pending (conn_w c1) = pending (conn_w c)" "conn_dev c1 = conn_dev c" "length (databuffer c1) = 131072"
    "req_buffer c1 = req_buffer c" "req_handle c1 = req_handle c"
    "True \<longrightarrow> ok \<and> sent (conn_w c1) = sent (conn_w c) @ preamble dev"
    using tcp_conn.greeting [OF assms(1) db, of dev] by blast
  have c1: "conn_ok valid c1" using assms(3) g(3-6) by (simp add: conn_ok_def)
  have p: "pending (conn_w c1) = concat (map encode_req rs) @ bye" using g(2) assms(5) by simp
  from tcp_conn.loop_ok [OF assms(1,2) TrueI c1 assms(4) p assms(6,7)] show ?thesis
    using g(1,3,7) by (simp add: preamble_def)
qed

theorem nbd_serves_requests_witness:
  "let h = [1, 2, 3, 4, 5, 6, 7, 8]; rs = [NWrite h 3 [9, 8, 7], NRead h 2 5];
       c = pipe_conn (concat (map encode_req rs) @ [0]) (ram_of 4 (replicate 3 [0, 0, 0, 0])) in
   \<exists>c'. nbd_handle_client_socket 3 pipe_net (malloc_dev 4 3) 4 c = Some (True, c') \<and>
     concat (mem_cont 4 3 (conn_dev c')) = [0, 0, 0, 9, 8, 7, 0, 0, 0, 0, 0, 0] \<and>
     snd (conn_w c') = preamble (malloc_dev 4 3 :: unit mem_state bdev) @ NBD_RESPONSE_MAGIC @ [0, 0, 0, 0] @ h @
       NBD_RESPONSE_MAGIC @ [0, 0, 0, 0] @ h @ [0, 9, 8, 7, 0]"
proof -
  let ?h = "[1, 2, 3, 4, 5, 6, 7, 8]"
  let ?rs = "[NWrite ?h 3 [9, 8, 7], NRead ?h 2 5]" and ?s = "ram_of 4 (replicate 3 [0, 0, 0, 0])"
  let ?c = "pipe_conn (concat (map encode_req ?rs) @ [0]) ?s"
  have v: "mem_valid 4 3 ?s" "mem_cont 4 3 ?s = replicate 3 [0, 0, 0, 0]" by (rule ram_of_valid; simp)+
  have bc: "block_size (malloc_dev 4 3 :: unit mem_state bdev) = 4" "block_count (malloc_dev 4 3 :: unit mem_state bdev) = 3"
    by (simp_all add: malloc_dev_def)
  have "\<exists>c'. nbd_handle_client_socket 3 pipe_net (malloc_dev 4 3) 4 ?c = Some (True, c') \<and> conn_ok (mem_valid 4 3) c' \<and>
    concat (mem_cont 4 3 (conn_dev c')) = fold (\<lambda>r flat. apply_req flat r) ?rs (concat (mem_cont 4 3 (conn_dev ?c))) \<and>
    snd (conn_w c') = snd (conn_w ?c) @
      (NBD_PASSWD @ NBD_INITMAGIC @ be64_bytes (block_size (malloc_dev 4 3 :: unit mem_state bdev) * block_count (malloc_dev 4 3 :: unit mem_state bdev)) @
        replicate 128 0) @ replies (concat (mem_cont 4 3 (conn_dev ?c))) ?rs"
    by (rule nbd_serves_requests [OF pipe.tcp_conn_axioms malloc.block_device_axioms, where bye = "[0]"])
      (use v in \<open>simp_all add: bc hangs_up_def conn_ok_def pipe_conn_def\<close>)
  moreover have cc: "concat (mem_cont 4 3 ?s) = [0, 0, 0, 0, 0, 0, 0, 0, 0, 0, 0, 0]"
    unfolding v(2) by (simp add: numeral_3_eq_3)
  moreover have "conn_dev ?c = ?s" "snd (conn_w ?c) = []" by (simp_all add: pipe_conn_def)
  moreover have "fold (\<lambda>r flat. apply_req flat r) ?rs (concat (mem_cont 4 3 ?s)) = [0, 0, 0, 9, 8, 7, 0, 0, 0, 0, 0, 0]"
    unfolding cc by (simp add: patch_def)
  moreover have "replies (concat (mem_cont 4 3 ?s)) ?rs = NBD_RESPONSE_MAGIC @ [0, 0, 0, 0] @ ?h @ NBD_RESPONSE_MAGIC @ [0, 0, 0, 0] @ ?h @ [0, 9, 8, 7, 0]"
    unfolding cc by (simp add: patch_def be32_bytes_def)
  ultimately show ?thesis unfolding Let_def preamble_def by fastforce
qed

text \<open>C18: Whatever bytes a client sends, and whatever device is served, handling the client ends
  within one turn per 28 bytes of input: no further fuel changes its result, and the result is never
  that the fuel ran out. The connection may fail at any time.\<close>

theorem nbd_client_ends:
  assumes "tcp_conn net fd pending sent live" and "length (databuffer c) = 131072"
    and "length (pending (conn_w c)) < 28 * n" and "n \<le> m"
  shows "nbd_handle_client_socket m net dev fd c = nbd_handle_client_socket n net dev fd c \<and>
    (\<forall>c'. nbd_handle_client_socket n net dev fd c \<noteq> Some (False, c'))"
  using tcp_conn.handle_ends [OF assms(1,3,4,2)] by blast

theorem nbd_client_ends_witness:
  "nbd_handle_client_socket 100 pipe_net (malloc_dev 4 3) 4 (pipe_conn (replicate 27 0) (ram_of 4 (replicate 3 [0, 0, 0, 0]))) =
   nbd_handle_client_socket 1 pipe_net (malloc_dev 4 3) 4 (pipe_conn (replicate 27 0) (ram_of 4 (replicate 3 [0, 0, 0, 0])))"
  using nbd_client_ends [OF pipe.tcp_conn_axioms, of "pipe_conn (replicate 27 0) (ram_of 4 (replicate 3 [0, 0, 0, 0]))" 1 100 "malloc_dev 4 3" 4]
  by (simp add: pipe_conn_def)

text \<open>C21: The server does not check a request against the size of the device: a read that reaches
  past the end of a memory device, by a single byte, fails an assertion and ends the process, other
  clients and unwritten caches included.\<close>

theorem nbd_out_of_range_kills:
  fixes c :: "('w, 's mem_state) nbd_conn"
  assumes "tcp_conn net fd pending sent True" and "conn_ok (mem_valid bs bc) c" and "length h = 8"
    and "pending (conn_w c) = encode_req (NRead h start len) @ rest"
    and "unat len \<le> 131072" and "0 < unat len" and "unat bs * unat bc < unat start + unat len" and "unat start + unat len < 2 ^ 64"
  shows "nbd_handle_client_socket (Suc n) net (malloc_dev bs bc) fd c = None"
proof -
  have v: "mem_valid bs bc (conn_dev c)" and b: "length (databuffer c) = 131072" "length (req_buffer c) = 8" "length (req_handle c) = 8"
    using assms(2) by (simp_all add: conn_ok_def)
  let ?dev = "malloc_dev bs bc :: 's mem_state bdev"
  obtain ok c1 where g: "\<forall>fuel. nbd_handle_client_socket fuel net ?dev fd c = (if ok then nbd_loop fuel net ?dev fd c1 else Some (True, c1))"
    "pending (conn_w c1) = pending (conn_w c)" "conn_dev c1 = conn_dev c" "length (databuffer c1) = 131072"
    "req_buffer c1 = req_buffer c" "req_handle c1 = req_handle c"
    "True \<longrightarrow> ok \<and> sent (conn_w c1) = sent (conn_w c) @ preamble ?dev"
    using tcp_conn.greeting [OF assms(1) b(1), of ?dev] by blast
  have l: "length (req_buffer c1) = 8" "length (req_handle c1) = 8" "(0 :: u32) \<noteq> 2" "len \<le> 131072"
    using g(5,6) b assms(5) by (simp_all add: word_le_nat_alt)
  have p: "pending (conn_w c1) = (NBD_REQUEST_MAGIC @ be32_bytes 0) @ h @ be64_bytes start @ be32_bytes len @ rest"
    using g(2) assms(4) by simp
  from tcp_conn.turn_header [OF assms(1) TrueI l(1,2) assms(3) p l(3,4), of ?dev] obtain c2 where
    t: "nbd_turn net ?dev fd c1 = nbd_cmd_read net ?dev fd start len c2" by auto
  have "generic_read_bytes bs bc (mem_read_block bs bc) st start (ucast len) into = None" for st into
  proof -
    have sum: "unat (start + ucast len - 1) = unat start + unat len - 1"
      using assms(6,8) by (subst unat_sub_if') (simp add: unat_add_lem [THEN iffD1] unat_u32_u64 word_le_nat_alt)
    have bs: "0 < unat bs" "bs \<noteq> 0" using v by (auto simp: mem_valid_def)
    have "unat bc \<le> (unat start + unat len - 1) div unat bs"
      using bs assms(6,7) by (simp add: less_eq_div_iff_mult_less_eq mult.commute)
    then have "\<not> (start + ucast len - 1) div bs < bc" by (simp add: word_less_nat_alt unat_div sum)
    moreover have "ucast len \<noteq> (0 :: u64)" using assms(6) unat_u32_u64 [of len] by force
    ultimately show ?thesis using bs by (simp add: generic_read_bytes_def c_div_def c_assert_def Let_def)
  qed
  then have "read_bytes ?dev st start (ucast len) into = None" for st into by (simp add: malloc_dev_def)
  then have "nbd_turn net ?dev fd c1 = None" using t by (simp add: nbd_cmd_read_def)
  then show ?thesis using g(1,7) by simp
qed

theorem nbd_out_of_range_kills_witness:
  "nbd_handle_client_socket 9 pipe_net (malloc_dev 4 3) 4
     (pipe_conn (encode_req (NRead [1, 2, 3, 4, 5, 6, 7, 8] 8 5)) (ram_of 4 (replicate 3 [0, 0, 0, 0]))) = None"
proof -
  let ?s = "ram_of 4 (replicate 3 [0, 0, 0, 0])"
  have "mem_valid 4 3 ?s" by (rule ram_of_valid; simp)
  then have "nbd_handle_client_socket (Suc 8) pipe_net (malloc_dev 4 3) 4
     (pipe_conn (encode_req (NRead [1, 2, 3, 4, 5, 6, 7, 8] 8 5)) ?s) = None"
    by (intro nbd_out_of_range_kills [OF pipe.tcp_conn_axioms, where rest = "[]" and h = "[1, 2, 3, 4, 5, 6, 7, 8]" and start = 8 and len = 5]) (simp_all add: conn_ok_def pipe_conn_def)
  then show ?thesis by simp
qed

end
