(* ===== verification/Partitioner.thy ===== *)
theory Partitioner
  imports Contract BaseIO Endian Bitvector
begin

text \<open>
  \<open>src/src/layers/partitioner.c\<close>: partitions of a device, with a map from the blocks of all
  partitions to blocks of the device, allocated when they are first written. The device holds
  a header with the sizes of the partitions, a bitmap of the blocks in use, the map, and the data.

  This theory holds the operations; \<open>PartMap\<close> and \<open>PartContract\<close> say what they do.
\<close>

unbundle bit_operations_syntax

section \<open>The state\<close>

definition PARTITION_MAGIC :: bytes where
  "PARTITION_MAGIC = [0x50, 0x41, 0x52, 0x54, 0x30, 0x30, 0x30, 0x30]"

definition MAX_PARTITION_NUMBER :: int where
  "MAX_PARTITION_NUMBER = 60"

text \<open>The pointer \<open>base\<close> is an argument of the operations. The two buffers belong to the struct.\<close>

record part_io =
  bitmap_blocks_per_map :: u64
  maps_blocks_per_map :: u64
  disk_blocks :: u64
  blocks_used :: u64
  bitmap_len :: u64
  maps_len :: u64
  mapped_total_size :: u64
  free_scan_from :: u64
  bitmap_block :: bytes
  bitmap_block_which :: u64
  map_block :: bytes
  map_block_which :: u64
  open_partition :: int
  mapper_partition_offset :: u64

definition BITMAP_START :: u64 where
  "BITMAP_START = 1"

definition MAPS_START :: "part_io \<Rightarrow> u64" where
  "MAPS_START io = bitmap_len io + BITMAP_START"

definition DATA_START :: "part_io \<Rightarrow> u64" where
  "DATA_START io = maps_len io + MAPS_START io"

section \<open>Reading the layout\<close>

text \<open>\<open>bitmap[j]\<close> through a \<open>uint32_t\<close> pointer, on a little-endian machine.\<close>

definition host_u32 :: "bytes \<Rightarrow> nat \<Rightarrow> u32 run" where
  "host_u32 buf j = do {
     d \<leftarrow> rd buf (4 * j) 4;
     Some (word_rcat (rev d)) }"

primrec sizes_loop :: "bytes \<Rightarrow> nat list \<Rightarrow> u64 \<Rightarrow> u64 run" where
  "sizes_loop header [] tot = Some tot"
| "sizes_loop header (i # is) tot = do {
     v \<leftarrow> unpack_be64 header (i * 8);
     sizes_loop header is (tot + v) }"

text \<open>The words of a block are counted in an \<open>int\<close>.\<close>

primrec used_loop :: "bytes \<Rightarrow> nat list \<Rightarrow> u64 \<Rightarrow> u64 run" where
  "used_loop bitmap [] used = Some used"
| "used_loop bitmap (j # js) used = do {
     v \<leftarrow> host_u32 bitmap j;
     used_loop bitmap js (used + ucast (bit_count_in_u32 v)) }"

primrec bitmap_loop :: "'s bdev \<Rightarrow> u64 \<Rightarrow> nat list \<Rightarrow> part_io \<Rightarrow> 's \<Rightarrow> (bool \<times> part_io \<times> 's) run" where
  "bitmap_loop base bs [] io s = Some (True, io, s)"
| "bitmap_loop base bs (i # is) io s = do {
     (ok, b, s) \<leftarrow> read_block base s (of_nat i) (bitmap_block io);
     let io = io\<lparr>bitmap_block := b\<rparr>;
     if \<not> ok then Some (False, io, s)
     else do {
       let io = io\<lparr>bitmap_block_which := of_nat i\<rparr>;
       used \<leftarrow> used_loop b (int_below (bs div 4)) (blocks_used io);
       bitmap_loop base bs is (io\<lparr>blocks_used := used\<rparr>) s } }"

definition partitioner_setup_io :: "'s bdev \<Rightarrow> part_io \<Rightarrow> 's \<Rightarrow> (bool \<times> part_io \<times> 's) run" where
  "partitioner_setup_io base io s = do {
     let io = io\<lparr>bitmap_blocks_per_map := block_size base * 8, maps_blocks_per_map := block_size base div 8\<rparr>;
     (ok, header, s) \<leftarrow> read_block base s 0 (bitmap_block io);
     let io = io\<lparr>bitmap_block := header\<rparr>;
     if \<not> ok then Some (False, io, s)
     else do {
       magic \<leftarrow> rd header 0 8;
       if magic \<noteq> PARTITION_MAGIC then Some (False, io, s)
       else do {
         n \<leftarrow> unpack_be64 header 8;
         let io = io\<lparr>disk_blocks := n\<rparr>;
         if n > block_count base then Some (False, io, s)
         else do {
           bs \<leftarrow> unpack_be64 header 16;
           if bs \<noteq> block_size base then Some (False, io, s)
           else do {
             bl \<leftarrow> c_div (n + bitmap_blocks_per_map io - 1) (bitmap_blocks_per_map io);
             tot \<leftarrow> sizes_loop header [3..<64] 0;
             ml \<leftarrow> c_div (tot + maps_blocks_per_map io - 1) (maps_blocks_per_map io);
             let io = io\<lparr>bitmap_len := bl, mapped_total_size := tot, maps_len := ml,
               free_scan_from := 1, bitmap_block_which := 0, blocks_used := 0\<rparr>;
             bitmap_loop base bs [unat BITMAP_START..<unat (MAPS_START io)] io s } } } } }"

section \<open>The bitmap\<close>

definition partitioner_open_bitmap_block_for ::
  "'s bdev \<Rightarrow> part_io \<Rightarrow> 's \<Rightarrow> u64 \<Rightarrow> (bool \<times> part_io \<times> 's) run" where
  "partitioner_open_bitmap_block_for base io s block = do {
     q \<leftarrow> c_div block (bitmap_blocks_per_map io);
     let wanted = q + BITMAP_START;
     if wanted \<noteq> bitmap_block_which io then do {
       (ok, b, s) \<leftarrow> read_block base s wanted (bitmap_block io);
       let io = io\<lparr>bitmap_block := b, bitmap_block_which := 0\<rparr>;
       if \<not> ok then Some (False, io, s)
       else Some (True, io\<lparr>bitmap_block_which := wanted\<rparr>, s) }
     else Some (True, io, s) }"

text \<open>The loop of \<open>partitioner_scan_free_block\<close>; 0 is failure. Not returning is \<open>None\<close>.\<close>

partial_function (option) scan_free_loop ::
  "'s bdev \<Rightarrow> u64 \<Rightarrow> part_io \<Rightarrow> 's \<Rightarrow> (u64 \<times> part_io \<times> 's) run" where
  "scan_free_loop base start_scan io s = do {
     (ok, io, s) \<leftarrow> partitioner_open_bitmap_block_for base io s (free_scan_from io);
     if \<not> ok then Some (0, io, s)
     else do {
       interior \<leftarrow> c_mod (free_scan_from io) (bitmap_blocks_per_map io);
       used \<leftarrow> bit_get (bitmap_block io) interior;
       if \<not> used then Some (free_scan_from io, io, s)
       else do {
         let f = free_scan_from io + 1;
         let io = io\<lparr>free_scan_from := if f \<ge> disk_blocks io then 1 else f\<rparr>;
         if start_scan \<noteq> free_scan_from io then scan_free_loop base start_scan io s
         else Some (0, io, s) } } }"

declare scan_free_loop.simps [simp del]

definition partitioner_scan_free_block :: "'s bdev \<Rightarrow> part_io \<Rightarrow> 's \<Rightarrow> (u64 \<times> part_io \<times> 's) run" where
  "partitioner_scan_free_block base io s = scan_free_loop base (free_scan_from io) io s"

definition partitioner_mark_block_as ::
  "'s bdev \<Rightarrow> part_io \<Rightarrow> 's \<Rightarrow> u64 \<Rightarrow> bool \<Rightarrow> (bool \<times> part_io \<times> 's) run" where
  "partitioner_mark_block_as base io s which used = do {
     (ok, io, s) \<leftarrow> partitioner_open_bitmap_block_for base io s which;
     if \<not> ok then Some (False, io, s)
     else do {
       interior \<leftarrow> c_mod which (bitmap_blocks_per_map io);
       old \<leftarrow> bit_get (bitmap_block io) interior;
       b \<leftarrow> (if used then bit_set (bitmap_block io) interior else bit_clear (bitmap_block io) interior);
       let io = io\<lparr>bitmap_block := b, blocks_used :=
         (if used then (if \<not> old then blocks_used io + 1 else blocks_used io)
          else (if old then blocks_used io - 1 else blocks_used io))\<rparr>;
       (ok, s) \<leftarrow> write_block base s (bitmap_block_which io) (bitmap_block io);
       if \<not> ok then Some (False, io\<lparr>bitmap_block_which := 0\<rparr>, s)
       else Some (True, io, s) } }"

section \<open>The header\<close>

text \<open>Both functions use whatever the buffer holds when the read fails. The partition is not negative.\<close>

definition partitioner_get_part_size ::
  "'s bdev \<Rightarrow> part_io \<Rightarrow> 's \<Rightarrow> nat \<Rightarrow> (u64 \<times> part_io \<times> 's) run" where
  "partitioner_get_part_size base io s part = do {
     (ok, b, s) \<leftarrow> read_block base s 0 (bitmap_block io);
     let io = io\<lparr>bitmap_block := b, bitmap_block_which := 0\<rparr>;
     v \<leftarrow> unpack_be64 (bitmap_block io) ((part + 3) * 8);
     Some (v, io, s) }"

text \<open>The loop adds the size of \<open>part\<close> itself, not of \<open>i\<close>.\<close>

primrec offset_loop :: "bytes \<Rightarrow> nat \<Rightarrow> nat list \<Rightarrow> u64 \<Rightarrow> u64 run" where
  "offset_loop header part [] offset = Some offset"
| "offset_loop header part (i # is) offset = do {
     v \<leftarrow> unpack_be64 header ((part + 3) * 8);
     offset_loop header part is (offset + v) }"

definition partitioner_get_partition_offset ::
  "'s bdev \<Rightarrow> part_io \<Rightarrow> 's \<Rightarrow> nat \<Rightarrow> (u64 \<times> part_io \<times> 's) run" where
  "partitioner_get_partition_offset base io s part = do {
     (ok, b, s) \<leftarrow> read_block base s 0 (bitmap_block io);
     let io = io\<lparr>bitmap_block := b, bitmap_block_which := 0\<rparr>;
     offset \<leftarrow> offset_loop (bitmap_block io) part [0..<part] 0;
     Some (offset, io, s) }"

section \<open>The map\<close>

definition partitioner_open_map_block_for ::
  "'s bdev \<Rightarrow> part_io \<Rightarrow> 's \<Rightarrow> u64 \<Rightarrow> (bool \<times> part_io \<times> 's) run" where
  "partitioner_open_map_block_for base io s which = do {
     q \<leftarrow> c_div which (maps_blocks_per_map io);
     let wanted = MAPS_START io + q;
     if wanted \<noteq> map_block_which io then do {
       (ok, b, s) \<leftarrow> read_block base s wanted (map_block io);
       let io = io\<lparr>map_block := b, map_block_which := 0\<rparr>;
       if \<not> ok then Some (False, io, s)
       else Some (True, io\<lparr>map_block_which := wanted\<rparr>, s) }
     else Some (True, io, s) }"

text \<open>1 is failure.\<close>

definition partitioner_block_maploc :: "'s bdev \<Rightarrow> part_io \<Rightarrow> 's \<Rightarrow> u64 \<Rightarrow> (u64 \<times> part_io \<times> 's) run" where
  "partitioner_block_maploc base io s which = do {
     (ok, io, s) \<leftarrow> partitioner_open_map_block_for base io s which;
     if \<not> ok then Some (1, io, s)
     else do {
       interior \<leftarrow> c_mod which (maps_blocks_per_map io);
       v \<leftarrow> unpack_be64 (map_block io) (unat (8 * interior));
       Some (v, io, s) } }"

definition partitioner_block_set_maploc ::
  "'s bdev \<Rightarrow> part_io \<Rightarrow> 's \<Rightarrow> u64 \<Rightarrow> u64 \<Rightarrow> (bool \<times> part_io \<times> 's) run" where
  "partitioner_block_set_maploc base io s which to = do {
     (ok, io, s) \<leftarrow> partitioner_open_map_block_for base io s which;
     if \<not> ok then Some (False, io, s)
     else do {
       interior \<leftarrow> c_mod which (maps_blocks_per_map io);
       b \<leftarrow> pack_be64 to (map_block io) (unat (8 * interior));
       let io = io\<lparr>map_block := b\<rparr>;
       (ok, s) \<leftarrow> write_block base s (map_block_which io) (map_block io);
       if \<not> ok then Some (False, io\<lparr>map_block_which := 0\<rparr>, s)
       else Some (True, io, s) } }"

section \<open>The device\<close>

type_synonym 's part_state = "part_io obj \<times> 's"

abbreviation part_ret :: "'s part_state \<Rightarrow> part_io \<Rightarrow> 's \<Rightarrow> 's part_state" where
  "part_ret st io s \<equiv> ((fst st)\<lparr>obj_m := io\<rparr>, s)"

definition part_read_block :: "'s bdev \<Rightarrow> u64 \<Rightarrow> 's part_state block_read" where
  "part_read_block base n st which into = do {
     c_assert (which < n);
     let io = obj_m (fst st);
     (maploc, io, s) \<leftarrow> partitioner_block_maploc base io (snd st) (which + mapper_partition_offset io);
     if maploc = 1 then Some (False, into, part_ret st io s)
     else if maploc = 0 then do {
       into \<leftarrow> memset into 0 0 (unat (block_size base));
       Some (True, into, part_ret st io s) }
     else do {
       (ok, into, s) \<leftarrow> read_block base s maploc into;
       Some (ok, into, part_ret st io s) } }"

text \<open>A new block is entered in the map, then in the bitmap, then written.\<close>

definition part_allocate ::
  "'s bdev \<Rightarrow> part_io \<Rightarrow> 's \<Rightarrow> u64 \<Rightarrow> (bool \<times> u64 \<times> part_io \<times> 's) run" where
  "part_allocate base io s which = do {
     (maploc, io, s) \<leftarrow> partitioner_scan_free_block base io s;
     if maploc = 0 then Some (False, maploc, io, s)
     else do {
       (ok, io, s) \<leftarrow> partitioner_block_set_maploc base io s (which + mapper_partition_offset io) maploc;
       if \<not> ok then Some (False, maploc, io, s)
       else do {
         (ok, io, s) \<leftarrow> partitioner_mark_block_as base io s maploc True;
         Some (ok, maploc, io, s) } } }"

definition part_write_block :: "'s bdev \<Rightarrow> u64 \<Rightarrow> 's part_state src_write" where
  "part_write_block base n st which from = do {
     c_assert (which < n);
     let io = obj_m (fst st);
     (maploc, io, s) \<leftarrow> partitioner_block_maploc base io (snd st) (which + mapper_partition_offset io);
     if maploc = 1 then Some (False, part_ret st io s)
     else do {
       (ok, maploc, io, s) \<leftarrow> (if maploc = 0 then part_allocate base io s which else Some (True, maploc, io, s));
       if \<not> ok then Some (False, part_ret st io s)
       else do {
         (ok, s) \<leftarrow> write_block base s maploc (deref (fst st) from);
         Some (ok, part_ret st io s) } } }"

text \<open>\<open>part_close\<close> frees the struct; the base stays open.\<close>

definition part_close :: "'s part_state \<Rightarrow> 's run" where
  "part_close st = Some (snd st)"

definition part_flush :: "'s bdev \<Rightarrow> 's part_state \<Rightarrow> 's part_state run" where
  "part_flush base st = do {
     s \<leftarrow> flush base (snd st);
     Some (fst st, s) }"

definition part_clear_caches :: "'s bdev \<Rightarrow> 's part_state \<Rightarrow> 's part_state run" where
  "part_clear_caches base st = do {
     let io = (obj_m (fst st))\<lparr>bitmap_block_which := 0, map_block_which := 0\<rparr>;
     s \<leftarrow> clear_caches base (snd st);
     Some (part_ret st io s) }"

text \<open>The pointer \<open>sync\<close> is never set, and without a partition the block operations are null:
  calling one of these kills the process.\<close>

definition part_dev :: "'s bdev \<Rightarrow> int \<Rightarrow> u64 \<Rightarrow> 's part_state bdev" where
  "part_dev base part n =
    (let bs = block_size base;
         rb = (if part \<noteq> -1 then part_read_block base n else (\<lambda>st which into. None));
         wb = (if part \<noteq> -1 then part_write_block base n else (\<lambda>st which from. None)) in
     \<lparr>block_size = bs, block_count = n,
      read_bytes = generic_read_bytes bs n rb, write_bytes = generic_write_bytes bs n rb wb,
      read_block = rb, write_block = (\<lambda>st which from. wb st which (Ext from)),
      clear_caches = part_clear_caches base, flush = part_flush base, sync = (\<lambda>st. None)\<rparr>)"

text \<open>\<open>junk\<close> and \<open>junk_count\<close> are what \<open>malloc\<close> left in the struct and in \<open>block_count\<close>.\<close>

definition partitioner_open ::
  "allocator \<Rightarrow> part_io \<Rightarrow> u64 \<Rightarrow> 's bdev \<Rightarrow> 's \<Rightarrow> int \<Rightarrow>
   (('s part_state bdev \<times> part_io obj) option \<times> 's) run" where
  "partitioner_open alloc junk junk_count base s part =
    (if block_size base < 512 then Some (None, s)
     else if part < -1 \<or> part > MAX_PARTITION_NUMBER then Some (None, s)
     else do {
       bb \<leftarrow> alloc (unat (block_size base));
       mb \<leftarrow> alloc (unat (block_size base));
       let io = junk\<lparr>bitmap_block := bb, map_block := mb, bitmap_block_which := 0, map_block_which := 0\<rparr>;
       (ok, io, s) \<leftarrow> partitioner_setup_io base io s;
       if \<not> ok then Some (None, s)
       else do {
         (n, io, s) \<leftarrow> (if part \<noteq> -1 then partitioner_get_part_size base io s (nat part)
           else Some (junk_count, io, s));
         if part \<noteq> -1 \<and> n = 0 then Some (None, s)
         else do {
           (offset, io, s) \<leftarrow> (if part \<noteq> -1 then partitioner_get_partition_offset base io s (nat part)
             else Some (mapper_partition_offset io, io, s));
           let io = io\<lparr>mapper_partition_offset := offset, open_partition := part\<rparr>;
           g \<leftarrow> alloc (unat (block_size base));
           Some (Some (part_dev base part n, \<lparr>generic_block_buffer = g, obj_m = io\<rparr>), s) } } })"

section \<open>Initialising a device\<close>

primrec clear_bitmap_loop :: "'s bdev \<Rightarrow> bytes \<Rightarrow> nat list \<Rightarrow> 's \<Rightarrow> 's run" where
  "clear_bitmap_loop base header [] s = Some s"
| "clear_bitmap_loop base header (i # is) s = do {
     (ok, s) \<leftarrow> write_block base s (of_nat i) header;
     clear_bitmap_loop base header is s }"

primrec mark_loop :: "'s bdev \<Rightarrow> nat list \<Rightarrow> part_io \<Rightarrow> 's \<Rightarrow> (part_io \<times> 's) run" where
  "mark_loop base [] io s = Some (io, s)"
| "mark_loop base (i # is) io s = do {
     (ok, io, s) \<leftarrow> partitioner_mark_block_as base io s (of_nat i) True;
     mark_loop base is io s }"

definition partitioner_initialize :: "allocator \<Rightarrow> part_io \<Rightarrow> 's bdev \<Rightarrow> 's \<Rightarrow> (bool \<times> 's) run" where
  "partitioner_initialize alloc junk dev s =
    (if block_size dev < 512 then Some (False, s)
     else do {
       header \<leftarrow> alloc (unat (block_size dev));
       header \<leftarrow> memset header 0 0 (unat (block_size dev));
       header \<leftarrow> wr header 0 PARTITION_MAGIC;
       header \<leftarrow> pack_be64 (block_count dev) header 8;
       header \<leftarrow> pack_be64 (block_size dev) header 16;
       (ok, s) \<leftarrow> write_block dev s 0 header;
       if \<not> ok then Some (False, s)
       else do {
         (ok, io, s) \<leftarrow> partitioner_setup_io dev (junk\<lparr>bitmap_block := header\<rparr>) s;
         if \<not> ok then Some (False, s)
         else do {
           header \<leftarrow> memset (bitmap_block io) 0 0 (unat (block_size dev));
           let io = io\<lparr>bitmap_block := header, bitmap_block_which := 0\<rparr>;
           s \<leftarrow> clear_bitmap_loop dev header [unat BITMAP_START..<unat (MAPS_START io)] s;
           (io, s) \<leftarrow> mark_loop dev [0..<unat (DATA_START io)] io s;
           Some (True, s) } } })"

section \<open>Resizing a part\<close>

text \<open>The body of the loop over the map: a block in the way is moved. The test for a full device
  is on \<open>maploc\<close>, where it cannot fire.\<close>

definition remap_step ::
  "'s bdev \<Rightarrow> u64 \<Rightarrow> u64 \<Rightarrow> u64 \<Rightarrow> part_io \<Rightarrow> 's \<Rightarrow> bytes \<Rightarrow> (bool \<times> part_io \<times> 's \<times> bytes) run" where
  "remap_step dev bad_area_start bad_area_end i io s blockbuf = do {
     (maploc, io, s) \<leftarrow> partitioner_block_maploc dev io s i;
     if maploc = 1 then Some (False, io, s, blockbuf)
     else if maploc \<ge> bad_area_start \<and> maploc < bad_area_end then do {
       (newloc, io, s) \<leftarrow> partitioner_scan_free_block dev io s;
       if maploc = 0 then Some (False, io, s, blockbuf)
       else do {
         (ok, blockbuf, s) \<leftarrow> read_block dev s maploc blockbuf;
         if \<not> ok then Some (False, io, s, blockbuf)
         else do {
           (ok, s) \<leftarrow> write_block dev s newloc blockbuf;
           if \<not> ok then Some (False, io, s, blockbuf)
           else do {
             (ok, io, s) \<leftarrow> partitioner_mark_block_as dev io s newloc True;
             if \<not> ok then Some (False, io, s, blockbuf)
             else do {
               (ok, io, s) \<leftarrow> partitioner_block_set_maploc dev io s i newloc;
               if \<not> ok then Some (False, io, s, blockbuf)
               else do {
                 (ok, io, s) \<leftarrow> partitioner_mark_block_as dev io s maploc False;
                 Some (ok, io, s, blockbuf) } } } } } }
     else Some (True, io, s, blockbuf) }"

primrec remap_loop ::
  "'s bdev \<Rightarrow> u64 \<Rightarrow> u64 \<Rightarrow> nat list \<Rightarrow> part_io \<Rightarrow> 's \<Rightarrow> bytes \<Rightarrow> (bool \<times> part_io \<times> 's \<times> bytes) run" where
  "remap_loop dev bad_area_start bad_area_end [] io s blockbuf = Some (True, io, s, blockbuf)"
| "remap_loop dev bad_area_start bad_area_end (i # is) io s blockbuf = do {
     (ok, io, s, blockbuf) \<leftarrow> remap_step dev bad_area_start bad_area_end (of_nat i) io s blockbuf;
     if \<not> ok then Some (False, io, s, blockbuf)
     else remap_loop dev bad_area_start bad_area_end is io s blockbuf }"

primrec start_shift_loop :: "'s bdev \<Rightarrow> nat list \<Rightarrow> u64 \<Rightarrow> part_io \<Rightarrow> 's \<Rightarrow> (u64 \<times> part_io \<times> 's) run" where
  "start_shift_loop dev [] at io s = Some (at, io, s)"
| "start_shift_loop dev (i # is) at io s = do {
     (v, io, s) \<leftarrow> partitioner_get_part_size dev io s i;
     start_shift_loop dev is (at + v) io s }"

primrec shift_loop :: "'s bdev \<Rightarrow> u64 \<Rightarrow> nat list \<Rightarrow> part_io \<Rightarrow> 's \<Rightarrow> (bool \<times> part_io \<times> 's) run" where
  "shift_loop dev map_shift [] io s = Some (True, io, s)"
| "shift_loop dev map_shift (i # is) io s = do {
     (blk, io, s) \<leftarrow> partitioner_block_maploc dev io s (of_nat i);
     if blk = 1 then Some (False, io, s)
     else do {
       (ok, io, s) \<leftarrow> partitioner_block_set_maploc dev io s (of_nat i + map_shift) blk;
       shift_loop dev map_shift is io s } }"

primrec clear_map_loop :: "'s bdev \<Rightarrow> nat list \<Rightarrow> part_io \<Rightarrow> 's \<Rightarrow> (part_io \<times> 's) run" where
  "clear_map_loop dev [] io s = Some (io, s)"
| "clear_map_loop dev (i # is) io s = do {
     (ok, io, s) \<leftarrow> partitioner_block_set_maploc dev io s (of_nat i) 0;
     clear_map_loop dev is io s }"

text \<open>The branch that enlarges. The shift runs downwards from \<open>end_shift_at - 1\<close> and leaves at
  \<open>start_shift_at\<close>, before its counter wraps around.\<close>

definition enlarge ::
  "'s bdev \<Rightarrow> part_io \<Rightarrow> 's \<Rightarrow> bytes \<Rightarrow> nat \<Rightarrow> u64 \<Rightarrow> u64 \<Rightarrow> (bool \<times> 's) run" where
  "enlarge dev io s blockbuf part old_size new_size = do {
     blocks_to_pad \<leftarrow> c_div (new_size - old_size + maps_blocks_per_map io - 1) (maps_blocks_per_map io);
     let bad_area_start = DATA_START io;
     let bad_area_end = bad_area_start + blocks_to_pad;
     (ok, io, s, blockbuf) \<leftarrow> remap_loop dev bad_area_start bad_area_end [0..<unat (mapped_total_size io)] io s blockbuf;
     if \<not> ok then Some (False, s)
     else do {
       let map_shift = new_size - old_size;
       (at, io, s) \<leftarrow> start_shift_loop dev [0..<part] 0 io s;
       let start_shift_at = at + old_size;
       let end_shift_at = mapped_total_size io;
       (ok, io, s) \<leftarrow> shift_loop dev map_shift (rev [unat start_shift_at..<unat end_shift_at]) io s;
       if \<not> ok then Some (False, s)
       else do {
         (io, s) \<leftarrow> clear_map_loop dev [unat start_shift_at..<unat (start_shift_at + map_shift)] io s;
         q \<leftarrow> c_div end_shift_at (maps_blocks_per_map io);
         let map_mark_start = MAPS_START io + q;
         q \<leftarrow> c_div (mapped_total_size io - old_size + new_size + maps_blocks_per_map io - 1) (maps_blocks_per_map io);
         let map_mark_end = MAPS_START io + q;
         (io, s) \<leftarrow> mark_loop dev [unat map_mark_start..<Suc (unat map_mark_end)] io s;
         (ok, blockbuf, s) \<leftarrow> read_block dev s 0 blockbuf;
         if \<not> ok then Some (False, s)
         else do {
           blockbuf \<leftarrow> pack_be64 new_size blockbuf ((part + 3) * 8);
           write_block dev s 0 blockbuf } } } }"

definition partitioner_set_part_size ::
  "allocator \<Rightarrow> part_io \<Rightarrow> u64 \<Rightarrow> 's bdev \<Rightarrow> 's \<Rightarrow> int \<Rightarrow> u64 \<Rightarrow> (bool \<times> 's) run" where
  "partitioner_set_part_size alloc junk junk_count dev s part new_size =
    (if block_size dev < 512 then Some (False, s)
     else if part < 0 \<or> part > MAX_PARTITION_NUMBER then Some (False, s)
     else do {
       (p, s) \<leftarrow> partitioner_open alloc junk junk_count dev s (-1);
       case p of
         None \<Rightarrow> Some (False, s)
       | Some (pdev, obj) \<Rightarrow> do {
           let io = obj_m obj;
           blockbuf \<leftarrow> alloc (unat (block_size dev));
           blockbuf2 \<leftarrow> alloc (unat (block_size dev));
           (old_size, io, s) \<leftarrow> partitioner_get_part_size dev io s (nat part);
           if new_size = old_size then Some (True, s)
           else if new_size > old_size then enlarge dev io s blockbuf (nat part) old_size new_size
           else Some (False, s) } })"

end
