(* ===== verification/PartMap.thy ===== *)
theory PartMap
  imports Partitioner
begin

text \<open>
  What the helpers of the partitioner do to the contents of the device: an abstract view of the
  bitmap and of the map over the device's blocks, and for each helper that it returns over a
  reliable device, keeps its two cached blocks equal to the device's, and changes the one bit or
  the one entry it should. The scan for a free block is shown to end.
\<close>

section \<open>The view\<close>

text \<open>The 64-bit number at index \<open>k\<close> of a block; the bit of block \<open>i\<close> in the bitmap; entry
  \<open>j\<close> of the map. \<open>B\<close> is the number of bits of a block, \<open>M\<close> its number of entries,
  and the map starts after \<open>bl\<close> blocks of bitmap.\<close>

definition entry :: "bytes \<Rightarrow> nat \<Rightarrow> u64" where
  "entry buf k = word_of_nat (be_val (take 8 (drop (8 * k) buf)))"

definition used_bit :: "nat \<Rightarrow> bytes list \<Rightarrow> nat \<Rightarrow> bool" where
  "used_bit B c i = bits (c ! (i div B + 1)) (i mod B)"

definition map_at :: "nat \<Rightarrow> nat \<Rightarrow> bytes list \<Rightarrow> nat \<Rightarrow> u64" where
  "map_at M bl c j = entry (c ! (bl + 1 + j div M)) (j mod M)"

lemma unpack_entry: "8 * k + 8 \<le> length buf \<Longrightarrow> unpack_be64 buf (8 * k) = Some (entry buf k)"
  by (simp add: unpack_be64_Some entry_def)

lemma entry_patch:
  assumes "8 * i + 8 \<le> length buf" and "8 * k + 8 \<le> length buf"
  shows "entry (patch (8 * k) (be64_bytes v) buf) i = (if i = k then v else entry buf i)"
proof (cases "i = k")
  case True
  then show ?thesis using take_drop_patch [of "8 * k" "be64_bytes v" buf] assms by (simp add: entry_def)
next
  case False
  then have "8 * i + 8 \<le> 8 * k \<or> 8 * k + length (be64_bytes v) \<le> 8 * i" by auto
  with False assms show ?thesis by (simp add: entry_def take_drop_patch_disjoint)
qed

text \<open>A bit of the bitmap changed; an entry of the map changed. \<open>D\<close> is where the map ends.\<close>

definition marked :: "nat \<Rightarrow> nat \<Rightarrow> bytes list \<Rightarrow> nat \<Rightarrow> bool \<Rightarrow> bytes list \<Rightarrow> bool" where
  "marked B bl c i u c' \<longleftrightarrow> length c' = length c \<and>
    (\<forall>b < length c. b = 0 \<or> bl < b \<longrightarrow> c' ! b = c ! b) \<and>
    (\<forall>k < bl * B. used_bit B c' k = (if k = i then u else used_bit B c k))"

definition remapped :: "nat \<Rightarrow> nat \<Rightarrow> nat \<Rightarrow> bytes list \<Rightarrow> nat \<Rightarrow> u64 \<Rightarrow> bytes list \<Rightarrow> bool" where
  "remapped M bl D c j v c' \<longleftrightarrow> length c' = length c \<and>
    (\<forall>b < length c. b \<le> bl \<or> D \<le> b \<longrightarrow> c' ! b = c ! b) \<and>
    (\<forall>k < (D - 1 - bl) * M. map_at M bl c' k = (if k = j then v else map_at M bl c k))"

lemma marked_update:
  assumes i: "i < bl * B" and bl: "bl < length c" and B: "0 < B"
    and b: "\<And>k. k < B \<Longrightarrow> bits b k = (if k = i mod B then u else bits (c ! (i div B + 1)) k)"
  shows "marked B bl c i u (c[i div B + 1 := b])"
proof -
  have d: "i div B < bl" using i by (rule less_mult_imp_div_less)
  have "used_bit B (c[i div B + 1 := b]) k = (if k = i then u else used_bit B c k)" if k: "k < bl * B" for k
  proof (cases "k div B = i div B")
    case True
    then have "k = i \<longleftrightarrow> k mod B = i mod B" by (metis div_mult_mod_eq)
    then show ?thesis using True d bl b [of "k mod B"] B by (simp add: used_bit_def)
  next
    case False
    then have "k \<noteq> i" by blast
    with False show ?thesis by (simp add: used_bit_def)
  qed
  with d show ?thesis by (simp add: marked_def)
qed

lemma remapped_update:
  assumes j: "j < (D - 1 - bl) * M" and D: "D \<le> length c" and M: "0 < M"
    and len: "\<And>b. b < length c \<Longrightarrow> 8 * M \<le> length (c ! b)"
  shows "remapped M bl D c j v
    (c[bl + 1 + j div M := patch (8 * (j mod M)) (be64_bytes v) (c ! (bl + 1 + j div M))])"
proof -
  let ?m = "bl + 1 + j div M"
  have "j div M < D - 1 - bl" using j by (rule less_mult_imp_div_less)
  then have m: "?m < D" by simp
  have e: "8 * (k mod M) + 8 \<le> length (c ! ?m)" for k
  proof -
    have "Suc (k mod M) \<le> M" using M by (simp add: Suc_le_eq)
    then have "8 * Suc (k mod M) \<le> 8 * M" by (rule mult_le_mono2)
    with len [of ?m] m D show ?thesis by simp
  qed
  have "map_at M bl (c[?m := patch (8 * (j mod M)) (be64_bytes v) (c ! ?m)]) k = (if k = j then v else map_at M bl c k)" for k
  proof (cases "k div M = j div M")
    case True
    then have "k = j \<longleftrightarrow> k mod M = j mod M" by (metis div_mult_mod_eq)
    then show ?thesis using True m D entry_patch [OF e [of k] e [of j], of v] by (simp add: map_at_def)
  next
    case False
    then have "k \<noteq> j" by blast
    with False show ?thesis by (simp add: map_at_def)
  qed
  with m show ?thesis by (simp add: remapped_def)
qed

text \<open>What each change leaves alone.\<close>

lemma used_bit_frame:
  assumes "\<And>b. 1 \<le> b \<Longrightarrow> b \<le> bl \<Longrightarrow> c' ! b = c ! b" and "k < bl * B"
  shows "used_bit B c' k = used_bit B c k"
  using assms(1) [of "k div B + 1"] less_mult_imp_div_less [OF assms(2)] by (simp add: used_bit_def)

lemma map_at_frame:
  assumes "\<And>b. bl < b \<Longrightarrow> b < D \<Longrightarrow> c' ! b = c ! b" and "k < (D - 1 - bl) * M"
  shows "map_at M bl c' k = map_at M bl c k"
  using assms(1) [of "bl + 1 + k div M"] less_mult_imp_div_less [OF assms(2)] by (simp add: map_at_def)

section \<open>The caches\<close>

text \<open>The geometry in the struct, and the two cached blocks against the contents of the device.\<close>

definition part_geo :: "'s bdev \<Rightarrow> part_io \<Rightarrow> nat \<Rightarrow> bool" where
  "part_geo base io D \<longleftrightarrow> 512 \<le> unat (block_size base) \<and> 8 * unat (block_size base) < 2 ^ 64 \<and>
    unat (bitmap_blocks_per_map io) = 8 * unat (block_size base) \<and>
    unat (maps_blocks_per_map io) = unat (block_size base) div 8 \<and>
    unat (disk_blocks io) \<le> unat (block_count base) \<and>
    unat (disk_blocks io) \<le> unat (bitmap_len io) * (8 * unat (block_size base)) \<and>
    unat (bitmap_len io) + 1 \<le> D \<and> D \<le> unat (disk_blocks io)"

definition part_cache :: "'s bdev \<Rightarrow> part_io \<Rightarrow> nat \<Rightarrow> bytes list \<Rightarrow> bool" where
  "part_cache base io D c \<longleftrightarrow>
    length (bitmap_block io) = unat (block_size base) \<and> length (map_block io) = unat (block_size base) \<and>
    (bitmap_block_which io \<noteq> 0 \<longrightarrow> unat (bitmap_block_which io) \<le> unat (bitmap_len io) \<and>
      bitmap_block io = c ! unat (bitmap_block_which io)) \<and>
    (map_block_which io \<noteq> 0 \<longrightarrow> unat (bitmap_len io) < unat (map_block_which io) \<and>
      unat (map_block_which io) < D \<and> map_block io = c ! unat (map_block_which io)) \<and>
    1 \<le> unat (free_scan_from io) \<and> unat (free_scan_from io) < unat (disk_blocks io)"

text \<open>The fields that the helpers do not change.\<close>

definition part_core :: "part_io \<Rightarrow> part_io" where
  "part_core io = io\<lparr>blocks_used := 0, free_scan_from := 0, bitmap_block := [], bitmap_block_which := 0,
    map_block := [], map_block_which := 0\<rparr>"

lemma part_core_iff:
  "part_core io' = part_core io \<longleftrightarrow> bitmap_blocks_per_map io' = bitmap_blocks_per_map io \<and>
    maps_blocks_per_map io' = maps_blocks_per_map io \<and> disk_blocks io' = disk_blocks io \<and>
    bitmap_len io' = bitmap_len io \<and> maps_len io' = maps_len io \<and> mapped_total_size io' = mapped_total_size io \<and>
    open_partition io' = open_partition io \<and> mapper_partition_offset io' = mapper_partition_offset io"
  by (cases io, cases io') (auto simp: part_core_def)

lemma part_geo_core: "part_core io' = part_core io \<Longrightarrow> part_geo base io' D = part_geo base io D"
  by (simp add: part_core_iff part_geo_def)

text \<open>A write outside the cached blocks.\<close>

lemma part_cache_frame:
  assumes "part_cache base io D c"
    and "\<And>b. 1 \<le> b \<Longrightarrow> b < D \<Longrightarrow> c' ! b = c ! b" and "part_geo base io D"
  shows "part_cache base io D c'"
proof -
  have "c' ! unat w = c ! unat w" if "w \<noteq> 0" "unat w < D" for w :: u64
    using assms(2) [of "unat w"] that by (simp add: unat_gt_0 Suc_le_eq)
  then show ?thesis using assms(1,3) by (auto simp: part_cache_def part_geo_def)
qed

lemma part_geo_less:
  assumes "part_geo base io D"
  shows "1 \<le> unat (bitmap_len io)" "2 \<le> unat (disk_blocks io)" "D \<le> unat (block_count base)" "0 < unat (block_size base)"
    "bitmap_blocks_per_map io \<noteq> 0" "maps_blocks_per_map io \<noteq> 0" "0 < unat (block_size base) div 8"
    "8 * (unat (block_size base) div 8) \<le> unat (block_size base)"
proof -
  have g: "512 \<le> unat (block_size base)" "unat (disk_blocks io) \<le> unat (bitmap_len io) * (8 * unat (block_size base))"
    "unat (bitmap_len io) + 1 \<le> D" "D \<le> unat (disk_blocks io)" "unat (disk_blocks io) \<le> unat (block_count base)"
    "unat (bitmap_blocks_per_map io) = 8 * unat (block_size base)" "unat (maps_blocks_per_map io) = unat (block_size base) div 8"
    using assms by (simp_all add: part_geo_def)
  show bl: "1 \<le> unat (bitmap_len io)"
  proof (rule ccontr)
    assume "\<not> 1 \<le> unat (bitmap_len io)"
    then have "unat (bitmap_len io) = 0" by simp
    with g show False by simp
  qed
  show "2 \<le> unat (disk_blocks io)" "D \<le> unat (block_count base)" using bl g by simp_all
  show "0 < unat (block_size base)" "0 < unat (block_size base) div 8" "8 * (unat (block_size base) div 8) \<le> unat (block_size base)"
    using g(1) by (simp_all add: div_greater_zero_iff)
  then show "bitmap_blocks_per_map io \<noteq> 0" "maps_blocks_per_map io \<noteq> 0" using g(6,7) by (auto simp: unat_eq_zero)
qed

section \<open>The helpers over a reliable device\<close>

definition part_inv :: "'s bdev \<Rightarrow> ('s \<Rightarrow> bool) \<Rightarrow> ('s \<Rightarrow> bytes list) \<Rightarrow> nat \<Rightarrow> part_io \<Rightarrow> 's \<Rightarrow> bool" where
  "part_inv base valid cont D io s \<longleftrightarrow> valid s \<and> part_geo base io D \<and> part_cache base io D (cont s)"

context block_device
begin

abbreviation psz :: nat where
  "psz \<equiv> unat (block_size dev)"

abbreviation pinv :: "nat \<Rightarrow> part_io \<Rightarrow> 's \<Rightarrow> bool" where
  "pinv \<equiv> part_inv dev valid cont"

lemma part_read:
  assumes rel and v: "valid s" and b: "unat b < unat (block_count dev)" and l: "length buf = psz"
  obtains s' where "read_block dev s b buf = Some (True, cont s ! unat b, s')" "valid s'" "cont s' = cont s"
proof -
  have b': "b < block_count dev" using b by (simp add: word_less_nat_alt)
  have "length (cont s ! unat b) = psz" by (rule length_block [OF v b'])
  then show thesis using read_law [OF v b', of buf] assms(1) l that by (auto simp: read_into_ok_def)
qed

lemma part_write:
  assumes rel and v: "valid s" and b: "unat b < unat (block_count dev)" and l: "psz \<le> length buf"
  obtains s' where "write_block dev s b buf = Some (True, s')" "valid s'" "cont s' = (cont s)[unat b := take psz buf]"
proof -
  have b': "b < block_count dev" using b by (simp add: word_less_nat_alt)
  show thesis using write_law [OF v b' l] assms(1) that by (auto simp: write_ok_def)
qed

lemma part_block_length: "valid s \<Longrightarrow> b < unat (block_count dev) \<Longrightarrow> length (cont s ! b) = psz"
  using contents [of s] by (simp add: blocked_nth)

lemma part_sizes:
  assumes "pinv D io s"
  shows "valid s" "part_geo dev io D" "part_cache dev io D (cont s)" "length (cont s) = unat (block_count dev)"
    "D \<le> length (cont s)" "unat (bitmap_len io) < D" "D \<le> unat (disk_blocks io)" "unat (disk_blocks io) \<le> length (cont s)"
    "length (bitmap_block io) = psz" "length (map_block io) = psz"
  using assms contents [of s] part_geo_less [of dev io D] by (auto simp: part_inv_def part_geo_def part_cache_def)

text \<open>After either cached block is replaced by the block of the device.\<close>

lemma open_bitmap_ok:
  assumes rel and inv: "pinv D io s" and k: "unat k < unat (bitmap_len io) * (8 * psz)"
  obtains w s' where "partitioner_open_bitmap_block_for dev io s k =
      Some (True, io\<lparr>bitmap_block := cont s ! (unat k div (8 * psz) + 1), bitmap_block_which := w\<rparr>, s')"
    "unat w = unat k div (8 * psz) + 1" "cont s' = cont s"
    "pinv D (io\<lparr>bitmap_block := cont s ! (unat k div (8 * psz) + 1), bitmap_block_which := w\<rparr>) s'"
proof -
  let ?q = "unat k div (8 * psz)" and ?w = "k div bitmap_blocks_per_map io + BITMAP_START"
  note z = part_sizes [OF inv] and g = part_geo_less [OF part_sizes(2) [OF inv]]
  have q: "?q < unat (bitmap_len io)" using k by (rule less_mult_imp_div_less)
  have "unat (k div bitmap_blocks_per_map io) = ?q" using z(2) by (simp add: unat_div part_geo_def)
  then have w: "unat ?w = ?q + 1"
    using q z(6-8) unat_u64_bound [of "block_count dev"] z(4) by (subst unat_add_u64) (simp_all add: BITMAP_START_def)
  then have w0: "?w \<noteq> 0" by auto
  have wl: "?q + 1 < unat (block_count dev)" using q z(4-8) by simp
  let ?io = "io\<lparr>bitmap_block := cont s ! (?q + 1), bitmap_block_which := ?w\<rparr>"
  have keep: "pinv D ?io s'" if "valid s'" "cont s' = cont s" for s'
    using inv that w w0 q part_block_length [OF z(1) wl] by (simp add: part_inv_def part_geo_def part_cache_def)
  have dv: "c_div k (bitmap_blocks_per_map io) = Some (k div bitmap_blocks_per_map io)" using g(5) by simp
  show thesis
  proof (cases "?w = bitmap_block_which io")
    case True
    then have "bitmap_block io = cont s ! (?q + 1)" using z(3) w w0 by (auto simp: part_cache_def)
    then have "io = ?io" using True by simp
    then have "partitioner_open_bitmap_block_for dev io s k = Some (True, ?io, s)"
      using dv True by (simp add: partitioner_open_bitmap_block_for_def)
    then show thesis using keep [OF z(1) refl] w by (intro that) simp_all
  next
    case False
    obtain s' where r: "read_block dev s ?w (bitmap_block io) = Some (True, cont s ! (?q + 1), s')" "valid s'" "cont s' = cont s"
      using part_read [OF assms(1) z(1), of ?w "bitmap_block io"] w wl z(9) by auto
    then have "partitioner_open_bitmap_block_for dev io s k = Some (True, ?io, s')"
      using dv False by (simp add: partitioner_open_bitmap_block_for_def)
    then show thesis using keep [OF r(2,3)] w r(3) by (intro that) simp_all
  qed
qed

lemma open_map_ok:
  assumes rel and inv: "pinv D io s" and k: "unat k < (D - 1 - unat (bitmap_len io)) * (psz div 8)"
  obtains w s' where "partitioner_open_map_block_for dev io s k =
      Some (True, io\<lparr>map_block := cont s ! (unat (bitmap_len io) + 1 + unat k div (psz div 8)), map_block_which := w\<rparr>, s')"
    "unat w = unat (bitmap_len io) + 1 + unat k div (psz div 8)" "cont s' = cont s"
    "pinv D (io\<lparr>map_block := cont s ! (unat (bitmap_len io) + 1 + unat k div (psz div 8)), map_block_which := w\<rparr>) s'"
proof -
  let ?q = "unat (bitmap_len io) + 1 + unat k div (psz div 8)" and ?w = "MAPS_START io + k div maps_blocks_per_map io"
  note z = part_sizes [OF inv] and g = part_geo_less [OF part_sizes(2) [OF inv]]
  have "unat k div (psz div 8) < D - 1 - unat (bitmap_len io)" using k by (rule less_mult_imp_div_less)
  then have q: "?q < D" by simp
  have dk: "unat (k div maps_blocks_per_map io) = unat k div (psz div 8)" using z(2) by (simp add: unat_div part_geo_def)
  have ms: "unat (MAPS_START io) = unat (bitmap_len io) + 1"
    using z(4-8) unat_u64_bound [of "block_count dev"] by (simp add: MAPS_START_def BITMAP_START_def unat_add_u64)
  have w: "unat ?w = ?q"
    using q z(4-8) unat_u64_bound [of "block_count dev"] by (subst unat_add_u64) (simp_all add: dk ms)
  then have w0: "?w \<noteq> 0" by auto
  have wl: "?q < unat (block_count dev)" using q z(4-8) by simp
  let ?io = "io\<lparr>map_block := cont s ! ?q, map_block_which := ?w\<rparr>"
  have keep: "pinv D ?io s'" if "valid s'" "cont s' = cont s" for s'
    using inv that w w0 q part_block_length [OF z(1) wl] by (simp add: part_inv_def part_geo_def part_cache_def)
  have dv: "c_div k (maps_blocks_per_map io) = Some (k div maps_blocks_per_map io)" using g(6) by simp
  show thesis
  proof (cases "?w = map_block_which io")
    case True
    then have "map_block io = cont s ! ?q" using z(3) w w0 by (auto simp: part_cache_def)
    then have "io = ?io" using True by simp
    then have "partitioner_open_map_block_for dev io s k = Some (True, ?io, s)"
      using dv True by (simp add: partitioner_open_map_block_for_def)
    then show thesis using keep [OF z(1) refl] w by (intro that) simp_all
  next
    case False
    obtain s' where r: "read_block dev s ?w (map_block io) = Some (True, cont s ! ?q, s')" "valid s'" "cont s' = cont s"
      using part_read [OF assms(1) z(1), of ?w "map_block io"] w wl z(10) by auto
    then have "partitioner_open_map_block_for dev io s k = Some (True, ?io, s')"
      using dv False by (simp add: partitioner_open_map_block_for_def)
    then show thesis using keep [OF r(2,3)] w r(3) by (intro that) simp_all
  qed
qed

lemma bitmap_index:
  assumes inv: "pinv D io s" and k: "unat k < unat (bitmap_len io) * (8 * psz)"
  shows "c_mod k (bitmap_blocks_per_map io) = Some (k mod bitmap_blocks_per_map io)"
    "unat (k mod bitmap_blocks_per_map io) = unat k mod (8 * psz)"
    "unat (k mod bitmap_blocks_per_map io) < 8 * length (cont s ! (unat k div (8 * psz) + 1))"
    "bit_get (cont s ! (unat k div (8 * psz) + 1)) (k mod bitmap_blocks_per_map io) =
      Some (used_bit (8 * psz) (cont s) (unat k))"
proof -
  note z = part_sizes [OF inv] and g = part_geo_less [OF part_sizes(2) [OF inv]]
  have "unat k div (8 * psz) < unat (bitmap_len io)" using k by (rule less_mult_imp_div_less)
  then have "unat k div (8 * psz) + 1 < unat (block_count dev)" using z(4-8) by simp
  then have l: "length (cont s ! (unat k div (8 * psz) + 1)) = psz" by (rule part_block_length [OF z(1)])
  show m: "unat (k mod bitmap_blocks_per_map io) = unat k mod (8 * psz)" using z(2) by (simp add: unat_mod part_geo_def)
  show "c_mod k (bitmap_blocks_per_map io) = Some (k mod bitmap_blocks_per_map io)" using g(5) by simp
  show i: "unat (k mod bitmap_blocks_per_map io) < 8 * length (cont s ! (unat k div (8 * psz) + 1))"
    unfolding m l using g(4) by simp
  then show "bit_get (cont s ! (unat k div (8 * psz) + 1)) (k mod bitmap_blocks_per_map io) =
      Some (used_bit (8 * psz) (cont s) (unat k))"
    by (simp add: bit_get_Some m used_bit_def)
qed

lemma disk_block_in_bitmap:
  "part_geo dev io D \<Longrightarrow> unat k < unat (disk_blocks io) \<Longrightarrow> unat k < unat (bitmap_len io) * (8 * psz)"
  by (simp add: part_geo_def)

end

section \<open>The scan\<close>

text \<open>The blocks that a scan from \<open>a\<close> has passed when it is at \<open>f\<close>, and the steps it has left.\<close>

definition passed :: "nat \<Rightarrow> nat \<Rightarrow> nat \<Rightarrow> nat \<Rightarrow> bool" where
  "passed n a f b \<longleftrightarrow> (if a \<le> f then a \<le> b \<and> b < f else a \<le> b \<and> b < n \<or> 1 \<le> b \<and> b < f)"

definition steps_left :: "nat \<Rightarrow> nat \<Rightarrow> nat \<Rightarrow> nat" where
  "steps_left n a f = (if f < a then a - f else a + (n - 1) - f)"

definition scan_next :: "nat \<Rightarrow> nat \<Rightarrow> nat" where
  "scan_next n f = (if n \<le> f + 1 then 1 else f + 1)"

lemma scan_step:
  assumes "1 \<le> a" and "a < n" and "1 \<le> f" and "f < n"
  shows "1 \<le> scan_next n f" "scan_next n f < n"
    "scan_next n f \<noteq> a \<Longrightarrow> steps_left n a (scan_next n f) < steps_left n a f"
    "scan_next n f \<noteq> a \<Longrightarrow> passed n a (scan_next n f) b \<Longrightarrow> passed n a f b \<or> b = f"
    "scan_next n f = a \<Longrightarrow> 1 \<le> b \<Longrightarrow> b < n \<Longrightarrow> passed n a f b \<or> b = f"
  using assms by (auto simp: scan_next_def steps_left_def passed_def split: if_splits)

definition scan_result :: "nat \<Rightarrow> nat \<Rightarrow> (nat \<Rightarrow> bool) \<Rightarrow> nat \<Rightarrow> bool" where
  "scan_result n a used r \<longleftrightarrow> (if r = 0 then \<forall>b. 1 \<le> b \<and> b < n \<longrightarrow> used b
     else r < n \<and> \<not> used r \<and> (\<forall>b. passed n a r b \<longrightarrow> used b))"

context block_device
begin

lemma scan_loop_turn:
  assumes "partitioner_open_bitmap_block_for dev io s (free_scan_from io) = Some (True, io1, s1)"
    and "c_mod (free_scan_from io1) (bitmap_blocks_per_map io1) = Some k" and "bit_get (bitmap_block io1) k = Some u"
    and "f = (if free_scan_from io1 + 1 \<ge> disk_blocks io1 then 1 else free_scan_from io1 + 1)"
  shows "scan_free_loop dev a io s = (if \<not> u then Some (free_scan_from io1, io1, s1)
    else if a \<noteq> f then scan_free_loop dev a (io1\<lparr>free_scan_from := f\<rparr>) s1
    else Some (0, io1\<lparr>free_scan_from := f\<rparr>, s1))"
  unfolding assms(4) by (subst scan_free_loop.simps) (simp only: assms(1-3) Option.bind.bind_lunit prod.case Let_def part_io.simps not_True_eq_False if_False, simp)

lemma scan_loop_ok:
  assumes rel
  shows "pinv D io s \<Longrightarrow> 1 \<le> unat a \<Longrightarrow> unat a < unat (disk_blocks io) \<Longrightarrow>
    \<forall>b. passed (unat (disk_blocks io)) (unat a) (unat (free_scan_from io)) b \<longrightarrow> used_bit (8 * psz) (cont s) b \<Longrightarrow>
    \<exists>r io' s'. scan_free_loop dev a io s = Some (r, io', s') \<and> pinv D io' s' \<and> cont s' = cont s \<and>
      part_core io' = part_core io \<and> scan_result (unat (disk_blocks io)) (unat a) (used_bit (8 * psz) (cont s)) (unat r)"
proof (induction "steps_left (unat (disk_blocks io)) (unat a) (unat (free_scan_from io))" arbitrary: io s rule: less_induct)
  case less
  let ?n = "unat (disk_blocks io)" and ?f = "free_scan_from io"
  note z = part_sizes [OF less.prems(1)]
  have f: "1 \<le> unat ?f" "unat ?f < ?n" using z(3) by (simp_all add: part_cache_def)
  have k: "unat ?f < unat (bitmap_len io) * (8 * psz)" using disk_block_in_bitmap [OF z(2) f(2)] .
  note bi = bitmap_index [OF less.prems(1) k]
  note st = scan_step [OF less.prems(2,3) f]
  obtain w s1 where o: "partitioner_open_bitmap_block_for dev io s ?f =
      Some (True, io\<lparr>bitmap_block := cont s ! (unat ?f div (8 * psz) + 1), bitmap_block_which := w\<rparr>, s1)" "cont s1 = cont s"
    "pinv D (io\<lparr>bitmap_block := cont s ! (unat ?f div (8 * psz) + 1), bitmap_block_which := w\<rparr>) s1"
    by (rule open_bitmap_ok [OF assms less.prems(1) k])
  let ?io = "io\<lparr>bitmap_block := cont s ! (unat ?f div (8 * psz) + 1), bitmap_block_which := w\<rparr>"
  define g where "g = (if ?f + 1 \<ge> disk_blocks io then 1 else ?f + 1)"
  have core: "part_core ?io = part_core io" by (simp add: part_core_iff)
  have turn: "scan_free_loop dev a io s = (if \<not> used_bit (8 * psz) (cont s) (unat ?f) then Some (?f, ?io, s1)
    else if a \<noteq> g then scan_free_loop dev a (?io\<lparr>free_scan_from := g\<rparr>) s1 else Some (0, ?io\<lparr>free_scan_from := g\<rparr>, s1))"
    using scan_loop_turn [OF o(1), of "?f mod bitmap_blocks_per_map io" "used_bit (8 * psz) (cont s) (unat ?f)" g a] bi(1,4) g_def by simp
  show ?case
  proof (cases "used_bit (8 * psz) (cont s) (unat ?f)")
    case False
    then have r: "scan_free_loop dev a io s = Some (?f, ?io, s1)"
      using turn by simp
    have "scan_result ?n (unat a) (used_bit (8 * psz) (cont s)) (unat ?f)"
      using False f less.prems(4) by (simp add: scan_result_def)
    with r o(2,3) core show ?thesis by blast
  next
    case True
    let ?io2 = "?io\<lparr>free_scan_from := g\<rparr>"
    have "unat (?f + 1) = unat ?f + 1" using f(2) by (subst unat_Suc_u64 [of _ "disk_blocks io"]) (simp_all add: word_less_nat_alt)
    then have g: "unat g = scan_next ?n (unat ?f)" by (simp add: g_def scan_next_def word_le_nat_alt)
    have inv: "pinv D ?io2 s1" using o(3) st(1,2) g by (simp add: part_inv_def part_geo_def part_cache_def)
    have core2: "part_core ?io2 = part_core io" by (simp add: part_core_iff)
    show ?thesis
    proof (cases "a = g")
      case stop: True
      have r: "scan_free_loop dev a io s = Some (0, ?io2, s1)"
        using turn True stop by simp
      have "used_bit (8 * psz) (cont s) b" if "1 \<le> b" "b < ?n" for b
        using st(5) [of b] that stop g True less.prems(4) by auto
      then have "scan_result ?n (unat a) (used_bit (8 * psz) (cont s)) (unat (0 :: u64))" by (simp add: scan_result_def)
      with r inv core2 o(2) show ?thesis by blast
    next
      case go: False
      have r: "scan_free_loop dev a io s = scan_free_loop dev a ?io2 s1"
        using turn True go by simp
      have ne: "scan_next ?n (unat ?f) \<noteq> unat a" using go g by (metis word_unat_eq_iff)
      have "\<forall>b. passed ?n (unat a) (unat g) b \<longrightarrow> used_bit (8 * psz) (cont s) b"
        using st(4) [OF ne] g True less.prems(4) by metis
      then have p: "\<forall>b. passed (unat (disk_blocks ?io2)) (unat a) (unat (free_scan_from ?io2)) b \<longrightarrow>
          used_bit (8 * psz) (cont s1) b" using o(2) by simp
      have "steps_left (unat (disk_blocks ?io2)) (unat a) (unat (free_scan_from ?io2)) < steps_left ?n (unat a) (unat ?f)"
        using st(3) [OF ne] g by simp
      moreover have "unat a < unat (disk_blocks ?io2)" using less.prems(3) by simp
      ultimately obtain r' io' s' where i: "scan_free_loop dev a ?io2 s1 = Some (r', io', s')" "pinv D io' s'" "cont s' = cont s1"
          "part_core io' = part_core ?io2"
          "scan_result (unat (disk_blocks ?io2)) (unat a) (used_bit (8 * psz) (cont s1)) (unat r')"
        using less.hyps [OF _ inv less.prems(2) _ p] by blast
      have "scan_result ?n (unat a) (used_bit (8 * psz) (cont s)) (unat r')" using i(5) o(2) by simp
      with r i(1-4) core2 o(2) show ?thesis by (intro exI [of _ r'] exI [of _ io'] exI [of _ s']) simp
    qed
  qed
qed

lemma scan_ok:
  assumes rel and inv: "pinv D io s"
  obtains r io' s' where "partitioner_scan_free_block dev io s = Some (r, io', s')" "pinv D io' s'" "cont s' = cont s"
    "part_core io' = part_core io"
    "scan_result (unat (disk_blocks io)) (unat (free_scan_from io)) (used_bit (8 * psz) (cont s)) (unat r)"
proof -
  have "1 \<le> unat (free_scan_from io)" "unat (free_scan_from io) < unat (disk_blocks io)"
    using part_sizes(3) [OF inv] by (simp_all add: part_cache_def)
  moreover have "\<forall>b. passed (unat (disk_blocks io)) (unat (free_scan_from io)) (unat (free_scan_from io)) b \<longrightarrow>
      used_bit (8 * psz) (cont s) b"
    by (auto simp: passed_def)
  ultimately show thesis using scan_loop_ok [OF assms, of "free_scan_from io"] that
    by (auto simp: partitioner_scan_free_block_def)
qed

text \<open>Setting a bit keeps both caches equal to the device, because the map lies behind the bitmap.\<close>

lemma mark_ok:
  assumes rel and inv: "pinv D io s" and k: "unat k < unat (bitmap_len io) * (8 * psz)"
  obtains io' s' where "partitioner_mark_block_as dev io s k u = Some (True, io', s')" "pinv D io' s'"
    "part_core io' = part_core io" "marked (8 * psz) (unat (bitmap_len io)) (cont s) (unat k) u (cont s')"
    "free_scan_from io' = free_scan_from io"
proof -
  let ?q = "unat k div (8 * psz) + 1" and ?i = "k mod bitmap_blocks_per_map io"
  note z = part_sizes [OF inv] and g = part_geo_less [OF part_sizes(2) [OF inv]] and bi = bitmap_index [OF inv k]
  obtain w s1 where o: "partitioner_open_bitmap_block_for dev io s k =
      Some (True, io\<lparr>bitmap_block := cont s ! ?q, bitmap_block_which := w\<rparr>, s1)"
    "unat w = ?q" "cont s1 = cont s" "pinv D (io\<lparr>bitmap_block := cont s ! ?q, bitmap_block_which := w\<rparr>) s1"
    by (rule open_bitmap_ok [OF assms])
  have q: "?q \<le> unat (bitmap_len io)" using less_mult_imp_div_less [OF k] by simp
  have ql: "?q < unat (block_count dev)" "?q < D" using q z(4-8) by simp_all
  have lb: "length (cont s ! ?q) = psz" by (rule part_block_length [OF z(1) ql(1)])
  obtain b where b: "(if u then bit_set (cont s ! ?q) ?i else bit_clear (cont s ! ?q) ?i) = Some b" "length b = psz"
    "\<And>j. j < 8 * psz \<Longrightarrow> bits b j = (if j = unat k mod (8 * psz) then u else bits (cont s ! ?q) j)"
    using bit_set_Some [OF bi(3)] bit_clear_Some [OF bi(3)] lb bi(2) by (cases u) auto
  let ?n = "if u then (if \<not> used_bit (8 * psz) (cont s) (unat k) then blocks_used io + 1 else blocks_used io)
      else (if used_bit (8 * psz) (cont s) (unat k) then blocks_used io - 1 else blocks_used io)"
  let ?io = "io\<lparr>bitmap_block := b, bitmap_block_which := w, blocks_used := ?n\<rparr>"
  obtain s2 where w2: "write_block dev s1 w b = Some (True, s2)" "valid s2" "cont s2 = (cont s1)[unat w := take psz b]"
    by (rule part_write [OF assms(1) part_sizes(1) [OF o(4)], of w b]) (use o(2) ql b(2) in simp_all)
  have c2: "cont s2 = (cont s)[?q := b]" using w2(3) o(2,3) b(2) by simp
  have run: "partitioner_mark_block_as dev io s k u = Some (True, ?io, s2)"
    using o(1) bi(1,4) b(1) w2(1) by (cases u) (simp_all add: partitioner_mark_block_as_def Let_def)
  have "marked (8 * psz) (unat (bitmap_len io)) (cont s) (unat k) u (cont s2)"
    unfolding c2 using k q z(4-8) ql b(3) g(4) by (intro marked_update) simp_all
  moreover have "pinv D ?io s2"
    using o(4) w2(2) c2 o(2) q z(4) ql b(2)
    by (auto simp: part_inv_def part_geo_def part_cache_def nth_list_update o(3))
  ultimately show thesis using run by (intro that [of ?io s2]) (simp_all add: part_core_iff)
qed

lemma map_index:
  assumes inv: "pinv D io s" and k: "unat k < (D - 1 - unat (bitmap_len io)) * (psz div 8)"
  shows "c_mod k (maps_blocks_per_map io) = Some (k mod maps_blocks_per_map io)"
    "unat (8 * (k mod maps_blocks_per_map io)) = 8 * (unat k mod (psz div 8))"
    "8 * (unat k mod (psz div 8)) + 8 \<le> psz"
    "unat (bitmap_len io) + 1 + unat k div (psz div 8) < D"
    "unat (bitmap_len io) + 1 + unat k div (psz div 8) < unat (block_count dev)"
proof -
  note z = part_sizes [OF inv] and g = part_geo_less [OF part_sizes(2) [OF inv]]
  show "c_mod k (maps_blocks_per_map io) = Some (k mod maps_blocks_per_map io)" using g(6) by simp
  have m: "unat (k mod maps_blocks_per_map io) = unat k mod (psz div 8)" using z(2) by (simp add: unat_mod part_geo_def)
  have "unat k mod (psz div 8) < psz div 8" using g(7) by simp
  then have "8 * Suc (unat k mod (psz div 8)) \<le> 8 * (psz div 8)" by (intro mult_le_mono2 Suc_leI)
  then show e: "8 * (unat k mod (psz div 8)) + 8 \<le> psz" using g(8) by simp
  have "psz < 2 ^ 64" by (rule unat_u64_bound)
  then show "unat (8 * (k mod maps_blocks_per_map io)) = 8 * (unat k mod (psz div 8))"
    using e m by (subst unat_mult_u64) simp_all
  have "unat k div (psz div 8) < D - 1 - unat (bitmap_len io)" using k by (rule less_mult_imp_div_less)
  then show "unat (bitmap_len io) + 1 + unat k div (psz div 8) < D"
    "unat (bitmap_len io) + 1 + unat k div (psz div 8) < unat (block_count dev)" using z(4-8) by simp_all
qed

lemma maploc_ok:
  assumes rel and inv: "pinv D io s" and k: "unat k < (D - 1 - unat (bitmap_len io)) * (psz div 8)"
  obtains io' s' where "partitioner_block_maploc dev io s k =
      Some (map_at (psz div 8) (unat (bitmap_len io)) (cont s) (unat k), io', s')" "pinv D io' s'"
    "part_core io' = part_core io" "cont s' = cont s" "free_scan_from io' = free_scan_from io"
proof -
  let ?q = "unat (bitmap_len io) + 1 + unat k div (psz div 8)"
  note z = part_sizes [OF inv] and mi = map_index [OF inv k]
  obtain w s1 where o: "partitioner_open_map_block_for dev io s k =
      Some (True, io\<lparr>map_block := cont s ! ?q, map_block_which := w\<rparr>, s1)"
    "cont s1 = cont s" "pinv D (io\<lparr>map_block := cont s ! ?q, map_block_which := w\<rparr>) s1"
    by (rule open_map_ok [OF assms])
  have "length (cont s ! ?q) = psz" by (rule part_block_length [OF z(1) mi(5)])
  then have "unpack_be64 (cont s ! ?q) (unat (8 * (k mod maps_blocks_per_map io))) =
      Some (map_at (psz div 8) (unat (bitmap_len io)) (cont s) (unat k))"
    unfolding mi(2) map_at_def using mi(3) by (intro unpack_entry) simp
  then have "partitioner_block_maploc dev io s k = Some (map_at (psz div 8) (unat (bitmap_len io)) (cont s) (unat k),
      io\<lparr>map_block := cont s ! ?q, map_block_which := w\<rparr>, s1)"
    using o(1) mi(1) by (simp add: partitioner_block_maploc_def)
  then show thesis by (rule that) (use o(2,3) in \<open>simp_all add: part_core_iff\<close>)
qed

lemma set_maploc_ok:
  assumes rel and inv: "pinv D io s" and k: "unat k < (D - 1 - unat (bitmap_len io)) * (psz div 8)"
  obtains io' s' where "partitioner_block_set_maploc dev io s k v = Some (True, io', s')" "pinv D io' s'"
    "part_core io' = part_core io" "free_scan_from io' = free_scan_from io"
    "remapped (psz div 8) (unat (bitmap_len io)) D (cont s) (unat k) v (cont s')"
proof -
  let ?q = "unat (bitmap_len io) + 1 + unat k div (psz div 8)"
  let ?b = "patch (8 * (unat k mod (psz div 8))) (be64_bytes v) (cont s ! ?q)"
  note z = part_sizes [OF inv] and mi = map_index [OF inv k] and g = part_geo_less [OF part_sizes(2) [OF inv]]
  obtain w s1 where o: "partitioner_open_map_block_for dev io s k =
      Some (True, io\<lparr>map_block := cont s ! ?q, map_block_which := w\<rparr>, s1)"
    "unat w = ?q" "cont s1 = cont s" "pinv D (io\<lparr>map_block := cont s ! ?q, map_block_which := w\<rparr>) s1"
    by (rule open_map_ok [OF assms])
  have l: "length (cont s ! ?q) = psz" by (rule part_block_length [OF z(1) mi(5)])
  have lb: "length ?b = psz" using l mi(3) by (intro trans [OF length_patch]) simp_all
  have p: "pack_be64 v (cont s ! ?q) (unat (8 * (k mod maps_blocks_per_map io))) = Some ?b"
    unfolding mi(2) using mi(3) l by (intro pack_Some(1)) simp
  let ?io = "io\<lparr>map_block := ?b, map_block_which := w\<rparr>"
  obtain s2 where w2: "write_block dev s1 w ?b = Some (True, s2)" "valid s2" "cont s2 = (cont s1)[unat w := take psz ?b]"
    by (rule part_write [OF assms(1) part_sizes(1) [OF o(4)], of w ?b]) (use o(2) mi(5) lb in simp_all)
  have c2: "cont s2 = (cont s)[?q := ?b]" using w2(3) o(2,3) lb by simp
  have run: "partitioner_block_set_maploc dev io s k v = Some (True, ?io, s2)"
    using o(1) mi(1) p w2(1) by (simp add: partitioner_block_set_maploc_def Let_def)
  have "remapped (psz div 8) (unat (bitmap_len io)) D (cont s) (unat k) v (cont s2)"
    unfolding c2
  proof (rule remapped_update [OF k z(5) g(7)])
    fix b assume "b < length (cont s)"
    then show "8 * (psz div 8) \<le> length (cont s ! b)" using part_block_length [OF z(1), of b] z(4) g(8) by simp
  qed
  moreover have "pinv D ?io s2"
    using o(4) w2(2) c2 o(2) z(4) mi(4,5) lb
    by (auto simp: part_inv_def part_geo_def part_cache_def nth_list_update o(3))
  ultimately show thesis using run by (intro that [of ?io s2]) (simp_all add: part_core_iff)
qed

end

end
