(* ===== verification/PartContract.thy ===== *)
theory PartContract
  imports PartMap
begin

text \<open>
  What an open partition promises. The blocks of all partitions are an array of zero blocks and
  mapped blocks, \<open>part_disk\<close>; a partition is a window of it. Over a reliable device a read never
  fails, a write fails only when every block of the device is in use, and then it changes nothing.
\<close>

section \<open>The disk\<close>

text \<open>The header area is in use; a mapped block lies in the data area and is in use; no block is
  mapped twice.\<close>

definition disk_ok :: "nat \<Rightarrow> nat \<Rightarrow> nat \<Rightarrow> nat \<Rightarrow> nat \<Rightarrow> bytes list \<Rightarrow> bool" where
  "disk_ok bs n bl D sz c \<longleftrightarrow> (\<forall>b < D. used_bit (8 * bs) c b) \<and>
    (\<forall>j < sz. map_at (bs div 8) bl c j \<noteq> 0 \<longrightarrow> D \<le> unat (map_at (bs div 8) bl c j) \<and>
      unat (map_at (bs div 8) bl c j) < n \<and> used_bit (8 * bs) c (unat (map_at (bs div 8) bl c j))) \<and>
    (\<forall>j < sz. \<forall>k < sz. map_at (bs div 8) bl c j = map_at (bs div 8) bl c k \<longrightarrow>
      map_at (bs div 8) bl c j \<noteq> 0 \<longrightarrow> j = k)"

definition part_disk :: "nat \<Rightarrow> nat \<Rightarrow> nat \<Rightarrow> bytes list \<Rightarrow> bytes list" where
  "part_disk bs bl sz c = map (\<lambda>j. if map_at (bs div 8) bl c j = 0 then replicate bs 0
     else c ! unat (map_at (bs div 8) bl c j)) [0..<sz]"

lemma length_part_disk [simp]: "length (part_disk bs bl sz c) = sz"
  by (simp add: part_disk_def)

lemma nth_part_disk: "j < sz \<Longrightarrow> part_disk bs bl sz c ! j =
    (if map_at (bs div 8) bl c j = 0 then replicate bs 0 else c ! unat (map_at (bs div 8) bl c j))"
  by (simp add: part_disk_def)

lemma disk_okD:
  assumes "disk_ok bs n bl D sz c" and "j < sz" and "map_at (bs div 8) bl c j \<noteq> 0"
  shows "D \<le> unat (map_at (bs div 8) bl c j)" "unat (map_at (bs div 8) bl c j) < n"
    "used_bit (8 * bs) c (unat (map_at (bs div 8) bl c j))"
    "k < sz \<Longrightarrow> map_at (bs div 8) bl c k = map_at (bs div 8) bl c j \<Longrightarrow> k = j"
  using assms by (auto simp: disk_ok_def)

text \<open>Overwriting a mapped block.\<close>

lemma disk_store:
  assumes ok: "disk_ok bs n bl D sz c" and j: "j < sz" and m: "map_at (bs div 8) bl c j \<noteq> 0"
    and fit: "sz \<le> (D - 1 - bl) * (bs div 8)" "n \<le> bl * (8 * bs)" "n \<le> length c" and D: "bl < D"
  shows "disk_ok bs n bl D sz (c[unat (map_at (bs div 8) bl c j) := d])"
    "part_disk bs bl sz (c[unat (map_at (bs div 8) bl c j) := d]) = (part_disk bs bl sz c)[j := d]"
proof -
  let ?M = "bs div 8" and ?m = "unat (map_at (bs div 8) bl c j)"
  let ?c = "c[?m := d]"
  note mj = disk_okD [OF ok j m]
  have frame: "?c ! b = c ! b" if "b < D" for b using mj(1) that by simp
  have map: "map_at ?M bl ?c k = map_at ?M bl c k" if "k < sz" for k
    using fit(1) that by (intro map_at_frame [of bl D]) (simp_all add: frame)
  have use: "used_bit (8 * bs) ?c k = used_bit (8 * bs) c k" if "k < n" for k
    using fit(2) that D by (intro used_bit_frame [of bl]) (simp_all add: frame)
  have Dn: "D \<le> n" using mj(1,2) by simp
  then have "\<forall>b < D. used_bit (8 * bs) ?c b" using ok use by (simp add: disk_ok_def)
  then show "disk_ok bs n bl D sz ?c" using ok map use by (simp add: disk_ok_def)
  show "part_disk bs bl sz ?c = (part_disk bs bl sz c)[j := d]"
  proof (rule nth_equalityI)
    fix k assume "k < length (part_disk bs bl sz ?c)"
    then have k: "k < sz" by simp
    show "part_disk bs bl sz ?c ! k = (part_disk bs bl sz c)[j := d] ! k"
    proof (cases "k = j")
      case True
      then show ?thesis using k m mj(2) fit(3) by (simp add: nth_part_disk map)
    next
      case False
      then have "map_at ?M bl c k \<noteq> map_at ?M bl c j" using mj(4) k by blast
      then have "unat (map_at ?M bl c k) \<noteq> ?m" by (simp add: word_unat_eq_iff)
      then show ?thesis using k False by (simp add: nth_part_disk map)
    qed
  qed simp
qed

text \<open>Mapping a free block at an entry that has none.\<close>

lemma disk_allocate:
  assumes ok: "disk_ok bs n bl D sz c" and j: "j < sz" and r: "unat r < n" "r \<noteq> 0" "\<not> used_bit (8 * bs) c (unat r)"
    and c1: "remapped (bs div 8) bl D c j r c1" and c2: "marked (8 * bs) bl c1 (unat r) True c2"
    and fit: "sz \<le> (D - 1 - bl) * (bs div 8)" "n \<le> bl * (8 * bs)" "n \<le> length c" and D: "bl < D"
    and free: "map_at (bs div 8) bl c j = 0"
  shows "disk_ok bs n bl D sz c2" "map_at (bs div 8) bl c2 j = r" "\<And>d. part_disk bs bl sz (c2[unat r := d]) = (part_disk bs bl sz c)[j := d]"
proof -
  let ?M = "bs div 8"
  have rD: "D \<le> unat r" using ok r(3) by (metis disk_ok_def not_less)
  have l: "length c2 = length c" using c1 c2 by (simp add: marked_def remapped_def)
  have m2: "map_at ?M bl c2 k = (if k = j then r else map_at ?M bl c k)" if "k < sz" for k
  proof -
    have k: "k < (D - 1 - bl) * ?M" using that fit(1) by simp
    have "map_at ?M bl c2 k = map_at ?M bl c1 k"
      using c1 c2 rD r(1) fit(3) by (intro map_at_frame [OF _ k]) (simp add: marked_def remapped_def)
    with c1 k show ?thesis by (simp add: remapped_def)
  qed
  have u2: "used_bit (8 * bs) c2 k = (k = unat r \<or> used_bit (8 * bs) c k)" if "k < n" for k
  proof -
    have k: "k < bl * (8 * bs)" using that fit(2) by simp
    have "used_bit (8 * bs) c1 k = used_bit (8 * bs) c k"
      using c1 rD r(1) fit(3) D by (intro used_bit_frame [OF _ k]) (simp add: remapped_def)
    with c2 k show ?thesis by (simp add: marked_def)
  qed
  have fresh: "map_at ?M bl c k \<noteq> r" if "k < sz" for k using ok that r(2,3) by (auto simp: disk_ok_def)
  have "\<forall>b < D. used_bit (8 * bs) c2 b" using ok u2 rD r(1) by (simp add: disk_ok_def)
  moreover have "D \<le> unat (map_at ?M bl c2 k) \<and> unat (map_at ?M bl c2 k) < n \<and> used_bit (8 * bs) c2 (unat (map_at ?M bl c2 k))"
    if "k < sz" "map_at ?M bl c2 k \<noteq> 0" for k
  proof (cases "k = j")
    case True
    then show ?thesis using m2 [OF that(1)] rD r(1) u2 by simp
  next
    case False
    then have e: "map_at ?M bl c2 k = map_at ?M bl c k" using m2 [OF that(1)] by simp
    with disk_okD [OF ok that(1)] that(2) u2 show ?thesis by simp
  qed
  moreover have "k = i" if "k < sz" "i < sz" "map_at ?M bl c2 k = map_at ?M bl c2 i" "map_at ?M bl c2 k \<noteq> 0" for k i
    using that m2 [OF that(1)] m2 [OF that(2)] fresh ok by (auto simp: disk_ok_def split: if_splits)
  ultimately show ok2: "disk_ok bs n bl D sz c2" unfolding disk_ok_def by blast
  show mj: "map_at ?M bl c2 j = r" using m2 [OF j] by simp
  fix d
  have "part_disk bs bl sz (c2[unat r := d]) = (part_disk bs bl sz c2)[j := d]"
    using disk_store(2) [OF ok2 j, of d] mj r(2) fit D l by simp
  also have "\<dots> = (part_disk bs bl sz c)[j := d]"
  proof (rule nth_equalityI)
    fix k assume "k < length ((part_disk bs bl sz c2)[j := d])"
    then have k: "k < sz" by simp
    show "(part_disk bs bl sz c2)[j := d] ! k = (part_disk bs bl sz c)[j := d] ! k"
    proof (cases "k = j")
      case False
      have "c2 ! unat (map_at ?M bl c k) = c ! unat (map_at ?M bl c k)" if "map_at ?M bl c k \<noteq> 0"
        using disk_okD(1,2) [OF ok k that] c1 c2 fit(3) D by (simp add: marked_def remapped_def)
      then show ?thesis using k False m2 [OF k] by (simp add: nth_part_disk)
    qed (use k in simp)
  qed simp
  finally show "part_disk bs bl sz (c2[unat r := d]) = (part_disk bs bl sz c)[j := d]" .
qed

section \<open>The open partition\<close>

definition part_data :: "part_io \<Rightarrow> nat" where
  "part_data io = unat (bitmap_len io) + 1 + unat (maps_len io)"

text \<open>The struct against the device below; then the whole state of a device of \<open>n\<close> blocks.\<close>

definition part_mounted :: "'s bdev \<Rightarrow> ('s \<Rightarrow> bool) \<Rightarrow> ('s \<Rightarrow> bytes list) \<Rightarrow> part_io \<Rightarrow> 's \<Rightarrow> bool" where
  "part_mounted base valid cont io s \<longleftrightarrow> part_inv base valid cont (part_data io) io s \<and>
    unat (mapped_total_size io) \<le> unat (maps_len io) * (unat (block_size base) div 8) \<and>
    disk_ok (unat (block_size base)) (unat (disk_blocks io)) (unat (bitmap_len io)) (part_data io)
      (unat (mapped_total_size io)) (cont s)"

definition part_valid :: "'s bdev \<Rightarrow> u64 \<Rightarrow> ('s \<Rightarrow> bool) \<Rightarrow> ('s \<Rightarrow> bytes list) \<Rightarrow> 's part_state \<Rightarrow> bool" where
  "part_valid base n valid cont st \<longleftrightarrow> part_mounted base valid cont (obj_m (fst st)) (snd st) \<and>
    unat (mapper_partition_offset (obj_m (fst st))) + unat n \<le> unat (mapped_total_size (obj_m (fst st))) \<and>
    length (generic_block_buffer (fst st)) = unat (block_size base) \<and> unat (block_size base) * unat n < 2 ^ 64"

text \<open>The blocks of all partitions, and those of this one.\<close>

definition mounted_disk :: "'s bdev \<Rightarrow> ('s \<Rightarrow> bytes list) \<Rightarrow> part_io \<Rightarrow> 's \<Rightarrow> bytes list" where
  "mounted_disk base cont io s =
    part_disk (unat (block_size base)) (unat (bitmap_len io)) (unat (mapped_total_size io)) (cont s)"

definition part_cont :: "'s bdev \<Rightarrow> u64 \<Rightarrow> ('s \<Rightarrow> bytes list) \<Rightarrow> 's part_state \<Rightarrow> bytes list" where
  "part_cont base n cont st = take (unat n) (drop (unat (mapper_partition_offset (obj_m (fst st))))
    (mounted_disk base cont (obj_m (fst st)) (snd st)))"

text \<open>No block of the device is free.\<close>

definition part_full :: "'s bdev \<Rightarrow> part_io \<Rightarrow> bytes list \<Rightarrow> bool" where
  "part_full base io c \<longleftrightarrow> (\<forall>b. 1 \<le> b \<and> b < unat (disk_blocks io) \<longrightarrow> used_bit (8 * unat (block_size base)) c b)"

lemma part_core_same:
  assumes "part_core io' = part_core io"
  shows "part_data io' = part_data io" "mapped_total_size io' = mapped_total_size io" "bitmap_len io' = bitmap_len io"
    "maps_len io' = maps_len io" "disk_blocks io' = disk_blocks io"
    "mapper_partition_offset io' = mapper_partition_offset io"
  using assms by (simp_all add: part_core_iff part_data_def)

context block_device
begin

abbreviation pmounted :: "part_io \<Rightarrow> 's \<Rightarrow> bool" where
  "pmounted \<equiv> part_mounted dev valid cont"

lemma mounted_facts:
  assumes "pmounted io s"
  shows "pinv (part_data io) io s" "unat (mapped_total_size io) \<le> (part_data io - 1 - unat (bitmap_len io)) * (psz div 8)"
    "unat (disk_blocks io) \<le> unat (bitmap_len io) * (8 * psz)" "unat (disk_blocks io) \<le> length (cont s)"
    "unat (bitmap_len io) < part_data io"
    "disk_ok psz (unat (disk_blocks io)) (unat (bitmap_len io)) (part_data io) (unat (mapped_total_size io)) (cont s)"
  using assms part_sizes [of "part_data io" io s]
  by (auto simp: part_mounted_def part_data_def part_geo_def)

text \<open>Everything but the caches follows from the contents.\<close>

lemma mountedI:
  assumes "pmounted io s" and "pinv (part_data io) io' s'" and "part_core io' = part_core io"
    and "disk_ok psz (unat (disk_blocks io)) (unat (bitmap_len io)) (part_data io) (unat (mapped_total_size io)) (cont s')"
  shows "pmounted io' s'"
  using assms part_core_same [OF assms(3)] by (simp add: part_mounted_def)

lemma mounted_maploc:
  assumes rel and m: "pmounted io s" and k: "unat k < unat (mapped_total_size io)"
  obtains io' s' where "partitioner_block_maploc dev io s k =
      Some (map_at (psz div 8) (unat (bitmap_len io)) (cont s) (unat k), io', s')"
    "pmounted io' s'" "part_core io' = part_core io" "cont s' = cont s"
proof -
  note f = mounted_facts [OF m]
  have "unat k < (part_data io - 1 - unat (bitmap_len io)) * (psz div 8)" using k f(2) by simp
  from maploc_ok [OF assms(1) f(1) this] obtain io' s' where
    r: "partitioner_block_maploc dev io s k = Some (map_at (psz div 8) (unat (bitmap_len io)) (cont s) (unat k), io', s')"
    "pinv (part_data io) io' s'" "part_core io' = part_core io" "cont s' = cont s" by blast
  moreover have "pmounted io' s'" using mountedI [OF m r(2,3)] f(6) r(4) by simp
  ultimately show thesis using that by blast
qed

lemma map_value_not_one:
  assumes m: "pmounted io s" and k: "unat k < unat (mapped_total_size io)"
  shows "map_at (psz div 8) (unat (bitmap_len io)) (cont s) (unat k) \<noteq> 1"
proof
  note f = mounted_facts [OF m]
  assume e: "map_at (psz div 8) (unat (bitmap_len io)) (cont s) (unat k) = 1"
  then have "part_data io \<le> unat (1 :: u64)" using disk_okD(1) [OF f(6) k] by simp
  moreover have "1 \<le> unat (bitmap_len io)" using part_geo_less(1) part_sizes(2) [OF f(1)] by blast
  ultimately show False by (simp add: part_data_def)
qed

text \<open>A block written where the map has one already.\<close>

lemma mounted_store:
  assumes rel and m: "pmounted io s" and j: "j < unat (mapped_total_size io)" and r: "map_at (psz div 8) (unat (bitmap_len io)) (cont s) j = r" "r \<noteq> 0"
    and l: "psz \<le> length data"
  obtains s' where "write_block dev s r data = Some (True, s')" "pmounted io s'" "cont s' = (cont s)[unat r := take psz data]"
    "mounted_disk dev cont io s' = (mounted_disk dev cont io s)[j := take psz data]"
proof -
  note f = mounted_facts [OF m] and z = part_sizes [OF mounted_facts(1) [OF m]]
  have r0: "map_at (psz div 8) (unat (bitmap_len io)) (cont s) j \<noteq> 0" using r by simp
  note d = disk_okD [OF f(6) j r0, unfolded r(1)]
  note st = disk_store [OF f(6) j r0 f(2,3,4,5), of "take psz data", unfolded r(1)]
  have "unat r < unat (block_count dev)" using d(2) f(4) z(4) by simp
  from part_write [OF assms(1) z(1) this l] obtain s' where
    w: "write_block dev s r data = Some (True, s')" "valid s'" "cont s' = (cont s)[unat r := take psz data]" by blast
  have "part_cache dev io (part_data io) (cont s')"
    by (rule part_cache_frame [OF z(3) _ z(2)]) (use d(1) w(3) in simp)
  then have "pinv (part_data io) io s'" using f(1) w(2) by (simp add: part_inv_def)
  then have "pmounted io s'" using mountedI [OF m _ refl] st(1) w(3) by simp
  then show thesis using that [OF w(1) _ w(3)] st(2) w(3) by (simp add: mounted_disk_def)
qed

text \<open>A new block: found by the scan, entered in the map and in the bitmap.\<close>

lemma mounted_allocate:
  assumes rel and m: "pmounted io s" and j: "unat which + unat (mapper_partition_offset io) < unat (mapped_total_size io)"
    and free: "map_at (psz div 8) (unat (bitmap_len io)) (cont s) (unat which + unat (mapper_partition_offset io)) = 0"
  obtains (full) r io' s' where "part_allocate dev io s which = Some (False, r, io', s')" "pmounted io' s'"
    "part_core io' = part_core io" "cont s' = cont s" "part_full dev io (cont s)"
  | (new) r io' s' where "part_allocate dev io s which = Some (True, r, io', s')" "pmounted io' s'" "r \<noteq> 0"
    "part_core io' = part_core io" "map_at (psz div 8) (unat (bitmap_len io)) (cont s') (unat which + unat (mapper_partition_offset io)) = r"
    "\<And>d. part_disk psz (unat (bitmap_len io)) (unat (mapped_total_size io)) ((cont s')[unat r := d]) =
      (mounted_disk dev cont io s)[unat which + unat (mapper_partition_offset io) := d]"
proof -
  let ?j = "unat which + unat (mapper_partition_offset io)" and ?k = "which + mapper_partition_offset io"
  note f = mounted_facts [OF m] and z = part_sizes [OF mounted_facts(1) [OF m]]
  have k: "unat ?k = ?j" using j unat_u64_bound [of "mapped_total_size io"] by (intro unat_add_u64) simp
  obtain r io1 s1 where sc: "partitioner_scan_free_block dev io s = Some (r, io1, s1)" "pinv (part_data io) io1 s1" "cont s1 = cont s"
    "part_core io1 = part_core io"
    "scan_result (unat (disk_blocks io)) (unat (free_scan_from io)) (used_bit (8 * psz) (cont s)) (unat r)"
    by (rule scan_ok [OF assms(1) f(1)])
  note e1 = part_core_same [OF sc(4)]
  show thesis
  proof (cases "r = 0")
    case True
    then have "part_full dev io (cont s)" using sc(5) by (simp add: scan_result_def part_full_def)
    moreover have "pmounted io1 s1" using mountedI [OF m sc(2,4)] f(6) sc(3) by simp
    moreover have "part_allocate dev io s which = Some (False, r, io1, s1)" using sc(1) True by (simp add: part_allocate_def)
    ultimately show thesis using full sc(3,4) by blast
  next
    case False
    then have r: "unat r < unat (disk_blocks io)" "\<not> used_bit (8 * psz) (cont s) (unat r)"
      using sc(5) by (simp_all add: scan_result_def unat_eq_zero)
    have kk: "unat ?k < (part_data io - 1 - unat (bitmap_len io1)) * (psz div 8)" using k j f(2) e1(3) by simp
    obtain io2 s2 where mp: "partitioner_block_set_maploc dev io1 s1 ?k r = Some (True, io2, s2)" "pinv (part_data io) io2 s2"
      "part_core io2 = part_core io1"
      "remapped (psz div 8) (unat (bitmap_len io1)) (part_data io) (cont s1) (unat ?k) r (cont s2)"
      by (rule set_maploc_ok [OF assms(1) sc(2) kk])
    note e2 = part_core_same [OF mp(3)]
    have "unat r < unat (bitmap_len io2) * (8 * psz)" using r(1) f(3) e1(3) e2(3) by simp
    from mark_ok [OF assms(1) mp(2) this, of True] obtain io3 s3 where
      mk: "partitioner_mark_block_as dev io2 s2 r True = Some (True, io3, s3)" "pinv (part_data io) io3 s3" "part_core io3 = part_core io2"
      "marked (8 * psz) (unat (bitmap_len io2)) (cont s2) (unat r) True (cont s3)" by blast
    have off: "which + mapper_partition_offset io1 = ?k" using e1(6) by simp
    have run: "part_allocate dev io s which = Some (True, r, io3, s3)"
      using sc(1) mp(1) mk(1) False by (simp add: part_allocate_def off)
    note da = disk_allocate [OF f(6) j r(1) False r(2) _ _ f(2,3,4,5) free, of "cont s2" "cont s3"]
    have rm: "remapped (psz div 8) (unat (bitmap_len io)) (part_data io) (cont s) ?j r (cont s2)" using mp(4) sc(3) e1(3) k by simp
    have ma: "marked (8 * psz) (unat (bitmap_len io)) (cont s2) (unat r) True (cont s3)" using mk(4) e1(3) e2(3) by simp
    note da = da [OF rm ma]
    have core: "part_core io3 = part_core io" using mk(3) mp(3) sc(4) by simp
    have "pmounted io3 s3" using mountedI [OF m mk(2) core da(1)] .
    then show thesis using new [OF run _ False core da(2)] da(3) by (simp add: mounted_disk_def)
  qed
qed

end

section \<open>The contract\<close>

context block_device
begin

abbreviation pvalid :: "u64 \<Rightarrow> 's part_state \<Rightarrow> bool" where
  "pvalid n \<equiv> part_valid dev n valid cont"

lemma part_index:
  assumes v: "pvalid n st" and w: "which < n"
  shows "unat which + unat (mapper_partition_offset (obj_m (fst st))) < unat (mapped_total_size (obj_m (fst st)))"
    "unat (which + mapper_partition_offset (obj_m (fst st))) = unat which + unat (mapper_partition_offset (obj_m (fst st)))"
    "part_cont dev n cont st ! unat which =
      mounted_disk dev cont (obj_m (fst st)) (snd st) ! (unat which + unat (mapper_partition_offset (obj_m (fst st))))"
proof -
  let ?io = "obj_m (fst st)"
  have b: "unat (mapper_partition_offset ?io) + unat n \<le> unat (mapped_total_size ?io)" "unat which < unat n"
    using v w by (simp_all add: part_valid_def word_less_nat_alt)
  then show j: "unat which + unat (mapper_partition_offset ?io) < unat (mapped_total_size ?io)" by simp
  then show "unat (which + mapper_partition_offset ?io) = unat which + unat (mapper_partition_offset ?io)"
    using unat_u64_bound [of "mapped_total_size ?io"] by (intro unat_add_u64) simp
  show "part_cont dev n cont st ! unat which =
      mounted_disk dev cont ?io (snd st) ! (unat which + unat (mapper_partition_offset ?io))"
    using b by (simp add: part_cont_def mounted_disk_def add.commute)
qed

text \<open>A step that keeps the geometry keeps the device valid.\<close>

lemma part_validI:
  assumes "pvalid n st" and "pmounted io' s'" and "part_core io' = part_core (obj_m (fst st))"
  shows "pvalid n (part_ret st io' s')"
  using assms part_core_same [OF assms(3)] by (simp add: part_valid_def)

lemma part_cont_same:
  assumes "part_core io' = part_core (obj_m (fst st))" and "cont s' = cont (snd st)"
  shows "part_cont dev n cont (part_ret st io' s') = part_cont dev n cont st"
  using assms part_core_same [OF assms(1)] by (simp add: part_cont_def mounted_disk_def)

lemma contents_part:
  assumes "pvalid n st"
  shows "length (part_cont dev n cont st) = unat n" "blocked psz (part_cont dev n cont st)"
proof -
  let ?io = "obj_m (fst st)"
  have m: "pmounted ?io (snd st)" and le: "unat (mapper_partition_offset ?io) + unat n \<le> unat (mapped_total_size ?io)"
    using assms by (simp_all add: part_valid_def)
  note f = mounted_facts [OF m] and z = part_sizes [OF mounted_facts(1) [OF m]]
  show "length (part_cont dev n cont st) = unat n" using le by (simp add: part_cont_def mounted_disk_def)
  have "length b = psz" if "b \<in> set (mounted_disk dev cont ?io (snd st))" for b
  proof -
    from that obtain k where "k < length (mounted_disk dev cont ?io (snd st))" "b = mounted_disk dev cont ?io (snd st) ! k"
      by (metis in_set_conv_nth)
    then have k: "k < unat (mapped_total_size ?io)" and b: "b = part_disk psz (unat (bitmap_len ?io)) (unat (mapped_total_size ?io)) (cont (snd st)) ! k"
      by (simp_all add: mounted_disk_def)
    let ?m = "map_at (psz div 8) (unat (bitmap_len ?io)) (cont (snd st)) k"
    have "length (cont (snd st) ! unat ?m) = psz" if "?m \<noteq> 0"
      using disk_okD(2) [OF f(6) k that] f(4) z(4) by (intro part_block_length [OF z(1)]) simp
    then show ?thesis using b k by (simp add: nth_part_disk)
  qed
  then show "blocked psz (part_cont dev n cont st)"
    by (auto simp: blocked_def part_cont_def dest!: in_set_takeD in_set_dropD)
qed

lemma part_read_ok:
  assumes rel and v: "pvalid n st" and w: "which < n" and l: "psz \<le> length into"
  obtains st' where "part_read_block dev n st which into = Some (True, patch 0 (part_cont dev n cont st ! unat which) into, st')"
    "pvalid n st'" "part_cont dev n cont st' = part_cont dev n cont st"
proof -
  let ?io = "obj_m (fst st)" and ?k = "which + mapper_partition_offset (obj_m (fst st))"
  have m: "pmounted ?io (snd st)" using v by (simp add: part_valid_def)
  note f = mounted_facts [OF m] and ix = part_index [OF v w]
  let ?m = "map_at (psz div 8) (unat (bitmap_len ?io)) (cont (snd st)) (unat ?k)"
  have k: "unat ?k < unat (mapped_total_size ?io)" using ix(1,2) by simp
  obtain io' s' where r: "partitioner_block_maploc dev ?io (snd st) ?k = Some (?m, io', s')" "pmounted io' s'"
    "part_core io' = part_core ?io" "cont s' = cont (snd st)" by (rule mounted_maploc [OF assms(1) m k])
  have one: "?m \<noteq> 1" by (rule map_value_not_one [OF m k])
  have c: "part_cont dev n cont st ! unat which = (if ?m = 0 then replicate psz 0 else cont (snd st) ! unat ?m)"
    unfolding ix(3) using ix(1,2) by (simp add: mounted_disk_def nth_part_disk)
  show thesis
  proof (cases "?m = 0")
    case True
    have "memset into 0 0 psz = Some (patch 0 (replicate psz 0) into)" using l by (simp add: memset_Some)
    then have "part_read_block dev n st which into = Some (True, patch 0 (replicate psz 0) into, part_ret st io' s')"
      using r(1) True w by (simp add: part_read_block_def Let_def del: patch_0)
    then have "part_read_block dev n st which into = Some (True, patch 0 (part_cont dev n cont st ! unat which) into, part_ret st io' s')"
      using c True by (simp del: patch_0)
    from that [OF this part_validI [OF v r(2,3)] part_cont_same [OF r(3,4)]] show thesis .
  next
    case False
    have "unat ?m < unat (block_count dev)"
      using disk_okD(2) [OF f(6) k False] f(4) part_sizes(4) [OF f(1)] by simp
    then have b: "?m < block_count dev" by (simp add: word_less_nat_alt)
    have vs: "valid s'" using part_sizes(1) [OF mounted_facts(1) [OF r(2)]] .
    from read_law [OF vs b l] assms(1) obtain s2 where
      rd: "read_block dev s' ?m into = Some (True, patch 0 (cont s' ! unat ?m) into, s2)" "valid s2" "cont s2 = cont s'"
      by (auto simp: read_into_ok_def)
    have "pmounted io' s2" using r(2) rd(2,3) by (simp add: part_mounted_def part_inv_def)
    moreover have "part_read_block dev n st which into = Some (True, patch 0 (cont s' ! unat ?m) into, part_ret st io' s2)"
      using r(1) False one w rd(1) by (simp add: part_read_block_def Let_def del: patch_0)
    moreover have "cont s2 = cont (snd st)" using rd(3) r(4) by simp
    moreover have "part_cont dev n cont st ! unat which = cont s' ! unat ?m" using c False r(4) by simp
    ultimately show thesis using that part_validI [OF v _ r(3)] part_cont_same [OF r(3)] by metis
  qed
qed

lemma part_write_ok:
  assumes rel and v: "pvalid n st" and w: "which < n" and l: "psz \<le> length (deref (fst st) from)"
  obtains (full) st' where "part_write_block dev n st which from = Some (False, st')" "pvalid n st'"
      "part_cont dev n cont st' = part_cont dev n cont st" "part_full dev (obj_m (fst st)) (cont (snd st))"
  | (stored) st' where "part_write_block dev n st which from = Some (True, st')" "pvalid n st'"
      "part_cont dev n cont st' = (part_cont dev n cont st)[unat which := take psz (deref (fst st) from)]"
      "mounted_disk dev cont (obj_m (fst st')) (snd st') = (mounted_disk dev cont (obj_m (fst st)) (snd st))
        [unat which + unat (mapper_partition_offset (obj_m (fst st))) := take psz (deref (fst st) from)]"
proof -
  let ?io = "obj_m (fst st)" and ?k = "which + mapper_partition_offset (obj_m (fst st))" and ?d = "deref (fst st) from"
  have m: "pmounted ?io (snd st)" using v by (simp add: part_valid_def)
  note ix = part_index [OF v w]
  let ?j = "unat which + unat (mapper_partition_offset ?io)"
  let ?m = "map_at (psz div 8) (unat (bitmap_len ?io)) (cont (snd st)) ?j"
  have k: "unat ?k < unat (mapped_total_size ?io)" using ix(1,2) by simp
  obtain io1 s1 where r: "partitioner_block_maploc dev ?io (snd st) ?k = Some (?m, io1, s1)" "pmounted io1 s1"
    "part_core io1 = part_core ?io" "cont s1 = cont (snd st)"
    using mounted_maploc [OF assms(1) m k] ix(2) by metis
  have one: "?m \<noteq> 1" using map_value_not_one [OF m k] ix(2) by simp
  note e1 = part_core_same [OF r(3)]
  have disk1: "mounted_disk dev cont io1 s1 = mounted_disk dev cont ?io (snd st)" using e1 r(4) by (simp add: mounted_disk_def)
  have j1: "?j < unat (mapped_total_size io1)" using ix(1) e1 by simp
  have cnt: "part_cont dev n cont (part_ret st io s) = (part_cont dev n cont st)[unat which := d]"
    if "part_core io = part_core ?io" "mounted_disk dev cont io s = (mounted_disk dev cont ?io (snd st))[?j := d]" for io s d
  proof -
    have "unat which < unat n" using w by (simp add: word_less_nat_alt)
    then show ?thesis using that part_core_same [OF that(1)] ix(1)
      by (simp add: part_cont_def drop_update_swap take_update_swap add.commute)
  qed
  show thesis
  proof (cases "?m = 0")
    case False
    have "map_at (psz div 8) (unat (bitmap_len io1)) (cont s1) ?j = ?m" using e1 r(4) by simp
    from mounted_store [OF assms(1) r(2) j1 this False l] obtain s2 where
      st: "write_block dev s1 ?m ?d = Some (True, s2)" "pmounted io1 s2"
      "mounted_disk dev cont io1 s2 = (mounted_disk dev cont io1 s1)[?j := take psz ?d]" by blast
    have "part_write_block dev n st which from = Some (True, part_ret st io1 s2)"
      using r(1) False one w st(1) by (simp add: part_write_block_def Let_def)
    then show thesis
      using stored part_validI [OF v st(2) r(3)] cnt [OF r(3)] st(3) disk1 by simp
  next
    case True
    have off: "mapper_partition_offset io1 = mapper_partition_offset ?io" by (rule e1)
    have free: "map_at (psz div 8) (unat (bitmap_len io1)) (cont s1) (unat which + unat (mapper_partition_offset io1)) = 0"
      using True e1 r(4) by simp
    have j1': "unat which + unat (mapper_partition_offset io1) < unat (mapped_total_size io1)" using j1 off by simp
    show thesis
    proof (rule mounted_allocate [OF assms(1) r(2) j1' free])
      fix q io2 s2
      assume a: "part_allocate dev io1 s1 which = Some (False, q, io2, s2)" "pmounted io2 s2" "part_core io2 = part_core io1"
        "cont s2 = cont s1" "part_full dev io1 (cont s1)"
      have "part_write_block dev n st which from = Some (False, part_ret st io2 s2)"
        using r(1) True w a(1) by (simp add: part_write_block_def Let_def)
      moreover have "part_full dev ?io (cont (snd st))" using a(5) e1 r(4) by (simp add: part_full_def)
      moreover have "part_core io2 = part_core ?io" "cont s2 = cont (snd st)" using a(3,4) r(3,4) by simp_all
      ultimately show thesis using full part_validI [OF v a(2)] part_cont_same by blast
    next
      fix q io2 s2
      assume a: "part_allocate dev io1 s1 which = Some (True, q, io2, s2)" "pmounted io2 s2" "q \<noteq> 0"
        "part_core io2 = part_core io1"
        "map_at (psz div 8) (unat (bitmap_len io1)) (cont s2) (unat which + unat (mapper_partition_offset io1)) = q"
        "\<And>d. part_disk psz (unat (bitmap_len io1)) (unat (mapped_total_size io1)) ((cont s2)[unat q := d]) =
          (mounted_disk dev cont io1 s1)[unat which + unat (mapper_partition_offset io1) := d]"
      have core: "part_core io2 = part_core ?io" using a(4) r(3) by simp
      note e2 = part_core_same [OF core]
      have "map_at (psz div 8) (unat (bitmap_len io2)) (cont s2) ?j = q" "?j < unat (mapped_total_size io2)"
        using a(5) e1 e2 j1 by simp_all
      from mounted_store [OF assms(1) a(2) this(2,1) a(3) l] obtain s3 where
        st: "write_block dev s2 q ?d = Some (True, s3)" "pmounted io2 s3" "cont s3 = (cont s2)[unat q := take psz ?d]" by blast
      have "part_write_block dev n st which from = Some (True, part_ret st io2 s3)"
        using r(1) True w a(1) st(1) by (simp add: part_write_block_def Let_def)
      moreover have "mounted_disk dev cont io2 s3 = (mounted_disk dev cont ?io (snd st))[?j := take psz ?d]"
        using a(6) [of "take psz ?d"] st(3) e1 e2 disk1 by (simp add: mounted_disk_def)
      ultimately show thesis using stored part_validI [OF v st(2) core] cnt [OF core] by simp
    qed
  qed
qed

lemma part_generic:
  assumes rel
  shows "generic_dev (block_size dev) n (part_read_block dev n) (part_write_block dev n) (pvalid n) (part_cont dev n cont) False"
proof (unfold_locales, goal_cases)
  case (1 st)
  then have "pinv (part_data (obj_m (fst st))) (obj_m (fst st)) (snd st)"
    using mounted_facts(1) by (simp add: part_valid_def)
  then have "0 < psz" using part_geo_less(4) part_sizes(2) by blast
  with 1 show ?case by (simp add: part_valid_def)
next
  case (2 st)
  then show ?case using contents_part by blast
next
  case (3 st w into)
  have "length (part_cont dev n cont st ! unat w) = psz"
    using contents_part [OF 3(1)] 3(2) by (simp add: blocked_nth word_less_nat_alt)
  moreover obtain st' where "part_read_block dev n st w into = Some (True, patch 0 (part_cont dev n cont st ! unat w) into, st')"
    "pvalid n st'" "part_cont dev n cont st' = part_cont dev n cont st" by (rule part_read_ok [OF assms(1) 3])
  ultimately show ?case using 3(3) by (intro read_okI [of _ True _ st']) simp_all
next
  case (4 st w "from")
  then have l: "psz \<le> length (deref (fst st) (Ext from))" by simp
  then show ?case
    by (cases rule: part_write_ok [OF assms(1) 4(1,2) l]) (auto simp: write_ok_def)
next
  case (5 st)
  then show ?case by (simp add: part_valid_def)
next
  case (6 st g)
  then show ?case by (simp add: part_valid_def set_buffer_def)
next
  case (7 st g)
  then show ?case by (simp add: part_cont_def set_buffer_def)
next
  case (8 st w)
  then have l: "psz \<le> length (deref (fst st) Own)" "take psz (generic_block_buffer (fst st)) = generic_block_buffer (fst st)"
    by (simp_all add: part_valid_def)
  then show ?case
    by (cases rule: part_write_ok [OF assms(1) 8 l(1)]) (auto simp: write_ok_def)
qed

lemma part_maintenance:
  assumes v: "pvalid n st"
  shows "keeps (pvalid n) (part_cont dev n cont) st (part_flush dev st)"
    "keeps (pvalid n) (part_cont dev n cont) st (part_clear_caches dev st)"
proof -
  let ?io = "obj_m (fst st)"
  have m: "pmounted ?io (snd st)" using v by (simp add: part_valid_def)
  then have vs: "valid (snd st)" by (simp add: part_mounted_def part_inv_def)
  obtain s1 where f: "flush dev (snd st) = Some s1" "valid s1" "cont s1 = cont (snd st)"
    by (rule keepsE [OF flush_law [OF vs]])
  have "pmounted ?io s1" using m f(2,3) by (simp add: part_mounted_def part_inv_def)
  moreover have e: "part_ret st ?io s1 = (fst st, s1)" by simp
  ultimately show "keeps (pvalid n) (part_cont dev n cont) st (part_flush dev st)"
    using f(1) part_validI [OF v, of ?io s1] part_cont_same [of ?io st s1 n] f(3)
    by (simp add: part_flush_def keeps_def)
  obtain s2 where c: "clear_caches dev (snd st) = Some s2" "valid s2" "cont s2 = cont (snd st)"
    by (rule keepsE [OF clear_caches_law [OF vs]])
  let ?io2 = "?io\<lparr>bitmap_block_which := 0, map_block_which := 0\<rparr>"
  have core: "part_core ?io2 = part_core ?io" by (simp add: part_core_iff)
  have "pmounted ?io2 s2" using m c(2,3)
    by (simp add: part_mounted_def part_inv_def part_geo_def part_cache_def part_data_def)
  then show "keeps (pvalid n) (part_cont dev n cont) st (part_clear_caches dev st)"
    using c(1) part_validI [OF v _ core] part_cont_same [OF core c(3)]
    by (simp add: part_clear_caches_def Let_def keeps_def)
qed

end

end
