(* ===== verification/PartCreate.thy ===== *)
theory PartCreate
  imports PartContract
begin

text \<open>
  From a blank device to an open partition: what \<open>partitioner_initialize\<close> writes, how
  \<open>partitioner_set_part_size\<close> makes the first partition, and that \<open>partitioner_open\<close> finds it.
\<close>

section \<open>The format on the device\<close>

definition header_total :: "bytes \<Rightarrow> u64" where
  "header_total header = sum_list (map (entry header) [3..<64])"

text \<open>The lengths of the bitmap and of the map, as the code computes them.\<close>

definition bitmap_blocks_for :: "nat \<Rightarrow> nat \<Rightarrow> nat" where
  "bitmap_blocks_for bs n = (n + 8 * bs - 1) div (8 * bs)"

definition maps_blocks_for :: "nat \<Rightarrow> nat \<Rightarrow> nat" where
  "maps_blocks_for bs sz = (sz + bs div 8 - 1) div (bs div 8)"

definition part_header :: "'s bdev \<Rightarrow> bytes list \<Rightarrow> bool" where
  "part_header base c \<longleftrightarrow>
    (let bs = unat (block_size base); n = unat (entry (c ! 0) 1); sz = unat (header_total (c ! 0)) in
     512 \<le> bs \<and> take 8 (c ! 0) = PARTITION_MAGIC \<and> entry (c ! 0) 2 = block_size base \<and>
     n \<le> unat (block_count base) \<and> n + 8 * bs < 2 ^ 64 \<and> sz + bs div 8 < 2 ^ 64 \<and>
     bitmap_blocks_for bs n + 1 + maps_blocks_for bs sz \<le> n)"

definition part_formatted :: "'s bdev \<Rightarrow> bytes list \<Rightarrow> bool" where
  "part_formatted base c \<longleftrightarrow> part_header base c \<and>
    (let bs = unat (block_size base); n = unat (entry (c ! 0) 1); sz = unat (header_total (c ! 0)); bl = bitmap_blocks_for bs n in
     disk_ok bs n bl (bl + 1 + maps_blocks_for bs sz) sz c)"

lemma bitmap_covers: "0 < bs \<Longrightarrow> n \<le> bitmap_blocks_for bs n * (8 * bs)"
  using ceil_mult(1) [of "8 * bs" n] by (simp add: bitmap_blocks_for_def)

lemma maps_cover: "8 \<le> bs \<Longrightarrow> sz \<le> maps_blocks_for bs sz * (bs div 8)"
  using ceil_mult(1) [of "bs div 8" sz] by (simp add: maps_blocks_for_def div_greater_zero_iff)

lemma ceil_word:
  assumes "unat a + unat d < 2 ^ 64" and "0 < unat (d :: u64)"
  shows "unat ((a + d - 1) div d) = (unat a + unat d - 1) div unat d"
proof -
  have s: "unat (a + d) = unat a + unat d" using assms(1) by (rule unat_add_u64)
  then have "(1 :: u64) \<le> a + d" using assms(2) by (simp add: word_le_nat_alt)
  then have "unat (a + d - 1) = unat a + unat d - 1" using s by (subst unat_sub_u64) simp_all
  then show ?thesis by (simp add: unat_div)
qed

section \<open>Reading the format\<close>

lemma starts_core: "part_core io' = part_core io \<Longrightarrow> MAPS_START io' = MAPS_START io \<and> DATA_START io' = DATA_START io"
  by (simp add: part_core_iff MAPS_START_def DATA_START_def)

lemma starts_update [simp]:
  "MAPS_START (io\<lparr>bitmap_block := b\<rparr>) = MAPS_START io" "DATA_START (io\<lparr>bitmap_block := b\<rparr>) = DATA_START io"
  "MAPS_START (io\<lparr>bitmap_block_which := w\<rparr>) = MAPS_START io" "DATA_START (io\<lparr>bitmap_block_which := w\<rparr>) = DATA_START io"
  by (simp_all add: MAPS_START_def DATA_START_def)

lemma sizes_loop_ok:
  "\<forall>i \<in> set is. 8 * i + 8 \<le> length header \<Longrightarrow> sizes_loop header is t = Some (t + sum_list (map (entry header) is))"
proof (induction "is" arbitrary: t)
  case (Cons i "is")
  then show ?case using unpack_entry [of i header] by (simp add: mult.commute add.assoc)
qed simp

lemma used_loop_ok: "\<forall>j \<in> set js. 4 * j + 4 \<le> length b \<Longrightarrow> \<exists>u'. used_loop b js u = Some u'"
  by (induction js arbitrary: u) (simp_all add: host_u32_def rd_Some)

context block_device
begin

lemma bitmap_loop_ok:
  assumes rel
  shows "valid s \<Longrightarrow> length (bitmap_block io) = psz \<Longrightarrow> \<forall>i \<in> set is. i < unat (block_count dev) \<Longrightarrow>
    \<exists>u s'. bitmap_loop dev (block_size dev) is io s = Some (True, if is = [] then io else
      io\<lparr>bitmap_block := cont s ! last is, bitmap_block_which := of_nat (last is), blocks_used := u\<rparr>, s') \<and>
      valid s' \<and> cont s' = cont s"
proof (induction "is" arbitrary: io s)
  case (Cons i "is")
  have i: "unat (of_nat i :: u64) = i"
    using Cons.prems(3) unat_u64_bound [of "block_count dev"] by (simp add: unat_of_nat take_bit_nat_eq_self_iff)
  obtain s1 where r: "read_block dev s (of_nat i) (bitmap_block io) = Some (True, cont s ! i, s1)" "valid s1" "cont s1 = cont s"
    using part_read [OF assms Cons.prems(1) _ Cons.prems(2), of "of_nat i"] i Cons.prems(3) by auto
  have l: "length (cont s ! i) = psz" using part_block_length [OF Cons.prems(1)] Cons.prems(3) by simp
  have "4 * j + 4 \<le> psz" if "j < psz div 4" for j using that by (simp add: less_eq_div_iff_mult_less_eq Suc_le_eq)
  then obtain u where u: "used_loop (cont s ! i) (int_below (block_size dev div 4)) (blocks_used io) = Some u"
    using used_loop_ok [of "int_below (block_size dev div 4)" "cont s ! i"] l by (auto simp: int_below_def unat_div)
  let ?io = "io\<lparr>bitmap_block := cont s ! i, bitmap_block_which := of_nat i, blocks_used := u\<rparr>"
  have "\<exists>u' s'. bitmap_loop dev (block_size dev) is ?io s1 = Some (True, if is = [] then ?io else
      ?io\<lparr>bitmap_block := cont s1 ! last is, bitmap_block_which := of_nat (last is), blocks_used := u'\<rparr>, s') \<and>
      valid s' \<and> cont s' = cont s1"
    using Cons.IH [OF r(2), of ?io] l Cons.prems(3) by simp
  then show ?case using r u by (cases "is = []") (auto simp: Let_def)
qed simp

text \<open>What \<open>setup_io\<close> makes of a formatted device.\<close>

lemma setup_ok:
  assumes rel and v: "valid s" and f: "part_header dev (cont s)" and l: "length (bitmap_block io) = psz"
  obtains io' s' where "partitioner_setup_io dev io s = Some (True, io', s')" "valid s'" "cont s' = cont s"
    "disk_blocks io' = entry (cont s ! 0) 1" "mapped_total_size io' = header_total (cont s ! 0)"
    "unat (bitmap_len io') = bitmap_blocks_for psz (unat (disk_blocks io'))"
    "unat (maps_len io') = maps_blocks_for psz (unat (mapped_total_size io'))"
    "part_geo dev io' (part_data io')"
    "length (map_block io) = psz \<and> map_block_which io = 0 \<longrightarrow> part_cache dev io' (part_data io') (cont s)"
    "length (bitmap_block io') = psz" "map_block io' = map_block io" "map_block_which io' = map_block_which io"
    "free_scan_from io' = 1"
proof -
  let ?h = "cont s ! 0"
  let ?n = "entry ?h 1" and ?t = "header_total ?h"
  have bs: "512 \<le> psz" and magic: "take 8 ?h = PARTITION_MAGIC" and sz: "entry ?h 2 = block_size dev"
    and n: "unat ?n \<le> unat (block_count dev)" and w: "unat ?n + 8 * psz < 2 ^ 64" "unat ?t + psz div 8 < 2 ^ 64"
    and D: "bitmap_blocks_for psz (unat ?n) + 1 + maps_blocks_for psz (unat ?t) \<le> unat ?n"
    using f by (simp_all add: part_header_def Let_def)
  have b0: "unat (0 :: u64) < unat (block_count dev)" using n D by simp
  then have lh: "length ?h = psz" using part_block_length [OF v, of 0] by simp
  obtain s1 where r: "read_block dev s 0 (bitmap_block io) = Some (True, ?h, s1)" "valid s1" "cont s1 = cont s"
    using part_read [OF assms(1) v b0 l] by auto
  let ?B = "block_size dev * 8" and ?M = "block_size dev div 8"
  have B: "unat ?B = 8 * psz" using w(1) by (subst unat_mult_u64) simp_all
  have M: "unat ?M = psz div 8" by (simp add: unat_div)
  have M0: "0 < psz div 8" using bs by (simp add: div_greater_zero_iff)
  have nz: "?B \<noteq> 0" "?M \<noteq> 0" using B M bs M0 by (metis mult_eq_0_iff unat_0 not_numeral_le_zero zero_neq_numeral, metis unat_0 not_less_zero)
  let ?bl = "(?n + ?B - 1) div ?B" and ?ml = "(?t + ?M - 1) div ?M"
  have bl: "unat ?bl = bitmap_blocks_for psz (unat ?n)"
    using ceil_word [of ?n ?B] w(1) bs by (simp add: B bitmap_blocks_for_def)
  have ml: "unat ?ml = maps_blocks_for psz (unat ?t)"
    using ceil_word [of ?t ?M] w(2) M0 by (simp add: M maps_blocks_for_def)
  have bl1: "1 \<le> unat ?bl"
  proof (rule ccontr)
    assume "\<not> 1 \<le> unat ?bl"
    then have "bitmap_blocks_for psz (unat ?n) = 0" using bl by linarith
    then have "unat ?n \<le> 0" using bitmap_covers [of psz "unat ?n"] bs by simp
    with D show False by simp
  qed
  have blD: "unat ?bl + 1 + unat ?ml \<le> unat ?n" using D bl ml by simp
  have ms: "unat (?bl + BITMAP_START) = unat ?bl + 1"
    using blD unat_u64_bound [of ?n] by (simp add: BITMAP_START_def unat_add_u64)
  have u: "rd ?h 0 8 = Some PARTITION_MAGIC" "unpack_be64 ?h 8 = Some ?n" "unpack_be64 ?h 16 = Some (block_size dev)"
    "sizes_loop ?h [3..<64] 0 = Some ?t"
    using magic lh bs unpack_entry [of 1 ?h] unpack_entry [of 2 ?h] sz sizes_loop_ok [of "[3..<64]" ?h 0]
    by (simp_all add: rd_all header_total_def)
  let ?io = "io\<lparr>bitmap_blocks_per_map := ?B, maps_blocks_per_map := ?M, bitmap_block := ?h, disk_blocks := ?n,
    bitmap_len := ?bl, mapped_total_size := ?t, maps_len := ?ml, free_scan_from := 1, bitmap_block_which := 0, blocks_used := 0\<rparr>"
  let ?is = "[unat BITMAP_START..<unat (MAPS_START ?io)]"
  have idx: "?is \<noteq> []" "last ?is = unat ?bl" using ms bl1 by (simp_all add: MAPS_START_def BITMAP_START_def)
  have "\<forall>i \<in> set ?is. i < unat (block_count dev)" using ms blD n by (auto simp: MAPS_START_def)
  then obtain us s2 where lp: "bitmap_loop dev (block_size dev) ?is ?io s1 = Some (True,
      ?io\<lparr>bitmap_block := cont s1 ! unat ?bl, bitmap_block_which := ?bl, blocks_used := us\<rparr>, s2)" "valid s2" "cont s2 = cont s1"
    using bitmap_loop_ok [OF assms(1) r(2), of ?io ?is] lh idx by auto
  let ?io2 = "?io\<lparr>bitmap_block := cont s ! unat ?bl, bitmap_block_which := ?bl, blocks_used := us\<rparr>"
  have "\<not> ?n > block_count dev" using n by (simp add: word_less_nat_alt)
  then have "partitioner_setup_io dev io s = Some (True, ?io2, s2)"
    using r(1) u nz lp(1) r(3) by (simp add: partitioner_setup_io_def Let_def)
  moreover have geo: "part_geo dev ?io2 (part_data ?io2)"
    using bs w(1) B M n blD bitmap_covers [of psz "unat ?n"] bl by (simp add: part_geo_def part_data_def)
  moreover have lb: "length (cont s ! unat ?bl) = psz" using blD n by (intro part_block_length [OF v]) simp
  moreover have "part_cache dev ?io2 (part_data ?io2) (cont s)" if "length (map_block io) = psz \<and> map_block_which io = 0"
    using that lb blD bl1 by (simp add: part_cache_def)
  ultimately show thesis
    using lp(2,3) r(3) bl ml by (intro that [of ?io2 s2]) simp_all
qed

end

section \<open>Opening a partition\<close>

lemma offset_loop_ok:
  "8 * (part + 3) + 8 \<le> length header \<Longrightarrow>
    offset_loop header part is t = Some (t + of_nat (length is) * entry header (part + 3))"
proof (induction "is" arbitrary: t)
  case (Cons i "is")
  then show ?case using unpack_entry [of "part + 3" header] by (simp add: mult.commute algebra_simps)
qed simp

text \<open>The blocks of all partitions of a formatted device.\<close>

definition formatted_disk :: "'s bdev \<Rightarrow> bytes list \<Rightarrow> bytes list" where
  "formatted_disk base c = part_disk (unat (block_size base))
    (bitmap_blocks_for (unat (block_size base)) (unat (entry (c ! 0) 1))) (unat (header_total (c ! 0))) c"

lemma length_formatted_disk [simp]: "length (formatted_disk base c) = unat (header_total (c ! 0))"
  by (simp add: formatted_disk_def)

context block_device
begin

lemma header_read:
  assumes rel and v: "valid s" and bc: "0 < unat (block_count dev)" and l: "length (bitmap_block io) = psz"
    and bs: "512 \<le> psz" and part: "part \<le> 60"
  obtains s' where "partitioner_get_part_size dev io s part =
      Some (entry (cont s ! 0) (part + 3), io\<lparr>bitmap_block := cont s ! 0, bitmap_block_which := 0\<rparr>, s')"
    "partitioner_get_partition_offset dev io s part =
      Some (of_nat part * entry (cont s ! 0) (part + 3), io\<lparr>bitmap_block := cont s ! 0, bitmap_block_which := 0\<rparr>, s')"
    "valid s'" "cont s' = cont s" "length (cont s ! 0) = psz"
proof -
  have b0: "unat (0 :: u64) < unat (block_count dev)" using bc by simp
  obtain s1 where r: "read_block dev s 0 (bitmap_block io) = Some (True, cont s ! 0, s1)" "valid s1" "cont s1 = cont s"
    using part_read [OF assms(1) v b0 l] by auto
  have lh: "length (cont s ! 0) = psz" using part_block_length [OF v, of 0] bc by simp
  have e: "8 * (part + 3) + 8 \<le> length (cont s ! 0)" using lh bs part by simp
  have "unpack_be64 (cont s ! 0) ((part + 3) * 8) = Some (entry (cont s ! 0) (part + 3))"
    using unpack_entry [OF e] by (simp only: mult.commute)
  then show thesis using r lh offset_loop_ok [OF e, of "[0..<part]" 0]
    by (intro that [of s1]) (simp_all add: partitioner_get_part_size_def partitioner_get_partition_offset_def Let_def)
qed

lemma open_part_run:
  assumes rel and v: "valid s" and f: "part_formatted dev (cont s)" and al: "alloc_ok alloc" "alloc psz = Some a"
    and part: "part \<le> 60" and n: "entry (cont s ! 0) (part + 3) = n" "n \<noteq> 0"
  obtains obj s' where "partitioner_open alloc junk jc dev s (int part) = Some (Some (part_dev dev (int part) n, obj), s')"
    "cont s' = cont s" "pmounted (obj_m obj) s'" "mounted_disk dev cont (obj_m obj) s' = formatted_disk dev (cont s)"
    "mapper_partition_offset (obj_m obj) = of_nat part * n" "mapped_total_size (obj_m obj) = header_total (cont s ! 0)"
    "length (generic_block_buffer obj) = psz"
proof -
  have la: "length a = psz" by (rule alloc_okD [OF al])
  have hd: "part_header dev (cont s)" using f by (simp add: part_formatted_def)
  have bs: "512 \<le> psz" and bc: "0 < unat (block_count dev)" using f by (auto simp: part_formatted_def part_header_def Let_def)
  let ?io0 = "junk\<lparr>bitmap_block := a, map_block := a, bitmap_block_which := 0, map_block_which := 0\<rparr>"
  have l0: "length (bitmap_block ?io0) = psz" using la by simp
  obtain io1 s1 where st: "partitioner_setup_io dev ?io0 s = Some (True, io1, s1)" "valid s1" "cont s1 = cont s"
    "disk_blocks io1 = entry (cont s ! 0) 1" "mapped_total_size io1 = header_total (cont s ! 0)"
    "unat (bitmap_len io1) = bitmap_blocks_for psz (unat (disk_blocks io1))"
    "unat (maps_len io1) = maps_blocks_for psz (unat (mapped_total_size io1))"
    "part_geo dev io1 (part_data io1)"
    "length (map_block ?io0) = psz \<and> map_block_which ?io0 = 0 \<longrightarrow> part_cache dev io1 (part_data io1) (cont s)"
    "length (bitmap_block io1) = psz" using setup_ok [OF assms(1) v hd l0] by blast
  obtain s2 where g1: "partitioner_get_part_size dev io1 s1 part = Some (n, io1\<lparr>bitmap_block := cont s ! 0, bitmap_block_which := 0\<rparr>, s2)"
    "valid s2" "cont s2 = cont s" "length (cont s ! 0) = psz"
    using header_read [OF assms(1) st(2) bc st(10) bs part] st(3) n(1) by metis
  let ?io2 = "io1\<lparr>bitmap_block := cont s ! 0, bitmap_block_which := 0\<rparr>"
  have l2: "length (bitmap_block ?io2) = psz" using g1(4) by simp
  obtain s3 where h: "partitioner_get_partition_offset dev ?io2 s2 part = Some (of_nat part * entry (cont s2 ! 0) (part + 3),
      ?io2\<lparr>bitmap_block := cont s2 ! 0, bitmap_block_which := 0\<rparr>, s3)" "valid s3" "cont s3 = cont s2"
    using header_read [OF assms(1) g1(2) bc l2 bs part] by blast
  have "?io2\<lparr>bitmap_block := cont s ! 0, bitmap_block_which := 0\<rparr> = ?io2" by simp
  with h have g2: "partitioner_get_partition_offset dev ?io2 s2 part = Some (of_nat part * n, ?io2, s3)" "valid s3" "cont s3 = cont s"
    unfolding g1(3) n(1) by simp_all
  let ?io3 = "?io2\<lparr>mapper_partition_offset := of_nat part * n, open_partition := int part\<rparr>"
  let ?obj = "\<lparr>generic_block_buffer = a, obj_m = ?io3\<rparr>"
  have sz: "\<not> block_size dev < 512" using bs by (simp add: word_less_nat_alt)
  have "partitioner_open alloc junk jc dev s (int part) = Some (Some (part_dev dev (int part) n, ?obj), s3)"
    unfolding partitioner_open_def using sz part al(2) st(1) g1(1) g2(1) n(2)
    by (simp add: MAX_PARTITION_NUMBER_def Let_def)
  moreover have "part_mounted dev valid cont ?io3 s3"
  proof -
    have "part_cache dev io1 (part_data io1) (cont s)" using st(9) la by simp
    then have "part_cache dev ?io3 (part_data ?io3) (cont s)" using g1(4) by (simp add: part_cache_def part_data_def)
    moreover have "part_geo dev ?io3 (part_data ?io3)" using st(8) by (simp add: part_geo_def part_data_def)
    moreover have "disk_ok psz (unat (disk_blocks io1)) (unat (bitmap_len io1)) (part_data io1) (unat (mapped_total_size io1)) (cont s)"
      using f st(4-7) by (simp add: part_formatted_def Let_def part_data_def)
    moreover have "unat (mapped_total_size io1) \<le> unat (maps_len io1) * (psz div 8)"
      using maps_cover [of psz "unat (mapped_total_size io1)"] bs st(7) by simp
    ultimately show ?thesis using g2(2,3) by (simp add: part_mounted_def part_inv_def part_data_def)
  qed
  ultimately show thesis
    using g2(3) la st(4-6) by (intro that [of ?obj s3]) (simp_all add: mounted_disk_def formatted_disk_def)
qed

lemma open_part_ok:
  assumes rel and "valid s" and "part_formatted dev (cont s)" and "alloc_ok alloc" "alloc psz = Some a"
    and part: "part \<le> 60" and "entry (cont s ! 0) (part + 3) = n" "n \<noteq> 0" and n: "psz * unat n < 2 ^ 64"
    and fits: "part * unat n + unat n \<le> unat (header_total (cont s ! 0))"
  shows "\<exists>obj s'. partitioner_open alloc junk jc dev s (int part) = Some (Some (part_dev dev (int part) n, obj), s') \<and>
    cont s' = cont s \<and> pvalid n (obj, s') \<and>
    part_cont dev n cont (obj, s') = take (unat n) (drop (part * unat n) (formatted_disk dev (cont s)))"
proof -
  obtain obj s' where o: "partitioner_open alloc junk jc dev s (int part) = Some (Some (part_dev dev (int part) n, obj), s')"
    "cont s' = cont s" "pmounted (obj_m obj) s'" "mounted_disk dev cont (obj_m obj) s' = formatted_disk dev (cont s)"
    "mapper_partition_offset (obj_m obj) = of_nat part * n" "mapped_total_size (obj_m obj) = header_total (cont s ! 0)"
    "length (generic_block_buffer obj) = psz" by (rule open_part_run [OF assms(1-8)])
  have "unat (of_nat part :: u64) = part" using part by (simp add: unat_of_nat take_bit_nat_eq_self_iff)
  then have off: "unat (of_nat part * n) = part * unat n"
    using fits unat_u64_bound [of "header_total (cont s ! 0)"] by (subst unat_mult_u64) simp_all
  then have "pvalid n (obj, s')" using o fits n by (simp add: part_valid_def)
  moreover have "part_cont dev n cont (obj, s') = take (unat n) (drop (part * unat n) (formatted_disk dev (cont s)))"
    using o(4,5) off by (simp add: part_cont_def)
  ultimately show ?thesis using o(1,2) by blast
qed

end

section \<open>Initialising a device\<close>

lemma maps_blocks_for_0: "8 \<le> bs \<Longrightarrow> maps_blocks_for bs 0 = 0"
  by (simp add: maps_blocks_for_def div_greater_zero_iff)

text \<open>The header of a device with no partition.\<close>

definition blank_header :: "'s bdev \<Rightarrow> bytes" where
  "blank_header base = PARTITION_MAGIC @ be64_bytes (block_count base) @ be64_bytes (block_size base) @
    replicate (unat (block_size base) - 24) 0"

lemma length_PARTITION_MAGIC [simp]: "length PARTITION_MAGIC = 8"
  by (simp add: PARTITION_MAGIC_def)

lemma be_val_zeros [simp]: "be_val (replicate n 0) = 0"
  by (induction n) (simp_all add: be_val_def)

lemma blank_header_entries:
  assumes "512 \<le> unat (block_size base)"
  shows "length (blank_header base) = unat (block_size base)" "take 8 (blank_header base) = PARTITION_MAGIC"
    "entry (blank_header base) 1 = block_count base" "entry (blank_header base) 2 = block_size base"
    "3 \<le> i \<Longrightarrow> i < 64 \<Longrightarrow> entry (blank_header base) i = 0" "header_total (blank_header base) = 0"
proof -
  show "length (blank_header base) = unat (block_size base)" "take 8 (blank_header base) = PARTITION_MAGIC"
    "entry (blank_header base) 1 = block_count base" "entry (blank_header base) 2 = block_size base"
    using assms by (simp_all add: blank_header_def entry_def)
  show z: "3 \<le> i \<Longrightarrow> i < 64 \<Longrightarrow> entry (blank_header base) i = 0" for i
    using assms by (simp add: blank_header_def entry_def)
  have "map (entry (blank_header base)) [3..<64] = map (\<lambda>_. 0) [3..<64]"
  proof (rule map_cong [OF refl])
    fix i assume "i \<in> set [3..<64]"
    then have "3 \<le> i" "i < 64" by (simp_all only: set_upt atLeastLessThan_iff)
    then show "entry (blank_header base) i = 0" by (rule z)
  qed
  then show "header_total (blank_header base) = 0" by (simp only: header_total_def sum_list_0)
qed

lemma blank_header_run:
  assumes "length h = unat (block_size base)" and "512 \<le> unat (block_size base)"
  shows "do { header \<leftarrow> memset h 0 0 (unat (block_size base)); header \<leftarrow> wr header 0 PARTITION_MAGIC;
      header \<leftarrow> pack_be64 (block_count base) header 8; pack_be64 (block_size base) header 16 } = Some (blank_header base)"
proof -
  have e: "patch 8 (be64_bytes (block_count base)) (PARTITION_MAGIC @ replicate (unat (block_size base) - 8) 0) =
      PARTITION_MAGIC @ be64_bytes (block_count base) @ replicate (unat (block_size base) - 16) 0"
    using assms(2) by (simp add: patch_def)
  have e2: "patch 16 (be64_bytes (block_size base)) (PARTITION_MAGIC @ be64_bytes (block_count base) @ replicate (unat (block_size base) - 16) 0) =
      blank_header base"
    using assms(2) by (simp add: patch_def blank_header_def)
  show ?thesis using assms by (simp add: memset_Some wr_Some pack_Some e e2)
qed

context block_device
begin

lemma clear_bitmap_ok:
  assumes rel and h: "length header = psz"
  shows "valid s \<Longrightarrow> \<forall>i \<in> set is. i < unat (block_count dev) \<Longrightarrow>
    \<exists>s'. clear_bitmap_loop dev header is s = Some s' \<and> valid s' \<and>
      (\<forall>b < unat (block_count dev). cont s' ! b = (if b \<in> set is then header else cont s ! b))"
proof (induction "is" arbitrary: s)
  case (Cons i "is")
  have i: "unat (of_nat i :: u64) = i"
    using Cons.prems(2) unat_u64_bound [of "block_count dev"] by (simp add: unat_of_nat take_bit_nat_eq_self_iff)
  obtain s1 where w: "write_block dev s (of_nat i) header = Some (True, s1)" "valid s1" "cont s1 = (cont s)[i := header]"
    using part_write [OF assms(1) Cons.prems(1), of "of_nat i" header] i Cons.prems(2) h by auto
  obtain s2 where s2: "clear_bitmap_loop dev header is s1 = Some s2" "valid s2"
    "\<forall>b < unat (block_count dev). cont s2 ! b = (if b \<in> set is then header else cont s1 ! b)"
    using Cons.IH [OF w(2)] Cons.prems(2) by auto
  have "length (cont s) = unat (block_count dev)" using contents [OF Cons.prems(1)] by blast
  then show ?case using w(1,3) s2 by (auto simp: nth_list_update)
qed simp

lemma mark_loop_ok:
  assumes rel
  shows "pinv D io s \<Longrightarrow> \<forall>i \<in> set is. i < unat (bitmap_len io) * (8 * psz) \<and> i < 2 ^ 64 \<Longrightarrow>
    \<exists>io' s'. mark_loop dev is io s = Some (io', s') \<and> pinv D io' s' \<and> part_core io' = part_core io \<and>
      (\<forall>b < length (cont s). b = 0 \<or> unat (bitmap_len io) < b \<longrightarrow> cont s' ! b = cont s ! b) \<and>
      (\<forall>k < unat (bitmap_len io) * (8 * psz). used_bit (8 * psz) (cont s') k = (k \<in> set is \<or> used_bit (8 * psz) (cont s) k))"
proof (induction "is" arbitrary: io s)
  case (Cons i "is")
  have i: "unat (of_nat i :: u64) = i" using Cons.prems(2) by (simp add: unat_of_nat take_bit_nat_eq_self_iff)
  then have "unat (of_nat i :: u64) < unat (bitmap_len io) * (8 * psz)" using Cons.prems(2) by simp
  from mark_ok [OF assms Cons.prems(1) this, of True] obtain io1 s1 where
    m: "partitioner_mark_block_as dev io s (of_nat i) True = Some (True, io1, s1)" "pinv D io1 s1" "part_core io1 = part_core io"
    "marked (8 * psz) (unat (bitmap_len io)) (cont s) i True (cont s1)" using i by metis
  have bl: "bitmap_len io1 = bitmap_len io" using m(3) by (rule part_core_same)
  obtain io2 s2 where r: "mark_loop dev is io1 s1 = Some (io2, s2)" "pinv D io2 s2" "part_core io2 = part_core io1"
    "\<forall>b < length (cont s1). b = 0 \<or> unat (bitmap_len io) < b \<longrightarrow> cont s2 ! b = cont s1 ! b"
    "\<forall>k < unat (bitmap_len io) * (8 * psz). used_bit (8 * psz) (cont s2) k = (k \<in> set is \<or> used_bit (8 * psz) (cont s1) k)"
    using Cons.IH [OF m(2)] Cons.prems(2) bl by auto
  show ?case using m r by (auto simp: marked_def)
qed simp

end

text \<open>Marking blocks does not use the cached map block.\<close>

definition with_map :: "bytes \<Rightarrow> u64 \<Rightarrow> part_io \<Rightarrow> part_io" where
  "with_map b w io = io\<lparr>map_block := b, map_block_which := w\<rparr>"

lemma with_map_simps [simp]:
  "bitmap_blocks_per_map (with_map b w io) = bitmap_blocks_per_map io" "blocks_used (with_map b w io) = blocks_used io"
  "bitmap_block (with_map b w io) = bitmap_block io" "bitmap_block_which (with_map b w io) = bitmap_block_which io"
  "with_map b w (io\<lparr>bitmap_block := x\<rparr>) = (with_map b w io)\<lparr>bitmap_block := x\<rparr>"
  "with_map b w (io\<lparr>bitmap_block_which := y\<rparr>) = (with_map b w io)\<lparr>bitmap_block_which := y\<rparr>"
  "with_map b w (io\<lparr>blocks_used := z\<rparr>) = (with_map b w io)\<lparr>blocks_used := z\<rparr>"
  by (simp_all add: with_map_def)

lemma open_bitmap_with_map:
  "partitioner_open_bitmap_block_for base (with_map b w io) s k =
    map_option (\<lambda>(ok, io, s). (ok, with_map b w io, s)) (partitioner_open_bitmap_block_for base io s k)"
  by (cases "c_div k (bitmap_blocks_per_map io)";
      cases "read_block base s (the (c_div k (bitmap_blocks_per_map io)) + BITMAP_START) (bitmap_block io)")
    (auto simp: partitioner_open_bitmap_block_for_def Let_def)

lemma mark_with_map:
  "partitioner_mark_block_as base (with_map b w io) s k u =
    map_option (\<lambda>(ok, io, s). (ok, with_map b w io, s)) (partitioner_mark_block_as base io s k u)"
  unfolding partitioner_mark_block_as_def open_bitmap_with_map
  by (cases "partitioner_open_bitmap_block_for base io s k")
    (auto simp: map_option_bind comp_def Let_def split_beta intro!: Option.bind_cong)

lemma mark_loop_with_map:
  "mark_loop base is (with_map b w io) s = map_option (\<lambda>(io, s). (with_map b w io, s)) (mark_loop base is io s)"
proof (induction "is" arbitrary: io s)
  case (Cons i "is")
  show ?case
    by (cases "partitioner_mark_block_as base io s (of_nat i) True") (auto simp: mark_with_map Cons split_beta)
qed simp

lemma bits_zeros: "i < 8 * n \<Longrightarrow> \<not> bits (replicate n 0) i"
  by (simp add: bits_def div_less_iff_less_mult)

context block_device
begin

text \<open>A device that \<open>initialize\<close> has prepared: a blank header, and a bitmap where exactly the
  header area is in use.\<close>

lemma initialize_ok:
  assumes rel and v: "valid s" and bs: "512 \<le> psz" and al: "alloc_ok alloc" "alloc psz = Some a"
    and n: "unat (block_count dev) + 8 * psz < 2 ^ 64" "bitmap_blocks_for psz (unat (block_count dev)) + 1 \<le> unat (block_count dev)"
  obtains s' where "partitioner_initialize alloc junk dev s = Some (True, s')" "valid s'" "part_formatted dev (cont s')"
    "cont s' ! 0 = blank_header dev"
    "\<forall>k < bitmap_blocks_for psz (unat (block_count dev)) * (8 * psz).
      used_bit (8 * psz) (cont s') k = (k < bitmap_blocks_for psz (unat (block_count dev)) + 1)"
proof -
  let ?h = "blank_header dev" and ?bl = "bitmap_blocks_for psz (unat (block_count dev))"
  note bh = blank_header_entries [OF bs]
  have "length a = psz" by (rule alloc_okD [OF al])
  note hd = blank_header_run [OF this bs]
  have b0: "unat (0 :: u64) < unat (block_count dev)" using n(2) by simp
  obtain s1 where w: "write_block dev s 0 ?h = Some (True, s1)" "valid s1" "cont s1 = (cont s)[0 := ?h]"
    using part_write [OF assms(1) v b0, of ?h] bh(1) by auto
  have c1: "cont s1 ! 0 = ?h" using w(3) contents [OF v] b0 by simp
  have f1: "part_header dev (cont s1)"
    using bh bs n maps_blocks_for_0 [of psz] by (simp add: part_header_def Let_def c1)
  let ?io0 = "junk\<lparr>bitmap_block := ?h\<rparr>"
  have l0: "length (bitmap_block ?io0) = psz" using bh(1) by simp
  obtain io1 s2 where st: "partitioner_setup_io dev ?io0 s1 = Some (True, io1, s2)" "valid s2" "cont s2 = cont s1"
    "disk_blocks io1 = block_count dev" "mapped_total_size io1 = 0"
    "unat (bitmap_len io1) = ?bl" "unat (maps_len io1) = maps_blocks_for psz (unat (mapped_total_size io1))"
    "part_geo dev io1 (part_data io1)" "length (bitmap_block io1) = psz" "free_scan_from io1 = 1"
    using setup_ok [OF assms(1) w(2) f1 l0] c1 bh(3,6) by metis
  have ml: "unat (maps_len io1) = 0" using st(5,7) maps_blocks_for_0 [of psz] bs by simp
  have D: "part_data io1 = ?bl + 1" using st(6) ml by (simp add: part_data_def)
  have ub: "?bl + 1 < 2 ^ 64" using n by simp
  have ms: "unat (MAPS_START io1) = ?bl + 1" using ub st(6) by (simp add: MAPS_START_def BITMAP_START_def unat_add_u64)
  have ds: "unat (DATA_START io1) = ?bl + 1" using ms ml ub by (simp add: DATA_START_def unat_add_u64)
  let ?z = "replicate psz 0 :: bytes"
  have z: "memset (bitmap_block io1) 0 0 psz = Some ?z" using st(9) by (simp add: memset_Some)
  have "length ?z = psz" by simp
  moreover have "\<forall>i \<in> set [unat BITMAP_START..<unat (MAPS_START io1)]. i < unat (block_count dev)" using n(2) by (auto simp: ms)
  ultimately obtain s3 where cl: "clear_bitmap_loop dev ?z [unat BITMAP_START..<unat (MAPS_START io1)] s2 = Some s3" "valid s3"
    "\<forall>b < unat (block_count dev). cont s3 ! b = (if b \<in> set [unat BITMAP_START..<unat (MAPS_START io1)] then ?z else cont s2 ! b)"
    using clear_bitmap_ok [OF assms(1) _ st(2)] by blast
  let ?io2 = "io1\<lparr>bitmap_block := ?z, bitmap_block_which := 0\<rparr>" and ?io3 = "with_map ?z 0 (io1\<lparr>bitmap_block := ?z, bitmap_block_which := 0\<rparr>)"
  have bl1: "unat (bitmap_len io1) \<ge> 1" "2 \<le> unat (disk_blocks io1)" using part_geo_less(1,2) [OF st(8)] by simp_all
  then have inv3: "pinv (?bl + 1) ?io3 s3"
    using st(8,10) cl(2) D by (simp add: part_inv_def part_geo_def part_cache_def with_map_def part_data_def)
  have ix3: "\<forall>i \<in> set [0..<unat (DATA_START io1)]. i < unat (bitmap_len ?io3) * (8 * psz) \<and> i < 2 ^ 64"
    using ds ub n(2) bitmap_covers [of psz "unat (block_count dev)"] bs st(6) bl1(1) by (auto simp: with_map_def)
  from mark_loop_ok [OF assms(1) inv3 ix3] obtain io4 s4 where mk: "mark_loop dev [0..<unat (DATA_START io1)] ?io3 s3 = Some (io4, s4)" "pinv (?bl + 1) io4 s4"
    "\<forall>b < length (cont s3). b = 0 \<or> unat (bitmap_len ?io3) < b \<longrightarrow> cont s4 ! b = cont s3 ! b"
    "\<forall>k < unat (bitmap_len ?io3) * (8 * psz). used_bit (8 * psz) (cont s4) k =
      (k \<in> set [0..<unat (DATA_START io1)] \<or> used_bit (8 * psz) (cont s3) k)"
    by blast
  obtain io5 where mk5: "mark_loop dev [0..<unat (DATA_START io1)] ?io2 s3 = Some (io5, s4)"
    using mk(1) unfolding mark_loop_with_map by auto
  have run: "partitioner_initialize alloc junk dev s = Some (True, s4)"
  proof -
    have "\<not> block_size dev < 512" using bs by (simp add: word_less_nat_alt)
    moreover obtain h1 h2 h3 where "memset a 0 0 psz = Some h1" "wr h1 0 PARTITION_MAGIC = Some h2"
      "pack_be64 (block_count dev) h2 8 = Some h3" "pack_be64 (block_size dev) h3 16 = Some ?h"
      using hd by (auto simp: bind_eq_Some_conv)
    ultimately show ?thesis using al(2) w(1) st(1) z cl(1) mk5 by (simp add: partitioner_initialize_def Let_def)
  qed
  have lc: "length (cont s3) = unat (block_count dev)" using contents [OF cl(2)] by blast
  have h4: "cont s4 ! 0 = ?h" using mk(3) lc b0 cl(3) st(3) c1 by (auto simp: BITMAP_START_def)
  have u4: "used_bit (8 * psz) (cont s4) k = (k < ?bl + 1)" if k: "k < ?bl * (8 * psz)" for k
  proof -
    have q: "k div (8 * psz) < ?bl" using k by (rule less_mult_imp_div_less)
    then have "cont s3 ! (k div (8 * psz) + 1) = ?z" using cl(3) n(2) ms by (auto simp: BITMAP_START_def)
    then have "\<not> used_bit (8 * psz) (cont s3) k" using bits_zeros [of "k mod (8 * psz)" psz] bs by (simp add: used_bit_def)
    then show ?thesis using mk(4) k st(6) ds by (auto simp: with_map_def)
  qed
  have fits: "?bl + 1 \<le> ?bl * (8 * psz)" using n(2) bitmap_covers [of psz "unat (block_count dev)"] bs by simp
  have "part_header dev (cont s4)" using bh bs n maps_blocks_for_0 [of psz] by (simp add: part_header_def Let_def h4)
  moreover have "disk_ok psz (unat (block_count dev)) ?bl (?bl + 1) 0 (cont s4)" using u4 fits by (simp add: disk_ok_def)
  ultimately have "part_formatted dev (cont s4)"
    using bh(3,6) maps_blocks_for_0 [of psz] bs by (simp add: part_formatted_def Let_def h4)
  moreover have "valid s4" using part_sizes(1) [OF mk(2)] .
  ultimately show thesis using that [OF run] h4 u4 by blast
qed

end

section \<open>Making the first partition\<close>

context block_device
begin

lemma pinv_mono:
  assumes "pinv D io s" and "D \<le> D'" and "D' \<le> unat (disk_blocks io)"
  shows "pinv D' io s"
  using assms by (auto simp: part_inv_def part_geo_def part_cache_def)

lemma header_read_inv:
  assumes rel and inv: "pinv D io s" and part: "part \<le> 60"
  obtains io' s' where "partitioner_get_part_size dev io s part = Some (entry (cont s ! 0) (part + 3), io', s')"
    "pinv D io' s'" "cont s' = cont s" "part_core io' = part_core io"
proof -
  note z = part_sizes [OF inv]
  have bs: "512 \<le> psz" and bc: "0 < unat (block_count dev)" using z(2,4,6,7,8) by (simp_all add: part_geo_def)
  obtain s' where r: "partitioner_get_part_size dev io s part =
      Some (entry (cont s ! 0) (part + 3), io\<lparr>bitmap_block := cont s ! 0, bitmap_block_which := 0\<rparr>, s')"
    "valid s'" "cont s' = cont s" "length (cont s ! 0) = psz"
    using header_read [OF assms(1) z(1) bc z(9) bs part] by blast
  have "pinv D (io\<lparr>bitmap_block := cont s ! 0, bitmap_block_which := 0\<rparr>) s'"
    using inv r(2-4) by (simp add: part_inv_def part_geo_def part_cache_def)
  with r show thesis by (intro that [OF r(1)]) (simp_all add: part_core_iff)
qed

lemma start_shift_ok:
  assumes rel
  shows "pinv D io s \<Longrightarrow> \<forall>i \<in> set is. i \<le> 60 \<and> entry (cont s ! 0) (i + 3) = 0 \<Longrightarrow>
    \<exists>io' s'. start_shift_loop dev is t io s = Some (t, io', s') \<and> pinv D io' s' \<and> cont s' = cont s \<and> part_core io' = part_core io"
proof (induction "is" arbitrary: io s)
  case (Cons i "is")
  have i: "i \<le> 60" using Cons.prems(2) by simp
  obtain io1 s1 where g: "partitioner_get_part_size dev io s i = Some (entry (cont s ! 0) (i + 3), io1, s1)"
    "pinv D io1 s1" "cont s1 = cont s" "part_core io1 = part_core io" by (rule header_read_inv [OF assms Cons.prems(1) i])
  have "\<exists>io' s'. start_shift_loop dev is t io1 s1 = Some (t, io', s') \<and> pinv D io' s' \<and> cont s' = cont s1 \<and> part_core io' = part_core io1"
    using Cons.IH [OF g(2)] Cons.prems(2) g(3) by simp
  then show ?case using g Cons.prems(2) by auto
qed simp

lemma clear_map_ok:
  assumes rel
  shows "pinv D io s \<Longrightarrow> \<forall>i \<in> set is. i < (D - 1 - unat (bitmap_len io)) * (psz div 8) \<and> i < 2 ^ 64 \<Longrightarrow>
    \<exists>io' s'. clear_map_loop dev is io s = Some (io', s') \<and> pinv D io' s' \<and> part_core io' = part_core io \<and>
      (\<forall>b < length (cont s). b \<le> unat (bitmap_len io) \<or> D \<le> b \<longrightarrow> cont s' ! b = cont s ! b) \<and>
      (\<forall>k \<in> set is. map_at (psz div 8) (unat (bitmap_len io)) (cont s') k = 0) \<and>
      (\<forall>k < (D - 1 - unat (bitmap_len io)) * (psz div 8). map_at (psz div 8) (unat (bitmap_len io)) (cont s) k = 0 \<longrightarrow>
        map_at (psz div 8) (unat (bitmap_len io)) (cont s') k = 0)"
proof (induction "is" arbitrary: io s)
  case (Cons i "is")
  have i: "unat (of_nat i :: u64) = i" using Cons.prems(2) by (simp add: unat_of_nat take_bit_nat_eq_self_iff)
  then have "unat (of_nat i :: u64) < (D - 1 - unat (bitmap_len io)) * (psz div 8)" using Cons.prems(2) by simp
  from set_maploc_ok [OF assms Cons.prems(1) this, of 0] obtain io1 s1 where
    m: "partitioner_block_set_maploc dev io s (of_nat i) 0 = Some (True, io1, s1)" "pinv D io1 s1" "part_core io1 = part_core io"
    "remapped (psz div 8) (unat (bitmap_len io)) D (cont s) i 0 (cont s1)" using i by metis
  have bl: "bitmap_len io1 = bitmap_len io" using m(3) by (rule part_core_same)
  have ix: "\<forall>i \<in> set is. i < (D - 1 - unat (bitmap_len io1)) * (psz div 8) \<and> i < 2 ^ 64" using Cons.prems(2) bl by simp
  from Cons.IH [OF m(2) ix, unfolded bl] obtain io2 s2 where
    r: "clear_map_loop dev is io1 s1 = Some (io2, s2)" "pinv D io2 s2" "part_core io2 = part_core io1"
    "\<forall>b < length (cont s1). b \<le> unat (bitmap_len io) \<or> D \<le> b \<longrightarrow> cont s2 ! b = cont s1 ! b"
    "\<forall>k \<in> set is. map_at (psz div 8) (unat (bitmap_len io)) (cont s2) k = 0"
    "\<forall>k < (D - 1 - unat (bitmap_len io)) * (psz div 8). map_at (psz div 8) (unat (bitmap_len io)) (cont s1) k = 0 \<longrightarrow>
        map_at (psz div 8) (unat (bitmap_len io)) (cont s2) k = 0" by blast
  have "map_at (psz div 8) (unat (bitmap_len io)) (cont s1) k = (if k = i then 0 else map_at (psz div 8) (unat (bitmap_len io)) (cont s) k)"
    if "k < (D - 1 - unat (bitmap_len io)) * (psz div 8)" for k
    using m(4) that by (simp add: remapped_def)
  moreover have "cont s1 ! b = cont s ! b" if "b < length (cont s)" "b \<le> unat (bitmap_len io) \<or> D \<le> b" for b
    using m(4) that unfolding remapped_def by blast
  moreover have "length (cont s1) = length (cont s)" using m(4) by (simp add: remapped_def)
  ultimately show ?case using m(1-3) r Cons.prems(2) by (intro exI [of _ io2] exI [of _ s2]) auto
qed simp

end

text \<open>The header with one size changed.\<close>

lemma resized_header:
  fixes n :: u64
  assumes "512 \<le> length h" and "part \<le> 60" and "\<forall>i. 3 \<le> i \<and> i < 64 \<longrightarrow> entry h i = 0"
  defines "h' \<equiv> patch ((part + 3) * 8) (be64_bytes n) h"
  shows "length h' = length h" "take 8 h' = take 8 h" "entry h' 1 = entry h 1" "entry h' 2 = entry h 2"
    "entry h' (part + 3) = n" "header_total h' = n"
proof -
  have p: "h' = patch (8 * (part + 3)) (be64_bytes n) h" by (simp only: h'_def mult.commute)
  have fit: "8 * (part + 3) + 8 \<le> length h" using assms(1,2) by simp
  then show "length h' = length h" unfolding p by simp
  show "take 8 h' = take 8 h" unfolding p using fit by (simp add: patch_def)
  have e: "entry h' i = (if i = part + 3 then n else entry h i)" if "i < 64" for i
    unfolding p using assms(1) that fit by (intro entry_patch) simp_all
  show "entry h' 1 = entry h 1" "entry h' 2 = entry h 2" "entry h' (part + 3) = n" using assms(2) by (simp_all add: e)
  have s: "[3..<64] = [3..<part + 3] @ (part + 3) # [part + 4..<64]"
  proof -
    have "[3..<64] = [3..<part + 3] @ [part + 3..<64]" using upt_add_eq_append [of 3 "part + 3" "61 - part"] assms(2) by simp
    also have "[part + 3..<64] = (part + 3) # [part + 4..<64]" using assms(2) by (subst upt_conv_Cons) (simp_all add: add.commute)
    finally show ?thesis .
  qed
  have z: "sum_list (map (entry h') [a..<b]) = 0" if "3 \<le> a" "b \<le> 64" "b \<le> part + 3 \<or> part + 4 \<le> a" for a b
  proof -
    have "map (entry h') [a..<b] = map (\<lambda>_. 0) [a..<b]"
    proof (rule map_cong [OF refl])
      fix i assume "i \<in> set [a..<b]"
      then have "a \<le> i" "i < b" by (simp_all only: set_upt atLeastLessThan_iff)
      then show "entry h' i = 0" using that assms(3) e [of i] by auto
    qed
    then show ?thesis by (simp only: sum_list_0)
  qed
  show "header_total h' = n"
    unfolding header_total_def s map_append list.map sum_list.append sum_list.Cons
    using z [of 3 "part + 3"] z [of "part + 4" 64] assms(2) e [of "part + 3"] by simp
qed

context block_device
begin

text \<open>The branch that enlarges, on a device with no partition.\<close>

lemma enlarge_ok:
  assumes rel and inv: "pinv (part_data io) io s" and f: "part_formatted dev (cont s)"
    and io: "disk_blocks io = entry (cont s ! 0) 1" "mapped_total_size io = 0" "maps_len io = 0"
      "unat (bitmap_len io) = bitmap_blocks_for psz (unat (disk_blocks io))" "map_block_which io = 0"
    and blank: "\<forall>i. 3 \<le> i \<and> i < 64 \<longrightarrow> entry (cont s ! 0) i = 0"
    and part: "part \<le> 60" and buf: "length buf = psz" and n: "unat n + psz div 8 < 2 ^ 64"
    and room: "unat (bitmap_len io) + 1 + maps_blocks_for psz (unat n) < unat (disk_blocks io)"
  obtains s' where "enlarge dev io s buf part 0 n = Some (True, s')" "valid s'" "part_formatted dev (cont s')"
    "entry (cont s' ! 0) (part + 3) = n" "header_total (cont s' ! 0) = n"
    "\<forall>j < unat n. map_at (psz div 8) (unat (bitmap_len io)) (cont s') j = 0" "entry (cont s' ! 0) 1 = entry (cont s ! 0) 1"
proof -
  let ?bl = "unat (bitmap_len io)" and ?ml = "maps_blocks_for psz (unat n)" and ?M = "psz div 8"
  let ?D = "?bl + 1 + ?ml"
  note z = part_sizes [OF inv] and g = part_geo_less [OF part_sizes(2) [OF inv]]
  have bs: "512 \<le> psz" and mpm: "unat (maps_blocks_per_map io) = ?M" using z(2) by (simp_all add: part_geo_def)
  have D0: "part_data io = ?bl + 1" using io(3) by (simp add: part_data_def)
  have inv': "pinv ?D io s" by (rule pinv_mono [OF inv]) (use room D0 in simp_all)
  have cover: "unat n \<le> ?ml * ?M" using maps_cover [of psz "unat n"] bs by simp
  have bnd: "unat (disk_blocks io) < 2 ^ 64" by (rule unat_u64_bound)
  have ms: "unat (MAPS_START io) = ?bl + 1" using room bnd by (simp add: MAPS_START_def BITMAP_START_def unat_add_u64)
  have dv: "c_div x (maps_blocks_per_map io) = Some (x div maps_blocks_per_map io)" for x using g(6) by simp
  have rl: "remap_loop dev a b [0..<unat (mapped_total_size io)] io s buf = Some (True, io, s, buf)" for a b
    using io(2) by simp
  have "\<forall>i \<in> set [0..<part]. i \<le> 60 \<and> entry (cont s ! 0) (i + 3) = 0" using part blank by auto
  from start_shift_ok [OF assms(1) inv' this, of 0] obtain io1 s1 where
    a: "start_shift_loop dev [0..<part] 0 io s = Some (0, io1, s1)" "pinv ?D io1 s1" "cont s1 = cont s" "part_core io1 = part_core io"
    by blast
  note e1 = part_core_same [OF a(4)]
  have "\<forall>i \<in> set [0..<unat n]. i < (?D - 1 - unat (bitmap_len io1)) * ?M \<and> i < 2 ^ 64"
    using cover unat_u64_bound [of n] by (auto simp: e1)
  from clear_map_ok [OF assms(1) a(2) this] obtain io2 s2 where
    b: "clear_map_loop dev [0..<unat n] io1 s1 = Some (io2, s2)" "pinv ?D io2 s2" "part_core io2 = part_core io1"
    "\<forall>b < length (cont s1). b \<le> unat (bitmap_len io1) \<or> ?D \<le> b \<longrightarrow> cont s2 ! b = cont s1 ! b"
    "\<forall>k \<in> set [0..<unat n]. map_at ?M (unat (bitmap_len io1)) (cont s2) k = 0" by blast
  have core2: "part_core io2 = part_core io" using a(4) b(3) by simp
  note e2 = part_core_same [OF core2]
  have mq: "unat ((n + maps_blocks_per_map io - 1) div maps_blocks_per_map io) = ?ml"
    using ceil_word [of n "maps_blocks_per_map io"] n g(7) mpm by (simp add: maps_blocks_for_def)
  have me: "unat (MAPS_START io + (n + maps_blocks_per_map io - 1) div maps_blocks_per_map io) = ?D"
    using ms mq room bnd by (subst unat_add_u64) simp_all
  have "\<forall>i \<in> set [?bl + 1..<Suc ?D]. i < unat (bitmap_len io2) * (8 * psz) \<and> i < 2 ^ 64"
    using room bnd z(2) e2 by (auto simp: part_geo_def)
  from mark_loop_ok [OF assms(1) b(2) this] obtain io3 s3 where
    c: "mark_loop dev [?bl + 1..<Suc ?D] io2 s2 = Some (io3, s3)" "pinv ?D io3 s3" "part_core io3 = part_core io2"
    "\<forall>b < length (cont s2). b = 0 \<or> unat (bitmap_len io2) < b \<longrightarrow> cont s3 ! b = cont s2 ! b"
    "\<forall>k < unat (bitmap_len io2) * (8 * psz). used_bit (8 * psz) (cont s3) k =
      (k \<in> set [?bl + 1..<Suc ?D] \<or> used_bit (8 * psz) (cont s2) k)" by blast
  have lens: "length (cont s) = unat (block_count dev)" "length (cont s2) = unat (block_count dev)" "length (cont s3) = unat (block_count dev)"
    using z(4) part_sizes(4) [OF b(2)] part_sizes(4) [OF c(2)] by simp_all
  have b0: "0 < unat (block_count dev)" using z(6,7,8) lens(1) by simp
  have h3: "cont s3 ! 0 = cont s ! 0" using c(4) b(4) a(3) lens b0 by auto
  have lh: "length (cont s ! 0) = psz" using part_block_length [OF z(1) b0] .
  let ?h = "patch ((part + 3) * 8) (be64_bytes n) (cont s ! 0)"
  note rh = resized_header [of "cont s ! 0" part n, unfolded lh, OF bs part blank]
  obtain s4 where r: "read_block dev s3 0 buf = Some (True, cont s ! 0, s4)" "valid s4" "cont s4 = cont s3"
    using part_read [OF assms(1) part_sizes(1) [OF c(2)], of 0 buf] b0 buf h3 by auto
  have pk: "pack_be64 n (cont s ! 0) ((part + 3) * 8) = Some ?h" using lh bs part by (intro pack_Some(1)) simp
  obtain s5 where w: "write_block dev s4 0 ?h = Some (True, s5)" "valid s5" "cont s5 = (cont s4)[0 := ?h]"
    using part_write [OF assms(1) r(2), of 0 ?h] b0 rh(1) by auto
  have c5: "cont s5 ! 0 = ?h" "\<And>b. b \<noteq> 0 \<Longrightarrow> cont s5 ! b = cont s3 ! b" using w(3) r(3) lens b0 by simp_all
  have upt: "[unat (0 :: u64)..<unat ((0 :: u64) + n)] = [0..<unat n]" by simp
  have run: "enlarge dev io s buf part 0 n = Some (True, s5)"
    using rl a(1) b(1) c(1) r(1) pk w(1) ms me e1 e2 io(2) starts_core [OF a(4)] starts_core [OF core2] core2 a(4)
    by (simp add: enlarge_def dv Let_def part_core_iff)
  have map5: "map_at ?M ?bl (cont s5) j = 0" if j: "j < unat n" for j
  proof -
    have "?bl + 1 + j div ?M < ?D" using less_mult_imp_div_less [of j ?ml ?M] j cover by simp
    then have "cont s5 ! (?bl + 1 + j div ?M) = cont s2 ! (?bl + 1 + j div ?M)"
      using c5(2) c(4) e2 lens room z(8) by auto
    then have "map_at ?M ?bl (cont s5) j = map_at ?M ?bl (cont s2) j" by (simp add: map_at_def)
    then show ?thesis using b(5) j e1 by simp
  qed
  have used5: "used_bit (8 * psz) (cont s5) k" if k: "k < ?D" for k
  proof -
    have kb: "k < ?bl * (8 * psz)" using k room z(2) by (simp add: part_geo_def)
    have "used_bit (8 * psz) (cont s5) k = used_bit (8 * psz) (cont s3) k" by (rule used_bit_frame [OF _ kb]) (simp add: c5(2))
    moreover have "used_bit (8 * psz) (cont s2) k = used_bit (8 * psz) (cont s) k"
      by (rule used_bit_frame [OF _ kb]) (use b(4) a(3) e1 lens z(6-8) in auto)
    moreover have "used_bit (8 * psz) (cont s) k" if "k < ?bl + 1"
      using f that io(1,4) by (simp add: part_formatted_def disk_ok_def Let_def)
    ultimately show ?thesis using c(5) kb k e2 by auto
  qed
  have hd: "part_header dev (cont s)" using f by (simp add: part_formatted_def)
  have "part_header dev (cont s5)"
    using hd rh room n io(1,4) by (simp add: part_header_def Let_def c5(1))
  moreover have "disk_ok psz (unat (disk_blocks io)) ?bl ?D (unat n) (cont s5)"
    using used5 map5 by (simp add: disk_ok_def)
  ultimately have "part_formatted dev (cont s5)"
    using rh io(1,4) by (simp add: part_formatted_def Let_def c5(1))
  then show thesis using that [OF run w(2)] rh map5 c5(1) by simp
qed

lemma resize_ok:
  assumes rel and v: "valid s" and f: "part_formatted dev (cont s)" and al: "alloc_ok alloc" "alloc psz = Some a"
    and blank: "\<forall>i. 3 \<le> i \<and> i < 64 \<longrightarrow> entry (cont s ! 0) i = 0" and total: "header_total (cont s ! 0) = 0"
    and part: "part \<le> 60" and n: "n \<noteq> 0" "unat n + psz div 8 < 2 ^ 64"
    and room: "bitmap_blocks_for psz (unat (entry (cont s ! 0) 1)) + 1 + maps_blocks_for psz (unat n) < unat (entry (cont s ! 0) 1)"
  obtains s' where "partitioner_set_part_size alloc junk jc dev s (int part) n = Some (True, s')" "valid s'"
    "part_formatted dev (cont s')" "entry (cont s' ! 0) (part + 3) = n" "header_total (cont s' ! 0) = n"
    "formatted_disk dev (cont s') = replicate (unat n) (replicate psz 0)"
proof -
  have la: "length a = psz" by (rule alloc_okD [OF al])
  have hd: "part_header dev (cont s)" using f by (simp add: part_formatted_def)
  have bs: "512 \<le> psz" using hd by (auto simp: part_header_def Let_def)
  let ?io0 = "junk\<lparr>bitmap_block := a, map_block := a, bitmap_block_which := 0, map_block_which := 0\<rparr>"
  have l0: "length (bitmap_block ?io0) = psz" using la by simp
  obtain io1 s1 where st: "partitioner_setup_io dev ?io0 s = Some (True, io1, s1)" "valid s1" "cont s1 = cont s"
    "disk_blocks io1 = entry (cont s ! 0) 1" "mapped_total_size io1 = header_total (cont s ! 0)"
    "unat (bitmap_len io1) = bitmap_blocks_for psz (unat (disk_blocks io1))"
    "unat (maps_len io1) = maps_blocks_for psz (unat (mapped_total_size io1))"
    "part_geo dev io1 (part_data io1)"
    "length (map_block ?io0) = psz \<and> map_block_which ?io0 = 0 \<longrightarrow> part_cache dev io1 (part_data io1) (cont s)"
    "map_block_which io1 = map_block_which ?io0" using setup_ok [OF assms(1) v hd l0] by blast
  let ?io = "io1\<lparr>mapper_partition_offset := mapper_partition_offset io1, open_partition := -1\<rparr>"
  have "part_cache dev io1 (part_data io1) (cont s)" using st(9) la by simp
  then have inv: "pinv (part_data ?io) ?io s1"
    using st(2,3,8) by (simp add: part_inv_def part_geo_def part_cache_def part_data_def)
  obtain io2 s2 where g: "partitioner_get_part_size dev ?io s1 part = Some (entry (cont s1 ! 0) (part + 3), io2, s2)"
    "pinv (part_data ?io) io2 s2" "cont s2 = cont s1" "part_core io2 = part_core ?io"
    by (rule header_read_inv [OF assms(1) inv part])
  note e = part_core_same [OF g(4)]
  have mw: "map_block_which io2 = 0"
  proof -
    have "map_block_which io2 = map_block_which ?io"
      using g(1) by (auto simp: partitioner_get_part_size_def bind_eq_Some_conv Let_def)
    then show ?thesis using st(10) by simp
  qed
  have old: "entry (cont s1 ! 0) (part + 3) = 0" using blank part st(3) by simp
  have c2: "cont s2 = cont s" using g(3) st(3) by simp
  have "maps_len io2 = 0"
  proof -
    have "unat (maps_len io2) = 0" using e(4) st(5,7) total maps_blocks_for_0 [of psz] bs by simp
    then show ?thesis by (simp add: unat_eq_zero)
  qed
  moreover have "pinv (part_data io2) io2 s2" using g(2) e(1) by simp
  moreover have "disk_blocks io2 = entry (cont s2 ! 0) 1" "mapped_total_size io2 = 0"
    "unat (bitmap_len io2) = bitmap_blocks_for psz (unat (disk_blocks io2))"
    using e st(4-6) total c2 by simp_all
  moreover have "unat (bitmap_len io2) + 1 + maps_blocks_for psz (unat n) < unat (disk_blocks io2)"
    using room e st(4,6) by simp
  ultimately obtain s3 where en: "enlarge dev io2 s2 a part 0 n = Some (True, s3)" "valid s3" "part_formatted dev (cont s3)"
    "entry (cont s3 ! 0) (part + 3) = n" "header_total (cont s3 ! 0) = n"
    "\<forall>j < unat n. map_at (psz div 8) (unat (bitmap_len io2)) (cont s3) j = 0" "entry (cont s3 ! 0) 1 = entry (cont s2 ! 0) 1"
    using enlarge_ok [OF assms(1), of io2 s2 part a n] f blank part la n(2) mw c2 by metis
  have "\<not> block_size dev < 512" using bs by (simp add: word_less_nat_alt)
  then have op: "partitioner_open alloc junk jc dev s (-1) =
      Some (Some (part_dev dev (-1) jc, \<lparr>generic_block_buffer = a, obj_m = ?io\<rparr>), s1)"
    using al(2) st(1) by (simp add: partitioner_open_def Let_def MAX_PARTITION_NUMBER_def)
  have "(0 :: u64) < n" using n(1) by (simp add: word_neq_0_conv)
  then have "partitioner_set_part_size alloc junk jc dev s (int part) n = Some (True, s3)"
    using \<open>\<not> block_size dev < 512\<close> part op al(2) g(1) old en(1) n(1)
    by (simp add: partitioner_set_part_size_def MAX_PARTITION_NUMBER_def)
  moreover have "formatted_disk dev (cont s3) = replicate (unat n) (replicate psz 0)"
  proof (rule nth_equalityI)
    fix j assume "j < length (formatted_disk dev (cont s3))"
    then have j: "j < unat n" using en(5) by simp
    have "bitmap_blocks_for psz (unat (entry (cont s3 ! 0) 1)) = unat (bitmap_len io2)" using en(7) e st(4,6) c2 by simp
    then show "formatted_disk dev (cont s3) ! j = replicate (unat n) (replicate psz 0) ! j"
      using en(5,6) j by (simp add: formatted_disk_def nth_part_disk)
  qed (use en(5) in simp)
  ultimately show thesis using that en(2-5) by blast
qed

end

section \<open>A full device\<close>

text \<open>Moving a mapped block when no block is free: the scan returns 0, which the code does not test.\<close>

context block_device
begin

lemma remap_full:
  assumes rel and m: "pmounted io s" and i: "unat i < unat (mapped_total_size io)"
    and ml: "map_at (psz div 8) (unat (bitmap_len io)) (cont s) (unat i) = maploc" "maploc \<noteq> 0"
      "lo \<le> maploc" "maploc < hi"
    and full: "part_full dev io (cont s)" and buf: "length buf = psz"
  shows "\<exists>io' s' buf'. remap_step dev lo hi i io s buf = Some (True, io', s', buf') \<and>
    cont s' ! 0 = cont s ! unat maploc \<and> map_at (psz div 8) (unat (bitmap_len io)) (cont s') (unat i) = 0"
proof -
  let ?D = "part_data io" and ?bl = "unat (bitmap_len io)"
  note f = mounted_facts [OF m]
  note z = part_sizes [OF f(1)]
  have dk: "?D \<le> unat maploc" "unat maploc < unat (disk_blocks io)" using disk_okD(1,2) [OF f(6) i] ml(1,2) by simp_all
  obtain io1 s1 where a: "partitioner_block_maploc dev io s i = Some (maploc, io1, s1)" "pmounted io1 s1" "part_core io1 = part_core io"
    "cont s1 = cont s" using mounted_maploc [OF assms(1) m i] ml(1) by metis
  note e1 = part_core_same [OF a(3)]
  have one: "maploc \<noteq> 1" using map_value_not_one [OF m i] ml(1) by simp
  obtain r io2 s2 where b: "partitioner_scan_free_block dev io1 s1 = Some (r, io2, s2)" "pinv (part_data io1) io2 s2" "cont s2 = cont s1"
    "part_core io2 = part_core io1"
    "scan_result (unat (disk_blocks io1)) (unat (free_scan_from io1)) (used_bit (8 * psz) (cont s1)) (unat r)"
    by (rule scan_ok [OF assms(1) mounted_facts(1) [OF a(2)]])
  have r0: "r = 0"
  proof (rule ccontr)
    assume "r \<noteq> 0"
    then have "unat r < unat (disk_blocks io)" "\<not> used_bit (8 * psz) (cont s) (unat r)" "1 \<le> unat r"
      using b(5) e1 a(4) by (simp_all add: scan_result_def unat_eq_zero Suc_le_eq unat_gt_0)
    then show False using full by (simp add: part_full_def)
  qed
  have core2: "part_core io2 = part_core io" using a(3) b(4) by simp
  note e2 = part_core_same [OF core2]
  have inv2: "pinv ?D io2 s2" using b(2) e1 by simp
  have c2: "cont s2 = cont s" using a(4) b(3) by simp
  have mb: "unat maploc < unat (block_count dev)" using dk(2) z(4,8) by simp
  obtain s3 where rd: "read_block dev s2 maploc buf = Some (True, cont s ! unat maploc, s3)" "valid s3" "cont s3 = cont s"
    using part_read [OF assms(1) part_sizes(1) [OF inv2] mb buf] c2 by auto
  have lm: "length (cont s ! unat maploc) = psz" using part_block_length [OF z(1) mb] .
  have b0: "unat (0 :: u64) < unat (block_count dev)" using mb by simp
  obtain s4 where w: "write_block dev s3 0 (cont s ! unat maploc) = Some (True, s4)" "valid s4" "cont s4 = (cont s)[0 := cont s ! unat maploc]"
    using part_write [OF assms(1) rd(2) b0, of "cont s ! unat maploc"] lm rd(3) by auto
  have inv4: "pinv ?D io2 s4"
  proof -
    have "part_cache dev io2 ?D (cont s4)"
      by (rule part_cache_frame [OF part_sizes(3) [OF inv2] _ part_sizes(2) [OF inv2]]) (simp add: w(3) c2)
    then show ?thesis using inv2 w(2) by (simp add: part_inv_def)
  qed
  have i0: "unat (0 :: u64) < unat (bitmap_len io2) * (8 * psz)" "unat maploc < ?bl * (8 * psz)"
    using dk(2) f(3) e2 part_geo_less(1,4) [OF z(2)] by (simp_all add: Suc_le_eq)
  obtain io5 s5 where mk: "partitioner_mark_block_as dev io2 s4 0 True = Some (True, io5, s5)" "pinv ?D io5 s5" "part_core io5 = part_core io2"
    "marked (8 * psz) (unat (bitmap_len io2)) (cont s4) (unat (0 :: u64)) True (cont s5)" by (rule mark_ok [OF assms(1) inv4 i0(1)])
  have core5: "part_core io5 = part_core io" using mk(3) core2 by simp
  note e5 = part_core_same [OF core5]
  have i5: "unat i < (?D - 1 - unat (bitmap_len io5)) * (psz div 8)" using i f(2) e5 by simp
  obtain io6 s6 where sm: "partitioner_block_set_maploc dev io5 s5 i 0 = Some (True, io6, s6)" "pinv ?D io6 s6" "part_core io6 = part_core io5"
    "remapped (psz div 8) (unat (bitmap_len io5)) ?D (cont s5) (unat i) 0 (cont s6)" by (rule set_maploc_ok [OF assms(1) mk(2) i5])
  have core6: "part_core io6 = part_core io" using sm(3) core5 by simp
  note e6 = part_core_same [OF core6]
  have i6: "unat maploc < unat (bitmap_len io6) * (8 * psz)" using i0(2) e6 by simp
  obtain io7 s7 where cl: "partitioner_mark_block_as dev io6 s6 maploc False = Some (True, io7, s7)" "pinv ?D io7 s7"
    "marked (8 * psz) (unat (bitmap_len io6)) (cont s6) (unat maploc) False (cont s7)" by (rule mark_ok [OF assms(1) sm(2) i6])
  have run: "remap_step dev lo hi i io s buf = Some (True, io7, s7, cont s ! unat maploc)"
    using a(1) one ml(2-4) b(1) r0 rd(1) w(1) mk(1) sm(1) cl(1) by (simp add: remap_step_def)
  have lens: "length (cont s) = unat (block_count dev)" "length (cont s4) = unat (block_count dev)" "length (cont s5) = unat (block_count dev)" "length (cont s6) = unat (block_count dev)"
    using z(4) part_sizes(4) [OF inv4] part_sizes(4) [OF mk(2)] part_sizes(4) [OF sm(2)] by simp_all
  have "cont s7 ! 0 = cont s6 ! 0" "cont s6 ! 0 = cont s5 ! 0" "cont s5 ! 0 = cont s4 ! 0"
    using cl(3) sm(4) mk(4) lens b0 by (auto simp: marked_def remapped_def)
  moreover have "cont s4 ! 0 = cont s ! unat maploc" using w(3) lens b0 by simp
  moreover have "map_at (psz div 8) ?bl (cont s7) (unat i) = map_at (psz div 8) ?bl (cont s6) (unat i)"
    using cl(3) lens e6 z(5) i f(2) by (intro map_at_frame [of ?bl ?D]) (auto simp: marked_def)
  moreover have "map_at (psz div 8) ?bl (cont s6) (unat i) = 0" using sm(4) i5 e5 by (simp add: remapped_def)
  ultimately show ?thesis using run by auto
qed

end

end
