(* ===== verification/PartProps.thy ===== *)
theory PartProps
  imports PartCreate
begin

text \<open>
  The properties of the partitioner: the helpers keep the struct well formed, the scan ends, an
  open partition keeps the contract of its block operations and writes succeed while a block is
  free, and a device that was initialised and given a first partition opens as zeros; then the
  ways in which the code goes wrong: the offset of every partition but the first, and moving a
  block when the device is full.
\<close>

text \<open>The device of the witnesses: eight blocks of 512 bytes.\<close>

abbreviation small_disk :: "unit mem_state bdev" where
  "small_disk \<equiv> malloc_dev 512 8"

definition small_blank :: "unit mem_state" where
  "small_blank = ram_of 512 (replicate 8 (replicate 512 0))"

lemma small_disk_simps [simp]: "block_size small_disk = 512" "block_count small_disk = 8"
  by (simp_all add: malloc_dev_def)

lemma small_blank_valid: "mem_valid 512 8 small_blank"
  unfolding small_blank_def by (rule ram_of_valid) simp_all

lemma small_alloc: "calloc_alloc (unat (block_size small_disk)) = Some (replicate 512 0)"
  by (simp add: calloc_alloc_def)

lemma small_sizes: "bitmap_blocks_for 512 8 = 1" "maps_blocks_for 512 4 = 1"
  by (simp_all add: bitmap_blocks_for_def maps_blocks_for_def)

text \<open>That device with one partition of four blocks: \<open>m\<close> is the bitmap of its eight blocks, \<open>v\<close>
  the place of the partition's first block.\<close>

definition small_header :: bytes where
  "small_header = PARTITION_MAGIC @ be64_bytes 8 @ be64_bytes 512 @ be64_bytes 4 @ replicate 480 0"

definition small_blocks :: "u8 \<Rightarrow> u64 \<Rightarrow> bytes list" where
  "small_blocks m v = [small_header, m # replicate 511 0, be64_bytes v @ replicate 504 0] @ replicate 5 (replicate 512 7)"

definition small_part :: "u8 \<Rightarrow> u64 \<Rightarrow> unit mem_state" where
  "small_part m v = ram_of 512 (small_blocks m v)"

definition small_io :: part_io where
  "small_io = \<lparr>bitmap_blocks_per_map = 4096, maps_blocks_per_map = 64, disk_blocks = 8, blocks_used = 0, bitmap_len = 1,
    maps_len = 1, mapped_total_size = 4, free_scan_from = 1, bitmap_block = replicate 512 0, bitmap_block_which = 0,
    map_block = replicate 512 0, map_block_which = 0, open_partition = 0, mapper_partition_offset = 0\<rparr>"

lemma small_io_simps [simp]:
  "disk_blocks small_io = 8" "bitmap_len small_io = 1" "maps_len small_io = 1" "mapped_total_size small_io = 4"
  "mapper_partition_offset small_io = 0" "part_data small_io = 3"
  by (simp_all add: small_io_def part_data_def)

lemma small_part_valid: "mem_valid 512 8 (small_part m v)" "mem_cont 512 8 (small_part m v) = small_blocks m v"
  unfolding small_part_def by (rule ram_of_valid; simp add: small_blocks_def blocked_def small_header_def)+

lemma small_view:
  "j < 64 \<Longrightarrow> map_at 64 1 (small_blocks m v) j = (if j = 0 then v else 0)"
  "b < 8 \<Longrightarrow> used_bit 4096 (small_blocks m v) b = bit m b"
proof -
  assume j: "j < 64"
  have "entry (be64_bytes v @ replicate 504 0) j = (if j = 0 then v else 0)"
    using j by (cases j) (simp_all add: entry_def min_def)
  then show "map_at 64 1 (small_blocks m v) j = (if j = 0 then v else 0)"
    using j by (simp add: map_at_def small_blocks_def numeral_2_eq_2)
next
  assume "b < 8"
  then show "used_bit 4096 (small_blocks m v) b = bit m b"
    by (simp add: used_bit_def small_blocks_def bits_def)
qed

lemma small_mounted:
  assumes "bit m 0" "bit m 1" "bit m 2" and "v \<noteq> 0 \<Longrightarrow> 3 \<le> unat v \<and> unat v < 8 \<and> bit m (unat v)"
  shows "part_mounted small_disk (mem_valid 512 8) (mem_cont 512 8) small_io (small_part m v)"
proof -
  have b: "b = 0 \<or> b = 1 \<or> b = 2" if "b < 3" for b :: nat using that by linarith
  have "disk_ok 512 8 1 3 4 (small_blocks m v)"
    using assms b by (auto simp: disk_ok_def small_view [unfolded One_nat_def] split: if_splits)
  moreover have "part_geo small_disk small_io 3" "part_cache small_disk small_io 3 (small_blocks m v)"
    by (simp_all add: part_geo_def part_cache_def small_io_def)
  ultimately show ?thesis by (simp add: part_mounted_def part_inv_def small_part_valid)
qed

lemma small_small_valid:
  assumes "part_mounted small_disk (mem_valid 512 8) (mem_cont 512 8) small_io s"
  shows "part_valid small_disk 4 (mem_valid 512 8) (mem_cont 512 8) (\<lparr>generic_block_buffer = replicate 512 0, obj_m = small_io\<rparr>, s)"
  using assms by (simp add: part_valid_def small_io_def)

section \<open>The helpers\<close>

text \<open>C25: The helpers keep the struct well typed over a reliable device: none of them dies, the two
  cached blocks keep the size of a block, each is empty or equal to the block it is said to be,
  which lies in the bitmap or in the map, the scan position stays inside the device, and the
  geometry fields do not change.\<close>

theorem partitioner_helpers_keep_struct:
  assumes "block_device base valid cont True" and "part_inv base valid cont D io s"
    and "unat k < unat (bitmap_len io) * (8 * unat (block_size base))"
    and "unat j < (D - 1 - unat (bitmap_len io)) * (unat (block_size base) div 8)"
  shows "(\<exists>io' s'. partitioner_mark_block_as base io s k u = Some (True, io', s') \<and>
      part_inv base valid cont D io' s' \<and> part_core io' = part_core io) \<and>
    (\<exists>v io' s'. partitioner_block_maploc base io s j = Some (v, io', s') \<and>
      part_inv base valid cont D io' s' \<and> part_core io' = part_core io) \<and>
    (\<exists>io' s'. partitioner_block_set_maploc base io s j v = Some (True, io', s') \<and>
      part_inv base valid cont D io' s' \<and> part_core io' = part_core io) \<and>
    (\<exists>r io' s'. partitioner_scan_free_block base io s = Some (r, io', s') \<and>
      part_inv base valid cont D io' s' \<and> part_core io' = part_core io)"
proof -
  obtain io1 s1 where 1: "partitioner_mark_block_as base io s k u = Some (True, io1, s1)"
    "part_inv base valid cont D io1 s1" "part_core io1 = part_core io"
    by (rule block_device.mark_ok [OF assms(1) TrueI assms(2,3)])
  obtain io2 s2 where 2: "partitioner_block_maploc base io s j = Some (map_at (unat (block_size base) div 8)
      (unat (bitmap_len io)) (cont s) (unat j), io2, s2)" "part_inv base valid cont D io2 s2" "part_core io2 = part_core io"
    by (rule block_device.maploc_ok [OF assms(1) TrueI assms(2,4)])
  obtain io3 s3 where 3: "partitioner_block_set_maploc base io s j v = Some (True, io3, s3)"
    "part_inv base valid cont D io3 s3" "part_core io3 = part_core io"
    by (rule block_device.set_maploc_ok [OF assms(1) TrueI assms(2,4)])
  obtain r io4 s4 where 4: "partitioner_scan_free_block base io s = Some (r, io4, s4)"
    "part_inv base valid cont D io4 s4" "part_core io4 = part_core io"
    by (rule block_device.scan_ok [OF assms(1) TrueI assms(2)])
  from 1 2 3 4 show ?thesis by blast
qed

theorem partitioner_helpers_keep_struct_witness:
  "\<exists>io' s'. partitioner_mark_block_as small_disk small_io (small_part 7 0) 5 True = Some (True, io', s') \<and>
    part_inv small_disk (mem_valid 512 8) (mem_cont 512 8) 3 io' s'"
proof -
  have "part_inv small_disk (mem_valid 512 8) (mem_cont 512 8) 3 small_io (small_part 7 0)"
    using small_mounted [of 7 0] by (simp add: part_mounted_def)
  from partitioner_helpers_keep_struct [OF malloc.block_device_axioms this, of 5 0 True 0] show ?thesis
    by simp blast
qed

text \<open>C26: The scan for a free block always ends, although its loop has no bound: it returns the
  first free block from where the last scan stopped, in cyclic order, and returns 0 exactly when
  every block is in use; it changes nothing on the device.\<close>

theorem partitioner_scan_ends:
  assumes "block_device base valid cont True" and "part_inv base valid cont D io s"
  shows "\<exists>r io' s'. partitioner_scan_free_block base io s = Some (r, io', s') \<and> cont s' = cont s \<and>
    (r = 0 \<longleftrightarrow> part_full base io (cont s)) \<and>
    (r \<noteq> 0 \<longrightarrow> unat r < unat (disk_blocks io) \<and> \<not> used_bit (8 * unat (block_size base)) (cont s) (unat r) \<and>
      (\<forall>b. passed (unat (disk_blocks io)) (unat (free_scan_from io)) (unat r) b \<longrightarrow>
        used_bit (8 * unat (block_size base)) (cont s) b))"
proof -
  obtain r io' s' where r: "partitioner_scan_free_block base io s = Some (r, io', s')" "cont s' = cont s"
    "scan_result (unat (disk_blocks io)) (unat (free_scan_from io)) (used_bit (8 * unat (block_size base)) (cont s)) (unat r)"
    by (rule block_device.scan_ok [OF assms(1) TrueI assms(2)])
  have "r = 0 \<longleftrightarrow> part_full base io (cont s)"
  proof (cases "r = 0")
    case True
    then show ?thesis using r(3) by (simp add: scan_result_def part_full_def)
  next
    case False
    then have "1 \<le> unat r" by (simp add: unat_gt_0 Suc_le_eq)
    with False r(3) show ?thesis by (auto simp: scan_result_def part_full_def unat_eq_zero)
  qed
  then show ?thesis using r by (auto simp: scan_result_def unat_eq_zero)
qed

theorem partitioner_scan_ends_witness:
  "\<exists>r io' s'. partitioner_scan_free_block small_disk small_io (small_part 7 0) = Some (r, io', s') \<and> r \<noteq> 0"
proof -
  have "part_inv small_disk (mem_valid 512 8) (mem_cont 512 8) 3 small_io (small_part 7 0)"
    using small_mounted [of 7 0] by (simp add: part_mounted_def)
  from partitioner_scan_ends [OF malloc.block_device_axioms this] obtain r io' s' where
    r: "partitioner_scan_free_block small_disk small_io (small_part 7 0) = Some (r, io', s')"
    "r = 0 \<longleftrightarrow> part_full small_disk small_io (mem_cont 512 8 (small_part 7 0))" by blast
  have "\<not> part_full small_disk small_io (mem_cont 512 8 (small_part 7 0))"
    unfolding part_full_def by (rule notI, drule spec [of _ 4]) (simp add: small_part_valid small_view small_io_def)
  with r show ?thesis by blast
qed

section \<open>The device\<close>

text \<open>Where partition \<open>p\<close> starts in the mapped blocks: the partitions lie there one after the
  other, in the order of the header's entries.\<close>

definition part_start :: "bytes \<Rightarrow> nat \<Rightarrow> nat" where
  "part_start header p = sum_list (map (\<lambda>q. unat (entry header (q + 3))) [0..<p])"

lemma part_start_0 [simp]: "part_start header 0 = 0"
  by (simp add: part_start_def)

lemma part_start_Suc: "part_start header (Suc p) = part_start header p + unat (entry header (p + 3))"
  by (simp add: part_start_def)

lemma part_start_mono: "p \<le> q \<Longrightarrow> part_start header p \<le> part_start header q"
  by (rule lift_Suc_mono_le [of "part_start header"]) (simp_all add: part_start_Suc)

lemma part_start_equal: "\<forall>q < p. entry header (q + 3) = n \<Longrightarrow> part_start header p = p * unat n"
  by (induction p) (simp_all add: part_start_Suc)

lemma unat_sum_list: "sum_list (map unat ws) < 2 ^ 64 \<Longrightarrow> unat (sum_list ws :: u64) = sum_list (map unat ws)"
  by (induction ws) (simp_all add: unat_add_u64)

lemma header_total_start:
  assumes "part_start header 61 < 2 ^ 64"
  shows "unat (header_total header) = part_start header 61"
proof -
  have "(61 :: nat) + 3 = 64" by simp
  with map_add_upt [of 3 61] have "[3..<64 :: nat] = map (\<lambda>q. q + 3) [0..<61]" by metis
  then have e: "map (\<lambda>q. unat (entry header (q + 3))) [0..<61] = map unat (map (entry header) [3..<64])"
    by (simp only: map_map o_def)
  then show ?thesis
    using unat_sum_list [of "map (entry header) [3..<64]"] assms by (simp only: header_total_def part_start_def)
qed

text \<open>C22: Opening a partition of a formatted device gives a device whose blocks are the window of
  the mapped blocks that the disk format assigns to it, which starts after the blocks of its
  predecessors, with zeros where nothing was written, if every predecessor has the size of the
  partition (so for the first partition always; for predecessors of another size the offset is
  computed wrongly, see \<open>partition_offset_wrong\<close>) and the sizes in the header do not add up to 2^64
  blocks. Over a reliable device it keeps the contract of the block and byte operations, and flush
  and clear_caches keep the contents.\<close>

theorem partitioner_open_device:
  assumes "block_device base valid cont True" and "valid s" and "part_formatted base (cont s)"
    and "alloc_ok alloc" and "alloc (unat (block_size base)) = Some a"
    and "part \<le> 60" and "entry (cont s ! 0) (part + 3) = n" and "n \<noteq> 0" and "unat (block_size base) * unat n < 2 ^ 64"
    and "\<forall>p < part. entry (cont s ! 0) (p + 3) = n" and "part_start (cont s ! 0) 61 < 2 ^ 64"
  shows "\<exists>obj s'. partitioner_open alloc junk jc base s (int part) = Some (Some (part_dev base (int part) n, obj), s') \<and>
      part_valid base n valid cont (obj, s') \<and>
      part_cont base n cont (obj, s') = take (unat n) (drop (part_start (cont s ! 0) part) (formatted_disk base (cont s))) \<and>
      block_rw (block_size base) n (read_block (part_dev base (int part) n)) (write_block (part_dev base (int part) n))
        (part_valid base n valid cont) (part_cont base n cont) False \<and>
      (\<forall>st start len into. part_valid base n valid cont st \<longrightarrow>
        unat start + unat len \<le> unat (block_size base) * unat n \<longrightarrow> unat len \<le> length into \<longrightarrow>
        read_ok (part_valid base n valid cont) (part_cont base n cont) False st into
          (take (unat len) (drop (unat start) (concat (part_cont base n cont st))))
          (read_bytes (part_dev base (int part) n) st start len into)) \<and>
      (\<forall>st start len from. part_valid base n valid cont st \<longrightarrow>
        unat start + unat len \<le> unat (block_size base) * unat n \<longrightarrow> unat len \<le> length from \<longrightarrow>
        write_ok (part_valid base n valid cont) (part_cont base n cont) False st
          (touched (unat (block_size base)) (unat start) (unat len))
          (write_at (unat (block_size base)) (unat start) (take (unat len) from) (part_cont base n cont st))
          (write_bytes (part_dev base (int part) n) st start len from)) \<and>
      (\<forall>st. part_valid base n valid cont st \<longrightarrow>
        keeps (part_valid base n valid cont) (part_cont base n cont) st (flush (part_dev base (int part) n) st) \<and>
        keeps (part_valid base n valid cont) (part_cont base n cont) st (clear_caches (part_dev base (int part) n) st))"
proof -
  note start = part_start_equal [OF assms(10)]
  have "part_start (cont s ! 0) (Suc part) \<le> part_start (cont s ! 0) 61" using assms(6) by (intro part_start_mono) simp
  then have fits: "part * unat n + unat n \<le> unat (header_total (cont s ! 0))"
    unfolding header_total_start [OF assms(11)] using start assms(7) by (simp add: part_start_Suc)
  from block_device.open_part_ok [OF assms(1) TrueI assms(2-9) fits, of junk jc, folded start] obtain obj s' where
    o: "partitioner_open alloc junk jc base s (int part) = Some (Some (part_dev base (int part) n, obj), s')"
      "part_valid base n valid cont (obj, s')"
      "part_cont base n cont (obj, s') = take (unat n) (drop (part_start (cont s ! 0) part) (formatted_disk base (cont s)))" by blast
  have dev: "read_block (part_dev base (int part) n) = part_read_block base n"
    "write_block (part_dev base (int part) n) = (\<lambda>st w from. part_write_block base n st w (Ext from))"
    "read_bytes (part_dev base (int part) n) = generic_read_bytes (block_size base) n (part_read_block base n)"
    "write_bytes (part_dev base (int part) n) =
      generic_write_bytes (block_size base) n (part_read_block base n) (part_write_block base n)"
    "flush (part_dev base (int part) n) = part_flush base" "clear_caches (part_dev base (int part) n) = part_clear_caches base"
    by (simp_all add: part_dev_def Let_def)
  note gd = block_device.part_generic [OF assms(1) TrueI, of n]
  show ?thesis
    unfolding dev using o generic_dev.axioms(1) [OF gd] generic_dev.generic_read_bytes_ok [OF gd]
      generic_dev.generic_write_bytes_ok [OF gd] block_device.part_maintenance [OF assms(1)] by blast
qed

lemma small_formatted: "part_formatted small_disk (small_blocks 7 0)" "header_total small_header = 4"
proof -
  have h: "small_blocks 7 0 ! 0 = small_header" by (simp add: small_blocks_def)
  have e: "entry small_header 1 = 8" "entry small_header 2 = 512" "entry small_header 3 = 4" "take 8 small_header = PARTITION_MAGIC"
    by (simp_all add: small_header_def entry_def)
  have "entry small_header i = 0" if "4 \<le> i" "i < 64" for i
    using that by (simp add: small_header_def entry_def)
  then have "map (entry small_header) [4..<64] = map (\<lambda>_. 0) [4..<64]"
    by (intro map_cong [OF refl]) (simp only: set_upt atLeastLessThan_iff)
  then have "sum_list (map (entry small_header) [4..<64]) = 0" by (simp only: sum_list_0)
  moreover have "[3..<64] = 3 # [4..<64 :: nat]" by (subst upt_conv_Cons) simp_all
  ultimately have t: "header_total small_header = 4"
    unfolding header_total_def by (simp only: list.map sum_list.Cons e) simp
  show "header_total small_header = 4" by (rule t)
  show "part_formatted small_disk (small_blocks 7 0)"
    using e t small_mounted [of 7 0]
    by (simp add: part_formatted_def part_header_def Let_def h small_sizes part_mounted_def small_part_valid numeral_3_eq_3 [symmetric])
qed

text \<open>The same device with two partitions of two blocks each.\<close>

definition twin_header :: bytes where
  "twin_header = PARTITION_MAGIC @ be64_bytes 8 @ be64_bytes 512 @ be64_bytes 2 @ be64_bytes 2 @ replicate 472 0"

definition twin_blocks :: "bytes list" where
  "twin_blocks = (small_blocks 7 0)[0 := twin_header]"

lemma twin_entries:
  "entry twin_header 1 = 8" "entry twin_header 2 = 512" "entry twin_header 3 = 2" "entry twin_header 4 = 2"
  "take 8 twin_header = PARTITION_MAGIC" "5 \<le> i \<Longrightarrow> i < 64 \<Longrightarrow> entry twin_header i = 0"
  by (simp_all add: twin_header_def entry_def)

lemma twin_start: "part_start twin_header 61 = 4"
proof -
  have "unat (entry twin_header (q + 3)) = 0" if "2 \<le> q" "q < 61" for q
    using twin_entries(6) [of "q + 3"] that by simp
  then have "map (\<lambda>q. unat (entry twin_header (q + 3))) [2..<61] = map (\<lambda>_. 0) [2..<61]"
    by (intro map_cong [OF refl]) (simp only: set_upt atLeastLessThan_iff)
  then have "sum_list (map (\<lambda>q. unat (entry twin_header (q + 3))) [2..<61]) = 0" by (simp only: sum_list_0)
  moreover have "[0..<61] = 0 # 1 # [2..<61 :: nat]" by (simp add: upt_conv_Cons numeral_2_eq_2)
  moreover have "entry twin_header (0 + 3) = 2" "entry twin_header (1 + 3) = 2" using twin_entries(3,4) by simp_all
  ultimately show ?thesis unfolding part_start_def by (simp only: list.map sum_list.Cons) simp
qed

lemma twin_formatted: "part_formatted small_disk twin_blocks" "header_total twin_header = 4" "twin_blocks ! 0 = twin_header"
proof -
  have "unat (header_total twin_header) = 4" using header_total_start [of twin_header] twin_start by simp
  then show t: "header_total twin_header = 4" by (simp add: word_unat_eq_iff)
  show h: "twin_blocks ! 0 = twin_header" by (simp add: twin_blocks_def small_blocks_def)
  have "map_at 64 1 twin_blocks = map_at 64 1 (small_blocks 7 0)" "used_bit 4096 twin_blocks = used_bit 4096 (small_blocks 7 0)"
    by (intro ext; simp add: map_at_def used_bit_def twin_blocks_def)+
  then have "disk_ok 512 8 1 3 4 twin_blocks \<longleftrightarrow> disk_ok 512 8 1 3 4 (small_blocks 7 0)" by (simp add: disk_ok_def)
  then show "part_formatted small_disk twin_blocks"
    using twin_entries(1,2,5) t small_mounted [of 7 0]
    by (simp add: part_formatted_def part_header_def Let_def h small_sizes part_mounted_def small_part_valid numeral_3_eq_3 [symmetric])
qed

theorem partitioner_open_device_witness:
  "\<exists>obj s'. partitioner_open calloc_alloc small_io 0 small_disk (ram_of 512 twin_blocks) 1 =
      Some (Some (part_dev small_disk 1 2, obj), s') \<and>
    part_cont small_disk 2 (mem_cont 512 8) (obj, s') = take 2 (drop 2 (formatted_disk small_disk twin_blocks))"
proof -
  have v: "mem_valid 512 8 (ram_of 512 twin_blocks)" "mem_cont 512 8 (ram_of 512 twin_blocks) = twin_blocks"
    by (rule ram_of_valid; simp add: twin_blocks_def small_blocks_def blocked_def small_header_def twin_header_def nth_list_update)+
  have "entry twin_header (1 + 3) = 2" "\<forall>p < 1. entry twin_header (p + 3) = 2" using twin_entries(3,4) by simp_all
  moreover have "part_start twin_header (Suc 0) = 2" using twin_entries(3) by (simp add: part_start_Suc)
  ultimately show ?thesis
    using partitioner_open_device [OF malloc.block_device_axioms v(1) _ calloc_alloc_ok small_alloc, of 1 2 small_io 0]
      twin_formatted(1) twin_start by (auto simp: v(2) twin_formatted(3))
qed

text \<open>C23: While a block of the device is free, a write to an open partition succeeds: it replaces the
  block written and no other block of any partition, allocating a free block where none was
  mapped. Reads always succeed.\<close>

theorem part_write_succeeds:
  assumes "block_device base valid cont True" and "part_valid base n valid cont st" and "which < n"
    and "unat (block_size base) \<le> length data" and "part \<noteq> -1"
    and "1 \<le> b" and "b < unat (disk_blocks (obj_m (fst st)))" and "\<not> used_bit (8 * unat (block_size base)) (cont (snd st)) b"
  shows "\<exists>st' into st''. write_block (part_dev base part n) st which data = Some (True, st') \<and>
    part_valid base n valid cont st' \<and>
    mounted_disk base cont (obj_m (fst st')) (snd st') = (mounted_disk base cont (obj_m (fst st)) (snd st))
      [unat which + unat (mapper_partition_offset (obj_m (fst st))) := take (unat (block_size base)) data] \<and>
    read_block (part_dev base part n) st' which data = Some (True, into, st'') \<and>
    take (unat (block_size base)) into = take (unat (block_size base)) data"
proof -
  have l: "unat (block_size base) \<le> length (deref (fst st) (Ext data))" using assms(4) by simp
  obtain st' where w: "part_write_block base n st which (Ext data) = Some (True, st')" "part_valid base n valid cont st'"
    "part_cont base n cont st' = (part_cont base n cont st)[unat which := take (unat (block_size base)) data]"
    "mounted_disk base cont (obj_m (fst st')) (snd st') = (mounted_disk base cont (obj_m (fst st)) (snd st))
      [unat which + unat (mapper_partition_offset (obj_m (fst st))) := take (unat (block_size base)) data]"
    by (rule block_device.part_write_ok [OF assms(1) TrueI assms(2,3) l]) (use assms(6-8) in \<open>auto simp: part_full_def\<close>)
  obtain st'' where r: "part_read_block base n st' which data =
      Some (True, patch 0 (part_cont base n cont st' ! unat which) data, st'')"
    by (rule block_device.part_read_ok [OF assms(1) TrueI w(2) assms(3,4)])
  have "unat which < length (part_cont base n cont st)"
    using block_device.contents_part(1) [OF assms(1,2)] assms(3) by (simp add: word_less_nat_alt)
  then have "take (unat (block_size base)) (patch 0 (part_cont base n cont st' ! unat which) data) = take (unat (block_size base)) data"
    using w(3) assms(4) by simp
  then show ?thesis using w r assms(5) by (simp add: part_dev_def Let_def del: patch_0)
qed

theorem part_write_succeeds_witness:
  "\<exists>st'. write_block (part_dev small_disk 0 4) (\<lparr>generic_block_buffer = replicate 512 0, obj_m = small_io\<rparr>, small_part 7 0) 2
      (replicate 512 9) = Some (True, st')"
proof -
  have v: "part_valid small_disk 4 (mem_valid 512 8) (mem_cont 512 8) (\<lparr>generic_block_buffer = replicate 512 0, obj_m = small_io\<rparr>, small_part 7 0)"
    by (rule small_small_valid, rule small_mounted) simp_all
  have "\<not> used_bit (8 * 512) (mem_cont 512 8 (small_part 7 0)) 4" by (simp add: small_part_valid small_view)
  then show ?thesis
    using part_write_succeeds [OF malloc.block_device_axioms v, of 2 "replicate 512 9" 0 4] by (auto simp: small_io_def)
qed

section \<open>Creating\<close>

text \<open>C24: A device that is initialised, given a first partition of \<open>n\<close> blocks and opened again shows
  \<open>n\<close> zero blocks, whatever was on it before.\<close>

theorem partitioner_create_open:
  assumes "block_device base valid cont True" and "valid s" and "512 \<le> unat (block_size base)"
    and "alloc_ok alloc" and "alloc (unat (block_size base)) = Some a"
    and "unat (block_count base) + 8 * unat (block_size base) < 2 ^ 64"
    and "n \<noteq> 0" and "unat (block_size base) * unat n < 2 ^ 64" and "unat n + unat (block_size base) div 8 < 2 ^ 64"
    and "bitmap_blocks_for (unat (block_size base)) (unat (block_count base)) + 1 +
      maps_blocks_for (unat (block_size base)) (unat n) < unat (block_count base)"
  shows "\<exists>s1 s2 obj s3. partitioner_initialize alloc junk base s = Some (True, s1) \<and>
    partitioner_set_part_size alloc junk jc base s1 0 n = Some (True, s2) \<and>
    partitioner_open alloc junk jc base s2 0 = Some (Some (part_dev base 0 n, obj), s3) \<and>
    part_valid base n valid cont (obj, s3) \<and>
    part_cont base n cont (obj, s3) = replicate (unat n) (replicate (unat (block_size base)) 0)"
proof -
  let ?bs = "unat (block_size base)"
  have "bitmap_blocks_for ?bs (unat (block_count base)) + 1 \<le> unat (block_count base)" using assms(10) by simp
  from block_device.initialize_ok [OF assms(1) TrueI assms(2-6) this] obtain s1 where
    i: "partitioner_initialize alloc junk base s = Some (True, s1)" "valid s1" "part_formatted base (cont s1)"
    "cont s1 ! 0 = blank_header base" by blast
  note bh = blank_header_entries [OF assms(3), folded i(4)]
  have z: "\<forall>i. 3 \<le> i \<and> i < 64 \<longrightarrow> entry (cont s1 ! 0) i = 0" using bh(5) by blast
  have p0: "(0 :: nat) \<le> 60" by simp
  obtain s2 where r: "partitioner_set_part_size alloc junk jc base s1 (int 0) n = Some (True, s2)" "valid s2"
    "part_formatted base (cont s2)" "entry (cont s2 ! 0) (0 + 3) = n" "header_total (cont s2 ! 0) = n"
    "formatted_disk base (cont s2) = replicate (unat n) (replicate ?bs 0)"
    by (rule block_device.resize_ok [OF assms(1) TrueI i(2,3) assms(4,5) z bh(6) p0 assms(7,9)]) (use assms(10) bh(3) in simp_all)
  have "0 * unat n + unat n \<le> unat (header_total (cont s2 ! 0))" using r(5) by simp
  from block_device.open_part_ok [OF assms(1) TrueI r(2,3) assms(4,5) p0 r(4) assms(7,8) this, of junk jc] r(6)
  show ?thesis using i(1) r(1) by auto
qed

theorem partitioner_create_open_witness:
  "\<exists>s1 s2 obj s3. partitioner_initialize calloc_alloc small_io small_disk small_blank = Some (True, s1) \<and>
    partitioner_set_part_size calloc_alloc small_io 0 small_disk s1 0 4 = Some (True, s2) \<and>
    partitioner_open calloc_alloc small_io 0 small_disk s2 0 = Some (Some (part_dev small_disk 0 4, obj), s3) \<and>
    part_cont small_disk 4 (mem_cont 512 8) (obj, s3) = replicate 4 (replicate 512 0)"
  using partitioner_create_open [OF malloc.block_device_axioms small_blank_valid _ calloc_alloc_ok small_alloc, of 4 small_io 0]
  by (auto simp: small_sizes)

section \<open>What goes wrong\<close>

text \<open>The offset of partition \<open>p\<close> is computed as \<open>p\<close> times its own size, not as the sum of the
  sizes before it. A device whose only partition is number \<open>p > 0\<close> opens with an offset at or
  behind the end of the map: all its blocks are looked up in blocks that are not the map's.\<close>

theorem partition_offset_wrong:
  assumes "block_device base valid cont True" and "valid s" and "512 \<le> unat (block_size base)"
    and "alloc_ok alloc" and "alloc (unat (block_size base)) = Some a"
    and "unat (block_count base) + 8 * unat (block_size base) < 2 ^ 64"
    and "0 < part" and "part \<le> 60" and "n \<noteq> 0" and "unat n + unat (block_size base) div 8 < 2 ^ 64"
    and "bitmap_blocks_for (unat (block_size base)) (unat (block_count base)) + 1 +
      maps_blocks_for (unat (block_size base)) (unat n) < unat (block_count base)"
  shows "\<exists>s1 s2 obj s3. partitioner_initialize alloc junk base s = Some (True, s1) \<and>
    partitioner_set_part_size alloc junk jc base s1 (int part) n = Some (True, s2) \<and>
    partitioner_open alloc junk jc base s2 (int part) = Some (Some (part_dev base (int part) n, obj), s3) \<and>
    mapped_total_size (obj_m obj) = n \<and> mapper_partition_offset (obj_m obj) = of_nat part * n"
proof -
  let ?bs = "unat (block_size base)"
  have "bitmap_blocks_for ?bs (unat (block_count base)) + 1 \<le> unat (block_count base)" using assms(11) by simp
  from block_device.initialize_ok [OF assms(1) TrueI assms(2-6) this] obtain s1 where
    i: "partitioner_initialize alloc junk base s = Some (True, s1)" "valid s1" "part_formatted base (cont s1)"
    "cont s1 ! 0 = blank_header base" by blast
  note bh = blank_header_entries [OF assms(3), folded i(4)]
  have z: "\<forall>i. 3 \<le> i \<and> i < 64 \<longrightarrow> entry (cont s1 ! 0) i = 0" using bh(5) by blast
  obtain s2 where r: "partitioner_set_part_size alloc junk jc base s1 (int part) n = Some (True, s2)" "valid s2"
    "part_formatted base (cont s2)" "entry (cont s2 ! 0) (part + 3) = n" "header_total (cont s2 ! 0) = n"
    by (rule block_device.resize_ok [OF assms(1) TrueI i(2,3) assms(4,5) z bh(6) assms(8-10)]) (use assms(11) bh(3) in simp_all)
  obtain obj s3 where o: "partitioner_open alloc junk jc base s2 (int part) = Some (Some (part_dev base (int part) n, obj), s3)"
    "mapper_partition_offset (obj_m obj) = of_nat part * n" "mapped_total_size (obj_m obj) = header_total (cont s2 ! 0)"
    by (rule block_device.open_part_run [OF assms(1) TrueI r(2,3) assms(4,5,8) r(4) assms(9)])
  then show ?thesis using i(1) r(1,5) by auto
qed

theorem partition_offset_wrong_witness:
  "\<exists>s1 s2 obj s3. partitioner_initialize calloc_alloc small_io small_disk small_blank = Some (True, s1) \<and>
    partitioner_set_part_size calloc_alloc small_io 0 small_disk s1 2 4 = Some (True, s2) \<and>
    partitioner_open calloc_alloc small_io 0 small_disk s2 2 = Some (Some (part_dev small_disk 2 4, obj), s3) \<and>
    mapped_total_size (obj_m obj) = 4 \<and> mapper_partition_offset (obj_m obj) = 8"
  using partition_offset_wrong [OF malloc.block_device_axioms small_blank_valid _ calloc_alloc_ok small_alloc, of 2 4 small_io 0]
  by (simp add: small_sizes)

text \<open>When a partition is enlarged on a full device, a mapped block in the way is moved to block 0:
  the header is overwritten with its data, the block is unmapped, and the step reports success.\<close>

theorem remap_full_destroys_header:
  assumes "block_device base valid cont True" and "part_mounted base valid cont io s"
    and "unat i < unat (mapped_total_size io)"
    and "map_at (unat (block_size base) div 8) (unat (bitmap_len io)) (cont s) (unat i) = maploc"
    and "maploc \<noteq> 0" and "lo \<le> maploc" and "maploc < hi"
    and "part_full base io (cont s)" and "length buf = unat (block_size base)"
  shows "\<exists>io' s' buf'. remap_step base lo hi i io s buf = Some (True, io', s', buf') \<and>
    cont s' ! 0 = cont s ! unat maploc \<and>
    map_at (unat (block_size base) div 8) (unat (bitmap_len io)) (cont s') (unat i) = 0"
  by (rule block_device.remap_full [OF assms(1) TrueI assms(2-9)])

theorem remap_full_destroys_header_witness:
  "\<exists>io' s' buf'. remap_step small_disk 3 4 0 small_io (small_part 255 3) (replicate 512 0) = Some (True, io', s', buf') \<and>
    mem_cont 512 8 s' ! 0 = replicate 512 7"
proof -
  have m: "part_mounted small_disk (mem_valid 512 8) (mem_cont 512 8) small_io (small_part 255 3)"
    by (rule small_mounted) simp_all
  have "(255 :: u8) = - 1" by simp
  then have "bit (255 :: u8) b" if "b < 8" for b using that by (simp only: bit_minus_1_iff) simp
  then have "part_full small_disk small_io (mem_cont 512 8 (small_part 255 3))"
    by (simp add: part_full_def small_part_valid small_view)
  then show ?thesis
    using remap_full_destroys_header [OF malloc.block_device_axioms m, of 0 3 3 4 "replicate 512 0"]
    by (auto simp: small_part_valid small_view [unfolded One_nat_def]) (auto simp: small_blocks_def)
qed

end
