(* ===== verification/Loop.thy ===== *)
theory Loop
  imports Prelude
begin

text \<open>
  \<open>src/src/loop.c\<close>: the event loop over libevent: timers, TCP sockets, listeners, watched
  descriptors, functions called after every turn, and the count of users of the resolver
  (\<open>evdns\<close>), which is created and freed by need because it would keep the loop alive.

  Handles are addresses of structs that \<open>malloc\<close> gives and \<open>free\<close> takes back: each kind has a
  store, a list of options; an access to a freed struct kills the run. The state of libevent is
  a parameter, its calls are fields of a record, and the callbacks of the program are values of a
  type \<open>'c\<close> (function and data in one) that a parameter interprets. Messages to the logger are
  left out, except for the translation of libevent's own.
\<close>

section \<open>The state\<close>

record 'c tcp_cb =
  cb_error :: "'c option"
  cb_connect :: "'c option"
  cb_read :: "'c option"

record 'c sockhandle =
  bev :: bool
  sock_cb :: "'c tcp_cb"
  has_dns :: bool

record 'c loop_watcher =
  watch_fd :: int
  watch_cb :: 'c
  watch_active :: bool

record ('w, 'c) loop =
  ev_base :: bool
  base_dns :: bool
  base_dns_users :: int
  socks :: "'c sockhandle option list"
  timers :: "'c option list"
  watchers :: "'c loop_watcher option list"
  listeners :: "'c option list"
  whenever_fns :: "'c list"
  exiting_early :: bool
  lib :: 'w

text \<open>libevent. Calls that can fail return a flag or a number first.\<close>

record 'w libevent =
  event_base_new :: "'w \<Rightarrow> bool \<times> 'w"
  event_base_free :: "'w \<Rightarrow> 'w"
  event_base_loopbreak :: "'w \<Rightarrow> 'w"
  evdns_base_new :: "'w \<Rightarrow> bool \<times> 'w"
  evdns_base_free :: "'w \<Rightarrow> 'w"
  bufferevent_socket_new :: "'w \<Rightarrow> addr \<Rightarrow> int \<Rightarrow> bool \<times> 'w"
  bufferevent_free :: "'w \<Rightarrow> addr \<Rightarrow> 'w"
  connect_hostname :: "'w \<Rightarrow> addr \<Rightarrow> string \<Rightarrow> u16 \<Rightarrow> bool \<times> 'w"
  evbuffer_copyout :: "'w \<Rightarrow> addr \<Rightarrow> nat \<Rightarrow> int \<times> bytes \<times> 'w"
  evbuffer_drain :: "'w \<Rightarrow> addr \<Rightarrow> nat \<Rightarrow> 'w"
  evbuffer_add :: "'w \<Rightarrow> addr \<Rightarrow> bytes \<Rightarrow> 'w"
  evbuffer_get_length :: "'w \<Rightarrow> addr \<Rightarrow> nat"
  evtimer_add :: "'w \<Rightarrow> addr \<Rightarrow> int \<Rightarrow> int \<Rightarrow> 'w"
  timer_event_free :: "'w \<Rightarrow> addr \<Rightarrow> 'w"
  watch_event_add :: "'w \<Rightarrow> addr \<Rightarrow> int \<Rightarrow> bool \<times> 'w"
  watch_event_free :: "'w \<Rightarrow> addr \<Rightarrow> 'w"
  evconnlistener_new_bind :: "'w \<Rightarrow> addr \<Rightarrow> u16 \<Rightarrow> bool \<times> 'w"
  evconnlistener_free :: "'w \<Rightarrow> addr \<Rightarrow> 'w"
  close_fd :: "'w \<Rightarrow> int \<Rightarrow> 'w"

text \<open>What a callback is given.\<close>

datatype cb_arg = OnTimer | OnReady | OnRead nat addr | OnConnect addr | OnError int addr

type_synonym ('w, 'c) caller = "'c \<Rightarrow> cb_arg \<Rightarrow> ('w, 'c) loop \<Rightarrow> ('w, 'c) loop run"

text \<open>A handle's struct when its bufferevent, which libevent dereferences, is there.\<close>

definition sock_cell :: "'c sockhandle option list \<Rightarrow> addr \<Rightarrow> 'c sockhandle run" where
  "sock_cell xs h = do { s \<leftarrow> cell xs h; c_assert (bev s); Some s }"

definition the_cb :: "'c option \<Rightarrow> 'c run" where
  "the_cb c = c"

section \<open>The resolver\<close>

text \<open>The count is an \<open>int\<close> (\<open>c_int\<close>).\<close>

definition evdns_refcount_increment :: "'w libevent \<Rightarrow> ('w, 'c) loop \<Rightarrow> ('w, 'c) loop run" where
  "evdns_refcount_increment ev st = do {
     c_assert (ev_base st);
     st \<leftarrow> (if base_dns_users st = 0 then do {
         c_assert (\<not> base_dns st);
         let (ok, w) = evdns_base_new ev (lib st);
         c_assert ok;
         Some (st\<lparr>base_dns := ok, lib := w\<rparr>) }
       else Some st);
     Some (st\<lparr>base_dns_users := c_int (base_dns_users st + 1)\<rparr>) }"

definition evdns_refcount_decrement :: "'w libevent \<Rightarrow> ('w, 'c) loop \<Rightarrow> ('w, 'c) loop run" where
  "evdns_refcount_decrement ev st = do {
     c_assert (ev_base st);
     c_assert (base_dns st);
     let st = st\<lparr>base_dns_users := c_int (base_dns_users st - 1)\<rparr>;
     c_assert (base_dns_users st \<ge> 0);
     if base_dns_users st = 0 then Some (st\<lparr>base_dns := False, lib := evdns_base_free ev (lib st)\<rparr>)
     else Some st }"

section \<open>Messages of libevent\<close>

datatype ev_log = EV_LOG_DEBUG | EV_LOG_MSG | EV_LOG_WARN | EV_LOG_ERR | EV_LOG_OTHER

text \<open>The level handed to the logger.\<close>

fun loop_log_cb :: "ev_log \<Rightarrow> int" where
  "loop_log_cb EV_LOG_DEBUG = 0"
| "loop_log_cb EV_LOG_MSG = 1"
| "loop_log_cb EV_LOG_WARN = 2"
| "loop_log_cb EV_LOG_ERR = 3"
| "loop_log_cb EV_LOG_OTHER = -1"

definition loop_fatal_cb :: "('w, 'c) loop \<Rightarrow> ('w, 'c) loop run" where
  "loop_fatal_cb st = None"

section \<open>Timers\<close>

text \<open>\<open>when\<close> is the conversion of the C implementation from \<open>double\<close> to seconds and microseconds.\<close>

definition loop_add_timer :: "'w libevent \<Rightarrow> ('w, 'c) loop \<Rightarrow> int \<times> int \<Rightarrow> 'c \<Rightarrow> ('w, 'c) loop run" where
  "loop_add_timer ev st when cb = (
     let t = length (timers st);
         (tv_sec, tv_usec) = when;
         tv_usec = (if tv_usec < 0 then 0 else tv_usec)
     in Some (st\<lparr>timers := timers st @ [Some cb], lib := evtimer_add ev (lib st) t tv_sec tv_usec\<rparr>))"

definition loop_timeout_cb :: "'w libevent \<Rightarrow> ('w, 'c) caller \<Rightarrow> ('w, 'c) loop \<Rightarrow> addr \<Rightarrow> ('w, 'c) loop run" where
  "loop_timeout_cb ev call st t = do {
     cb \<leftarrow> cell (timers st) t;
     let st = st\<lparr>lib := timer_event_free ev (lib st) t\<rparr>;
     let st = st\<lparr>timers := (timers st)[t := None]\<rparr>;
     call cb OnTimer st }"

section \<open>Sockets\<close>

definition loop_sock_peek :: "'w libevent \<Rightarrow> ('w, 'c) loop \<Rightarrow> addr \<Rightarrow> nat \<Rightarrow> (int \<times> bytes \<times> ('w, 'c) loop) run" where
  "loop_sock_peek ev st h want = do {
     _ \<leftarrow> sock_cell (socks st) h;
     let (ret, d, w) = evbuffer_copyout ev (lib st) h want;
     Some (ret, d, st\<lparr>lib := w\<rparr>) }"

definition loop_sock_drop :: "'w libevent \<Rightarrow> ('w, 'c) loop \<Rightarrow> addr \<Rightarrow> nat \<Rightarrow> ('w, 'c) loop run" where
  "loop_sock_drop ev st h n = do {
     _ \<leftarrow> sock_cell (socks st) h;
     Some (st\<lparr>lib := evbuffer_drain ev (lib st) h n\<rparr>) }"

definition loop_sock_write :: "'w libevent \<Rightarrow> ('w, 'c) loop \<Rightarrow> addr \<Rightarrow> bytes \<Rightarrow> ('w, 'c) loop run" where
  "loop_sock_write ev st h d = do {
     _ \<leftarrow> sock_cell (socks st) h;
     Some (st\<lparr>lib := evbuffer_add ev (lib st) h d\<rparr>) }"

definition free_sock :: "('w, 'c) loop \<Rightarrow> addr \<Rightarrow> ('w, 'c) loop" where
  "free_sock st h = st\<lparr>socks := (socks st)[h := None]\<rparr>"

text \<open>The count of the resolver's users is not looked at.\<close>

definition loop_sock_close :: "'w libevent \<Rightarrow> ('w, 'c) loop \<Rightarrow> addr \<Rightarrow> ('w, 'c) loop run" where
  "loop_sock_close ev st h = do {
     _ \<leftarrow> sock_cell (socks st) h;
     Some (free_sock (st\<lparr>lib := bufferevent_free ev (lib st) h\<rparr>) h) }"

definition loop_sock_cb_read :: "'w libevent \<Rightarrow> ('w, 'c) caller \<Rightarrow> ('w, 'c) loop \<Rightarrow> addr \<Rightarrow> ('w, 'c) loop run" where
  "loop_sock_cb_read ev call st h = do {
     s \<leftarrow> sock_cell (socks st) h;
     cb \<leftarrow> the_cb (cb_read (sock_cb s));
     call cb (OnRead (evbuffer_get_length ev (lib st) h) h) st }"

text \<open>The events of a bufferevent that the code tests, in the order of its tests.\<close>

record bev_events =
  EVENT_CONNECTED :: bool
  EVENT_ERROR :: bool
  EVENT_EOF :: bool

definition drop_dns :: "'w libevent \<Rightarrow> ('w, 'c) loop \<Rightarrow> addr \<Rightarrow> 'c sockhandle \<Rightarrow> ('w, 'c) loop run" where
  "drop_dns ev st h s = (if has_dns s then do {
       st \<leftarrow> evdns_refcount_decrement ev st;
       Some (st\<lparr>socks := (socks st)[h := Some (s\<lparr>has_dns := False\<rparr>)]\<rparr>) }
     else Some st)"

definition loop_sock_cb_event ::
  "'w libevent \<Rightarrow> ('w, 'c) caller \<Rightarrow> ('w, 'c) loop \<Rightarrow> addr \<Rightarrow> bev_events \<Rightarrow> ('w, 'c) loop run" where
  "loop_sock_cb_event ev call st h events = do {
     s \<leftarrow> cell (socks st) h;
     if EVENT_CONNECTED events then do {
       st \<leftarrow> drop_dns ev st h s;
       case cb_connect (sock_cb s) of
         None \<Rightarrow> Some st
       | Some cb \<Rightarrow> call cb (OnConnect h) st }
     else if EVENT_ERROR events then do {
       st \<leftarrow> drop_dns ev st h s;
       cb \<leftarrow> the_cb (cb_error (sock_cb s));
       call cb (OnError (-1) h) st }
     else if EVENT_EOF events then do {
       cb \<leftarrow> the_cb (cb_error (sock_cb s));
       call cb (OnError 0 h) st }
     else Some st }"

text \<open>A handle that is new, and the end of the two functions that make handles when they fail.\<close>

definition bad_end :: "'w libevent \<Rightarrow> ('w, 'c) loop \<Rightarrow> addr \<Rightarrow> ('w, 'c) loop run" where
  "bad_end ev st h = do {
     s \<leftarrow> cell (socks st) h;
     let st = (if bev s then st\<lparr>lib := bufferevent_free ev (lib st) h\<rparr> else st);
     Some (free_sock st h) }"

definition loop_tcp_connect ::
  "'w libevent \<Rightarrow> ('w, 'c) loop \<Rightarrow> string \<Rightarrow> u16 \<Rightarrow> 'c tcp_cb \<Rightarrow> (addr option \<times> ('w, 'c) loop) run" where
  "loop_tcp_connect ev st host port cb = do {
     let h = length (socks st);
     c_assert (cb_read cb \<noteq> None);
     c_assert (cb_error cb \<noteq> None);
     let (ok, w) = bufferevent_socket_new ev (lib st) h (-1);
     let st = st\<lparr>socks := socks st @ [Some \<lparr>bev = ok, sock_cb = cb, has_dns = True\<rparr>], lib := w\<rparr>;
     if \<not> ok then do { st \<leftarrow> bad_end ev st h; Some (None, st) }
     else do {
       st \<leftarrow> evdns_refcount_increment ev st;
       let (failed, w) = connect_hostname ev (lib st) h host port;
       let st = st\<lparr>lib := w\<rparr>;
       if failed then do { st \<leftarrow> bad_end ev st h; Some (None, st) }
       else Some (Some h, st) } }"

section \<open>Listeners\<close>

definition loop_accept_err :: "('w, 'c) loop \<Rightarrow> ('w, 'c) loop run" where
  "loop_accept_err st = None"

text \<open>The accept callback returns a number and fills the new handle's callbacks.\<close>

definition loop_accept_conn ::
  "'w libevent \<Rightarrow> ('w, 'c) caller \<Rightarrow>
   ('c \<Rightarrow> string \<Rightarrow> addr \<Rightarrow> ('w, 'c) loop \<Rightarrow> (int \<times> 'c tcp_cb \<times> ('w, 'c) loop) run) \<Rightarrow>
   ('w, 'c) loop \<Rightarrow> addr \<Rightarrow> int \<Rightarrow> bool \<Rightarrow> string \<Rightarrow> ('w, 'c) loop run" where
  "loop_accept_conn ev call accept st l fd inet ip = do {
     cb \<leftarrow> cell (listeners st) l;
     c_assert inet;
     let h = length (socks st);
     let st = st\<lparr>socks := socks st @
       [Some \<lparr>bev = False, sock_cb = \<lparr>cb_error = None, cb_connect = None, cb_read = None\<rparr>, has_dns = False\<rparr>]\<rparr>;
     (r, cbs, st) \<leftarrow> accept cb ip h st;
     _ \<leftarrow> cell (socks st) h;
     if r \<noteq> 0 then Some (free_sock (st\<lparr>lib := close_fd ev (lib st) fd\<rparr>) h)
     else do {
       c_assert (cb_read cbs \<noteq> None);
       c_assert (cb_error cbs \<noteq> None);
       let (ok, w) = bufferevent_socket_new ev (lib st) h fd;
       let st = st\<lparr>socks := (socks st)[h := Some \<lparr>bev = ok, sock_cb = cbs, has_dns = False\<rparr>], lib := w\<rparr>;
       if \<not> ok then bad_end ev st h
       else case cb_connect cbs of
         None \<Rightarrow> Some st
       | Some cb \<Rightarrow> call cb (OnConnect h) st } }"

definition loop_tcp_listen :: "'w libevent \<Rightarrow> ('w, 'c) loop \<Rightarrow> u16 \<Rightarrow> 'c \<Rightarrow> (addr option \<times> ('w, 'c) loop) run" where
  "loop_tcp_listen ev st port cb = (
     let l = length (listeners st);
         (ok, w) = evconnlistener_new_bind ev (lib st) l port
     in if \<not> ok then Some (None, st\<lparr>listeners := listeners st @ [None], lib := w\<rparr>)
        else Some (Some l, st\<lparr>listeners := listeners st @ [Some cb], lib := w\<rparr>))"

definition loop_listener_close :: "'w libevent \<Rightarrow> ('w, 'c) loop \<Rightarrow> addr \<Rightarrow> ('w, 'c) loop run" where
  "loop_listener_close ev st l = do {
     _ \<leftarrow> cell (listeners st) l;
     Some (st\<lparr>listeners := (listeners st)[l := None], lib := evconnlistener_free ev (lib st) l\<rparr>) }"

section \<open>Watched descriptors\<close>

definition loop_watch_fd_cb :: "('w, 'c) caller \<Rightarrow> ('w, 'c) loop \<Rightarrow> addr \<Rightarrow> ('w, 'c) loop run" where
  "loop_watch_fd_cb call st w = do {
     x \<leftarrow> cell (watchers st) w;
     call (watch_cb x) OnReady st }"

definition loop_watch_fd_for_reading ::
  "'w libevent \<Rightarrow> ('w, 'c) loop \<Rightarrow> int \<Rightarrow> 'c \<Rightarrow> (addr \<times> ('w, 'c) loop) run" where
  "loop_watch_fd_for_reading ev st fd cb = do {
     let w = length (watchers st);
     let (ok, l) = watch_event_add ev (lib st) w fd;
     c_assert ok;
     Some (w, st\<lparr>watchers := watchers st @ [Some \<lparr>watch_fd = fd, watch_cb = cb, watch_active = True\<rparr>], lib := l\<rparr>) }"

text \<open>The watcher itself is not freed.\<close>

definition loop_stop_watching :: "'w libevent \<Rightarrow> ('w, 'c) loop \<Rightarrow> addr \<Rightarrow> ('w, 'c) loop run" where
  "loop_stop_watching ev st w = do {
     x \<leftarrow> cell (watchers st) w;
     c_assert (watch_active x);
     Some (st\<lparr>watchers := (watchers st)[w := Some (x\<lparr>watch_active := False\<rparr>)], lib := watch_event_free ev (lib st) w\<rparr>) }"

section \<open>The loop\<close>

definition loop_do_repeatedly_whenever :: "('w, 'c) loop \<Rightarrow> 'c \<Rightarrow> ('w, 'c) loop run" where
  "loop_do_repeatedly_whenever st cb = Some (st\<lparr>whenever_fns := whenever_fns st @ [cb]\<rparr>)"

definition loop_setup :: "'w libevent \<Rightarrow> ('w, 'c) loop \<Rightarrow> ('w, 'c) loop run" where
  "loop_setup ev st = do {
     let (ok, w) = event_base_new ev (lib st);
     c_assert ok;
     Some (st\<lparr>ev_base := ok, lib := w\<rparr>) }"

definition loop_exit_early :: "'w libevent \<Rightarrow> ('w, 'c) loop \<Rightarrow> ('w, 'c) loop run" where
  "loop_exit_early ev st = Some (st\<lparr>lib := event_base_loopbreak ev (lib st), exiting_early := True\<rparr>)"

text \<open>The count is read again before every call: a function may register another.\<close>

partial_function (option) whenever_loop :: "('w, 'c) caller \<Rightarrow> nat \<Rightarrow> ('w, 'c) loop \<Rightarrow> ('w, 'c) loop run" where
  "whenever_loop call i st =
    (if i < length (whenever_fns st) then do {
       st \<leftarrow> call (whenever_fns st ! i) OnReady st;
       whenever_loop call (i + 1) st }
     else Some st)"

text \<open>\<open>turn\<close> is \<open>event_base_loop\<close> with \<open>EVLOOP_ONCE\<close>, which runs the handlers of the events that are
  due; it returns -1 for an error and 1 when no event is pending.\<close>

partial_function (option) until_done_loop ::
  "(('w, 'c) loop \<Rightarrow> (int \<times> ('w, 'c) loop) run) \<Rightarrow> ('w, 'c) caller \<Rightarrow> ('w, 'c) loop \<Rightarrow> ('w, 'c) loop run" where
  "until_done_loop turn call st =
    (if exiting_early st then Some st
     else do {
       (ret, st) \<leftarrow> turn st;
       if ret = -1 then Some (st\<lparr>exiting_early := True\<rparr>)
       else if ret = 1 then Some st
       else do {
         st \<leftarrow> whenever_loop call 0 st;
         until_done_loop turn call st } })"

declare whenever_loop.simps [simp del] until_done_loop.simps [simp del]

definition loop_until_done ::
  "(('w, 'c) loop \<Rightarrow> (int \<times> ('w, 'c) loop) run) \<Rightarrow> ('w, 'c) caller \<Rightarrow> ('w, 'c) loop \<Rightarrow> ('w, 'c) loop run" where
  "loop_until_done turn call st = do {
     st \<leftarrow> until_done_loop turn call st;
     Some (st\<lparr>exiting_early := False\<rparr>) }"

text \<open>The pointer to the base stays.\<close>

definition loop_teardown :: "'w libevent \<Rightarrow> ('w, 'c) loop \<Rightarrow> ('w, 'c) loop run" where
  "loop_teardown ev st = Some (st\<lparr>lib := event_base_free ev (lib st)\<rparr>)"

end
