(* ===== verification/LoopProps.thy ===== *)
theory LoopProps
  imports Loop
begin

text \<open>
  The event loop (\<open>src/src/loop.c\<close>) as a step relation. \<open>api_step\<close> is a call of one of the
  functions that the program may call, or a change of what is not the loop's, \<open>loop_step\<close> adds the handlers that libevent runs, whose
  callbacks are finite sequences of calls of the API. The invariant counts the users of the
  resolver against the handles that say that they use it; the difference is what has leaked.
\<close>

section \<open>The steps\<close>

inductive api_step :: "'w libevent \<Rightarrow> ('w, 'c) loop \<Rightarrow> ('w, 'c) loop \<Rightarrow> bool" for ev where
  api_timer: "loop_add_timer ev st when cb = Some st' \<Longrightarrow> api_step ev st st'"
| api_peek: "loop_sock_peek ev st h n = Some (r, d, st') \<Longrightarrow> api_step ev st st'"
| api_drop: "loop_sock_drop ev st h n = Some st' \<Longrightarrow> api_step ev st st'"
| api_write: "loop_sock_write ev st h d = Some st' \<Longrightarrow> api_step ev st st'"
| api_close: "loop_sock_close ev st h = Some st' \<Longrightarrow> api_step ev st st'"
| api_connect: "loop_tcp_connect ev st host port cbs = Some (r, st') \<Longrightarrow> api_step ev st st'"
| api_listen: "loop_tcp_listen ev st port cb = Some (r, st') \<Longrightarrow> api_step ev st st'"
| api_listener_close: "loop_listener_close ev st l = Some st' \<Longrightarrow> api_step ev st st'"
| api_watch: "loop_watch_fd_for_reading ev st fd cb = Some (x, st') \<Longrightarrow> api_step ev st st'"
| api_stop: "loop_stop_watching ev st x = Some st' \<Longrightarrow> api_step ev st st'"
| api_whenever: "loop_do_repeatedly_whenever st cb = Some st' \<Longrightarrow> api_step ev st st'"
| api_exit: "loop_exit_early ev st = Some st' \<Longrightarrow> api_step ev st st'"
| api_other: "api_step ev st (st\<lparr>lib := w\<rparr>)"

type_synonym ('w, 'c) accepter = "'c \<Rightarrow> string \<Rightarrow> addr \<Rightarrow> ('w, 'c) loop \<Rightarrow> (int \<times> 'c tcp_cb \<times> ('w, 'c) loop) run"

text \<open>The callbacks reach the state of the loop by its functions only.\<close>

definition by_api :: "'w libevent \<Rightarrow> ('w, 'c) caller \<Rightarrow> ('w, 'c) accepter \<Rightarrow> bool" where
  "by_api ev call accept \<longleftrightarrow>
    (\<forall>cb arg st st'. call cb arg st = Some st' \<longrightarrow> (api_step ev)\<^sup>*\<^sup>* st st') \<and>
    (\<forall>cb ip h st r cbs st'. accept cb ip h st = Some (r, cbs, st') \<longrightarrow> (api_step ev)\<^sup>*\<^sup>* st st')"

inductive loop_step :: "'w libevent \<Rightarrow> ('w, 'c) caller \<Rightarrow> ('w, 'c) accepter \<Rightarrow> ('w, 'c) loop \<Rightarrow> ('w, 'c) loop \<Rightarrow> bool"
  for ev call accept where
  step_api: "api_step ev st st' \<Longrightarrow> loop_step ev call accept st st'"
| step_timer: "loop_timeout_cb ev call st t = Some st' \<Longrightarrow> loop_step ev call accept st st'"
| step_read: "loop_sock_cb_read ev call st h = Some st' \<Longrightarrow> loop_step ev call accept st st'"
| step_event: "loop_sock_cb_event ev call st h e = Some st' \<Longrightarrow> loop_step ev call accept st st'"
| step_accept: "loop_accept_conn ev call accept st l fd inet ip = Some st' \<Longrightarrow> loop_step ev call accept st st'"
| step_watch: "loop_watch_fd_cb call st x = Some st' \<Longrightarrow> loop_step ev call accept st st'"
| step_whenever: "whenever_loop call i st = Some st' \<Longrightarrow> loop_step ev call accept st st'"

text \<open>The state after \<open>loop_setup\<close>.\<close>

definition loop_start :: "'w \<Rightarrow> ('w, 'c) loop" where
  "loop_start w = \<lparr>ev_base = False, base_dns = False, base_dns_users = 0, socks = [], timers = [],
     watchers = [], listeners = [], whenever_fns = [], exiting_early = False, lib = w\<rparr>"

definition loop_reaches ::
  "'w libevent \<Rightarrow> ('w, 'c) caller \<Rightarrow> ('w, 'c) accepter \<Rightarrow> 'w \<Rightarrow> ('w, 'c) loop \<Rightarrow> bool" where
  "loop_reaches ev call accept w st \<longleftrightarrow>
     (\<exists>st0. loop_setup ev (loop_start w) = Some st0 \<and> (loop_step ev call accept)\<^sup>*\<^sup>* st0 st)"

section \<open>The invariant\<close>

definition uses_dns :: "'c sockhandle option \<Rightarrow> int" where
  "uses_dns x = (case x of None \<Rightarrow> 0 | Some s \<Rightarrow> if has_dns s then 1 else 0)"

definition live_users :: "('w, 'c) loop \<Rightarrow> int" where
  "live_users st = sum_list (map uses_dns (socks st))"

definition cbs_set :: "'c sockhandle option \<Rightarrow> bool" where
  "cbs_set x = (case x of None \<Rightarrow> True
     | Some s \<Rightarrow> bev s \<longrightarrow> cb_read (sock_cb s) \<noteq> None \<and> cb_error (sock_cb s) \<noteq> None)"

text \<open>The count can overflow when 2^31 handles have been made; the store of handles has a place for each
  that was ever made.\<close>

definition few_handles :: "('w, 'c) loop \<Rightarrow> bool" where
  "few_handles st \<longleftrightarrow> length (socks st) < 2 ^ 31"

text \<open>Before that, \<open>k\<close> users at least have leaked, and no more than there were handles.\<close>

definition users_inv :: "int \<Rightarrow> ('w, 'c) loop \<Rightarrow> bool" where
  "users_inv k st \<longleftrightarrow> (base_dns st \<longleftrightarrow> base_dns_users st > 0) \<and>
     live_users st + k \<le> base_dns_users st \<and> base_dns_users st \<le> int (length (socks st))"

definition loop_inv :: "int \<Rightarrow> ('w, 'c) loop \<Rightarrow> bool" where
  "loop_inv k st \<longleftrightarrow> ev_base st \<and> list_all cbs_set (socks st) \<and> (few_handles st \<longrightarrow> users_inv k st)"

lemma uses_dns_simps [simp]:
  "uses_dns None = 0" "uses_dns (Some s) = (if has_dns s then 1 else 0)" "0 \<le> uses_dns x"
  by (auto simp: uses_dns_def split: option.splits)

lemma cbs_set_simps [simp]:
  "cbs_set None" "cbs_set (Some s) \<longleftrightarrow> (bev s \<longrightarrow> cb_read (sock_cb s) \<noteq> None \<and> cb_error (sock_cb s) \<noteq> None)"
  by (auto simp: cbs_set_def)

lemma sock_cell_Some: "sock_cell xs a = Some s \<longleftrightarrow> a < length xs \<and> xs ! a = Some s \<and> bev s"
  by (auto simp: sock_cell_def cell_def c_assert_def split: Option.bind_splits if_splits)

lemma sum_users_nonneg [simp]: "0 \<le> sum_list (map uses_dns xs)"
  by (induction xs) (auto simp del: uses_dns_simps(1,2))

lemma sum_users_member: "i < length xs \<Longrightarrow> uses_dns (xs ! i) \<le> sum_list (map uses_dns xs)"
  using member_le_sum_list [of "uses_dns (xs ! i)" "map uses_dns xs"] by fastforce

lemma sum_users_update:
  assumes "i < length xs"
  shows "sum_list (map uses_dns (xs[i := y])) = sum_list (map uses_dns xs) + uses_dns y - uses_dns (xs ! i)"
  using assms by (induction xs arbitrary: i) (auto simp del: uses_dns_simps split: nat.splits)

lemma list_all_update: "list_all P xs \<Longrightarrow> P y \<Longrightarrow> list_all P (xs[i := y])"
  using set_update_subset_insert [of xs i y] by (fastforce simp: list_all_iff)

lemmas loop_frame = loop_inv_def few_handles_def users_inv_def live_users_def

lemma loop_inv_cbs: "loop_inv k st \<Longrightarrow> cell (socks st) h = Some s \<Longrightarrow> cbs_set (Some s)"
  unfolding loop_inv_def list_all_length cell_Some by metis

lemma loop_inv_user:
  "loop_inv k st \<Longrightarrow> few_handles st \<Longrightarrow> 0 \<le> k \<Longrightarrow> cell (socks st) h = Some s \<Longrightarrow> has_dns s \<Longrightarrow>
    1 \<le> base_dns_users st"
  using sum_users_member [of h "socks st"] by (auto simp: loop_frame cell_Some)

lemma loop_inv_replace:
  assumes "loop_inv k st" "a < length (socks st)" "cbs_set y" "uses_dns y \<le> uses_dns (socks st ! a)"
  shows "loop_inv k (st\<lparr>socks := (socks st)[a := y], lib := w\<rparr>)"
  using assms by (auto simp: loop_frame sum_users_update list_all_update)

text \<open>As long as the count is the number of some handles it does not wrap around.\<close>

lemma c_int_count:
  "0 \<le> n \<Longrightarrow> n < int l \<Longrightarrow> l < 2147483648 \<Longrightarrow> c_int (n + 1) = n + 1"
  "0 \<le> n \<Longrightarrow> n \<le> int l \<Longrightarrow> l < 2147483648 \<Longrightarrow> c_int (n - 1) = n - 1"
  by (intro c_int_id; simp)+

lemma c_int_1 [simp]: "c_int 1 = 1"
  by (rule c_int_id) simp_all

lemma loop_inv_lib [simp]: "loop_inv k (st\<lparr>lib := w\<rparr>) = loop_inv k st"
  by (simp add: loop_frame)

lemma loop_inv_frame:
  "loop_inv k st \<Longrightarrow> ev_base st' = ev_base st \<Longrightarrow> base_dns st' = base_dns st \<Longrightarrow>
   base_dns_users st' = base_dns_users st \<Longrightarrow> socks st' = socks st \<Longrightarrow> loop_inv k st'"
  by (simp add: loop_frame)

section \<open>Every step keeps it\<close>

lemma increment_inv:
  assumes "evdns_refcount_increment ev st = Some st'" and "loop_inv k st"
    and "few_handles st \<Longrightarrow> 0 \<le> base_dns_users st \<and> base_dns_users st < int (length (socks st))"
  shows "loop_inv (k + 1) st' \<and> socks st' = socks st"
  using assms c_int_count(1) [of "base_dns_users st" "length (socks st)"]
  by (auto simp: evdns_refcount_increment_def loop_frame Suc_le_eq split: Option.bind_splits if_splits prod.splits)

lemma free_sock_inv:
  assumes "loop_inv k st" "h < length (socks st)"
  shows "loop_inv k (free_sock st h)"
  using assms uses_dns_simps(3) [of "socks st ! h"]
  by (auto simp: free_sock_def loop_frame sum_users_update list_all_update simp del: uses_dns_simps(3))

lemma free_user_inv:
  assumes "loop_inv k st" "cell (socks st) h = Some s" "has_dns s"
  shows "loop_inv (k + 1) (free_sock st h)"
  using assms by (auto simp: free_sock_def loop_frame sum_users_update list_all_update cell_Some)

lemma bad_end_inv:
  assumes "bad_end ev st h = Some st'" "loop_inv k st"
  shows "loop_inv k st'"
  using assms by (auto simp: bad_end_def cell_Some Let_def intro!: free_sock_inv split: Option.bind_splits if_splits)

lemma drop_dns_inv:
  assumes "drop_dns ev st h s = Some st'" "loop_inv k st" "cell (socks st) h = Some s" "0 \<le> k"
  shows "loop_inv k st' \<and> cell (socks st') h = Some (s\<lparr>has_dns := False\<rparr>)"
proof -
  have cbs: "cbs_set (Some s)" and h: "h < length (socks st)" "socks st ! h = Some s"
    using loop_inv_cbs [OF assms(2,3)] assms(3) by (simp_all add: cell_Some)
  have "c_int (base_dns_users st - 1) = base_dns_users st - 1" if "few_handles st" "has_dns s"
    using loop_inv_user [OF assms(2) that(1) assms(4,3) that(2)] assms(2) that(1)
    by (intro c_int_count(2) [of _ "length (socks st)"]) (auto simp: loop_frame)
  moreover have "1 \<le> base_dns_users st" if "few_handles st" "has_dns s"
    by (rule loop_inv_user [OF assms(2) that(1) assms(4,3) that(2)])
  ultimately show ?thesis
    using assms(1,2) cbs h
    by (cases "few_handles st")
      (auto simp: drop_dns_def evdns_refcount_decrement_def loop_frame sum_users_update cell_Some
        Let_def intro!: list_all_update split: Option.bind_splits if_splits)
qed

lemma close_inv:
  assumes "loop_sock_close ev st h = Some st'" "loop_inv k st"
  shows "loop_inv k st'"
  using assms by (auto simp: loop_sock_close_def sock_cell_Some intro!: free_sock_inv split: Option.bind_splits)

lemma connect_inv:
  assumes "loop_tcp_connect ev st host port cbs = Some (r, st')" "loop_inv k st" "0 \<le> k"
  shows "loop_inv k st'"
proof -
  obtain ok w where new: "bufferevent_socket_new ev (lib st) (length (socks st)) (-1) = (ok, w)"
    by fastforce
  define a where "a = length (socks st)"
  define s where "s = \<lparr>bev = ok, sock_cb = cbs, has_dns = True\<rparr>"
  define st1 where "st1 = st\<lparr>socks := socks st @ [Some s], lib := w\<rparr>"
  have cbs: "cb_read cbs \<noteq> None" "cb_error cbs \<noteq> None"
    using assms(1) by (auto simp: loop_tcp_connect_def Let_def split: Option.bind_splits)
  have inv1: "loop_inv (k - 1) st1"
    using assms(2) cbs by (auto simp: loop_frame st1_def s_def)
  have room: "0 \<le> base_dns_users st1 \<and> base_dns_users st1 < int (length (socks st1))" if "few_handles st1"
    proof -
    have "loop_inv k st" "few_handles st" using assms(2) that by (simp_all add: few_handles_def st1_def)
    then have "live_users st + k \<le> base_dns_users st" "base_dns_users st \<le> int (length (socks st))"
      by (simp_all add: loop_inv_def users_inv_def)
    moreover have "0 \<le> live_users st" by (simp add: live_users_def)
    ultimately have "0 \<le> base_dns_users st" using assms(3) by linarith
    then show ?thesis using \<open>base_dns_users st \<le> int (length (socks st))\<close> by (simp add: st1_def)
  qed
  have h: "cell (socks st1) a = Some s" "has_dns s"
    by (simp_all add: st1_def cell_def s_def a_def)
  show ?thesis
  proof (cases ok)
    case False
    then have "st' = free_sock st1 a"
      using assms(1) new cbs h by (auto simp: loop_tcp_connect_def bad_end_def st1_def s_def cell_def a_def)
    then show ?thesis
      using free_user_inv [OF inv1 h] by simp
  next
    case True
    then have eq: "loop_tcp_connect ev st host port cbs = do {
        st \<leftarrow> evdns_refcount_increment ev st1;
        let (failed, w) = connect_hostname ev (lib st) a host port;
        let st = st\<lparr>lib := w\<rparr>;
        if failed then do { st \<leftarrow> bad_end ev st a; Some (None, st) }
        else Some (Some a, st) }"
      using new cbs by (simp add: loop_tcp_connect_def st1_def s_def Let_def flip: a_def)
    then obtain st2 where st2: "evdns_refcount_increment ev st1 = Some st2"
      using assms(1) by (auto split: Option.bind_splits)
    with increment_inv [OF st2 inv1 room] have "loop_inv k st2"
      by simp
    then show ?thesis
      using assms(1) eq st2 by (auto simp: Let_def split: prod.splits if_splits Option.bind_splits elim!: bad_end_inv)
  qed
qed

lemma api_step_inv:
  assumes "api_step ev st st'" "loop_inv k st" "0 \<le> k"
  shows "loop_inv k st'"
  using assms
proof (induction rule: api_step.induct)
  case (api_close st h st')
  then show ?case by (blast intro: close_inv)
next
  case (api_connect st host port cbs r st')
  then show ?case by (blast intro: connect_inv)
qed (auto simp: loop_add_timer_def loop_sock_peek_def loop_sock_drop_def loop_sock_write_def loop_tcp_listen_def
    loop_listener_close_def loop_watch_fd_for_reading_def loop_stop_watching_def loop_do_repeatedly_whenever_def
    loop_exit_early_def Let_def split: Option.bind_splits prod.splits if_splits elim!: loop_inv_frame)

lemma api_steps_inv:
  assumes "(api_step ev)\<^sup>*\<^sup>* st st'" "loop_inv k st" "0 \<le> k"
  shows "loop_inv k st'"
  using assms by (induction rule: rtranclp_induct) (auto intro: api_step_inv)

lemma call_inv:
  assumes "by_api ev call accept" "call cb arg st = Some st'" "loop_inv k st" "0 \<le> k"
  shows "loop_inv k st'"
  using assms api_steps_inv unfolding by_api_def by metis

lemma accept_inv:
  assumes "by_api ev call accept" "accept cb ip h st = Some (r, cbs, st')" "loop_inv k st" "0 \<le> k"
  shows "loop_inv k st'"
  using assms api_steps_inv unfolding by_api_def by metis

lemma timeout_inv:
  assumes "by_api ev call accept" "loop_timeout_cb ev call st t = Some st'" "loop_inv k st" "0 \<le> k"
  shows "loop_inv k st'"
proof -
  obtain cb where "call cb OnTimer (st\<lparr>lib := timer_event_free ev (lib st) t, timers := (timers st)[t := None]\<rparr>) = Some st'"
    using assms(2) by (auto simp: loop_timeout_cb_def Let_def split: Option.bind_splits)
  then show ?thesis
    by (rule call_inv [OF assms(1)]) (use assms(3,4) in \<open>simp_all add: loop_frame\<close>)
qed

lemma read_inv:
  assumes "by_api ev call accept" "loop_sock_cb_read ev call st h = Some st'" "loop_inv k st" "0 \<le> k"
  shows "loop_inv k st'"
  using assms call_inv [OF assms(1) _ assms(3,4)]
  by (auto simp: loop_sock_cb_read_def split: Option.bind_splits)

lemma event_inv:
  assumes "by_api ev call accept" "loop_sock_cb_event ev call st h e = Some st'" "loop_inv k st" "0 \<le> k"
  shows "loop_inv k st'"
proof -
  obtain s where s: "cell (socks st) h = Some s"
    using assms(2) by (auto simp: loop_sock_cb_event_def split: Option.bind_splits)
  have "loop_inv k st2" if "drop_dns ev st h s = Some st2" for st2
    using drop_dns_inv [OF that assms(3) s assms(4)] by simp
  then show ?thesis
    using assms(2-4) s call_inv [OF assms(1) _ _ assms(4)]
    by (auto simp: loop_sock_cb_event_def split: Option.bind_splits if_splits option.splits)
qed

lemma whenever_inv:
  assumes "by_api ev call accept" "0 \<le> k" "whenever_loop call i st = Some st'"  "loop_inv k st"
  shows "loop_inv k st'"
proof -
  have "call' = call \<longrightarrow> loop_inv k st \<longrightarrow> loop_inv k st'" if "whenever_loop call' i st = Some st'" for call'
    using that
    by (rule whenever_loop.raw_induct [of "\<lambda>call' i st st'. call' = call \<longrightarrow> loop_inv k st \<longrightarrow> loop_inv k st'", rotated])
      (auto split: Option.bind_splits if_splits dest: call_inv [OF assms(1) _ _ assms(2)])
  with assms(3,4) show ?thesis
    by blast
qed

lemma accept_conn_keeps:
  assumes "by_api ev call accept'" "loop_accept_conn ev call accept st l fd inet ip = Some st'"
    "loop_inv k st" "0 \<le> k"
    and acc_inv: "\<And>cb r cbs st2. accept cb ip (length (socks st)) (st\<lparr>socks := socks st @
      [Some \<lparr>bev = False, sock_cb = \<lparr>cb_error = None, cb_connect = None, cb_read = None\<rparr>, has_dns = False\<rparr>]\<rparr>) =
        Some (r, cbs, st2) \<Longrightarrow> loop_inv k st2"
  shows "loop_inv k st'"
proof -
  define h where "h = length (socks st)"
  define st1 where "st1 = st\<lparr>socks := socks st @
    [Some \<lparr>bev = False, sock_cb = \<lparr>cb_error = None, cb_connect = None, cb_read = None\<rparr>, has_dns = False\<rparr>]\<rparr>"
  obtain cb r cbs st2 where acc: "accept cb ip h st1 = Some (r, cbs, st2)" and live: "cell (socks st2) h \<noteq> None"
    and run: "(if r \<noteq> 0 then Some (free_sock (st2\<lparr>lib := close_fd ev (lib st2) fd\<rparr>) h)
     else do {
       c_assert (cb_read cbs \<noteq> None);
       c_assert (cb_error cbs \<noteq> None);
       let (ok, w) = bufferevent_socket_new ev (lib st2) h fd;
       let st = st2\<lparr>socks := (socks st2)[h := Some \<lparr>bev = ok, sock_cb = cbs, has_dns = False\<rparr>], lib := w\<rparr>;
       if \<not> ok then bad_end ev st h
       else case cb_connect cbs of
         None \<Rightarrow> Some st
       | Some cb \<Rightarrow> call cb (OnConnect h) st }) = Some st'"
    using assms(2) unfolding loop_accept_conn_def h_def st1_def Let_def
    by (auto split: Option.bind_splits)
  have inv2: "loop_inv k st2"
    using acc acc_inv by (simp add: st1_def h_def)
  have h2: "h < length (socks st2)"
    using live by (auto simp: cell_def split: if_splits)
  have new: "loop_inv k (st2\<lparr>socks := (socks st2)[h := Some \<lparr>bev = ok, sock_cb = cbs, has_dns = False\<rparr>], lib := w\<rparr>)"
    if "cb_read cbs \<noteq> None" "cb_error cbs \<noteq> None" for ok w
    by (rule loop_inv_replace [OF inv2 h2]) (use that in simp_all)
  show ?thesis
  proof (cases "r = 0")
    case False
    then show ?thesis
      using run free_sock_inv [of k "st2\<lparr>lib := close_fd ev (lib st2) fd\<rparr>" h] inv2 h2 by auto
  next
    case True
    obtain ok w where "bufferevent_socket_new ev (lib st2) h fd = (ok, w)"
      by fastforce
    moreover have cbs: "cb_read cbs \<noteq> None" "cb_error cbs \<noteq> None"
      using run True by (auto split: Option.bind_splits)
    ultimately show ?thesis
      using run True new [OF cbs] call_inv [OF assms(1) _ _ assms(4)]
      by (auto simp: Let_def elim: bad_end_inv split: if_splits option.splits)
  qed
qed

lemma new_handle_inv:
  "loop_inv k st \<Longrightarrow> loop_inv k (st\<lparr>socks := socks st @
    [Some \<lparr>bev = False, sock_cb = \<lparr>cb_error = None, cb_connect = None, cb_read = None\<rparr>, has_dns = False\<rparr>]\<rparr>)"
  by (auto simp: loop_frame)

lemma accept_conn_inv:
  assumes "by_api ev call accept" "loop_accept_conn ev call accept st l fd inet ip = Some st'"
    "loop_inv k st" "0 \<le> k"
  shows "loop_inv k st'"
  using accept_conn_keeps [OF assms] accept_inv [OF assms(1) _ new_handle_inv [OF assms(3)] assms(4)] by blast

lemma loop_step_inv:
  assumes "by_api ev call accept" "0 \<le> k" "loop_step ev call accept st st'" "loop_inv k st"
  shows "loop_inv k st'"
  using assms(3,4)
proof (cases rule: loop_step.cases)
  case (step_watch x)
  then show ?thesis
    using assms call_inv by (fastforce simp: loop_watch_fd_cb_def split: Option.bind_splits)
qed (use assms in \<open>blast intro: api_step_inv timeout_inv read_inv event_inv accept_conn_inv whenever_inv\<close>)+

lemma loop_steps_inv:
  assumes "by_api ev call accept" "0 \<le> k" "(loop_step ev call accept)\<^sup>*\<^sup>* st st'" "loop_inv k st"
  shows "loop_inv k st'"
  using assms(3,4) by (induction rule: rtranclp_induct) (auto intro: loop_step_inv [OF assms(1,2)])

lemma loop_reaches_inv:
  assumes "by_api ev call accept" "loop_reaches ev call accept w st"
  shows "loop_inv 0 st"
proof -
  obtain st0 where st0: "loop_setup ev (loop_start w) = Some st0" "(loop_step ev call accept)\<^sup>*\<^sup>* st0 st"
    using assms(2) by (auto simp: loop_reaches_def)
  have "loop_inv 0 st0"
    using st0(1) by (auto simp: loop_setup_def loop_start_def loop_frame split: prod.splits Option.bind_splits)
  then show ?thesis
    using loop_steps_inv [OF assms(1) _ st0(2)] by simp
qed

text \<open>The assertions of the resolver hold in every state with the invariant.\<close>

lemma drop_dns_runs:
  assumes "loop_inv k st" "0 \<le> k" "cell (socks st) h = Some s" "few_handles st"
  shows "drop_dns ev st h s \<noteq> None"
proof (cases "has_dns s")
  case True
  have users: "1 \<le> base_dns_users st" by (rule loop_inv_user [OF assms(1,4,2,3) True])
  then have "c_int (base_dns_users st - 1) = base_dns_users st - 1"
    using assms(1,4) by (intro c_int_count(2) [of _ "length (socks st)"]) (auto simp: loop_frame)
  with users show ?thesis
    using assms(1,4) by (auto simp: drop_dns_def evdns_refcount_decrement_def loop_inv_def users_inv_def Let_def)
qed (simp add: drop_dns_def)

lemma increment_runs:
  assumes "loop_inv k st" "0 \<le> k" "fst (evdns_base_new ev (lib st))" "few_handles st"
  shows "evdns_refcount_increment ev st \<noteq> None"
  using assms by (auto simp: evdns_refcount_increment_def loop_inv_def users_inv_def split: prod.splits)

text \<open>The functions called after every turn, in the order in which they were registered.\<close>

lemma whenever_loop_cases:
  "i \<ge> length (whenever_fns st) \<Longrightarrow> whenever_loop call i st = Some st"
  "i < length (whenever_fns st) \<Longrightarrow> call (whenever_fns st ! i) OnReady st = Some st' \<Longrightarrow>
     whenever_loop call i st = whenever_loop call (i + 1) st'"
  by (simp_all add: whenever_loop.simps)

text \<open>A call of \<open>loop_exit_early\<close> before the loop is started makes it end at once, and counts no more.\<close>

lemma loop_until_done_after_exit:
  "exiting_early st \<Longrightarrow> loop_until_done turn call st = Some (st\<lparr>exiting_early := False\<rparr>)"
  by (simp add: loop_until_done_def until_done_loop.simps)

lemma loop_until_done_no_events:
  "\<not> exiting_early st \<Longrightarrow> turn st = Some (1, st') \<Longrightarrow>
   loop_until_done turn call st = Some (st'\<lparr>exiting_early := False\<rparr>)"
  by (simp add: loop_until_done_def until_done_loop.simps)

section \<open>The properties\<close>

text \<open>C27: In every state that the loop reaches by making fewer than 2^31 handles, whatever the callbacks
  do with its functions and whatever libevent answers, the resolver exists exactly when it has users, and has at least one
  for every open handle marked as one; so no assertion of the two reference counting
  functions fails, when a handle gives its use back and when a new user comes.\<close>

theorem loop_resolver_counts:
  assumes "by_api ev call accept" and "loop_reaches ev call accept w st" and "length (socks st) < 2 ^ 31"
  shows "(base_dns st \<longleftrightarrow> base_dns_users st > 0) \<and> live_users st \<le> base_dns_users st \<and>
    (\<forall>h s. cell (socks st) h = Some s \<longrightarrow> drop_dns ev st h s \<noteq> None) \<and>
    (fst (evdns_base_new ev (lib st)) \<longrightarrow> evdns_refcount_increment ev st \<noteq> None)"
  using loop_reaches_inv [OF assms(1,2)] drop_dns_runs [of 0 st] increment_runs [of 0 st ev] assms(3)
  by (simp add: loop_inv_def users_inv_def few_handles_def)

text \<open>The handlers of a socket's events are aborted only by a callback: in a reachable state,
  for a handle with a bufferevent, they return when the callbacks return.\<close>

theorem loop_socket_handlers_return:
  assumes "by_api ev call accept" and "loop_reaches ev call accept w st"
    and "sock_cell (socks st) h = Some s" and "length (socks st) < 2 ^ 31"
    and "\<And>cb arg st. loop_inv 0 st \<Longrightarrow> sock_cell (socks st) h \<noteq> None \<Longrightarrow>
      arg = OnConnect h \<or> (\<exists>n. arg = OnRead n h) \<or> (\<exists>e. arg = OnError e h) \<Longrightarrow> call cb arg st \<noteq> None"
  shows "loop_sock_cb_event ev call st h events \<noteq> None \<and> loop_sock_cb_read ev call st h \<noteq> None"
proof -
  have inv: "loop_inv 0 st"
    by (rule loop_reaches_inv [OF assms(1,2)])
  have s: "cell (socks st) h = Some s" "bev s"
    using assms(3) by (auto simp: sock_cell_Some cell_Some)
  obtain r e where cbs: "cb_read (sock_cb s) = Some r" "cb_error (sock_cb s) = Some e"
    using loop_inv_cbs [OF inv s(1)] s(2) by auto
  obtain st2 where st2: "drop_dns ev st h s = Some st2"
    using drop_dns_runs [OF inv _ s(1)] assms(4) by (auto simp: few_handles_def)
  have "loop_inv 0 st2" "sock_cell (socks st2) h \<noteq> None"
    using drop_dns_inv [OF st2 inv s(1)] s(2) by (simp_all add: sock_cell_def)
  then have "call cb arg st2 \<noteq> None" "call cb arg st \<noteq> None"
    if "arg = OnConnect h \<or> (\<exists>n. arg = OnRead n h) \<or> (\<exists>e. arg = OnError e h)" for cb arg
    using assms(5) [of st2, OF _ _ that] assms(5) [OF inv _ that] assms(3) by simp_all
  then show ?thesis
    using assms(3) s st2 cbs
    by (simp add: loop_sock_cb_event_def loop_sock_cb_read_def the_cb_def split: option.splits)
qed

text \<open>a handle that is closed before it is connected never gives its use of the resolver back:
  in every later state the resolver is still there, with a user more than there are handles.\<close>

theorem loop_close_leaks_resolver:
  assumes "by_api ev call accept" and "loop_reaches ev call accept w st"
    and "sock_cell (socks st) h = Some s" and "has_dns s"
    and "loop_sock_close ev st h = Some st1" and "(loop_step ev call accept)\<^sup>*\<^sup>* st1 st2"
    and "length (socks st2) < 2 ^ 31"
  shows "base_dns st2 \<and> live_users st2 + 1 \<le> base_dns_users st2"
proof -
  have "loop_inv 1 st1"
    using free_user_inv [of 0 "st\<lparr>lib := bufferevent_free ev (lib st) h\<rparr>" h s] loop_reaches_inv [OF assms(1,2)]
      assms(3-5) by (auto simp: loop_sock_close_def sock_cell_Some cell_Some split: Option.bind_splits)
  then have "loop_inv 1 st2"
    using loop_steps_inv [OF assms(1) _ assms(6)] by simp
  moreover have "0 \<le> live_users st2"
    by (simp add: live_users_def)
  ultimately show ?thesis
    using assms(7) by (auto simp: loop_inv_def users_inv_def few_handles_def)
qed

text \<open>A connection that fails at once frees its handle and leaves a user; a program that tries for
  ever brings the count to its largest value, from where it wraps around: the resolver is there with
  a negative count, and when users of it are added and given back the assertion fails.\<close>

lemma loop_failed_connect_leaks:
  assumes "ev_base st" and "base_dns st" and "base_dns_users st \<noteq> 0"
    and "cb_read cbs \<noteq> None" and "cb_error cbs \<noteq> None"
    and "\<And>w h. fst (bufferevent_socket_new ev w h (-1))" and "\<And>w h. fst (connect_hostname ev w h host port)"
  shows "\<exists>w. loop_tcp_connect ev st host port cbs =
    Some (None, st\<lparr>socks := socks st @ [None], base_dns_users := c_int (base_dns_users st + 1), lib := w\<rparr>)"
proof -
  let ?h = "length (socks st)"
  obtain w1 where w1: "bufferevent_socket_new ev (lib st) ?h (-1) = (True, w1)"
    using assms(6) by (metis prod.collapse)
  obtain w2 where w2: "connect_hostname ev w1 ?h host port = (True, w2)"
    using assms(7) by (metis prod.collapse)
  show ?thesis
    using assms(1-5) w1 w2
    by (intro exI [of _ "bufferevent_free ev w2 ?h"])
      (simp add: loop_tcp_connect_def evdns_refcount_increment_def bad_end_def cell_def free_sock_def)
qed

lemma resolver_count_wraps:
  assumes "ev_base st" and "base_dns_users st = 2147483647"
  shows "evdns_refcount_increment ev st = Some (st\<lparr>base_dns_users := - 2147483648\<rparr>)"
    and "evdns_refcount_decrement ev (st\<lparr>base_dns_users := - 2147483647\<rparr>) = None"
  using assms by (simp_all add: evdns_refcount_increment_def evdns_refcount_decrement_def c_int_def Let_def
    split: Option.bind_split)

section \<open>A concrete run\<close>

text \<open>A library whose calls succeed, a program that closes a handle on an error, and its state with
  one connection under way.\<close>

definition demo_ev :: "unit libevent" where
  "demo_ev = \<lparr>event_base_new = (\<lambda>w. (True, w)), event_base_free = (\<lambda>w. w), event_base_loopbreak = (\<lambda>w. w),
     evdns_base_new = (\<lambda>w. (True, w)), evdns_base_free = (\<lambda>w. w),
     bufferevent_socket_new = (\<lambda>w h fd. (True, w)), bufferevent_free = (\<lambda>w h. w),
     connect_hostname = (\<lambda>w h host port. (False, w)), evbuffer_copyout = (\<lambda>w h n. (0, [], w)),
     evbuffer_drain = (\<lambda>w h n. w), evbuffer_add = (\<lambda>w h d. w), evbuffer_get_length = (\<lambda>w h. 0),
     evtimer_add = (\<lambda>w t s us. w), timer_event_free = (\<lambda>w t. w), watch_event_add = (\<lambda>w x fd. (True, w)),
     watch_event_free = (\<lambda>w x. w), evconnlistener_new_bind = (\<lambda>w l p. (True, w)),
     evconnlistener_free = (\<lambda>w l. w), close_fd = (\<lambda>w fd. w)\<rparr>"

definition demo_call :: "(unit, nat) caller" where
  "demo_call cb arg st = (case arg of OnError e h \<Rightarrow> loop_sock_close demo_ev st h | _ \<Rightarrow> Some st)"

definition demo_accept :: "(unit, nat) accepter" where
  "demo_accept cb ip h st = Some (1, \<lparr>cb_error = None, cb_connect = None, cb_read = None\<rparr>, st)"

definition demo_handle :: "nat sockhandle" where
  "demo_handle = \<lparr>bev = True, sock_cb = \<lparr>cb_error = Some 0, cb_connect = None, cb_read = Some 1\<rparr>, has_dns = True\<rparr>"

definition demo_loop :: "(unit, nat) loop" where
  "demo_loop = \<lparr>ev_base = True, base_dns = True, base_dns_users = 1, socks = [Some demo_handle], timers = [],
     watchers = [], listeners = [], whenever_fns = [], exiting_early = False, lib = ()\<rparr>"

lemma demo_by_api: "by_api demo_ev demo_call demo_accept"
  by (auto simp: by_api_def demo_call_def demo_accept_def split: cb_arg.splits intro: api_close)

lemma demo_reached: "loop_reaches demo_ev demo_call demo_accept () demo_loop"
proof -
  have "loop_tcp_connect demo_ev ((loop_start ())\<lparr>ev_base := True\<rparr>) ''host'' 7 (sock_cb demo_handle) = Some (Some 0, demo_loop)"
    by (simp add: loop_tcp_connect_def demo_ev_def evdns_refcount_increment_def loop_start_def demo_handle_def demo_loop_def)
  then have "loop_step demo_ev demo_call demo_accept ((loop_start ())\<lparr>ev_base := True\<rparr>) demo_loop"
    by (blast intro: step_api api_connect)
  moreover have "loop_setup demo_ev (loop_start ()) = Some ((loop_start ())\<lparr>ev_base := True\<rparr>)"
    by (simp add: loop_setup_def demo_ev_def loop_start_def)
  ultimately show ?thesis
    unfolding loop_reaches_def by blast
qed

theorem loop_resolver_counts_witness:
  "live_users demo_loop \<le> base_dns_users demo_loop \<and> drop_dns demo_ev demo_loop 0 demo_handle \<noteq> None"
  using loop_resolver_counts [OF demo_by_api demo_reached] by (simp add: cell_def demo_loop_def)

theorem loop_socket_handlers_return_witness:
  "loop_sock_cb_event demo_ev demo_call demo_loop 0 \<lparr>EVENT_CONNECTED = False, EVENT_ERROR = True, EVENT_EOF = False\<rparr> \<noteq> None"
proof -
  have h: "sock_cell (socks demo_loop) 0 = Some demo_handle"
    by (simp add: sock_cell_def cell_def demo_loop_def demo_handle_def)
  show ?thesis
    by (rule loop_socket_handlers_return [OF demo_by_api demo_reached h, THEN conjunct1])
      (auto simp: demo_call_def loop_sock_close_def demo_loop_def)
qed

theorem loop_close_leaks_resolver_witness:
  "base_dns (free_sock demo_loop 0) \<and> live_users (free_sock demo_loop 0) + 1 \<le> base_dns_users (free_sock demo_loop 0)"
  by (rule loop_close_leaks_resolver [OF demo_by_api demo_reached, of 0 demo_handle "free_sock demo_loop 0"])
    (simp_all add: sock_cell_def cell_def demo_loop_def demo_handle_def loop_sock_close_def demo_ev_def free_sock_def)

end
