(* ===== verification/Logger.thy ===== *)
theory Logger
  imports Prelude
begin

text \<open>
  \<open>src/src/logger.c\<close>: messages with a level, written to a descriptor. The line is put together in a
  buffer of 256 bytes by \<open>snprintf\<close>, which returns the length that the text would have had; the
  code adds these lengths up. The formatting of \<open>vsnprintf\<close> is a parameter: \<open>msg\<close> is the
  formatted message. A store or a read outside the buffer kills the run.
\<close>

record logger_state =
  log_level :: int
  log_fd :: int

definition LOG_BUF_SIZE :: nat where
  "LOG_BUF_SIZE = 256"

definition LOG_ALL :: int where "LOG_ALL = 0"
definition LOG_NONE :: int where "LOG_NONE = 4"

definition log_level_message :: "int \<Rightarrow> string" where
  "log_level_message level = (
     if level = 0 then ''junk'' else if level = 1 then ''info'' else if level = 2 then ''warn''
     else if level = 3 then ''error'' else ''unknown'')"

text \<open>\<open>snprintf(buf+at, LOG_BUF_SIZE-at, ...)\<close> of the text \<open>s\<close>: the size is a \<open>size_t\<close>, so a negative one
  is large. With room \<open>n > 0\<close> the first \<open>n-1\<close> characters and a zero are stored.\<close>

definition log_room :: "nat \<Rightarrow> nat" where
  "log_room at = unat (word_of_int (int LOG_BUF_SIZE - int at) :: u64)"

definition snprintf_at :: "char list \<Rightarrow> nat \<Rightarrow> string \<Rightarrow> (char list \<times> nat) run" where
  "snprintf_at buf at s = (
     let room = log_room at;
         d = (if room = 0 then [] else take (room - 1) s @ [CHR 0x00])
     in if d = [] then Some (buf, at + length s)
        else if at + length d \<le> length buf then Some (patch at d buf, at + length s)
        else None)"

text \<open>The three prints of a line with the prefix \<open>p\<close>, and the bytes that \<open>write\<close> reads.\<close>

definition print_line :: "char list \<Rightarrow> string \<Rightarrow> string \<Rightarrow> string run" where
  "print_line buf p msg = do {
     (buf, at) \<leftarrow> snprintf_at buf 0 p;
     (buf, at) \<leftarrow> snprintf_at buf at msg;
     (buf, at) \<leftarrow> snprintf_at buf at [CHR 0x0A];
     c_assert (at \<le> length buf);
     Some (take at buf) }"

text \<open>\<open>junk\<close> is what the buffer holds on entry; the result is the descriptor and the bytes written, if any.\<close>

definition logger :: "logger_state \<Rightarrow> char list \<Rightarrow> int \<Rightarrow> string \<Rightarrow> string \<Rightarrow> ((int \<times> string) option) run" where
  "logger st junk level module msg = (
     if level < log_level st then Some None
     else do {
       d \<leftarrow> print_line junk (''['' @ module @ ''] ('' @ log_level_message level @ '') '') msg;
       Some (Some (log_fd st, d)) })"

definition logger_set_output :: "logger_state \<Rightarrow> int \<Rightarrow> logger_state" where
  "logger_set_output st fd = st\<lparr>log_fd := fd\<rparr>"

definition logger_set_level :: "logger_state \<Rightarrow> int \<Rightarrow> logger_state" where
  "logger_set_level st level =
    (if level \<ge> LOG_ALL \<and> level \<le> LOG_NONE then st\<lparr>log_level := level\<rparr> else st)"

text \<open>The part of the line before the newline.\<close>

definition log_line :: "int \<Rightarrow> string \<Rightarrow> string \<Rightarrow> string" where
  "log_line level module msg = ''['' @ module @ ''] ('' @ log_level_message level @ '') '' @ msg"

lemma log_room_fits: "at \<le> 256 \<Longrightarrow> log_room at = 256 - at"
  by (auto simp: log_room_def LOG_BUF_SIZE_def unat_eq_nat_uint uint_word_of_int simp del: of_int_diff)

lemma log_room_wraps:
  assumes "256 < at" "at < 2 ^ 63"
  shows "0 < log_room at"
proof -
  have "(256 - int at) mod 2 ^ 64 = 256 - int at + 2 ^ 64"
    using assms by (intro mod_pos_pos_trivial [THEN trans [OF mod_add_self2 [symmetric]]]) auto
  then show ?thesis
    using assms by (simp add: log_room_def LOG_BUF_SIZE_def unat_eq_nat_uint uint_word_of_int del: of_int_diff)
qed

lemma snprintf_fits:
  assumes "length buf = 256" "at + length s < 256"
  shows "snprintf_at buf at s = Some (patch at (s @ [CHR 0x00]) buf, at + length s)"
  using assms by (simp add: snprintf_at_def log_room_fits Let_def)

lemma snprintf_cut:
  assumes "length buf = 256" "at \<le> 256"
  shows "\<exists>b. snprintf_at buf at s = Some (b, at + length s) \<and> length b = 256"
  using assms by (auto simp: snprintf_at_def log_room_fits Let_def length_patch min_def)

lemma snprintf_outside:
  assumes "length buf = 256" "256 < at" "at < 2 ^ 63"
  shows "snprintf_at buf at s = None"
  using assms log_room_wraps [OF assms(2,3)] by (simp add: snprintf_at_def Let_def)

lemma print_line_fits:
  assumes "length junk = 256" and "length p + length msg \<le> 255"
  shows "print_line junk p msg = Some (p @ msg @ [if length p + length msg = 255 then CHR 0x00 else CHR 0x0A])"
proof -
  define b where "b = patch (length p) (msg @ [CHR 0x00]) (patch 0 (p @ [CHR 0x00]) junk)"
  have b: "length b = 256" "take (length p + length msg) b = p @ msg"
    "b ! (length p + length msg) = CHR 0x00"
    using assms by (simp_all add: b_def patch_def nth_append min_def)
  have "print_line junk p msg = do {
      (buf, at) \<leftarrow> snprintf_at b (length p + length msg) [CHR 0x0A];
      c_assert (at \<le> length buf);
      Some (take at buf) }"
    using assms by (simp add: print_line_def snprintf_fits b_def length_patch)
  then show ?thesis
    using assms(2) b by (auto simp: snprintf_at_def log_room_fits Let_def patch_def take_Suc_conv_app_nth)
qed

lemma print_line_overruns:
  assumes "length junk = 256" and "256 \<le> length p + length msg" and "length p + length msg < 2 ^ 63"
  shows "print_line junk p msg = None"
proof -
  obtain b1 where b1: "snprintf_at junk 0 p = Some (b1, length p)" "length b1 = 256"
    using snprintf_cut [OF assms(1), of 0 p] by auto
  show ?thesis
  proof (cases "256 < length p")
    case True
    then show ?thesis
      using b1 assms(3) by (simp add: print_line_def snprintf_outside)
  next
    case False
    obtain b2 where b2: "snprintf_at b1 (length p) msg = Some (b2, length p + length msg)" "length b2 = 256"
      using snprintf_cut [OF b1(2), of "length p" msg] False by auto
    consider "length p + length msg = 256" | "256 < length p + length msg"
      using assms(2) by linarith
    then show ?thesis
    proof cases
      case 1
      then show ?thesis
        using b1 b2 snprintf_cut [OF b2(2), of 256 "[CHR 0x0A]"] by (auto simp: print_line_def)
    next
      case 2
      then show ?thesis
        using b1 b2 assms(3) by (simp add: print_line_def snprintf_outside)
    qed
  qed
qed

text \<open>C35: a message that is not filtered out is written as its line and a newline when the line has at
  most 254 characters; with 255 a zero takes the place of the newline, and a longer one stores or
  reads outside the buffer.\<close>

theorem logger_line_bound:
  assumes "length junk = 256" and "log_level st \<le> level" and "length (log_line level module msg) < 2 ^ 31"
  shows "logger st junk level module msg =
    (if length (log_line level module msg) \<le> 254
     then Some (Some (log_fd st, log_line level module msg @ [CHR 0x0A]))
     else if length (log_line level module msg) = 255
     then Some (Some (log_fd st, log_line level module msg @ [CHR 0x00]))
     else None)"
proof -
  define p where "p = ''['' @ module @ ''] ('' @ log_level_message level @ '') ''"
  have L: "log_line level module msg = p @ msg"
    by (simp add: log_line_def p_def)
  have run: "logger st junk level module msg = map_option (\<lambda>d. Some (log_fd st, d)) (print_line junk p msg)"
    using assms(2) by (simp add: logger_def p_def map_option_is_None split: Option.bind_splits)
  show ?thesis
    using print_line_fits [OF assms(1), of p msg] print_line_overruns [OF assms(1), of p msg] assms(3)
    by (auto simp: run L)
qed

theorem logger_line_bound_witness:
  "logger \<lparr>log_level = 1, log_fd = 2\<rparr> (replicate 256 CHR 0x00) 3 ''loop'' (replicate 300 CHR ''x'') = None"
  using logger_line_bound [of "replicate 256 CHR 0x00" "\<lparr>log_level = 1, log_fd = 2\<rparr>" 3 "''loop''" "replicate 300 CHR ''x''"]
  by (simp add: log_line_def log_level_message_def)

end
