(* ===== verification/Lua.thy ===== *)
theory Lua
  imports Complex_Main Prelude
begin

text \<open>
  What the bindings (\<open>src/src/lua/\<close>) use of the Lua interpreter. Lua is not part of the
  repository: its registry, its tables and metatables and its conversions are fields of a
  record over the interpreter's state \<open>'v\<close>, with the laws of its manual in \<open>lua_ok\<close>.

  A function bound to Lua takes the list of its arguments and returns the values left on the
  stack, or raises: \<open>lua_error\<close> leaves the C function at once, so the checks of arguments are
  written with the rest of the function as their last argument. The helpers of \<open>bind.h\<close> are
  here too.
\<close>

section \<open>Values\<close>

text \<open>Numbers are \<open>double\<close>s: a rational number, or an infinity or NaN.\<close>

datatype lnum = Fin rat | NotFin

text \<open>Userdata are addresses of the structs of the bindings, by their kind.\<close>

datatype lval = LNil | LBool bool | LNum lnum | LStr bytes | LTab nat | LFun nat
  | LDev nat | LSock nat | LLst nat

datatype lua_exc = BadArg int string | WrongCount nat nat | Message string | Thrown lval

type_synonym 'st lua_result = "((lua_exc + lval list) \<times> 'st) run"

type_synonym 'st lua_fn = "'st \<Rightarrow> lval list \<Rightarrow> 'st lua_result"

section \<open>The interpreter\<close>

record 'v lua_api =
  to_number :: "lval \<Rightarrow> lnum option"
  num_string :: "lnum \<Rightarrow> bytes"
  num_to_u64 :: "lnum \<Rightarrow> u64"
  num_to_int :: "lnum \<Rightarrow> int"
  u64_to_num :: "u64 \<Rightarrow> rat"
  error_text :: "lua_exc \<Rightarrow> bytes"
  luaL_where :: "'v \<Rightarrow> bytes"
  luaL_ref :: "'v \<Rightarrow> lval \<Rightarrow> int \<times> 'v"
  luaL_unref :: "'v \<Rightarrow> int \<Rightarrow> 'v"
  rawgeti :: "'v \<Rightarrow> int \<Rightarrow> lval"
  getfield :: "'v \<Rightarrow> lval \<Rightarrow> string \<Rightarrow> lval"
  setmetatable :: "'v \<Rightarrow> lval \<Rightarrow> string \<Rightarrow> 'v"
  has_metatable :: "'v \<Rightarrow> lval \<Rightarrow> string \<Rightarrow> bool"

definition LUA_REFNIL :: int where
  "LUA_REFNIL = -1"

text \<open>Userdata have each a metatable of its own; other values may share theirs.\<close>

fun is_userdata :: "lval \<Rightarrow> bool" where
  "is_userdata (LDev a) = True"
| "is_userdata (LSock a) = True"
| "is_userdata (LLst a) = True"
| "is_userdata _ = False"

text \<open>The manual's laws; \<open>live\<close> are the references in use with their values. Of a reference that
  is not in use nothing is said.\<close>

locale lua_interpreter =
  fixes api :: "'v lua_api"
    and live :: "'v \<Rightarrow> int \<Rightarrow> lval option"
  assumes number_law: "to_number api (LNum x) = Some x"
    and no_number: "to_number api (LDev a) = None" "to_number api LNil = None"
    and ref_new: "v \<noteq> LNil \<Longrightarrow> luaL_ref api w v = (r, w') \<Longrightarrow>
      r \<noteq> LUA_REFNIL \<and> live w r = None \<and> live w' = (live w)(r \<mapsto> v)"
    and ref_get: "live w r = Some v \<Longrightarrow> rawgeti api w r = v"
    and unref_law: "live w r \<noteq> None \<Longrightarrow> live (luaL_unref api w r) = (live w)(r := None)"
    and unref_nil: "live (luaL_unref api w LUA_REFNIL) = live w"
    and meta_set: "has_metatable api (setmetatable api w v m) v m"
    and meta_other: "is_userdata u \<Longrightarrow> u \<noteq> v \<Longrightarrow> has_metatable api (setmetatable api w v m) u n = has_metatable api w u n"
    and meta_live: "live (setmetatable api w v m) = live w"
    and meta_ref: "has_metatable api (snd (luaL_ref api w v)) u n = has_metatable api w u n"
    and meta_unref: "has_metatable api (luaL_unref api w r) u n = has_metatable api w u n"
    and field_ref: "getfield api (snd (luaL_ref api w v)) (LTab t) n = getfield api w (LTab t) n"
    and field_meta: "v \<noteq> LTab t \<Longrightarrow> getfield api (setmetatable api w v m) (LTab t) n = getfield api w (LTab t) n"
begin

lemma ref_then_get:
  assumes "v \<noteq> LNil" and "luaL_ref api w v = (r, w')"
  shows "rawgeti api w' r = v"
  using ref_new [OF assms] ref_get [of w' r v] by simp

lemma ref_keeps_get:
  assumes "v \<noteq> LNil" and "luaL_ref api w v = (r, w')" and "live w q = Some u"
  shows "rawgeti api w' q = u"
  using ref_new [OF assms(1,2)] ref_get [of w' q u] assms(3) by (cases "q = r") simp_all

end

section \<open>Checks of arguments\<close>

text \<open>Argument \<open>i\<close>, counted from 1; none is like nil for the checks made.\<close>

definition arg :: "lval list \<Rightarrow> nat \<Rightarrow> lval" where
  "arg args i = (if 1 \<le> i \<and> i \<le> length args then args ! (i - 1) else LNil)"

definition luaL_argcheck :: "bool \<Rightarrow> nat \<Rightarrow> string \<Rightarrow> 'st \<Rightarrow> 'st lua_result \<Rightarrow> 'st lua_result" where
  "luaL_argcheck c i msg st k = (if c then k else Some (Inl (BadArg (int i) msg), st))"

definition require_atleast :: "lval list \<Rightarrow> nat \<Rightarrow> 'st \<Rightarrow> 'st lua_result \<Rightarrow> 'st lua_result" where
  "require_atleast args ct st k =
    (if length args < ct then Some (Inl (WrongCount ct (length args)), st) else k)"

definition require_exactly :: "lval list \<Rightarrow> nat \<Rightarrow> 'st \<Rightarrow> 'st lua_result \<Rightarrow> 'st lua_result" where
  "require_exactly args ct st k =
    (if length args \<noteq> ct then Some (Inl (WrongCount ct (length args)), st) else k)"

definition luaL_checknumber ::
  "'v lua_api \<Rightarrow> lval list \<Rightarrow> nat \<Rightarrow> 'st \<Rightarrow> (lnum \<Rightarrow> 'st lua_result) \<Rightarrow> 'st lua_result" where
  "luaL_checknumber api args i st k =
    (case to_number api (arg args i) of
       None \<Rightarrow> Some (Inl (BadArg (int i) ''number expected''), st)
     | Some x \<Rightarrow> k x)"

definition luaL_checkint ::
  "'v lua_api \<Rightarrow> lval list \<Rightarrow> nat \<Rightarrow> 'st \<Rightarrow> (int \<Rightarrow> 'st lua_result) \<Rightarrow> 'st lua_result" where
  "luaL_checkint api args i st k = luaL_checknumber api args i st (\<lambda>x. k (num_to_int api x))"

text \<open>Strings, and numbers by their decimal form.\<close>

definition luaL_checklstring ::
  "'v lua_api \<Rightarrow> lval list \<Rightarrow> nat \<Rightarrow> 'st \<Rightarrow> (bytes \<Rightarrow> 'st lua_result) \<Rightarrow> 'st lua_result" where
  "luaL_checklstring api args i st k =
    (case arg args i of
       LStr s \<Rightarrow> k s
     | LNum x \<Rightarrow> k (num_string api x)
     | _ \<Rightarrow> Some (Inl (BadArg (int i) ''string expected''), st))"

text \<open>A string of C ends at its first zero.\<close>

definition c_string :: "bytes \<Rightarrow> string" where
  "c_string s = map (\<lambda>b. char_of (unat b)) (takeWhile (\<lambda>b. b \<noteq> 0) s)"

definition luaL_checkstring ::
  "'v lua_api \<Rightarrow> lval list \<Rightarrow> nat \<Rightarrow> 'st \<Rightarrow> (string \<Rightarrow> 'st lua_result) \<Rightarrow> 'st lua_result" where
  "luaL_checkstring api args i st k = luaL_checklstring api args i st (\<lambda>s. k (c_string s))"

definition luaL_checktype :: "bool \<Rightarrow> nat \<Rightarrow> 'st \<Rightarrow> 'st lua_result \<Rightarrow> 'st lua_result" where
  "luaL_checktype c i st k = luaL_argcheck c i ''wrong type'' st k"

fun is_LStr :: "lval \<Rightarrow> bool" where
  "is_LStr (LStr s) = True"
| "is_LStr _ = False"

fun is_LFun :: "lval \<Rightarrow> bool" where
  "is_LFun (LFun f) = True"
| "is_LFun _ = False"

fun is_LTab :: "lval \<Rightarrow> bool" where
  "is_LTab (LTab t) = True"
| "is_LTab _ = False"

section \<open>Strings and errors\<close>

text \<open>\<open>lua_pushstring\<close>.\<close>

definition lua_string :: "string \<Rightarrow> lval" where
  "lua_string s = LStr (map (\<lambda>c. of_nat (of_char c)) s)"

fun lua_typename :: "lval \<Rightarrow> string" where
  "lua_typename LNil = ''nil''"
| "lua_typename (LBool b) = ''boolean''"
| "lua_typename (LNum x) = ''number''"
| "lua_typename (LStr s) = ''string''"
| "lua_typename (LTab t) = ''table''"
| "lua_typename (LFun f) = ''function''"
| "lua_typename _ = ''userdata''"

text \<open>A number at an index that is read as a string becomes one.\<close>

fun as_lstring :: "'v lua_api \<Rightarrow> lval \<Rightarrow> bytes option" where
  "as_lstring api (LStr s) = Some s"
| "as_lstring api (LNum x) = Some (num_string api x)"
| "as_lstring api _ = None"

text \<open>The value that \<open>lua_pcall\<close> leaves on the stack for an error.\<close>

fun exc_value :: "'v lua_api \<Rightarrow> lua_exc \<Rightarrow> lval" where
  "exc_value api (Thrown v) = v"
| "exc_value api e = LStr (error_text api e)"

text \<open>A message behind a prefix; only strings and numbers can be concatenated.\<close>

definition prefixed_error :: "'v lua_api \<Rightarrow> bytes \<Rightarrow> lval \<Rightarrow> lua_exc" where
  "prefixed_error api p v =
    (case as_lstring api v of
       Some s \<Rightarrow> Thrown (LStr (p @ s))
     | None \<Rightarrow> Message (''attempt to concatenate a '' @ lua_typename v @ '' value''))"

definition ret :: "lval list \<Rightarrow> 'st \<Rightarrow> 'st lua_result" where
  "ret vs st = Some (Inr vs, st)"

text \<open>Calling a value, with what it does to the state; \<open>lua_call\<close> lets an error pass through the
  calling function, \<open>lua_pcall\<close> stops it there.\<close>

type_synonym 'st lua_caller = "lval \<Rightarrow> lval list \<Rightarrow> 'st \<Rightarrow> 'st lua_result"

text \<open>\<open>luaL_register\<close>: functions put into a table by their names.\<close>

type_synonym 'st registrar = "'st \<Rightarrow> lval \<Rightarrow> (string \<times> 'st lua_fn) list \<Rightarrow> 'st"

section \<open>Unsigned arguments\<close>

text \<open>\<open>fabs(v-round(v)) < 0.000001\<close>: the difference is exact. An infinite number minus itself is
  no number, for which the comparison is false.\<close>

fun close_to_int :: "lnum \<Rightarrow> bool" where
  "close_to_int (Fin q) = (\<bar>q - of_int (round q)\<bar> < 1 / 1000000)"
| "close_to_int NotFin = False"

text \<open>The conversion of C cuts the fraction off; outside the range of \<open>uint64_t\<close> it is up to the
  implementation.\<close>

definition c_trunc :: "rat \<Rightarrow> int" where
  "c_trunc q = (if 0 \<le> q then \<lfloor>q\<rfloor> else \<lceil>q\<rceil>)"

fun c_u64 :: "'v lua_api \<Rightarrow> lnum \<Rightarrow> u64" where
  "c_u64 api (Fin q) = (if -1 < q \<and> q < 2 ^ 64 then word_of_int (c_trunc q) else num_to_u64 api (Fin q))"
| "c_u64 api NotFin = num_to_u64 api NotFin"

fun num_ge0 :: "lnum \<Rightarrow> bool" where
  "num_ge0 (Fin q) = (0 \<le> q)"
| "num_ge0 NotFin = False"

fun num_gt0 :: "lnum \<Rightarrow> bool" where
  "num_gt0 (Fin q) = (0 < q)"
| "num_gt0 NotFin = False"

definition luaL_checkuint64 ::
  "'v lua_api \<Rightarrow> lval list \<Rightarrow> nat \<Rightarrow> 'st \<Rightarrow> (u64 \<Rightarrow> 'st lua_result) \<Rightarrow> 'st lua_result" where
  "luaL_checkuint64 api args i st k =
    luaL_checknumber api args i st (\<lambda>x.
    luaL_argcheck (close_to_int x) i ''is not an integer'' st (
    k (c_u64 api x)))"

text \<open>A number that the bindings give to Lua, rounded by the implementation above 2^53.\<close>

definition num_of_u64 :: "'v lua_api \<Rightarrow> u64 \<Rightarrow> lval" where
  "num_of_u64 api w = LNum (Fin (if unat w \<le> 2 ^ 53 then of_nat (unat w) else u64_to_num api w))"

lemmas lua_checks = luaL_argcheck_def require_exactly_def require_atleast_def luaL_checknumber_def
  luaL_checkint_def luaL_checklstring_def luaL_checkstring_def luaL_checktype_def luaL_checkuint64_def

lemma arg_simps [simp]:
  "arg (x # xs) (Suc 0) = x"
  "arg (x # y # xs) 2 = y"
  "arg (x # y # z # xs) 3 = z"
  by (simp_all add: arg_def)

lemma c_trunc_nat [simp]: "c_trunc (of_nat n) = int n"
  by (simp add: c_trunc_def)

lemma c_u64_nat: "n < 2 ^ 64 \<Longrightarrow> c_u64 api (Fin (of_nat n)) = of_nat n"
proof -
  assume "n < 2 ^ 64"
  then have "(of_nat n :: rat) < of_nat (2 ^ 64)" by (simp only: of_nat_less_iff)
  then show ?thesis by simp
qed

lemma close_to_int_nat [simp]: "close_to_int (Fin (of_nat n))"
  by simp

section \<open>An interpreter\<close>

text \<open>References are the places of a list, never used again; the metatables an association list.\<close>

record toy_vm =
  toy_refs :: "lval option list"
  toy_metas :: "(lval \<times> string) list"
  toy_fields :: "(lval \<times> string \<times> lval) list"

definition toy_live :: "'a toy_vm_scheme \<Rightarrow> int \<Rightarrow> lval option" where
  "toy_live w r = (if 0 \<le> r \<and> nat r < length (toy_refs w) then toy_refs w ! nat r else None)"

definition toy_lua :: "'a toy_vm_scheme lua_api" where
  "toy_lua =
    \<lparr>to_number = (\<lambda>v. case v of LNum x \<Rightarrow> Some x | _ \<Rightarrow> None), num_string = (\<lambda>x. []),
     num_to_u64 = (\<lambda>x. 0), num_to_int = (\<lambda>x. case x of Fin q \<Rightarrow> c_trunc q | NotFin \<Rightarrow> 0), u64_to_num = (\<lambda>w. of_nat (unat w)),
     error_text = (\<lambda>e. []), luaL_where = (\<lambda>w. []),
     luaL_ref = (\<lambda>w v. (int (length (toy_refs w)), w\<lparr>toy_refs := toy_refs w @ [Some v]\<rparr>)),
     luaL_unref = (\<lambda>w r. if 0 \<le> r then w\<lparr>toy_refs := (toy_refs w)[nat r := None]\<rparr> else w),
     rawgeti = (\<lambda>w r. case toy_live w r of None \<Rightarrow> LNil | Some v \<Rightarrow> v),
     getfield = (\<lambda>w t f. case find (\<lambda>(t', f', v). t' = t \<and> f' = f) (toy_fields w) of None \<Rightarrow> LNil | Some (_, _, v) \<Rightarrow> v),
     setmetatable = (\<lambda>w v m. w\<lparr>toy_metas := (v, m) # toy_metas w\<rparr>),
     has_metatable = (\<lambda>w v m. map_of (toy_metas w) v = Some m)\<rparr>"

interpretation toy: lua_interpreter toy_lua toy_live
  by unfold_locales
    (auto simp: toy_lua_def toy_live_def LUA_REFNIL_def fun_eq_iff nth_append nth_list_update split: if_splits)

end
