(* ===== verification/DevHeap.thy ===== *)
theory DevHeap
  imports Verify Xor Stripe Concat Slice PosixIO Encrypt Lazyzero Contract
begin

text \<open>
  One memory for a stack of devices. A layer's operations are functions of its own struct and
  the state below (\<open>Bdev\<close>); a program that opens layers at run time keeps all structs on the
  heap of C. Here the private parts of the devices are nodes of a store, a device is made to work
  on the store by loading its struct and storing it back, and a freed node kills the run. The
  lemmas carry the contract of a layer over to the store: what a device promises below survives
  that a new struct is put beside it.
\<close>

section \<open>The store\<close>

text \<open>The private parts of the devices, each with its generic block buffer.\<close>

datatype node = NMem "mem_io obj" | NFd "unit obj" | NConcat "concat_io obj" | NStripe "unit obj"
  | NXor "xor_io obj" | NVerify "verify_io obj" | NEncrypt "bytes obj" | NLazy "bcache obj"

record 'e heap =
  nodes :: "nat \<Rightarrow> node option"
  next_node :: nat
  ext :: 'e

fun as_mem :: "node \<Rightarrow> mem_io obj option" where
  "as_mem (NMem m) = Some m" | "as_mem _ = None"

fun as_fd :: "node \<Rightarrow> unit obj option" where
  "as_fd (NFd m) = Some m" | "as_fd _ = None"

fun as_concat :: "node \<Rightarrow> concat_io obj option" where
  "as_concat (NConcat m) = Some m" | "as_concat _ = None"

fun as_stripe :: "node \<Rightarrow> unit obj option" where
  "as_stripe (NStripe m) = Some m" | "as_stripe _ = None"

fun as_xor :: "node \<Rightarrow> xor_io obj option" where
  "as_xor (NXor m) = Some m" | "as_xor _ = None"

fun as_verify :: "node \<Rightarrow> verify_io obj option" where
  "as_verify (NVerify m) = Some m" | "as_verify _ = None"

fun as_encrypt :: "node \<Rightarrow> bytes obj option" where
  "as_encrypt (NEncrypt m) = Some m" | "as_encrypt _ = None"

fun as_lazy :: "node \<Rightarrow> bcache obj option" where
  "as_lazy (NLazy m) = Some m" | "as_lazy _ = None"

definition put_node :: "nat \<Rightarrow> node \<Rightarrow> 'e heap \<Rightarrow> 'e heap" where
  "put_node a n h = h\<lparr>nodes := (nodes h)(a := Some n)\<rparr>"

definition free_node :: "nat \<Rightarrow> 'e heap \<Rightarrow> 'e heap" where
  "free_node a h = h\<lparr>nodes := (nodes h)(a := None)\<rparr>"

definition new_node :: "node \<Rightarrow> 'e heap \<Rightarrow> nat \<times> 'e heap" where
  "new_node n h = (next_node h, (put_node (next_node h) n h)\<lparr>next_node := next_node h + 1\<rparr>)"

definition load :: "(node \<Rightarrow> 'm option) \<Rightarrow> nat \<Rightarrow> 'e heap \<Rightarrow> 'm run" where
  "load prj a h = (case nodes h a of None \<Rightarrow> None | Some n \<Rightarrow> prj n)"

section \<open>A device on the store\<close>

text \<open>\<open>get\<close> and \<open>put\<close> load and store the struct.\<close>

definition on_read ::
  "('h \<Rightarrow> 'm option) \<Rightarrow> ('m \<Rightarrow> 'h \<Rightarrow> 'h) \<Rightarrow> ('m \<times> 'h \<Rightarrow> (bool \<times> bytes \<times> 'm \<times> 'h) run) \<Rightarrow>
   'h \<Rightarrow> (bool \<times> bytes \<times> 'h) run" where
  "on_read get put f h = do {
     m \<leftarrow> get h;
     (ok, d, m, h) \<leftarrow> f (m, h);
     Some (ok, d, put m h) }"

definition on_write ::
  "('h \<Rightarrow> 'm option) \<Rightarrow> ('m \<Rightarrow> 'h \<Rightarrow> 'h) \<Rightarrow> ('m \<times> 'h \<Rightarrow> (bool \<times> 'm \<times> 'h) run) \<Rightarrow> 'h \<Rightarrow> (bool \<times> 'h) run" where
  "on_write get put f h = do {
     m \<leftarrow> get h;
     (ok, m, h) \<leftarrow> f (m, h);
     Some (ok, put m h) }"

definition on_run ::
  "('h \<Rightarrow> 'm option) \<Rightarrow> ('m \<Rightarrow> 'h \<Rightarrow> 'h) \<Rightarrow> ('m \<times> 'h \<Rightarrow> ('m \<times> 'h) run) \<Rightarrow> 'h \<Rightarrow> 'h run" where
  "on_run get put f h = do {
     m \<leftarrow> get h;
     (m, h) \<leftarrow> f (m, h);
     Some (put m h) }"

definition on_heap :: "('h \<Rightarrow> 'm option) \<Rightarrow> ('m \<Rightarrow> 'h \<Rightarrow> 'h) \<Rightarrow> ('m \<times> 'h) bdev \<Rightarrow> 'h bdev" where
  "on_heap get put d =
    \<lparr>block_size = block_size d, block_count = block_count d,
     read_bytes = (\<lambda>h start len into. on_read get put (\<lambda>st. read_bytes d st start len into) h),
     write_bytes = (\<lambda>h start len from. on_write get put (\<lambda>st. write_bytes d st start len from) h),
     read_block = (\<lambda>h which into. on_read get put (\<lambda>st. read_block d st which into) h),
     write_block = (\<lambda>h which from. on_write get put (\<lambda>st. write_block d st which from) h),
     clear_caches = on_run get put (clear_caches d),
     flush = on_run get put (flush d),
     sync = on_run get put (sync d)\<rparr>"

section \<open>The contract on the store\<close>

text \<open>A place for a struct beside a device whose validity and contents do not depend on it.\<close>

definition heap_valid :: "('h \<Rightarrow> 'm option) \<Rightarrow> ('m \<times> 'h \<Rightarrow> bool) \<Rightarrow> 'h \<Rightarrow> bool" where
  "heap_valid get valid h = (case get h of None \<Rightarrow> False | Some m \<Rightarrow> valid (m, h))"

definition heap_cont :: "('h \<Rightarrow> 'm option) \<Rightarrow> ('m \<times> 'h \<Rightarrow> bytes list) \<Rightarrow> 'h \<Rightarrow> bytes list" where
  "heap_cont get cont h = (case get h of None \<Rightarrow> [] | Some m \<Rightarrow> cont (m, h))"

locale node_slot =
  fixes get :: "'h \<Rightarrow> 'm option"
    and put :: "'m \<Rightarrow> 'h \<Rightarrow> 'h"
    and valid :: "'m \<times> 'h \<Rightarrow> bool"
    and cont :: "'m \<times> 'h \<Rightarrow> bytes list"
  assumes get_put: "get (put m h) = Some m"
    and valid_put: "valid (m, put m' h) = valid (m, h)"
    and cont_put: "cont (m, put m' h) = cont (m, h)"
begin

lemma heap_put [simp]:
  "heap_valid get valid (put m h) = valid (m, h)"
  "heap_cont get cont (put m h) = cont (m, h)"
  by (simp_all add: heap_valid_def heap_cont_def get_put valid_put cont_put)

lemma heap_validE:
  assumes "heap_valid get valid h"
  obtains m where "get h = Some m" "valid (m, h)" "heap_cont get cont h = cont (m, h)"
  using assms by (auto simp: heap_valid_def heap_cont_def split: option.splits)

lemma on_read_ok:
  assumes "heap_valid get valid h"
    and "\<And>m. valid (m, h) \<Longrightarrow> read_ok valid cont rel (m, h) into (data (cont (m, h))) (f (m, h))"
  shows "read_ok (heap_valid get valid) (heap_cont get cont) rel h into (data (heap_cont get cont h)) (on_read get put f h)"
proof -
  from assms(1) obtain m where m: "get h = Some m" "valid (m, h)" "heap_cont get cont h = cont (m, h)"
    by (rule heap_validE)
  obtain ok into' st where r: "f (m, h) = Some (ok, into', st)" "valid st" "cont st = cont (m, h)"
    "length into' = length into" "rel \<Longrightarrow> ok" "ok \<Longrightarrow> into' = patch 0 (data (cont (m, h))) into"
    using assms(2) [OF m(2)] by (rule read_okE) blast
  show ?thesis
    by (cases st, rule read_okI [of _ ok into' "put (fst st) (snd st)"])
      (use r m in \<open>simp_all add: on_read_def\<close>)
qed

lemma on_write_ok:
  assumes "heap_valid get valid h"
    and "\<And>m. valid (m, h) \<Longrightarrow> write_ok valid cont rel (m, h) A (data (cont (m, h))) (f (m, h))"
  shows "write_ok (heap_valid get valid) (heap_cont get cont) rel h A (data (heap_cont get cont h)) (on_write get put f h)"
proof -
  from assms(1) obtain m where m: "get h = Some m" "valid (m, h)" "heap_cont get cont h = cont (m, h)"
    by (rule heap_validE)
  obtain ok st where r: "f (m, h) = Some (ok, st)" "valid st" "rel \<Longrightarrow> ok"
    "same_except A (cont (m, h)) (cont st)" "ok \<Longrightarrow> cont st = data (cont (m, h))"
    using assms(2) [OF m(2)] by (rule write_okE) blast
  show ?thesis
    by (cases st, rule write_okI [of _ ok "put (fst st) (snd st)"])
      (use r m in \<open>simp_all add: on_write_def\<close>)
qed

lemma on_run_ok:
  assumes "heap_valid get valid h" and "\<And>m. valid (m, h) \<Longrightarrow> keeps valid cont (m, h) (f (m, h))"
  shows "keeps (heap_valid get valid) (heap_cont get cont) h (on_run get put f h)"
proof -
  from assms(1) obtain m where m: "get h = Some m" "valid (m, h)" "heap_cont get cont h = cont (m, h)"
    by (rule heap_validE)
  obtain st where r: "f (m, h) = Some st" "valid st" "cont st = cont (m, h)"
    using assms(2) [OF m(2)] by (rule keepsE)
  show ?thesis
    by (cases st, rule keepsI [of _ "put (fst st) (snd st)"]) (use r m in \<open>simp_all add: on_run_def\<close>)
qed

lemma on_heap_device:
  assumes d: "block_device d valid cont rel"
  shows "block_device (on_heap get put d) (heap_valid get valid) (heap_cont get cont) rel"
proof -
  note rw = block_device.axioms(1) [OF d]
  show ?thesis
  proof (unfold_locales, goal_cases)
    case (1 h)
    then show ?case
      by (rule heap_validE) (use block_rw.geometry [OF rw] in \<open>auto simp: on_heap_def\<close>)
  next
    case (2 h)
    then show ?case
      by (rule heap_validE) (use block_rw.contents [OF rw] in \<open>auto simp: on_heap_def\<close>)
  next
    case (3 h w into)
    then show ?case
      unfolding on_heap_def bdev.simps
      by (intro on_read_ok [where data = "\<lambda>c. c ! unat w"]) (auto intro: block_rw.read_law [OF rw])
  next
    case (4 h w "from")
    then show ?case
      unfolding on_heap_def bdev.simps
      by (intro on_write_ok [where data = "\<lambda>c. c[unat w := take (unat (block_size d)) from]"])
        (auto intro: block_rw.write_law [OF rw])
  next
    case (5 h start len into)
    then show ?case
      unfolding on_heap_def bdev.simps
      by (intro on_read_ok [where data = "\<lambda>c. take (unat len) (drop (unat start) (concat c))"])
        (auto intro: block_device.read_bytes_law [OF d])
  next
    case (6 h start len "from")
    then show ?case
      unfolding on_heap_def bdev.simps
      by (intro on_write_ok [where data = "write_at (unat (block_size d)) (unat start) (take (unat len) from)"])
        (auto intro: block_device.write_bytes_law [OF d])
  next
    case (7 h)
    then show ?case
      unfolding on_heap_def bdev.simps by (rule on_run_ok) (rule block_device.clear_caches_law [OF d])
  next
    case (8 h)
    then show ?case
      unfolding on_heap_def bdev.simps by (rule on_run_ok) (rule block_device.flush_law [OF d])
  next
    case (9 h)
    then show ?case
      unfolding on_heap_def bdev.simps by (rule on_run_ok) (rule block_device.sync_law [OF d])
  qed
qed

end

end
