(* ===== verification/BindBdev.thy ===== *)
theory BindBdev
  imports Lua DevHeap
begin

text \<open>
  \<open>src/src/lua/bind-bdevs.c\<close>: the devices as objects of Lua. A userdata points to a device and
  holds references to the userdata of the devices below, so that these are not collected before
  it. The arguments come from a script: every one is checked.

  The structs of the devices and the userdata are stores of addresses; the private parts of the
  devices are on the heap of \<open>DevHeap\<close>, whose \<open>ext\<close> is the interpreter and the operating system.
  \<open>err\<close> after a failed allocation ends the process, as everywhere.
\<close>

section \<open>The state\<close>

record 'e bdev_struct =
  fns :: "'e heap bdev"
  close_fn :: "'e heap \<Rightarrow> 'e heap run"
  dev_name :: string

text \<open>\<open>bd_freed\<close>: the list of references is freed, and its pointer kept.\<close>

record bdev_data =
  bd_dev :: "addr option"
  bd_refs :: "int list option"
  bd_freed :: bool

record 'e bd_state =
  hp :: "'e heap"
  structs :: "'e bdev_struct option list"
  udata :: "bdev_data option list"

definition vm :: "'e bd_state \<Rightarrow> 'e" where
  "vm st = ext (hp st)"

definition set_vm :: "'e \<Rightarrow> 'e bd_state \<Rightarrow> 'e bd_state" where
  "set_vm v st = st\<lparr>hp := (hp st)\<lparr>ext := v\<rparr>\<rparr>"

definition BDEV_META :: string where
  "BDEV_META = ''druid bdev''"

definition check_bdev :: "'e lua_api \<Rightarrow> 'e bd_state \<Rightarrow> lval \<Rightarrow> int \<Rightarrow> (addr \<Rightarrow> 'e bd_state lua_result) \<Rightarrow> 'e bd_state lua_result" where
  "check_bdev api st v i k =
    (case v of
       LDev a \<Rightarrow> if has_metatable api (vm st) v BDEV_META then k a
                else Some (Inl (BadArg i ''druid bdev expected''), st)
     | _ \<Rightarrow> Some (Inl (BadArg i ''druid bdev expected''), st))"

text \<open>\<open>bdd->dev\<close>, dereferenced.\<close>

definition bdev_of :: "'e bd_state \<Rightarrow> addr \<Rightarrow> 'e bdev_struct run" where
  "bdev_of st a = do {
     u \<leftarrow> cell (udata st) a;
     p \<leftarrow> bd_dev u;
     cell (structs st) p }"

section \<open>Methods\<close>

definition bind_bdev_get_name :: "'e lua_api \<Rightarrow> 'e bd_state lua_fn" where
  "bind_bdev_get_name api st args =
    require_exactly args 1 st (
    check_bdev api st (arg args 1) 1 (\<lambda>a. do {
      D \<leftarrow> bdev_of st a;
      ret [lua_string (dev_name D)] st }))"

definition bind_bdev_get_block_size :: "'e lua_api \<Rightarrow> 'e bd_state lua_fn" where
  "bind_bdev_get_block_size api st args =
    require_exactly args 1 st (
    check_bdev api st (arg args 1) 1 (\<lambda>a. do {
      D \<leftarrow> bdev_of st a;
      ret [num_of_u64 api (block_size (fns D))] st }))"

definition bind_bdev_get_block_count :: "'e lua_api \<Rightarrow> 'e bd_state lua_fn" where
  "bind_bdev_get_block_count api st args =
    require_exactly args 1 st (
    check_bdev api st (arg args 1) 1 (\<lambda>a. do {
      D \<leftarrow> bdev_of st a;
      ret [num_of_u64 api (block_count (fns D))] st }))"

definition bind_bdev_read_bytes :: "'e lua_api \<Rightarrow> allocator \<Rightarrow> 'e bd_state lua_fn" where
  "bind_bdev_read_bytes api alloc st args =
    require_exactly args 3 st (
    check_bdev api st (arg args 1) 1 (\<lambda>a.
    luaL_checkuint64 api args 2 st (\<lambda>start.
    luaL_checkuint64 api args 3 st (\<lambda>len. do {
      D \<leftarrow> bdev_of st a;
      let size = block_count (fns D) * block_size (fns D);
      luaL_checknumber api args 2 st (\<lambda>n. luaL_argcheck (num_ge0 n) 2 ''start cannot be negative'' st (
      luaL_checknumber api args 3 st (\<lambda>n. luaL_argcheck (num_ge0 n) 3 ''length cannot be negative'' st (
      luaL_argcheck (start < size \<and> start + len \<le> size) 2 ''Can't read past the end of the device'' st (
      luaL_argcheck (len > 0) 3 ''length cannot be zero'' st (do {
        data \<leftarrow> alloc (unat len);
        (ok, data, h) \<leftarrow> read_bytes (fns D) (hp st) start len data;
        ret [if ok then LStr data else LNil] (st\<lparr>hp := h\<rparr>) })))))) }))))"

definition bind_bdev_write_bytes :: "'e lua_api \<Rightarrow> 'e bd_state lua_fn" where
  "bind_bdev_write_bytes api st args =
    require_exactly args 3 st (
    check_bdev api st (arg args 1) 1 (\<lambda>a.
    luaL_checkuint64 api args 2 st (\<lambda>start.
    luaL_checktype (is_LStr (arg args 3)) 3 st (
    luaL_checklstring api args 3 st (\<lambda>data. do {
      let len = of_nat (length data);
      D \<leftarrow> bdev_of st a;
      let size = block_count (fns D) * block_size (fns D);
      luaL_checknumber api args 2 st (\<lambda>n. luaL_argcheck (num_ge0 n) 2 ''start cannot be negative'' st (
      luaL_argcheck (start < size \<and> start + len \<le> size) 2 ''Can't write past the end of the device'' st (
      luaL_argcheck (len > 0) 3 ''string length cannot be zero'' st (do {
        (ok, h) \<leftarrow> write_bytes (fns D) (hp st) start len data;
        ret [LBool ok] (st\<lparr>hp := h\<rparr>) })))) })))))"

definition bind_bdev_read_block :: "'e lua_api \<Rightarrow> allocator \<Rightarrow> 'e bd_state lua_fn" where
  "bind_bdev_read_block api alloc st args =
    require_exactly args 2 st (
    check_bdev api st (arg args 1) 1 (\<lambda>a.
    luaL_checkuint64 api args 2 st (\<lambda>which.
    luaL_checknumber api args 2 st (\<lambda>n. luaL_argcheck (num_ge0 n) 2 ''Can't read before the start of the device'' st (do {
      D \<leftarrow> bdev_of st a;
      luaL_argcheck (which < block_count (fns D)) 2 ''Can't read after the end of the device'' st (do {
        data \<leftarrow> alloc (unat (block_size (fns D)));
        (ok, data, h) \<leftarrow> read_block (fns D) (hp st) which data;
        ret [if ok then LStr data else LNil] (st\<lparr>hp := h\<rparr>) }) })))))"

definition bind_bdev_write_block :: "'e lua_api \<Rightarrow> 'e bd_state lua_fn" where
  "bind_bdev_write_block api st args =
    require_exactly args 3 st (
    check_bdev api st (arg args 1) 1 (\<lambda>a.
    luaL_checkuint64 api args 2 st (\<lambda>which.
    luaL_checktype (is_LStr (arg args 3)) 3 st (
    luaL_checklstring api args 3 st (\<lambda>data.
    luaL_checknumber api args 2 st (\<lambda>n. luaL_argcheck (num_ge0 n) 2 ''Can't write before the start of the device'' st (do {
      D \<leftarrow> bdev_of st a;
      luaL_argcheck (which < block_count (fns D)) 2 ''Can't write after the end of the device'' st (
      luaL_argcheck (of_nat (length data) = block_size (fns D)) 3 ''Can't write a string that isn't the length of the block size'' st (do {
        (ok, h) \<leftarrow> write_block (fns D) (hp st) which data;
        ret [LBool ok] (st\<lparr>hp := h\<rparr>) })) })))))))"

text \<open>The finaliser, which scripts can reach as a method too. The second time the list of
  references is freed again.\<close>

definition bind_bdev_close :: "'e lua_api \<Rightarrow> 'e bd_state lua_fn" where
  "bind_bdev_close api st args =
    require_exactly args 1 st (
    check_bdev api st (arg args 1) 1 (\<lambda>a. do {
      u \<leftarrow> cell (udata st) a;
      st \<leftarrow> (case bd_dev u of
          None \<Rightarrow> Some st
        | Some p \<Rightarrow> do {
            D \<leftarrow> cell (structs st) p;
            h \<leftarrow> close_fn D (hp st);
            Some (st\<lparr>hp := h, structs := (structs st)[p := None]\<rparr>) });
      let u = u\<lparr>bd_dev := None\<rparr>;
      case bd_refs u of
        None \<Rightarrow> ret [] (st\<lparr>udata := (udata st)[a := Some u]\<rparr>)
      | Some rs \<Rightarrow> do {
          c_assert (\<not> bd_freed u);
          let st = set_vm (foldl (luaL_unref api) (vm st) rs) st;
          ret [] (st\<lparr>udata := (udata st)[a := Some (u\<lparr>bd_freed := True\<rparr>)]\<rparr>) } }))"

definition bind_bdev_maintain ::
  "('e heap bdev \<Rightarrow> 'e heap \<Rightarrow> 'e heap run) \<Rightarrow> 'e lua_api \<Rightarrow> 'e bd_state lua_fn" where
  "bind_bdev_maintain op api st args =
    require_exactly args 1 st (
    check_bdev api st (arg args 1) 1 (\<lambda>a. do {
      D \<leftarrow> bdev_of st a;
      h \<leftarrow> op (fns D) (hp st);
      ret [] (st\<lparr>hp := h\<rparr>) }))"

definition bind_bdev_clear_caches :: "'e lua_api \<Rightarrow> 'e bd_state lua_fn" where
  "bind_bdev_clear_caches = bind_bdev_maintain clear_caches"

definition bind_bdev_flush :: "'e lua_api \<Rightarrow> 'e bd_state lua_fn" where
  "bind_bdev_flush = bind_bdev_maintain flush"

definition bind_bdev_sync :: "'e lua_api \<Rightarrow> 'e bd_state lua_fn" where
  "bind_bdev_sync = bind_bdev_maintain sync"

section \<open>Making a device an object\<close>

text \<open>When the layer refused, the list of references is freed, but they stay in the registry.\<close>

definition bind_bdev_wrap ::
  "'e lua_api \<Rightarrow> 'e bd_state \<Rightarrow> 'e bdev_struct option \<Rightarrow> int list option \<Rightarrow> 'e bd_state lua_result" where
  "bind_bdev_wrap api st dev refs =
    (case dev of
       None \<Rightarrow> ret [LNil] st
     | Some D \<Rightarrow>
         let p = length (structs st);
             a = length (udata st);
             st = st\<lparr>structs := structs st @ [Some D],
                     udata := udata st @ [Some \<lparr>bd_dev = Some p, bd_refs = refs, bd_freed = False\<rparr>]\<rparr>;
             st = set_vm (setmetatable api (vm st) (LDev a) BDEV_META) st
         in ret [LDev a] st)"

text \<open>The struct of a device that a layer has opened, with its private part on the heap.\<close>

definition make_dev ::
  "(node \<Rightarrow> 'm option) \<Rightarrow> ('m \<Rightarrow> node) \<Rightarrow> ('m \<times> 'e heap \<Rightarrow> 'e heap run) \<Rightarrow> string \<Rightarrow>
   ('m \<times> 'e heap) bdev \<Rightarrow> 'm \<Rightarrow> 'e bd_state \<Rightarrow> 'e bdev_struct \<times> 'e bd_state" where
  "make_dev prj mk closef name d m st =
    (let (n, h) = new_node (mk m) (hp st)
     in (\<lparr>fns = on_heap (load prj n) (\<lambda>m. put_node n (mk m)) d,
          close_fn = (\<lambda>h. do { m \<leftarrow> load prj n h; h \<leftarrow> closef (m, h); Some (free_node n h) }),
          dev_name = take 127 name\<rparr>, st\<lparr>hp := h\<rparr>))"

fun dec :: "nat \<Rightarrow> string" where
  "dec n = (if n < 10 then [char_of (48 + n)] else dec (n div 10) @ [char_of (48 + n mod 10)])"

declare dec.simps [simp del]

section \<open>Memory\<close>

definition bind_bio_create_malloc :: "'e lua_api \<Rightarrow> allocator \<Rightarrow> 'e bd_state lua_fn" where
  "bind_bio_create_malloc api alloc st args =
    require_exactly args 2 st (
    luaL_checkuint64 api args 1 st (\<lambda>bs.
    luaL_checkuint64 api args 2 st (\<lambda>blocks.
    luaL_argcheck (bs \<ge> 1) 1 ''Unreasonable block size'' st (
    luaL_argcheck (bs \<le> 0x100000) 1 ''Unreasonable block size'' st (
    luaL_argcheck (blocks \<ge> 1) 2 ''Zero block count'' st (do {
      d \<leftarrow> bio_create_malloc alloc (hp st) bs blocks;
      case d of
        None \<Rightarrow> bind_bdev_wrap api st None None
      | Some (d, ms) \<Rightarrow>
          let (D, st) = make_dev as_mem NMem mem_malloc_close
            (''malloc('' @ dec (unat (bs * blocks)) @ '' bytes)'') d (fst ms) st
          in bind_bdev_wrap api st (Some D) None }))))))"

section \<open>Files\<close>

text \<open>The system calls of \<open>bind_file\<close>: \<open>open\<close> (the flag is \<open>O_CREAT\<close>), \<open>fstat\<close> with the block size it
  gives, \<open>lseek\<close> to the end with the size or -1, \<open>ftruncate\<close>.\<close>

record 'e files =
  fs_open :: "'e \<Rightarrow> string \<Rightarrow> bool \<Rightarrow> int \<times> 'e"
  fs_stat :: "'e \<Rightarrow> int \<Rightarrow> u64 option \<times> 'e"
  fs_seek_end :: "'e \<Rightarrow> int \<Rightarrow> int \<times> 'e"
  fs_truncate :: "'e \<Rightarrow> int \<Rightarrow> u64 \<Rightarrow> int \<times> 'e"

text \<open>The system calls of the devices, on the heap.\<close>

definition heap_os :: "'e os \<Rightarrow> 'e heap os" where
  "heap_os os =
    \<lparr>os_pread = (\<lambda>h fd n off. let (r, d, e) = os_pread os (ext h) fd n off in (r, d, h\<lparr>ext := e\<rparr>)),
     os_pwrite = (\<lambda>h fd d off. let (r, e) = os_pwrite os (ext h) fd d off in (r, h\<lparr>ext := e\<rparr>)),
     os_fsync = (\<lambda>h fd. let (r, e) = os_fsync os (ext h) fd in (r, h\<lparr>ext := e\<rparr>)),
     os_close = (\<lambda>h fd. let (r, e) = os_close os (ext h) fd in (r, h\<lparr>ext := e\<rparr>)),
     os_mmap = (\<lambda>h n fd off. let (m, e) = os_mmap os (ext h) n fd off in (m, h\<lparr>ext := e\<rparr>)),
     os_msync = (\<lambda>h m fl. let (r, d, e) = os_msync os (ext h) m fl in (r, d, h\<lparr>ext := e\<rparr>)),
     os_munmap = (\<lambda>h m. let (r, e) = os_munmap os (ext h) m in (r, h\<lparr>ext := e\<rparr>))\<rparr>"

text \<open>What follows once the arguments are checked; \<open>None\<close> for an argument that is not given.\<close>

definition open_file ::
  "'e lua_api \<Rightarrow> allocator \<Rightarrow> 'e os \<Rightarrow> 'e files \<Rightarrow> 'e bd_state \<Rightarrow> string \<Rightarrow> u64 option \<Rightarrow> u64 option \<Rightarrow> u64 \<Rightarrow>
   'e bd_state lua_result" where
  "open_file api alloc os fs st filename bs_arg blocks_arg offset = do {
     let (fd, v) = fs_open fs (vm st) filename (blocks_arg \<noteq> None);
     let st = set_vm v st;
     if fd = -1 then ret [LNil] st
     else do {
       let (blksize, v) = fs_stat fs (vm st) fd;
       let st = set_vm v st;
       case blksize of
         None \<Rightarrow> ret [LNil] (set_vm (snd (os_close os (vm st) fd)) st)
       | Some blksize \<Rightarrow> do {
           bs \<leftarrow> (case bs_arg of
               Some bs \<Rightarrow> do { _ \<leftarrow> c_mod bs blksize; Some bs }
             | None \<Rightarrow> do { c_assert (blksize > 0); Some blksize });
           let (size, v) = fs_seek_end fs (vm st) fd;
           let st = set_vm v st;
           if size = -1 then ret [LNil] (set_vm (snd (os_close os (vm st) fd)) st)
           else do {
             (blocks, st) \<leftarrow> (case blocks_arg of
                 Some blocks \<Rightarrow>
                   let wanted = bs * blocks + offset
                   in Some (blocks, if word_of_int size < wanted then set_vm (snd (fs_truncate fs (vm st) fd wanted)) st else st)
               | None \<Rightarrow> do { n \<leftarrow> c_div (word_of_int size + bs - 1) bs; Some (n, st) });
             (d, m) \<leftarrow> bio_create_posixfd alloc (heap_os os) bs fd blocks offset True;
             let (D, st) = make_dev as_fd NFd
               (fd_close (heap_os os) \<lparr>fio_fd = fd, fio_offset = offset, fio_inherit_fd = True\<rparr>)
               (''posixio('' @ dec (unat (bs * blocks)) @ '' bytes in '' @ filename @ '')'') d m st;
             bind_bdev_wrap api st (Some D) None } } } }"

definition bind_file :: "'e lua_api \<Rightarrow> allocator \<Rightarrow> 'e os \<Rightarrow> 'e files \<Rightarrow> 'e bd_state lua_fn" where
  "bind_file api alloc os fs st args =
    require_atleast args 1 st (
    luaL_checkstring api args 1 st (\<lambda>filename.
    let check_optional = (\<lambda>i k. if length args \<ge> i then luaL_checkuint64 api args i st (\<lambda>x. k (Some x)) else k None)
    in check_optional 2 (\<lambda>bs.
       check_optional 3 (\<lambda>blocks.
       check_optional 4 (\<lambda>offset.
       luaL_argcheck (bs \<noteq> None \<longrightarrow> the bs \<ge> 1) 1 ''Unreasonable block size'' st (
       luaL_argcheck (bs \<noteq> None \<longrightarrow> the bs \<le> 0x100000) 1 ''Unreasonable block size'' st (
       luaL_argcheck (blocks \<noteq> None \<longrightarrow> the blocks \<ge> 1) 2 ''Zero block count'' st (
       open_file api alloc os fs st filename bs blocks (case offset of None \<Rightarrow> 0 | Some x \<Rightarrow> x)))))))))"

section \<open>Layers over one device\<close>

text \<open>A reference to the userdata below.\<close>

definition ref_dev :: "'e lua_api \<Rightarrow> 'e bd_state \<Rightarrow> lval \<Rightarrow> int \<times> 'e bd_state" where
  "ref_dev api st v = (let (r, w) = luaL_ref api (vm st) v in (r, set_vm w st))"

text \<open>The length of a string as an \<open>int\<close>.\<close>

definition c_int :: "nat \<Rightarrow> int" where
  "c_int n = sint (of_nat n :: u32)"

definition bind_encrypt_create :: "'e lua_api \<Rightarrow> 'k crypto \<Rightarrow> allocator \<Rightarrow> (nat \<Rightarrow> u64) \<Rightarrow> 'e bd_state lua_fn" where
  "bind_encrypt_create api c alloc rnd st args =
    require_exactly args 2 st (
    check_bdev api st (arg args 1) 1 (\<lambda>a.
    luaL_checklstring api args 2 st (\<lambda>key. do {
      D \<leftarrow> bdev_of st a;
      (ok, h) \<leftarrow> encrypt_create c alloc rnd (fns D) (hp st) key (c_int (length key));
      ret [LBool ok] (st\<lparr>hp := h\<rparr>) })))"

definition bind_encrypt_open :: "'e lua_api \<Rightarrow> 'k crypto \<Rightarrow> allocator \<Rightarrow> 'e bd_state lua_fn" where
  "bind_encrypt_open api c alloc st args =
    require_exactly args 2 st (
    check_bdev api st (arg args 1) 1 (\<lambda>a.
    luaL_checklstring api args 2 st (\<lambda>key. do {
      D \<leftarrow> bdev_of st a;
      (d, h) \<leftarrow> encrypt_open c alloc (fns D) (hp st) key (c_int (length key));
      let (r, st) = ref_dev api (st\<lparr>hp := h\<rparr>) (arg args 1);
      case d of
        None \<Rightarrow> bind_bdev_wrap api st None (Some [r])
      | Some (d, io, m) \<Rightarrow>
          let (D, st) = make_dev as_encrypt NEncrypt encrypt_close ''encrypt'' d m st
          in bind_bdev_wrap api st (Some D) (Some [r]) })))"

definition bind_slice_open :: "'e lua_api \<Rightarrow> 'e bd_state lua_fn" where
  "bind_slice_open api st args =
    require_exactly args 3 st (
    check_bdev api st (arg args 1) 1 (\<lambda>a.
    luaL_checkuint64 api args 2 st (\<lambda>start.
    luaL_checkuint64 api args 3 st (\<lambda>len.
    luaL_checknumber api args 2 st (\<lambda>n. luaL_argcheck (num_ge0 n) 2 ''Can't open a slice to before the start of the device'' st (do {
      D \<leftarrow> bdev_of st a;
      luaL_argcheck (start + len \<le> block_count (fns D)) 2 ''Can't open a slice to after the end of the device'' st (
      luaL_checknumber api args 3 st (\<lambda>n. luaL_argcheck (num_gt0 n) 3 ''Can't open a slice with a non-positive size'' st (do {
        let (r, st) = ref_dev api st (arg args 1);
        d \<leftarrow> slice_open (fns D) start len;
        bind_bdev_wrap api st
          (map_option (\<lambda>d. \<lparr>fns = d, close_fn = slice_close,
             dev_name = take 127 (''slice(offset='' @ dec (unat (start * block_size (fns D))) @
               '', length='' @ dec (unat (len * block_size (fns D))) @ '')'')\<rparr>) d)
          (Some [r]) }))) }))))))"

definition bind_verify_create :: "'e lua_api \<Rightarrow> allocator \<Rightarrow> 'e bd_state lua_fn" where
  "bind_verify_create api alloc st args =
    require_exactly args 1 st (
    check_bdev api st (arg args 1) 1 (\<lambda>a. do {
      let (r, st) = ref_dev api st (arg args 1);
      D \<leftarrow> bdev_of st a;
      d \<leftarrow> verify_create alloc (fns D);
      case d of
        None \<Rightarrow> bind_bdev_wrap api st None (Some [r])
      | Some (d, io, m) \<Rightarrow>
          let (D, st) = make_dev as_verify NVerify verify_close ''verify'' d m st
          in bind_bdev_wrap api st (Some D) (Some [r]) }))"

definition bind_lazyzero_create :: "'e lua_api \<Rightarrow> allocator \<Rightarrow> 'e bd_state lua_fn" where
  "bind_lazyzero_create api alloc st args =
    require_exactly args 1 st (
    check_bdev api st (arg args 1) 1 (\<lambda>a. do {
      D \<leftarrow> bdev_of st a;
      (ok, h) \<leftarrow> lazyzero_create alloc (fns D) (hp st);
      ret [LBool ok] (st\<lparr>hp := h\<rparr>) }))"

definition bind_lazyzero_open :: "'e lua_api \<Rightarrow> allocator \<Rightarrow> 'e bd_state lua_fn" where
  "bind_lazyzero_open api alloc st args =
    require_exactly args 1 st (
    check_bdev api st (arg args 1) 1 (\<lambda>a. do {
      let (r, st) = ref_dev api st (arg args 1);
      D \<leftarrow> bdev_of st a;
      (d, h) \<leftarrow> lazyzero_open alloc (fns D) (hp st);
      let st = st\<lparr>hp := h\<rparr>;
      case d of
        None \<Rightarrow> bind_bdev_wrap api st None (Some [r])
      | Some (d, io, m) \<Rightarrow>
          let (L, st) = make_dev as_lazy NLazy (lazyzero_close (fns D)) ''lazyzero'' d m st
          in bind_bdev_wrap api st (Some L) (Some [r]) }))"

section \<open>Layers over several devices\<close>

text \<open>The loop over the arguments: every device is checked, compared with those before it, and
  referenced. An argument that is refused leaves the references made so far.\<close>

fun collect_devs ::
  "'e lua_api \<Rightarrow> lval list \<Rightarrow> nat list \<Rightarrow> int list \<Rightarrow> addr option list \<Rightarrow> 'e bd_state \<Rightarrow>
   (int list \<Rightarrow> addr option list \<Rightarrow> 'e bd_state \<Rightarrow> 'e bd_state lua_result) \<Rightarrow> 'e bd_state lua_result" where
  "collect_devs api args [] refs devices st k = k refs devices st"
| "collect_devs api args (i # is) refs devices st k =
    check_bdev api st (arg args (i + 1)) (-1) (\<lambda>a. do {
      u \<leftarrow> cell (udata st) a;
      luaL_argcheck (bd_dev u \<notin> set devices) (i + 1) ''Can't concat a device with itself'' st (
      let (r, st) = ref_dev api st (arg args (i + 1))
      in collect_devs api args is (refs @ [r]) (devices @ [bd_dev u]) st k) })"

primrec deref_devs :: "'e bd_state \<Rightarrow> addr option list \<Rightarrow> 'e heap bdev list run" where
  "deref_devs st [] = Some []"
| "deref_devs st (p # ps) = do {
     p \<leftarrow> p;
     D \<leftarrow> cell (structs st) p;
     ds \<leftarrow> deref_devs st ps;
     Some (fns D # ds) }"

definition bind_concat_open :: "'e lua_api \<Rightarrow> allocator \<Rightarrow> 'e bd_state lua_fn" where
  "bind_concat_open api alloc st args =
    require_atleast args 1 st (
    collect_devs api args [0..<length args] [] [] st (\<lambda>refs devices st. do {
      ds \<leftarrow> deref_devs st devices;
      d \<leftarrow> concat_open alloc ds;
      case d of
        None \<Rightarrow> bind_bdev_wrap api st None (Some refs)
      | Some (d, m) \<Rightarrow>
          let (D, st) = make_dev as_concat NConcat concat_close ''concat'' d m st
          in bind_bdev_wrap api st (Some D) (Some refs) }))"

definition bind_stripe_open :: "'e lua_api \<Rightarrow> allocator \<Rightarrow> 'e bd_state lua_fn" where
  "bind_stripe_open api alloc st args =
    require_atleast args 1 st (
    collect_devs api args [0..<length args] [] [] st (\<lambda>refs devices st. do {
      ds \<leftarrow> deref_devs st devices;
      d \<leftarrow> stripe_open alloc ds;
      case d of
        None \<Rightarrow> bind_bdev_wrap api st None (Some refs)
      | Some (d, m) \<Rightarrow>
          let (D, st) = make_dev as_stripe NStripe stripe_close ''stripe'' d m st
          in bind_bdev_wrap api st (Some D) (Some refs) }))"

definition bind_xor_open :: "'e lua_api \<Rightarrow> allocator \<Rightarrow> 'e bd_state lua_fn" where
  "bind_xor_open api alloc st args =
    require_atleast args 3 st (
    collect_devs api args [0..<length args] [] [] st (\<lambda>refs devices st. do {
      ds \<leftarrow> deref_devs st devices;
      d \<leftarrow> xor_open alloc ds;
      case d of
        None \<Rightarrow> bind_bdev_wrap api st None (Some refs)
      | Some (d, m) \<Rightarrow>
          let (D, st) = make_dev as_xor NXor xor_close ''xor'' d m st
          in bind_bdev_wrap api st (Some D) (Some refs) }))"

section \<open>The tables of functions\<close>

text \<open>What the metatable, which is its own index, finds for a name.\<close>

definition bdev_methods :: "'e lua_api \<Rightarrow> allocator \<Rightarrow> (string \<times> 'e bd_state lua_fn) list" where
  "bdev_methods api alloc =
    [(''__gc'', bind_bdev_close api),
     (''name'', bind_bdev_get_name api),
     (''block_size'', bind_bdev_get_block_size api),
     (''block_count'', bind_bdev_get_block_count api),
     (''read_bytes'', bind_bdev_read_bytes api alloc),
     (''write_bytes'', bind_bdev_write_bytes api),
     (''read_block'', bind_bdev_read_block api alloc),
     (''write_block'', bind_bdev_write_block api),
     (''clear_caches'', bind_bdev_clear_caches api),
     (''flush'', bind_bdev_flush api),
     (''sync'', bind_bdev_sync api)]"

definition bind_bdevs ::
  "'e bd_state registrar \<Rightarrow> 'e lua_api \<Rightarrow> allocator \<Rightarrow> 'e os \<Rightarrow> 'e files \<Rightarrow> 'k crypto \<Rightarrow> (nat \<Rightarrow> u64) \<Rightarrow> 'e bd_state lua_fn" where
  "bind_bdevs register api alloc os fs c rnd st args =
    require_exactly args 1 st (
    luaL_checktype (is_LTab (arg args 1)) 1 st (
    ret [arg args 1] (register st (arg args 1)
      [(''ram'', bind_bio_create_malloc api alloc),
       (''file'', bind_file api alloc os fs),
       (''concat'', bind_concat_open api alloc),
       (''encrypt_initialize'', bind_encrypt_create api c alloc rnd),
       (''encrypt'', bind_encrypt_open api c alloc),
       (''slice'', bind_slice_open api),
       (''stripe'', bind_stripe_open api alloc),
       (''verify'', bind_verify_create api alloc),
       (''lazyzero_initialize'', bind_lazyzero_create api alloc),
       (''lazyzero'', bind_lazyzero_open api alloc),
       (''xor'', bind_xor_open api alloc)])))"

end
