(* ===== verification/BindBdevProps.thy ===== *)
theory BindBdevProps
  imports BindBdev VerifyContract
begin

text \<open>
  What a script can and cannot do with a device: over a device that keeps its contract no call
  with any arguments ends the process, except for a length so large that the check of the range
  wraps around; a stack of layers built by calls keeps the contract of its layers.
\<close>

section \<open>An object of a device\<close>

definition dev_object :: "'e lua_api \<Rightarrow> 'e bd_state \<Rightarrow> addr \<Rightarrow> 'e bdev_struct \<Rightarrow> bool" where
  "dev_object api st a D \<longleftrightarrow> bdev_of st a = Some D \<and> has_metatable api (vm st) (LDev a) BDEV_META"

lemma check_bdev_object [simp]:
  "dev_object api st a D \<Longrightarrow> check_bdev api st (LDev a) i k = k a"
  by (simp add: check_bdev_def dev_object_def)

lemma object_bdev_of [simp]: "dev_object api st a D \<Longrightarrow> bdev_of st a = Some D"
  by (simp add: dev_object_def)

text \<open>A call returns: it raised and left everything as it was, or it ran the device and gave \<open>P\<close>.\<close>

definition call_ok ::
  "('e heap \<Rightarrow> bool) \<Rightarrow> 'e bd_state \<Rightarrow> (lval list \<Rightarrow> 'e heap \<Rightarrow> bool) \<Rightarrow> 'e bd_state lua_result \<Rightarrow> bool" where
  "call_ok valid st P r \<longleftrightarrow>
     (\<exists>e. r = Some (Inl e, st)) \<or>
     (\<exists>vs h. r = Some (Inr vs, st\<lparr>hp := h\<rparr>) \<and> valid h \<and> P vs h)"

lemma call_ok_raise [simp]: "call_ok valid st P (Some (Inl e, st))"
  by (simp add: call_ok_def)

lemma call_ok_ret: "valid h \<Longrightarrow> P vs h \<Longrightarrow> call_ok valid st P (ret vs (st\<lparr>hp := h\<rparr>))"
  by (auto simp: call_ok_def ret_def)

lemma call_ok_checks [intro!]:
  "(c \<Longrightarrow> call_ok valid st P r) \<Longrightarrow> call_ok valid st P (luaL_argcheck c i msg st r)"
  "(length args = n \<Longrightarrow> call_ok valid st P r) \<Longrightarrow> call_ok valid st P (require_exactly args n st r)"
  "(\<And>x. to_number api (arg args i) = Some x \<Longrightarrow> call_ok valid st P (k x)) \<Longrightarrow>
     call_ok valid st P (luaL_checknumber api args i st k)" for i :: nat
  by (auto simp: luaL_argcheck_def require_exactly_def luaL_checknumber_def split: option.splits)

lemma call_ok_strings [intro!]:
  "(\<And>s. arg args i = LStr s \<Longrightarrow> call_ok valid st P (k s)) \<Longrightarrow>
   call_ok valid st P (luaL_checktype (is_LStr (arg args i)) i st (luaL_checklstring api args i st k))"
  by (cases "arg args i") (auto simp: luaL_checktype_def luaL_argcheck_def luaL_checklstring_def)

lemma call_ok_u64 [intro!]:
  "(\<And>x. to_number api (arg args i) = Some x \<Longrightarrow> close_to_int x \<Longrightarrow> call_ok valid st P (k (c_u64 api x))) \<Longrightarrow>
   call_ok valid st P (luaL_checkuint64 api args i st k)"
  by (auto simp: luaL_checkuint64_def)

text \<open>The requests that pass the checks of the arguments: a number that is an integer and not
  negative, and the ranges that the bindings compute.\<close>

definition num_arg :: "'e lua_api \<Rightarrow> lval list \<Rightarrow> nat \<Rightarrow> u64 option" where
  "num_arg api args i = do {
     x \<leftarrow> to_number api (arg args i);
     c_assert (close_to_int x \<and> num_ge0 x);
     Some (c_u64 api x) }"

definition block_request :: "'e lua_api \<Rightarrow> 'e bdev_struct \<Rightarrow> lval list \<Rightarrow> u64 option" where
  "block_request api D args = do {
     c_assert (length args = 2);
     which \<leftarrow> num_arg api args 2;
     c_assert (which < block_count (fns D));
     Some which }"

definition bytes_request :: "'e lua_api \<Rightarrow> 'e bdev_struct \<Rightarrow> lval list \<Rightarrow> (u64 \<times> u64) option" where
  "bytes_request api D args = do {
     c_assert (length args = 3);
     start \<leftarrow> num_arg api args 2;
     len \<leftarrow> num_arg api args 3;
     c_assert (start < block_count (fns D) * block_size (fns D) \<and>
       start + len \<le> block_count (fns D) * block_size (fns D) \<and> 0 < len);
     Some (start, len) }"

lemma block_requestI:
  "length args = 2 \<Longrightarrow> to_number api (arg args 2) = Some x \<Longrightarrow> close_to_int x \<Longrightarrow> num_ge0 x \<Longrightarrow>
   c_u64 api x < block_count (fns D) \<Longrightarrow> block_request api D args = Some (c_u64 api x)"
  by (simp add: block_request_def num_arg_def)

lemma bytes_requestI:
  "length args = 3 \<Longrightarrow> to_number api (arg args 2) = Some x \<Longrightarrow> close_to_int x \<Longrightarrow> num_ge0 x \<Longrightarrow>
   to_number api (arg args 3) = Some y \<Longrightarrow> close_to_int y \<Longrightarrow> num_ge0 y \<Longrightarrow>
   c_u64 api x < block_count (fns D) * block_size (fns D) \<and> c_u64 api x + c_u64 api y \<le> block_count (fns D) * block_size (fns D) \<Longrightarrow>
   0 < c_u64 api y \<Longrightarrow> bytes_request api D args = Some (c_u64 api x, c_u64 api y)"
  by (simp add: bytes_request_def num_arg_def)

text \<open>Without the memory for what is to be read the process ends.\<close>

lemma read_block_dies:
  assumes "dev_object api st a D" and "arg args 1 = LDev a" and "block_request api D args = Some w"
    and "alloc (unat (block_size (fns D))) = None"
  shows "bind_bdev_read_block api alloc st args = None"
  using assms by (auto simp: bind_bdev_read_block_def block_request_def num_arg_def lua_checks split: Option.bind_splits)

lemma read_bytes_dies:
  assumes "dev_object api st a D" and "arg args 1 = LDev a" and "bytes_request api D args = Some (start, len)"
    and "alloc (unat len) = None"
  shows "bind_bdev_read_bytes api alloc st args = None"
  using assms
  by (auto simp: bind_bdev_read_bytes_def bytes_request_def num_arg_def lua_checks Let_def split: Option.bind_splits)

text \<open>A call that ends the process when \<open>die\<close> holds, and only then.\<close>

lemma call_ok_iff:
  assumes "die \<Longrightarrow> r = None" and "\<not> die \<Longrightarrow> call_ok valid st P r"
  shows "(r = None \<longleftrightarrow> die) \<and> (r \<noteq> None \<longrightarrow> call_ok valid st P r)"
  using assms by (cases die) (auto simp: call_ok_def)

lemma unat_of_nat_len: "n < 2 ^ 64 \<Longrightarrow> unat (of_nat n :: u64) = n"
  by (simp add: unat_of_nat)

context block_device
begin

lemma unat_size:
  assumes "valid st"
  shows "unat (block_count dev * block_size dev) = unat (block_size dev) * unat (block_count dev)"
  using geometry [OF assms] unat_mult_u64 [of "block_count dev" "block_size dev"]
  by (simp add: mult.commute)

lemma in_range:
  assumes "valid st" and "start + len \<le> block_count dev * block_size dev" and "unat start + unat len < 2 ^ 64"
  shows "unat start + unat len \<le> unat (block_size dev) * unat (block_count dev)"
  using assms(2,3) unat_size [OF assms(1)] unat_add_u64 [of start len] by (simp add: word_le_nat_alt)

end

text \<open>A device on the heap that keeps the contract.\<close>

locale heap_device = block_device dev valid cont rel
  for dev :: "'e heap bdev" and valid :: "'e heap \<Rightarrow> bool" and cont :: "'e heap \<Rightarrow> bytes list" and rel :: bool

context heap_device
begin

lemma read_block_call:
  assumes "valid (hp st)" "dev = fns D" "dev_object api st a D" "alloc_ok alloc" "arg args 1 = LDev a"
    and "\<not> (block_request api D args \<noteq> None \<and> alloc (unat (block_size dev)) = None)"
  shows "call_ok valid st (\<lambda>vs h. cont h = cont (hp st)) (bind_bdev_read_block api alloc st args)"
  unfolding bind_bdev_read_block_def assms(5) check_bdev_object [OF assms(3)] object_bdev_of [OF assms(3)] bind.bind_lunit
    assms(2) [symmetric]
proof (intro call_ok_checks call_ok_u64)
  fix x y
  assume l: "length args = 2" and x: "to_number api (arg args 2) = Some x" "close_to_int x"
    and y: "to_number api (arg args 2) = Some y" "num_ge0 y" and w: "c_u64 api x < block_count dev"
  have "block_request api D args = Some (c_u64 api x)" using l x y w assms(2) by (intro block_requestI) simp_all
  then have "alloc (unat (block_size dev)) \<noteq> None" using assms(6) by simp
  then obtain data where data: "alloc (unat (block_size dev)) = Some data" "length data = unat (block_size dev)"
    using alloc_okD [OF assms(4)] by blast
  obtain ok d h where "read_block dev (hp st) (c_u64 api x) data = Some (ok, d, h)" "valid h" "cont h = cont (hp st)"
    using read_law [OF assms(1) w, of data] data(2) by (auto elim: read_okE)
  then show "call_ok valid st (\<lambda>vs h. cont h = cont (hp st)) (do {
      data \<leftarrow> alloc (unat (block_size dev));
      (ok, data, h) \<leftarrow> read_block dev (hp st) (c_u64 api x) data;
      ret [if ok then LStr data else LNil] (st\<lparr>hp := h\<rparr>) })"
    using data by (simp add: call_ok_ret)
qed

lemma wrap_too_long:
  assumes "valid st" and "unat (block_size dev) * unat (block_count dev) \<le> 2 ^ 63"
    and "start < block_count dev * block_size dev" and "2 ^ 64 \<le> unat start + unat len"
  shows "2 ^ 63 \<le> unat len"
  using assms(2-4) unat_size [OF assms(1)] by (simp add: word_less_nat_alt)

lemma read_bytes_call:
  assumes "valid (hp st)" "dev = fns D" "dev_object api st a D" "alloc_ok alloc" "arg args 1 = LDev a"
    and "unat (block_size dev) * unat (block_count dev) \<le> 2 ^ 63" and "\<forall>n \<ge> 2 ^ 63. alloc n = None"
    and "\<And>start len. bytes_request api D args = Some (start, len) \<Longrightarrow> alloc (unat len) \<noteq> None"
  shows "call_ok valid st (\<lambda>vs h. cont h = cont (hp st)) (bind_bdev_read_bytes api alloc st args)"
  unfolding bind_bdev_read_bytes_def assms(5) check_bdev_object [OF assms(3)] object_bdev_of [OF assms(3)] bind.bind_lunit
    assms(2) [symmetric] Let_def
proof (intro call_ok_checks call_ok_u64)
  fix x y x' y'
  let ?s = "c_u64 api x" and ?l = "c_u64 api y"
  assume l: "length args = 3" and x: "to_number api (arg args 2) = Some x" "close_to_int x" "to_number api (arg args 2) = Some x'" "num_ge0 x'"
    and y: "to_number api (arg args 3) = Some y" "close_to_int y" "to_number api (arg args 3) = Some y'" "num_ge0 y'"
    and c: "?s < block_count dev * block_size dev \<and> ?s + ?l \<le> block_count dev * block_size dev" "0 < ?l"
  have "num_ge0 x" "num_ge0 y" using x y by simp_all
  from bytes_requestI [OF l x(1,2) this(1) y(1,2) this(2) c [unfolded assms(2)]]
  have a: "alloc (unat ?l) \<noteq> None" by (rule assms(8))
  then obtain data where data: "alloc (unat ?l) = Some data" "length data = unat ?l" using alloc_okD [OF assms(4)] by blast
  have "\<not> 2 ^ 64 \<le> unat ?s + unat ?l"
  proof
    assume "2 ^ 64 \<le> unat ?s + unat ?l"
    with assms(1,6) conjunct1 [OF c(1)] have "2 ^ 63 \<le> unat ?l" by (rule wrap_too_long)
    with assms(7) a show False by metis
  qed
  then have "unat ?s + unat ?l < 2 ^ 64" by (simp only: not_le)
  with assms(1) conjunct2 [OF c(1)] have r: "unat ?s + unat ?l \<le> unat (block_size dev) * unat (block_count dev)"
    by (rule in_range)
  obtain ok d h where "read_bytes dev (hp st) ?s ?l data = Some (ok, d, h)" "valid h" "cont h = cont (hp st)"
    using read_bytes_law [OF assms(1) r, of data] data(2) by (auto elim: read_okE)
  then show "call_ok valid st (\<lambda>vs h. cont h = cont (hp st)) (do {
      data \<leftarrow> alloc (unat ?l);
      (ok, data, h) \<leftarrow> read_bytes dev (hp st) ?s ?l data;
      ret [if ok then LStr data else LNil] (st\<lparr>hp := h\<rparr>) })"
    using data by (simp add: call_ok_ret)
qed

lemma write_block_call:
  assumes "valid (hp st)" "dev = fns D" "dev_object api st a D" "arg args 1 = LDev a"
    and "length (case arg args 3 of LStr s \<Rightarrow> s | _ \<Rightarrow> []) < 2 ^ 63"
  shows "call_ok valid st (\<lambda>vs h. True) (bind_bdev_write_block api st args)"
  unfolding bind_bdev_write_block_def assms(4) check_bdev_object [OF assms(3)] object_bdev_of [OF assms(3)] bind.bind_lunit
    assms(2) [symmetric]
proof (intro call_ok_checks call_ok_u64 call_ok_strings)
  fix x s
  assume w: "c_u64 api x < block_count dev" and s: "arg args 3 = LStr s" and l: "of_nat (length s) = block_size dev"
  have "length s < 2 ^ 64" using assms(5) s by simp
  then have l: "unat (block_size dev) \<le> length s" using l using unat_of_nat_len by (metis order_refl)
  obtain ok h where "write_block dev (hp st) (c_u64 api x) s = Some (ok, h)" "valid h"
    using write_law [OF assms(1) w l] by (auto elim: write_okE)
  then show "call_ok valid st (\<lambda>vs h. True) (do {
      (ok, h) \<leftarrow> write_block dev (hp st) (c_u64 api x) s;
      ret [LBool ok] (st\<lparr>hp := h\<rparr>) })"
    by (simp add: call_ok_ret)
qed

lemma write_bytes_call:
  assumes "valid (hp st)" "dev = fns D" "dev_object api st a D" "arg args 1 = LDev a"
    and "length (case arg args 3 of LStr s \<Rightarrow> s | _ \<Rightarrow> []) < 2 ^ 63"
    and "unat (block_size dev) * unat (block_count dev) \<le> 2 ^ 63"
  shows "call_ok valid st (\<lambda>vs h. True) (bind_bdev_write_bytes api st args)"
  unfolding bind_bdev_write_bytes_def assms(4) check_bdev_object [OF assms(3)] object_bdev_of [OF assms(3)] bind.bind_lunit
    assms(2) [symmetric] Let_def
proof (intro call_ok_checks call_ok_u64 call_ok_strings)
  fix x s
  assume s: "arg args 3 = LStr s"
  let ?n = "of_nat (length s) :: u64"
  assume c: "c_u64 api x < block_count dev * block_size dev \<and> c_u64 api x + ?n \<le> block_count dev * block_size dev"
  have n: "unat ?n = length s" using assms(5) s by (simp add: unat_of_nat_len)
  have "unat (c_u64 api x) < 2 ^ 63" using c unat_size [OF assms(1)] assms(6) by (simp add: word_less_nat_alt)
  then have r: "unat (c_u64 api x) + unat ?n \<le> unat (block_size dev) * unat (block_count dev)"
    using in_range [OF assms(1), of "c_u64 api x" ?n] c n assms(5) s by simp
  obtain ok h where "write_bytes dev (hp st) (c_u64 api x) ?n s = Some (ok, h)" "valid h"
    using write_bytes_law [OF assms(1) r, of s] n by (auto elim: write_okE)
  then show "call_ok valid st (\<lambda>vs h. True) (do {
      (ok, h) \<leftarrow> write_bytes dev (hp st) (c_u64 api x) ?n s;
      ret [LBool ok] (st\<lparr>hp := h\<rparr>) })"
    by (simp add: call_ok_ret)
qed

end

text \<open>C38: On an object whose device keeps the contract and has at most 2^63 bytes, whatever the arguments
  of a script are, the calls that write a block or bytes never end the process, and those that
  read end it exactly when the request passes the checks and there is no memory for what it
  reads. A call that does not end the process raises an error and changes nothing, or runs the
  device and leaves it in a valid state, reads with the contents as they were. A read of bytes
  whose start and length add up to 2^64 or more and whose wrapped sum passes the check always
  ends the process. No allocation of 2^63 bytes or more succeeds, and strings are shorter.\<close>

theorem bind_device_calls_safe:
  assumes "block_device (fns D) valid cont rel" and "valid (hp st)" and "dev_object api st a D"
    and "alloc_ok alloc" and "\<forall>n \<ge> 2 ^ 63. alloc n = None" and "arg args 1 = LDev a"
    and "length (case arg args 3 of LStr s \<Rightarrow> s | _ \<Rightarrow> []) < 2 ^ 63"
    and "unat (block_size (fns D)) * unat (block_count (fns D)) \<le> 2 ^ 63"
  defines "read_block_result \<equiv> bind_bdev_read_block api alloc st args"
    and "read_bytes_result \<equiv> bind_bdev_read_bytes api alloc st args"
  shows "(read_block_result = None \<longleftrightarrow> block_request api D args \<noteq> None \<and> alloc (unat (block_size (fns D))) = None) \<and>
    (read_block_result \<noteq> None \<longrightarrow> call_ok valid st (\<lambda>vs h. cont h = cont (hp st)) read_block_result) \<and>
    (read_bytes_result = None \<longleftrightarrow>
      (\<exists>start len. bytes_request api D args = Some (start, len) \<and> alloc (unat len) = None)) \<and>
    (read_bytes_result \<noteq> None \<longrightarrow> call_ok valid st (\<lambda>vs h. cont h = cont (hp st)) read_bytes_result) \<and>
    (\<forall>start len. bytes_request api D args = Some (start, len) \<longrightarrow> 2 ^ 64 \<le> unat start + unat len \<longrightarrow> read_bytes_result = None) \<and>
    call_ok valid st (\<lambda>vs h. True) (bind_bdev_write_block api st args) \<and>
    call_ok valid st (\<lambda>vs h. True) (bind_bdev_write_bytes api st args)"
proof -
  note hd = heap_device.intro [OF assms(1)]
  have 1: "(read_block_result = None \<longleftrightarrow> block_request api D args \<noteq> None \<and> alloc (unat (block_size (fns D))) = None) \<and>
    (read_block_result \<noteq> None \<longrightarrow> call_ok valid st (\<lambda>vs h. cont h = cont (hp st)) read_block_result)"
    unfolding read_block_result_def
    by (rule call_ok_iff) (use read_block_dies [OF assms(3,6)] heap_device.read_block_call [OF hd assms(2) refl assms(3,4,6)] in auto)
  have 2: "(read_bytes_result = None \<longleftrightarrow>
      (\<exists>start len. bytes_request api D args = Some (start, len) \<and> alloc (unat len) = None)) \<and>
    (read_bytes_result \<noteq> None \<longrightarrow> call_ok valid st (\<lambda>vs h. cont h = cont (hp st)) read_bytes_result)"
    unfolding read_bytes_result_def
    by (rule call_ok_iff)
      (use read_bytes_dies [OF assms(3,6)] heap_device.read_bytes_call [OF hd assms(2) refl assms(3,4,6,8,5)] in auto)
  have 3: "alloc (unat len) = None"
    if "bytes_request api D args = Some (start, len)" "2 ^ 64 \<le> unat start + unat len" for start len
  proof -
    have "start < block_count (fns D) * block_size (fns D)" using that(1) by (auto simp: bytes_request_def split: Option.bind_splits)
    from heap_device.wrap_too_long [OF hd assms(2,8) this that(2)] assms(5) show ?thesis by blast
  qed
  show ?thesis
    using 1 2 3 heap_device.write_block_call [OF hd assms(2) refl assms(3,6,7)]
      heap_device.write_bytes_call [OF hd assms(2) refl assms(3,6,7,8)] by blast
qed

section \<open>Values written and read back\<close>

lemma checkuint64_nat:
  assumes "lua_interpreter api live" and "arg args i = LNum (Fin (of_nat n))" and "n < 2 ^ 64"
  shows "luaL_checkuint64 api args i st k = k (of_nat n)"
    and "luaL_checknumber api args i st k' = k' (Fin (of_nat n))"
  using assms(2,3) c_u64_nat [of n api] lua_interpreter.number_law [OF assms(1)]
  by (simp_all add: luaL_checkuint64_def luaL_checknumber_def luaL_argcheck_def)

lemma object_kept:
  assumes "dev_object api st a D" and "has_metatable api (ext h) (LDev a) BDEV_META"
  shows "dev_object api (st\<lparr>hp := h\<rparr>) a D"
  using assms by (simp add: dev_object_def bdev_of_def vm_def)

text \<open>C39: On an object of a reliable device a script that writes a string at an offset where it fits
  gets \<open>true\<close>, and reads the string back; every other byte of the device is as before.\<close>

theorem bind_bytes_round_trip:
  assumes "lua_interpreter api live" and "block_device (fns D) valid cont True" and "valid (hp st)"
    and "dev_object api st a D" and "\<And>h. valid h \<Longrightarrow> has_metatable api (ext h) (LDev a) BDEV_META"
    and "alloc_ok alloc" and "\<And>n. alloc n \<noteq> None"
    and "d \<noteq> []" and "n + length d \<le> unat (block_size (fns D)) * unat (block_count (fns D))"
  shows "\<exists>st1 st2. bind_bdev_write_bytes api st [LDev a, LNum (Fin (of_nat n)), LStr d] = Some (Inr [LBool True], st1) \<and>
    bind_bdev_read_bytes api alloc st1 [LDev a, LNum (Fin (of_nat n)), LNum (Fin (of_nat (length d)))] =
      Some (Inr [LStr d], st2) \<and>
    concat (cont (hp st1)) = patch n d (concat (cont (hp st))) \<and> cont (hp st2) = cont (hp st1)"
proof -
  let ?b = "fns D"
  let ?n = "of_nat n :: u64" and ?l = "of_nat (length d) :: u64"
  note rw = block_device.axioms(1) [OF assms(2)]
  have cap: "unat (block_size ?b) * unat (block_count ?b) < 2 ^ 64"
    using block_rw.geometry [OF rw assms(3)] by simp
  have small: "n < 2 ^ 64" "length d < 2 ^ 64" "n + length d < 2 ^ 64"
    using assms(9) cap by simp_all
  have u: "unat ?n = n" "unat ?l = length d" "unat (?n + ?l) = n + length d"
    using small unat_add_u64 [of ?n ?l] by (simp_all add: unat_of_nat_len)
  have size: "unat (block_count ?b * block_size ?b) = unat (block_size ?b) * unat (block_count ?b)"
    by (rule block_device.unat_size [OF assms(2,3)])
  have l: "0 < length d" using assms(8) by simp
  have lt: "n < unat (block_size ?b) * unat (block_count ?b)" using assms(9) l by linarith
  have range: "?n < block_count ?b * block_size ?b" "?n + ?l \<le> block_count ?b * block_size ?b" "?l > 0"
    using assms(9) l lt u size by (simp_all add: word_less_nat_alt word_le_nat_alt)
  have fits: "unat ?n + unat ?l \<le> unat (block_size ?b) * unat (block_count ?b)"
    using assms(9) u by simp
  note num = checkuint64_nat [OF assms(1) _ small(1)] checkuint64_nat [OF assms(1) _ small(2)]
  obtain h1 where w: "write_bytes ?b (hp st) ?n ?l d = Some (True, h1)" "valid h1"
    "cont h1 = write_at (unat (block_size ?b)) n d (cont (hp st))"
    using block_device.write_bytes_law [OF assms(2,3) fits, of d] u by (auto elim: write_okE)
  have flat: "concat (cont h1) = patch n d (concat (cont (hp st)))"
    unfolding w(3) using block_rw.contents [OF rw assms(3)] assms(9) by (intro concat_write_at) (simp_all add: mult.commute)
  define st1 where "st1 = st\<lparr>hp := h1\<rparr>"
  have o1: "dev_object api st1 a D"
    unfolding st1_def by (rule object_kept [OF assms(4) assms(5) [OF w(2)]])
  have r1: "bind_bdev_write_bytes api st [LDev a, LNum (Fin (of_nat n)), LStr d] = Some (Inr [LBool True], st1)"
    using assms(4) range w(1)
    by (simp add: bind_bdev_write_bytes_def require_exactly_def num luaL_checktype_def luaL_checklstring_def
        luaL_argcheck_def Let_def ret_def st1_def)
  obtain data where data: "alloc (length d) = Some data" "length data = length d"
    using assms(6,7) alloc_okD by blast
  have "length (concat (cont (hp st))) = unat (block_size ?b) * unat (block_count ?b)"
    by (rule block_rw.length_flat [OF rw assms(3)])
  then have "take (length d) (drop n (concat (cont h1))) = d"
    using assms(9) by (simp add: flat take_drop_patch)
  then obtain h2 where r: "read_bytes ?b h1 ?n ?l data = Some (True, d, h2)" "cont h2 = cont h1"
    using block_device.read_bytes_law [OF assms(2) w(2) fits, of data] u data(2)
    by (auto elim!: read_okE simp: patch_whole)
  have "bind_bdev_read_bytes api alloc st1 [LDev a, LNum (Fin (of_nat n)), LNum (Fin (of_nat (length d)))] =
      Some (Inr [LStr d], st1\<lparr>hp := h2\<rparr>)"
    using o1 range r(1) data(1) u(2)
    by (simp add: bind_bdev_read_bytes_def require_exactly_def num luaL_argcheck_def Let_def ret_def st1_def)
  with r1 flat r(2) show ?thesis
    by (intro exI [of _ st1] exI [of _ "st1\<lparr>hp := h2\<rparr>"]) (simp add: st1_def)
qed

section \<open>Stacks of devices\<close>

text \<open>Validity and contents do not depend on node \<open>c\<close>, on the allocation of nodes, or on what a
  new object does to the interpreter.\<close>

definition unaffected :: "'e lua_api \<Rightarrow> nat \<Rightarrow> ('e heap \<Rightarrow> bool) \<Rightarrow> ('e heap \<Rightarrow> bytes list) \<Rightarrow> bool" where
  "unaffected api c valid cont \<longleftrightarrow>
     (\<forall>h n. valid (put_node c n h) = valid h \<and> cont (put_node c n h) = cont h) \<and>
     (\<forall>h k. valid (h\<lparr>next_node := k\<rparr>) = valid h \<and> cont (h\<lparr>next_node := k\<rparr>) = cont h) \<and>
     (\<forall>h v. valid (h\<lparr>ext := snd (luaL_ref api (ext h) v)\<rparr>) = valid h \<and>
        cont (h\<lparr>ext := snd (luaL_ref api (ext h) v)\<rparr>) = cont h) \<and>
     (\<forall>h v m. valid (h\<lparr>ext := setmetatable api (ext h) v m\<rparr>) = valid h \<and>
        cont (h\<lparr>ext := setmetatable api (ext h) v m\<rparr>) = cont h)"

lemma load_simps [simp]:
  "load prj n (put_node n x h) = prj x"
  "c \<noteq> n \<Longrightarrow> load prj n (put_node c x h) = load prj n h"
  "load prj n (h\<lparr>next_node := k\<rparr>) = load prj n h"
  "load prj n (h\<lparr>ext := v\<rparr>) = load prj n h"
  by (simp_all add: load_def put_node_def)

lemma unaffected_slot:
  assumes "c \<noteq> n" and "\<And>m. unaffected api c (\<lambda>h. V (m, h)) (\<lambda>h. C (m, h))"
  shows "unaffected api c (heap_valid (load prj n) V) (heap_cont (load prj n) C)"
  using assms(2) unfolding unaffected_def heap_valid_def heap_cont_def load_simps(2) [OF assms(1)] load_simps(3,4)
  by (auto split: option.splits)

lemma slot_meta:
  assumes "\<And>m. unaffected api c (\<lambda>h. V (m, h)) (\<lambda>h. C (m, h))"
  shows "heap_valid (load prj n) V (h\<lparr>ext := setmetatable api (ext h) v m\<rparr>) = heap_valid (load prj n) V h"
  using assms by (simp add: heap_valid_def unaffected_def split: option.splits)

lemma unaffected_mem: "unaffected api c (\<lambda>h. mem_valid bs bc (m, h)) (\<lambda>h. mem_cont bs bc (m, h))"
  by (simp add: unaffected_def mem_valid_def mem_cont_def mem_base_def)

lemma unaffected_verify:
  "unaffected api c valid cont \<Longrightarrow>
   unaffected api c (\<lambda>h. verify_valid base io valid cont rel (m, h)) (\<lambda>h. verify_cont base io cont (m, h))"
  by (simp add: unaffected_def verify_valid_def verify_cont_def)

lemma unaffected_put:
  "unaffected api c valid cont \<Longrightarrow> valid (put_node c n h) = valid h"
  "unaffected api c valid cont \<Longrightarrow> cont (put_node c n h) = cont h"
  "unaffected api c valid cont \<Longrightarrow> valid (h\<lparr>next_node := k\<rparr>) = valid h"
  "unaffected api c valid cont \<Longrightarrow> valid (h\<lparr>ext := snd (luaL_ref api (ext h) v)\<rparr>) = valid h"
  "unaffected api c valid cont \<Longrightarrow> valid (h\<lparr>ext := setmetatable api (ext h) v m\<rparr>) = valid h"
  by (simp_all add: unaffected_def)

text \<open>The memory of a device in its node.\<close>

interpretation mem_slot: node_slot "load as_mem n" "\<lambda>m. put_node n (NMem m)" "mem_valid bs bc" "mem_cont bs bc" for n bs bc
  by unfold_locales (simp_all add: mem_valid_def mem_cont_def mem_base_def)

interpretation mem_heap: heap_device "on_heap (load as_mem n) (\<lambda>m. put_node n (NMem m)) (malloc_dev bs bc)"
  "heap_valid (load as_mem n) (mem_valid bs bc)" "heap_cont (load as_mem n) (mem_cont bs bc)" True for n bs bc
  by (rule heap_device.intro) (rule mem_slot.on_heap_device [OF malloc.block_device_axioms])

lemma make_dev_contract:
  assumes "make_dev prj mk closef name d m st = (D, st')" and "n = next_node (hp st)"
    and "block_device d V C rel" and "V (m, hp st)" and "\<And>m. prj (mk m) = Some m"
    and "\<And>m. unaffected api n (\<lambda>h. V (m, h)) (\<lambda>h. C (m, h))"
  shows "block_device (fns D) (heap_valid (load prj n) V) (heap_cont (load prj n) C) rel"
    and "heap_valid (load prj n) V (hp st')" and "vm st' = vm st" and "structs st' = structs st"
    and "udata st' = udata st" and "next_node (hp st') = n + 1" and "block_size (fns D) = block_size d"
    and "block_count (fns D) = block_count d"
proof -
  have sl: "node_slot (load prj n) (\<lambda>m. put_node n (mk m)) V C"
    by unfold_locales (simp_all add: assms(5) unaffected_put [OF assms(6)])
  have D: "fns D = on_heap (load prj n) (\<lambda>m. put_node n (mk m)) d"
    and st': "st' = st\<lparr>hp := (put_node n (mk m) (hp st))\<lparr>next_node := n + 1\<rparr>\<rparr>"
    using assms(1,2) by (auto simp: make_dev_def new_node_def)
  show "block_device (fns D) (heap_valid (load prj n) V) (heap_cont (load prj n) C) rel"
    unfolding D by (rule node_slot.on_heap_device [OF sl assms(3)])
  show "heap_valid (load prj n) V (hp st')"
    using assms(4) by (simp add: st' heap_valid_def assms(5) unaffected_put [OF assms(6)])
  show "vm st' = vm st" "structs st' = structs st" "udata st' = udata st" "next_node (hp st') = n + 1"
    "block_size (fns D) = block_size d" "block_count (fns D) = block_count d"
    by (simp_all add: st' D vm_def put_node_def on_heap_def)
qed

lemma weaken_device:
  assumes "block_device d valid cont rel"
  shows "block_device d valid cont False"
proof -
  note rw = block_device.axioms(1) [OF assms]
  show ?thesis
    by unfold_locales
      (use block_rw.geometry [OF rw] block_rw.contents [OF rw] in
        \<open>auto intro: read_ok_weaken write_ok_weaken block_rw.read_law [OF rw] block_rw.write_law [OF rw] block_device.read_bytes_law [OF assms]
        block_device.write_bytes_law [OF assms] block_device.clear_caches_law [OF assms]
        block_device.flush_law [OF assms] block_device.sync_law [OF assms]\<close>)
qed

lemma wrap_object:
  assumes "lua_interpreter api live"
  shows "\<exists>st'. bind_bdev_wrap api st (Some D) refs = Some (Inr [LDev (length (udata st))], st') \<and>
    dev_object api st' (length (udata st)) D \<and>
    hp st' = (hp st)\<lparr>ext := setmetatable api (ext (hp st)) (LDev (length (udata st))) BDEV_META\<rparr> \<and>
    (\<forall>a E. dev_object api st a E \<longrightarrow> dev_object api st' a E)"
proof -
  note meta = lua_interpreter.meta_set [OF assms] lua_interpreter.meta_other [OF assms]
  show ?thesis
    by (auto simp: bind_bdev_wrap_def ret_def Let_def dev_object_def bdev_of_def cell_def vm_def set_vm_def meta
        nth_append split: if_splits Option.bind_splits)
qed

lemma verify_create_accepts:
  assumes "4 \<le> unat (block_size base)" and "unat (block_size base) < 2 ^ 31" and "2 \<le> unat (block_count base)"
    and "unat (block_size base) * unat (block_count base) < 2 ^ 64" and "\<And>n. alloc n \<noteq> None"
  shows "\<exists>d io m. verify_create alloc base = Some (Some (d, io, m))"
proof -
  let ?bs = "block_size base" and ?n = "block_count base"
  define h where "h = unat ?bs div 4"
  define N where "N = unat ?n"
  have h: "1 \<le> h" "h < 2 ^ 29" and N: "2 \<le> N" using assms(1-3) by (auto simp: h_def N_def)
  have "4 * N \<le> unat ?bs * N" by (rule mult_le_mono1 [OF assms(1)])
  also have "\<dots> < 2 ^ 64" using assms(4) by (simp only: N_def)
  finally have le: "4 * N < 2 ^ 64" .
  have uh: "unat (?bs div 4) = h" by (simp add: h_def unat_div)
  have a1: "unat (?n + ?bs div 4) = N + h"
    using unat_add_u64 [of ?n "?bs div 4"] le h(2) by (simp add: uh N_def)
  have a2: "unat (1 + ?bs div 4) = 1 + h"
    using unat_add_u64 [of 1 "?bs div 4"] h(2) by (simp add: uh)
  have nz: "1 + ?bs div 4 \<noteq> 0" "?bs div 4 + 1 \<noteq> 0" using a2 by (auto simp: add.commute)
  define hbc where "hbc = (?n + ?bs div 4) div (1 + ?bs div 4)"
  have uhbc: "unat hbc = (N + h) div (1 + h)" by (simp add: hbc_def unat_div a1 a2)
  have "1 * h < N * h" using h N by (intro mult_strict_right_mono) simp_all
  then have "N + h < N * (1 + h)" by (simp add: distrib_left)
  then have data: "unat hbc < N" unfolding uhbc by (simp add: less_mult_imp_div_less)
  have h1: "1 \<le> unat hbc" unfolding uhbc using N by (simp add: Suc_le_eq div_greater_zero_iff)
  have trail: "2 \<le> unat hbc" if "(?n - 1) mod (?bs div 4 + 1) = 0"
  proof -
    have "unat (?n - 1) = N - 1" using N by (simp add: unat_sub_u64 word_le_nat_alt N_def)
    then have "(N - 1) mod (1 + h) = 0"
      using that a2 unat_mod [of "?n - 1" "?bs div 4 + 1"] by (simp add: add.commute)
    then obtain k where k: "N - 1 = (1 + h) * k" by (auto elim: dvdE simp: mod_eq_0_iff_dvd)
    then have "1 \<le> k" using N by (cases k) simp_all
    moreover have e: "N + h = (1 + h) * (k + 1)" using k N by simp
    have "unat hbc = (1 + h) * (k + 1) div (1 + h)" unfolding uhbc e ..
    then have "unat hbc = k + 1" by (simp del: mult_Suc_right mult_Suc distrib_left_numeral add: nonzero_mult_div_cancel_left)
    ultimately show ?thesis by simp
  qed
  obtain b where b: "alloc (unat ?bs) = Some b" using assms(5) by blast
  have less: "hbc < ?n" "\<not> ?bs < 4" "?n \<noteq> 1" "0 < ?bs div 4" "0 < hbc"
    using data h1 assms(1,3) h(1) uh by (auto simp: word_less_nat_alt N_def)
  have pos: "0 < ?n - hbc" using less(1) by (simp add: word_less_nat_alt unat_sub_u64 word_le_nat_alt)
  have pos1: "0 < hbc - 1" if "(?n - 1) mod (?bs div 4 + 1) = 0"
    using trail [OF that] h1 by (simp add: word_less_nat_alt unat_sub_u64 word_le_nat_alt)
  show ?thesis
    using b less nz pos pos1 create_zero_crc_ok [OF assms(2)]
    by (auto simp: verify_create_def verify_is_hblock_def Let_def hbc_def [symmetric])
qed

text \<open>The calls that open the two layers return objects of devices that keep the contract.\<close>

lemma bind_ram_object:
  assumes "lua_interpreter api live" and "alloc_ok alloc" and "\<And>n. alloc n \<noteq> None"
    and "1 \<le> bs" and "bs \<le> 2 ^ 20" and "1 \<le> n" and "bs * n < 2 ^ 64"
  shows "\<exists>st' D valid cont. bind_bio_create_malloc api alloc st [LNum (Fin (of_nat bs)), LNum (Fin (of_nat n))] =
      Some (Inr [LDev (length (udata st))], st') \<and>
    dev_object api st' (length (udata st)) D \<and> block_device (fns D) valid cont True \<and> valid (hp st') \<and>
    block_size (fns D) = of_nat bs \<and> block_count (fns D) = of_nat n \<and>
    (\<forall>c. c \<noteq> next_node (hp st) \<longrightarrow> unaffected api c valid cont) \<and> next_node (hp st') = next_node (hp st) + 1"
proof -
  let ?bs = "of_nat bs :: u64" and ?n = "of_nat n :: u64" and ?c = "next_node (hp st)"
  have "1 * n \<le> bs * n" by (rule mult_le_mono1 [OF assms(4)])
  then have small: "n < 2 ^ 64" "bs < 2 ^ 64" using assms(5,7) by (linarith, simp)
  have u: "unat ?bs = bs" "unat ?n = n" using small by (simp_all add: unat_of_nat_len)
  have um: "unat (?bs * ?n) = bs * n" using unat_mult_u64 [of ?bs ?n] assms(7) u by simp
  have args: "1 \<le> ?bs" "?bs \<le> 0x100000" "1 \<le> ?n" "?bs \<noteq> 0"
    using assms(4-6) u by (auto simp: word_le_nat_alt)
  obtain g b where gb: "alloc bs = Some g" "alloc (bs * n) = Some b" "length g = bs" "length b = bs * n"
    using assms(2,3) alloc_okD by blast
  define m where "m = \<lparr>generic_block_buffer = g, obj_m = \<lparr>io_base = b, io_mmaplen = 0, io_inherit_fd = False, io_fd = -1\<rparr>\<rparr>"
  have opn: "bio_create_malloc alloc (hp st) ?bs ?n = Some (Some (malloc_dev ?bs ?n, (m, hp st)))"
    using args(4) gb u um by (simp add: bio_create_malloc_def m_def)
  have V: "mem_valid ?bs ?n (m, hp st)"
    using assms(4,7) gb u by (simp add: mem_valid_def m_def mem_base_def)
  define mk where "mk = make_dev as_mem NMem mem_malloc_close
      (''malloc('' @ dec (unat (?bs * ?n)) @ '' bytes)'') (malloc_dev ?bs ?n) m st"
  obtain D st1 where D: "mk = (D, st1)" by fastforce
  note c = make_dev_contract [OF D [unfolded mk_def] refl malloc.block_device_axioms V as_mem.simps(1) unaffected_mem]
  obtain st2 where w: "bind_bdev_wrap api st1 (Some D) None = Some (Inr [LDev (length (udata st))], st2)"
    "dev_object api st2 (length (udata st)) D"
    "hp st2 = (hp st1)\<lparr>ext := setmetatable api (ext (hp st1)) (LDev (length (udata st))) BDEV_META\<rparr>"
    using wrap_object [OF assms(1), of st1 D None] c(5) by auto
  have "bind_bio_create_malloc api alloc st [LNum (Fin (of_nat bs)), LNum (Fin (of_nat n))] =
      Some (Inr [LDev (length (udata st))], st2)"
    using args opn D w(1)
    by (simp add: bind_bio_create_malloc_def require_exactly_def luaL_argcheck_def mk_def
        checkuint64_nat(1) [OF assms(1) _ small(1)] checkuint64_nat(1) [OF assms(1) _ small(2)])
  moreover have un: "unaffected api k (heap_valid (load as_mem ?c) (mem_valid ?bs ?n)) (heap_cont (load as_mem ?c) (mem_cont ?bs ?n))"
    if "k \<noteq> ?c" for k
    by (rule unaffected_slot [OF that unaffected_mem])
  moreover have "heap_valid (load as_mem ?c) (mem_valid ?bs ?n) (hp st2)"
    using c(2) unaffected_put(5) [OF un [of "Suc ?c"]] by (simp add: w(3))
  ultimately show ?thesis
    using w(2,3) c(1,6-8)
    by (intro exI [of _ st2] exI [of _ D] exI [of _ "heap_valid (load as_mem ?c) (mem_valid ?bs ?n)"]
        exI [of _ "heap_cont (load as_mem ?c) (mem_cont ?bs ?n)"]) (simp add: malloc_dev_def)
qed

lemma bind_verify_object:
  assumes "lua_interpreter api live" and "alloc_ok alloc" and "\<And>n. alloc n \<noteq> None"
    and "dev_object api st a D" and "block_device (fns D) valid cont False" and "valid (hp st)"
    and "unaffected api (next_node (hp st)) valid cont"
    and "4 \<le> unat (block_size (fns D))" and "unat (block_size (fns D)) < 2 ^ 31" and "2 \<le> unat (block_count (fns D))"
  shows "\<exists>st' E valid' cont'. bind_verify_create api alloc st [LDev a] = Some (Inr [LDev (length (udata st))], st') \<and>
    dev_object api st' (length (udata st)) E \<and> dev_object api st' a D \<and>
    block_device (fns E) valid' cont' False \<and> valid' (hp st') \<and> block_size (fns E) = block_size (fns D) \<and>
    unat (block_count (fns E)) = data_blocks (unat (block_size (fns D)) div 4) (unat (block_count (fns D))) \<and>
    (\<forall>c. c \<noteq> next_node (hp st) \<longrightarrow> unaffected api c valid cont \<longrightarrow> unaffected api c valid' cont')"
proof -
  let ?c = "next_node (hp st)"
  have cap: "unat (block_size (fns D)) * unat (block_count (fns D)) < 2 ^ 64"
    using block_rw.geometry [OF block_device.axioms(1) [OF assms(5)] assms(6)] by simp
  obtain d io m where v: "verify_create alloc (fns D) = Some (Some (d, io, m))"
    using verify_create_accepts [where alloc = alloc, OF assms(8,9,10) cap] assms(3) by blast
  note vc = verify_create_ok [OF assms(2) v assms(9) cap]
  obtain r st0 where r: "ref_dev api st (LDev a) = (r, st0)" by fastforce
  have st0: "hp st0 = (hp st)\<lparr>ext := snd (luaL_ref api (ext (hp st)) (LDev a))\<rparr>" "udata st0 = udata st" "structs st0 = structs st"
    using r by (auto simp: ref_dev_def set_vm_def vm_def split: prod.splits)
  have o0: "dev_object api st0 a D"
    using assms(4) lua_interpreter.meta_ref [OF assms(1)] by (simp add: dev_object_def bdev_of_def vm_def st0)
  have V: "verify_valid (fns D) io valid cont False (m, hp st0)"
    using vc(2,4,5) unaffected_put(4) [OF assms(7)] assms(6) by (simp add: verify_valid_def st0)
  define mk where "mk = make_dev as_verify NVerify verify_close ''verify'' d m st0"
  obtain E st1 where E: "mk = (E, st1)" by fastforce
  note c = make_dev_contract [OF E [unfolded mk_def] refl verify_unreliable_device [OF assms(5), of io, folded vc(1)] V as_verify.simps(1)
      unaffected_verify]
  have cc: "block_device (fns E) (heap_valid (load as_verify ?c) (verify_valid (fns D) io valid cont False))
      (heap_cont (load as_verify ?c) (verify_cont (fns D) io cont)) False"
    "heap_valid (load as_verify ?c) (verify_valid (fns D) io valid cont False) (hp st1)"
    using c(1,2) assms(7) by (simp_all add: st0)
  obtain st2 where w: "bind_bdev_wrap api st1 (Some E) (Some [r]) = Some (Inr [LDev (length (udata st))], st2)"
    "dev_object api st2 (length (udata st)) E" "\<And>a F. dev_object api st1 a F \<Longrightarrow> dev_object api st2 a F"
    "hp st2 = (hp st1)\<lparr>ext := setmetatable api (ext (hp st1)) (LDev (length (udata st))) BDEV_META\<rparr>"
    using wrap_object [OF assms(1), of st1 E "Some [r]"] c(5) assms(7) st0 by auto
  moreover have "bind_verify_create api alloc st [LDev a] = bind_bdev_wrap api st1 (Some E) (Some [r])"
    using assms(4) v r E o0 by (simp add: bind_verify_create_def require_exactly_def mk_def)
  moreover have "dev_object api st1 a D"
    using o0 c(3-5) assms(7) st0 by (simp add: dev_object_def bdev_of_def)
  moreover have "heap_valid (load as_verify ?c) (verify_valid (fns D) io valid cont False) (hp st2)"
    using cc(2) slot_meta [OF unaffected_verify [OF assms(7)]] by (simp add: w(4))
  moreover have "block_size (fns E) = block_size (fns D)"
    "unat (block_count (fns E)) = data_blocks (unat (block_size (fns D)) div 4) (unat (block_count (fns D)))"
    using c(7,8) assms(7) st0 vc(1,2) by (simp_all add: verify_dev_def Let_def verify_geo_ok_def)
  moreover have "\<forall>c. c \<noteq> ?c \<longrightarrow> unaffected api c valid cont \<longrightarrow>
      unaffected api c (heap_valid (load as_verify ?c) (verify_valid (fns D) io valid cont False))
        (heap_cont (load as_verify ?c) (verify_cont (fns D) io cont))"
    by (intro allI impI unaffected_slot unaffected_verify)
  ultimately show ?thesis
    using cc(1)
    by (intro exI [of _ st2] exI [of _ E] exI [of _ "heap_valid (load as_verify ?c) (verify_valid (fns D) io valid cont False)"]
        exI [of _ "heap_cont (load as_verify ?c) (verify_cont (fns D) io cont)"]) simp
qed

text \<open>C40: A script that makes a memory device and the checksum layer over it gets, for every block
  size from 4 bytes to a megabyte and at least two blocks that fit in memory, an object of a
  device that keeps the contract, with the private parts of both layers in one memory; what the
  memory held does not matter. The memory device stays an object of its own.\<close>

theorem bind_verify_over_ram:
  assumes "lua_interpreter api live" and "alloc_ok alloc" and "\<And>n. alloc n \<noteq> None"
    and "4 \<le> bs" and "bs \<le> 2 ^ 20" and "2 \<le> n" and "bs * n < 2 ^ 64"
  shows "\<exists>a b st1 st2 D E valid cont.
    bind_bio_create_malloc api alloc st [LNum (Fin (of_nat bs)), LNum (Fin (of_nat n))] = Some (Inr [LDev a], st1) \<and>
    bind_verify_create api alloc st1 [LDev a] = Some (Inr [LDev b], st2) \<and>
    dev_object api st2 a D \<and> dev_object api st2 b E \<and> block_device (fns E) valid cont False \<and> valid (hp st2) \<and>
    unat (block_size (fns E)) = bs \<and> unat (block_count (fns E)) = data_blocks (bs div 4) n"
proof -
  have pos: "1 \<le> bs" "1 \<le> n" using assms(4,6) by simp_all
  obtain st1 D valid cont where ram: "bind_bio_create_malloc api alloc st [LNum (Fin (of_nat bs)), LNum (Fin (of_nat n))] =
      Some (Inr [LDev (length (udata st))], st1)" "dev_object api st1 (length (udata st)) D"
    "block_device (fns D) valid cont True" "valid (hp st1)" "block_size (fns D) = of_nat bs" "block_count (fns D) = of_nat n"
    "unaffected api (next_node (hp st1)) valid cont"
    using bind_ram_object [OF assms(1-3) pos(1) assms(5) pos(2) assms(7), of st] by auto
  have "1 * n \<le> bs * n" by (rule mult_le_mono1 [OF pos(1)])
  then have "n < 2 ^ 64" "bs < 2 ^ 64" using assms(5,7) by (linarith, simp)
  then have u: "unat (of_nat bs :: u64) = bs" "unat (of_nat n :: u64) = n" by (simp_all add: unat_of_nat_len)
  have geo: "4 \<le> unat (block_size (fns D))" "unat (block_size (fns D)) < 2 ^ 31" "2 \<le> unat (block_count (fns D))"
    using assms(4-6) by (simp_all add: ram(5,6) u)
  obtain st2 E valid' cont' where "bind_verify_create api alloc st1 [LDev (length (udata st))] = Some (Inr [LDev (length (udata st1))], st2)"
    "dev_object api st2 (length (udata st1)) E" "dev_object api st2 (length (udata st)) D"
    "block_device (fns E) valid' cont' False" "valid' (hp st2)" "block_size (fns E) = block_size (fns D)"
    "unat (block_count (fns E)) = data_blocks (unat (block_size (fns D)) div 4) (unat (block_count (fns D)))"
    using bind_verify_object [OF assms(1-3) ram(2) weaken_device [OF ram(3)] ram(4,7) geo] by blast
  with ram(1) show ?thesis
    by (intro exI [of _ "length (udata st)"] exI [of _ "length (udata st1)"] exI [of _ st1] exI [of _ st2]
        exI [of _ D] exI [of _ E] exI [of _ valid'] exI [of _ cont']) (simp add: ram(5,6) u)
qed

text \<open>The range check of a read of bytes wraps around: a script that reads 2^64-2048 bytes at
  offset 2048 of a device of more than 2048 bytes passes it, and ends the process when so much memory is not there.\<close>

theorem bind_read_bytes_wraps:
  assumes "lua_interpreter api live" and "dev_object api st a D"
    and "2048 < block_count (fns D) * block_size (fns D)" and "alloc (2 ^ 64 - 2048) = None"
  shows "bind_bdev_read_bytes api alloc st
    [LDev a, LNum (Fin 2048), LNum (Fin (2 ^ 64 - 2048))] = None"
proof -
  have n: "(2048 :: rat) = of_nat 2048" "(2 ^ 64 - 2048 :: rat) = of_nat (2 ^ 64 - 2048)" by simp_all
  have "(2048 :: nat) < 2 ^ 64" "2 ^ 64 - 2048 < (2 ^ 64 :: nat)" by simp_all
  note num = checkuint64_nat [OF assms(1) _ this(1)] checkuint64_nat [OF assms(1) _ this(2)]
  have wrap: "(18446744073709551616 :: u64) = 0"
    by (rule word_uint_eqI) simp
  show ?thesis
    unfolding n using assms(2-4)
    by (simp add: wrap bind_bdev_read_bytes_def require_exactly_def num luaL_argcheck_def Let_def)
qed

section \<open>A concrete run\<close>

text \<open>An interpreter that takes every userdata for a device.\<close>

definition lax_lua :: "toy_vm lua_api" where
  "lax_lua = toy_lua\<lparr>has_metatable := (\<lambda>w v m. True)\<rparr>"

lemma lax_interpreter: "lua_interpreter lax_lua toy_live"
  by unfold_locales
    (auto simp: lax_lua_def toy_lua_def toy_live_def LUA_REFNIL_def fun_eq_iff nth_append nth_list_update split: if_splits)

definition toy_start :: "toy_vm bd_state" where
  "toy_start = \<lparr>hp = \<lparr>nodes = (\<lambda>a. None), next_node = 0, ext = \<lparr>toy_refs = [], toy_metas = [], toy_fields = []\<rparr>\<rparr>,
     structs = [], udata = []\<rparr>"

lemma calloc_total: "calloc_alloc n \<noteq> None"
  by (simp add: calloc_alloc_def)

lemma toy_udata: "length (udata toy_start) = 0"
  by (simp add: toy_start_def)

lemma toy_ram:
  assumes "1 \<le> bs" and "bs \<le> 2 ^ 20" and "1 \<le> n" and "bs * n < 2 ^ 64"
  obtains st D valid cont where
    "bind_bio_create_malloc lax_lua calloc_alloc toy_start [LNum (Fin (of_nat bs)), LNum (Fin (of_nat n))] = Some (Inr [LDev 0], st)"
    "dev_object lax_lua st 0 D" "block_device (fns D) valid cont True" "valid (hp st)"
    "block_size (fns D) = of_nat bs" "block_count (fns D) = of_nat n"
  using bind_ram_object [OF lax_interpreter calloc_alloc_ok calloc_total assms, of toy_start] toy_udata by fastforce

theorem bind_bytes_round_trip_witness:
  "\<exists>st1 st2 st3. bind_bio_create_malloc lax_lua calloc_alloc toy_start [LNum (Fin (of_nat 4)), LNum (Fin (of_nat 3))] =
      Some (Inr [LDev 0], st1) \<and>
    bind_bdev_write_bytes lax_lua st1 [LDev 0, LNum (Fin (of_nat 5)), LStr [1, 2]] = Some (Inr [LBool True], st2) \<and>
    bind_bdev_read_bytes lax_lua calloc_alloc st2 [LDev 0, LNum (Fin (of_nat 5)), LNum (Fin (of_nat (length [1 :: u8, 2])))] =
      Some (Inr [LStr [1, 2]], st3)"
proof -
  have "(1 :: nat) \<le> 4" "(4 :: nat) \<le> 2 ^ 20" "(1 :: nat) \<le> 3" "4 * 3 < (2 ^ 64 :: nat)" by simp_all
  then obtain st D valid cont where r:
    "bind_bio_create_malloc lax_lua calloc_alloc toy_start [LNum (Fin (of_nat 4)), LNum (Fin (of_nat 3))] = Some (Inr [LDev 0], st)"
    "dev_object lax_lua st 0 D" "block_device (fns D) valid cont True" "valid (hp st)"
    "block_size (fns D) = of_nat 4" "block_count (fns D) = of_nat 3"
    by (rule toy_ram)
  have "has_metatable lax_lua (ext h) (LDev 0) BDEV_META" for h by (simp add: lax_lua_def)
  moreover have "5 + length [1 :: u8, 2] \<le> unat (block_size (fns D)) * unat (block_count (fns D))" by (simp add: r(5,6))
  ultimately show ?thesis
    using bind_bytes_round_trip [OF lax_interpreter r(3,4,2) _ calloc_alloc_ok calloc_total, of "[1, 2]" 5] r(1)
    by (simp del: of_nat_numeral) blast
qed

text \<open>An allocator with less than 4 GiB: a read of a block returns, and a read of bytes that passes
  the check by wrapping around ends the process.\<close>

definition scarce_alloc :: allocator where
  "scarce_alloc n = (if n < 2 ^ 32 then Some (replicate n 0) else None)"

lemma scarce_alloc_ok: "alloc_ok scarce_alloc" "\<forall>n \<ge> 2 ^ 63. scarce_alloc n = None"
  by (auto simp: alloc_ok_def scarce_alloc_def)

theorem bind_device_calls_safe_witness:
  "\<exists>st1. bind_bio_create_malloc lax_lua calloc_alloc toy_start [LNum (Fin (of_nat 4096)), LNum (Fin (of_nat 1))] =
      Some (Inr [LDev 0], st1) \<and>
    bind_bdev_read_block lax_lua scarce_alloc st1 [LDev 0, LNum (Fin (of_nat 0))] \<noteq> None \<and>
    bind_bdev_read_bytes lax_lua scarce_alloc st1 [LDev 0, LNum (Fin (of_nat 2048)), LNum (Fin (of_nat (2 ^ 64 - 2048)))] = None"
proof -
  have "(1 :: nat) \<le> 4096" "(4096 :: nat) \<le> 2 ^ 20" "(1 :: nat) \<le> 1" "4096 * 1 < (2 ^ 64 :: nat)" by simp_all
  then obtain st D valid cont where r:
    "bind_bio_create_malloc lax_lua calloc_alloc toy_start [LNum (Fin (of_nat 4096)), LNum (Fin (of_nat 1))] = Some (Inr [LDev 0], st)"
    "dev_object lax_lua st 0 D" "block_device (fns D) valid cont True" "valid (hp st)"
    "block_size (fns D) = of_nat 4096" "block_count (fns D) = of_nat 1"
    by (rule toy_ram)
  let ?block = "[LDev 0, LNum (Fin (of_nat 0))]" and ?bytes = "[LDev 0, LNum (Fin (of_nat 2048)), LNum (Fin (of_nat (2 ^ 64 - 2048)))]"
  have cap: "unat (block_size (fns D)) * unat (block_count (fns D)) \<le> 2 ^ 63" by (simp add: r(5,6))
  have num: "num_arg lax_lua args i = Some (of_nat n)" if "arg args i = LNum (Fin (of_nat n))" "n < 2 ^ 64" for args n and i :: nat
    using that c_u64_nat [of n lax_lua] lua_interpreter.number_law [OF lax_interpreter] by (simp add: num_arg_def)
  have len: "unat (of_nat (2 ^ 64 - 2048) :: u64) = 2 ^ 64 - 2048" by (rule unat_of_nat_len) simp
  have "bytes_request lax_lua D ?bytes = Some (of_nat 2048, of_nat (2 ^ 64 - 2048))"
    using num [of ?bytes 2 2048] num [of ?bytes 3 "2 ^ 64 - 2048"] len
    by (simp add: bytes_request_def r(5,6) word_less_nat_alt word_le_nat_alt)
  moreover have "2 ^ 64 \<le> unat (of_nat 2048 :: u64) + unat (of_nat (2 ^ 64 - 2048) :: u64)" unfolding len by simp
  moreover have "length (case arg ?bytes 3 of LStr s \<Rightarrow> s | _ \<Rightarrow> []) < 2 ^ 63" "arg ?bytes 1 = LDev 0" by (simp_all add: arg_def)
  note bind_device_calls_safe [OF r(3,4,2) scarce_alloc_ok this(2,1) cap]
  ultimately have 1: "bind_bdev_read_bytes lax_lua scarce_alloc st ?bytes = None" by blast
  have "length (case arg ?block 3 of LStr s \<Rightarrow> s | _ \<Rightarrow> []) < 2 ^ 63" "arg ?block 1 = LDev 0" by (simp_all add: arg_def)
  note bind_device_calls_safe [OF r(3,4,2) scarce_alloc_ok this(2,1) cap]
  moreover have "scarce_alloc (unat (block_size (fns D))) \<noteq> None" by (simp add: scarce_alloc_def r(5))
  ultimately have "bind_bdev_read_block lax_lua scarce_alloc st ?block \<noteq> None" by blast
  with 1 r(1) show ?thesis by blast
qed

theorem bind_verify_over_ram_witness:
  "\<exists>a b st1 st2. bind_bio_create_malloc toy_lua calloc_alloc toy_start [LNum (Fin (of_nat 16)), LNum (Fin (of_nat 9))] =
      Some (Inr [LDev a], st1) \<and>
    bind_verify_create toy_lua calloc_alloc st1 [LDev a] = Some (Inr [LDev b], st2)"
proof -
  have n: "(4 :: nat) \<le> 16" "(16 :: nat) \<le> 2 ^ 20" "(2 :: nat) \<le> 9" "16 * 9 < (2 ^ 64 :: nat)" by simp_all
  show ?thesis
    using bind_verify_over_ram [OF toy.lua_interpreter_axioms calloc_alloc_ok calloc_total n, of toy_start] by blast
qed

theorem bind_read_bytes_wraps_witness:
  "\<exists>st1. bind_bio_create_malloc lax_lua calloc_alloc toy_start [LNum (Fin (of_nat 4096)), LNum (Fin (of_nat 1))] =
      Some (Inr [LDev 0], st1) \<and>
    bind_bdev_read_bytes lax_lua (\<lambda>n. if n < 2 ^ 32 then Some (replicate n 0) else None) st1
      [LDev 0, LNum (Fin 2048), LNum (Fin (2 ^ 64 - 2048))] = None"
proof -
  have "(1 :: nat) \<le> 4096" "(4096 :: nat) \<le> 2 ^ 20" "(1 :: nat) \<le> 1" "4096 * 1 < (2 ^ 64 :: nat)" by simp_all
  then obtain st D valid cont where r:
    "bind_bio_create_malloc lax_lua calloc_alloc toy_start [LNum (Fin (of_nat 4096)), LNum (Fin (of_nat 1))] = Some (Inr [LDev 0], st)"
    "dev_object lax_lua st 0 D" "block_device (fns D) valid cont True" "valid (hp st)"
    "block_size (fns D) = of_nat 4096" "block_count (fns D) = of_nat 1"
    by (rule toy_ram)
  have "2048 < block_count (fns D) * block_size (fns D)" by (simp add: r(5,6))
  from bind_read_bytes_wraps [OF lax_interpreter r(2) this, of "\<lambda>n. if n < 2 ^ 32 then Some (replicate n 0) else None"] r(1)
  show ?thesis by simp
qed

end
