(* ===== verification/BindLoop.thy ===== *)
theory BindLoop
  imports Lua Loop
begin

text \<open>
  The state shared by the bindings of the loop (\<open>src/src/lua/\<close>): the loop of \<open>Loop\<close>, whose own
  library state holds the memory of the bindings and, as \<open>interp\<close>, what is outside the program:
  the interpreter and libevent. The callbacks that the bindings give to the loop are values: the
  function and its \<open>data\<close> pointer.
\<close>

section \<open>The memory of the bindings\<close>

datatype socket_state = SOCKET_CONNECTING | SOCKET_OPEN | SOCKET_DESTROYED

record socket_cbrefs =
  ref_error :: int
  ref_connect :: int
  ref_eof :: int
  ref_read :: int

record socket_data =
  sd_state :: socket_state
  cb_refs :: socket_cbrefs
  sd_ref :: int
  sd_sock :: "addr option"
  sd_buffer :: bytes
  sd_host :: string
  sd_port :: u16

record listener_data =
  ld_ll :: "addr option"
  ld_port :: int
  handler_ref :: int
  listener_ref :: int
  creation_location :: bytes

text \<open>The structs of sockets and listeners are userdata, which the interpreter allocates; the
  structs of timers (their reference) come from \<open>malloc\<close>. \<open>lua_stack\<close> is what lies on the stack of
  the main Lua state when the loop calls, bottom first. Then come the static variables of
  \<open>main.c\<close>, and an error on its way through the C functions to \<open>lua_cpcall\<close>.\<close>

record 'e bind_world =
  interp :: 'e
  sock_mem :: "socket_data option list"
  lst_mem :: "listener_data option list"
  timer_mem :: "int option list"
  lua_stack :: "lval list"
  gc_counter :: int
  run_interactive :: bool
  interactive_loop_running :: bool
  readline_lua :: bool
  stdin_watcher :: "addr option"
  raised :: "lua_exc option"

datatype bind_cb = SockErrorCb addr | SockConnectCb addr | SockReadCb addr | AcceptCb addr
  | TimerCb addr | StdinCb | GcLoopFn

type_synonym 'e bst = "('e bind_world, bind_cb) loop"

definition lvm :: "'e bst \<Rightarrow> 'e" where
  "lvm st = interp (lib st)"

definition set_lvm :: "'e \<Rightarrow> 'e bst \<Rightarrow> 'e bst" where
  "set_lvm v st = st\<lparr>lib := (lib st)\<lparr>interp := v\<rparr>\<rparr>"

definition get_sd :: "'e bst \<Rightarrow> addr \<Rightarrow> socket_data run" where
  "get_sd st a = cell (sock_mem (lib st)) a"

definition put_sd :: "addr \<Rightarrow> socket_data \<Rightarrow> 'e bst \<Rightarrow> 'e bst" where
  "put_sd a sd st = st\<lparr>lib := (lib st)\<lparr>sock_mem := (sock_mem (lib st))[a := Some sd]\<rparr>\<rparr>"

definition get_ld :: "'e bst \<Rightarrow> addr \<Rightarrow> listener_data run" where
  "get_ld st a = cell (lst_mem (lib st)) a"

definition put_ld :: "addr \<Rightarrow> listener_data \<Rightarrow> 'e bst \<Rightarrow> 'e bst" where
  "put_ld a ld st = st\<lparr>lib := (lib st)\<lparr>lst_mem := (lst_mem (lib st))[a := Some ld]\<rparr>\<rparr>"

section \<open>The registry\<close>

definition reg_ref :: "'e lua_api \<Rightarrow> lval \<Rightarrow> 'e bst \<Rightarrow> int \<times> 'e bst" where
  "reg_ref api v st = (let (r, w) = luaL_ref api (lvm st) v in (r, set_lvm w st))"

definition reg_unref :: "'e lua_api \<Rightarrow> int \<Rightarrow> 'e bst \<Rightarrow> 'e bst" where
  "reg_unref api r st = set_lvm (luaL_unref api (lvm st) r) st"

definition reg_get :: "'e lua_api \<Rightarrow> 'e bst \<Rightarrow> int \<Rightarrow> lval" where
  "reg_get api st r = rawgeti api (lvm st) r"

section \<open>libevent, beside the memory of the bindings\<close>

definition on_world1 :: "('e \<Rightarrow> 'r \<times> 'e) \<Rightarrow> 'e bind_world \<Rightarrow> 'r \<times> 'e bind_world" where
  "on_world1 f w = (let (r, e) = f (interp w) in (r, w\<lparr>interp := e\<rparr>))"

definition on_world0 :: "('e \<Rightarrow> 'e) \<Rightarrow> 'e bind_world \<Rightarrow> 'e bind_world" where
  "on_world0 f w = w\<lparr>interp := f (interp w)\<rparr>"

definition on_world :: "'e libevent \<Rightarrow> 'e bind_world libevent" where
  "on_world ev =
    \<lparr>event_base_new = on_world1 (event_base_new ev),
     event_base_free = on_world0 (event_base_free ev),
     event_base_loopbreak = on_world0 (event_base_loopbreak ev),
     evdns_base_new = on_world1 (evdns_base_new ev),
     evdns_base_free = on_world0 (evdns_base_free ev),
     bufferevent_socket_new = (\<lambda>w h fd. on_world1 (\<lambda>e. bufferevent_socket_new ev e h fd) w),
     bufferevent_free = (\<lambda>w h. on_world0 (\<lambda>e. bufferevent_free ev e h) w),
     connect_hostname = (\<lambda>w h host port. on_world1 (\<lambda>e. connect_hostname ev e h host port) w),
     evbuffer_copyout = (\<lambda>w h n. let (r, d, e) = evbuffer_copyout ev (interp w) h n in (r, d, w\<lparr>interp := e\<rparr>)),
     evbuffer_drain = (\<lambda>w h n. on_world0 (\<lambda>e. evbuffer_drain ev e h n) w),
     evbuffer_add = (\<lambda>w h d. on_world0 (\<lambda>e. evbuffer_add ev e h d) w),
     evbuffer_get_length = (\<lambda>w h. evbuffer_get_length ev (interp w) h),
     evtimer_add = (\<lambda>w t s us. on_world0 (\<lambda>e. evtimer_add ev e t s us) w),
     timer_event_free = (\<lambda>w t. on_world0 (\<lambda>e. timer_event_free ev e t) w),
     watch_event_add = (\<lambda>w x fd. on_world1 (\<lambda>e. watch_event_add ev e x fd) w),
     watch_event_free = (\<lambda>w x. on_world0 (\<lambda>e. watch_event_free ev e x) w),
     evconnlistener_new_bind = (\<lambda>w l port. on_world1 (\<lambda>e. evconnlistener_new_bind ev e l port) w),
     evconnlistener_free = (\<lambda>w l. on_world0 (\<lambda>e. evconnlistener_free ev e l) w),
     close_fd = (\<lambda>w fd. on_world0 (\<lambda>e. close_fd ev e fd) w)\<rparr>"

named_theorems world_simps \<open>the state of the bindings\<close>

lemma on_world1_simps [world_simps]:
  "f (interp w) = (r, e) \<Longrightarrow> on_world1 f w = (r, w\<lparr>interp := e\<rparr>)"
  by (simp add: on_world1_def)

lemma lvm_simps [world_simps]:
  "lvm (set_lvm v st) = v"
  "lvm (put_sd a sd st) = lvm st"
  "lvm (put_ld a ld st) = lvm st"
  "set_lvm v (set_lvm u st) = set_lvm v st"
  by (simp_all add: lvm_def set_lvm_def put_sd_def put_ld_def)

lemma sd_simps [world_simps]:
  "get_sd (set_lvm v st) a = get_sd st a"
  "get_sd (put_ld b ld st) a = get_sd st a"
  "get_sd st a \<noteq> None \<Longrightarrow> get_sd (put_sd a sd st) a = Some sd"
  "b \<noteq> a \<Longrightarrow> get_sd (put_sd b sd st) a = get_sd st a"
  by (auto simp: get_sd_def set_lvm_def put_sd_def put_ld_def cell_def split: if_splits)

lemma loop_parts [world_simps]:
  "socks (set_lvm v st) = socks st" "socks (put_sd a sd st) = socks st"
  "timers (set_lvm v st) = timers st" "timers (put_sd a sd st) = timers st"
  "exiting_early (set_lvm v st) = exiting_early st"
  "listeners (set_lvm v st) = listeners st" "listeners (put_sd a sd st) = listeners st"
  by (simp_all add: set_lvm_def put_sd_def)

lemma reg_simps [world_simps]:
  "get_sd (reg_unref api r st) a = get_sd st a"
  "lvm (reg_unref api r st) = luaL_unref api (lvm st) r"
  "socks (reg_unref api r st) = socks st"
  "reg_get api (put_sd a sd st) r = reg_get api st r"
  by (simp_all add: reg_unref_def reg_get_def world_simps)

end
