(* ===== verification/BindSocket.thy ===== *)
theory BindSocket
  imports BindLoop
begin

text \<open>
  \<open>src/src/lua/bind-socket.c\<close>: TCP sockets and listeners as objects of Lua. A socket's userdata
  holds five references into the registry: its own, which keeps it alive, and the four functions
  that the loop's callbacks call. \<open>call\<close> is the interpreter calling a function of a script,
  which may call the bindings again.

  Userdata that are referenced are not collected; the bindings never free them.
\<close>

definition SOCKET_READ_SIZE :: nat where
  "SOCKET_READ_SIZE = 1024"

definition SOCKET_HOST_LEN :: nat where
  "SOCKET_HOST_LEN = 64"

definition SOCK_META :: string where
  "SOCK_META = ''druid socket''"

definition LISTENER_META :: string where
  "LISTENER_META = ''druid listener''"

definition check_sock :: "'e lua_api \<Rightarrow> 'e bst \<Rightarrow> lval \<Rightarrow> (addr \<Rightarrow> 'e bst lua_result) \<Rightarrow> 'e bst lua_result" where
  "check_sock api st v k =
    (case v of
       LSock a \<Rightarrow> if has_metatable api (lvm st) v SOCK_META then k a
                 else Some (Inl (BadArg 1 ''druid socket expected''), st)
     | _ \<Rightarrow> Some (Inl (BadArg 1 ''druid socket expected''), st))"

definition check_listener :: "'e lua_api \<Rightarrow> 'e bst \<Rightarrow> lval \<Rightarrow> (addr \<Rightarrow> 'e bst lua_result) \<Rightarrow> 'e bst lua_result" where
  "check_listener api st v k =
    (case v of
       LLst a \<Rightarrow> if has_metatable api (lvm st) v LISTENER_META then k a
                else Some (Inl (BadArg 1 ''druid listener expected''), st)
     | _ \<Rightarrow> Some (Inl (BadArg 1 ''druid listener expected''), st))"

section \<open>The table of callbacks\<close>

text \<open>One field of the table: its function is referenced, or a message is left.\<close>

definition cbref_field ::
  "'e lua_api \<Rightarrow> lval \<Rightarrow> addr \<Rightarrow> string \<Rightarrow> (int \<Rightarrow> socket_cbrefs \<Rightarrow> socket_cbrefs) \<Rightarrow> 'e bst \<Rightarrow>
   ('e bst \<Rightarrow> ((lval + unit) \<times> 'e bst) run) \<Rightarrow> ((lval + unit) \<times> 'e bst) run" where
  "cbref_field api t a name upd st k =
    (let f = getfield api (lvm st) t name
     in if \<not> is_LFun f then Some (Inl (lua_string (CHR 0x27 # name @
            CHR 0x27 # '' field of callback table is not a function (is '' @ lua_typename f @ '')'')), st)
        else do {
          let (r, st) = reg_ref api f st;
          sd \<leftarrow> get_sd st a;
          k (put_sd a (sd\<lparr>cb_refs := upd r (cb_refs sd)\<rparr>) st) })"

definition cbref_fields :: "'e lua_api \<Rightarrow> 'e bst \<Rightarrow> addr \<Rightarrow> lval \<Rightarrow> ((lval + unit) \<times> 'e bst) run" where
  "cbref_fields api st a t =
    cbref_field api t a ''read'' (\<lambda>r. ref_read_update (\<lambda>_. r)) st (\<lambda>st.
    cbref_field api t a ''eof'' (\<lambda>r. ref_eof_update (\<lambda>_. r)) st (\<lambda>st.
    cbref_field api t a ''connect'' (\<lambda>r. ref_connect_update (\<lambda>_. r)) st (\<lambda>st.
    cbref_field api t a ''error'' (\<lambda>r. ref_error_update (\<lambda>_. r)) st (\<lambda>st.
    Some (Inr (), st)))))"

text \<open>\<open>v\<close> is the handler, on the stack above the socket. \<open>Inl\<close> is a message, the result false.\<close>

definition bind_loop_sock_setup_cbrefs ::
  "'e lua_api \<Rightarrow> 'e bst lua_caller \<Rightarrow> 'e bst \<Rightarrow> addr \<Rightarrow> lval \<Rightarrow> ((lval + unit) \<times> 'e bst) run" where
  "bind_loop_sock_setup_cbrefs api call st a v = do {
     sd \<leftarrow> get_sd st a;
     let st = put_sd a (sd\<lparr>cb_refs := \<lparr>ref_error = LUA_REFNIL, ref_connect = LUA_REFNIL,
       ref_eof = LUA_REFNIL, ref_read = LUA_REFNIL\<rparr>\<rparr>) st;
     if is_LFun v then do {
       (r, st) \<leftarrow> call v [LSock a] st;
       case r of
         Inl e \<Rightarrow> Some (Inl (exc_value api e), st)
       | Inr vs \<Rightarrow>
           if \<not> is_LTab (arg vs 1) then Some (Inl (lua_string ''Callback did not return a table''), st)
           else cbref_fields api st a (arg vs 1) }
     else if \<not> is_LTab v then Some (Inl (lua_string ''Callback object is not a function or a table''), st)
     else cbref_fields api st a v }"

section \<open>Methods\<close>

definition bind_loop_sock_gc :: "'e lua_api \<Rightarrow> 'e libevent \<Rightarrow> 'e bst lua_fn" where
  "bind_loop_sock_gc api ev st args =
    check_sock api st (arg args 1) (\<lambda>a. do {
      sd \<leftarrow> get_sd st a;
      if sd_state sd = SOCKET_DESTROYED then ret [] st
      else do {
        let st = reg_unref api (sd_ref sd) st;
        let st = reg_unref api (ref_error (cb_refs sd)) st;
        let st = reg_unref api (ref_eof (cb_refs sd)) st;
        let st = reg_unref api (ref_connect (cb_refs sd)) st;
        let st = reg_unref api (ref_read (cb_refs sd)) st;
        st \<leftarrow> (case sd_sock sd of
            None \<Rightarrow> Some st
          | Some h \<Rightarrow> loop_sock_close (on_world ev) st h);
        ret [] (put_sd a (sd\<lparr>sd_sock := None, sd_state := SOCKET_DESTROYED\<rparr>) st) } })"

definition bind_loop_sock_write :: "'e lua_api \<Rightarrow> 'e libevent \<Rightarrow> 'e bst lua_fn" where
  "bind_loop_sock_write api ev st args =
    require_exactly args 2 st (
    check_sock api st (arg args 1) (\<lambda>a. do {
      sd \<leftarrow> get_sd st a;
      if sd_state sd = SOCKET_DESTROYED then ret [] st
      else luaL_checklstring api args 2 st (\<lambda>buf. do {
        h \<leftarrow> sd_sock sd;
        st \<leftarrow> loop_sock_write (on_world ev) st h buf;
        ret [] st }) }))"

definition bind_loop_sock_close :: "'e lua_api \<Rightarrow> 'e libevent \<Rightarrow> 'e bst lua_fn" where
  "bind_loop_sock_close api ev st args =
    require_exactly args 1 st (
    check_sock api st (arg args 1) (\<lambda>a. do {
      sd \<leftarrow> get_sd st a;
      if sd_state sd = SOCKET_DESTROYED then ret [] st
      else bind_loop_sock_gc api ev st args }))"

definition bind_loop_sock_get_hostname :: "'e lua_api \<Rightarrow> 'e bst lua_fn" where
  "bind_loop_sock_get_hostname api st args =
    require_exactly args 1 st (
    check_sock api st (arg args 1) (\<lambda>a. do {
      sd \<leftarrow> get_sd st a;
      ret [lua_string (sd_host sd)] st }))"

definition bind_loop_sock_get_port :: "'e lua_api \<Rightarrow> 'e bst lua_fn" where
  "bind_loop_sock_get_port api st args =
    require_exactly args 1 st (
    check_sock api st (arg args 1) (\<lambda>a. do {
      sd \<leftarrow> get_sd st a;
      ret [LNum (Fin (of_nat (unat (sd_port sd))))] st }))"

text \<open>\<open>place\<close> is the address of a struct as a number.\<close>

definition bind_loop_sock_id :: "'e lua_api \<Rightarrow> (addr \<Rightarrow> lnum) \<Rightarrow> 'e bst lua_fn" where
  "bind_loop_sock_id api place st args =
    require_exactly args 1 st (
    check_sock api st (arg args 1) (\<lambda>a. do {
      _ \<leftarrow> get_sd st a;
      ret [LNum (place a)] st }))"

fun state_words :: "socket_state \<Rightarrow> string" where
  "state_words SOCKET_CONNECTING = ''connecting to ''"
| "state_words SOCKET_OPEN = ''connected to ''"
| "state_words SOCKET_DESTROYED = ''finished with ''"

definition lua_bytes :: "string \<Rightarrow> bytes" where
  "lua_bytes s = map (\<lambda>c. of_nat (of_char c)) s"

definition bind_loop_sock_tostring :: "'e lua_api \<Rightarrow> (addr \<Rightarrow> lnum) \<Rightarrow> 'e bst lua_fn" where
  "bind_loop_sock_tostring api place st args =
    require_exactly args 1 st (
    check_sock api st (arg args 1) (\<lambda>a. do {
      sd \<leftarrow> get_sd st a;
      ret [LStr (lua_bytes (''tcp('' @ state_words (sd_state sd) @ sd_host sd @ '' port '') @
        num_string api (Fin (of_nat (unat (sd_port sd)))) @ lua_bytes '', id '' @
        num_string api (place a) @ lua_bytes '')'')] st }))"

section \<open>Callbacks of the loop\<close>

text \<open>\<open>in_buffer\<close> is counted down by what was peeked, wrapping around as \<open>size_t\<close>.\<close>

partial_function (option) read_cb_loop ::
  "'e lua_api \<Rightarrow> 'e libevent \<Rightarrow> 'e bst lua_caller \<Rightarrow> u64 \<Rightarrow> addr \<Rightarrow> addr \<Rightarrow> 'e bst \<Rightarrow> 'e bst lua_result" where
  "read_cb_loop api ev call in_buffer h a st =
    (if in_buffer > 0 then do {
       (r, d, st) \<leftarrow> loop_sock_peek (on_world ev) st h SOCKET_READ_SIZE;
       let n = (word_of_int r :: u64);
       sd \<leftarrow> get_sd st a;
       buf \<leftarrow> wr (sd_buffer sd) 0 d;
       let st = put_sd a (sd\<lparr>sd_buffer := buf\<rparr>) st;
       c_assert (n > 0);
       st \<leftarrow> loop_sock_drop (on_world ev) st h (unat n);
       sd \<leftarrow> get_sd st a;
       got \<leftarrow> rd (sd_buffer sd) 0 (unat n);
       (res, st) \<leftarrow> call (reg_get api st (ref_read (cb_refs sd))) [reg_get api st (sd_ref sd), LStr got] st;
       case res of
         Inl e \<Rightarrow> Some (Inl e, st)
       | Inr _ \<Rightarrow> read_cb_loop api ev call (in_buffer - n) h a st }
     else ret [] st)"

declare read_cb_loop.simps [simp del]

definition bind_loop_read_cb ::
  "'e lua_api \<Rightarrow> 'e libevent \<Rightarrow> 'e bst lua_caller \<Rightarrow> u64 \<Rightarrow> addr \<Rightarrow> addr \<Rightarrow> 'e bst \<Rightarrow> 'e bst lua_result" where
  "bind_loop_read_cb api ev call in_buffer h a st = do {
     sd \<leftarrow> get_sd st a;
     if sd_state sd = SOCKET_DESTROYED then ret [] st
     else read_cb_loop api ev call in_buffer h a st }"

definition bind_loop_connect_cb :: "'e lua_api \<Rightarrow> 'e bst lua_caller \<Rightarrow> addr \<Rightarrow> 'e bst \<Rightarrow> 'e bst lua_result" where
  "bind_loop_connect_cb api call a st = do {
     sd \<leftarrow> get_sd st a;
     if sd_state sd = SOCKET_DESTROYED then ret [] st
     else do {
       let st = put_sd a (sd\<lparr>sd_state := SOCKET_OPEN\<rparr>) st;
       call (reg_get api st (ref_connect (cb_refs sd))) [reg_get api st (sd_ref sd)] st } }"

definition bind_loop_error_cb ::
  "'e lua_api \<Rightarrow> 'e libevent \<Rightarrow> 'e bst lua_caller \<Rightarrow> int \<Rightarrow> addr \<Rightarrow> 'e bst \<Rightarrow> 'e bst lua_result" where
  "bind_loop_error_cb api ev call err a st = do {
     sd \<leftarrow> get_sd st a;
     if sd_state sd = SOCKET_DESTROYED then ret [] st
     else do {
       (r, st) \<leftarrow> call (reg_get api st (if err = 0 then ref_eof (cb_refs sd) else ref_error (cb_refs sd)))
         [reg_get api st (sd_ref sd), LNum (Fin (of_int err))] st;
       case r of
         Inl e \<Rightarrow> Some (Inl e, st)
       | Inr _ \<Rightarrow> do {
           sd \<leftarrow> get_sd st a;
           bind_loop_sock_gc api ev st [reg_get api st (sd_ref sd)] } } }"

section \<open>Connecting\<close>

text \<open>The metatable is put on the value at the bottom of the stack.\<close>

definition bind_loop_socket_setmetatable :: "'e lua_api \<Rightarrow> lval \<Rightarrow> 'e bst \<Rightarrow> 'e bst" where
  "bind_loop_socket_setmetatable api bottom st = set_lvm (setmetatable api (lvm st) bottom SOCK_META) st"

text \<open>What the two metatables find for a name.\<close>

definition socket_methods :: "'e lua_api \<Rightarrow> 'e libevent \<Rightarrow> (addr \<Rightarrow> lnum) \<Rightarrow> (string \<times> 'e bst lua_fn) list" where
  "socket_methods api ev place =
    [(''write'', bind_loop_sock_write api ev),
     (''close'', bind_loop_sock_close api ev),
     (''get_hostname'', bind_loop_sock_get_hostname api),
     (''get_port'', bind_loop_sock_get_port api),
     (''tostring'', bind_loop_sock_tostring api place),
     (''id'', bind_loop_sock_id api place)]"

definition new_sd :: socket_data where
  "new_sd = \<lparr>sd_state = SOCKET_CONNECTING, cb_refs = \<lparr>ref_error = 0, ref_connect = 0, ref_eof = 0, ref_read = 0\<rparr>,
     sd_ref = 0, sd_sock = None, sd_buffer = replicate SOCKET_READ_SIZE 0, sd_host = [], sd_port = 0\<rparr>"

text \<open>A new struct, zeroed, with its reference.\<close>

definition new_socket :: "'e lua_api \<Rightarrow> 'e bst \<Rightarrow> addr \<times> 'e bst" where
  "new_socket api st =
    (let a = length (sock_mem (lib st));
         st = st\<lparr>lib := (lib st)\<lparr>sock_mem := sock_mem (lib st) @ [Some new_sd]\<rparr>\<rparr>;
         (r, st) = reg_ref api (LSock a) st
     in (a, put_sd a (new_sd\<lparr>sd_ref := r\<rparr>) st))"

definition sock_cbs :: "addr \<Rightarrow> bind_cb tcp_cb" where
  "sock_cbs a = \<lparr>cb_error = Some (SockErrorCb a), cb_connect = Some (SockConnectCb a), cb_read = Some (SockReadCb a)\<rparr>"

definition bind_loop_tcp_connect :: "'e lua_api \<Rightarrow> 'e libevent \<Rightarrow> 'e bst lua_caller \<Rightarrow> 'e bst lua_fn" where
  "bind_loop_tcp_connect api ev call st args =
    require_exactly args 3 st (
    luaL_checklstring api args 1 st (\<lambda>hostname.
    let host = c_string hostname in
    luaL_checkint api args 2 st (\<lambda>port.
    luaL_argcheck (is_LFun (arg args 3) \<or> is_LTab (arg args 3)) 3 ''Handler is not a function or table'' st (
    luaL_argcheck (port \<ge> 0 \<and> port \<le> 65535) 2 ''Port is out of range'' st (
    luaL_argcheck (host \<noteq> []) 1 ''Hostname is empty'' st (do {
      let (a, st) = new_socket api st;
      let st = bind_loop_socket_setmetatable api (LStr hostname) st;
      (r, st) \<leftarrow> bind_loop_sock_setup_cbrefs api call st a (arg args 3);
      sd \<leftarrow> get_sd st a;
      case r of
        Inl msg \<Rightarrow> do {
          let st = reg_unref api (sd_ref sd) st;
          Some (Inl (prefixed_error api (luaL_where api (lvm st)) msg), st) }
      | Inr _ \<Rightarrow> do {
          (h, st) \<leftarrow> loop_tcp_connect (on_world ev) st host (word_of_int port) (sock_cbs a);
          let st = put_sd a (sd\<lparr>sd_sock := h\<rparr>) st;
          case h of
            None \<Rightarrow> do {
              let st = reg_unref api (sd_ref sd) st;
              Some (Inl (prefixed_error api (luaL_where api (lvm st)) (lua_string ''Couldn't setup TCP connection'')), st) }
          | Some _ \<Rightarrow> do {
              let st = put_sd a (sd\<lparr>sd_sock := h, sd_state := SOCKET_CONNECTING,
                sd_host := take (SOCKET_HOST_LEN - 1) host, sd_port := word_of_int port\<rparr>) st;
              ret [reg_get api st (sd_ref sd)] st } } }))))))"

section \<open>Listeners\<close>

definition bind_loop_listener_gc :: "'e lua_api \<Rightarrow> 'e libevent \<Rightarrow> 'e bst lua_fn" where
  "bind_loop_listener_gc api ev st args =
    check_listener api st (arg args 1) (\<lambda>a. do {
      ld \<leftarrow> get_ld st a;
      let (ld, st) = (if handler_ref ld \<noteq> LUA_REFNIL
        then (ld\<lparr>handler_ref := LUA_REFNIL\<rparr>, reg_unref api (handler_ref ld) st) else (ld, st));
      let (ld, st) = (if listener_ref ld \<noteq> LUA_REFNIL
        then (ld\<lparr>listener_ref := LUA_REFNIL\<rparr>, reg_unref api (listener_ref ld) st) else (ld, st));
      (ld, st) \<leftarrow> (case ld_ll ld of
          None \<Rightarrow> Some (ld, st)
        | Some l \<Rightarrow> do {
            st \<leftarrow> loop_listener_close (on_world ev) st l;
            Some (ld\<lparr>ld_ll := None\<rparr>, st) });
      ret [] (put_ld a ld st) })"

definition bind_loop_listener_tostring :: "'e lua_api \<Rightarrow> 'e bst lua_fn" where
  "bind_loop_listener_tostring api st args =
    require_exactly args 1 st (
    check_listener api st (arg args 1) (\<lambda>a. do {
      ld \<leftarrow> get_ld st a;
      ret [LStr (lua_bytes ''listener(on port '' @ num_string api (Fin (of_int (ld_port ld))) @ lua_bytes '')'')] st }))"

text \<open>The method \<open>tostring\<close> is the one of sockets.\<close>

definition listener_methods :: "'e lua_api \<Rightarrow> 'e libevent \<Rightarrow> (addr \<Rightarrow> lnum) \<Rightarrow> (string \<times> 'e bst lua_fn) list" where
  "listener_methods api ev place =
    [(''stop'', bind_loop_listener_gc api ev),
     (''tostring'', bind_loop_sock_tostring api place)]"

text \<open>\<open>base\<close> is what is on the stack of the listener's Lua state when the loop calls, bottom first;
  none in the main state. The number is not 0 when the socket is refused; an error raised here
  passes through the loop.\<close>

definition bind_loop_accept_cb ::
  "'e lua_api \<Rightarrow> 'e bst lua_caller \<Rightarrow> lval list \<Rightarrow> string \<Rightarrow> addr \<Rightarrow> addr \<Rightarrow> 'e bst \<Rightarrow>
   ((lua_exc + int \<times> bind_cb tcp_cb) \<times> 'e bst) run" where
  "bind_loop_accept_cb api call base ip h l st = do {
     ld \<leftarrow> get_ld st l;
     let (a, st) = new_socket api st;
     let st = bind_loop_socket_setmetatable api (hd (base @ [LSock a])) st;
     (r, st) \<leftarrow> bind_loop_sock_setup_cbrefs api call st a (reg_get api st (handler_ref ld));
     case r of
       Inl msg \<Rightarrow> do {
         ld \<leftarrow> get_ld st l;
         case prefixed_error api (creation_location ld) msg of
           Thrown v \<Rightarrow> do {
             let (r, st) = reg_ref api v st;
             Some (Inr (-1, \<lparr>cb_error = None, cb_connect = None, cb_read = None\<rparr>), reg_unref api r st) }
         | e \<Rightarrow> Some (Inl e, st) }
     | Inr _ \<Rightarrow> do {
         sd \<leftarrow> get_sd st a;
         Some (Inr (0, sock_cbs a), put_sd a (sd\<lparr>sd_sock := Some h, sd_state := SOCKET_CONNECTING,
           sd_host := take (SOCKET_HOST_LEN - 1) ip, sd_port := 0\<rparr>) st) } }"

definition CREATION_LOCATION_LEN :: nat where
  "CREATION_LOCATION_LEN = 128"

definition bind_loop_tcp_listen :: "'e lua_api \<Rightarrow> 'e libevent \<Rightarrow> 'e bst lua_fn" where
  "bind_loop_tcp_listen api ev st args =
    require_exactly args 2 st (
    luaL_checkint api args 1 st (\<lambda>port.
    luaL_argcheck (is_LFun (arg args 2) \<or> is_LTab (arg args 2)) 2 ''Handler is not a function or table'' st (
    let (hr, st) = reg_ref api (arg args 2) st in
    luaL_argcheck (port > 0 \<and> port \<le> 65535) 1 ''Port is out of range'' st (do {
      let a = length (lst_mem (lib st));
      let (lr, st) = reg_ref api (LLst a) st;
      let ld = \<lparr>ld_ll = None, ld_port = port, handler_ref = hr, listener_ref = lr,
        creation_location = take (CREATION_LOCATION_LEN - 1) (luaL_where api (lvm st))\<rparr>;
      let st = st\<lparr>lib := (lib st)\<lparr>lst_mem := lst_mem (lib st) @ [Some ld]\<rparr>\<rparr>;
      (ll, st) \<leftarrow> loop_tcp_listen (on_world ev) st (word_of_int port) (AcceptCb a);
      let st = put_ld a (ld\<lparr>ld_ll := ll\<rparr>) st;
      case ll of
        None \<Rightarrow> ret [LNil] (reg_unref api lr (reg_unref api hr st))
      | Some _ \<Rightarrow> ret [LLst a] (set_lvm (setmetatable api (lvm st) (LLst a) LISTENER_META) st) }))))"

definition bind_socket ::
  "'e bst registrar \<Rightarrow> 'e lua_api \<Rightarrow> 'e libevent \<Rightarrow> 'e bst lua_caller \<Rightarrow> 'e bst lua_fn" where
  "bind_socket register api ev call st args =
    require_exactly args 1 st (
    luaL_checktype (is_LTab (arg args 1)) 1 st (
    ret [arg args 1] (register st (arg args 1)
      [(''tcp_connect'', bind_loop_tcp_connect api ev call),
       (''tcp_listen'', bind_loop_tcp_listen api ev)])))"

end
