(* ===== verification/BindTimer.thy ===== *)
theory BindTimer
  imports BindLoop Logger
begin

text \<open>
  \<open>src/src/lua/bind-timer.c\<close>, the timers of scripts, and \<open>src/src/lua/bind-logger.c\<close>, the log. A timer's struct
  is a reference to its function; it is freed before the function runs.
\<close>

section \<open>Timers\<close>

definition timer_cb :: "'e lua_api \<Rightarrow> 'e libevent \<Rightarrow> 'e bst lua_caller \<Rightarrow> addr \<Rightarrow> 'e bst \<Rightarrow> 'e bst lua_result" where
  "timer_cb api ev call t st = do {
     refnum \<leftarrow> cell (timer_mem (lib st)) t;
     let st = st\<lparr>lib := (lib st)\<lparr>timer_mem := (timer_mem (lib st))[t := None]\<rparr>\<rparr>;
     let f = reg_get api st refnum;
     let st = reg_unref api refnum st;
     (r, st) \<leftarrow> call f [] st;
     case r of
       Inl e \<Rightarrow> do {
         st \<leftarrow> loop_exit_early (on_world ev) st;
         Some (Inl (Thrown (exc_value api e)), st) }
     | Inr _ \<Rightarrow> ret [] st }"

text \<open>\<open>conv\<close> is the conversion from \<open>double\<close> to seconds and microseconds.\<close>

definition bind_a_timer :: "'e lua_api \<Rightarrow> 'e libevent \<Rightarrow> (lnum \<Rightarrow> int \<times> int) \<Rightarrow> 'e bst lua_fn" where
  "bind_a_timer api ev conv st args =
    require_exactly args 2 st (
    luaL_checknumber api args 1 st (\<lambda>x.
    luaL_checktype (is_LFun (arg args 2)) 2 st (do {
      let t = length (timer_mem (lib st));
      let (r, st) = reg_ref api (arg args 2) st;
      let st = st\<lparr>lib := (lib st)\<lparr>timer_mem := timer_mem (lib st) @ [Some r]\<rparr>\<rparr>;
      st \<leftarrow> loop_add_timer (on_world ev) st (conv x) (TimerCb t);
      ret [] st })))"

definition bind_stop_loop :: "'e libevent \<Rightarrow> 'e bst lua_fn" where
  "bind_stop_loop ev st args =
    require_exactly args 0 st (do {
      st \<leftarrow> loop_exit_early (on_world ev) st;
      ret [] st })"

definition bind_timer :: "'e bst registrar \<Rightarrow> 'e lua_api \<Rightarrow> 'e libevent \<Rightarrow> (lnum \<Rightarrow> int \<times> int) \<Rightarrow> 'e bst lua_fn" where
  "bind_timer register api ev conv st args =
    require_exactly args 1 st (
    luaL_checktype (is_LTab (arg args 1)) 1 st (
    ret [arg args 1] (register st (arg args 1)
      [(''timer'', bind_a_timer api ev conv),
       (''stop_loop'', bind_stop_loop ev)])))"

section \<open>The log\<close>

text \<open>\<open>luaL_checkoption\<close>: the place of a name in a list; without a default the argument is needed.\<close>

fun position :: "string \<Rightarrow> string list \<Rightarrow> nat option" where
  "position x [] = None"
| "position x (y # ys) = (if x = y then Some 0 else map_option Suc (position x ys))"

definition luaL_checkoption ::
  "'v lua_api \<Rightarrow> lval list \<Rightarrow> nat \<Rightarrow> string option \<Rightarrow> string list \<Rightarrow> 'st \<Rightarrow> (nat \<Rightarrow> 'st lua_result) \<Rightarrow> 'st lua_result" where
  "luaL_checkoption api args i def names st k =
    (let find = (\<lambda>s. case position s names of
         None \<Rightarrow> Some (Inl (BadArg (int i) ''invalid option''), st)
       | Some n \<Rightarrow> k n)
     in if arg args i = LNil \<and> def \<noteq> None then find (the def)
        else luaL_checkstring api args i st find)"

definition level_names :: "string list" where
  "level_names = [''junk'', ''info'', ''warn'', ''err'', ''all'', ''none'', ''unknown'']"

definition level_correspondence :: "int list" where
  "level_correspondence = [0, 1, 2, 3, LOG_ALL, LOG_NONE, -1]"

text \<open>The state is the logger's and what its descriptor writes to; \<open>junk\<close> is what the logger's buffer holds
  when it is entered.\<close>

definition bind_log_fn ::
  "'v lua_api \<Rightarrow> ('o \<Rightarrow> int \<Rightarrow> string \<Rightarrow> 'o) \<Rightarrow> char list \<Rightarrow> (logger_state \<times> 'o) lua_fn" where
  "bind_log_fn api out junk st args =
    require_exactly args 3 st (
    luaL_checkoption api args 1 (Some ''unknown'') level_names st (\<lambda>n. do {
      level \<leftarrow> c_index level_correspondence n;
      luaL_checkstring api args 2 st (\<lambda>module.
      luaL_checkstring api args 3 st (\<lambda>str. do {
        w \<leftarrow> logger (fst st) junk level module str;
        case w of
          None \<Rightarrow> ret [] st
        | Some (fd, line) \<Rightarrow> ret [] (fst st, out (snd st) fd line) })) }))"

definition bind_log_set_level :: "'v lua_api \<Rightarrow> ('o \<Rightarrow> bytes) \<Rightarrow> (logger_state \<times> 'o) lua_fn" where
  "bind_log_set_level api where_now st args =
    require_exactly args 1 st (
    luaL_checkoption api args 1 None level_names st (\<lambda>n. do {
      level \<leftarrow> c_index level_correspondence n;
      if level = -1 then Some (Inl (prefixed_error api (where_now (snd st)) (lua_string ''Unknown logging level'')), st)
      else ret [] (logger_set_level (fst st) level, snd st) }))"

definition bind_logger ::
  "(logger_state \<times> 'o) registrar \<Rightarrow> 'v lua_api \<Rightarrow> ('o \<Rightarrow> int \<Rightarrow> string \<Rightarrow> 'o) \<Rightarrow> char list \<Rightarrow> ('o \<Rightarrow> bytes) \<Rightarrow>
   (logger_state \<times> 'o) lua_fn" where
  "bind_logger register api out junk where_now st args =
    require_exactly args 1 st (
    luaL_checktype (is_LTab (arg args 1)) 1 st (
    ret [arg args 1] (register st (arg args 1)
      [(''log'', bind_log_fn api out junk),
       (''log_set_level'', bind_log_set_level api where_now)])))"

end
