(* ===== verification/BindMain.thy ===== *)
theory BindMain
  imports BindSocket BindTimer
begin

text \<open>
  \<open>src/src/lua/main.c\<close>: the program \<open>druid\<close>. It runs the scripts named by its arguments, then the loop, with
  a prompt when asked for. An error that a callback raises leaves the functions of the loop
  and of libevent by \<open>longjmp\<close>; here the callback returns with the error in \<open>raised\<close>: it is the last
  thing that the handler does, and the last of the functions called after a turn, and the loop
  is left at once.

  Running code, files and the collector of garbage, which calls finalisers, are parameters, and
  so is readline.
\<close>

section \<open>What the program runs\<close>

record 'e scripts =
  lua_run :: "'e bst lua_caller"
  dostring :: "string \<Rightarrow> 'e bst \<Rightarrow> 'e bst lua_result"
  dofile :: "string \<Rightarrow> 'e bst \<Rightarrow> 'e bst lua_result"
  gc_step :: "'e bst \<Rightarrow> 'e bst lua_result"
  gc_collect :: "'e bst \<Rightarrow> 'e bst run"
  lua_close :: "'e bst \<Rightarrow> 'e bst run"
  read_char :: "'e \<Rightarrow> string option option \<times> 'e"
  on_tty :: "'e \<Rightarrow> bool"

definition GC_INTERVAL :: int where
  "GC_INTERVAL = 10"

definition set_world :: "('e bind_world \<Rightarrow> 'e bind_world) \<Rightarrow> 'e bst \<Rightarrow> 'e bst" where
  "set_world f st = st\<lparr>lib := f (lib st)\<rparr>"

definition gc_loop_fn :: "'e scripts \<Rightarrow> 'e bst \<Rightarrow> 'e bst lua_result" where
  "gc_loop_fn sc st = (
     let n = gc_counter (lib st) + 1
     in if n = GC_INTERVAL then gc_step sc (set_world (gc_counter_update (\<lambda>_. 0)) st)
        else ret [] (set_world (gc_counter_update (\<lambda>_. n)) st))"

section \<open>The prompt\<close>

definition end_interactive_loop :: "'e libevent \<Rightarrow> 'e bst \<Rightarrow> 'e bst run" where
  "end_interactive_loop ev st =
    (if interactive_loop_running (lib st) then do {
       w \<leftarrow> stdin_watcher (lib st);
       st \<leftarrow> loop_stop_watching (on_world ev) st w;
       Some (set_world (\<lambda>w. w\<lparr>stdin_watcher := None, interactive_loop_running := False\<rparr>) st) }
     else Some st)"

text \<open>The values that a line returns stay on the stack. The message of an error must be a string,
  else another error is raised.\<close>

definition got_line :: "'e lua_api \<Rightarrow> 'e libevent \<Rightarrow> 'e scripts \<Rightarrow> string option \<Rightarrow> 'e bst \<Rightarrow> 'e bst lua_result" where
  "got_line api ev sc line st =
    (case line of
       None \<Rightarrow> do {
         st \<leftarrow> end_interactive_loop ev st;
         ret [] st }
     | Some line \<Rightarrow> do {
         c_assert (readline_lua (lib st));
         (r, st) \<leftarrow> dostring sc line st;
         case r of
           Inl e \<Rightarrow>
             if as_lstring api (exc_value api e) = None then Some (Inl (BadArg (-1) ''string expected''), st)
             else ret [] st
         | Inr vs \<Rightarrow> ret [] (set_world (\<lambda>w. w\<lparr>lua_stack := lua_stack w @ vs\<rparr>) st) })"

text \<open>readline calls \<open>got_line\<close> when the character ends a line.\<close>

definition stdin_callback_fn :: "'e lua_api \<Rightarrow> 'e libevent \<Rightarrow> 'e scripts \<Rightarrow> 'e bst \<Rightarrow> 'e bst lua_result" where
  "stdin_callback_fn api ev sc st =
    (let (line, e) = read_char sc (lvm st);
         st = set_lvm e st
     in case line of
          None \<Rightarrow> ret [] st
        | Some line \<Rightarrow> got_line api ev sc line st)"

definition start_interactive_loop :: "'e libevent \<Rightarrow> 'e scripts \<Rightarrow> 'e bst \<Rightarrow> 'e bst run" where
  "start_interactive_loop ev sc st = do {
     c_assert (\<not> interactive_loop_running (lib st));
     c_assert (on_tty sc (lvm st));
     let st = set_world (readline_lua_update (\<lambda>_. True)) st;
     (x, st) \<leftarrow> loop_watch_fd_for_reading (on_world ev) st 0 StdinCb;
     Some (set_world (\<lambda>w. w\<lparr>stdin_watcher := Some x, interactive_loop_running := True\<rparr>) st) }"

section \<open>The callbacks of the loop\<close>

definition run_cb :: "'e lua_api \<Rightarrow> 'e libevent \<Rightarrow> 'e scripts \<Rightarrow> bind_cb \<Rightarrow> cb_arg \<Rightarrow> 'e bst \<Rightarrow> 'e bst lua_result" where
  "run_cb api ev sc cb x st =
    (case (cb, x) of
       (SockReadCb a, OnRead n h) \<Rightarrow> bind_loop_read_cb api ev (lua_run sc) (of_nat n) h a st
     | (SockConnectCb a, OnConnect h) \<Rightarrow> bind_loop_connect_cb api (lua_run sc) a st
     | (SockErrorCb a, OnError err h) \<Rightarrow> bind_loop_error_cb api ev (lua_run sc) err a st
     | (TimerCb t, OnTimer) \<Rightarrow> timer_cb api ev (lua_run sc) t st
     | (StdinCb, OnReady) \<Rightarrow> stdin_callback_fn api ev sc st
     | (GcLoopFn, OnReady) \<Rightarrow> gc_loop_fn sc st
     | _ \<Rightarrow> None)"

definition bind_caller :: "'e lua_api \<Rightarrow> 'e libevent \<Rightarrow> 'e scripts \<Rightarrow> ('e bind_world, bind_cb) caller" where
  "bind_caller api ev sc cb x st = do {
     (r, st) \<leftarrow> run_cb api ev sc cb x st;
     case r of
       Inl e \<Rightarrow> Some (set_world (raised_update (\<lambda>_. Some e)) st)
     | Inr _ \<Rightarrow> Some st }"

text \<open>A connection to a listener: the callback runs on the new handle, and the rest of the loop's
  function follows unless it raised.\<close>

definition bind_accept_conn ::
  "'e lua_api \<Rightarrow> 'e libevent \<Rightarrow> 'e scripts \<Rightarrow> 'e bst \<Rightarrow> addr \<Rightarrow> int \<Rightarrow> bool \<Rightarrow> string \<Rightarrow> 'e bst run" where
  "bind_accept_conn api ev sc st l fd inet ip = do {
     cb \<leftarrow> cell (listeners st) l;
     c_assert inet;
     ld \<leftarrow> (case cb of AcceptCb a \<Rightarrow> Some a | _ \<Rightarrow> None);
     let h = length (socks st);
     (r, st') \<leftarrow> bind_loop_accept_cb api (lua_run sc) (lua_stack (lib st)) ip h ld (st\<lparr>socks := socks st @
       [Some \<lparr>bev = False, sock_cb = \<lparr>cb_error = None, cb_connect = None, cb_read = None\<rparr>, has_dns = False\<rparr>]\<rparr>);
     case r of
       Inl e \<Rightarrow> Some (set_world (raised_update (\<lambda>_. Some e)) st')
     | Inr (n, cbs) \<Rightarrow>
         loop_accept_conn (on_world ev) (bind_caller api ev sc) (\<lambda>_ _ _ _. Some (n, cbs, st')) st l fd inet ip }"

section \<open>The program\<close>

text \<open>\<open>turn\<close> is a turn of libevent's loop. With an error on its way there is no other.\<close>

definition unwinding :: "('e bst \<Rightarrow> (int \<times> 'e bst) run) \<Rightarrow> 'e bst \<Rightarrow> (int \<times> 'e bst) run" where
  "unwinding turn st =
    (if raised (lib st) \<noteq> None then Some (1, st)
     else do {
       (r, st) \<leftarrow> turn st;
       Some (if raised (lib st) \<noteq> None then 1 else r, st) })"

definition runloop ::
  "('e bst \<Rightarrow> (int \<times> 'e bst) run) \<Rightarrow> ('e bind_world, bind_cb) caller \<Rightarrow> 'e bst \<Rightarrow> 'e bst lua_result" where
  "runloop turn caller st = do {
     st \<leftarrow> until_done_loop (unwinding turn) caller st;
     case raised (lib st) of
       Some e \<Rightarrow> Some (Inl e, set_world (raised_update (\<lambda>_. None)) st)
     | None \<Rightarrow> ret [] (st\<lparr>exiting_early := False\<rparr>) }"

text \<open>One script of the arguments. A message that is no string ends the process: nothing catches the error.\<close>

definition run_script :: "'e lua_api \<Rightarrow> ('e bst \<Rightarrow> 'e bst lua_result) \<Rightarrow> 'e bst \<Rightarrow> (bool \<times> 'e bst) run" where
  "run_script api script st = do {
     (r, st) \<leftarrow> script st;
     case r of
       Inl e \<Rightarrow> do {
         c_assert (as_lstring api (exc_value api e) \<noteq> None);
         Some (False, st) }
     | Inr _ \<Rightarrow> Some (True, set_world (lua_stack_update (\<lambda>_. [])) st) }"

text \<open>The loop over the arguments; the result is whether it came to the end.\<close>

fun main_args :: "'e lua_api \<Rightarrow> 'e scripts \<Rightarrow> string list \<Rightarrow> 'e bst \<Rightarrow> (bool \<times> 'e bst) run" where
  "main_args api sc [] st = Some (True, st)"
| "main_args api sc (a # as) st =
    (if a = ''-i'' then do {
       st \<leftarrow> gc_collect sc (set_world (\<lambda>w. w\<lparr>run_interactive := True, lua_stack := []\<rparr>) st);
       main_args api sc as st }
     else if a = ''-e'' then
       (case as of
          [] \<Rightarrow> Some (False, st)
        | code # as \<Rightarrow> do {
            (ok, st) \<leftarrow> run_script api (dostring sc code) st;
            if \<not> ok then Some (False, st)
            else do {
              st \<leftarrow> gc_collect sc st;
              main_args api sc as st } })
     else do {
       (ok, st) \<leftarrow> run_script api (dofile sc a) st;
       if \<not> ok then Some (False, st)
       else do {
         st \<leftarrow> gc_collect sc st;
         main_args api sc as st } })"

text \<open>From the point where the bindings are loaded; the result is the exit code.\<close>

definition main ::
  "'e lua_api \<Rightarrow> 'e libevent \<Rightarrow> 'e scripts \<Rightarrow> ('e bst \<Rightarrow> (int \<times> 'e bst) run) \<Rightarrow> string list \<Rightarrow> 'e bst \<Rightarrow> (int \<times> 'e bst) run" where
  "main api ev sc turn argv st = do {
     st \<leftarrow> loop_setup (on_world ev) st;
     st \<leftarrow> loop_do_repeatedly_whenever st GcLoopFn;
     (ok, st) \<leftarrow> main_args api sc argv st;
     (ret, st) \<leftarrow> (if \<not> ok then Some (1, st)
       else do {
         let st = (if argv = [] then set_world (run_interactive_update (\<lambda>_. True)) st else st);
         st \<leftarrow> (if run_interactive (lib st) then start_interactive_loop ev sc st else Some st);
         (r, st) \<leftarrow> runloop turn (bind_caller api ev sc) st;
         Some (case r of Inl e \<Rightarrow> 1 | Inr _ \<Rightarrow> 0, st) });
     st \<leftarrow> (if run_interactive (lib st) then end_interactive_loop ev st else Some st);
     st \<leftarrow> gc_collect sc st;
     st \<leftarrow> lua_close sc st;
     st \<leftarrow> loop_teardown (on_world ev) st;
     Some (ret, st) }"

end
