(* ===== verification/BindSocketProps.thy ===== *)
theory BindSocketProps
  imports BindMain
begin

text \<open>
  Properties of the bindings of the loop (\<open>src/src/lua/bind-socket.c\<close>, \<open>bind-timer.c\<close>): what a
  script sees of a socket from the accepted connection to its end, through the handlers of the
  loop; and the ways in which a script's callback ends the program.
\<close>

section \<open>The interpreter beside libevent\<close>

text \<open>A call of libevent leaves the interpreter's registry, tables and metatables alone.\<close>

definition lua_same :: "'e lua_api \<Rightarrow> ('e \<Rightarrow> int \<Rightarrow> lval option) \<Rightarrow> 'e \<Rightarrow> 'e \<Rightarrow> bool" where
  "lua_same api live e e' \<longleftrightarrow> live e' = live e \<and> rawgeti api e' = rawgeti api e \<and>
     has_metatable api e' = has_metatable api e \<and> getfield api e' = getfield api e"

text \<open>\<open>input e h\<close> are the bytes that handle \<open>h\<close> has received and that are not drained.\<close>

locale lua_events = lua_interpreter api live
  for api :: "'e lua_api" and live :: "'e \<Rightarrow> int \<Rightarrow> lval option" +
  fixes ev :: "'e libevent"
    and input :: "'e \<Rightarrow> addr \<Rightarrow> bytes"
  assumes free_same: "lua_same api live e (bufferevent_free ev e h)"
    and copyout_law: "evbuffer_copyout ev e h n = (r, d, e') \<Longrightarrow>
      lua_same api live e e' \<and> r = int (min n (length (input e h))) \<and> d = take n (input e h) \<and> input e' = input e"
    and drain_same: "lua_same api live e (evbuffer_drain ev e h n)"
    and drain_law: "input (evbuffer_drain ev e h n) h = drop n (input e h)"
    and length_law: "evbuffer_get_length ev e h = length (input e h)"
    and new_same: "lua_same api live e (snd (bufferevent_socket_new ev e h fd))"
    and dns_same: "lua_same api live e (snd (evdns_base_new ev e))"
    and connect_same: "lua_same api live e (snd (connect_hostname ev e h host port))"
    and timer_same: "lua_same api live e (evtimer_add ev e t s us)"
    and timer_free_same: "lua_same api live e (timer_event_free ev e t)"
    and break_same: "lua_same api live e (event_base_loopbreak ev e)"
begin

lemma unref_list:
  "distinct rs \<Longrightarrow> (\<And>r. r \<in> set rs \<Longrightarrow> live w r \<noteq> None) \<Longrightarrow>
    live (foldl (luaL_unref api) w rs) = live w |` (- set rs)"
proof (induction rs arbitrary: w)
  case (Cons r rs)
  have "live (luaL_unref api w r) = (live w)(r := None)" using Cons.prems(2) by (simp add: unref_law)
  moreover have "live (luaL_unref api w r) q \<noteq> None" if "q \<in> set rs" for q
    using Cons.prems that calculation by (auto simp: fun_upd_def)
  ultimately show ?case using Cons by (auto simp: restrict_map_def fun_eq_iff)
qed (simp add: restrict_map_def fun_eq_iff)

lemma unref_list_meta: "has_metatable api (foldl (luaL_unref api) w rs) u n = has_metatable api w u n"
  by (induction rs arbitrary: w) (simp_all add: meta_unref)

end

section \<open>An open socket\<close>

definition sock_refs :: "socket_data \<Rightarrow> int list" where
  "sock_refs sd = [sd_ref sd, ref_error (cb_refs sd), ref_eof (cb_refs sd), ref_connect (cb_refs sd), ref_read (cb_refs sd)]"

definition open_socket ::
  "'e lua_api \<Rightarrow> ('e \<Rightarrow> int \<Rightarrow> lval option) \<Rightarrow> 'e bst \<Rightarrow> addr \<Rightarrow> socket_data \<Rightarrow> addr \<Rightarrow> bool" where
  "open_socket api live st a sd h \<longleftrightarrow> get_sd st a = Some sd \<and> has_metatable api (lvm st) (LSock a) SOCK_META \<and>
     sd_state sd \<noteq> SOCKET_DESTROYED \<and> sd_sock sd = Some h \<and> sock_cell (socks st) h \<noteq> None \<and>
     distinct (sock_refs sd) \<and> (\<forall>r \<in> set (sock_refs sd). live (lvm st) r \<noteq> None)"

text \<open>The state after the socket is closed.\<close>

definition closed_state :: "'e lua_api \<Rightarrow> 'e libevent \<Rightarrow> 'e bst \<Rightarrow> addr \<Rightarrow> socket_data \<Rightarrow> addr \<Rightarrow> 'e bst" where
  "closed_state api ev st a sd h = put_sd a (sd\<lparr>sd_sock := None, sd_state := SOCKET_DESTROYED\<rparr>)
     (free_sock (set_lvm (bufferevent_free ev (foldl (luaL_unref api) (lvm st) (sock_refs sd)) h) st) h)"

lemma gc_open:
  assumes "open_socket api live st a sd h"
  shows "bind_loop_sock_gc api ev st [LSock a] = Some (Inr [], closed_state api ev st a sd h)"
  using assms
  by (auto simp: bind_loop_sock_gc_def check_sock_def open_socket_def loop_sock_close_def sock_refs_def closed_state_def
      ret_def reg_unref_def world_simps on_world_def on_world0_def Let_def free_sock_def set_lvm_def put_sd_def lvm_def)

lemma close_open:
  assumes "open_socket api live st a sd h"
  shows "bind_loop_sock_close api ev st [LSock a] = Some (Inr [], closed_state api ev st a sd h)"
  using assms gc_open [OF assms, of ev]
  by (simp add: bind_loop_sock_close_def require_exactly_def check_sock_def open_socket_def)

lemma closed_simps:
  assumes "open_socket api live st a sd h"
  shows "lvm (closed_state api ev st a sd h) = bufferevent_free ev (foldl (luaL_unref api) (lvm st) (sock_refs sd)) h"
    and "get_sd (closed_state api ev st a sd h) a = Some (sd\<lparr>sd_sock := None, sd_state := SOCKET_DESTROYED\<rparr>)"
    and "socks (closed_state api ev st a sd h) = (socks st)[h := None]"
    and "b \<noteq> a \<Longrightarrow> get_sd (closed_state api ev st a sd h) b = get_sd st b"
  using assms
  by (auto simp: closed_state_def open_socket_def free_sock_def lvm_def set_lvm_def put_sd_def get_sd_def cell_def split: if_splits)

context lua_events begin

lemma closed_live:
  assumes "open_socket api live st a sd h"
  shows "live (lvm (closed_state api ev st a sd h)) = live (lvm st) |` (- set (sock_refs sd))"
    and "has_metatable api (lvm (closed_state api ev st a sd h)) u n = has_metatable api (lvm st) u n"
proof -
  let ?w = "foldl (luaL_unref api) (lvm st) (sock_refs sd)"
  have "lua_same api live ?w (bufferevent_free ev ?w h)" by (rule free_same)
  then show "live (lvm (closed_state api ev st a sd h)) = live (lvm st) |` (- set (sock_refs sd))"
    "has_metatable api (lvm (closed_state api ev st a sd h)) u n = has_metatable api (lvm st) u n"
    using assms by (simp_all add: closed_simps [OF assms] lua_same_def unref_list unref_list_meta open_socket_def)
qed

lemma destroyed_silent:
  assumes "open_socket api live st a sd h"
  defines "st' \<equiv> closed_state api ev st a sd h"
  shows "bind_loop_sock_gc api ev st' [LSock a] = Some (Inr [], st')"
    and "bind_loop_sock_close api ev st' [LSock a] = Some (Inr [], st')"
    and "bind_loop_sock_write api ev st' [LSock a, d] = Some (Inr [], st')"
proof -
  have "has_metatable api (lvm st') (LSock a) SOCK_META"
    using assms(1) by (simp add: st'_def closed_live(2) [OF assms(1)] open_socket_def)
  then show "bind_loop_sock_gc api ev st' [LSock a] = Some (Inr [], st')"
    "bind_loop_sock_close api ev st' [LSock a] = Some (Inr [], st')"
    "bind_loop_sock_write api ev st' [LSock a, d] = Some (Inr [], st')"
    using closed_simps(2) [OF assms(1), of ev]
    by (simp_all add: st'_def bind_loop_sock_gc_def bind_loop_sock_close_def bind_loop_sock_write_def check_sock_def
        require_exactly_def ret_def)
qed

end

text \<open>C31: Closing an open socket gives back its five references to the registry, and no other, and frees
  its handle; every call after it, the finaliser's too, returns at once and changes nothing.\<close>

theorem bind_socket_close_once:
  assumes "lua_events api live ev input" and "open_socket api live st a sd h"
  shows "\<exists>st'. bind_loop_sock_close api ev st [LSock a] = Some (Inr [], st') \<and>
    live (lvm st') = live (lvm st) |` (- set (sock_refs sd)) \<and> socks st' = (socks st)[h := None] \<and>
    (\<forall>b. b \<noteq> a \<longrightarrow> get_sd st' b = get_sd st b) \<and>
    bind_loop_sock_close api ev st' [LSock a] = Some (Inr [], st') \<and>
    bind_loop_sock_gc api ev st' [LSock a] = Some (Inr [], st') \<and>
    (\<forall>d. bind_loop_sock_write api ev st' [LSock a, d] = Some (Inr [], st'))"
  using close_open [OF assms(2), of ev] closed_simps(3,4) [OF assms(2)] lua_events.closed_live(1) [OF assms]
    lua_events.destroyed_silent [OF assms]
  by blast

section \<open>Received data\<close>

text \<open>Pieces of \<open>n\<close> bytes, the last one shorter.\<close>

fun chunks :: "nat \<Rightarrow> 'a list \<Rightarrow> 'a list list" where
  "chunks n xs = (if xs = [] \<or> n = 0 then [] else take n xs # chunks n (drop n xs))"

declare chunks.simps [simp del]

lemma concat_chunks: "0 < n \<Longrightarrow> concat (chunks n xs) = xs"
  by (induction n xs rule: chunks.induct) (subst chunks.simps, simp)

lemma chunks_length: "c \<in> set (chunks n xs) \<Longrightarrow> c \<noteq> [] \<and> length c \<le> n"
proof (induction n xs rule: chunks.induct)
  case (1 n xs)
  then show ?case by (subst (asm) (2) chunks.simps) (auto split: if_splits)
qed

text \<open>A socket whose registry entries are itself and its function for reading.\<close>

definition listening :: "'e lua_api \<Rightarrow> addr \<Rightarrow> addr \<Rightarrow> int \<Rightarrow> int \<Rightarrow> lval \<Rightarrow> 'e bst \<Rightarrow> bool" where
  "listening api a h rr rs f st \<longleftrightarrow>
    (\<exists>sd. get_sd st a = Some sd \<and> length (sd_buffer sd) = SOCKET_READ_SIZE \<and> ref_read (cb_refs sd) = rr \<and> sd_ref sd = rs) \<and>
    sock_cell (socks st) h \<noteq> None \<and> reg_get api st rr = f \<and> reg_get api st rs = LSock a"

text \<open>A function of a script that takes the data and leaves the socket open; \<open>got\<close> is what it was given.\<close>

definition reader ::
  "'e lua_api \<Rightarrow> ('e \<Rightarrow> addr \<Rightarrow> bytes) \<Rightarrow> ('e \<Rightarrow> bytes list) \<Rightarrow> 'e bst lua_caller \<Rightarrow> addr \<Rightarrow> addr \<Rightarrow> int \<Rightarrow> int \<Rightarrow> lval \<Rightarrow> bool" where
  "reader api input got call a h rr rs f \<longleftrightarrow>
    (\<forall>st d. listening api a h rr rs f st \<longrightarrow> (\<exists>vs st'. call f [LSock a, LStr d] st = Some (Inr vs, st') \<and>
      listening api a h rr rs f st' \<and> got (lvm st') = got (lvm st) @ [d] \<and> input (lvm st') h = input (lvm st) h))"

definition kept_by_events :: "'e libevent \<Rightarrow> ('e \<Rightarrow> 'g) \<Rightarrow> bool" where
  "kept_by_events ev got \<longleftrightarrow> (\<forall>e h n. got (snd (snd (evbuffer_copyout ev e h n))) = got e \<and>
     got (evbuffer_drain ev e h n) = got e)"

context lua_events begin

lemma peek_lift:
  "sock_cell (socks st) h \<noteq> None \<Longrightarrow> evbuffer_copyout ev (lvm st) h n = (r, d, e) \<Longrightarrow>
    loop_sock_peek (on_world ev) st h n = Some (r, d, set_lvm e st)"
  by (auto simp: loop_sock_peek_def on_world_def set_lvm_def lvm_def)

lemma drop_lift:
  "sock_cell (socks st) h \<noteq> None \<Longrightarrow>
    loop_sock_drop (on_world ev) st h n = Some (set_lvm (evbuffer_drain ev (lvm st) h n) st)"
  by (auto simp: loop_sock_drop_def on_world_def on_world0_def set_lvm_def lvm_def)

text \<open>Peeking and dropping before the function is called.\<close>

lemma peek_drop:
  assumes l: "listening api a h rr rs f st" and ne: "input (lvm st) h \<noteq> []"
    and len: "length (input (lvm st) h) < 2 ^ 64" and got: "kept_by_events ev got"
  shows "\<exists>st'. read_cb_loop api ev call (of_nat (length (input (lvm st) h))) h a st = do {
      (res, st) \<leftarrow> call f [LSock a, LStr (take SOCKET_READ_SIZE (input (lvm st) h))] st';
      case res of
        Inl e \<Rightarrow> Some (Inl e, st)
      | Inr _ \<Rightarrow> read_cb_loop api ev call (of_nat (length (input (lvm st') h))) h a st } \<and>
    listening api a h rr rs f st' \<and> got (lvm st') = got (lvm st) \<and>
    input (lvm st') h = drop SOCKET_READ_SIZE (input (lvm st) h) \<and>
    lua_same api live (lvm st) (lvm st') \<and> socks st' = socks st \<and>
    get_sd st' a = map_option (sd_buffer_update (\<lambda>b. patch 0 (take SOCKET_READ_SIZE (input (lvm st) h)) b)) (get_sd st a)"
proof -
  let ?in = "input (lvm st) h"
  obtain sd where sd: "get_sd st a = Some sd" "length (sd_buffer sd) = SOCKET_READ_SIZE"
      "ref_read (cb_refs sd) = rr" "sd_ref sd = rs"
    and h: "sock_cell (socks st) h \<noteq> None" and reg: "reg_get api st rr = f" "reg_get api st rs = LSock a"
    using l by (auto simp: listening_def)
  obtain r d e where copy: "evbuffer_copyout ev (lvm st) h SOCKET_READ_SIZE = (r, d, e)" by (metis prod_cases3)
  note law = copyout_law [OF copy]
  define m where "m = length d"
  define buf where "buf = patch 0 d (sd_buffer sd)"
  define e2 where "e2 = evbuffer_drain ev e h m"
  define st' where "st' = set_lvm e2 (put_sd a (sd\<lparr>sd_buffer := buf\<rparr>) (set_lvm e st))"
  have m: "m = min SOCKET_READ_SIZE (length ?in)" "0 < m" "m \<le> 1024" "m \<le> length ?in" "r = int m"
    using law ne by (auto simp: m_def SOCKET_READ_SIZE_def)
  have w: "(word_of_int r :: u64) = of_nat m" "unat (of_nat m :: u64) = m" "(of_nat m :: u64) > 0"
    "(of_nat (length ?in) :: u64) > 0"
    using m len ne by (auto simp: word_less_nat_alt unat_of_nat)
  have d: "d = take SOCKET_READ_SIZE ?in" and dm: "length d \<le> SOCKET_READ_SIZE" using law by simp_all
  have buf: "length buf = SOCKET_READ_SIZE" "take m buf = d"
    using dm sd(2) by (simp_all add: buf_def m_def)
  have mem: "wr (sd_buffer sd) 0 d = Some buf" "rd buf 0 m = Some d"
    using sd(2) m buf by (simp_all add: run_simps buf_def m_def)
  have same: "lua_same api live (lvm st) e2"
    using law drain_same [of e h m] by (simp add: lua_same_def e2_def)
  have sock: "sock_cell (socks (put_sd a x (set_lvm e st))) h \<noteq> None" for x using h by (simp add: world_simps)
  have st': "listening api a h rr rs f st'" "lvm st' = e2"
    using sd h reg same buf by (simp_all add: listening_def st'_def world_simps reg_get_def lua_same_def)
  have rest: "input (lvm st') h = drop SOCKET_READ_SIZE ?in"
    using law m(1) by (simp add: st'(2) e2_def drain_law min_def)
  have count: "(of_nat (length ?in) - of_nat m :: u64) = of_nat (length (input (lvm st') h))"
    using m(1,4) by (simp add: rest min_def flip: of_nat_diff)
  have "read_cb_loop api ev call (of_nat (length ?in)) h a st = do {
      (res, st) \<leftarrow> call f [LSock a, LStr d] st';
      case res of
        Inl e \<Rightarrow> Some (Inl e, st)
      | Inr _ \<Rightarrow> read_cb_loop api ev call (of_nat (length ?in) - of_nat m) h a st }"
    by (subst read_cb_loop.simps)
      (use w(4) sd h reg same st' in \<open>simp add: peek_lift [OF h copy] w(1-3) world_simps mem drop_lift [OF sock]
        reg_get_def lua_same_def flip: e2_def st'_def\<close>)
  moreover have "got (lvm st') = got (lvm st)"
    using got copy by (metis e2_def kept_by_events_def snd_conv st'(2))
  moreover have "socks st' = socks st" "get_sd st' a = map_option (sd_buffer_update (\<lambda>b. patch 0 d b)) (get_sd st a)"
    using sd(1) by (simp_all add: st'_def world_simps buf_def)
  ultimately show ?thesis
    using st'(1) rest same [folded st'(2)] unfolding count d by blast
qed

lemma read_loop_delivers:
  assumes "reader api input got call a h rr rs f" and "kept_by_events ev got"
  shows "listening api a h rr rs f st \<Longrightarrow> length (input (lvm st) h) < 2 ^ 64 \<Longrightarrow>
    \<exists>st'. read_cb_loop api ev call (of_nat (length (input (lvm st) h))) h a st = Some (Inr [], st') \<and>
      listening api a h rr rs f st' \<and>
      got (lvm st') = got (lvm st) @ chunks SOCKET_READ_SIZE (input (lvm st) h) \<and> input (lvm st') h = []"
proof (induction "length (input (lvm st) h)" arbitrary: st rule: less_induct)
  case less
  show ?case
  proof (cases "input (lvm st) h = []")
    case True
    then show ?thesis using less.prems
      by (subst read_cb_loop.simps) (simp add: ret_def chunks.simps [of _ "[]"])
  next
    case False
    let ?d = "take SOCKET_READ_SIZE (input (lvm st) h)"
    obtain s1 where s1: "read_cb_loop api ev call (of_nat (length (input (lvm st) h))) h a st = do {
          (res, st) \<leftarrow> call f [LSock a, LStr ?d] s1;
          case res of
            Inl e \<Rightarrow> Some (Inl e, st)
          | Inr _ \<Rightarrow> read_cb_loop api ev call (of_nat (length (input (lvm s1) h))) h a st }"
        "listening api a h rr rs f s1" "got (lvm s1) = got (lvm st)"
        "input (lvm s1) h = drop SOCKET_READ_SIZE (input (lvm st) h)"
      using peek_drop [OF less.prems(1) False less.prems(2) assms(2), of call] by blast
    obtain vs s2 where s2: "call f [LSock a, LStr ?d] s1 = Some (Inr vs, s2)" "listening api a h rr rs f s2"
        "got (lvm s2) = got (lvm s1) @ [?d]" "input (lvm s2) h = input (lvm s1) h"
      using assms(1) s1(2) unfolding reader_def by blast
    have "length (input (lvm s2) h) < length (input (lvm st) h)" "length (input (lvm s2) h) < 2 ^ 64"
      using False less.prems(2) by (simp_all add: s2(4) s1(4) SOCKET_READ_SIZE_def)
    note less.hyps [OF this(1) s2(2) this(2)]
    moreover have "read_cb_loop api ev call (of_nat (length (input (lvm st) h))) h a st =
        read_cb_loop api ev call (of_nat (length (input (lvm s2) h))) h a s2"
      by (simp add: s1(1) s2(1,4))
    moreover have "chunks SOCKET_READ_SIZE (input (lvm st) h) = ?d # chunks SOCKET_READ_SIZE (input (lvm s2) h)"
      using False by (subst chunks.simps) (simp add: s1(4) s2(4) SOCKET_READ_SIZE_def)
    ultimately show ?thesis by (simp add: s1(3) s2(3))
  qed
qed

end

text \<open>C29: When data has come in for a socket, the handler of the loop gives all of it to the socket's
  function for reading, in order and in pieces of at most 1024 bytes, and nothing is left.\<close>

theorem bind_socket_delivers:
  assumes "lua_events api live ev input" and "reader api input got (lua_run sc) a h rr rs f" and "kept_by_events ev got"
    and "listening api a h rr rs f st" and "length (input (lvm st) h) < 2 ^ 64"
    and "sock_cell (socks st) h = Some s" and "cb_read (sock_cb s) = Some (SockReadCb a)"
    and "map_option sd_state (get_sd st a) \<noteq> Some SOCKET_DESTROYED"
  shows "\<exists>ds st'. loop_sock_cb_read (on_world ev) (bind_caller api ev sc) st h = Some st' \<and>
    got (lvm st') = got (lvm st) @ ds \<and> concat ds = input (lvm st) h \<and>
    (\<forall>d \<in> set ds. d \<noteq> [] \<and> length d \<le> 1024) \<and> input (lvm st') h = []"
proof -
  obtain sd where sd: "get_sd st a = Some sd" using assms(4) by (auto simp: listening_def)
  obtain st' where st': "read_cb_loop api ev (lua_run sc) (of_nat (length (input (lvm st) h))) h a st = Some (Inr [], st')"
      "got (lvm st') = got (lvm st) @ chunks SOCKET_READ_SIZE (input (lvm st) h)" "input (lvm st') h = []"
    using lua_events.read_loop_delivers [OF assms(1-5)] by blast
  have "evbuffer_get_length (on_world ev) (lib st) h = length (input (lvm st) h)"
    using assms(1) by (simp add: on_world_def lvm_def lua_events.length_law)
  then have "loop_sock_cb_read (on_world ev) (bind_caller api ev sc) st h = Some st'"
    using assms(6-8) sd st'(1)
    by (simp add: loop_sock_cb_read_def the_cb_def bind_caller_def run_cb_def bind_loop_read_cb_def)
  then show ?thesis
    using st' concat_chunks [of SOCKET_READ_SIZE "input (lvm st) h"] chunks_length [of _ SOCKET_READ_SIZE "input (lvm st) h"]
    by (auto simp: SOCKET_READ_SIZE_def)
qed

section \<open>Callbacks that close their socket\<close>

text \<open>A function of a script that calls \<open>close\<close> on the socket it is given, and returns.\<close>

definition closer :: "'e lua_api \<Rightarrow> 'e libevent \<Rightarrow> 'e bst lua_caller \<Rightarrow> lval \<Rightarrow> bool" where
  "closer api ev call f \<longleftrightarrow> (\<forall>v x st. call f [v, x] st = do {
     (r, st) \<leftarrow> bind_loop_sock_close api ev st [v];
     Some (case r of Inl e \<Rightarrow> Inl e | Inr _ \<Rightarrow> Inr [], st) })"

lemma closer_open:
  "closer api ev call f \<Longrightarrow> open_socket api live st a sd h \<Longrightarrow>
    call f [LSock a, x] st = Some (Inr [], closed_state api ev st a sd h)"
  by (simp add: closer_def close_open)

lemma read_loop_freed:
  "0 < n \<Longrightarrow> sock_cell (socks st) h = None \<Longrightarrow> read_cb_loop api ev call n h a st = None"
  by (subst read_cb_loop.simps) (simp add: loop_sock_peek_def)

context lua_events begin

lemma open_listening:
  assumes "open_socket api live st a sd h" and "length (sd_buffer sd) = SOCKET_READ_SIZE"
    and "live (lvm st) (sd_ref sd) = Some (LSock a)" and "live (lvm st) (ref_read (cb_refs sd)) = Some f"
  shows "listening api a h (ref_read (cb_refs sd)) (sd_ref sd) f st"
  using assms by (simp add: listening_def open_socket_def reg_get_def ref_get)

lemma open_same:
  assumes "open_socket api live st a sd h" and "lua_same api live (lvm st) (lvm st')" and "socks st' = socks st"
    and "get_sd st' a = Some (sd\<lparr>sd_buffer := b\<rparr>)"
  shows "open_socket api live st' a (sd\<lparr>sd_buffer := b\<rparr>) h"
  using assms by (simp add: open_socket_def lua_same_def sock_refs_def)

lemma read_loop_closer:
  assumes o: "open_socket api live st a sd h" and buf: "length (sd_buffer sd) = SOCKET_READ_SIZE"
    and refs: "live (lvm st) (sd_ref sd) = Some (LSock a)" "live (lvm st) (ref_read (cb_refs sd)) = Some f"
    and c: "closer api ev call f"
    and n: "SOCKET_READ_SIZE < length (input (lvm st) h)" "length (input (lvm st) h) < 2 ^ 64"
  shows "read_cb_loop api ev call (of_nat (length (input (lvm st) h))) h a st = None"
proof -
  have "input (lvm st) h \<noteq> []" using n(1) by auto
  from peek_drop [OF open_listening [OF o buf refs] this n(2), of "\<lambda>_. ()" call]
  obtain s1 where s1: "read_cb_loop api ev call (of_nat (length (input (lvm st) h))) h a st = do {
        (res, st) \<leftarrow> call f [LSock a, LStr (take SOCKET_READ_SIZE (input (lvm st) h))] s1;
        case res of
          Inl e \<Rightarrow> Some (Inl e, st)
        | Inr _ \<Rightarrow> read_cb_loop api ev call (of_nat (length (input (lvm s1) h))) h a st }"
      "input (lvm s1) h = drop SOCKET_READ_SIZE (input (lvm st) h)" "lua_same api live (lvm st) (lvm s1)"
      "socks s1 = socks st"
      "get_sd s1 a = map_option (sd_buffer_update (\<lambda>b. patch 0 (take SOCKET_READ_SIZE (input (lvm st) h)) b)) (get_sd st a)"
    by (auto simp: kept_by_events_def)
  define b where "b = patch 0 (take SOCKET_READ_SIZE (input (lvm st) h)) (sd_buffer sd)"
  have b: "get_sd s1 a = Some (sd\<lparr>sd_buffer := b\<rparr>)"
    using s1(5) o by (cases sd) (simp add: open_socket_def b_def)
  note o1 = open_same [OF o s1(3,4) b]
  have "0 < length (input (lvm s1) h)" "length (input (lvm s1) h) < 2 ^ 64" using n by (simp_all add: s1(2))
  then have "(0 :: u64) < of_nat (length (input (lvm s1) h))"
    by (simp add: word_less_nat_alt unat_of_nat del: length_greater_0_conv)
  moreover have "sock_cell (socks (closed_state api ev s1 a (sd\<lparr>sd_buffer := b\<rparr>) h)) h = None"
    by (simp add: closed_simps(3) [OF o1] sock_cell_def cell_def)
  ultimately show ?thesis
    by (simp add: s1(1) closer_open [OF c o1] read_loop_freed)
qed

text \<open>The error callback finalises what the registry holds at the reference that was given back.\<close>

lemma error_cb_closer:
  assumes o: "open_socket api live st a sd h" and refs: "live (lvm st) (sd_ref sd) = Some (LSock a)"
    and f: "live (lvm st) (if err = 0 then ref_eof (cb_refs sd) else ref_error (cb_refs sd)) = Some f" and c: "closer api ev call f"
    and stale: "\<And>e r b. live e r = None \<Longrightarrow> rawgeti api e r \<noteq> LSock b"
  shows "bind_loop_error_cb api ev call err a st =
    Some (Inl (BadArg 1 ''druid socket expected''), closed_state api ev st a sd h)"
proof -
  have "live (lvm (closed_state api ev st a sd h)) (sd_ref sd) = None"
    by (simp add: closed_live(1) [OF o] sock_refs_def)
  then have "\<nexists>b. reg_get api (closed_state api ev st a sd h) (sd_ref sd) = LSock b"
    using stale by (simp add: reg_get_def)
  then have "bind_loop_sock_gc api ev (closed_state api ev st a sd h) [reg_get api (closed_state api ev st a sd h) (sd_ref sd)] =
      Some (Inl (BadArg 1 ''druid socket expected''), closed_state api ev st a sd h)"
    by (auto simp: bind_loop_sock_gc_def check_sock_def split: lval.split)
  moreover have "get_sd st a = Some sd" "sd_state sd \<noteq> SOCKET_DESTROYED" using o by (simp_all add: open_socket_def)
  ultimately show ?thesis
    using closer_open [OF c o] closed_simps(2) [OF o, of ev] refs f
    by (cases "err = 0") (simp_all add: bind_loop_error_cb_def reg_get_def ref_get)
qed

end

text \<open>A function for reading that closes its socket while more than 1024 bytes are waiting makes the
  handler of the loop use the freed handle: it does not look at the socket's state between two
  pieces.\<close>

theorem bind_read_close_dies:
  assumes "lua_events api live ev input" and "open_socket api live st a sd h"
    and "length (sd_buffer sd) = SOCKET_READ_SIZE"
    and "live (lvm st) (sd_ref sd) = Some (LSock a)" and "live (lvm st) (ref_read (cb_refs sd)) = Some f"
    and "closer api ev (lua_run sc) f"
    and "1024 < length (input (lvm st) h)" and "length (input (lvm st) h) < 2 ^ 64"
    and "sock_cell (socks st) h = Some s" and "cb_read (sock_cb s) = Some (SockReadCb a)"
  shows "loop_sock_cb_read (on_world ev) (bind_caller api ev sc) st h = None"
proof -
  have "evbuffer_get_length (on_world ev) (lib st) h = length (input (lvm st) h)"
    using assms(1) by (simp add: on_world_def lvm_def lua_events.length_law)
  then show ?thesis
    using assms(2,9,10) lua_events.read_loop_closer [OF assms(1-6) _ assms(8)] assms(7)
    by (simp add: loop_sock_cb_read_def the_cb_def bind_caller_def run_cb_def bind_loop_read_cb_def open_socket_def
        SOCKET_READ_SIZE_def)
qed

text \<open>The handler of the end of a connection, as a turn of the loop.\<close>

definition eof_turn ::
  "'e lua_api \<Rightarrow> 'e libevent \<Rightarrow> 'e scripts \<Rightarrow> addr \<Rightarrow> 'e bst \<Rightarrow> (int \<times> 'e bst) run" where
  "eof_turn api ev sc h st = do {
     st \<leftarrow> loop_sock_cb_event (on_world ev) (bind_caller api ev sc) st h
       \<lparr>EVENT_CONNECTED = False, EVENT_ERROR = False, EVENT_EOF = True\<rparr>;
     Some (0, st) }"

lemma runloop_raise:
  assumes "turn st = Some (r, st')" and "raised (lib st) = None" and "raised (lib st') = Some e" and "\<not> exiting_early st"
  shows "runloop turn call st = Some (Inl e, set_world (raised_update (\<lambda>_. None)) st')"
  using assms by (simp add: runloop_def unwinding_def until_done_loop.simps [of _ _ st])

text \<open>C34: A script whose function for the end of the connection closes the socket ends the loop of
  the program: the callback finalises the socket once more, by a reference that is already given
  back, and the error leaves the loop.\<close>

theorem bind_eof_close_ends_loop:
  assumes "lua_events api live ev input" and "open_socket api live st a sd h"
    and "live (lvm st) (sd_ref sd) = Some (LSock a)" and "live (lvm st) (ref_eof (cb_refs sd)) = Some f"
    and "closer api ev (lua_run sc) f" and "\<And>e r b. live e r = None \<Longrightarrow> rawgeti api e r \<noteq> LSock b"
    and "sock_cell (socks st) h = Some s" and "cb_error (sock_cb s) = Some (SockErrorCb a)"
    and "raised (lib st) = None" and "\<not> exiting_early st"
  shows "\<exists>st'. runloop (eof_turn api ev sc h) (bind_caller api ev sc) st =
    Some (Inl (BadArg 1 ''druid socket expected''), st')"
proof -
  let ?st' = "set_world (raised_update (\<lambda>_. Some (BadArg 1 ''druid socket expected''))) (closed_state api ev st a sd h)"
  have "bind_loop_error_cb api ev (lua_run sc) 0 a st =
      Some (Inl (BadArg 1 ''druid socket expected''), closed_state api ev st a sd h)"
    using lua_events.error_cb_closer [OF assms(1-3) _ assms(5,6), of 0] assms(4) by simp
  moreover have "cell (socks st) h = Some s"
    using assms(7) by (auto simp: sock_cell_def bind_eq_Some_conv)
  ultimately have "eof_turn api ev sc h st = Some (0, ?st')"
    using assms(8)
    by (simp add: eof_turn_def loop_sock_cb_event_def the_cb_def bind_caller_def run_cb_def)
  then show ?thesis
    using runloop_raise [of "eof_turn api ev sc h" st 0 ?st' "BadArg 1 ''druid socket expected''"] assms(9,10)
    by (simp add: set_world_def)
qed

section \<open>A new socket\<close>

text \<open>A state with other values for socket \<open>a\<close> and the interpreter.\<close>

definition with_sock :: "addr \<Rightarrow> socket_data \<Rightarrow> 'e \<Rightarrow> 'e bst \<Rightarrow> 'e bst" where
  "with_sock a sd w st = put_sd a sd (set_lvm w st)"

lemma with_sock_simps [simp]:
  "lvm (with_sock a sd w st) = w"
  "get_sd st a \<noteq> None \<Longrightarrow> get_sd (with_sock a sd w st) a = Some sd"
  "put_sd a sd' (with_sock a sd w st) = with_sock a sd' w st"
  "set_lvm w' (with_sock a sd w st) = with_sock a sd w' st"
  "with_sock a sd' w' (with_sock a sd w st) = with_sock a sd' w' st"
  "socks (with_sock a sd w st) = socks st"
  "listeners (with_sock a sd w st) = listeners st"
  by (auto simp: with_sock_def lvm_def put_sd_def set_lvm_def get_sd_def cell_def split: if_splits)

lemma put_sd_with: "put_sd a sd st = with_sock a sd (lvm st) st"
  by (simp add: with_sock_def put_sd_def set_lvm_def lvm_def)

text \<open>The table of callbacks has a function in each field.\<close>

definition callbacks ::
  "'e lua_api \<Rightarrow> 'e \<Rightarrow> nat \<Rightarrow> nat \<Rightarrow> nat \<Rightarrow> nat \<Rightarrow> nat \<Rightarrow> bool" where
  "callbacks api w t fr fe fc fx \<longleftrightarrow> getfield api w (LTab t) ''read'' = LFun fr \<and> getfield api w (LTab t) ''eof'' = LFun fe \<and>
     getfield api w (LTab t) ''connect'' = LFun fc \<and> getfield api w (LTab t) ''error'' = LFun fx"

text \<open>The registry \<open>w'\<close> has the entries \<open>es\<close> more than \<open>w\<close>; tables and metatables are the same.\<close>

definition registered ::
  "'e lua_api \<Rightarrow> ('e \<Rightarrow> int \<Rightarrow> lval option) \<Rightarrow> 'e \<Rightarrow> (int \<times> lval) list \<Rightarrow> 'e \<Rightarrow> bool" where
  "registered api live w es w' \<longleftrightarrow> live w' = live w ++ map_of es \<and> distinct (map fst es) \<and>
     (\<forall>r \<in> fst ` set es. live w r = None) \<and>
     (\<forall>u n. has_metatable api w' u n = has_metatable api w u n) \<and>
     (\<forall>t n. getfield api w' (LTab t) n = getfield api w (LTab t) n)"

text \<open>The store of sockets with a new struct.\<close>

definition grown :: "'e bst \<Rightarrow> 'e bst" where
  "grown st = st\<lparr>lib := (lib st)\<lparr>sock_mem := sock_mem (lib st) @ [Some new_sd]\<rparr>\<rparr>"

lemma lvm_grown: "lvm (grown st) = lvm st"
  by (simp add: grown_def lvm_def)

text \<open>A struct made with the table of callbacks, its references in the registry.\<close>

definition made ::
  "'e lua_api \<Rightarrow> ('e \<Rightarrow> int \<Rightarrow> lval option) \<Rightarrow> 'e \<Rightarrow> addr \<Rightarrow> nat \<Rightarrow> nat \<Rightarrow> nat \<Rightarrow> nat \<Rightarrow> socket_data \<Rightarrow> 'e \<Rightarrow> bool" where
  "made api live w0 a fr fe fc fx sd w \<longleftrightarrow>
     length (sd_buffer sd) = SOCKET_READ_SIZE \<and> distinct (sock_refs sd) \<and>
     live w (sd_ref sd) = Some (LSock a) \<and> live w (ref_read (cb_refs sd)) = Some (LFun fr) \<and>
     live w (ref_eof (cb_refs sd)) = Some (LFun fe) \<and> live w (ref_connect (cb_refs sd)) = Some (LFun fc) \<and>
     live w (ref_error (cb_refs sd)) = Some (LFun fx) \<and> (\<forall>r v. live w0 r = Some v \<longrightarrow> live w r = Some v)"

context lua_interpreter begin

lemma registered_Nil: "registered api live w [] w"
  by (simp add: registered_def)

lemma registered_ref:
  assumes "registered api live w es w'" and "v \<noteq> LNil" and "luaL_ref api w' v = (r, w2)"
  shows "registered api live w ((r, v) # es) w2"
proof -
  note new = ref_new [OF assms(2,3)]
  have "live w r = None \<and> r \<notin> fst ` set es"
    using new assms(1) by (auto simp: registered_def map_add_None map_of_eq_None_iff)
  moreover have "has_metatable api w2 u n = has_metatable api w' u n" "getfield api w2 (LTab t) n = getfield api w' (LTab t) n" for u t n
    using meta_ref [of w' v u n] field_ref [of w' v t n] assms(3) by simp_all
  ultimately show ?thesis using assms(1) new by (auto simp: registered_def)
qed

lemma cbref_field_step:
  assumes "get_sd st a \<noteq> None" and "registered api live w es w'" and "getfield api w (LTab t) name = LFun g"
  shows "\<exists>r w2. (\<forall>sd k. cbref_field api (LTab t) a name upd (with_sock a sd w' st) k =
      k (with_sock a (sd\<lparr>cb_refs := upd r (cb_refs sd)\<rparr>) w2 st)) \<and> registered api live w ((r, LFun g) # es) w2"
proof -
  obtain r w2 where ref: "luaL_ref api w' (LFun g) = (r, w2)" by fastforce
  have "getfield api w' (LTab t) name = LFun g" using assms(2,3) by (simp add: registered_def)
  then show ?thesis
    using assms(1) registered_ref [OF assms(2) _ ref]
    by (intro exI [of _ r] exI [of _ w2]) (simp add: cbref_field_def reg_ref_def ref)
qed

lemma setup_table:
  assumes "get_sd st a \<noteq> None" and "callbacks api (lvm st) t fr fe fc fx"
  shows "\<exists>rr re rc rx w. bind_loop_sock_setup_cbrefs api call st a (LTab t) = Some (Inr (),
      with_sock a ((the (get_sd st a))\<lparr>cb_refs := \<lparr>ref_error = rx, ref_connect = rc, ref_eof = re, ref_read = rr\<rparr>\<rparr>) w st) \<and>
    registered api live (lvm st) [(rx, LFun fx), (rc, LFun fc), (re, LFun fe), (rr, LFun fr)] w"
proof -
  obtain sd where sd: "get_sd st a = Some sd" using assms(1) by auto
  have f: "getfield api (lvm st) (LTab t) ''read'' = LFun fr" "getfield api (lvm st) (LTab t) ''eof'' = LFun fe"
    "getfield api (lvm st) (LTab t) ''connect'' = LFun fc" "getfield api (lvm st) (LTab t) ''error'' = LFun fx"
    using assms(2) by (simp_all add: callbacks_def)
  let ?nil = "\<lparr>ref_error = LUA_REFNIL, ref_connect = LUA_REFNIL, ref_eof = LUA_REFNIL, ref_read = LUA_REFNIL\<rparr>"
  have "bind_loop_sock_setup_cbrefs api call st a (LTab t) =
      cbref_fields api (with_sock a (sd\<lparr>cb_refs := ?nil\<rparr>) (lvm st) st) a (LTab t)"
    using sd by (simp add: bind_loop_sock_setup_cbrefs_def put_sd_with)
  moreover obtain rr w1 where 1: "\<And>sd k. cbref_field api (LTab t) a ''read'' (\<lambda>r. ref_read_update (\<lambda>_. r)) (with_sock a sd (lvm st) st) k =
      k (with_sock a (sd\<lparr>cb_refs := (cb_refs sd)\<lparr>ref_read := rr\<rparr>\<rparr>) w1 st)"
      "registered api live (lvm st) [(rr, LFun fr)] w1"
    using cbref_field_step [OF assms(1) registered_Nil f(1), of "\<lambda>r. ref_read_update (\<lambda>_. r)"] by blast
  moreover obtain re w2 where 2: "\<And>sd k. cbref_field api (LTab t) a ''eof'' (\<lambda>r. ref_eof_update (\<lambda>_. r)) (with_sock a sd w1 st) k =
      k (with_sock a (sd\<lparr>cb_refs := (cb_refs sd)\<lparr>ref_eof := re\<rparr>\<rparr>) w2 st)"
      "registered api live (lvm st) [(re, LFun fe), (rr, LFun fr)] w2"
    using cbref_field_step [OF assms(1) 1(2) f(2), of "\<lambda>r. ref_eof_update (\<lambda>_. r)"] by blast
  moreover obtain rc w3 where 3: "\<And>sd k. cbref_field api (LTab t) a ''connect'' (\<lambda>r. ref_connect_update (\<lambda>_. r)) (with_sock a sd w2 st) k =
      k (with_sock a (sd\<lparr>cb_refs := (cb_refs sd)\<lparr>ref_connect := rc\<rparr>\<rparr>) w3 st)"
      "registered api live (lvm st) [(rc, LFun fc), (re, LFun fe), (rr, LFun fr)] w3"
    using cbref_field_step [OF assms(1) 2(2) f(3), of "\<lambda>r. ref_connect_update (\<lambda>_. r)"] by blast
  moreover obtain rx w4 where 4: "\<And>sd k. cbref_field api (LTab t) a ''error'' (\<lambda>r. ref_error_update (\<lambda>_. r)) (with_sock a sd w3 st) k =
      k (with_sock a (sd\<lparr>cb_refs := (cb_refs sd)\<lparr>ref_error := rx\<rparr>\<rparr>) w4 st)"
      "registered api live (lvm st) [(rx, LFun fx), (rc, LFun fc), (re, LFun fe), (rr, LFun fr)] w4"
    using cbref_field_step [OF assms(1) 3(2) f(4), of "\<lambda>r. ref_error_update (\<lambda>_. r)"] by blast
  ultimately have "bind_loop_sock_setup_cbrefs api call st a (LTab t) = Some (Inr (),
      with_sock a (sd\<lparr>cb_refs := \<lparr>ref_error = rx, ref_connect = rc, ref_eof = re, ref_read = rr\<rparr>\<rparr>) w4 st)"
    by (simp add: cbref_fields_def)
  then show ?thesis
    using 4(2) sd
    by (intro exI [of _ rr] exI [of _ re] exI [of _ rc] exI [of _ rx] exI [of _ w4]) simp
qed

text \<open>A new struct with its reference and, by the value at the bottom of the stack, its metatable.\<close>

lemma new_socket_step:
  assumes "v \<noteq> LTab t" and "callbacks api (lvm st) t fr fe fc fx"
  defines "a \<equiv> length (sock_mem (lib st))"
  shows "\<exists>r w s. new_socket api st = (a, s) \<and>
    bind_loop_socket_setmetatable api v s = with_sock a (new_sd\<lparr>sd_ref := r\<rparr>) w (grown st) \<and>
    live (lvm st) r = None \<and> live w = (live (lvm st))(r \<mapsto> LSock a) \<and> callbacks api w t fr fe fc fx \<and>
    has_metatable api w (LSock a) SOCK_META = (v = LSock a \<or> has_metatable api (lvm st) (LSock a) SOCK_META)"
proof -
  obtain r w where ref: "luaL_ref api (lvm st) (LSock a) = (r, w)" by fastforce
  have new: "live (lvm st) r = None" "live w = (live (lvm st))(r \<mapsto> LSock a)"
    using ref_new [OF _ ref] by simp_all
  have same: "has_metatable api w u n = has_metatable api (lvm st) u n" "getfield api w (LTab x) n = getfield api (lvm st) (LTab x) n" for u n x
    using meta_ref [of "lvm st" "LSock a" u n] field_ref [of "lvm st" "LSock a" x n] ref by simp_all
  let ?w = "setmetatable api w v SOCK_META"
  have "live ?w = (live (lvm st))(r \<mapsto> LSock a)" using new by (simp add: meta_live)
  moreover have "callbacks api ?w t fr fe fc fx"
    using assms(1,2) by (simp add: callbacks_def field_meta same)
  moreover have "has_metatable api ?w (LSock a) SOCK_META = (v = LSock a \<or> has_metatable api (lvm st) (LSock a) SOCK_META)"
    using meta_set [of w v SOCK_META] meta_other [of "LSock a" v w SOCK_META SOCK_META] same by auto
  moreover have "new_socket api st = (a, with_sock a (new_sd\<lparr>sd_ref := r\<rparr>) w (grown st))"
    using ref by (simp add: new_socket_def reg_ref_def a_def with_sock_def lvm_grown Let_def flip: grown_def)
  moreover have "bind_loop_socket_setmetatable api v (with_sock a (new_sd\<lparr>sd_ref := r\<rparr>) w (grown st)) =
      with_sock a (new_sd\<lparr>sd_ref := r\<rparr>) ?w (grown st)"
    by (simp add: bind_loop_socket_setmetatable_def)
  ultimately show ?thesis
    using new(1) by (intro exI [of _ r] exI [of _ ?w] exI [of _ "with_sock a (new_sd\<lparr>sd_ref := r\<rparr>) w (grown st)"] conjI)
qed

text \<open>Made with a table of callbacks: all five references are there.\<close>

lemma setup_new:
  assumes "live (lvm st) r = None" and "live w = (live (lvm st))(r \<mapsto> LSock a)" and "callbacks api w t fr fe fc fx"
    and "a = length (sock_mem (lib st))"
  shows "\<exists>sd w'. bind_loop_sock_setup_cbrefs api call (with_sock a (new_sd\<lparr>sd_ref := r\<rparr>) w (grown st)) a (LTab t) =
      Some (Inr (), with_sock a sd w' (grown st)) \<and> made api live (lvm st) a fr fe fc fx sd w' \<and>
    (\<forall>u n. has_metatable api w' u n = has_metatable api w u n)"
proof -
  let ?s = "with_sock a (new_sd\<lparr>sd_ref := r\<rparr>) w (grown st)"
  have g: "get_sd (grown st) a \<noteq> None" using assms(4) by (simp add: grown_def get_sd_def cell_def)
  have s: "get_sd ?s a = Some (new_sd\<lparr>sd_ref := r\<rparr>)" "lvm ?s = w" using g by simp_all
  then obtain rr re rc rx w' where w': "bind_loop_sock_setup_cbrefs api call ?s a (LTab t) = Some (Inr (),
        with_sock a ((new_sd\<lparr>sd_ref := r\<rparr>)\<lparr>cb_refs := \<lparr>ref_error = rx, ref_connect = rc, ref_eof = re, ref_read = rr\<rparr>\<rparr>) w' ?s)"
      "registered api live w [(rx, LFun fx), (rc, LFun fc), (re, LFun fe), (rr, LFun fr)] w'"
    using setup_table [of ?s a t fr fe fc fx call] assms(3) by auto
  have d: "distinct [rx, rc, re, rr]" "live w rx = None" "live w rc = None" "live w re = None" "live w rr = None"
    using w'(2) by (simp_all add: registered_def)
  have lw: "live w' = (live w)(rr \<mapsto> LFun fr, re \<mapsto> LFun fe, rc \<mapsto> LFun fc, rx \<mapsto> LFun fx)"
    using w'(2) by (simp add: registered_def)
  have neq: "rx \<noteq> rc" "rx \<noteq> re" "rx \<noteq> rr" "rc \<noteq> re" "rc \<noteq> rr" "re \<noteq> rr" using d(1) by simp_all
  have r: "r \<notin> {rx, rc, re, rr}" using d(2-5) by (auto simp: assms(2))
  have "live w' q = Some v" if "live (lvm st) q = Some v" for q v
  proof -
    have "live w q = Some v" using that assms(1,2) by auto
    then have "q \<notin> {rx, rc, re, rr}" using d(2-5) by auto
    then show ?thesis using \<open>live w q = Some v\<close> by (simp add: lw)
  qed
  then have "made api live (lvm st) a fr fe fc fx
      ((new_sd\<lparr>sd_ref := r\<rparr>)\<lparr>cb_refs := \<lparr>ref_error = rx, ref_connect = rc, ref_eof = re, ref_read = rr\<rparr>\<rparr>) w'"
    using d(1) r neq by (simp add: made_def sock_refs_def new_sd_def lw assms(2) neq [symmetric])
  then show ?thesis
    using w' g unfolding registered_def by (intro exI conjI) auto
qed

text \<open>The callback of a listener whose handler is a table.\<close>

lemma accept_table:
  assumes "get_ld st l = Some ld" and "live (lvm st) (handler_ref ld) = Some (LTab t)"
    and "callbacks api (lvm st) t fr fe fc fx" and "hd (base @ [LSock a]) \<noteq> LTab t"
    and a: "a = length (sock_mem (lib st))"
  shows "\<exists>sd w. bind_loop_accept_cb api call base ip h l st = Some (Inr (0, sock_cbs a),
      with_sock a (sd\<lparr>sd_sock := Some h, sd_state := SOCKET_CONNECTING, sd_host := take 63 ip, sd_port := 0\<rparr>) w (grown st)) \<and>
    made api live (lvm st) a fr fe fc fx sd w \<and>
    has_metatable api w (LSock a) SOCK_META =
      (hd (base @ [LSock a]) = LSock a \<or> has_metatable api (lvm st) (LSock a) SOCK_META)"
proof -
  obtain r w s where 1: "new_socket api st = (a, s)"
      "bind_loop_socket_setmetatable api (hd (base @ [LSock a])) s = with_sock a (new_sd\<lparr>sd_ref := r\<rparr>) w (grown st)"
      "live (lvm st) r = None" "live w = (live (lvm st))(r \<mapsto> LSock a)" "callbacks api w t fr fe fc fx"
      "has_metatable api w (LSock a) SOCK_META =
        (hd (base @ [LSock a]) = LSock a \<or> has_metatable api (lvm st) (LSock a) SOCK_META)"
    using new_socket_step [OF assms(4,3)] unfolding a by blast
  obtain sd w' where 2: "bind_loop_sock_setup_cbrefs api call (with_sock a (new_sd\<lparr>sd_ref := r\<rparr>) w (grown st)) a (LTab t) =
        Some (Inr (), with_sock a sd w' (grown st))" "made api live (lvm st) a fr fe fc fx sd w'"
      "\<And>u n. has_metatable api w' u n = has_metatable api w u n"
    using setup_new [OF 1(3-5) a, of call] by blast
  have "live w (handler_ref ld) = Some (LTab t)" using assms(2) 1(3,4) by auto
  then have "reg_get api (with_sock a (new_sd\<lparr>sd_ref := r\<rparr>) w (grown st)) (handler_ref ld) = LTab t"
    by (simp add: reg_get_def ref_get)
  moreover have "get_sd (grown st) a \<noteq> None" using a by (simp add: grown_def get_sd_def cell_def)
  ultimately have "bind_loop_accept_cb api call base ip h l st = Some (Inr (0, sock_cbs a),
      with_sock a (sd\<lparr>sd_sock := Some h, sd_state := SOCKET_CONNECTING, sd_host := take 63 ip, sd_port := 0\<rparr>) w' (grown st))"
    using assms(1) 2(1) by (simp add: bind_loop_accept_cb_def 1(1,2) SOCKET_HOST_LEN_def)
  then show ?thesis using 1(6) 2(2,3) by metis
qed

end

text \<open>The new handle, before the callback runs.\<close>

definition with_handle :: "'e bst \<Rightarrow> 'e bst" where
  "with_handle st = st\<lparr>socks := socks st @
     [Some \<lparr>bev = False, sock_cb = \<lparr>cb_error = None, cb_connect = None, cb_read = None\<rparr>, has_dns = False\<rparr>]\<rparr>"

lemma with_handle_simps [simp]:
  "lib (with_handle st) = lib st" "lvm (with_handle st) = lvm st" "get_ld (with_handle st) l = get_ld st l"
  "get_sd (with_handle st) a = get_sd st a" "listeners (with_handle st) = listeners st"
  "socks (with_handle st) = socks st @
     [Some \<lparr>bev = False, sock_cb = \<lparr>cb_error = None, cb_connect = None, cb_read = None\<rparr>, has_dns = False\<rparr>]"
  by (simp_all add: with_handle_def lvm_def get_ld_def get_sd_def)

lemma accept_conn_step:
  assumes "cell (listeners st) l = Some (AcceptCb b)" and "h = length (socks st)"
    and "bind_loop_accept_cb api (lua_run sc) (lua_stack (lib st)) ip h b (with_handle st) = Some (Inr (0, sock_cbs a), st')"
    and "socks st' = socks (with_handle st)" and "bufferevent_socket_new ev (lvm st') h fd = (True, w)"
  shows "bind_accept_conn api ev sc st l fd True ip = bind_caller api ev sc (SockConnectCb a) (OnConnect h)
    (set_lvm w (st'\<lparr>socks := (socks st)@[Some \<lparr>bev = True, sock_cb = sock_cbs a, has_dns = False\<rparr>]\<rparr>))"
proof -
  have "bufferevent_socket_new (on_world ev) (lib st') h fd = (True, (lib st')\<lparr>interp := w\<rparr>)"
    using assms(5) by (simp add: on_world_def on_world1_def lvm_def)
  then show ?thesis
    using assms(1-4)
    by (simp add: bind_accept_conn_def loop_accept_conn_def sock_cbs_def set_lvm_def cell_def flip: with_handle_def)
qed

text \<open>The state in which the script hears of the connection.\<close>

definition accepted :: "addr \<Rightarrow> socket_data \<Rightarrow> 'e \<Rightarrow> 'e bst \<Rightarrow> 'e bst" where
  "accepted a sd w st = with_sock a sd w
     ((grown st)\<lparr>socks := socks st @ [Some \<lparr>bev = True, sock_cb = sock_cbs a, has_dns = False\<rparr>]\<rparr>)"

lemma accepted_simps [simp]:
  "lvm (accepted a sd w st) = w"
  "a = length (sock_mem (lib st)) \<Longrightarrow> get_sd (accepted a sd w st) a = Some sd"
  "socks (accepted a sd w st) = socks st @ [Some \<lparr>bev = True, sock_cb = sock_cbs a, has_dns = False\<rparr>]"
  by (simp_all add: accepted_def with_sock_def put_sd_def set_lvm_def lvm_def grown_def get_sd_def cell_def)

context lua_events begin

lemma accept_opens:
  assumes "cell (listeners st) l = Some (AcceptCb b)" and "get_ld st b = Some ld"
    and "live (lvm st) (handler_ref ld) = Some (LTab t)" and "callbacks api (lvm st) t fr fe fc fx"
    and "hd (lua_stack (lib st) @ [LSock a]) \<noteq> LTab t" and "\<And>e h. fst (bufferevent_socket_new ev e h fd)"
    and a: "a = length (sock_mem (lib st))" and h: "h = length (socks st)"
  shows "\<exists>sd0 sd w s. bind_accept_conn api ev sc st l fd True ip =
      bind_caller api ev sc (SockConnectCb a) (OnConnect h) s \<and>
    get_sd s a = Some sd0 \<and> sd_state sd0 = SOCKET_CONNECTING \<and> sd0\<lparr>sd_state := SOCKET_OPEN\<rparr> = sd \<and>
    put_sd a sd s = accepted a sd w st \<and> sd_sock sd = Some h \<and> sd_host sd = take 63 ip \<and>
    made api live (lvm st) a fr fe fc fx sd w \<and>
    has_metatable api w (LSock a) SOCK_META =
      (hd (lua_stack (lib st) @ [LSock a]) = LSock a \<or> has_metatable api (lvm st) (LSock a) SOCK_META)"
proof -
  obtain sd w where 1: "bind_loop_accept_cb api (lua_run sc) (lua_stack (lib st)) ip h b (with_handle st) = Some (Inr (0, sock_cbs a),
        with_sock a (sd\<lparr>sd_sock := Some h, sd_state := SOCKET_CONNECTING, sd_host := take 63 ip, sd_port := 0\<rparr>) w (grown (with_handle st)))"
      "made api live (lvm st) a fr fe fc fx sd w"
      "has_metatable api w (LSock a) SOCK_META =
        (hd (lua_stack (lib st) @ [LSock a]) = LSock a \<or> has_metatable api (lvm st) (LSock a) SOCK_META)"
    using accept_table [of "with_handle st" b ld t fr fe fc fx "lua_stack (lib st)" a "lua_run sc" ip h] assms by auto
  define sd0 where "sd0 = sd\<lparr>sd_sock := Some h, sd_state := SOCKET_CONNECTING, sd_host := take 63 ip, sd_port := 0\<rparr>"
  define sd1 where "sd1 = sd0\<lparr>sd_state := SOCKET_OPEN\<rparr>"
  obtain w2 where w2: "bufferevent_socket_new ev w h fd = (True, w2)"
    using assms(6) [of w h] by (metis prod.collapse)
  have same: "lua_same api live w w2" using new_same [of w h fd] w2 by simp
  define s where "s = set_lvm w2 ((with_sock a sd0 w (grown (with_handle st)))
    \<lparr>socks := socks st @ [Some \<lparr>bev = True, sock_cb = sock_cbs a, has_dns = False\<rparr>]\<rparr>)"
  have "bind_accept_conn api ev sc st l fd True ip = bind_caller api ev sc (SockConnectCb a) (OnConnect h) s"
    using accept_conn_step [OF assms(1) h 1(1) [folded sd0_def], of ev fd w2] w2
    by (simp add: grown_def s_def)
  moreover have "get_sd s a = Some sd0"
    using a by (simp add: s_def with_sock_def put_sd_def set_lvm_def grown_def get_sd_def cell_def with_handle_def)
  moreover have "put_sd a sd1 s = accepted a sd1 w2 st"
    using a by (simp add: s_def accepted_def with_sock_def put_sd_def set_lvm_def grown_def with_handle_def)
  moreover have "made api live (lvm st) a fr fe fc fx sd1 w2"
    using 1(2) same by (simp add: made_def lua_same_def sd1_def sd0_def sock_refs_def)
  moreover have "has_metatable api w2 (LSock a) SOCK_META = has_metatable api w (LSock a) SOCK_META"
    using same by (simp add: lua_same_def)
  moreover have "sd_state sd0 = SOCKET_CONNECTING" "sd_sock sd1 = Some h" "sd_host sd1 = take 63 ip"
    by (simp_all add: sd0_def sd1_def)
  ultimately show ?thesis
    using 1(3) by (intro exI [of _ sd0] exI [of _ sd1] exI [of _ w2] exI [of _ s]) (simp add: sd1_def)
qed

end

text \<open>C28: A connection to a listener whose handler is a table of four functions makes an open socket:
  its handle is the new one, its references are itself and the functions, no other entry of the
  registry is lost, and the function for the connection is called with it. The stack of the
  main Lua state must be empty.\<close>

theorem bind_accept_opens:
  assumes "lua_events api live ev input" and "cell (listeners st) l = Some (AcceptCb b)" and "get_ld st b = Some ld"
    and "live (lvm st) (handler_ref ld) = Some (LTab t)" and "callbacks api (lvm st) t fr fe fc fx"
    and "lua_stack (lib st) = []" and "\<And>e h. fst (bufferevent_socket_new ev e h fd)"
  shows "\<exists>a sd s. bind_accept_conn api ev sc st l fd True ip = do {
      (r, s) \<leftarrow> lua_run sc (LFun fc) [LSock a] s;
      Some (case r of Inl e \<Rightarrow> set_world (raised_update (\<lambda>_. Some e)) s | Inr _ \<Rightarrow> s) } \<and>
    open_socket api live s a sd (length (socks st)) \<and> sd_state sd = SOCKET_OPEN \<and> sd_host sd = take 63 ip \<and>
    map (live (lvm s)) (sock_refs sd) = map Some [LSock a, LFun fx, LFun fe, LFun fc, LFun fr] \<and>
    (\<forall>r v. live (lvm st) r = Some v \<longrightarrow> live (lvm s) r = Some v)"
proof -
  let ?a = "length (sock_mem (lib st))" and ?h = "length (socks st)"
  note stack = assms(6)
  have "hd (lua_stack (lib st) @ [LSock ?a]) \<noteq> LTab t" by (simp add: stack)
  from lua_events.accept_opens [OF assms(1-5) this assms(7) refl refl, of sc ip]
  obtain sd0 sd w s where s: "bind_accept_conn api ev sc st l fd True ip =
        bind_caller api ev sc (SockConnectCb ?a) (OnConnect ?h) s"
      "get_sd s ?a = Some sd0" "sd_state sd0 = SOCKET_CONNECTING" "sd0\<lparr>sd_state := SOCKET_OPEN\<rparr> = sd"
      "put_sd ?a sd s = accepted ?a sd w st" "sd_sock sd = Some ?h" "sd_host sd = take 63 ip"
      "made api live (lvm st) ?a fr fe fc fx sd w" "has_metatable api w (LSock ?a) SOCK_META"
    by (auto simp: stack)
  let ?s = "accepted ?a sd w st"
  note refs = s(8) [unfolded made_def]
  have reg: "reg_get api ?s (ref_connect (cb_refs sd0)) = LFun fc" "reg_get api ?s (sd_ref sd0) = LSock ?a"
    using refs lua_interpreter.ref_get [OF lua_events.axioms(1) [OF assms(1)]] s(4) by (auto simp: reg_get_def)
  have "bind_accept_conn api ev sc st l fd True ip = do {
      (r, s) \<leftarrow> lua_run sc (LFun fc) [LSock ?a] ?s;
      Some (case r of Inl e \<Rightarrow> set_world (raised_update (\<lambda>_. Some e)) s | Inr _ \<Rightarrow> s) }"
    using reg s(5) by (simp add: s(1-4) bind_caller_def run_cb_def bind_loop_connect_cb_def sum.case_distrib)
  moreover have state: "sd_state sd = SOCKET_OPEN" using s(4) by auto
  moreover have "open_socket api live ?s ?a sd ?h"
    using refs s(6,9) state by (simp add: open_socket_def sock_refs_def sock_cell_def cell_def)
  ultimately show ?thesis
    using refs s(7) by (intro exI [of _ ?a] exI [of _ sd] exI [of _ ?s]) (simp add: sock_refs_def)
qed

section \<open>Sockets without a metatable\<close>

lemma no_metatable:
  assumes "\<not> has_metatable api (lvm st) (LSock a) SOCK_META" and "(name, f) \<in> set (socket_methods api ev place)"
  shows "\<exists>e. f st (LSock a # rest) = Some (Inl e, st)"
  using assms
  by (auto simp: socket_methods_def bind_loop_sock_write_def bind_loop_sock_close_def bind_loop_sock_get_hostname_def
      bind_loop_sock_get_port_def bind_loop_sock_tostring_def bind_loop_sock_id_def require_exactly_def check_sock_def arg_def)

lemma no_metatable_gc:
  "\<not> has_metatable api (lvm st) (LSock a) SOCK_META \<Longrightarrow>
    bind_loop_sock_gc api ev st [LSock a] = Some (Inl (BadArg 1 ''druid socket expected''), st)"
  by (simp add: bind_loop_sock_gc_def check_sock_def)

text \<open>libevent starts to connect.\<close>

definition connects :: "'e libevent \<Rightarrow> bool" where
  "connects ev \<longleftrightarrow> (\<forall>e h. fst (bufferevent_socket_new ev e h (-1))) \<and> (\<forall>e. fst (evdns_base_new ev e)) \<and>
     (\<forall>e h host port. \<not> fst (connect_hostname ev e h host port))"

context lua_events begin

lemma lua_same_trans: "lua_same api live x y \<Longrightarrow> lua_same api live y z \<Longrightarrow> lua_same api live x z"
  by (simp add: lua_same_def)

lemma tcp_connect_lift:
  assumes "connects ev" and "ev_base st" and "base_dns_users st = 0 \<Longrightarrow> \<not> base_dns st"
  shows "\<exists>st'. loop_tcp_connect (on_world ev) st host port (sock_cbs a) = Some (Some (length (socks st)), st') \<and>
    lib st' = (lib st)\<lparr>interp := lvm st'\<rparr> \<and> lua_same api live (lvm st) (lvm st') \<and>
    length (socks st') = Suc (length (socks st))"
proof -
  let ?h = "length (socks st)"
  obtain w1 where w1: "bufferevent_socket_new ev (lvm st) ?h (-1) = (True, w1)"
    using assms(1) unfolding connects_def by (metis prod.collapse)
  obtain w2 where w2: "evdns_base_new ev w1 = (True, w2)"
    using assms(1) unfolding connects_def by (metis prod.collapse)
  let ?w = "if base_dns_users st = 0 then w2 else w1"
  obtain w3 where w3: "connect_hostname ev ?w ?h host port = (False, w3)"
    using assms(1) unfolding connects_def by (metis prod.collapse)
  have "lua_same api live (lvm st) w1" "lua_same api live w1 w2" "lua_same api live ?w w3"
    using new_same [of "lvm st" ?h "-1"] dns_same [of w1] connect_same [of ?w ?h host port] w1 w2 w3 by simp_all
  then have same: "lua_same api live (lvm st) w3"
    by (cases "base_dns_users st = 0") (simp_all add: lua_same_def)
  have on: "bufferevent_socket_new (on_world ev) (lib st) ?h (-1) = (True, (lib st)\<lparr>interp := w1\<rparr>)"
    "evdns_base_new (on_world ev) ((lib st)\<lparr>interp := w1\<rparr>) = (True, (lib st)\<lparr>interp := w2\<rparr>)"
    "connect_hostname (on_world ev) ((lib st)\<lparr>interp := ?w\<rparr>) ?h host port = (False, (lib st)\<lparr>interp := w3\<rparr>)"
    using w1 w2 w3 by (simp_all add: on_world_def on_world1_def lvm_def)
  show ?thesis
    using assms(2,3) same on
    by (cases "base_dns_users st = 0")
      (simp_all add: loop_tcp_connect_def sock_cbs_def evdns_refcount_increment_def lvm_def)
qed

lemma connect_table:
  assumes "connects ev" and "ev_base st" and "base_dns_users st = 0 \<Longrightarrow> \<not> base_dns st"
    and "num_to_int api x = port" and "0 \<le> port" and "port \<le> 65535" and "c_string host \<noteq> []"
    and "callbacks api (lvm st) t fr fe fc fx" and a: "a = length (sock_mem (lib st))"
  shows "\<exists>st'. bind_loop_tcp_connect api ev call st [LStr host, LNum x, LTab t] = Some (Inr [LSock a], st') \<and>
    has_metatable api (lvm st') (LSock a) SOCK_META = has_metatable api (lvm st) (LSock a) SOCK_META \<and>
    length (socks st') = Suc (length (socks st))"
proof -
  obtain r w s where 1: "new_socket api st = (a, s)"
      "bind_loop_socket_setmetatable api (LStr host) s = with_sock a (new_sd\<lparr>sd_ref := r\<rparr>) w (grown st)"
      "live (lvm st) r = None" "live w = (live (lvm st))(r \<mapsto> LSock a)" "callbacks api w t fr fe fc fx"
      "has_metatable api w (LSock a) SOCK_META = has_metatable api (lvm st) (LSock a) SOCK_META"
    using new_socket_step [of "LStr host" t st, OF _ assms(8)] unfolding a by auto
  obtain sd w' where 2: "bind_loop_sock_setup_cbrefs api call (with_sock a (new_sd\<lparr>sd_ref := r\<rparr>) w (grown st)) a (LTab t) =
        Some (Inr (), with_sock a sd w' (grown st))" "made api live (lvm st) a fr fe fc fx sd w'"
      "\<And>u n. has_metatable api w' u n = has_metatable api w u n"
    using setup_new [OF 1(3-5) a, of call] by blast
  let ?s2 = "with_sock a sd w' (grown st)"
  have g: "get_sd (grown st) a \<noteq> None" using a by (simp add: grown_def get_sd_def cell_def)
  have "ev_base ?s2" "base_dns_users ?s2 = 0 \<Longrightarrow> \<not> base_dns ?s2"
    using assms(2,3) by (simp_all add: with_sock_def grown_def put_sd_def set_lvm_def)
  from tcp_connect_lift [OF assms(1) this, of "c_string host" "word_of_int port" a]
  obtain s3 where 3: "loop_tcp_connect (on_world ev) ?s2 (c_string host) (word_of_int port) (sock_cbs a) =
        Some (Some (length (socks ?s2)), s3)"
      "lib s3 = (lib ?s2)\<lparr>interp := lvm s3\<rparr>" "lua_same api live (lvm ?s2) (lvm s3)"
      "length (socks s3) = Suc (length (socks ?s2))" by blast
  have "reg_get api s3 (sd_ref sd) = LSock a"
    using 2(2) 3(3) by (simp add: made_def reg_get_def lua_same_def ref_get)
  moreover have "get_sd ?s2 a = Some sd" using g by simp
  ultimately have "bind_loop_tcp_connect api ev call st [LStr host, LNum x, LTab t] = Some (Inr [LSock a],
      put_sd a (sd\<lparr>sd_sock := Some (length (socks ?s2)), sd_state := SOCKET_CONNECTING,
        sd_host := take 63 (c_string host), sd_port := word_of_int port\<rparr>)
      (put_sd a (sd\<lparr>sd_sock := Some (length (socks ?s2))\<rparr>) s3))"
    using assms(4-7) 1(1,2) 2(1) 3(1)
    by (simp add: bind_loop_tcp_connect_def lua_checks number_law ret_def reg_simps SOCKET_HOST_LEN_def arg_def numeral_2_eq_2 numeral_3_eq_3)
  moreover have "has_metatable api (lvm s3) (LSock a) SOCK_META = has_metatable api (lvm st) (LSock a) SOCK_META"
    using 3(3) 2(3) 1(6) by (simp add: lua_same_def)
  moreover have "length (socks s3) = Suc (length (socks st))"
    using 3(4) by (simp add: with_sock_def grown_def world_simps)
  ultimately show ?thesis by (simp add: world_simps)
qed

end

text \<open>C33: A connection that a script opens gives it a socket of no use: the metatable is put on the host's
  name, and every method, called on the socket, raises an error and does nothing. The finaliser,
  which the loop calls when the connection ends, raises too.\<close>

theorem bind_connect_no_methods:
  assumes "lua_events api live ev input" and "connects ev" and "ev_base st" and "base_dns_users st = 0 \<Longrightarrow> \<not> base_dns st"
    and "num_to_int api x = port" and "0 \<le> port" and "port \<le> 65535" and "c_string host \<noteq> []"
    and "callbacks api (lvm st) t fr fe fc fx"
    and "\<not> has_metatable api (lvm st) (LSock (length (sock_mem (lib st)))) SOCK_META"
  shows "\<exists>a st'. bind_loop_tcp_connect api ev call st [LStr host, LNum x, LTab t] = Some (Inr [LSock a], st') \<and>
    (\<forall>(name, f) \<in> set (socket_methods api ev place). \<forall>rest. \<exists>e. f st' (LSock a # rest) = Some (Inl e, st')) \<and>
    bind_loop_sock_gc api ev st' [LSock a] = Some (Inl (BadArg 1 ''druid socket expected''), st')"
proof -
  obtain st' where "bind_loop_tcp_connect api ev call st [LStr host, LNum x, LTab t] =
        Some (Inr [LSock (length (sock_mem (lib st)))], st')"
      and m: "\<not> has_metatable api (lvm st') (LSock (length (sock_mem (lib st)))) SOCK_META"
    using lua_events.connect_table [OF assms(1-9) refl] assms(10) by blast
  then show ?thesis
    using no_metatable [OF m, of _ _ ev place] no_metatable_gc [OF m] by blast
qed

section \<open>Examples\<close>

text \<open>An interpreter with a network: what has come in for each handle, and what a script has read.\<close>

record toy_io = toy_vm +
  toy_in :: "addr \<Rightarrow> bytes"
  toy_got :: "bytes list"

definition toy_ev :: "toy_io libevent" where
  "toy_ev = \<lparr>event_base_new = (\<lambda>w. (True, w)), event_base_free = id, event_base_loopbreak = id,
     evdns_base_new = (\<lambda>w. (True, w)), evdns_base_free = id, bufferevent_socket_new = (\<lambda>w h fd. (True, w)),
     bufferevent_free = (\<lambda>w h. w), connect_hostname = (\<lambda>w h host port. (False, w)),
     evbuffer_copyout = (\<lambda>w h n. (int (min n (length (toy_in w h))), take n (toy_in w h), w)),
     evbuffer_drain = (\<lambda>w h n. w\<lparr>toy_in := (toy_in w)(h := drop n (toy_in w h))\<rparr>),
     evbuffer_add = (\<lambda>w h d. w), evbuffer_get_length = (\<lambda>w h. length (toy_in w h)),
     evtimer_add = (\<lambda>w t s us. w), timer_event_free = (\<lambda>w t. w), watch_event_add = (\<lambda>w x fd. (True, w)),
     watch_event_free = (\<lambda>w x. w), evconnlistener_new_bind = (\<lambda>w l port. (True, w)),
     evconnlistener_free = (\<lambda>w l. w), close_fd = (\<lambda>w fd. w)\<rparr>"

lemma toy_lua_in [simp]:
  "toy_live (w\<lparr>toy_in := i\<rparr>) = toy_live w" "toy_live (w\<lparr>toy_got := g\<rparr>) = toy_live w"
  "rawgeti toy_lua (w\<lparr>toy_in := i\<rparr>) = rawgeti toy_lua w" "rawgeti toy_lua (w\<lparr>toy_got := g\<rparr>) = rawgeti toy_lua w"
  "has_metatable toy_lua (w\<lparr>toy_in := i\<rparr>) = has_metatable toy_lua w"
  "getfield toy_lua (w\<lparr>toy_in := i\<rparr>) = getfield toy_lua w"
  by (simp_all add: toy_lua_def toy_live_def fun_eq_iff)

interpretation toy_events: lua_events toy_lua toy_live toy_ev toy_in
  by unfold_locales (auto simp: toy_ev_def lua_same_def)

text \<open>Function 1 keeps what it reads, function 2 closes its socket, the others do nothing.\<close>

definition toy_run :: "toy_io bst lua_caller" where
  "toy_run f args st =
    (if f = LFun 1 then
       (case arg args 2 of
          LStr d \<Rightarrow> ret [] (set_lvm ((lvm st)\<lparr>toy_got := toy_got (lvm st) @ [d]\<rparr>) st)
        | _ \<Rightarrow> ret [] st)
     else if f = LFun 2 then do {
       (r, st) \<leftarrow> bind_loop_sock_close toy_lua toy_ev st [arg args 1];
       Some (case r of Inl e \<Rightarrow> Inl e | Inr _ \<Rightarrow> Inr [], st) }
     else ret [] st)"

definition toy_scripts :: "toy_io scripts" where
  "toy_scripts = \<lparr>lua_run = toy_run, dostring = (\<lambda>s st. ret [LNum (Fin 5)] st), dofile = (\<lambda>s st. ret [] st),
     gc_step = (\<lambda>st. ret [] st), gc_collect = Some, lua_close = Some, read_char = (\<lambda>e. (None, e)), on_tty = (\<lambda>e. True)\<rparr>"

definition toy_io0 :: "lval option list \<Rightarrow> (lval \<times> string) list \<Rightarrow> bytes \<Rightarrow> toy_io" where
  "toy_io0 refs metas d = \<lparr>toy_refs = refs, toy_metas = metas,
     toy_fields = [(LTab 0, ''read'', LFun 1), (LTab 0, ''eof'', LFun 2), (LTab 0, ''connect'', LFun 3), (LTab 0, ''error'', LFun 4)],
     toy_in = (\<lambda>h. d), toy_got = []\<rparr>"

definition toy_world :: "toy_io \<Rightarrow> socket_data list \<Rightarrow> listener_data list \<Rightarrow> toy_io bind_world" where
  "toy_world w sds lds = \<lparr>interp = w, sock_mem = map Some sds, lst_mem = map Some lds, timer_mem = [], lua_stack = [],
     gc_counter = 0, run_interactive = False, interactive_loop_running = False, readline_lua = True,
     stdin_watcher = None, raised = None\<rparr>"

definition toy_loop :: "bind_cb sockhandle list \<Rightarrow> bind_cb list \<Rightarrow> toy_io bind_world \<Rightarrow> toy_io bst" where
  "toy_loop ss ls w = \<lparr>ev_base = True, base_dns = False, base_dns_users = 0, socks = map Some ss, timers = [],
     watchers = [], listeners = map Some ls, whenever_fns = [], exiting_early = False, lib = w\<rparr>"

text \<open>A socket with the functions 1 to 4, its function for reading being \<open>f\<close>, and \<open>d\<close> received.\<close>

definition toy_sd :: socket_data where
  "toy_sd = \<lparr>sd_state = SOCKET_OPEN, cb_refs = \<lparr>ref_error = 1, ref_connect = 2, ref_eof = 3, ref_read = 4\<rparr>,
     sd_ref = 0, sd_sock = Some 0, sd_buffer = replicate SOCKET_READ_SIZE 0, sd_host = ''h'', sd_port = 0\<rparr>"

definition toy_open :: "nat \<Rightarrow> bytes \<Rightarrow> toy_io bst" where
  "toy_open f d = toy_loop [\<lparr>bev = True, sock_cb = sock_cbs 0, has_dns = False\<rparr>] []
     (toy_world (toy_io0 [Some (LSock 0), Some (LFun 4), Some (LFun 3), Some (LFun 2), Some (LFun f)]
       [(LSock 0, SOCK_META)] d) [toy_sd] [])"

lemma toy_open_parts:
  "get_sd (toy_open f d) 0 = Some toy_sd" "lvm (toy_open f d) =
    toy_io0 [Some (LSock 0), Some (LFun 4), Some (LFun 3), Some (LFun 2), Some (LFun f)] [(LSock 0, SOCK_META)] d"
  "socks (toy_open f d) = [Some \<lparr>bev = True, sock_cb = sock_cbs 0, has_dns = False\<rparr>]"
  "raised (lib (toy_open f d)) = None" "\<not> exiting_early (toy_open f d)"
  by (simp_all add: toy_open_def toy_loop_def toy_world_def get_sd_def lvm_def cell_def)

lemma toy_open_live:
  "toy_live (lvm (toy_open f d)) 0 = Some (LSock 0)" "toy_live (lvm (toy_open f d)) 1 = Some (LFun 4)"
  "toy_live (lvm (toy_open f d)) 2 = Some (LFun 3)" "toy_live (lvm (toy_open f d)) 3 = Some (LFun 2)"
  "toy_live (lvm (toy_open f d)) 4 = Some (LFun f)" "toy_in (lvm (toy_open f d)) h = d"
  by (simp_all add: toy_open_parts toy_live_def toy_io0_def)

lemma toy_open_socket: "open_socket toy_lua toy_live (toy_open f d) 0 toy_sd 0"
  using toy_open_live [of f d]
  by (simp add: open_socket_def toy_open_parts toy_sd_def sock_refs_def sock_cell_def cell_def)
    (simp add: toy_lua_def toy_io0_def)

lemma toy_closer: "closer toy_lua toy_ev toy_run (LFun 2)"
  by (simp add: closer_def toy_run_def arg_def)

lemma toy_reader: "reader toy_lua toy_in toy_got toy_run a h rr rs (LFun 1)"
  by (auto simp: reader_def toy_run_def ret_def listening_def world_simps reg_get_def)

theorem bind_socket_close_once_witness:
  "\<exists>st'. bind_loop_sock_close toy_lua toy_ev (toy_open 1 []) [LSock 0] = Some (Inr [], st') \<and>
    (\<forall>d. bind_loop_sock_write toy_lua toy_ev st' [LSock 0, d] = Some (Inr [], st'))"
  using bind_socket_close_once [OF toy_events.lua_events_axioms toy_open_socket, of 1 "[]"] by blast

theorem bind_socket_delivers_witness:
  "\<exists>ds st'. loop_sock_cb_read (on_world toy_ev) (bind_caller toy_lua toy_ev toy_scripts) (toy_open 1 (replicate 3000 7)) 0 = Some st' \<and>
    toy_got (lvm st') = ds \<and> concat ds = replicate 3000 7"
proof -
  let ?st = "toy_open 1 (replicate 3000 7)"
  have "reader toy_lua toy_in toy_got (lua_run toy_scripts) 0 0 4 0 (LFun 1)"
    using toy_reader by (simp add: toy_scripts_def)
  moreover have "kept_by_events toy_ev toy_got" by (simp add: kept_by_events_def toy_ev_def)
  moreover have "listening toy_lua 0 0 4 0 (LFun 1) ?st"
    using toy_events.open_listening [OF toy_open_socket, of 1 "replicate 3000 7" "LFun 1"] toy_open_live [of 1 "replicate 3000 7"]
    by (simp add: toy_sd_def)
  moreover have "sock_cell (socks ?st) 0 = Some \<lparr>bev = True, sock_cb = sock_cbs 0, has_dns = False\<rparr>"
    by (simp add: toy_open_parts sock_cell_def cell_def)
  ultimately show ?thesis
    using bind_socket_delivers [OF toy_events.lua_events_axioms, of toy_got toy_scripts 0 0 4 0 "LFun 1" ?st
      "\<lparr>bev = True, sock_cb = sock_cbs 0, has_dns = False\<rparr>"]
    by (auto simp: toy_open_parts toy_open_live toy_sd_def sock_cbs_def) (auto simp: toy_io0_def)
qed

theorem bind_read_close_dies_witness:
  "loop_sock_cb_read (on_world toy_ev) (bind_caller toy_lua toy_ev toy_scripts) (toy_open 2 (replicate 1025 7)) 0 = None"
  by (rule bind_read_close_dies [OF toy_events.lua_events_axioms toy_open_socket, where f = "LFun 2" and
        s = "\<lparr>bev = True, sock_cb = sock_cbs 0, has_dns = False\<rparr>"])
    (use toy_closer toy_open_live [of 2 "replicate 1025 7"] in
      \<open>simp_all add: toy_open_parts toy_sd_def sock_cell_def cell_def sock_cbs_def toy_scripts_def\<close>)

theorem bind_eof_close_ends_loop_witness:
  "\<exists>st'. runloop (eof_turn toy_lua toy_ev toy_scripts 0) (bind_caller toy_lua toy_ev toy_scripts) (toy_open 1 []) =
    Some (Inl (BadArg 1 ''druid socket expected''), st')"
  by (rule bind_eof_close_ends_loop [OF toy_events.lua_events_axioms toy_open_socket, where f = "LFun 2" and
        s = "\<lparr>bev = True, sock_cb = sock_cbs 0, has_dns = False\<rparr>"])
    (use toy_closer toy_open_live [of 1 "[]"] in
      \<open>simp_all add: toy_open_parts toy_sd_def sock_cell_def cell_def sock_cbs_def toy_scripts_def toy_lua_def\<close>)

text \<open>A listener whose handler is the table of the four functions.\<close>

definition toy_listening :: "toy_io bst" where
  "toy_listening = toy_loop [] [AcceptCb 0] (toy_world (toy_io0 [Some (LTab 0)] [] []) []
     [\<lparr>ld_ll = Some 0, ld_port = 80, handler_ref = 0, listener_ref = LUA_REFNIL, creation_location = []\<rparr>])"

lemma toy_listening_parts:
  "cell (listeners toy_listening) 0 = Some (AcceptCb 0)" "lua_stack (lib toy_listening) = []"
  "get_ld toy_listening 0 =
    Some \<lparr>ld_ll = Some 0, ld_port = 80, handler_ref = 0, listener_ref = LUA_REFNIL, creation_location = []\<rparr>"
  "lvm toy_listening = toy_io0 [Some (LTab 0)] [] []" "socks toy_listening = []" "sock_mem (lib toy_listening) = []"
  "ev_base toy_listening" "\<not> base_dns toy_listening"
  by (simp_all add: toy_listening_def toy_loop_def toy_world_def get_ld_def cell_def lvm_def)

lemma toy_listening_vm:
  "toy_live (lvm toy_listening) 0 = Some (LTab 0)" "callbacks toy_lua (lvm toy_listening) 0 1 2 3 4"
  "\<not> has_metatable toy_lua (lvm toy_listening) (LSock 0) SOCK_META"
  by (simp_all add: toy_listening_parts toy_live_def toy_io0_def callbacks_def toy_lua_def)

lemma toy_socket_new: "fst (bufferevent_socket_new toy_ev e h 7)"
  by (simp add: toy_ev_def)

theorem bind_accept_opens_witness:
  "\<exists>a sd (s :: toy_io bst). open_socket toy_lua toy_live s a sd 0 \<and> sd_state sd = SOCKET_OPEN \<and>
    map (toy_live (lvm s)) (sock_refs sd) = map Some [LSock a, LFun 4, LFun 2, LFun 3, LFun 1]"
proof -
  have "toy_live (lvm toy_listening) (handler_ref
      \<lparr>ld_ll = Some 0, ld_port = 80, handler_ref = 0, listener_ref = LUA_REFNIL, creation_location = []\<rparr>) = Some (LTab 0)"
    using toy_listening_vm(1) by simp
  from bind_accept_opens [OF toy_events.lua_events_axioms toy_listening_parts(1,3) this toy_listening_vm(2) toy_listening_parts(2)
      toy_socket_new, of toy_scripts "''127.0.0.1''"]
  obtain a sd and s :: "toy_io bst" where "open_socket toy_lua toy_live s a sd (length (socks toy_listening))" "sd_state sd = SOCKET_OPEN"
      "map (toy_live (lvm s)) (sock_refs sd) = map Some [LSock a, LFun 4, LFun 2, LFun 3, LFun 1]"
    by blast
  then show ?thesis unfolding toy_listening_parts(5) list.size(3) by blast
qed

theorem bind_connect_no_methods_witness:
  "\<exists>a st'. bind_loop_tcp_connect toy_lua toy_ev toy_run toy_listening [LStr [104], LNum (Fin (of_nat 80)), LTab 0] =
      Some (Inr [LSock a], st') \<and>
    (\<forall>(name, f) \<in> set (socket_methods toy_lua toy_ev (\<lambda>a. Fin 0)). \<forall>rest. \<exists>e. f st' (LSock a # rest) = Some (Inl e, st')) \<and>
    bind_loop_sock_gc toy_lua toy_ev st' [LSock a] = Some (Inl (BadArg 1 ''druid socket expected''), st')"
proof -
  have "num_to_int toy_lua (Fin (of_nat 80)) = 80" using c_trunc_nat [of 80] by (simp add: toy_lua_def)
  moreover have "connects toy_ev" by (simp add: connects_def toy_ev_def)
  ultimately show ?thesis
    using toy_listening_vm(2,3) toy_listening_parts
    by (intro bind_connect_no_methods [OF toy_events.lua_events_axioms, where port = 80]) (simp_all add: c_string_def)
qed

end
