(* ===== verification/BindMainProps.thy ===== *)
theory BindMainProps
  imports BindSocketProps
begin

text \<open>
  Properties of the timers and of the log of scripts (\<open>src/src/lua/bind-timer.c\<close>, \<open>bind-logger.c\<close>) and of the
  prompt (\<open>main.c\<close>), each through the handlers of the loop.
\<close>

section \<open>Timers\<close>

text \<open>Timer \<open>k\<close> of the loop waits for function \<open>g\<close>, by struct \<open>t\<close> and reference \<open>r\<close>.\<close>

definition pending :: "('e \<Rightarrow> int \<Rightarrow> lval option) \<Rightarrow> addr \<Rightarrow> addr \<Rightarrow> int \<Rightarrow> nat \<Rightarrow> 'e bst \<Rightarrow> bool" where
  "pending live k t r g st \<longleftrightarrow> cell (timers st) k = Some (TimerCb t) \<and>
     cell (timer_mem (lib st)) t = Some r \<and> live (lvm st) r = Some (LFun g)"

text \<open>The references that the pending timers hold, and what a script may do between two calls of it: set
  timers, stop the loop, and anything else that leaves the timers alone and gives back no
  reference that a timer holds.\<close>

definition timer_refs :: "'e bst \<Rightarrow> int set" where
  "timer_refs st = {r. \<exists>j t. cell (timers st) j = Some (TimerCb t) \<and> cell (timer_mem (lib st)) t = Some r}"

inductive script_step ::
  "'e lua_api \<Rightarrow> ('e \<Rightarrow> int \<Rightarrow> lval option) \<Rightarrow> 'e libevent \<Rightarrow> (lnum \<Rightarrow> int \<times> int) \<Rightarrow> 'e bst \<Rightarrow> 'e bst \<Rightarrow> bool"
  for api live ev conv where
  script_set: "bind_a_timer api ev conv st args = Some (res, st') \<Longrightarrow> script_step api live ev conv st st'"
| script_stop: "bind_stop_loop ev st args = Some (res, st') \<Longrightarrow> script_step api live ev conv st st'"
| script_other: "timers st' = timers st \<Longrightarrow> timer_mem (lib st') = timer_mem (lib st) \<Longrightarrow>
    (\<And>r. r \<in> timer_refs st \<Longrightarrow> live (lvm st') r = live (lvm st) r) \<Longrightarrow> script_step api live ev conv st st'"

definition timer_scripts ::
  "'e lua_api \<Rightarrow> ('e \<Rightarrow> int \<Rightarrow> lval option) \<Rightarrow> 'e libevent \<Rightarrow> (lnum \<Rightarrow> int \<times> int) \<Rightarrow> 'e scripts \<Rightarrow> bool" where
  "timer_scripts api live ev conv sc \<longleftrightarrow> (\<forall>f args st res st'.
     lua_run sc f args st = Some (res, st') \<longrightarrow> (script_step api live ev conv)\<^sup>*\<^sup>* st st')"

text \<open>A step of the program: one of a script, or a timer of \<open>J\<close> fires.\<close>

inductive timer_step ::
  "'e lua_api \<Rightarrow> ('e \<Rightarrow> int \<Rightarrow> lval option) \<Rightarrow> 'e libevent \<Rightarrow> (lnum \<Rightarrow> int \<times> int) \<Rightarrow> 'e scripts \<Rightarrow> nat set \<Rightarrow>
   'e bst \<Rightarrow> 'e bst \<Rightarrow> bool"
  for api live ev conv sc J where
  timer_script: "script_step api live ev conv st st' \<Longrightarrow> timer_step api live ev conv sc J st st'"
| timer_fire: "j \<in> J \<Longrightarrow> loop_timeout_cb (on_world ev) (bind_caller api ev sc) st j = Some st' \<Longrightarrow>
    timer_step api live ev conv sc J st st'"

text \<open>Every timer of the loop is one that a script has set; its struct and its reference are its own.\<close>

definition timers_ok :: "('e \<Rightarrow> int \<Rightarrow> lval option) \<Rightarrow> 'e bst \<Rightarrow> bool" where
  "timers_ok live st \<longleftrightarrow>
    (\<forall>j cb. cell (timers st) j = Some cb \<longrightarrow> (\<exists>t r g. cb = TimerCb t \<and> pending live j t r g st)) \<and>
    (\<forall>j j' t t' r r' g g'. pending live j t r g st \<longrightarrow> pending live j' t' r' g' st \<longrightarrow> j \<noteq> j' \<longrightarrow> t \<noteq> t' \<and> r \<noteq> r')"

lemma timers_ok_none: "timers st = [] \<Longrightarrow> timers_ok live st"
  by (simp add: timers_ok_def pending_def cell_def)

lemma timers_okE:
  assumes "timers_ok live st" and "cell (timers st) j = Some cb"
  obtains t r g where "cb = TimerCb t" "pending live j t r g st"
  using assms unfolding timers_ok_def by blast

lemma timers_ok_apart:
  "timers_ok live st \<Longrightarrow> pending live j t r g st \<Longrightarrow> pending live k t' r' g' st \<Longrightarrow> j \<noteq> k \<Longrightarrow> t \<noteq> t' \<and> r \<noteq> r'"
  unfolding timers_ok_def by blast

lemma cell_inside: "cell xs i = Some x \<Longrightarrow> i < length xs"
  by (simp add: cell_def split: if_splits)

lemma cell_end: "cell xs (length xs) = None"
  by (simp add: cell_def)

lemma cell_append: "cell (xs @ [Some y]) i = (if i = length xs then Some y else cell xs i)"
  by (auto simp: cell_def nth_append)

lemma cell_clear: "cell (xs[i := None]) j = (if i = j then None else cell xs j)"
  by (auto simp: cell_def nth_list_update)

lemma pending_same:
  assumes "timers st' = timers st" and "timer_mem (lib st') = timer_mem (lib st)"
    and "\<And>r. r \<in> timer_refs st \<Longrightarrow> live (lvm st') r = live (lvm st) r"
  shows "pending live k t r g st' \<longleftrightarrow> pending live k t r g st"
proof (cases "cell (timers st) k = Some (TimerCb t) \<and> cell (timer_mem (lib st)) t = Some r")
  case True
  then have "r \<in> timer_refs st" unfolding timer_refs_def by blast
  with assms show ?thesis by (simp add: pending_def)
qed (use assms(1,2) in \<open>auto simp: pending_def\<close>)

lemma timers_ok_same:
  assumes "timers st' = timers st" and "timer_mem (lib st') = timer_mem (lib st)"
    and "\<And>r. r \<in> timer_refs st \<Longrightarrow> live (lvm st') r = live (lvm st) r"
  shows "timers_ok live st' \<longleftrightarrow> timers_ok live st"
  unfolding timers_ok_def by (simp only: pending_same [OF assms] assms(1))

lemma pending_add:
  assumes "timers st' = timers st @ [Some (TimerCb (length (timer_mem (lib st))))]"
    and "timer_mem (lib st') = timer_mem (lib st) @ [Some q]"
    and "live (lvm st') = (live (lvm st))(q \<mapsto> LFun f)" and "live (lvm st) q = None" and "timers_ok live st"
  shows "pending live k t r g st' \<longleftrightarrow> pending live k t r g st \<or>
    k = length (timers st) \<and> t = length (timer_mem (lib st)) \<and> r = q \<and> g = f"
proof (cases "k = length (timers st)")
  case True
  then have "\<not> pending live k t r g st" using cell_inside by (fastforce simp: pending_def)
  with True show ?thesis using assms(1-4) by (auto simp: pending_def cell_append)
next
  case False
  have "t \<noteq> length (timer_mem (lib st)) \<and> r \<noteq> q" if k: "cell (timers st) k = Some (TimerCb t)" "cell (timer_mem (lib st')) t = Some r"
  proof -
    from timers_okE [OF assms(5) k(1)] obtain r' g' where p: "pending live k t r' g' st" by blast
    then have "t < length (timer_mem (lib st))" "r' \<noteq> q" using assms(4) by (auto simp: pending_def cell_inside)
    then show ?thesis using p k(2) assms(2) by (auto simp: pending_def cell_append)
  qed
  with False show ?thesis using assms(1-3) by (auto simp: pending_def cell_append cell_end)
qed

lemma timers_ok_add:
  assumes "timers st' = timers st @ [Some (TimerCb (length (timer_mem (lib st))))]"
    and "timer_mem (lib st') = timer_mem (lib st) @ [Some q]"
    and "live (lvm st') = (live (lvm st))(q \<mapsto> LFun f)" and "live (lvm st) q = None" and "timers_ok live st"
  shows "timers_ok live st'"
proof -
  note p = pending_add [OF assms]
  have old: "t < length (timer_mem (lib st)) \<and> r \<noteq> q" if "pending live j t r g st" for j t r g
    using that assms(4) by (auto simp: pending_def cell_inside)
  have "\<exists>t r g. cb = TimerCb t \<and> pending live j t r g st'" if "cell (timers st') j = Some cb" for j cb
    using that timers_okE [OF assms(5), of j cb] by (cases "j = length (timers st)") (auto simp: assms(1) cell_append p, metis)
  moreover have "t \<noteq> t' \<and> r \<noteq> r'"
    if "pending live j t r g st'" "pending live j' t' r' g' st'" "j \<noteq> j'" for j j' t t' r r' g g'
    using that timers_ok_apart [OF assms(5), of j t r g j' t' r' g'] old [of j t r g] old [of j' t' r' g'] by (auto simp: p)
  ultimately show ?thesis unfolding timers_ok_def by blast
qed

lemma pending_del:
  assumes "pending live j t r f st" and "timers_ok live st" and "timers st' = (timers st)[j := None]"
    and "timer_mem (lib st') = (timer_mem (lib st))[t := None]" and "live (lvm st') = (live (lvm st))(r := None)"
  shows "pending live k u q g st' \<longleftrightarrow> k \<noteq> j \<and> pending live k u q g st"
proof -
  have "t \<noteq> u \<and> r \<noteq> q" if "pending live k u q g st" "k \<noteq> j"
    using timers_ok_apart [OF assms(2,1) that(1)] that(2) by auto
  then show ?thesis using assms(3-5) by (auto simp: pending_def cell_clear split: if_splits)
qed

lemma timers_ok_del:
  assumes "pending live j t r f st" and "timers_ok live st" and "timers st' = (timers st)[j := None]"
    and "timer_mem (lib st') = (timer_mem (lib st))[t := None]" and "live (lvm st') = (live (lvm st))(r := None)"
  shows "timers_ok live st'"
proof -
  note p = pending_del [OF assms]
  have "\<exists>u q g. cb = TimerCb u \<and> pending live k u q g st'" if "cell (timers st') k = Some cb" for k cb
    using that timers_okE [OF assms(2), of k cb] by (auto simp: assms(3) cell_clear p split: if_splits) metis
  then show ?thesis using timers_ok_apart [OF assms(2)] unfolding timers_ok_def p by blast
qed

text \<open>The loop told to stop, with an error on its way.\<close>

definition stopped_by :: "'e libevent \<Rightarrow> lua_exc \<Rightarrow> 'e bst \<Rightarrow> 'e bst" where
  "stopped_by ev e st = set_world (raised_update (\<lambda>_. Some e))
     (st\<lparr>lib := event_base_loopbreak (on_world ev) (lib st), exiting_early := True\<rparr>)"

context lua_events begin

lemma a_timer_pending:
  "\<exists>r st1. bind_a_timer api ev conv st [LNum x, LFun g] = Some (Inr [], st1) \<and>
    pending live (length (timers st)) (length (timer_mem (lib st))) r g st1 \<and> live (lvm st) r = None"
proof -
  obtain r w where ref: "luaL_ref api (lvm st) (LFun g) = (r, w)" by fastforce
  have new: "live (lvm st) r = None" "live w r = Some (LFun g)" using ref_new [OF _ ref] by simp_all
  obtain s us where secs: "conv x = (s, us)" by fastforce
  have "live (evtimer_add ev w t s' us') = live w" for t s' us' using timer_same [of w t s' us'] by (simp add: lua_same_def)
  then show ?thesis
    using new secs
    by (simp add: bind_a_timer_def lua_checks number_law reg_ref_def ref [unfolded lvm_def] loop_add_timer_def ret_def pending_def
        on_world_def on_world0_def cell_def lvm_def set_lvm_def arg_def)
qed

lemma timer_fires:
  assumes "pending live k t r g st"
  shows "\<exists>s. loop_timeout_cb (on_world ev) (bind_caller api ev sc) st k = do {
      (res, s) \<leftarrow> lua_run sc (LFun g) [] s;
      Some (case res of Inl e \<Rightarrow> stopped_by ev (Thrown (exc_value api e)) s | Inr _ \<Rightarrow> s) } \<and>
    live (lvm s) = (live (lvm st))(r := None) \<and> timers s = (timers st)[k := None] \<and>
    timer_mem (lib s) = (timer_mem (lib st))[t := None]"
proof -
  let ?w = "timer_event_free ev (lvm st) k"
  let ?s = "st\<lparr>timers := (timers st)[k := None],
    lib := (lib st)\<lparr>timer_mem := (timer_mem (lib st))[t := None], interp := luaL_unref api ?w r\<rparr>\<rparr>"
  have same: "live ?w = live (lvm st)" "rawgeti api ?w = rawgeti api (lvm st)"
    using timer_free_same [of "lvm st" k] by (simp_all add: lua_same_def)
  have "loop_timeout_cb (on_world ev) (bind_caller api ev sc) st k = do {
      (res, s) \<leftarrow> lua_run sc (LFun g) [] ?s;
      Some (case res of Inl e \<Rightarrow> stopped_by ev (Thrown (exc_value api e)) s | Inr _ \<Rightarrow> s) }"
  proof -
    let ?u = "st\<lparr>lib := (lib st)\<lparr>interp := ?w\<rparr>, timers := (timers st)[k := None]\<rparr>"
    have "timer_cb api ev (lua_run sc) t ?u = do {
        (res, s) \<leftarrow> lua_run sc (LFun g) [] ?s;
        case res of
          Inl e \<Rightarrow> Some (Inl (Thrown (exc_value api e)),
            s\<lparr>lib := event_base_loopbreak (on_world ev) (lib s), exiting_early := True\<rparr>)
        | Inr _ \<Rightarrow> Some (Inr [], s) }"
      using assms ref_get [of "lvm st" r]
      by (cases "lua_run sc (LFun g) [] ?s")
        (auto simp: pending_def timer_cb_def reg_get_def reg_unref_def set_lvm_def lvm_def loop_exit_early_def ret_def
          same [unfolded lvm_def] split: sum.split)
    then have "bind_caller api ev sc (TimerCb t) OnTimer ?u = do {
        (res, s) \<leftarrow> lua_run sc (LFun g) [] ?s;
        Some (case res of Inl e \<Rightarrow> stopped_by ev (Thrown (exc_value api e)) s | Inr _ \<Rightarrow> s) }"
      by (cases "lua_run sc (LFun g) [] ?s") (auto simp: bind_caller_def run_cb_def stopped_by_def split: sum.split)
    moreover have "loop_timeout_cb (on_world ev) (bind_caller api ev sc) st k = bind_caller api ev sc (TimerCb t) OnTimer ?u"
      using assms by (simp add: pending_def loop_timeout_cb_def on_world_def on_world0_def lvm_def)
    ultimately show ?thesis by simp
  qed
  moreover have "live (lvm ?s) = (live (lvm st))(r := None)"
    using assms same by (simp add: lvm_def pending_def unref_law)
  moreover have "timers ?s = (timers st)[k := None]" "timer_mem (lib ?s) = (timer_mem (lib st))[t := None]" by simp_all
  ultimately show ?thesis by blast
qed

lemma a_timer_runs:
  assumes "bind_a_timer api ev conv st args = Some (res, st')"
  shows "st' = st \<or> (\<exists>q f. timers st' = timers st @ [Some (TimerCb (length (timer_mem (lib st))))] \<and>
    timer_mem (lib st') = timer_mem (lib st) @ [Some q] \<and>
    live (lvm st') = (live (lvm st))(q \<mapsto> LFun f) \<and> live (lvm st) q = None)"
proof (cases "\<exists>f. arg args 2 = LFun f")
  case True
  then obtain f where f: "arg args 2 = LFun f" ..
  obtain q w where ref: "luaL_ref api (lvm st) (LFun f) = (q, w)" by fastforce
  have new: "live (lvm st) q = None" "live w = (live (lvm st))(q \<mapsto> LFun f)" using ref_new [OF _ ref] by simp_all
  have "live (evtimer_add ev w u s' us') = live w" for u s' us' using timer_same [of w u s' us'] by (simp add: lua_same_def)
  then show ?thesis
    using assms new
    by (auto simp: bind_a_timer_def lua_checks f reg_ref_def ref [unfolded lvm_def] loop_add_timer_def ret_def
        on_world_def on_world0_def lvm_def set_lvm_def split: if_splits option.splits prod.splits)
next
  case False
  then have "\<not> is_LFun (arg args 2)" by (cases "arg args 2") simp_all
  then show ?thesis using assms by (auto simp: bind_a_timer_def lua_checks split: if_splits option.splits)
qed

lemma stop_loop_runs:
  assumes "bind_stop_loop ev st args = Some (res, st')"
  shows "timers st' = timers st" "timer_mem (lib st') = timer_mem (lib st)" "live (lvm st') = live (lvm st)"
  using assms break_same [of "lvm st"]
  by (auto simp: bind_stop_loop_def require_exactly_def loop_exit_early_def ret_def on_world_def on_world0_def lvm_def lua_same_def
      split: if_splits Option.bind_splits)

text \<open>Every step keeps the timers in order, and a timer that does not fire stays pending.\<close>

lemma script_step_ok:
  assumes "script_step api live ev conv st st'" and "timers_ok live st"
  shows "timers_ok live st' \<and> (pending live k t r g st \<longrightarrow> pending live k t r g st')"
  using assms(1)
proof cases
  case (script_set args res)
  from a_timer_runs [OF this] show ?thesis
  proof (elim disjE exE conjE)
    fix q f
    assume a: "timers st' = timers st @ [Some (TimerCb (length (timer_mem (lib st))))]"
      "timer_mem (lib st') = timer_mem (lib st) @ [Some q]"
      "live (lvm st') = (live (lvm st))(q \<mapsto> LFun f)" "live (lvm st) q = None"
    show ?thesis using timers_ok_add [OF a assms(2)] pending_add [OF a assms(2)] by blast
  qed (use assms(2) in simp)
next
  case (script_stop args res)
  then show ?thesis using timers_ok_same pending_same stop_loop_runs assms(2) by metis
next
  case script_other
  then show ?thesis using timers_ok_same pending_same assms(2) by metis
qed

lemma script_steps_ok:
  assumes "(script_step api live ev conv)\<^sup>*\<^sup>* st st'" and "timers_ok live st"
  shows "timers_ok live st' \<and> (pending live k t r g st \<longrightarrow> pending live k t r g st')"
  using assms by (induction rule: rtranclp_induct) (blast dest: script_step_ok)+

lemma stopped_by_parts:
  "timers (stopped_by ev e st) = timers st" "timer_mem (lib (stopped_by ev e st)) = timer_mem (lib st)"
  "live (lvm (stopped_by ev e st)) = live (lvm st)"
  using break_same [of "lvm st"] by (simp_all add: stopped_by_def set_world_def lvm_def on_world_def on_world0_def lua_same_def)

lemma fireE:
  assumes "loop_timeout_cb (on_world ev) (bind_caller api ev sc) st j = Some st'" and "timers_ok live st"
  obtains u q f s res s1 where "pending live j u q f st" "timers s = (timers st)[j := None]"
    "timer_mem (lib s) = (timer_mem (lib st))[u := None]" "live (lvm s) = (live (lvm st))(q := None)"
    "lua_run sc (LFun f) [] s = Some (res, s1)" "timers st' = timers s1" "timer_mem (lib st') = timer_mem (lib s1)"
    "live (lvm st') = live (lvm s1)"
proof -
  obtain cb where "cell (timers st) j = Some cb" using assms(1) by (auto simp: loop_timeout_cb_def split: Option.bind_splits)
  then obtain u q f where p: "pending live j u q f st" using timers_okE [OF assms(2)] by metis
  obtain s where s: "loop_timeout_cb (on_world ev) (bind_caller api ev sc) st j = do {
      (res, s) \<leftarrow> lua_run sc (LFun f) [] s;
      Some (case res of Inl e \<Rightarrow> stopped_by ev (Thrown (exc_value api e)) s | Inr _ \<Rightarrow> s) }"
    and del: "timers s = (timers st)[j := None]" "timer_mem (lib s) = (timer_mem (lib st))[u := None]"
      "live (lvm s) = (live (lvm st))(q := None)"
    using timer_fires [OF p, of sc] by blast
  obtain res s1 where s1: "lua_run sc (LFun f) [] s = Some (res, s1)"
    "st' = (case res of Inl e \<Rightarrow> stopped_by ev (Thrown (exc_value api e)) s1 | Inr _ \<Rightarrow> s1)"
    using assms(1) unfolding s by (auto split: Option.bind_splits)
  have "timers st' = timers s1" "timer_mem (lib st') = timer_mem (lib s1)" "live (lvm st') = live (lvm s1)"
    by (simp_all add: s1(2) stopped_by_parts split: sum.split)
  with p del s1(1) show ?thesis by (rule that)
qed

lemma fire_ok:
  assumes sc: "timer_scripts api live ev conv sc"
    and fire: "loop_timeout_cb (on_world ev) (bind_caller api ev sc) st j = Some st'" and ok: "timers_ok live st"
  shows "timers_ok live st' \<and> (k \<noteq> j \<longrightarrow> pending live k t r g st \<longrightarrow> pending live k t r g st')"
  using fire ok
proof (rule fireE)
  fix u q f s res s1
  assume p: "pending live j u q f st" and del: "timers s = (timers st)[j := None]"
    "timer_mem (lib s) = (timer_mem (lib st))[u := None]" "live (lvm s) = (live (lvm st))(q := None)"
    and run: "lua_run sc (LFun f) [] s = Some (res, s1)"
    and eq: "timers st' = timers s1" "timer_mem (lib st') = timer_mem (lib s1)" "live (lvm st') = live (lvm s1)"
  have "timers_ok live st' \<longleftrightarrow> timers_ok live s1" "pending live k t r g st' \<longleftrightarrow> pending live k t r g s1"
    using timers_ok_same pending_same eq by metis+
  moreover have "(script_step api live ev conv)\<^sup>*\<^sup>* s s1" using sc run by (simp add: timer_scripts_def)
  note script_steps_ok [OF this timers_ok_del [OF p ok del], of k t r g]
  ultimately show ?thesis using pending_del [OF p ok del, of k t r g] by blast
qed

text \<open>A timer that has fired does not come back.\<close>

lemma script_step_gone:
  assumes "script_step api live ev conv st st'" and "k < length (timers st)" and "cell (timers st) k = None"
  shows "k < length (timers st') \<and> cell (timers st') k = None"
  using assms(1)
proof cases
  case (script_set args res)
  from a_timer_runs [OF this] show ?thesis using assms(2,3) by (auto simp: cell_append)
next
  case (script_stop args res)
  then show ?thesis using stop_loop_runs(1) assms(2,3) by metis
qed (use assms(2,3) in simp)

lemma script_steps_gone:
  assumes "(script_step api live ev conv)\<^sup>*\<^sup>* st st'" and "k < length (timers st)" and "cell (timers st) k = None"
  shows "k < length (timers st') \<and> cell (timers st') k = None"
  using assms by (induction rule: rtranclp_induct) (blast dest: script_step_gone)+

lemma fire_gone:
  assumes sc: "timer_scripts api live ev conv sc"
    and fire: "loop_timeout_cb (on_world ev) (bind_caller api ev sc) st j = Some st'" and ok: "timers_ok live st"
    and gone: "j = k \<or> k < length (timers st) \<and> cell (timers st) k = None"
  shows "k < length (timers st') \<and> cell (timers st') k = None"
  using fire ok
proof (rule fireE)
  fix u q f s res s1
  assume p: "pending live j u q f st" and del: "timers s = (timers st)[j := None]"
    and run: "lua_run sc (LFun f) [] s = Some (res, s1)" and eq: "timers st' = timers s1"
  have "k < length (timers s) \<and> cell (timers s) k = None"
    using p gone cell_inside by (fastforce simp: del cell_clear pending_def)
  moreover have "(script_step api live ev conv)\<^sup>*\<^sup>* s s1" using sc run by (simp add: timer_scripts_def)
  ultimately show ?thesis using script_steps_gone unfolding eq by blast
qed

lemma timer_steps_ok:
  assumes sc: "timer_scripts api live ev conv sc"
    and "(timer_step api live ev conv sc J)\<^sup>*\<^sup>* st st'" and "timers_ok live st"
  shows "timers_ok live st' \<and> (k \<notin> J \<longrightarrow> pending live k t r g st \<longrightarrow> pending live k t r g st')"
  using assms(2,3)
proof (induction rule: rtranclp_induct)
  case (step s s')
  from step(2) show ?case
    using step(3,4) script_step_ok [of conv s s' k t r g] fire_ok [OF sc, of s _ s' k t r g] by cases blast+
qed simp

lemma timer_steps_gone:
  assumes sc: "timer_scripts api live ev conv sc"
    and "(timer_step api live ev conv sc J)\<^sup>*\<^sup>* st st'" and "timers_ok live st"
    and "k < length (timers st)" and "cell (timers st) k = None"
  shows "k < length (timers st') \<and> cell (timers st') k = None"
  using assms(2-)
proof (induction rule: rtranclp_induct)
  case (step s s')
  have ok: "timers_ok live s" using timer_steps_ok [OF sc step(1,4)] by blast
  from step(2) show ?case
    using step(3,5,6) step(4) script_step_gone [of conv s s' k] fire_gone [OF sc _ ok, of _ s' k] by cases blast+
qed simp

end

text \<open>Closing an open socket is such a step, when no timer holds one of its five references.\<close>

lemma close_is_script_step:
  assumes "lua_events api live ev input" and "open_socket api live st a sd h" and "set (sock_refs sd) \<inter> timer_refs st = {}"
    and "bind_loop_sock_close api ev st [LSock a] = Some (res, st')"
  shows "script_step api live ev conv st st'"
proof (rule script_other)
  have st': "st' = closed_state api ev st a sd h" using close_open [OF assms(2), of ev] assms(4) by simp
  then show "timers st' = timers st" "timer_mem (lib st') = timer_mem (lib st)"
    by (simp_all add: closed_state_def free_sock_def set_lvm_def put_sd_def)
  fix r assume "r \<in> timer_refs st"
  then show "live (lvm st') r = live (lvm st) r"
    using assms(3) lua_events.closed_live(1) [OF assms(1,2)] by (auto simp: st' restrict_map_def)
qed

text \<open>C32: In every run of a program without timers at its start, a timer that a script sets keeps its function in the
  registry until it fires, through any setting and firing of other timers, stops of the loop and
  whatever else leaves the timers alone and gives back no reference that a timer holds. When it
  fires, the function is called once: the timer, its struct and the reference are freed before,
  and it never comes back. An error of the function stops the loop and is passed on.\<close>

theorem bind_timer_fires:
  assumes "lua_events api live ev input" and "timer_scripts api live ev conv sc"
    and "timers st0 = []" and "(timer_step api live ev conv sc UNIV)\<^sup>*\<^sup>* st0 st"
  shows "\<exists>k t r st1. bind_a_timer api ev conv st [LNum x, LFun g] = Some (Inr [], st1) \<and>
    cell (timers st) k = None \<and> live (lvm st) r = None \<and> pending live k t r g st1 \<and>
    (\<forall>st2. (timer_step api live ev conv sc (- {k}))\<^sup>*\<^sup>* st1 st2 \<longrightarrow> pending live k t r g st2 \<and>
      (\<exists>s. loop_timeout_cb (on_world ev) (bind_caller api ev sc) st2 k = do {
          (res, s) \<leftarrow> lua_run sc (LFun g) [] s;
          Some (case res of Inl e \<Rightarrow> stopped_by ev (Thrown (exc_value api e)) s | Inr _ \<Rightarrow> s) } \<and>
        live (lvm s) = (live (lvm st2))(r := None) \<and> timers s = (timers st2)[k := None] \<and>
        timer_mem (lib s) = (timer_mem (lib st2))[t := None]) \<and>
      (\<forall>st3 st4. loop_timeout_cb (on_world ev) (bind_caller api ev sc) st2 k = Some st3 \<longrightarrow>
        (timer_step api live ev conv sc UNIV)\<^sup>*\<^sup>* st3 st4 \<longrightarrow> cell (timers st4) k = None))"
proof -
  note ok = lua_events.timer_steps_ok [OF assms(1,2)] and gone = lua_events.timer_steps_gone [OF assms(1,2)]
  note fire = lua_events.fire_ok [OF assms(1,2)] lua_events.fire_gone [OF assms(1,2)]
  let ?k = "length (timers st)" and ?t = "length (timer_mem (lib st))"
  obtain r st1 where s1: "bind_a_timer api ev conv st [LNum x, LFun g] = Some (Inr [], st1)"
      "pending live ?k ?t r g st1" "live (lvm st) r = None"
    using lua_events.a_timer_pending [OF assms(1)] by blast
  have "timers_ok live st" using ok [OF assms(4) timers_ok_none [OF assms(3)]] by blast
  then have ok1: "timers_ok live st1" using lua_events.script_step_ok [OF assms(1) script_set [OF s1(1)]] by blast
  have "pending live ?k ?t r g st2 \<and>
      (\<forall>st3 st4. loop_timeout_cb (on_world ev) (bind_caller api ev sc) st2 ?k = Some st3 \<longrightarrow>
        (timer_step api live ev conv sc UNIV)\<^sup>*\<^sup>* st3 st4 \<longrightarrow> cell (timers st4) ?k = None)"
    if "(timer_step api live ev conv sc (- {?k}))\<^sup>*\<^sup>* st1 st2" for st2
  proof (intro conjI allI impI)
    show "pending live ?k ?t r g st2" using ok [OF that ok1] s1(2) by simp
    fix st3 st4
    assume 3: "loop_timeout_cb (on_world ev) (bind_caller api ev sc) st2 ?k = Some st3"
      and 4: "(timer_step api live ev conv sc UNIV)\<^sup>*\<^sup>* st3 st4"
    have "timers_ok live st2" using ok [OF that ok1] by blast
    then show "cell (timers st4) ?k = None" using fire [OF 3] gone [OF 4] by blast
  qed
  with s1 lua_events.timer_fires [OF assms(1)] show ?thesis
    by (intro exI [of _ ?k] exI [of _ ?t] exI [of _ r] exI [of _ st1]) (auto simp: cell_end)
qed

section \<open>The prompt\<close>

text \<open>A line at the prompt that returns a value breaks every connection accepted later: the value stays at the bottom
  of the stack and gets the metatable in place of the new socket, whose methods all raise.\<close>

theorem prompt_values_break_sockets:
  assumes "lua_events api live ev input" and "readline_lua (lib st)"
    and "dostring sc line st = Some (Inr (v # vs), st1)" and "lua_stack (lib st1) = []"
    and "v \<noteq> LTab t" and "v \<noteq> LSock (length (sock_mem (lib st1)))"
    and "cell (listeners st1) l = Some (AcceptCb b)" and "get_ld st1 b = Some ld"
    and "live (lvm st1) (handler_ref ld) = Some (LTab t)" and "callbacks api (lvm st1) t fr fe fc fx"
    and "\<And>e h. fst (bufferevent_socket_new ev e h fd)"
    and "\<not> has_metatable api (lvm st1) (LSock (length (sock_mem (lib st1)))) SOCK_META"
  shows "\<exists>a st2 s. got_line api ev sc (Some line) st = Some (Inr [], st2) \<and>
    bind_accept_conn api ev sc st2 l fd True ip = do {
      (r, s) \<leftarrow> lua_run sc (LFun fc) [LSock a] s;
      Some (case r of Inl e \<Rightarrow> set_world (raised_update (\<lambda>_. Some e)) s | Inr _ \<Rightarrow> s) } \<and>
    (\<forall>(name, f) \<in> set (socket_methods api ev place). \<forall>rest. \<exists>e. f s (LSock a # rest) = Some (Inl e, s))"
proof -
  define st2 where "st2 = set_world (\<lambda>w. w\<lparr>lua_stack := v # vs\<rparr>) st1"
  let ?a = "length (sock_mem (lib st2))" and ?h = "length (socks st2)"
  have st2: "lvm st2 = lvm st1" "listeners st2 = listeners st1" "get_ld st2 b = get_ld st1 b"
    "lua_stack (lib st2) = v # vs" "sock_mem (lib st2) = sock_mem (lib st1)"
    by (simp_all add: st2_def set_world_def lvm_def get_ld_def)
  have "hd (lua_stack (lib st2) @ [LSock ?a]) \<noteq> LTab t" using assms(5) by (simp add: st2)
  obtain sd0 sd w s where s: "bind_accept_conn api ev sc st2 l fd True ip =
        bind_caller api ev sc (SockConnectCb ?a) (OnConnect ?h) s"
      "get_sd s ?a = Some sd0" "sd_state sd0 = SOCKET_CONNECTING" "sd0\<lparr>sd_state := SOCKET_OPEN\<rparr> = sd"
      "put_sd ?a sd s = accepted ?a sd w st2"
      "made api live (lvm st2) ?a fr fe fc fx sd w" "\<not> has_metatable api w (LSock ?a) SOCK_META"
    using lua_events.accept_opens [OF assms(1), of st2 l b ld t fr fe fc fx ?a fd ?h sc ip] assms(5-12) st2 by auto
  let ?s = "accepted ?a sd w st2"
  have reg: "reg_get api ?s (ref_connect (cb_refs sd0)) = LFun fc" "reg_get api ?s (sd_ref sd0) = LSock ?a"
    using s(4,6) lua_interpreter.ref_get [OF lua_events.axioms(1) [OF assms(1)]] by (auto simp: reg_get_def made_def)
  have "bind_accept_conn api ev sc st2 l fd True ip = do {
      (r, s) \<leftarrow> lua_run sc (LFun fc) [LSock ?a] ?s;
      Some (case r of Inl e \<Rightarrow> set_world (raised_update (\<lambda>_. Some e)) s | Inr _ \<Rightarrow> s) }"
    using reg s(5) by (simp add: s(1-4) bind_caller_def run_cb_def bind_loop_connect_cb_def sum.case_distrib)
  moreover have "got_line api ev sc (Some line) st = Some (Inr [], st2)"
    using assms(2-4) by (simp add: got_line_def ret_def st2_def set_world_def)
  moreover have "\<forall>(name, f) \<in> set (socket_methods api ev place). \<forall>rest. \<exists>e. f ?s (LSock ?a # rest) = Some (Inl e, ?s)"
    using no_metatable [of api ?s ?a _ _ ev place] s(7) by auto
  ultimately show ?thesis by blast
qed

text \<open>A turn of the loop in which the terminal is ready.\<close>

definition stdin_turn :: "'e lua_api \<Rightarrow> 'e libevent \<Rightarrow> 'e scripts \<Rightarrow> addr \<Rightarrow> 'e bst \<Rightarrow> (int \<times> 'e bst) run" where
  "stdin_turn api ev sc x st = do {
     st \<leftarrow> loop_watch_fd_cb (bind_caller api ev sc) st x;
     Some (0, st) }"

text \<open>A line at the prompt that raises a value that is no string (a table, say) ends the loop of the
  program: the callback of readline checks for a string outside any protected call.\<close>

theorem prompt_error_value_ends_loop:
  assumes "cell (watchers st) x = Some wt" and "watch_cb wt = StdinCb" and "readline_lua (lib st)"
    and "read_char sc (lvm st) = (Some (Some line), e)" and "dostring sc line (set_lvm e st) = Some (Inl (Thrown v), st1)"
    and "as_lstring api v = None" and "raised (lib st) = None" and "\<not> exiting_early st"
  shows "\<exists>st2. runloop (stdin_turn api ev sc x) (bind_caller api ev sc) st =
    Some (Inl (BadArg (-1) ''string expected''), st2)"
proof -
  let ?st = "set_world (raised_update (\<lambda>_. Some (BadArg (-1) ''string expected''))) st1"
  have "readline_lua (lib (set_lvm e st))" using assms(3) by (simp add: set_lvm_def)
  then have "stdin_turn api ev sc x st = Some (0, ?st)"
    using assms(1,2,4-6)
    by (simp add: stdin_turn_def loop_watch_fd_cb_def bind_caller_def run_cb_def stdin_callback_fn_def got_line_def)
  from runloop_raise [of "stdin_turn api ev sc x", OF this assms(7) _ assms(8)]
  show ?thesis by (simp add: set_world_def)
qed

section \<open>The log\<close>

text \<open>The bytes that a call of the log writes, none when it is filtered out.\<close>

definition logged :: "logger_state \<Rightarrow> ('o \<Rightarrow> int \<Rightarrow> string \<Rightarrow> 'o) \<Rightarrow> int \<Rightarrow> string \<Rightarrow> string \<Rightarrow> 'o \<Rightarrow> 'o" where
  "logged ls out level md msg o' =
    (if level < log_level ls then o' else out o' (log_fd ls) (log_line level md msg @ [CHR 0x0A]))"

lemma logger_fits:
  assumes "length junk = 256" and "length (log_line level md msg) \<le> 254"
  shows "logger ls junk level md msg =
    Some (if level < log_level ls then None else Some (log_fd ls, log_line level md msg @ [CHR 0x0A]))"
  using assms print_line_fits [OF assms(1), of "''['' @ md @ ''] ('' @ log_level_message level @ '') ''" msg]
  by (simp add: logger_def log_line_def)

lemma position_nth: "position x xs = Some n \<Longrightarrow> n < length xs \<and> xs ! n = x"
  by (induction xs arbitrary: n) (auto split: if_splits)

lemma log_fn_run:
  assumes "position name level_names = Some n" and "c_string s = name"
  shows "bind_log_fn api out junk st [LStr s, LStr m, LStr t] = do {
    w \<leftarrow> logger (fst st) junk (level_correspondence ! n) (c_string m) (c_string t);
    case w of None \<Rightarrow> ret [] st | Some (fd, line) \<Rightarrow> ret [] (fst st, out (snd st) fd line) }"
  using assms position_nth [OF assms(1)]
  by (simp add: bind_log_fn_def luaL_checkoption_def lua_checks arg_def numeral_2_eq_2 numeral_3_eq_3 level_correspondence_def level_names_def)

text \<open>After a script has set a level by its name, a call of the log with a level by name writes
  its line, if it has at most 254 characters, exactly when the level is not below the one set;
  from 256 characters on a line that is to be written ends the process. A message of level
  \<open>unknown\<close>, or of none, is never written.\<close>

theorem bind_log_levels:
  fixes lv s m t :: bytes
  assumes "length junk = 256" and "position (c_string lv) level_names = Some n" and "n < 6"
    and "position (c_string s) level_names = Some k"
  defines "line \<equiv> log_line (level_correspondence ! k) (c_string m) (c_string t)"
  shows "\<exists>ls'. bind_log_set_level api wh (ls, o0) [LStr lv] = Some (Inr [], ls', o0) \<and>
    log_fd ls' = log_fd ls \<and> log_level ls' = level_correspondence ! n \<and>
    (length line \<le> 254 \<longrightarrow> bind_log_fn api out junk (ls', o0) [LStr s, LStr m, LStr t] =
      Some (Inr [], ls', logged ls' out (level_correspondence ! k) (c_string m) (c_string t) o0)) \<and>
    (256 \<le> length line \<and> length line < 2 ^ 31 \<and> log_level ls' \<le> level_correspondence ! k \<longrightarrow>
      bind_log_fn api out junk (ls', o0) [LStr s, LStr m, LStr t] = None) \<and>
    bind_log_fn api out junk (ls', o0) [LNil, LStr m, LStr t] = Some (Inr [], ls', o0)"
proof -
  have n: "level_correspondence ! n \<noteq> -1" "LOG_ALL \<le> level_correspondence ! n" "level_correspondence ! n \<le> LOG_NONE"
    "n < length level_correspondence"
    using assms(3) by (auto simp: level_correspondence_def LOG_ALL_def LOG_NONE_def less_Suc_eq numeral_eq_Suc)
  let ?ls = "ls\<lparr>log_level := level_correspondence ! n\<rparr>"
  have "bind_log_set_level api wh (ls, o0) [LStr lv] = Some (Inr [], ?ls, o0)"
    using assms(2) n
    by (simp add: bind_log_set_level_def luaL_checkoption_def lua_checks arg_def logger_set_level_def ret_def)
  moreover have "bind_log_fn api out junk (?ls, o0) [LStr s, LStr m, LStr t] =
      Some (Inr [], ?ls, logged ?ls out (level_correspondence ! k) (c_string m) (c_string t) o0)" if "length line \<le> 254"
    using log_fn_run [OF assms(4) refl, of api out junk "(?ls, o0)" m t] logger_fits [OF assms(1), of _ _ _ ?ls] that
    by (simp add: line_def logged_def ret_def)
  moreover have "bind_log_fn api out junk (?ls, o0) [LStr s, LStr m, LStr t] = None"
    if "256 \<le> length line \<and> length line < 2 ^ 31 \<and> log_level ?ls \<le> level_correspondence ! k"
    using log_fn_run [OF assms(4) refl, of api out junk "(?ls, o0)" m t] that
      print_line_overruns [OF assms(1), of "''['' @ c_string m @ ''] ('' @ log_level_message (level_correspondence ! k) @ '') ''" "c_string t"]
    by (simp add: line_def logger_def log_line_def)
  moreover have "bind_log_fn api out junk (?ls, o0) [LNil, LStr m, LStr t] = Some (Inr [], ?ls, o0)"
    using n(2) by (simp add: bind_log_fn_def luaL_checkoption_def lua_checks arg_def numeral_2_eq_2 numeral_3_eq_3 level_names_def
        level_correspondence_def logger_def ret_def LOG_ALL_def)
  ultimately show ?thesis by (intro exI [of _ ?ls]) auto
qed

section \<open>Examples\<close>

text \<open>Scripts whose functions set a further timer.\<close>

definition toy_ticking :: "toy_io scripts" where
  "toy_ticking = toy_scripts\<lparr>lua_run := \<lambda>f args st. bind_a_timer toy_lua toy_ev (\<lambda>x. (1, 0)) st [LNum (Fin 1), LFun 5]\<rparr>"

lemma toy_ticking_scripts: "timer_scripts toy_lua toy_live toy_ev (\<lambda>x. (1, 0)) toy_ticking"
  unfolding timer_scripts_def by (auto simp: toy_ticking_def intro!: r_into_rtranclp script_set)

theorem bind_timer_fires_witness:
  "\<exists>k t r st1 st2 s. bind_a_timer toy_lua toy_ev (\<lambda>x. (1, 0)) toy_listening [LNum (Fin 1), LFun 3] = Some (Inr [], st1) \<and>
    bind_a_timer toy_lua toy_ev (\<lambda>x. (1, 0)) st1 [LNum (Fin 2), LFun 4] = Some (Inr [], st2) \<and>
    pending toy_live k t r 3 st2 \<and>
    loop_timeout_cb (on_world toy_ev) (bind_caller toy_lua toy_ev toy_ticking) st2 k = Some s \<and> cell (timers s) k = None"
proof -
  let ?conv = "\<lambda>x :: lnum. (1 :: int, 0 :: int)"
  let ?steps = "\<lambda>J. (timer_step toy_lua toy_live toy_ev ?conv toy_ticking J)\<^sup>*\<^sup>*"
  have set: "\<exists>st'. bind_a_timer toy_lua toy_ev ?conv st [LNum x, LFun f] = Some (Inr [], st')" for st :: "toy_io bst" and x f
    using toy_events.a_timer_pending [of ?conv st x f] by blast
  have none: "timers toy_listening = []" by (simp add: toy_listening_def toy_loop_def)
  from bind_timer_fires [OF toy_events.lua_events_axioms toy_ticking_scripts none rtranclp.rtrancl_refl, of "Fin 1" 3]
  obtain k t r and st1 :: "toy_io bst" where 1:
      "bind_a_timer toy_lua toy_ev ?conv toy_listening [LNum (Fin 1), LFun 3] = Some (Inr [], st1)"
    and fires: "\<forall>st2. ?steps (- {k}) st1 st2 \<longrightarrow> pending toy_live k t r 3 st2 \<and>
      (\<exists>s. loop_timeout_cb (on_world toy_ev) (bind_caller toy_lua toy_ev toy_ticking) st2 k = do {
          (res, s) \<leftarrow> lua_run toy_ticking (LFun 3) [] s;
          Some (case res of Inl e \<Rightarrow> stopped_by toy_ev (Thrown (exc_value (toy_lua :: toy_io lua_api) e)) s | Inr _ \<Rightarrow> s) } \<and>
        toy_live (lvm s) = (toy_live (lvm st2))(r := None) \<and> timers s = (timers st2)[k := None] \<and>
        timer_mem (lib s) = (timer_mem (lib st2))[t := None]) \<and>
      (\<forall>st3 st4. loop_timeout_cb (on_world toy_ev) (bind_caller toy_lua toy_ev toy_ticking) st2 k = Some st3 \<longrightarrow>
        ?steps UNIV st3 st4 \<longrightarrow> cell (timers st4) k = None)"
    by (elim exE conjE) (rule that)
  obtain st2 where 2: "bind_a_timer toy_lua toy_ev ?conv st1 [LNum (Fin 2), LFun 4] = Some (Inr [], st2)" using set by blast
  then have "?steps (- {k}) st1 st2" by (intro r_into_rtranclp timer_script script_set)
  with fires obtain s where p: "pending toy_live k t r 3 st2"
    and f: "loop_timeout_cb (on_world toy_ev) (bind_caller toy_lua toy_ev toy_ticking) st2 k = do {
        (res, s) \<leftarrow> lua_run toy_ticking (LFun 3) [] s;
        Some (case res of Inl e \<Rightarrow> stopped_by toy_ev (Thrown (exc_value (toy_lua :: toy_io lua_api) e)) s | Inr _ \<Rightarrow> s) }"
    and "\<forall>st3 st4. loop_timeout_cb (on_world toy_ev) (bind_caller toy_lua toy_ev toy_ticking) st2 k = Some st3 \<longrightarrow>
      ?steps UNIV st3 st4 \<longrightarrow> cell (timers st4) k = None" by blast
  moreover obtain s' where "lua_run toy_ticking (LFun 3) [] s = Some (Inr [], s')"
    using set [of s "Fin 1" 5] by (simp add: toy_ticking_def) blast
  ultimately have "loop_timeout_cb (on_world toy_ev) (bind_caller toy_lua toy_ev toy_ticking) st2 k = Some s'"
    "cell (timers s') k = None" by auto
  with 1 2 p show ?thesis by blast
qed

theorem prompt_values_break_sockets_witness:
  "\<exists>a st2 s. got_line toy_lua toy_ev toy_scripts (Some ''return 5'') toy_listening = Some (Inr [], st2) \<and>
    bind_accept_conn toy_lua toy_ev toy_scripts st2 0 7 True ''127.0.0.1'' = Some s \<and>
    (\<forall>(name, f) \<in> set (socket_methods toy_lua toy_ev (\<lambda>a. Fin 0)). \<forall>rest. \<exists>e. f s (LSock a # rest) = Some (Inl e, s))"
proof -
  have "dostring toy_scripts ''return 5'' toy_listening = Some (Inr [LNum (Fin 5)], toy_listening)"
    by (simp add: toy_scripts_def ret_def)
  moreover have "readline_lua (lib toy_listening)"
    by (simp add: toy_listening_def toy_loop_def toy_world_def)
  moreover have "lua_run toy_scripts (LFun 3) [LSock a] s = Some (Inr [], s)" for a s
    by (simp add: toy_scripts_def toy_run_def ret_def)
  moreover have "toy_live (lvm toy_listening) (handler_ref
      \<lparr>ld_ll = Some 0, ld_port = 80, handler_ref = 0, listener_ref = LUA_REFNIL, creation_location = []\<rparr>) = Some (LTab 0)"
    using toy_listening_vm(1) by simp
  ultimately show ?thesis
    using prompt_values_break_sockets [OF toy_events.lua_events_axioms, of toy_listening toy_scripts "''return 5''"
        "LNum (Fin 5)" "[]" toy_listening 0 0 0 _ 1 2 3 4 7 "''127.0.0.1''" "\<lambda>a. Fin 0"]
      toy_listening_parts(1-3,6) toy_listening_vm(2,3) toy_socket_new
    by auto
qed

definition toy_prompt :: "toy_io bst" where
  "toy_prompt = toy_listening\<lparr>watchers := [Some \<lparr>watch_fd = 0, watch_cb = StdinCb, watch_active = True\<rparr>]\<rparr>"

text \<open>The user enters \<open>error({})\<close>.\<close>

definition toy_error_line :: "toy_io scripts" where
  "toy_error_line = toy_scripts\<lparr>read_char := (\<lambda>e. (Some (Some ''error({})''), e)),
     dostring := (\<lambda>s st. Some (Inl (Thrown (LTab 9)), st))\<rparr>"

theorem prompt_error_value_ends_loop_witness:
  "\<exists>st2. runloop (stdin_turn toy_lua toy_ev toy_error_line 0) (bind_caller toy_lua toy_ev toy_error_line) toy_prompt =
    Some (Inl (BadArg (-1) ''string expected''), st2)"
  by (rule prompt_error_value_ends_loop [where wt = "\<lparr>watch_fd = 0, watch_cb = StdinCb, watch_active = True\<rparr>" and v = "LTab 9"
        and line = "''error({})''" and e = "lvm toy_prompt"])
    (simp_all add: lvm_def toy_prompt_def toy_error_line_def toy_listening_def toy_loop_def toy_world_def cell_def set_lvm_def)

lemma c_string_lua: "CHR 0x00 \<notin> set s \<Longrightarrow> c_string (lua_bytes s) = s"
proof (induction s)
  case (Cons c s)
  have "(of_nat (of_char c) :: u8) \<noteq> 0" "unat (of_nat (of_char c) :: u8) = of_char c"
    using Cons.prems of_char_eq_iff [where ?'a = nat, of c "CHR 0x00"] by (auto simp: unat_of_nat word_of_nat_eq_0_iff dvd_eq_mod_eq_0)
  then show ?case using Cons by (simp add: c_string_def lua_bytes_def)
qed (simp add: c_string_def lua_bytes_def)

theorem bind_log_levels_witness:
  "\<exists>ls'. bind_log_set_level (toy_lua :: toy_io lua_api) (\<lambda>o'. []) (\<lparr>log_level = 1, log_fd = 2\<rparr>, [] :: string list) [LStr (lua_bytes ''warn'')] = Some (Inr [], ls', []) \<and>
    bind_log_fn (toy_lua :: toy_io lua_api) (\<lambda>o' fd line. o' @ [line]) (replicate 256 CHR 0x00) (ls', [])
      [LStr (lua_bytes ''err''), LStr (lua_bytes ''m''), LStr (lua_bytes ''t'')] = Some (Inr [], ls', [''[m] (error) t'' @ [CHR 0x0A]])"
proof -
  have s: "c_string (lua_bytes ''warn'') = ''warn''" "c_string (lua_bytes ''err'') = ''err''"
    "c_string (lua_bytes ''m'') = ''m''" "c_string (lua_bytes ''t'') = ''t''"
    by (simp_all add: c_string_lua)
  show ?thesis
    using bind_log_levels [of "replicate 256 CHR 0x00" "lua_bytes ''warn''" 2 "lua_bytes ''err''" 3 "toy_lua :: toy_io lua_api" "\<lambda>o'. []"
        "\<lparr>log_level = 1, log_fd = 2\<rparr>" "[]" "lua_bytes ''m''" "lua_bytes ''t''" "\<lambda>o' fd line. o' @ [line]"]
    by (auto simp: s level_names_def level_correspondence_def log_line_def log_level_message_def logged_def)
qed

end
