(* ===== verification/BindReach.thy ===== *)
theory BindReach
  imports BindSocketProps LoopProps
begin

text \<open>
  The bindings reach the state of the loop by its functions only: every function bound to Lua and
  every callback is a sequence of calls of \<open>LoopProps.api_step\<close>, when the scripts are. So the
  invariant of the loop holds in every state of the program.
\<close>

section \<open>Sequences of calls\<close>

definition by_calls :: "'e libevent \<Rightarrow> 'e bst \<Rightarrow> 'e bst \<Rightarrow> bool" where
  "by_calls ev st st' \<longleftrightarrow> (api_step (on_world ev))\<^sup>*\<^sup>* st st'"

lemma by_calls_refl [simp, intro!]: "by_calls ev st st"
  by (simp add: by_calls_def)

lemma by_calls_trans [trans]: "by_calls ev st st1 \<Longrightarrow> by_calls ev st1 st2 \<Longrightarrow> by_calls ev st st2"
  by (auto simp: by_calls_def)

lemma by_calls_step: "api_step (on_world ev) st1 st2 \<Longrightarrow> by_calls ev st st1 \<Longrightarrow> by_calls ev st st2"
  by (auto simp: by_calls_def)

named_theorems calls \<open>a call more\<close>

lemma by_calls_lib [calls]: "by_calls ev st st1 \<Longrightarrow> by_calls ev st (st1\<lparr>lib := w\<rparr>)"
  by (blast intro: by_calls_step api_other)

lemma by_calls_parts [calls]:
  "by_calls ev st st1 \<Longrightarrow> by_calls ev st (set_lvm v st1)"
  "by_calls ev st st1 \<Longrightarrow> by_calls ev st (put_sd a sd st1)"
  "by_calls ev st st1 \<Longrightarrow> by_calls ev st (put_ld a ld st1)"
  "by_calls ev st st1 \<Longrightarrow> by_calls ev st (reg_unref api r st1)"
  "by_calls ev st st1 \<Longrightarrow> by_calls ev st (set_world f st1)"
  "by_calls ev st st1 \<Longrightarrow> by_calls ev st (bind_loop_socket_setmetatable api u st1)"
  by (simp_all add: set_lvm_def put_sd_def put_ld_def reg_unref_def set_world_def bind_loop_socket_setmetatable_def calls)

lemma by_calls_ref: "reg_ref api v st1 = (r, st2) \<Longrightarrow> by_calls ev st st1 \<Longrightarrow> by_calls ev st st2"
  by (auto simp: reg_ref_def set_lvm_def intro!: calls split: prod.splits)

lemma by_calls_new: "new_socket api st1 = (a, st2) \<Longrightarrow> by_calls ev st st1 \<Longrightarrow> by_calls ev st st2"
  by (auto simp: new_socket_def reg_ref_def set_lvm_def put_sd_def intro!: calls simp: Let_def split: prod.splits)

lemma by_calls_api:
  "loop_sock_close (on_world ev) st1 h = Some st2 \<Longrightarrow> by_calls ev st st1 \<Longrightarrow> by_calls ev st st2"
  "loop_sock_write (on_world ev) st1 h d = Some st2 \<Longrightarrow> by_calls ev st st1 \<Longrightarrow> by_calls ev st st2"
  "loop_sock_peek (on_world ev) st1 h n = Some (x, y, st2) \<Longrightarrow> by_calls ev st st1 \<Longrightarrow> by_calls ev st st2"
  "loop_sock_drop (on_world ev) st1 h n = Some st2 \<Longrightarrow> by_calls ev st st1 \<Longrightarrow> by_calls ev st st2"
  "loop_tcp_connect (on_world ev) st1 host port cbs = Some (o', st2) \<Longrightarrow> by_calls ev st st1 \<Longrightarrow> by_calls ev st st2"
  "loop_tcp_listen (on_world ev) st1 port cb = Some (o', st2) \<Longrightarrow> by_calls ev st st1 \<Longrightarrow> by_calls ev st st2"
  "loop_listener_close (on_world ev) st1 h = Some st2 \<Longrightarrow> by_calls ev st st1 \<Longrightarrow> by_calls ev st st2"
  "loop_add_timer (on_world ev) st1 secs cb = Some st2 \<Longrightarrow> by_calls ev st st1 \<Longrightarrow> by_calls ev st st2"
  "loop_exit_early (on_world ev) st1 = Some st2 \<Longrightarrow> by_calls ev st st1 \<Longrightarrow> by_calls ev st st2"
  "loop_stop_watching (on_world ev) st1 h = Some st2 \<Longrightarrow> by_calls ev st st1 \<Longrightarrow> by_calls ev st st2"
  "loop_watch_fd_for_reading (on_world ev) st1 fd cb = Some (h, st2) \<Longrightarrow> by_calls ev st st1 \<Longrightarrow> by_calls ev st st2"
  by (blast intro: by_calls_step api_step.intros)+

lemmas by_calls_all = by_calls_api by_calls_ref by_calls_new

text \<open>A function whose results are reached by calls.\<close>

definition calls_fn :: "'e libevent \<Rightarrow> ('e bst \<Rightarrow> ('r \<times> 'e bst) run) \<Rightarrow> bool" where
  "calls_fn ev f \<longleftrightarrow> (\<forall>st r st'. f st = Some (r, st') \<longrightarrow> by_calls ev st st')"

lemma calls_fnI: "(\<And>st r st'. f st = Some (r, st') \<Longrightarrow> by_calls ev st st') \<Longrightarrow> calls_fn ev f"
  by (simp add: calls_fn_def)

lemma calls_fnD: "calls_fn ev f \<Longrightarrow> f st1 = Some (r, st2) \<Longrightarrow> by_calls ev st st1 \<Longrightarrow> by_calls ev st st2"
  unfolding calls_fn_def by (blast intro: by_calls_trans)

section \<open>The bound functions\<close>

lemma gc_calls: "calls_fn ev (\<lambda>st. bind_loop_sock_gc api ev st args)"
  by (rule calls_fnI)
    (auto simp: bind_loop_sock_gc_def check_sock_def ret_def Let_def
      split: lval.splits if_splits Option.bind_splits option.splits intro!: calls elim!: by_calls_api)

lemma write_calls: "calls_fn ev (\<lambda>st. bind_loop_sock_write api ev st args)"
  by (rule calls_fnI)
    (auto simp: bind_loop_sock_write_def check_sock_def ret_def Let_def require_exactly_def luaL_checklstring_def
      split: lval.splits if_splits Option.bind_splits option.splits intro!: calls elim!: by_calls_api)

lemma close_calls: "calls_fn ev (\<lambda>st. bind_loop_sock_close api ev st args)"
  by (rule calls_fnI)
    (auto simp: bind_loop_sock_close_def check_sock_def ret_def require_exactly_def
      split: lval.splits if_splits Option.bind_splits elim!: calls_fnD [OF gc_calls])

lemma get_calls:
  "calls_fn ev (\<lambda>st. bind_loop_sock_get_hostname api st args)"
  "calls_fn ev (\<lambda>st. bind_loop_sock_get_port api st args)"
  "calls_fn ev (\<lambda>st. bind_loop_sock_id api place st args)"
  "calls_fn ev (\<lambda>st. bind_loop_sock_tostring api place st args)"
  "calls_fn ev (\<lambda>st. bind_loop_listener_tostring api st args)"
  by (rule calls_fnI,
      auto simp: bind_loop_sock_get_hostname_def bind_loop_sock_get_port_def bind_loop_sock_id_def
        bind_loop_sock_tostring_def bind_loop_listener_tostring_def check_sock_def check_listener_def ret_def require_exactly_def
      split: lval.splits if_splits Option.bind_splits)+

lemma listener_gc_calls: "calls_fn ev (\<lambda>st. bind_loop_listener_gc api ev st args)"
  by (rule calls_fnI)
    (auto simp: bind_loop_listener_gc_def check_listener_def ret_def Let_def
      split: lval.splits if_splits Option.bind_splits option.splits intro!: calls elim!: by_calls_api)

lemma timer_calls: "calls_fn ev (\<lambda>st. bind_a_timer api ev conv st args)"
  by (rule calls_fnI)
    (auto simp: bind_a_timer_def lua_checks ret_def Let_def
      split: if_splits Option.bind_splits option.splits prod.splits intro!: calls elim!: by_calls_api by_calls_ref)

lemma stop_calls: "calls_fn ev (\<lambda>st. bind_stop_loop ev st args)"
  by (rule calls_fnI)
    (auto simp: bind_stop_loop_def require_exactly_def ret_def split: if_splits Option.bind_splits elim!: by_calls_api)

lemma listen_calls: "calls_fn ev (\<lambda>st. bind_loop_tcp_listen api ev st args)"
  by (rule calls_fnI)
    (auto simp: bind_loop_tcp_listen_def lua_checks ret_def Let_def
      split: if_splits Option.bind_splits option.splits prod.splits intro!: calls elim!: by_calls_api by_calls_ref)

section \<open>Functions that call scripts\<close>

text \<open>What scripts do, they do by calls.\<close>

definition calls_lua :: "'e libevent \<Rightarrow> 'e bst lua_caller \<Rightarrow> bool" where
  "calls_lua ev call \<longleftrightarrow> (\<forall>f args. calls_fn ev (call f args))"

lemma calls_luaD: "calls_lua ev call \<Longrightarrow> call f args st1 = Some (r, st2) \<Longrightarrow> by_calls ev st st1 \<Longrightarrow> by_calls ev st st2"
  unfolding calls_lua_def by (blast intro: calls_fnD)

lemma field_calls:
  assumes "cbref_field api t a name upd st1 k = Some (r, st')" and "by_calls ev st st1"
    and k: "\<And>st2. by_calls ev st st2 \<Longrightarrow> k st2 = Some (r, st') \<Longrightarrow> by_calls ev st st'"
  shows "by_calls ev st st'"
proof -
  obtain x st2 where ref: "reg_ref api (getfield api (lvm st1) t name) st1 = (x, st2)" by fastforce
  then have "by_calls ev st st2" using assms(2) by (rule by_calls_ref)
  then have "by_calls ev st (put_sd a sd st2)" for sd by (rule calls)
  then show ?thesis
    using assms(1,2) k by (auto simp: cbref_field_def ref Let_def split: if_splits Option.bind_splits)
qed

lemma fields_calls: "calls_fn ev (\<lambda>st. cbref_fields api st a t)"
proof (rule calls_fnI)
  fix st r st' assume "cbref_fields api st a t = Some (r, st')"
  then show "by_calls ev st st'" unfolding cbref_fields_def
    by (elim field_calls [OF _ by_calls_refl] field_calls) auto
qed

lemma setup_calls:
  assumes "calls_lua ev call"
  shows "calls_fn ev (\<lambda>st. bind_loop_sock_setup_cbrefs api call st a v)"
  by (rule calls_fnI)
    (auto simp: bind_loop_sock_setup_cbrefs_def Let_def split: if_splits Option.bind_splits sum.splits
      intro!: calls elim!: calls_fnD [OF fields_calls] calls_luaD [OF assms])

lemma connect_calls:
  assumes "calls_lua ev call"
  shows "calls_fn ev (\<lambda>st. bind_loop_tcp_connect api ev call st args)"
  by (rule calls_fnI)
    (auto simp: bind_loop_tcp_connect_def lua_checks ret_def Let_def
      split: if_splits Option.bind_splits sum.splits prod.splits option.splits lval.splits
      intro!: calls elim!: calls_fnD [OF setup_calls [OF assms]] by_calls_api by_calls_new)

lemma accept_calls:
  assumes "calls_lua ev call"
  shows "calls_fn ev (bind_loop_accept_cb api call base ip h l)"
  by (rule calls_fnI)
    (auto simp: bind_loop_accept_cb_def Let_def
      split: Option.bind_splits sum.splits prod.splits lua_exc.splits
      intro!: calls elim!: calls_fnD [OF setup_calls [OF assms]] by_calls_ref by_calls_new)

lemma read_calls:
  fixes ev :: "'e libevent"
  assumes "calls_lua ev call"
  shows "calls_fn ev (read_cb_loop api ev call n h a)"
proof -
  have "\<forall>r st'. call' = call \<longrightarrow> ev' = ev \<longrightarrow> y = (r, st') \<longrightarrow> by_calls ev st st'"
    if "read_cb_loop api ev' call' n h a st = Some y" for ev' call' st y
    using that
  proof (rule read_cb_loop.raw_induct [of "\<lambda>api ev' call' n h a st y. \<forall>r st'. call' = call \<longrightarrow> ev' = ev \<longrightarrow> y = (r, st') \<longrightarrow> by_calls ev st st'", rotated],
      intro allI impI, goal_cases)
    case (1 f api ev' call' n h a st y r st')
    have f: "by_calls ev s st2" if "f api ev call m h a st1 = Some (r, st2)" "by_calls ev s st1" for m st1 r st2 s
      using 1(1) [OF that(1)] that(2) by (blast intro: by_calls_trans)
    have eqs: "call' = call" "ev' = ev" "y = (r, st')" by (fact 1)+
    show ?case
      using 1(2) unfolding eqs
      by (auto simp: ret_def Let_def split: if_splits Option.bind_splits sum.splits
        intro!: calls elim!: calls_luaD [OF assms] by_calls_api f)
  qed
  then show ?thesis by (auto intro: calls_fnI)
qed

section \<open>The callbacks\<close>

definition scripts_by_calls :: "'e libevent \<Rightarrow> 'e scripts \<Rightarrow> bool" where
  "scripts_by_calls ev sc \<longleftrightarrow> calls_lua ev (lua_run sc) \<and> (\<forall>s. calls_fn ev (dostring sc s) \<and> calls_fn ev (dofile sc s)) \<and>
     calls_fn ev (gc_step sc)"

lemma end_calls: "end_interactive_loop ev st1 = Some st2 \<Longrightarrow> by_calls ev st st1 \<Longrightarrow> by_calls ev st st2"
  by (auto simp: end_interactive_loop_def split: if_splits Option.bind_splits intro!: calls elim!: by_calls_api)

lemma start_calls: "start_interactive_loop ev sc st1 = Some st2 \<Longrightarrow> by_calls ev st st1 \<Longrightarrow> by_calls ev st st2"
  by (auto simp: start_interactive_loop_def Let_def split: if_splits Option.bind_splits intro!: calls elim!: by_calls_api)

lemma got_line_calls:
  assumes "scripts_by_calls ev sc"
  shows "calls_fn ev (got_line api ev sc line)"
proof -
  have s: "calls_fn ev (dostring sc s)" for s using assms by (simp add: scripts_by_calls_def)
  show ?thesis
    by (rule calls_fnI)
      (auto simp: got_line_def ret_def split: option.splits if_splits Option.bind_splits sum.splits
        intro!: calls elim!: calls_fnD [OF s] end_calls)
qed

lemma cb_calls:
  assumes "calls_lua ev call"
  shows "calls_fn ev (bind_loop_read_cb api ev call n h a)" "calls_fn ev (bind_loop_connect_cb api call a)"
    "calls_fn ev (bind_loop_error_cb api ev call err a)" "calls_fn ev (timer_cb api ev call t)"
  by (rule calls_fnI,
      auto simp: bind_loop_read_cb_def bind_loop_connect_cb_def bind_loop_error_cb_def timer_cb_def ret_def Let_def
      split: if_splits Option.bind_splits sum.splits intro!: calls
      elim!: calls_fnD [OF read_calls [OF assms]] calls_luaD [OF assms] calls_fnD [OF gc_calls] by_calls_api)+

lemma run_cb_calls:
  assumes "scripts_by_calls ev sc"
  shows "calls_fn ev (run_cb api ev sc cb x)"
proof -
  have lua: "calls_lua ev (lua_run sc)" and gc: "calls_fn ev (gc_step sc)"
    using assms by (simp_all add: scripts_by_calls_def)
  show ?thesis
    by (rule calls_fnI)
      (auto simp: run_cb_def stdin_callback_fn_def gc_loop_fn_def ret_def Let_def
        split: bind_cb.splits cb_arg.splits if_splits option.splits prod.splits
        intro!: calls elim!: calls_fnD [OF cb_calls(1) [OF lua]] calls_fnD [OF cb_calls(2) [OF lua]]
          calls_fnD [OF cb_calls(3) [OF lua]] calls_fnD [OF cb_calls(4) [OF lua]] calls_fnD [OF got_line_calls [OF assms]]
          calls_fnD [OF gc])
qed

text \<open>So the callbacks are what the model of the loop asks of a program.\<close>

lemma bind_caller_by_api:
  assumes "scripts_by_calls ev sc"
  shows "by_api (on_world ev) (bind_caller api ev sc) (\<lambda>_ _ _ _. None)"
proof -
  have "by_calls ev st st'" if "bind_caller api ev sc cb x st = Some st'" for cb x st st'
    using that by (auto simp: bind_caller_def split: Option.bind_splits sum.splits
      intro!: calls elim!: calls_fnD [OF run_cb_calls [OF assms]])
  then show ?thesis by (simp add: by_api_def by_calls_def)
qed

section \<open>The program\<close>

text \<open>A script is run, the prompt is started, or libevent runs a handler.\<close>

inductive bind_step :: "'e lua_api \<Rightarrow> 'e libevent \<Rightarrow> 'e scripts \<Rightarrow> 'e bst \<Rightarrow> 'e bst \<Rightarrow> bool" for api ev sc where
  step_string: "dostring sc s st = Some (r, st') \<Longrightarrow> bind_step api ev sc st st'"
| step_file: "dofile sc s st = Some (r, st') \<Longrightarrow> bind_step api ev sc st st'"
| step_start: "start_interactive_loop ev sc st = Some st' \<Longrightarrow> bind_step api ev sc st st'"
| step_timer: "loop_timeout_cb (on_world ev) (bind_caller api ev sc) st t = Some st' \<Longrightarrow> bind_step api ev sc st st'"
| step_read: "loop_sock_cb_read (on_world ev) (bind_caller api ev sc) st h = Some st' \<Longrightarrow> bind_step api ev sc st st'"
| step_event: "loop_sock_cb_event (on_world ev) (bind_caller api ev sc) st h es = Some st' \<Longrightarrow> bind_step api ev sc st st'"
| step_accept: "bind_accept_conn api ev sc st l fd inet ip = Some st' \<Longrightarrow> bind_step api ev sc st st'"
| step_watch: "loop_watch_fd_cb (bind_caller api ev sc) st x = Some st' \<Longrightarrow> bind_step api ev sc st st'"
| step_whenever: "whenever_loop (bind_caller api ev sc) 0 st = Some st' \<Longrightarrow> bind_step api ev sc st st'"

definition bind_reaches :: "'e lua_api \<Rightarrow> 'e libevent \<Rightarrow> 'e scripts \<Rightarrow> 'e bind_world \<Rightarrow> 'e bst \<Rightarrow> bool" where
  "bind_reaches api ev sc w st \<longleftrightarrow> (\<exists>st0. loop_setup (on_world ev) (loop_start w) = Some st0 \<and>
     (bind_step api ev sc)\<^sup>*\<^sup>* (st0\<lparr>whenever_fns := [GcLoopFn]\<rparr>) st)"

lemma by_calls_inv: "by_calls ev st st' \<Longrightarrow> loop_inv k st \<Longrightarrow> 0 \<le> k \<Longrightarrow> loop_inv k st'"
  unfolding by_calls_def by (rule api_steps_inv)

lemma bind_accept_inv:
  assumes sc: "scripts_by_calls ev sc" and acc: "bind_accept_conn api ev sc st l fd inet ip = Some st'"
    and inv: "loop_inv k st" "0 \<le> k"
  shows "loop_inv k st'"
proof -
  have lua: "calls_lua ev (lua_run sc)" using sc by (simp add: scripts_by_calls_def)
  obtain a r st2 where 1: "bind_loop_accept_cb api (lua_run sc) (lua_stack (lib st)) ip (length (socks st)) a (with_handle st) = Some (r, st2)"
    and 2: "(case r of
       Inl e \<Rightarrow> Some (set_world (raised_update (\<lambda>_. Some e)) st2)
     | Inr (n, cbs) \<Rightarrow>
         loop_accept_conn (on_world ev) (bind_caller api ev sc) (\<lambda>_ _ _ _. Some (n, cbs, st2)) st l fd inet ip) = Some st'"
    using acc by (auto simp: bind_accept_conn_def Let_def with_handle_def split: Option.bind_splits bind_cb.splits)
  have "loop_inv k (with_handle st)" using new_handle_inv [OF inv(1)] by (simp add: with_handle_def)
  then have inv2: "loop_inv k st2"
    using by_calls_inv calls_fnD [OF accept_calls [OF lua] 1 by_calls_refl] inv(2) by blast
  show ?thesis
  proof (cases r)
    case (Inl e)
    then show ?thesis using 2 inv2 by (auto simp: set_world_def)
  next
    case (Inr x)
    then show ?thesis
      using 2 accept_conn_keeps [OF bind_caller_by_api [OF sc] _ inv] inv2 by (fastforce split: prod.splits)
  qed
qed

lemma bind_step_inv:
  assumes "scripts_by_calls ev sc" and "bind_step api ev sc st st'" and "loop_inv k st" and "0 \<le> k"
  shows "loop_inv k st'"
  using assms(2)
proof cases
  case (step_string s r)
  then have "by_calls ev st st'" using assms(1) by (auto simp: scripts_by_calls_def calls_fn_def)
  then show ?thesis using by_calls_inv assms(3,4) by blast
next
  case (step_file s r)
  then have "by_calls ev st st'" using assms(1) by (auto simp: scripts_by_calls_def calls_fn_def)
  then show ?thesis using by_calls_inv assms(3,4) by blast
next
  case step_start
  then show ?thesis using by_calls_inv [OF start_calls [OF _ by_calls_refl]] assms(3,4) by blast
next
  case (step_accept l fd inet ip)
  then show ?thesis using bind_accept_inv [OF assms(1)] assms(3,4) by blast
next
  case (step_watch x)
  then show ?thesis
    using call_inv [OF bind_caller_by_api [OF assms(1)]] assms(3,4)
    by (fastforce simp: loop_watch_fd_cb_def split: Option.bind_splits)
qed (use assms(3,4) in \<open>blast intro: timeout_inv [OF bind_caller_by_api [OF assms(1)]] read_inv [OF bind_caller_by_api [OF assms(1)]]
    event_inv [OF bind_caller_by_api [OF assms(1)]] whenever_inv [OF bind_caller_by_api [OF assms(1)]]\<close>)+

lemma bind_reaches_inv:
  assumes "scripts_by_calls ev sc" and "bind_reaches api ev sc w st"
  shows "loop_inv 0 st"
proof -
  obtain st0 where st0: "loop_setup (on_world ev) (loop_start w) = Some st0"
      "(bind_step api ev sc)\<^sup>*\<^sup>* (st0\<lparr>whenever_fns := [GcLoopFn]\<rparr>) st"
    using assms(2) by (auto simp: bind_reaches_def)
  have "loop_inv 0 (st0\<lparr>whenever_fns := [GcLoopFn]\<rparr>)"
    using st0(1) by (auto simp: loop_setup_def loop_start_def loop_frame split: prod.splits Option.bind_splits)
  with st0(2) show ?thesis
    by (induction rule: rtranclp_induct) (auto intro: bind_step_inv [OF assms(1)])
qed

text \<open>C30: In every state that the program reaches by making fewer than 2^31 handles, whatever its scripts do with the bindings and whatever
  libevent answers, the resolver exists exactly when it has users and no assertion of the
  reference counting fails: the bound functions and the callbacks, errors included, reach the
  loop by its functions only.\<close>

theorem bind_program_resolver_counts:
  assumes "scripts_by_calls ev sc" and "bind_reaches api ev sc w st" and "length (socks st) < 2 ^ 31"
  shows "(base_dns st \<longleftrightarrow> base_dns_users st > 0) \<and> live_users st \<le> base_dns_users st \<and>
    (\<forall>h s. cell (socks st) h = Some s \<longrightarrow> drop_dns (on_world ev) st h s \<noteq> None) \<and>
    (fst (evdns_base_new ev (lvm st)) \<longrightarrow> evdns_refcount_increment (on_world ev) st \<noteq> None)"
proof -
  have "fst (evdns_base_new (on_world ev) (lib st)) = fst (evdns_base_new ev (lvm st))"
    by (simp add: on_world_def on_world1_def lvm_def split: prod.split)
  then show ?thesis
    using bind_reaches_inv [OF assms(1,2)] drop_dns_runs [of 0 st] increment_runs [of 0 st "on_world ev"] assms(3)
    by (simp add: loop_inv_def users_inv_def few_handles_def)
qed

section \<open>Example\<close>

text \<open>The program runs a file that opens a connection; its functions do nothing or close a socket.\<close>

definition toy_connecting :: "toy_io scripts" where
  "toy_connecting = toy_scripts\<lparr>dofile := \<lambda>s st.
     bind_loop_tcp_connect toy_lua toy_ev toy_run st [LStr [104], LNum (Fin (of_nat 80)), LTab 0]\<rparr>"

definition toy_begun :: "toy_io bst" where
  "toy_begun = (toy_loop [] [] (toy_world (toy_io0 [] [] []) [] []))\<lparr>whenever_fns := [GcLoopFn]\<rparr>"

lemma toy_begun_start:
  "loop_setup (on_world toy_ev) (loop_start (lib toy_begun)) = Some (toy_begun\<lparr>whenever_fns := []\<rparr>)"
  by (simp add: loop_setup_def loop_start_def toy_begun_def toy_loop_def on_world_def on_world1_def toy_ev_def toy_world_def)

lemma toy_run_calls: "calls_lua toy_ev toy_run"
  unfolding calls_lua_def
  by (auto simp: toy_run_def ret_def split: lval.splits if_splits Option.bind_splits
    intro!: calls_fnI calls elim!: calls_fnD [OF close_calls])

lemma toy_connecting_calls: "scripts_by_calls toy_ev toy_connecting"
  by (auto simp: scripts_by_calls_def toy_connecting_def toy_scripts_def toy_run_calls connect_calls calls_fn_def ret_def
    dest: calls_fnD [OF connect_calls [OF toy_run_calls] _ by_calls_refl])

theorem bind_program_resolver_counts_witness:
  "\<exists>st. dofile toy_connecting ''x'' toy_begun = Some (Inr [LSock 0], st) \<and>
    (base_dns st \<longleftrightarrow> base_dns_users st > 0) \<and> live_users st \<le> base_dns_users st"
proof -
  have 1: "num_to_int toy_lua (Fin (of_nat 80)) = 80" using c_trunc_nat [of 80] by (simp add: toy_lua_def)
  have 2: "connects toy_ev" by (simp add: connects_def toy_ev_def)
  have 3: "callbacks toy_lua (lvm toy_begun) 0 1 2 3 4" "sock_mem (lib toy_begun) = []" "ev_base toy_begun"
      "\<not> base_dns toy_begun" "c_string [104] \<noteq> []"
    by (simp_all add: toy_begun_def toy_loop_def toy_world_def lvm_def toy_io0_def callbacks_def toy_lua_def c_string_def)
  from 1 2 3 obtain st where st: "dofile toy_connecting ''x'' toy_begun = Some (Inr [LSock 0], st)"
      and n: "length (socks st) = Suc (length (socks toy_begun))"
    using toy_events.connect_table [of toy_begun "Fin (of_nat 80)" 80 "[104]" 0 1 2 3 4 _ toy_run]
    by (force simp: toy_connecting_def)
  have "toy_begun\<lparr>whenever_fns := []\<rparr>\<lparr>whenever_fns := [GcLoopFn]\<rparr> = toy_begun" by (simp add: toy_begun_def)
  with st toy_begun_start have "bind_reaches toy_lua toy_ev toy_connecting (lib toy_begun) st"
    unfolding bind_reaches_def by (metis r_into_rtranclp step_file)
  moreover have "length (socks st) < 2 ^ 31" using n by (simp add: toy_begun_def toy_loop_def)
  ultimately show ?thesis
    using bind_program_resolver_counts [OF toy_connecting_calls, where w = "lib toy_begun" and st = st] st by blast
qed

end
