(* ===== verification/Spec2Isabelle.thy ===== *)
theory Spec2Isabelle
  imports Endian Bitvector Crc Bdev Contract BaseIO PosixIO Slice Devices Concat Stripe
    Verify VerifyContract Xor XorRows XorContract Encrypt GaloisField Gauss ReedSolomon
    Erasure BlockCache Lazyzero LazyContract Nbd
    Partitioner PartMap PartContract PartCreate PartProps Loop LoopProps Logger
    Lua DevHeap BindBdev BindBdevProps BindLoop BindSocket BindTimer BindMain BindSocketProps BindMainProps BindReach
begin

text \<open>
  A verification development for druid, a library of stackable block devices in C.

  THE PROGRAM. A block device (\<open>struct bdev\<close>, \<open>src/src/bdev.h\<close>) is a set of function
  pointers with a private part: it reads and writes whole blocks, and byte ranges by way of the
  generic functions of \<open>src/src/bdev.c\<close>. The devices at the bottom (\<open>layers/baseio.c\<close>)
  are memory, a mapped file or a file descriptor. The layers are devices built over other
  devices: a window (\<open>slice.c\<close>), a concatenation (\<open>concat.c\<close>), striping (\<open>stripe.c\<close>),
  parity (\<open>xor.c\<close>), checksums (\<open>verify.c\<close>), encryption (\<open>encrypt.c\<close>), lazy zeroing
  (\<open>lazyzero.c\<close>, over the cache of \<open>block-cache.c\<close>) and partitions (\<open>partitioner.c\<close>).
  \<open>nbd.c\<close> serves a device over the network. \<open>rs/\<close> is an erasure code for the parity of several
  devices, \<open>loop.c\<close> an event loop over libevent and \<open>logger.c\<close> the log; the programs drive all of
  this from Lua: \<open>lua/\<close> binds the devices, the loop and the log to scripts.

  THE MODEL. A device is a record of functions over a state (\<open>Bdev.bdev\<close>); a layer's state
  is its own mutable memory (\<open>Bdev.obj\<close>: the generic block buffer and the private struct)
  and the state of what lies below. What a layer never changes after it is opened (its base
  devices and its geometry) is an argument of its operations. A run of a C function is an
  option (\<open>Prelude.run\<close>): \<open>None\<close> stands for a run that is aborted (a failed \<open>assert\<close>)
  or undefined (a division by zero, an access outside a buffer), so every theorem that an
  operation returns \<open>Some\<close> shows that no assertion fails and no buffer is overrun. A boolean
  result of the code is a boolean result of the model. \<open>uint64_t\<close> is a 64-bit word, with the
  wrap-around of the code; the offsets it is used for are read with \<open>unat\<close>. An \<open>int\<close> is an
  integer; where it can overflow (the count of the resolver's users, the counter of a loop over the bytes of a
  block) it wraps at 32 bits (\<open>Prelude.c_int\<close>, \<open>Prelude.int_below\<close>), and the theorems that need it
  not to carry the bound. Memory is a list
  of bytes; a read takes the caller's buffer and returns it, because a failed read may leave it
  changed. A write takes its data from memory of the caller or, as \<open>generic_write_bytes\<close>
  does, from the device's own buffer (\<open>Bdev.src\<close>), which is an aliasing that matters.
  \<open>malloc\<close> is an argument of the functions that open a device; an allocation that fails calls
  \<open>err\<close> in the code and is \<open>None\<close> here. The system calls are fields of \<open>BaseIO.os\<close>.

  THE CONTRACT. \<open>Contract.block_device\<close> is the interface of a device as a locale: in every valid
  state the contents are \<open>block_count\<close> blocks of \<open>block_size\<close> bytes; a read that succeeds
  returns the contents and changes none; a write that succeeds changes exactly the range written
  and one that fails changes at most the blocks of the range; the maintenance operations keep
  the contents; no operation is aborted; and, over a reliable device (\<open>rel\<close>), reads and
  writes always succeed. \<open>Contract.generic_dev\<close> is the part of it that a layer with the generic
  byte operations has to show, and its lemmas give the rest. \<open>Devices.device_array\<close> is the
  contract of several devices over one state.

  THE THEORIES, in the order of their dependence:

  \<^item> \<open>Prelude\<close>: types, runs, memory access, lists cut into blocks. \<open>Endian\<close>
    (\<open>endian-fns.h\<close>), \<open>Bitvector\<close> (\<open>bitvector.h\<close>) and \<open>Crc\<close> (\<open>crc.c\<close>): the helpers,
    with round trips, and the proof that the CRC table is the table of its polynomial.
  \<^item> \<open>Bdev\<close> (\<open>bdev.h\<close>, \<open>bdev.c\<close>), \<open>Contract\<close>: the device object, the generic byte
    operations and the contract.
  \<^item> \<open>BaseIO\<close> and \<open>PosixIO\<close> (\<open>layers/baseio.c\<close>): the devices at the bottom; the
    contract holds over the documented behaviour of \<open>msync\<close>, \<open>pread\<close> and \<open>pwrite\<close>.
  \<^item> \<open>Slice\<close>, \<open>Concat\<close>, \<open>Stripe\<close> (over \<open>Devices\<close>): each layer keeps the contract, with
    its contents stated as a function of the contents below.
  \<^item> \<open>Verify\<close>, \<open>VerifyContract\<close> (\<open>layers/verify.c\<close>): the checksum layer, its map of blocks, and
    the detection of damage by every later read.
  \<^item> \<open>Xor\<close>, \<open>XorRows\<close>, \<open>XorContract\<close> (\<open>layers/xor.c\<close>): the parity layer, the algebra of
    balanced rows, and the recovery of a lost block.
  \<^item> \<open>Encrypt\<close> (\<open>layers/encrypt.c\<close>): the encryption layer over OpenSSL's functions as
    parameters, its header, and the round trip of creating and opening.
  \<^item> \<open>GaloisField\<close> (\<open>rs/galois_field.c\<close>), \<open>Gauss\<close>, \<open>ReedSolomon\<close> and \<open>Erasure\<close>
    (\<open>rs/reed_solomon.c\<close>): the table arithmetic is that of a field, the linear algebra of
    row and column reduction, the erasure code, and the recovery of the data from any \<open>n\<close> of the
    \<open>n + m\<close> symbols.
  \<^item> \<open>BlockCache\<close> (\<open>block-cache.c\<close>), \<open>Lazyzero\<close> and \<open>LazyContract\<close> (\<open>layers/lazyzero.c\<close>):
    the write-back cache and its transparency, and the lazy zeroing layer over it, which keeps the
    contract of the block operations while it is open, with the ways in which it loses data.
  \<^item> \<open>Nbd\<close> (\<open>layers/nbd.c\<close>): the network server of a device; the socket calls are fields of
    \<open>Nbd.net\<close>, \<open>Nbd.tcp_conn\<close> says what the server relies on. The request loop takes fuel, one
    turn a request; \<open>nbd_client_ends\<close> gives the fuel that is always enough.
  \<^item> \<open>Partitioner\<close> (\<open>layers/partitioner.c\<close>): the operations. \<open>PartMap\<close>: the bitmap and the map
    of blocks read off the device, the invariant of the struct, the scan for a free block, which
    always ends. \<open>PartContract\<close>: an open partition keeps the contract over a reliable device.
    \<open>PartCreate\<close>: initialising and enlarging. \<open>PartProps\<close>: the properties. The scan is a
    \<open>partial_function\<close>, so its end is proved and not assumed.
  \<^item> \<open>Loop\<close> and \<open>LoopProps\<close> (\<open>loop.c\<close>): the event loop over libevent, whose calls are fields of
    \<open>Loop.libevent\<close>; callbacks are values that a parameter interprets. The calls of the API and the
    handlers are a step relation, \<open>loop_reaches\<close> its reachable states; the invariant is about the
    users of the resolver, and holds with a number of leaked users, which never falls, while fewer
    than 2^31 handles have been made: then the count may wrap around.
  \<^item> \<open>Logger\<close> (\<open>logger.c\<close>): the line buffer of the log, and the length of line that fits.
  \<^item> \<open>Lua\<close> (\<open>lua/bind.h\<close>): what the bindings use of the Lua interpreter, as a record of parameters
    with the laws of its manual (\<open>lua_interpreter\<close>), and the checks of arguments. A function bound
    to Lua takes the list of its arguments and returns values or raises. \<open>DevHeap\<close>: the private
    parts of all devices in one memory, and how a layer's contract carries over to it.
    \<open>BindBdev\<close> and \<open>BindBdevProps\<close> (\<open>lua/bind-bdevs.c\<close>): the devices as objects of a script;
    which arguments end the process in the calls that read and write (a request that passes the
    checks without memory for it, as one that wraps around does), and the functions that open layers compose the contracts of the layers.
  \<^item> \<open>BindLoop\<close>: the state of the other bindings, which is the loop's with the structs of the
    bindings and the world outside as its library state. \<open>BindSocket\<close> (\<open>lua/bind-socket.c\<close>),
    \<open>BindTimer\<close> (\<open>lua/bind-timer.c\<close>, \<open>lua/bind-logger.c\<close>), \<open>BindMain\<close> (\<open>lua/main.c\<close>): the methods, the
    callbacks given to the loop, the prompt and the program. The interpreter calling a function
    of a script is a parameter, and the function may call the bindings. An error raised in a
    callback leaves the loop by \<open>longjmp\<close>: it is kept in the state (\<open>raised\<close>) while the functions
    of the loop return.
  \<^item> \<open>BindSocketProps\<close> and \<open>BindMainProps\<close>: the life of a socket through the handlers of the loop
    (accepted, read, closed), the timers, the log, and the scripts that end the program. A timer
    keeps its function in every run of a step relation (\<open>script_step\<close>, \<open>timer_step\<close>) in which timers are
    set and fire and no step gives back a reference that a timer holds.
    \<open>lua_events\<close> says that libevent leaves the interpreter alone and gives received data in order.
  \<^item> \<open>BindReach\<close>: the program as a step relation (a script is run, the prompt is started, libevent
    runs a handler). Whatever the scripts do with the bindings, the bindings reach the loop by its
    functions only, so the invariant of the loop (\<open>LoopProps\<close>) holds in every state of the program.

  NOT MODELLED. \<open>lua/bind.c\<close> calls the four functions that register the bindings, and
  \<open>lua/bind-porcelain.c\<close> hands a script that the build generates to the interpreter. \<open>rs_free\<close>
  only frees. Messages to the log and to \<open>stderr\<close> are left out, except those of scripts. In
  \<open>lua/bind-bdevs.c\<close> the part that is compiled out is left out. Errors that the
  interpreter raises by itself in the midst of a bound function (no memory left) are not modelled,
  and neither are fields of tables with metatables. The test programs drive the layers.
\<close>

end
